(* ===== verification/Prelude.thy ===== *)
theory Prelude
  imports Main "HOL-Library.Word" "HOL-Library.Char_ord" "HOL-Library.Multiset"
begin

text \<open>
  Shared material of the development: the C conventions the sources rely on (NUL-terminated
  strings as \<open>string\<close>, possibly-NULL pointers as \<open>option\<close>, return codes as \<open>int\<close>), the
  three-way comparators, the interval bisection every binary search of the sources runs, and the
  generic lemmas the component theories use.
\<close>

named_theorems char_class \<open>definitions of the locale-independent character classes\<close>

text \<open>
  A C string is the list of its bytes up to, and without, the terminating NUL: the test
  \<open>*p == 0\<close> of the sources is \<open>p = []\<close>, \<open>p++\<close> is \<open>tl\<close>. A pointer that may be NULL is an
  option.
\<close>

type_synonym cstr = string
type_synonym u32 = "32 word"
type_synonym u64 = "64 word"

subsection \<open>Results\<close>

text \<open>A call that may fail is a sum: \<open>Inl\<close> the error, \<open>Inr\<close> the result. \<open>rbind\<close> runs the rest of the
  function after a call that succeeded, as the sources do with \<open>goto exit\<close> and early returns.\<close>

definition rbind :: "'e + 'a \<Rightarrow> ('a \<Rightarrow> 'e + 'b) \<Rightarrow> 'e + 'b" where
  "rbind x f = (case x of Inl e \<Rightarrow> Inl e | Inr y \<Rightarrow> f y)"

lemma rbind_simps [simp]: "rbind (Inl e) f = Inl e" "rbind (Inr x) f = f x"
  by (simp_all add: rbind_def)

lemma rbind_eq_Inr: "rbind x f = Inr z \<longleftrightarrow> (\<exists>y. x = Inr y \<and> f y = Inr z)"
  by (cases x) simp_all

lemma rbind_eq_Inl: "rbind x f = Inl e \<longleftrightarrow> x = Inl e \<or> (\<exists>y. x = Inr y \<and> f y = Inl e)"
  by (cases x) auto

lemma rbind_assoc: "rbind (rbind x f) g = rbind x (\<lambda>v. rbind (f v) g)"
  by (cases x) simp_all

subsection \<open>Lists\<close>

definition starts_with :: "char \<Rightarrow> string \<Rightarrow> bool" where
  "starts_with c s = (case s of [] \<Rightarrow> False | x # _ \<Rightarrow> x = c)"

lemma starts_with_simps [simp]:
  "starts_with c [] = False"
  "starts_with c (x # s) \<longleftrightarrow> x = c"
  by (simp_all add: starts_with_def)

lemma starts_with_append:
  "starts_with c (s @ t) \<longleftrightarrow> (if s = [] then starts_with c t else starts_with c s)"
  by (cases s) auto

lemma starts_with_conv: "starts_with c s \<longleftrightarrow> (\<exists>t. s = c # t)"
  by (cases s) auto

lemma starts_with_length_tl: "starts_with c s \<Longrightarrow> length (tl s) < length s"
  by (cases s) auto

lemma length_dropWhile_less:
  "s \<noteq> [] \<Longrightarrow> P (hd s) \<Longrightarrow> length (dropWhile P s) < length s"
  by (cases s) (auto simp: le_imp_less_Suc length_dropWhile_le)

lemma takeWhile_eq_Nil_hd: "s \<noteq> [] \<Longrightarrow> takeWhile P s = [] \<longleftrightarrow> \<not> P (hd s)"
  by (cases s) auto

lemma hd_dropWhile_not: "dropWhile P s \<noteq> [] \<Longrightarrow> \<not> P (hd (dropWhile P s))"
  by (induction s) auto

lemma dropWhile_Cons_not: "dropWhile P s = x # t \<Longrightarrow> \<not> P x"
  using hd_dropWhile_not [of P s] by simp

lemma span_append:
  "\<not> P c \<Longrightarrow> dropWhile P (s @ c # t) = dropWhile P s @ c # t"
  "\<not> P c \<Longrightarrow> takeWhile P (s @ c # t) = takeWhile P s"
  by (induction s) auto

lemma length_span: "length (takeWhile P s) + length (dropWhile P s) = length s"
  by (induction s) auto

text \<open>\<open>std::vector::insert\<close> at a position.\<close>

definition insert_at :: "nat \<Rightarrow> 'a \<Rightarrow> 'a list \<Rightarrow> 'a list" where
  "insert_at u x xs = take u xs @ x # drop u xs"

lemma length_insert_at [simp]: "length (insert_at u x xs) = Suc (length xs)"
  by (simp add: insert_at_def)

lemma set_insert_at [simp]: "set (insert_at u x xs) = insert x (set xs)"
  unfolding insert_at_def
  by (metis Un_insert_right append_take_drop_id list.simps(15) set_append)

lemma mset_insert_at [simp]: "mset (insert_at u x xs) = add_mset x (mset xs)"
  unfolding insert_at_def
  by (metis append_take_drop_id mset.simps(2) mset_append union_mset_add_mset_right)

lemma nth_insert_at:
  "u \<le> length xs \<Longrightarrow> i \<le> length xs \<Longrightarrow>
   insert_at u x xs ! i = (if i < u then xs ! i else if i = u then x else xs ! (i - 1))"
  by (auto simp: insert_at_def nth_append nth_Cons' min_def)

lemma map_insert_at: "map f (insert_at u x xs) = insert_at u (f x) (map f xs)"
  by (simp add: insert_at_def take_map drop_map)

lemma take_insert_at:
  "u \<le> n \<Longrightarrow> n \<le> length xs \<Longrightarrow> take (Suc n) (insert_at u x xs) = insert_at u x (take n xs)"
  by (simp add: insert_at_def min_def Suc_diff_le drop_take)

subsection \<open>Byte strings\<close>

text \<open>
  \<open>strcmp(3)\<close>: the bytes compare as \<open>unsigned char\<close>; only the sign of the result is used by the
  sources, and the model returns that sign.
\<close>

fun strcmp :: "cstr \<Rightarrow> cstr \<Rightarrow> int" where
  "strcmp [] [] = 0"
| "strcmp [] (_ # _) = -1"
| "strcmp (_ # _) [] = 1"
| "strcmp (x # xs) (y # ys) =
     (if x = y then strcmp xs ys else if (of_char x :: nat) < of_char y then -1 else 1)"

lemma strcmp_range: "strcmp s t \<in> {-1, 0, 1}"
  by (induction s t rule: strcmp.induct) auto

lemma strcmp_eq_0_iff [simp]: "strcmp s t = 0 \<longleftrightarrow> s = t"
  by (induction s t rule: strcmp.induct) auto

lemma strcmp_refl [simp]: "strcmp s s = 0"
  by simp

lemma strcmp_flip: "strcmp t s = - strcmp s t"
proof (induction s t rule: strcmp.induct)
  case (4 x xs y ys)
  have "(of_char x :: nat) \<noteq> of_char y" if "x \<noteq> y" using that by simp
  with 4 show ?case by (auto simp: not_less dest: le_neq_implies_less)
qed simp_all

lemma strcmp_trans_le: "strcmp s t \<le> 0 \<Longrightarrow> strcmp t u \<le> 0 \<Longrightarrow> strcmp s u \<le> 0"
proof (induction s t arbitrary: u rule: strcmp.induct)
  case (2 y ys)
  then show ?case by (cases u) auto
next
  case (4 x xs y ys)
  show ?case
  proof (cases u)
    case (Cons z zs)
    with 4 show ?thesis by (auto split: if_splits)
  qed (use 4 in \<open>auto split: if_splits\<close>)
qed auto

text \<open>\<open>rstreq\<close> and \<open>rstreqn\<close> of include/rpm/rpmstring.h.\<close>

definition rstreq :: "cstr \<Rightarrow> cstr \<Rightarrow> bool" where
  "rstreq s1 s2 \<longleftrightarrow> strcmp s1 s2 = 0"

lemma rstreq_iff [simp]: "rstreq s t \<longleftrightarrow> s = t"
  by (simp add: rstreq_def)

text \<open>\<open>strncmp(3)\<close> stops at the first NUL, so it compares the strings cut to \<open>n\<close> bytes.\<close>

definition rstreqn :: "cstr \<Rightarrow> cstr \<Rightarrow> nat \<Rightarrow> bool" where
  "rstreqn s1 s2 n \<longleftrightarrow> strcmp (take n s1) (take n s2) = 0"

lemma rstreqn_iff: "rstreqn s t n \<longleftrightarrow> take n s = take n t"
  by (simp add: rstreqn_def)

subsection \<open>Three-way comparators\<close>

text \<open>
  The contract of a C comparison function as \<open>qsort\<close>, \<open>bsearch\<close> and the hand-written searches of
  the sources use it: its sign is a total preorder.
\<close>

locale c_order =
  fixes cmp :: "'a \<Rightarrow> 'a \<Rightarrow> int"
  assumes cmp_flip: "cmp y x < 0 \<longleftrightarrow> 0 < cmp x y"
    and cmp_trans: "cmp x y \<le> 0 \<Longrightarrow> cmp y z \<le> 0 \<Longrightarrow> cmp x z \<le> 0"
begin

lemma cmp_refl: "cmp x x = 0"
  using cmp_flip [of x x] by auto

lemma cmp_le_flip: "cmp y x \<le> 0 \<longleftrightarrow> 0 \<le> cmp x y"
  using cmp_flip [of x y] by linarith

lemma cmp_zero_sym: "cmp x y = 0 \<longleftrightarrow> cmp y x = 0"
  using cmp_flip [of x y] cmp_flip [of y x] by linarith

lemma cmp_less_le_trans: "cmp x y < 0 \<Longrightarrow> cmp y z \<le> 0 \<Longrightarrow> cmp x z < 0"
  using cmp_trans [of y z x] cmp_le_flip [of z x] cmp_le_flip [of y x] by linarith

lemma cmp_le_less_trans: "cmp x y \<le> 0 \<Longrightarrow> cmp y z < 0 \<Longrightarrow> cmp x z < 0"
  using cmp_trans [of z x y] cmp_le_flip [of z x] cmp_le_flip [of z y] by linarith

lemma cmp_zero_trans: "cmp x y = 0 \<Longrightarrow> cmp y z = 0 \<Longrightarrow> cmp x z = 0"
  using cmp_trans [of x y z] cmp_trans [of z y x] cmp_zero_sym [of x y] cmp_zero_sym [of y z]
    cmp_le_flip [of z x] by linarith

lemma cmp_zero_left: "cmp x y = 0 \<Longrightarrow> cmp x z < 0 \<longleftrightarrow> cmp y z < 0"
  using cmp_le_less_trans [of x y z] cmp_le_less_trans [of y x z] cmp_zero_sym [of x y]
  by linarith

text \<open>Sorted sequences, strictly and not.\<close>

definition ascending :: "'a list \<Rightarrow> bool" where
  "ascending xs \<longleftrightarrow> (\<forall>i j. i < j \<longrightarrow> j < length xs \<longrightarrow> cmp (xs ! i) (xs ! j) \<le> 0)"

definition strictly_ascending :: "'a list \<Rightarrow> bool" where
  "strictly_ascending xs \<longleftrightarrow> (\<forall>i j. i < j \<longrightarrow> j < length xs \<longrightarrow> cmp (xs ! i) (xs ! j) < 0)"

lemma strictly_ascending_ascending: "strictly_ascending xs \<Longrightarrow> ascending xs"
  by (fastforce simp: strictly_ascending_def ascending_def)

lemma strictly_ascending_insert_at:
  assumes sorted: "strictly_ascending xs" and u: "u \<le> length xs"
    and below: "\<And>i. i < u \<Longrightarrow> cmp (xs ! i) x < 0"
    and above: "\<And>i. u \<le> i \<Longrightarrow> i < length xs \<Longrightarrow> cmp x (xs ! i) < 0"
  shows "strictly_ascending (insert_at u x xs)"
  unfolding strictly_ascending_def
proof (intro allI impI)
  fix i j assume ij: "i < j" "j < length (insert_at u x xs)"
  then have le: "i \<le> length xs" "j \<le> length xs" by auto
  consider "j < u" | "j = u" | "i < u" "u < j" | "i = u" "u < j" | "u < i"
    using ij by linarith
  then show "cmp (insert_at u x xs ! i) (insert_at u x xs ! j) < 0"
    using ij le u sorted below above [of "j - 1"]
    by cases (auto simp: nth_insert_at strictly_ascending_def)
qed

end

text \<open>Comparing by a key, and by one comparator and then another.\<close>

lemma c_order_key: "c_order cmp \<Longrightarrow> c_order (\<lambda>x y. cmp (f x) (f y))"
  by (auto simp: c_order_def)

lemma c_order_lex:
  assumes "c_order c1" "c_order c2"
  shows "c_order (\<lambda>x y. if c1 x y \<noteq> 0 then c1 x y else c2 x y)"
proof
  fix x y
  show "((if c1 y x \<noteq> 0 then c1 y x else c2 y x) < 0) =
        (0 < (if c1 x y \<noteq> 0 then c1 x y else c2 x y))"
    using c_order.cmp_flip [OF assms(1), of y x] c_order.cmp_flip [OF assms(2), of y x]
      c_order.cmp_zero_sym [OF assms(1), of x y] by auto
next
  fix x y z
  assume le: "(if c1 x y \<noteq> 0 then c1 x y else c2 x y) \<le> 0"
    "(if c1 y z \<noteq> 0 then c1 y z else c2 y z) \<le> 0"
  then have le1: "c1 x y \<le> 0" "c1 y z \<le> 0" by (auto split: if_splits)
  then have "c1 x z \<le> 0" by (rule c_order.cmp_trans [OF assms(1)])
  moreover have "c2 x z \<le> 0" if "c1 x z = 0"
  proof -
    have "c1 x y = 0"
      using c_order.cmp_less_le_trans [OF assms(1), of x y z] le1 that by linarith
    moreover have "c1 y z = 0"
      using c_order.cmp_le_less_trans [OF assms(1), of x y z] le1 that by linarith
    ultimately show ?thesis
      using le le1 c_order.cmp_trans [OF assms(2), of x y z] by (auto split: if_splits)
  qed
  ultimately show "(if c1 x z \<noteq> 0 then c1 x z else c2 x z) \<le> 0" by simp
qed

interpretation strcmp: c_order strcmp
proof
  show "strcmp y x < 0 \<longleftrightarrow> 0 < strcmp x y" for x y
    using strcmp_flip [of x y] by linarith
  show "strcmp x y \<le> 0 \<Longrightarrow> strcmp y z \<le> 0 \<Longrightarrow> strcmp x z \<le> 0" for x y z
    by (rule strcmp_trans_le)
qed

subsection \<open>Bisection\<close>

text \<open>
  The loop of every hand-written binary search of the sources and of \<open>bsearch(3)\<close>: \<open>c i\<close> is the
  comparison of the key with element \<open>i\<close>; the result is the index of a match, if any, and the
  upper bound \<open>u\<close> the loop stopped with.
\<close>

function bisect :: "(nat \<Rightarrow> int) \<Rightarrow> nat \<Rightarrow> nat \<Rightarrow> nat option \<times> nat" where
  "bisect c l u =
     (if l < u then
        let i = (l + u) div 2 in
        if c i < 0 then bisect c l i
        else if c i > 0 then bisect c (i + 1) u
        else (Some i, u)
      else (None, u))"
  by pat_completeness auto
termination
  by (relation "measure (\<lambda>(c, l, u). u - l)") auto

declare bisect.simps [simp del]

lemma bisect_Some:
  "bisect c l u = (Some i, v) \<Longrightarrow> c i = 0 \<and> l \<le> i \<and> i < u"
proof (induction c l u rule: bisect.induct)
  case (1 c l u)
  let ?m = "(l + u) div 2"
  from "1.prems" have lu: "l < u" by (auto simp: bisect.simps [of c l u] split: if_splits)
  consider "c ?m < 0" | "c ?m > 0" | "c ?m = 0" by linarith
  then show ?case
  proof cases
    case a: 1
    with "1.prems" lu have "bisect c l ?m = (Some i, v)"
      by (simp add: bisect.simps [of c l u] Let_def)
    with "1.IH"(1) [OF lu refl a] lu show ?thesis by auto
  next
    case a: 2
    with "1.prems" lu have "bisect c (?m + 1) u = (Some i, v)"
      by (simp add: bisect.simps [of c l u] Let_def)
    with "1.IH"(2) [OF lu refl] a lu show ?thesis by auto
  next
    case a: 3
    with "1.prems" lu show ?thesis by (auto simp: bisect.simps [of c l u] Let_def)
  qed
qed

text \<open>
  On a monotone comparison the bisection that finds nothing stops at the insertion point.
\<close>

lemma bisect_None:
  assumes "bisect c l u = (None, v)" and "l \<le> u"
    and "\<And>i j. l \<le> i \<Longrightarrow> i \<le> j \<Longrightarrow> j < u \<Longrightarrow> c i < 0 \<Longrightarrow> c j < 0"
    and "\<And>i j. l \<le> i \<Longrightarrow> i \<le> j \<Longrightarrow> j < u \<Longrightarrow> 0 < c j \<Longrightarrow> 0 < c i"
  shows "l \<le> v \<and> v \<le> u \<and> (\<forall>i. l \<le> i \<longrightarrow> i < v \<longrightarrow> 0 < c i) \<and> (\<forall>i. v \<le> i \<longrightarrow> i < u \<longrightarrow> c i < 0)"
  using assms
proof (induction c l u rule: bisect.induct)
  case (1 c l u)
  let ?m = "(l + u) div 2"
  show ?case
  proof (cases "l < u")
    case False
    with "1.prems" show ?thesis by (auto simp: bisect.simps [of c l u])
  next
    case lu: True
    consider "c ?m < 0" | "c ?m > 0" | "c ?m = 0" by linarith
    then show ?thesis
    proof cases
      case a: 1
      with "1.prems"(1) lu have r: "bisect c l ?m = (None, v)"
        by (simp add: bisect.simps [of c l u] Let_def)
      have "l \<le> v \<and> v \<le> ?m \<and> (\<forall>i. l \<le> i \<longrightarrow> i < v \<longrightarrow> 0 < c i) \<and>
            (\<forall>i. v \<le> i \<longrightarrow> i < ?m \<longrightarrow> c i < 0)"
      proof (rule "1.IH"(1) [OF lu refl a r])
        fix i j assume ij: "l \<le> i" "i \<le> j" "j < ?m"
        with lu have "j < u" by simp
        with ij show "c i < 0 \<Longrightarrow> c j < 0" "0 < c j \<Longrightarrow> 0 < c i"
          using "1.prems"(3) [of i j] "1.prems"(4) [of i j] by auto
      qed (use lu in simp)
      moreover have "\<forall>i. ?m \<le> i \<longrightarrow> i < u \<longrightarrow> c i < 0"
        using "1.prems"(3) [of ?m] a lu by auto
      ultimately show ?thesis using lu by (auto dest: not_le_imp_less)
    next
      case a: 2
      with "1.prems"(1) lu have r: "bisect c (?m + 1) u = (None, v)"
        by (simp add: bisect.simps [of c l u] Let_def)
      have "\<not> c ?m < 0" using a by simp
      then have "?m + 1 \<le> v \<and> v \<le> u \<and> (\<forall>i. ?m + 1 \<le> i \<longrightarrow> i < v \<longrightarrow> 0 < c i) \<and>
            (\<forall>i. v \<le> i \<longrightarrow> i < u \<longrightarrow> c i < 0)"
      proof (rule "1.IH"(2) [OF lu refl _ a r])
        fix i j assume ij: "?m + 1 \<le> i" "i \<le> j" "j < u"
        with lu have "l \<le> i" by simp
        with ij show "c i < 0 \<Longrightarrow> c j < 0" "0 < c j \<Longrightarrow> 0 < c i"
          using "1.prems"(3) [of i j] "1.prems"(4) [of i j] by auto
      qed (use lu in simp)
      moreover have "\<forall>i. l \<le> i \<longrightarrow> i < ?m + 1 \<longrightarrow> 0 < c i"
        using "1.prems"(4) [of _ ?m] a lu by auto
      ultimately show ?thesis using lu by (auto dest: not_le_imp_less)
    next
      case 3
      with "1.prems"(1) lu show ?thesis by (simp add: bisect.simps [of c l u] Let_def)
    qed
  qed
qed


subsection \<open>Sorting and searching with a comparator\<close>

text \<open>
  \<open>qsort\<close> promises a permutation that is ascending for its comparator. With a comparator that returns 0 for
  identical items only, the result is unique. Where items compare equal (the entries of a header with the same
  tag) the C standard leaves their order open; the model is a stable sort, as the merge sort of the GNU C library is,
  and what is said of the order of such items rests on it.
\<close>

fun cmp_insort :: "('a \<Rightarrow> 'a \<Rightarrow> int) \<Rightarrow> 'a \<Rightarrow> 'a list \<Rightarrow> 'a list" where
  "cmp_insort cmp x [] = [x]"
| "cmp_insort cmp x (y # ys) = (if cmp x y \<le> 0 then x # y # ys else y # cmp_insort cmp x ys)"

definition qsort :: "('a \<Rightarrow> 'a \<Rightarrow> int) \<Rightarrow> 'a list \<Rightarrow> 'a list" where
  "qsort cmp xs = foldr (cmp_insort cmp) xs []"

lemma mset_cmp_insort [simp]: "mset (cmp_insort cmp x ys) = add_mset x (mset ys)"
  by (induction ys) auto

lemma mset_qsort [simp]: "mset (qsort cmp xs) = mset xs"
  by (induction xs) (auto simp: qsort_def)

lemma set_qsort [simp]: "set (qsort cmp xs) = set xs"
  by (metis mset_qsort set_mset_mset)

lemma length_qsort [simp]: "length (qsort cmp xs) = length xs"
  by (metis mset_qsort size_mset)

text \<open>\<open>bsearch\<close>: the index of a matching item of the array.\<close>

definition bsearch :: "('a \<Rightarrow> 'a \<Rightarrow> int) \<Rightarrow> 'a \<Rightarrow> 'a list \<Rightarrow> nat option" where
  "bsearch cmp key xs = fst (bisect (\<lambda>i. cmp key (xs ! i)) 0 (length xs))"

context c_order
begin

lemma ascending_sorted_wrt: "ascending xs \<longleftrightarrow> sorted_wrt (\<lambda>x y. cmp x y \<le> 0) xs"
  by (auto simp: ascending_def sorted_wrt_iff_nth_less)

lemma ascending_cmp_insort: "ascending ys \<Longrightarrow> ascending (cmp_insort cmp x ys)"
proof (induction ys)
  case (Cons y ys)
  have set: "set (cmp_insort cmp x ys) = insert x (set ys)"
    by (metis mset_cmp_insort set_mset_add_mset_insert set_mset_mset)
  show ?case
  proof (cases "cmp x y \<le> 0")
    case True
    then show ?thesis using Cons.prems cmp_trans [of x y] by (auto simp: ascending_sorted_wrt)
  next
    case False
    then have "cmp y x \<le> 0" using cmp_le_flip [of y x] by simp
    then show ?thesis using Cons False by (auto simp: ascending_sorted_wrt set)
  qed
qed (simp add: ascending_sorted_wrt)

lemma ascending_qsort: "ascending (qsort cmp xs)"
  by (induction xs) (auto simp: qsort_def ascending_cmp_insort, simp add: ascending_sorted_wrt)

lemma bsearch_ascending:
  assumes "ascending xs"
  shows "(\<exists>i. bsearch cmp key xs = Some i) \<longleftrightarrow> (\<exists>x \<in> set xs. cmp key x = 0)"
    and "bsearch cmp key xs = Some i \<Longrightarrow> i < length xs \<and> cmp key (xs ! i) = 0"
proof -
  let ?c = "\<lambda>i. cmp key (xs ! i)"
  have le: "cmp (xs ! i) (xs ! j) \<le> 0" if "i \<le> j" "j < length xs" for i j
    using assms that by (cases "i = j") (auto simp: ascending_def cmp_refl)
  have mono1: "?c j < 0" if "i \<le> j" "j < length xs" "?c i < 0" for i j
    using cmp_less_le_trans [OF that(3) le [OF that(1,2)]] .
  have mono2: "0 < ?c i" if "i \<le> j" "j < length xs" "0 < ?c j" for i j
    using cmp_le_less_trans [OF le [OF that(1,2)], of key] that(3) cmp_flip [of "xs ! j" key]
      cmp_flip [of "xs ! i" key] by simp
  show some: "bsearch cmp key xs = Some i \<Longrightarrow> i < length xs \<and> cmp key (xs ! i) = 0" for i
    using bisect_Some [of ?c 0 "length xs" i] by (auto simp: bsearch_def fst_def split: prod.splits)
  show "(\<exists>i. bsearch cmp key xs = Some i) \<longleftrightarrow> (\<exists>x \<in> set xs. cmp key x = 0)"
  proof
    assume "\<exists>x \<in> set xs. cmp key x = 0"
    then obtain k where k: "k < length xs" "?c k = 0" by (auto simp: in_set_conv_nth)
    show "\<exists>i. bsearch cmp key xs = Some i"
    proof (rule ccontr)
      assume "\<nexists>i. bsearch cmp key xs = Some i"
      then obtain v where "bisect ?c 0 (length xs) = (None, v)"
        by (cases "bisect ?c 0 (length xs)") (auto simp: bsearch_def)
      then have "(\<forall>i. 0 \<le> i \<longrightarrow> i < v \<longrightarrow> 0 < ?c i) \<and> (\<forall>i. v \<le> i \<longrightarrow> i < length xs \<longrightarrow> ?c i < 0)"
        using bisect_None [of ?c 0 "length xs" v] mono1 mono2 by blast
      with k show False by (metis less_irrefl not_less zero_le)
    qed
  qed (use some in force)
qed

end

end
