(* ===== verification/Rpmstring.thy ===== *)
theory Rpmstring
  imports Prelude
begin

text \<open>
  The string helpers of include/rpm/rpmstring.h and rpmio/rpmstring.cc: locale-independent
  character classes, case folding, hexadecimal output, case-insensitive comparison, allocation
  based concatenation and the bounded copy.
\<close>

unbundle bit_operations_syntax

subsection \<open>Character classes\<close>

definition rislower :: "char \<Rightarrow> bool" where [char_class]:
  "rislower c \<longleftrightarrow> CHR ''a'' \<le> c \<and> c \<le> CHR ''z''"

definition risupper :: "char \<Rightarrow> bool" where [char_class]:
  "risupper c \<longleftrightarrow> CHR ''A'' \<le> c \<and> c \<le> CHR ''Z''"

definition risalpha :: "char \<Rightarrow> bool" where [char_class]:
  "risalpha c \<longleftrightarrow> rislower c \<or> risupper c"

definition risdigit :: "char \<Rightarrow> bool" where [char_class]:
  "risdigit c \<longleftrightarrow> CHR ''0'' \<le> c \<and> c \<le> CHR ''9''"

definition risalnum :: "char \<Rightarrow> bool" where [char_class]:
  "risalnum c \<longleftrightarrow> risalpha c \<or> risdigit c"

definition risblank :: "char \<Rightarrow> bool" where [char_class]:
  "risblank c \<longleftrightarrow> c = CHR '' '' \<or> c = CHR 0x09"

definition risspace :: "char \<Rightarrow> bool" where [char_class]:
  "risspace c \<longleftrightarrow> risblank c \<or> c = CHR 0x0A \<or> c = CHR 0x0D \<or> c = CHR 0x0C \<or> c = CHR 0x0B"

lemmas char_code = less_eq_char_def less_char_def

text \<open>The integer value of a \<open>char\<close>, which is signed on the modelled platform (x86-64).\<close>

definition schar :: "char \<Rightarrow> int" where
  "schar c = (let n = of_char c in if n < 128 then n else n - 256)"

lemma schar_eq_iff [simp]: "schar c = schar d \<longleftrightarrow> c = d"
proof -
  have "(of_char c :: int) < 256" "(of_char d :: int) < 256"
    "0 \<le> (of_char c :: int)" "0 \<le> (of_char d :: int)"
    using of_char_eq_iff [where 'a = int] by (auto simp: of_char_def horner_sum_simps of_bool_def)
  then show ?thesis by (auto simp: schar_def Let_def split: if_splits)
qed

definition rtolower :: "char \<Rightarrow> char" where
  "rtolower c = (if risupper c then char_of ((of_char c :: nat) OR 32) else c)"

definition rtoupper :: "char \<Rightarrow> char" where
  "rtoupper c = (if rislower c then char_of (nat (of_char c AND NOT 32)) else c)"

definition rnibble :: "char \<Rightarrow> nat" where
  "rnibble c =
     (if CHR ''0'' \<le> c \<and> c \<le> CHR ''9'' then of_char c - 48
      else if CHR ''a'' \<le> c \<and> c \<le> CHR ''f'' then (of_char c - 97) + 10
      else if CHR ''A'' \<le> c \<and> c \<le> CHR ''F'' then (of_char c - 65) + 10
      else 0)"

subsection \<open>rpmhex\<close>

definition hex_digits :: string where
  "hex_digits = ''0123456789abcdef''"

fun rpmhex :: "8 word list \<Rightarrow> cstr" where
  "rpmhex [] = []"
| "rpmhex (b # p) =
     hex_digits ! unat (drop_bit 4 b AND 0xf) # hex_digits ! unat (b AND 0xf) # rpmhex p"


text \<open>A byte is read back from its two digits by \<open>rnibble\<close>.\<close>

lemma rnibble_hex_digits: "n < 16 \<Longrightarrow> rnibble (hex_digits ! n) = n"
proof -
  have "\<forall>n \<in> set [0..<16]. rnibble (hex_digits ! n) = n" by code_simp
  then show "n < 16 \<Longrightarrow> ?thesis" by simp
qed

fun unhex :: "cstr \<Rightarrow> 8 word list" where
  "unhex (h # l # s) = word_of_nat (16 * rnibble h + rnibble l) # unhex s"
| "unhex _ = []"

lemma and_0xf: "(b :: 8 word) AND 0xf = take_bit 4 b"
  by (simp add: take_bit_eq_mask mask_eq_exp_minus_1)

lemma byte_nibbles:
  "word_of_nat (16 * unat (drop_bit 4 b AND 0xf) + unat (b AND 0xf)) = (b :: 8 word)"
proof -
  have "unat b < 256" using unsigned_less [of b, where ?'a = nat] by simp
  then have "16 * unat (take_bit 4 (drop_bit 4 b)) + unat (take_bit 4 b) = unat b"
    by (simp add: unsigned_take_bit_eq unat_drop_bit_eq take_bit_eq_mod drop_bit_eq_div
        unat_div_distrib unat_mod_distrib)
  then show ?thesis by (simp only: and_0xf) simp
qed

subsection \<open>Case-insensitive comparison\<close>

text \<open>The terminating NUL takes part in the comparison; \<open>c1 - c2\<close> is a difference of signed chars.\<close>

fun rstrcasecmp :: "cstr \<Rightarrow> cstr \<Rightarrow> int" where
  "rstrcasecmp [] [] = 0"
| "rstrcasecmp [] (y # _) = - schar (rtolower y)"
| "rstrcasecmp (x # _) [] = schar (rtolower x)"
| "rstrcasecmp (x # xs) (y # ys) =
     (if rtolower x = rtolower y then rstrcasecmp xs ys
      else schar (rtolower x) - schar (rtolower y))"

fun rstrncasecmp :: "cstr \<Rightarrow> cstr \<Rightarrow> nat \<Rightarrow> int" where
  "rstrncasecmp _ _ 0 = 0"
| "rstrncasecmp [] [] (Suc n) = 0"
| "rstrncasecmp [] (y # _) (Suc n) = - schar (rtolower y)"
| "rstrncasecmp (x # _) [] (Suc n) = schar (rtolower x)"
| "rstrncasecmp (x # xs) (y # ys) (Suc n) =
     (if rtolower x = rtolower y then rstrncasecmp xs ys n
      else schar (rtolower x) - schar (rtolower y))"

subsection \<open>Concatenation\<close>

text \<open>
  \<open>rstrcat(dest, src)\<close>: the outer option of \<open>dest\<close> is the pointer to the destination variable,
  the inner one the string it holds. The result is the returned pointer and the variable.
\<close>

definition rstrcat :: "cstr option option \<Rightarrow> cstr option \<Rightarrow> cstr option \<times> cstr option option" where
  "rstrcat dest src =
     (case src of
        None \<Rightarrow> ((case dest of Some d \<Rightarrow> d | None \<Rightarrow> None), dest)
      | Some s \<Rightarrow>
          (case dest of
             None \<Rightarrow> (Some s, None)
           | Some d \<Rightarrow>
               let r = Some ((case d of Some t \<Rightarrow> t | None \<Rightarrow> []) @ s) in (r, Some r)))"

text \<open>\<open>rstrscat\<close>, the argument list being what precedes the terminating NULL.\<close>

definition rstrscat :: "cstr option option \<Rightarrow> cstr list \<Rightarrow> cstr option \<times> cstr option option" where
  "rstrscat dest args =
     (let dst = (case dest of Some d \<Rightarrow> d | None \<Rightarrow> None) in
      if args = [] then (dst, dest)
      else
        let r = Some ((case dst of Some t \<Rightarrow> t | None \<Rightarrow> []) @ concat args)
        in (r, (case dest of Some _ \<Rightarrow> Some r | None \<Rightarrow> None)))"

subsection \<open>Bounded copy\<close>

abbreviation NUL :: char where
  "NUL \<equiv> CHR 0x00"

text \<open>
  The copy loop of \<open>rstrlcpy\<close> on the bytes at \<open>s\<close> (terminator included): the remaining \<open>len\<close>, the
  bytes at the final \<open>s\<close> and the bytes written.
\<close>

fun rstrlcpy_copy :: "nat \<Rightarrow> string \<Rightarrow> string \<Rightarrow> nat \<times> string \<times> string" where
  "rstrlcpy_copy len s w =
     (if len - 1 = 0 then (0, s, w)
      else case s of
        [] \<Rightarrow> (len - 1, s, w)
      | c # s' \<Rightarrow> if c = NUL then (len - 1, s', w @ [c]) else rstrlcpy_copy (len - 1) s' (w @ [c]))"

declare rstrlcpy_copy.simps [simp del]

definition rstrlcpy :: "string \<Rightarrow> cstr \<Rightarrow> nat \<Rightarrow> string \<times> nat" where
  "rstrlcpy dest src n =
     (let mem = src @ [NUL];
          (len, s, w) = (if n \<noteq> 0 then rstrlcpy_copy n mem [] else (0, mem, []));
          (s', w') = (if len = 0
                      then (drop (Suc (length (takeWhile (\<lambda>c. c \<noteq> NUL) s))) s,
                            if n \<noteq> 0 then w @ [NUL] else w)
                      else (s, w))
      in (w' @ drop (length w') dest, length mem - length s' - 1))"

lemma rstrlcpy_copy_fits:
  "NUL \<notin> set src \<Longrightarrow> length src < len - 1 \<Longrightarrow>
   rstrlcpy_copy len (src @ [NUL]) w = (len - 1 - length src, [], w @ src @ [NUL])"
  by (induction src arbitrary: len w) (subst rstrlcpy_copy.simps, auto)+

lemma rstrlcpy_copy_cut:
  "NUL \<notin> set src \<Longrightarrow> 0 < len \<Longrightarrow> len - 1 \<le> length src \<Longrightarrow>
   rstrlcpy_copy len (src @ [NUL]) w = (0, drop (len - 1) src @ [NUL], w @ take (len - 1) src)"
proof (induction src arbitrary: len w)
  case Nil
  then show ?case by (subst rstrlcpy_copy.simps) auto
next
  case (Cons a src)
  show ?case
  proof (cases "len - 1")
    case (Suc k)
    with Cons show ?thesis
      by (subst rstrlcpy_copy.simps) (auto simp: Cons.IH [of "len - 1"])
  qed (use Cons in \<open>subst rstrlcpy_copy.simps, auto\<close>)
qed

lemma takeWhile_not_NUL: "NUL \<notin> set s \<Longrightarrow> takeWhile (\<lambda>c. c \<noteq> NUL) (s @ [NUL]) = s"
  by (induction s) auto

subsection \<open>strtol\<close>

text \<open>
  \<open>strtol(s, NULL, 10)\<close> of the C library as \<open>atol\<close> and \<open>atoi\<close> use it: white space, an optional
  sign, then digits; the value saturates at the bounds of \<open>long\<close> (64 bits).
\<close>

definition LONG_MAX :: int where "LONG_MAX = 2 ^ 63 - 1"

definition LONG_MIN :: int where "LONG_MIN = - (2 ^ 63)"

definition dec_value :: "cstr \<Rightarrow> int" where
  "dec_value ds = foldl (\<lambda>v c. 10 * v + (of_char c - 48)) 0 ds"

definition atol :: "cstr \<Rightarrow> int" where
  "atol s0 =
     (let s = dropWhile risspace s0;
          neg = starts_with (CHR ''-'') s;
          ds = takeWhile risdigit (if neg \<or> starts_with (CHR ''+'') s then tl s else s);
          v = (if neg then - dec_value ds else dec_value ds)
      in max LONG_MIN (min LONG_MAX v))"

text \<open>\<open>atoi\<close> is the low 32 bits of that value, read as a signed \<open>int\<close>.\<close>

definition atoi :: "cstr \<Rightarrow> 32 word" where
  "atoi s = word_of_int (atol s)"

subsection \<open>Properties\<close>

text \<open>
  \<open>rpmhex\<close> writes two digits per byte and loses nothing: reading the digits back with
  \<open>rnibble\<close> gives the bytes.
\<close>

theorem rpmhex_roundtrip: "unhex (rpmhex p) = p \<and> length (rpmhex p) = 2 * length p"
proof (induction p)
  case (Cons b p)
  have "unat (drop_bit 4 b AND 0xf) < 16" "unat (b AND 0xf) < 16"
    using word_and_le1 [of "drop_bit 4 b" 15] word_and_le1 [of b 15]
    by (simp_all add: word_le_nat_alt)
  with Cons show ?case using byte_nibbles [of b] by (simp add: rnibble_hex_digits)
qed simp

text \<open>
  \<open>rstrlcpy\<close> stays within a destination of \<open>n\<close> bytes, always terminates it (unless \<open>n\<close> is 0),
  copies the longest prefix that fits and returns the length of the source, so that a result of
  at least \<open>n\<close> tells a truncation.
\<close>

theorem rstrlcpy_spec:
  assumes "NUL \<notin> set src" and "n \<le> length dest"
  shows "rstrlcpy dest src n =
     ((if n = 0 then dest
       else take (n - 1) src @ NUL # drop (min n (length src + 1)) dest), length src) \<and>
     length (fst (rstrlcpy dest src n)) = length dest"
proof -
  have eq: "rstrlcpy dest src n =
     ((if n = 0 then dest
       else take (n - 1) src @ NUL # drop (min n (length src + 1)) dest), length src)"
  proof (cases "n = 0")
    case True
    with assms show ?thesis by (simp add: rstrlcpy_def takeWhile_not_NUL)
  next
    case n: False
    show ?thesis
    proof (cases "length src < n - 1")
      case True
      with assms n show ?thesis
        by (simp add: rstrlcpy_def rstrlcpy_copy_fits min_def)
    next
      case False
      moreover have "NUL \<notin> set (drop (n - 1) src)" using assms(1) by (meson in_set_dropD)
      ultimately show ?thesis
        using assms n by (simp add: rstrlcpy_def rstrlcpy_copy_cut takeWhile_not_NUL min_def)
    qed
  qed
  then show ?thesis using assms(2) by (auto simp: min_def)
qed

theorem rstrlcpy_spec_witness:
  "rstrlcpy ''........'' ''librpm'' 4 = (''lib'' @ [NUL] @ ''....'', 6)"
  using rstrlcpy_spec [of "''librpm''" 4 "''........''"] by simp

end
