(* ===== verification/Rpmvercmp.thy ===== *)
theory Rpmvercmp
  imports Rpmstring
begin

text \<open>
  Segmented version comparison, rpmio/rpmvercmp.cc. The model runs the source's loop on the two
  cursors \<open>one\<close> and \<open>two\<close>; the specification splits a version into tokens once and compares the
  token lists. The two are proved equal, which gives the order laws the callers rely on.
\<close>

subsection \<open>The loop of rpmvercmp\<close>

definition is_separator :: "char \<Rightarrow> bool" where
  "is_separator c \<longleftrightarrow> \<not> risalnum c \<and> c \<noteq> CHR ''~'' \<and> c \<noteq> CHR ''^''"

abbreviation skip_separators :: "cstr \<Rightarrow> cstr" where
  "skip_separators s \<equiv> dropWhile is_separator s"

abbreviation strip_zeros :: "cstr \<Rightarrow> cstr" where
  "strip_zeros s \<equiv> dropWhile (\<lambda>c. c = CHR ''0'') s"

text \<open>What follows the loop: whichever version still has characters left over wins.\<close>

definition rpmvercmp_end :: "cstr \<Rightarrow> cstr \<Rightarrow> int" where
  "rpmvercmp_end one two =
     (if one = [] \<and> two = [] then 0 else if one = [] then -1 else 1)"

text \<open>
  The comparison of two segments of one kind: \<open>Some\<close> a decision, \<open>None\<close> when they are equal and
  the loop goes on.
\<close>

definition segment_cmp :: "bool \<Rightarrow> cstr \<Rightarrow> cstr \<Rightarrow> int option" where
  "segment_cmp isnum seg1 seg2 =
     (let one = (if isnum then strip_zeros seg1 else seg1);
          two = (if isnum then strip_zeros seg2 else seg2);
          rc = strcmp one two
      in if isnum \<and> length one > length two then Some 1
         else if isnum \<and> length two > length one then Some (-1)
         else if rc \<noteq> 0 then Some (if rc < 1 then -1 else 1)
         else None)"

function rpmvercmp_loop :: "cstr \<Rightarrow> cstr \<Rightarrow> int" where
  "rpmvercmp_loop one0 two0 =
     (if one0 = [] \<and> two0 = [] then rpmvercmp_end one0 two0
      else
        let one = skip_separators one0; two = skip_separators two0 in
        if starts_with (CHR ''~'') one \<or> starts_with (CHR ''~'') two then
          if \<not> starts_with (CHR ''~'') one then 1
          else if \<not> starts_with (CHR ''~'') two then -1
          else rpmvercmp_loop (tl one) (tl two)
        else if starts_with (CHR ''^'') one \<or> starts_with (CHR ''^'') two then
          if one = [] then -1
          else if two = [] then 1
          else if \<not> starts_with (CHR ''^'') one then 1
          else if \<not> starts_with (CHR ''^'') two then -1
          else rpmvercmp_loop (tl one) (tl two)
        else if one = [] \<or> two = [] then rpmvercmp_end one two
        else
          let isnum = risdigit (hd one);
              P = (if isnum then risdigit else risalpha);
              seg1 = takeWhile P one; seg2 = takeWhile P two
          in if seg1 = [] then -1
             else if seg2 = [] then (if isnum then 1 else -1)
             else case segment_cmp isnum seg1 seg2 of
                    Some r \<Rightarrow> r
                  | None \<Rightarrow> rpmvercmp_loop (dropWhile P one) (dropWhile P two))"
  by pat_completeness auto
termination
proof (relation "measure (\<lambda>(a, b). length a + length b)", goal_cases)
  case (2 one0 two0 one two)
  have "length one \<le> length one0" "length two \<le> length two0"
    unfolding 2(2,3) by (rule length_dropWhile_le)+
  moreover have "length (tl one) < length one" "length (tl two) < length two"
    using 2(5,6) by (blast intro: starts_with_length_tl)+
  ultimately show ?case by (simp only: in_measure prod.case)
next
  case (3 one0 two0 one two)
  have "length one \<le> length one0" "length two \<le> length two0"
    unfolding 3(2,3) by (rule length_dropWhile_le)+
  moreover have "length (tl one) < length one" "length (tl two) < length two"
    using 3(8,9) by (blast intro: starts_with_length_tl)+
  ultimately show ?case by (simp only: in_measure prod.case)
next
  case (4 one0 two0 one two isnum P seg1 seg2)
  have "length one \<le> length one0" "length two \<le> length two0"
    unfolding 4(2,3) by (rule length_dropWhile_le)+
  moreover have "one \<noteq> []" "two \<noteq> []" using 4(6) by blast+
  moreover have "takeWhile P one \<noteq> []" "takeWhile P two \<noteq> []"
    using 4(11,12) unfolding 4(9,10) by blast+
  ultimately have "length (dropWhile P one) < length one" "length (dropWhile P two) < length two"
    by (simp_all add: length_dropWhile_less takeWhile_eq_Nil_hd)
  with \<open>length one \<le> length one0\<close> \<open>length two \<le> length two0\<close> show ?case by (simp only: in_measure prod.case)
qed simp

declare rpmvercmp_loop.simps [simp del]

definition rpmvercmp :: "cstr \<Rightarrow> cstr \<Rightarrow> int" where
  "rpmvercmp a b = (if rstreq a b then 0 else rpmvercmp_loop a b)"

subsection \<open>Specification: versions as token lists\<close>

datatype vtok = Tilde | Caret | Alpha string | Num nat

definition digit_value :: "char \<Rightarrow> nat" where
  "digit_value c = of_char c - 48"

definition digits_value :: "string \<Rightarrow> nat" where
  "digits_value ds = foldl (\<lambda>v c. 10 * v + digit_value c) 0 ds"

function vtokens :: "string \<Rightarrow> vtok list" where
  "vtokens [] = []"
| "vtokens (c # s) =
     (if c = CHR ''~'' then Tilde # vtokens s
      else if c = CHR ''^'' then Caret # vtokens s
      else if risdigit c then
        Num (digits_value (takeWhile risdigit (c # s))) # vtokens (dropWhile risdigit s)
      else if risalpha c then
        Alpha (takeWhile risalpha (c # s)) # vtokens (dropWhile risalpha s)
      else vtokens s)"
  by pat_completeness auto
termination
  by (relation "measure length") (auto simp: le_imp_less_Suc length_dropWhile_le)

text \<open>
  The order of tokens; \<open>None\<close> is the end of a version: a tilde sorts before the end, a caret after
  it but before any segment, letters before numbers.
\<close>

fun tok_rank :: "vtok option \<Rightarrow> int" where
  "tok_rank (Some Tilde) = 0"
| "tok_rank None = 1"
| "tok_rank (Some Caret) = 2"
| "tok_rank (Some (Alpha _)) = 3"
| "tok_rank (Some (Num _)) = 4"

fun tok_cmp :: "vtok option \<Rightarrow> vtok option \<Rightarrow> int" where
  "tok_cmp (Some (Alpha s)) (Some (Alpha t)) = strcmp s t"
| "tok_cmp (Some (Num m)) (Some (Num n)) = sgn (int m - int n)"
| "tok_cmp a b = sgn (tok_rank a - tok_rank b)"

fun vcmp :: "vtok list \<Rightarrow> vtok list \<Rightarrow> int" where
  "vcmp [] [] = 0"
| "vcmp [] (u # us) = tok_cmp None (Some u)"
| "vcmp (t # ts) [] = tok_cmp (Some t) None"
| "vcmp (t # ts) (u # us) =
     (if tok_cmp (Some t) (Some u) \<noteq> 0 then tok_cmp (Some t) (Some u) else vcmp ts us)"


subsection \<open>The token order\<close>

lemma tok_cmp_flip: "tok_cmp b a = - tok_cmp a b"
  by (cases a rule: tok_rank.cases; cases b rule: tok_rank.cases) (auto simp: sgn_if intro: strcmp_flip)

lemma tok_cmp_zero: "tok_cmp a b = 0 \<longleftrightarrow> a = b"
  by (cases a rule: tok_rank.cases; cases b rule: tok_rank.cases) (simp_all add: sgn_eq_0_iff)

lemma tok_cmp_range: "tok_cmp a b \<in> {-1, 0, 1}"
  using strcmp_range by (induction a b rule: tok_cmp.induct) (simp_all add: sgn_if)

lemma tok_cmp_le:
  "tok_cmp a b \<le> 0 \<longleftrightarrow>
     tok_rank a < tok_rank b \<or>
     (\<exists>s t. a = Some (Alpha s) \<and> b = Some (Alpha t) \<and> strcmp s t \<le> 0) \<or>
     (\<exists>m n. a = Some (Num m) \<and> b = Some (Num n) \<and> m \<le> n) \<or> a = b"
  by (cases a rule: tok_rank.cases; cases b rule: tok_rank.cases) (auto simp: sgn_if)

lemma tok_cmp_trans: "tok_cmp a b \<le> 0 \<Longrightarrow> tok_cmp b c \<le> 0 \<Longrightarrow> tok_cmp a c \<le> 0"
  by (auto simp: tok_cmp_le intro: strcmp_trans_le)

interpretation tok: c_order tok_cmp
proof
  show "tok_cmp y x < 0 \<longleftrightarrow> 0 < tok_cmp x y" for x y
    using tok_cmp_flip [of x y] by linarith
qed (rule tok_cmp_trans)

text \<open>Comparing token lists is comparing their heads, the end of a list included.\<close>

definition vhead :: "vtok list \<Rightarrow> vtok option" where
  "vhead ts = (case ts of [] \<Rightarrow> None | t # _ \<Rightarrow> Some t)"

lemma vcmp_unfold:
  "vcmp ts us =
     (if tok_cmp (vhead ts) (vhead us) \<noteq> 0 then tok_cmp (vhead ts) (vhead us)
      else vcmp (tl ts) (tl us))"
  by (cases ts; cases us) (auto simp: vhead_def tok_cmp_zero simp del: tok_cmp.simps)

lemma vcmp_flip: "vcmp us ts = - vcmp ts us"
proof (induction ts us rule: vcmp.induct)
  case (4 t ts u us)
  then show ?case using tok_cmp_flip [of "Some t" "Some u"] by auto
qed (simp_all add: tok_cmp_flip [of _ None] del: tok_cmp.simps)

lemma vcmp_zero: "vcmp ts us = 0 \<longleftrightarrow> ts = us"
  by (induction ts us rule: vcmp.induct) (simp_all add: tok_cmp_zero del: tok_cmp.simps)

lemma vcmp_range: "vcmp ts us \<in> {-1, 0, 1}"
proof (induction ts us rule: vcmp.induct)
  case (4 t ts u us)
  then show ?case using tok_cmp_range [of "Some t" "Some u"] by auto
qed (use tok_cmp_range in \<open>auto simp del: tok_cmp.simps\<close>)

lemma vhead_zero_cases: "vhead ts = vhead us \<Longrightarrow> (ts = [] \<and> us = []) \<or> (ts \<noteq> [] \<and> us \<noteq> [])"
  by (auto simp: vhead_def split: list.splits)

lemma vcmp_trans: "vcmp ts us \<le> 0 \<Longrightarrow> vcmp us vs \<le> 0 \<Longrightarrow> vcmp ts vs \<le> 0"
proof (induction ts arbitrary: us vs)
  case Nil
  show ?case
  proof (cases "us = []")
    case False
    then have "tok_cmp None (vhead us) < 0"
      using Nil.prems(1) tok_cmp_zero [of None "vhead us"]
      by (cases us) (auto simp: vhead_def simp del: tok_cmp.simps)
    moreover have "tok_cmp (vhead us) (vhead vs) \<le> 0"
      using Nil.prems(2) by (subst (asm) vcmp_unfold) (simp split: if_splits)
    ultimately have "tok_cmp None (vhead vs) < 0" by (rule tok.cmp_less_le_trans)
    then show ?thesis by (subst vcmp_unfold) (simp add: vhead_def)
  qed (use Nil in simp)
next
  case (Cons t ts)
  have a: "tok_cmp (Some t) (vhead us) \<le> 0"
    using Cons.prems(1) by (subst (asm) vcmp_unfold) (simp add: vhead_def split: if_splits)
  have b: "tok_cmp (vhead us) (vhead vs) \<le> 0"
    using Cons.prems(2) by (subst (asm) vcmp_unfold) (simp split: if_splits)
  have c: "tok_cmp (Some t) (vhead vs) \<le> 0" using a b by (rule tok_cmp_trans)
  show ?case
  proof (cases "tok_cmp (Some t) (vhead vs) = 0")
    case False
    with c show ?thesis by (subst vcmp_unfold) (simp add: vhead_def)
  next
    case True
    then have vs: "vhead vs = Some t" by (simp add: tok_cmp_zero)
    have "tok_cmp (vhead us) (Some t) \<le> 0" using b vs by simp
    then have us: "vhead us = Some t"
      using a tok.cmp_le_flip [of "vhead us" "Some t"] tok_cmp_zero [of "Some t" "vhead us"] by force
    have "vcmp ts (tl us) \<le> 0" "vcmp (tl us) (tl vs) \<le> 0"
      using Cons.prems vs us vcmp_unfold [of "t # ts" us] vcmp_unfold [of us vs]
      by (simp_all add: vhead_def tok_cmp_zero [THEN iffD2, OF refl])
    then have "vcmp ts (tl vs) \<le> 0" by (rule Cons.IH)
    with vs show ?thesis
      by (subst vcmp_unfold) (simp add: vhead_def tok_cmp_zero [THEN iffD2, OF refl])
  qed
qed

subsection \<open>Numeric segments compare by value\<close>

lemma digits_value_Nil [simp]: "digits_value [] = 0"
  by (simp add: digits_value_def)

lemma digits_value_snoc: "digits_value (ds @ [c]) = 10 * digits_value ds + digit_value c"
  by (simp add: digits_value_def)

lemma digits_value_Cons:
  "digits_value (c # ds) = digit_value c * 10 ^ length ds + digits_value ds"
proof (induction ds rule: rev_induct)
  case (snoc d ds)
  have "digits_value (c # ds @ [d]) = 10 * digits_value (c # ds) + digit_value d"
    using digits_value_snoc [of "c # ds" d] by simp
  with snoc show ?case by (simp add: digits_value_snoc algebra_simps)
qed (simp add: digits_value_def)

lemma digit_value_bound: "risdigit c \<Longrightarrow> digit_value c < 10"
  by (auto simp: risdigit_def digit_value_def char_code)

lemma digit_value_less: "risdigit c \<Longrightarrow> risdigit d \<Longrightarrow>
  digit_value c < digit_value d \<longleftrightarrow> (of_char c :: nat) < of_char d"
  by (auto simp: risdigit_def digit_value_def char_code)

lemma digit_value_pos: "risdigit c \<Longrightarrow> c \<noteq> CHR ''0'' \<Longrightarrow> 0 < digit_value c"
proof -
  assume c: "risdigit c" "c \<noteq> CHR ''0''"
  then have "(of_char c :: nat) \<noteq> of_char (CHR ''0'')" by (simp only: of_char_eq_iff) simp
  with c show ?thesis by (simp add: risdigit_def digit_value_def char_code)
qed

lemma digits_value_bound: "list_all risdigit ds \<Longrightarrow> digits_value ds < 10 ^ length ds"
proof (induction ds)
  case (Cons c ds)
  then have "digit_value c \<le> 9" "digits_value ds < 10 ^ length ds"
    using digit_value_bound [of c] by auto
  then have "digit_value c * 10 ^ length ds + digits_value ds < 9 * 10 ^ length ds + 10 ^ length ds"
    by (intro add_le_less_mono) auto
  then show ?case by (simp add: digits_value_Cons)
qed simp

lemma digits_value_strip: "digits_value (strip_zeros ds) = digits_value ds"
  by (induction ds) (auto simp: digits_value_Cons digit_value_def)

lemma digits_value_longer:
  assumes "list_all risdigit ds" "list_all risdigit es" "length ds < length es"
    "es \<noteq> [] \<Longrightarrow> hd es \<noteq> CHR ''0''"
  shows "digits_value ds < digits_value es"
proof -
  from assms(3) obtain e es' where es: "es = e # es'" by (cases es) auto
  have "digits_value ds < 10 ^ length ds" using assms(1) by (rule digits_value_bound)
  also have "\<dots> \<le> 10 ^ length es'" using assms(3) es by (intro power_increasing) auto
  also have "\<dots> \<le> digit_value e * 10 ^ length es'"
    using assms(2,4) digit_value_pos [of e] es by auto
  also have "\<dots> \<le> digits_value es" using es by (simp add: digits_value_Cons)
  finally show ?thesis .
qed

lemma strcmp_digits_value:
  "list_all risdigit ds \<Longrightarrow> list_all risdigit es \<Longrightarrow> length ds = length es \<Longrightarrow>
   strcmp ds es = sgn (int (digits_value ds) - int (digits_value es))"
proof (induction ds es rule: strcmp.induct)
  case (4 x xs y ys)
  show ?case
  proof (cases "x = y")
    case True
    with 4 show ?thesis by (simp add: digits_value_Cons)
  next
    case False
    have lt: "digits_value (a # as) < digits_value (b # bs)"
      if "digit_value a < digit_value b" "list_all risdigit as" "length as = length bs" for a b as bs
    proof -
      have "digits_value (a # as) < digit_value a * 10 ^ length as + 10 ^ length as"
        using digits_value_bound [OF that(2)] by (simp add: digits_value_Cons)
      also have "\<dots> = (digit_value a + 1) * 10 ^ length as" by simp
      also have "\<dots> \<le> digit_value b * 10 ^ length as"
        using that(1) by (intro mult_right_mono) auto
      also have "\<dots> \<le> digits_value (b # bs)" using that(3) by (simp add: digits_value_Cons)
      finally show ?thesis .
    qed
    have "(of_char x :: nat) \<noteq> of_char y" using False by simp
    then show ?thesis
      using 4 False lt [of x y xs ys] lt [of y x ys xs] digit_value_less [of x y]
        digit_value_less [of y x] by (auto simp: sgn_if)
  qed
qed simp_all


lemma list_all_takeWhile: "list_all P (takeWhile P s)"
  by (induction s) auto

lemma list_all_strip_zeros: "list_all P ds \<Longrightarrow> list_all P (strip_zeros ds)"
  by (induction ds) auto

lemma segment_cmp_num:
  assumes "list_all risdigit ds" "list_all risdigit es"
  shows "segment_cmp True ds es =
    (let c = sgn (int (digits_value ds) - int (digits_value es)) in if c = 0 then None else Some c)"
proof -
  let ?d = "strip_zeros ds" and ?e = "strip_zeros es"
  have all: "list_all risdigit ?d" "list_all risdigit ?e"
    using assms by (simp_all add: list_all_strip_zeros)
  have hds: "?d \<noteq> [] \<Longrightarrow> hd ?d \<noteq> CHR ''0''" "?e \<noteq> [] \<Longrightarrow> hd ?e \<noteq> CHR ''0''"
    using hd_dropWhile_not [of "\<lambda>c. c = CHR ''0''"] by simp_all
  consider "length ?d < length ?e" | "length ?e < length ?d" | "length ?d = length ?e" by linarith
  then show ?thesis
  proof cases
    case 1
    with digits_value_longer [OF all 1 hds(2)] show ?thesis
      by (simp add: segment_cmp_def digits_value_strip sgn_if)
  next
    case 2
    with digits_value_longer [OF all(2,1) 2 hds(1)] show ?thesis
      by (simp add: segment_cmp_def digits_value_strip sgn_if)
  next
    case 3
    with strcmp_digits_value [OF all 3] show ?thesis
      by (simp add: segment_cmp_def digits_value_strip Let_def sgn_if)
  qed
qed

lemma segment_cmp_alpha:
  "segment_cmp False s t = (if strcmp s t = 0 then None else Some (strcmp s t))"
  using strcmp_range [of s t] by (auto simp: segment_cmp_def Let_def)

lemma class_disjoint:
  "risdigit c \<Longrightarrow> \<not> risalpha c"
  "risdigit c \<or> risalpha c \<Longrightarrow> c \<noteq> CHR ''~'' \<and> c \<noteq> CHR ''^'' \<and> \<not> is_separator c"
  by (auto simp: is_separator_def char_class char_code)

lemma not_separator_cases:
  "\<not> is_separator c \<Longrightarrow> c = CHR ''~'' \<or> c = CHR ''^'' \<or> risdigit c \<or> risalpha c"
  by (auto simp: is_separator_def risalnum_def)

lemma vtokens_skip_separators [simp]: "vtokens (skip_separators s) = vtokens s"
proof (induction s)
  case (Cons c s)
  then show ?case by (auto simp: is_separator_def risalnum_def)
qed simp

lemma vtokens_digit:
  "risdigit (hd s) \<Longrightarrow> s \<noteq> [] \<Longrightarrow>
   vtokens s = Num (digits_value (takeWhile risdigit s)) # vtokens (dropWhile risdigit s)"
  using class_disjoint by (cases s) auto

lemma vtokens_alpha:
  "risalpha (hd s) \<Longrightarrow> s \<noteq> [] \<Longrightarrow>
   vtokens s = Alpha (takeWhile risalpha s) # vtokens (dropWhile risalpha s)"
  using class_disjoint by (cases s) auto

text \<open>A cursor past the separators is at the end or at one of the four kinds of token.\<close>

lemma skipped_cases:
  assumes "s = skip_separators u"
  obtains (nil) "s = []" | (tilde) t where "s = CHR ''~'' # t" | (caret) t where "s = CHR ''^'' # t"
    | (digit) c t where "s = c # t" "risdigit c" | (alpha) c t where "s = c # t" "risalpha c"
proof (cases s)
  case (Cons c t)
  then have "\<not> is_separator c" using assms dropWhile_Cons_not [of is_separator u c t] by simp
  then show thesis using Cons not_separator_cases [of c] that by blast
qed (rule nil)

abbreviation seg_class :: "bool \<Rightarrow> char \<Rightarrow> bool" where
  "seg_class isnum \<equiv> (if isnum then risdigit else risalpha)"

lemma seg_class_head:
  assumes "seg_class isnum c"
  shows "c \<noteq> CHR ''~''" "c \<noteq> CHR ''^''" "risdigit c \<longleftrightarrow> isnum"
  using assms class_disjoint(1) [of c] class_disjoint(2) [of c] by (auto split: if_splits)

lemma rpmvercmp_loop_segments:
  assumes "\<not> (one0 = [] \<and> two0 = [])"
    and one: "c # s = skip_separators one0" "seg_class n c"
    and two: "d # t = skip_separators two0" "seg_class n d"
  shows "rpmvercmp_loop one0 two0 =
    (case segment_cmp n (takeWhile (seg_class n) (c # s)) (takeWhile (seg_class n) (d # t)) of
       Some r \<Rightarrow> r
     | None \<Rightarrow> rpmvercmp_loop (dropWhile (seg_class n) (c # s)) (dropWhile (seg_class n) (d # t)))"
  unfolding rpmvercmp_loop.simps [of one0 two0, folded one(1) two(1)] Let_def
  using assms(1) one(2) two(2) seg_class_head [OF one(2)] seg_class_head [OF two(2)]
  by (cases n) auto

lemma rpmvercmp_loop_mixed:
  assumes "\<not> (one0 = [] \<and> two0 = [])"
    and one: "c # s = skip_separators one0" "seg_class n c"
    and two: "d # t = skip_separators two0" "seg_class (\<not> n) d"
  shows "rpmvercmp_loop one0 two0 = (if n then 1 else -1)"
  unfolding rpmvercmp_loop.simps [of one0 two0, folded one(1) two(1)] Let_def
  using assms(1) one(2) two(2) seg_class_head [OF one(2)] seg_class_head [OF two(2)]
    class_disjoint(1)
  by auto

lemma vtokens_segment:
  "seg_class n c \<Longrightarrow>
   vtokens (c # s) =
     (if n then Num (digits_value (takeWhile risdigit (c # s)))
      else Alpha (takeWhile risalpha (c # s))) # vtokens (dropWhile (seg_class n) (c # s))"
  using vtokens_digit [of "c # s"] vtokens_alpha [of "c # s"] by (cases n) simp_all

lemma segment_cmp_tok:
  assumes "seg_class n c" "seg_class n d"
  shows "segment_cmp n (takeWhile (seg_class n) (c # s)) (takeWhile (seg_class n) (d # t)) =
    (let r = tok_cmp (vhead (vtokens (c # s))) (vhead (vtokens (d # t)))
     in if r = 0 then None else Some r)"
proof (cases n)
  case True
  with assms show ?thesis
    using segment_cmp_num [OF list_all_takeWhile list_all_takeWhile, of "c # s" "d # t"]
      vtokens_segment [OF assms(1)] vtokens_segment [OF assms(2)]
    by (simp add: vhead_def)
next
  case False
  with assms show ?thesis
    using segment_cmp_alpha vtokens_segment [OF assms(1)] vtokens_segment [OF assms(2)]
    by (simp add: vhead_def)
qed

lemma vcmp_head:
  "tok_cmp (vhead ts) (vhead us) \<noteq> 0 \<Longrightarrow> vcmp ts us = tok_cmp (vhead ts) (vhead us)"
  by (subst vcmp_unfold) simp

lemma rpmvercmp_loop_segment_step:
  assumes ne: "\<not> (one0 = [] \<and> two0 = [])"
    and one: "c # s = skip_separators one0" and c: "seg_class n c"
    and two: "d # t = skip_separators two0" and d: "seg_class m d"
    and IH: "m = n \<Longrightarrow>
      segment_cmp n (takeWhile (seg_class n) (c # s)) (takeWhile (seg_class n) (d # t)) = None \<Longrightarrow>
      rpmvercmp_loop (dropWhile (seg_class n) (c # s)) (dropWhile (seg_class n) (d # t)) =
      vcmp (vtokens (dropWhile (seg_class n) (c # s))) (vtokens (dropWhile (seg_class n) (d # t)))"
  shows "rpmvercmp_loop one0 two0 = vcmp (vtokens (c # s)) (vtokens (d # t))"
proof (cases "m = n")
  case True
  then have d': "seg_class n d" using d by simp
  let ?r = "tok_cmp (vhead (vtokens (c # s))) (vhead (vtokens (d # t)))"
  have vc: "vcmp (vtokens (c # s)) (vtokens (d # t)) =
    (if ?r = 0 then vcmp (vtokens (dropWhile (seg_class n) (c # s)))
       (vtokens (dropWhile (seg_class n) (d # t))) else ?r)"
    using vtokens_segment [OF c, of s] vtokens_segment [OF d', of t]
    by (subst vcmp_unfold) (simp del: vtokens.simps)
  have lp: "rpmvercmp_loop one0 two0 =
    (if ?r = 0 then rpmvercmp_loop (dropWhile (seg_class n) (c # s)) (dropWhile (seg_class n) (d # t))
     else ?r)"
    using rpmvercmp_loop_segments [OF ne one c two d'] segment_cmp_tok [OF c d', of s t]
    by (simp add: Let_def del: vtokens.simps takeWhile.simps dropWhile.simps)
  show ?thesis
    using IH [OF True] segment_cmp_tok [OF c d', of s t] unfolding vc lp by (simp add: Let_def)
next
  case False
  then have "rpmvercmp_loop one0 two0 = (if n then 1 else -1)"
    using rpmvercmp_loop_mixed [OF ne one c two] d by simp
  moreover have "vcmp (vtokens (c # s)) (vtokens (d # t)) = (if n then 1 else -1)"
    using vtokens_segment [OF c, of s] vtokens_segment [OF d, of t] False
    by (cases n) (auto simp del: vtokens.simps)
  ultimately show ?thesis by simp
qed

lemma rpmvercmp_loop_correct: "rpmvercmp_loop one0 two0 = vcmp (vtokens one0) (vtokens two0)"
proof (induction one0 two0 rule: rpmvercmp_loop.induct)
  case (1 one0 two0)
  show ?case
  proof (cases "one0 = [] \<and> two0 = []")
    case True
    then show ?thesis by (simp add: rpmvercmp_loop.simps rpmvercmp_end_def)
  next
    case ne: False
    define one two where one: "one = skip_separators one0" and two: "two = skip_separators two0"
    note toks = vtokens_skip_separators [of one0, folded one, symmetric]
      vtokens_skip_separators [of two0, folded two, symmetric]
    note IH = "1.IH" [OF ne one two]
    note facts = ne toks class_disjoint(2)
      rpmvercmp_loop.simps [of one0 two0, folded one two, unfolded Let_def]
    have seg: ?thesis
      if c: "one = c # s" "seg_class n c" and d: "two = d # t" "seg_class m d" for c d s t n m
      unfolding toks c(1) d(1)
    proof (rule rpmvercmp_loop_segment_step [OF ne _ c(2) _ d(2)])
      show "c # s = skip_separators one0" "d # t = skip_separators two0" using one two c d by simp_all
      assume "m = n" and none:
        "segment_cmp n (takeWhile (seg_class n) (c # s)) (takeWhile (seg_class n) (d # t)) = None"
      then show "rpmvercmp_loop (dropWhile (seg_class n) (c # s)) (dropWhile (seg_class n) (d # t)) =
        vcmp (vtokens (dropWhile (seg_class n) (c # s))) (vtokens (dropWhile (seg_class n) (d # t)))"
        unfolding c(1) [symmetric] d(1) [symmetric]
        using c d seg_class_head [OF c(2)] seg_class_head [OF d(2)]
        by (intro IH(3)) (simp_all split: if_splits)
    qed
    show ?thesis
      using one
    proof (cases one rule: skipped_cases)
      case one_digit: (digit c s)
      show ?thesis using two
        by (cases two rule: skipped_cases) (use one_digit facts seg [of c s True _ _ True]
            seg [of c s True _ _ False] in \<open>simp_all add: rpmvercmp_end_def\<close>)
    next
      case one_alpha: (alpha c s)
      show ?thesis using two
        by (cases two rule: skipped_cases) (use one_alpha facts class_disjoint(1) [of c]
            seg [of c s False _ _ True] seg [of c s False _ _ False] in
            \<open>simp_all add: rpmvercmp_end_def\<close>)
    qed (use two in \<open>cases two rule: skipped_cases,
          use facts IH(1,2) in \<open>auto simp: rpmvercmp_end_def\<close>\<close>)+
  qed
qed

subsection \<open>Properties\<close>

lemma rpmvercmp_vcmp: "rpmvercmp a b = vcmp (vtokens a) (vtokens b)"
  by (simp add: rpmvercmp_def rpmvercmp_loop_correct vcmp_zero [THEN iffD2])

interpretation vercmp: c_order rpmvercmp
proof
  show "rpmvercmp y x < 0 \<longleftrightarrow> 0 < rpmvercmp x y" for x y
    using vcmp_flip [of "vtokens y" "vtokens x"] by (simp add: rpmvercmp_vcmp)
  show "rpmvercmp x y \<le> 0 \<Longrightarrow> rpmvercmp y z \<le> 0 \<Longrightarrow> rpmvercmp x z \<le> 0" for x y z
    unfolding rpmvercmp_vcmp by (rule vcmp_trans)
qed

lemma rpmvercmp_flip: "rpmvercmp b a = - rpmvercmp a b"
  by (simp add: rpmvercmp_vcmp) (rule vcmp_flip)

lemma rpmvercmp_range: "rpmvercmp a b \<in> {-1, 0, 1}"
  unfolding rpmvercmp_vcmp by (rule vcmp_range)

lemma vtokens_append:
  "(\<And>c. starts_with c t \<Longrightarrow> \<not> risalnum c) \<Longrightarrow> vtokens (s @ t) = vtokens s @ vtokens t"
proof (induction s rule: vtokens.induct)
  case (2 c s)
  have tw: "takeWhile P (s @ t) = takeWhile P s \<and> dropWhile P (s @ t) = dropWhile P s @ t"
    if "\<And>x. P x \<Longrightarrow> risalnum x" for P
  proof (cases t)
    case (Cons x t')
    then have "\<not> P x" using 2(6) [of x] that by auto
    with Cons show ?thesis by (induction s) auto
  qed simp
  from 2 show ?case
    using tw [of risdigit] tw [of risalpha] by (auto simp: risalnum_def)
qed simp

lemma vcmp_append_head:
  "vcmp (ts @ us) (ts @ vs) = vcmp us vs"
  by (induction ts) (simp_all add: tok_cmp_zero del: tok_cmp.simps)

lemma vtokens_tilde: "vtokens (v @ CHR ''~'' # s) = vtokens v @ Tilde # vtokens s"
  by (subst vtokens_append) (auto simp: char_class char_code)

lemma vtokens_caret: "vtokens (v @ CHR ''^'' # s) = vtokens v @ Caret # vtokens s"
  by (subst vtokens_append) (auto simp: char_class char_code)

text \<open>
  C23: \<open>rpmvercmp\<close> compares versions as token lists: its loop over the two cursors, with the digit
  runs compared as strings, decides exactly as the comparison of the token lists, in which a digit
  run counts by its numeric value however many digits it has.
\<close>

theorem rpmvercmp_tokens: "rpmvercmp a b = vcmp (vtokens a) (vtokens b)"
  by (rule rpmvercmp_vcmp)

text \<open>
  C1: the version comparison is a total preorder: it returns -1, 0 or 1, exchanging the arguments
  negates it, and it is transitive, so sorting and searching by version are well defined; versions
  are equal exactly when their tokens are.
\<close>

theorem rpmvercmp_total_preorder:
  "rpmvercmp a b \<in> {-1, 0, 1} \<and> rpmvercmp b a = - rpmvercmp a b \<and>
   (rpmvercmp a b = 0 \<longleftrightarrow> vtokens a = vtokens b) \<and>
   (rpmvercmp a b \<le> 0 \<longrightarrow> rpmvercmp b c \<le> 0 \<longrightarrow> rpmvercmp a c \<le> 0)"
  using rpmvercmp_range [of a b] rpmvercmp_flip [of b a] vercmp.cmp_trans [of a b c]
  by (simp add: rpmvercmp_vcmp vcmp_zero)

theorem rpmvercmp_total_preorder_witness:
  "rpmvercmp ''1.0~rc1'' ''1.0'' \<le> 0 \<and> rpmvercmp ''1.0'' ''1.0^git2'' \<le> 0 \<and>
   rpmvercmp ''1.0~rc1'' ''1.0^git2'' \<le> 0"
proof -
  have a: "rpmvercmp ''1.0~rc1'' ''1.0'' \<le> 0" "rpmvercmp ''1.0'' ''1.0^git2'' \<le> 0"
    by code_simp+
  with rpmvercmp_total_preorder [of "''1.0~rc1''" "''1.0''" "''1.0^git2''"] show ?thesis by blast
qed

text \<open>a tilde suffix makes a version older than the base version and a caret suffix newer, whatever
  follows; a tilde suffix is older than any caret suffix of the same base version.
\<close>

theorem rpmvercmp_tilde_base_caret:
  "rpmvercmp (v @ CHR ''~'' # s) v = -1 \<and> rpmvercmp v (v @ CHR ''^'' # t) = -1 \<and>
   rpmvercmp (v @ CHR ''~'' # s) (v @ CHR ''^'' # t) = -1"
  using vcmp_append_head [of "vtokens v" "Tilde # vtokens s" "[]"]
    vcmp_append_head [of "vtokens v" "[]" "Caret # vtokens t"]
    vcmp_append_head [of "vtokens v" "Tilde # vtokens s" "Caret # vtokens t"]
  by (simp add: rpmvercmp_vcmp vtokens_tilde vtokens_caret)

end
