(* ===== verification/Sense.thy ===== *)
theory Sense
  imports Rpmstring
begin

text \<open>
  The dependency sense flags of include/rpm/rpmds.h: 32-bit masks (\<open>rpmsenseFlags\<close>) and the
  predicates the ordering and dependency code tests them with.
\<close>

type_synonym rpmsenseFlags = u32

definition has :: "rpmsenseFlags \<Rightarrow> rpmsenseFlags \<Rightarrow> bool" where
  "has f m \<longleftrightarrow> f AND m \<noteq> 0"

abbreviation RPMSENSE_ANY :: rpmsenseFlags where "RPMSENSE_ANY \<equiv> 0"
abbreviation RPMSENSE_LESS :: rpmsenseFlags where "RPMSENSE_LESS \<equiv> 0x2"
abbreviation RPMSENSE_GREATER :: rpmsenseFlags where "RPMSENSE_GREATER \<equiv> 0x4"
abbreviation RPMSENSE_EQUAL :: rpmsenseFlags where "RPMSENSE_EQUAL \<equiv> 0x8"
abbreviation RPMSENSE_POSTTRANS :: rpmsenseFlags where "RPMSENSE_POSTTRANS \<equiv> 0x20"
abbreviation RPMSENSE_PREREQ :: rpmsenseFlags where "RPMSENSE_PREREQ \<equiv> 0x40"
abbreviation RPMSENSE_PRETRANS :: rpmsenseFlags where "RPMSENSE_PRETRANS \<equiv> 0x80"
abbreviation RPMSENSE_INTERP :: rpmsenseFlags where "RPMSENSE_INTERP \<equiv> 0x100"
abbreviation RPMSENSE_SCRIPT_PRE :: rpmsenseFlags where "RPMSENSE_SCRIPT_PRE \<equiv> 0x200"
abbreviation RPMSENSE_SCRIPT_POST :: rpmsenseFlags where "RPMSENSE_SCRIPT_POST \<equiv> 0x400"
abbreviation RPMSENSE_SCRIPT_PREUN :: rpmsenseFlags where "RPMSENSE_SCRIPT_PREUN \<equiv> 0x800"
abbreviation RPMSENSE_SCRIPT_POSTUN :: rpmsenseFlags where "RPMSENSE_SCRIPT_POSTUN \<equiv> 0x1000"
abbreviation RPMSENSE_SCRIPT_VERIFY :: rpmsenseFlags where "RPMSENSE_SCRIPT_VERIFY \<equiv> 0x2000"
abbreviation RPMSENSE_FIND_REQUIRES :: rpmsenseFlags where "RPMSENSE_FIND_REQUIRES \<equiv> 0x4000"
abbreviation RPMSENSE_FIND_PROVIDES :: rpmsenseFlags where "RPMSENSE_FIND_PROVIDES \<equiv> 0x8000"
abbreviation RPMSENSE_TRIGGERIN :: rpmsenseFlags where "RPMSENSE_TRIGGERIN \<equiv> 0x10000"
abbreviation RPMSENSE_TRIGGERUN :: rpmsenseFlags where "RPMSENSE_TRIGGERUN \<equiv> 0x20000"
abbreviation RPMSENSE_TRIGGERPOSTUN :: rpmsenseFlags where "RPMSENSE_TRIGGERPOSTUN \<equiv> 0x40000"
abbreviation RPMSENSE_MISSINGOK :: rpmsenseFlags where "RPMSENSE_MISSINGOK \<equiv> 0x80000"
abbreviation RPMSENSE_PREUNTRANS :: rpmsenseFlags where "RPMSENSE_PREUNTRANS \<equiv> 0x100000"
abbreviation RPMSENSE_POSTUNTRANS :: rpmsenseFlags where "RPMSENSE_POSTUNTRANS \<equiv> 0x200000"
abbreviation RPMSENSE_RPMLIB :: rpmsenseFlags where "RPMSENSE_RPMLIB \<equiv> 0x1000000"
abbreviation RPMSENSE_TRIGGERPREIN :: rpmsenseFlags where "RPMSENSE_TRIGGERPREIN \<equiv> 0x2000000"
abbreviation RPMSENSE_KEYRING :: rpmsenseFlags where "RPMSENSE_KEYRING \<equiv> 0x4000000"
abbreviation RPMSENSE_CONFIG :: rpmsenseFlags where "RPMSENSE_CONFIG \<equiv> 0x10000000"
abbreviation RPMSENSE_META :: rpmsenseFlags where "RPMSENSE_META \<equiv> 0x20000000"

abbreviation RPMSENSE_SENSEMASK :: rpmsenseFlags where "RPMSENSE_SENSEMASK \<equiv> 15"

definition RPMSENSE_TRIGGER :: rpmsenseFlags where
  "RPMSENSE_TRIGGER =
     RPMSENSE_TRIGGERPREIN OR RPMSENSE_TRIGGERIN OR RPMSENSE_TRIGGERUN OR RPMSENSE_TRIGGERPOSTUN"

definition ALL_REQUIRES_MASK :: rpmsenseFlags where
  "ALL_REQUIRES_MASK =
     RPMSENSE_INTERP OR RPMSENSE_SCRIPT_PRE OR RPMSENSE_SCRIPT_POST OR RPMSENSE_SCRIPT_PREUN OR
     RPMSENSE_SCRIPT_POSTUN OR RPMSENSE_SCRIPT_VERIFY OR RPMSENSE_FIND_REQUIRES OR
     RPMSENSE_RPMLIB OR RPMSENSE_KEYRING OR RPMSENSE_PRETRANS OR RPMSENSE_POSTTRANS OR
     RPMSENSE_PREUNTRANS OR RPMSENSE_POSTUNTRANS OR RPMSENSE_PREREQ OR RPMSENSE_META OR
     RPMSENSE_MISSINGOK"

definition notpre :: "rpmsenseFlags \<Rightarrow> rpmsenseFlags" where
  "notpre x = x AND NOT RPMSENSE_PREREQ"

definition INSTALL_ONLY_MASK :: rpmsenseFlags where
  "INSTALL_ONLY_MASK =
     notpre (RPMSENSE_SCRIPT_PRE OR RPMSENSE_SCRIPT_POST OR RPMSENSE_RPMLIB OR RPMSENSE_KEYRING OR
             RPMSENSE_PRETRANS OR RPMSENSE_POSTTRANS)"

definition ERASE_ONLY_MASK :: rpmsenseFlags where
  "ERASE_ONLY_MASK =
     notpre (RPMSENSE_SCRIPT_PREUN OR RPMSENSE_SCRIPT_POSTUN OR RPMSENSE_PREUNTRANS OR
             RPMSENSE_POSTUNTRANS)"

definition UNORDERED_ONLY_MASK :: rpmsenseFlags where
  "UNORDERED_ONLY_MASK =
     notpre (RPMSENSE_RPMLIB OR RPMSENSE_CONFIG OR RPMSENSE_PRETRANS OR RPMSENSE_POSTTRANS OR
             RPMSENSE_PREUNTRANS OR RPMSENSE_POSTUNTRANS OR RPMSENSE_SCRIPT_VERIFY OR RPMSENSE_META)"

definition FORCE_ORDER_ONLY_MASK :: rpmsenseFlags where
  "FORCE_ORDER_ONLY_MASK =
     notpre (RPMSENSE_SCRIPT_PRE OR RPMSENSE_SCRIPT_POST OR RPMSENSE_SCRIPT_PREUN OR
             RPMSENSE_SCRIPT_POSTUN)"

definition isLegacyPreReq :: "rpmsenseFlags \<Rightarrow> bool" where
  "isLegacyPreReq x \<longleftrightarrow> x AND ALL_REQUIRES_MASK = RPMSENSE_PREREQ"

definition isInstallPreReq :: "rpmsenseFlags \<Rightarrow> rpmsenseFlags" where
  "isInstallPreReq x = x AND INSTALL_ONLY_MASK"

definition isErasePreReq :: "rpmsenseFlags \<Rightarrow> rpmsenseFlags" where
  "isErasePreReq x = x AND ERASE_ONLY_MASK"

definition isUnorderedReq :: "rpmsenseFlags \<Rightarrow> bool" where
  "isUnorderedReq x \<longleftrightarrow> has x UNORDERED_ONLY_MASK \<and> \<not> has x FORCE_ORDER_ONLY_MASK"

end
