(* ===== verification/Rpmver.thy ===== *)
theory Rpmver
  imports Complex_Main Rpmvercmp Sense
begin

text \<open>
  Version handles, rpmio/rpmver.cc: splitting \<open>[epoch:]version[-release]\<close>, comparing two handles,
  and the overlap test of two versioned dependency ranges.
\<close>

subsection \<open>Handles and parsing\<close>

record rpmver =
  ver_e :: "cstr option"
  ver_v :: cstr
  ver_r :: "cstr option"

text \<open>\<open>strrchr(s, c)\<close>: the offset of the last \<open>c\<close>.\<close>

fun strrchr :: "cstr \<Rightarrow> char \<Rightarrow> nat option" where
  "strrchr [] c = None"
| "strrchr (x # s) c =
     (case strrchr s c of Some i \<Rightarrow> Some (Suc i) | None \<Rightarrow> if x = c then Some 0 else None)"

text \<open>
  \<open>parseEVR\<close> writes NULs over the \<open>:\<close> at \<open>s\<close> and the \<open>-\<close> at \<open>se\<close> of the copied string and keeps
  pointers into it; the model returns the three substrings.
\<close>

definition parseEVR :: "cstr \<Rightarrow> rpmver" where
  "parseEVR evr =
     (let digits = takeWhile risdigit evr;
          s = dropWhile risdigit evr;
          se = strrchr s (CHR ''-'')
      in if starts_with (CHR '':'') s then
           \<lparr>ver_e = Some (if digits = [] then ''0'' else digits),
            ver_v = (case se of Some i \<Rightarrow> take (i - 1) (tl s) | None \<Rightarrow> tl s),
            ver_r = map_option (\<lambda>i. drop (Suc i) s) se\<rparr>
         else
           \<lparr>ver_e = None,
            ver_v = (case se of Some i \<Rightarrow> take (length digits + i) evr | None \<Rightarrow> evr),
            ver_r = map_option (\<lambda>i. drop (Suc i) s) se\<rparr>)"

definition rpmverParse :: "cstr option \<Rightarrow> rpmver option" where
  "rpmverParse evr =
     (case evr of None \<Rightarrow> None | Some s \<Rightarrow> if s = [] then None else Some (parseEVR s))"

definition rpmverNew :: "cstr option \<Rightarrow> cstr option \<Rightarrow> cstr option \<Rightarrow> rpmver option" where
  "rpmverNew e0 v0 r0 =
     (case v0 of
        None \<Rightarrow> None
      | Some w \<Rightarrow> if w = [] then None else Some \<lparr>ver_e = e0, ver_v = w, ver_r = r0\<rparr>)"

subsection \<open>Accessors\<close>

definition rpmverE :: "rpmver option \<Rightarrow> cstr option" where
  "rpmverE rv = (case rv of Some x \<Rightarrow> ver_e x | None \<Rightarrow> None)"

definition rpmverV :: "rpmver option \<Rightarrow> cstr option" where
  "rpmverV rv = (case rv of Some x \<Rightarrow> Some (ver_v x) | None \<Rightarrow> None)"

definition rpmverR :: "rpmver option \<Rightarrow> cstr option" where
  "rpmverR rv = (case rv of Some x \<Rightarrow> ver_r x | None \<Rightarrow> None)"

definition rpmverEVal :: "rpmver option \<Rightarrow> u32" where
  "rpmverEVal rv =
     (case rv of
        Some x \<Rightarrow> (case ver_e x of Some s \<Rightarrow> word_of_int (atol s) | None \<Rightarrow> 0)
      | None \<Rightarrow> 0)"

definition rpmverEVR :: "rpmver option \<Rightarrow> cstr option" where
  "rpmverEVR rv =
     (case rv of
        None \<Rightarrow> None
      | Some x \<Rightarrow>
          fst (rstrscat (Some None)
            [case ver_e x of Some s \<Rightarrow> s | None \<Rightarrow> '''', case ver_e x of Some _ \<Rightarrow> '':'' | None \<Rightarrow> '''',
             ver_v x,
             case ver_r x of Some _ \<Rightarrow> ''-'' | None \<Rightarrow> '''', case ver_r x of Some s \<Rightarrow> s | None \<Rightarrow> '''']))"

subsection \<open>Comparison\<close>

definition compare_values :: "cstr option \<Rightarrow> cstr option \<Rightarrow> int" where
  "compare_values str1 str2 =
     (case (str1, str2) of
        (None, None) \<Rightarrow> 0
      | (Some _, None) \<Rightarrow> 1
      | (None, Some _) \<Rightarrow> -1
      | (Some s, Some t) \<Rightarrow> rpmvercmp s t)"

definition rpmverCmp :: "rpmver \<Rightarrow> rpmver \<Rightarrow> int" where
  "rpmverCmp v1 v2 =
     (let e1 = (case ver_e v1 of Some s \<Rightarrow> s | None \<Rightarrow> ''0'');
          e2 = (case ver_e v2 of Some s \<Rightarrow> s | None \<Rightarrow> ''0'');
          rc = compare_values (Some e1) (Some e2)
      in if rc \<noteq> 0 then rc
         else
           let rc = compare_values (Some (ver_v v1)) (Some (ver_v v2))
           in if rc \<noteq> 0 then rc else compare_values (ver_r v1) (ver_r v2))"

subsection \<open>Overlap of ranges\<close>

text \<open>\<open>p && *p\<close> of a string pointer.\<close>

definition present :: "cstr option \<Rightarrow> bool" where
  "present s \<longleftrightarrow> s \<noteq> None \<and> s \<noteq> Some []"

text \<open>The last part of \<open>rpmverOverlap\<close>: the ranges against the sense of the comparison.\<close>

definition range_overlap :: "int \<Rightarrow> rpmsenseFlags \<Rightarrow> rpmsenseFlags \<Rightarrow> bool" where
  "range_overlap sense f1 f2 =
     (if sense < 0 \<and> (has f1 RPMSENSE_GREATER \<or> has f2 RPMSENSE_LESS) then True
      else if sense > 0 \<and> (has f1 RPMSENSE_LESS \<or> has f2 RPMSENSE_GREATER) then True
      else if sense = 0 \<and>
        (has f1 RPMSENSE_EQUAL \<and> has f2 RPMSENSE_EQUAL \<or>
         has f1 RPMSENSE_LESS \<and> has f2 RPMSENSE_LESS \<or>
         has f1 RPMSENSE_GREATER \<and> has f2 RPMSENSE_GREATER) then True
      else False)"

definition epoch_cmp :: "rpmver \<Rightarrow> rpmver \<Rightarrow> int" where
  "epoch_cmp v1 v2 =
     (if present (ver_e v1) \<and> present (ver_e v2) then rpmvercmp (the (ver_e v1)) (the (ver_e v2))
      else if present (ver_e v1) \<and> atol (the (ver_e v1)) > 0 then 1
      else if present (ver_e v2) \<and> atol (the (ver_e v2)) > 0 then -1
      else 0)"

definition rpmverOverlap :: "rpmver \<Rightarrow> rpmsenseFlags \<Rightarrow> rpmver \<Rightarrow> rpmsenseFlags \<Rightarrow> bool" where
  "rpmverOverlap v1 f1 v2 f2 =
     (let sense = epoch_cmp v1 v2 in
      if sense \<noteq> 0 then range_overlap sense f1 f2
      else
        let sense = rpmvercmp (ver_v v1) (ver_v v2) in
        if sense \<noteq> 0 then range_overlap sense f1 f2
        else if present (ver_r v1) \<and> present (ver_r v2)
        then range_overlap (rpmvercmp (the (ver_r v1)) (the (ver_r v2))) f1 f2
        else if present (ver_r v1) \<and> has f2 RPMSENSE_EQUAL \<or>
                present (ver_r v2) \<and> has f1 RPMSENSE_EQUAL then True
        else range_overlap sense f1 f2)"

subsection \<open>Parsing and printing\<close>

lemma strrchr_None: "strrchr s c = None \<longleftrightarrow> c \<notin> set s"
  by (induction s) (auto split: option.splits)

lemma strrchr_Some:
  "strrchr s c = Some i \<longleftrightarrow>
     i < length s \<and> s ! i = c \<and> c \<notin> set (drop (Suc i) s)"
proof (induction s arbitrary: i)
  case (Cons x s)
  show ?case
  proof (cases i)
    case 0
    then show ?thesis using strrchr_None [of s c] by (auto split: option.splits)
  next
    case (Suc k)
    then show ?thesis using Cons.IH [of k] by (auto split: option.splits)
  qed
qed simp

lemma strrchr_append:
  "c \<notin> set t \<Longrightarrow> strrchr (s @ c # t) c = Some (length s)"
  by (simp add: strrchr_Some)

lemma strrchr_split: "strrchr s c = Some i \<Longrightarrow> s = take i s @ c # drop (Suc i) s"
  by (metis strrchr_Some id_take_nth_drop)

lemma rpmverEVR_Some:
  "rpmverEVR (Some x) = Some
     ((case ver_e x of Some s \<Rightarrow> s @ '':'' | None \<Rightarrow> []) @ ver_v x @
      (case ver_r x of Some s \<Rightarrow> ''-'' @ s | None \<Rightarrow> []))"
  by (simp add: rpmverEVR_def rstrscat_def Let_def split: option.splits)

lemma not_digit: "\<not> risdigit CHR '':''" "\<not> risdigit CHR ''-''"
  by (simp_all add: risdigit_def char_code)

lemma takeWhile_digits_colon:
  "list_all risdigit ds \<Longrightarrow> takeWhile risdigit (ds @ CHR '':'' # t) = ds \<and>
   dropWhile risdigit (ds @ CHR '':'' # t) = CHR '':'' # t"
  using span_append [of risdigit "CHR '':''" ds t] not_digit by (simp add: list_all_iff)

text \<open>The handles that \<open>[epoch:]version[-release]\<close> can write without ambiguity.\<close>

definition wf_ver :: "rpmver \<Rightarrow> bool" where
  "wf_ver x \<longleftrightarrow>
     (case ver_e x of
        Some d \<Rightarrow> d \<noteq> [] \<and> list_all risdigit d
      | None \<Rightarrow> \<not> starts_with (CHR '':'') (dropWhile risdigit (ver_v x))) \<and>
     ver_v x \<noteq> [] \<and>
     (case ver_r x of Some s \<Rightarrow> CHR ''-'' \<notin> set s | None \<Rightarrow> CHR ''-'' \<notin> set (ver_v x))"

lemma parseEVR_print:
  assumes "wf_ver x"
  shows "parseEVR (the (rpmverEVR (Some x))) = x"
proof (cases "ver_e x")
  case (Some d)
  with assms have d: "d \<noteq> []" "list_all risdigit d" by (auto simp: wf_ver_def)
  note scan = takeWhile_digits_colon [OF d(2)]
  show ?thesis
  proof (cases "ver_r x")
    case None
    with assms have "CHR ''-'' \<notin> set (ver_v x)" by (simp add: wf_ver_def)
    then have "strrchr (ver_v x) CHR ''-'' = None" by (simp add: strrchr_None)
    with Some None d scan [of "ver_v x"] show ?thesis
      by (simp add: parseEVR_def rpmverEVR_Some Let_def)
  next
    case r: (Some s)
    with assms have "CHR ''-'' \<notin> set s" by (simp add: wf_ver_def)
    then have "strrchr (CHR '':'' # ver_v x @ CHR ''-'' # s) CHR ''-'' = Some (Suc (length (ver_v x)))"
      using strrchr_append [of "CHR ''-''" s "CHR '':'' # ver_v x"] by simp
    with Some r d scan [of "ver_v x @ CHR ''-'' # s"] show ?thesis
      by (simp add: parseEVR_def rpmverEVR_Some Let_def)
  qed
next
  case None
  with assms have col: "\<not> starts_with CHR '':'' (dropWhile risdigit (ver_v x))"
    by (simp add: wf_ver_def)
  show ?thesis
  proof (cases "ver_r x")
    case r: None
    with assms have "CHR ''-'' \<notin> set (ver_v x)" by (simp add: wf_ver_def)
    then have "strrchr (dropWhile risdigit (ver_v x)) CHR ''-'' = None"
      using set_dropWhileD by (fastforce simp: strrchr_None)
    with None r col show ?thesis by (simp add: parseEVR_def rpmverEVR_Some Let_def)
  next
    case r: (Some s)
    with assms have "CHR ''-'' \<notin> set s" by (simp add: wf_ver_def)
    then have "strrchr (dropWhile risdigit (ver_v x) @ CHR ''-'' # s) CHR ''-'' =
        Some (length (dropWhile risdigit (ver_v x)))"
      by (rule strrchr_append)
    moreover have "\<not> starts_with CHR '':'' (dropWhile risdigit (ver_v x) @ CHR ''-'' # s)"
      using col by (simp add: starts_with_append)
    ultimately show ?thesis
      using None r span_append [of risdigit "CHR ''-''" "ver_v x" s] not_digit
        length_span [of risdigit "ver_v x"]
      by (simp add: parseEVR_def rpmverEVR_Some Let_def)
  qed
qed

lemma print_parseEVR:
  assumes "\<not> starts_with (CHR '':'') evr"
  shows "rpmverEVR (Some (parseEVR evr)) = Some evr"
proof -
  let ?ds = "takeWhile risdigit evr" and ?s = "dropWhile risdigit evr"
  have evr: "evr = ?ds @ ?s" by simp
  have ds: "?ds \<noteq> []" if "starts_with (CHR '':'') ?s"
    using that assms by (cases evr) (auto split: if_splits)
  show ?thesis
  proof (cases "strrchr ?s (CHR ''-'')")
    case None
    with ds evr show ?thesis
      by (auto simp: parseEVR_def rpmverEVR_Some Let_def starts_with_conv)
        (metis append_Cons append_Nil list.sel(3) takeWhile_dropWhile_id)
  next
    case (Some i)
    note split = strrchr_split [OF Some]
    have i: "i < length ?s" "?s ! i = CHR ''-''" using Some by (simp_all add: strrchr_Some)
    show ?thesis
    proof (cases "starts_with (CHR '':'') ?s")
      case True
      then obtain t where t: "?s = CHR '':'' # t" by (auto simp: starts_with_conv)
      with i obtain k where k: "i = Suc k" by (cases i) auto
      have "evr = ?ds @ CHR '':'' # take k t @ CHR ''-'' # drop (Suc k) t"
        using evr split t k by (metis append_Cons drop_Suc_Cons take_Suc_Cons)
      with True Some ds t k show ?thesis
        by (simp add: parseEVR_def rpmverEVR_Some Let_def)
    next
      case False
      have "evr = (?ds @ take i ?s) @ CHR ''-'' # drop (Suc i) ?s"
        using evr split by (metis append.assoc)
      moreover have "take (length ?ds + i) evr = ?ds @ take i ?s"
        using take_add [of "length ?ds" i evr] takeWhile_eq_take [of risdigit evr]
          dropWhile_eq_drop [of risdigit evr] by simp
      ultimately show ?thesis
        using False Some by (simp add: parseEVR_def rpmverEVR_Some Let_def)
    qed
  qed
qed

subsection \<open>Order\<close>

lemma compare_values_order: "c_order compare_values"
proof
  show "compare_values y x < 0 \<longleftrightarrow> 0 < compare_values x y" for x y
    by (cases x; cases y) (simp_all add: compare_values_def vercmp.cmp_flip)
  show "compare_values x y \<le> 0 \<Longrightarrow> compare_values y z \<le> 0 \<Longrightarrow> compare_values x z \<le> 0" for x y z
    by (cases x; cases y; cases z) (auto simp: compare_values_def intro: vercmp.cmp_trans)
qed

definition epoch_or_0 :: "rpmver \<Rightarrow> cstr" where
  "epoch_or_0 x = (case ver_e x of Some s \<Rightarrow> s | None \<Rightarrow> ''0'')"

lemma rpmverCmp_lex:
  "rpmverCmp x y =
     (if compare_values (Some (epoch_or_0 x)) (Some (epoch_or_0 y)) \<noteq> 0
      then compare_values (Some (epoch_or_0 x)) (Some (epoch_or_0 y))
      else if compare_values (Some (ver_v x)) (Some (ver_v y)) \<noteq> 0
           then compare_values (Some (ver_v x)) (Some (ver_v y))
           else compare_values (ver_r x) (ver_r y))"
  by (simp add: rpmverCmp_def epoch_or_0_def Let_def)

interpretation vercmp3: c_order rpmverCmp
  unfolding rpmverCmp_lex [abs_def]
  by (rule c_order_lex
        [OF c_order_key [OF compare_values_order, of "\<lambda>x. Some (epoch_or_0 x)"]
            c_order_lex
              [OF c_order_key [OF compare_values_order, of "\<lambda>x. Some (ver_v x)"]
                  c_order_key [OF compare_values_order, of ver_r]]])

subsection \<open>Overlap\<close>

text \<open>What the flags of a dependency admit. Versions are placed in a dense order: one with a release is a point, one
  without stands for all its releases and is an interval.\<close>

type_synonym extent = "rat \<times> rat"

definition in_range :: "rpmsenseFlags \<Rightarrow> extent \<Rightarrow> rat \<Rightarrow> bool" where
  "in_range f i w \<longleftrightarrow>
     has f RPMSENSE_LESS \<and> w < fst i \<or> has f RPMSENSE_EQUAL \<and> fst i \<le> w \<and> w \<le> snd i \<or>
     has f RPMSENSE_GREATER \<and> snd i < w"

definition any_sense :: "rpmsenseFlags \<Rightarrow> bool" where
  "any_sense f \<longleftrightarrow> has f RPMSENSE_LESS \<or> has f RPMSENSE_EQUAL \<or> has f RPMSENSE_GREATER"

text \<open>Parsed epochs are digits; a missing epoch counts as 0 both ways the code compares them.\<close>

definition digit_epoch :: "rpmver \<Rightarrow> bool" where
  "digit_epoch x \<longleftrightarrow> (case ver_e x of Some d \<Rightarrow> d \<noteq> [] \<and> list_all risdigit d | None \<Rightarrow> True)"

lemma dec_value_digits: "list_all risdigit ds \<Longrightarrow> dec_value ds = int (digits_value ds)"
proof (induction ds rule: rev_induct)
  case (snoc c ds)
  then have "(48 :: nat) \<le> of_char c" by (simp add: risdigit_def char_code)
  then have "int (digit_value c) = of_char c - 48"
    by (simp add: digit_value_def of_nat_diff of_nat_of_char)
  with snoc show ?case by (simp add: dec_value_def digits_value_def)
qed (simp add: dec_value_def)

lemma atol_digits:
  assumes "list_all risdigit ds" "ds \<noteq> []"
  shows "atol ds > 0 \<longleftrightarrow> digits_value ds > 0"
proof -
  obtain c t where ds: "ds = c # t" "risdigit c" using assms by (cases ds) auto
  then have "\<not> risspace c" "c \<noteq> CHR ''-''" "c \<noteq> CHR ''+''"
    by (auto simp: char_class char_code)
  then have "atol ds = min LONG_MAX (dec_value ds)"
    using ds assms(1) dec_value_digits [OF assms(1)]
    by (simp add: atol_def Let_def takeWhile_eq_all_conv [THEN iffD2] list_all_iff LONG_MIN_def LONG_MAX_def)
  then show ?thesis using dec_value_digits [OF assms(1)] by (simp add: LONG_MAX_def)
qed

lemma vtokens_digits: "list_all risdigit ds \<Longrightarrow> ds \<noteq> [] \<Longrightarrow> vtokens ds = [Num (digits_value ds)]"
  using vtokens_digit [of ds] by (cases ds) (auto simp: list_all_iff takeWhile_eq_all_conv [THEN iffD2]
      dropWhile_eq_Nil_conv [THEN iffD2] simp del: vtokens.simps(2))

lemma rpmvercmp_digits:
  "list_all risdigit ds \<Longrightarrow> ds \<noteq> [] \<Longrightarrow> list_all risdigit es \<Longrightarrow> es \<noteq> [] \<Longrightarrow>
   rpmvercmp ds es = sgn (int (digits_value ds) - int (digits_value es))"
  by (simp add: rpmvercmp_vcmp vtokens_digits sgn_if)

lemma epoch_cmp_digits:
  assumes "digit_epoch x" "digit_epoch y"
  shows "epoch_cmp x y = rpmvercmp (epoch_or_0 x) (epoch_or_0 y)"
proof -
  have 0: "list_all risdigit ''0''" "digits_value ''0'' = 0"
    by (simp_all add: risdigit_def char_code digits_value_def digit_value_def)
  show ?thesis
    using assms rpmvercmp_digits [of _ "''0''"] rpmvercmp_digits [of "''0''"] 0
      rpmvercmp_digits [of "''0''" "''0''"]
    by (cases "ver_e x"; cases "ver_e y")
      (auto simp: epoch_cmp_def digit_epoch_def present_def epoch_or_0_def atol_digits sgn_if)
qed

text \<open>The order of the versions without their releases.\<close>

definition ev_cmp :: "rpmver \<Rightarrow> rpmver \<Rightarrow> int" where
  "ev_cmp x y = rpmverCmp (x\<lparr>ver_r := None\<rparr>) (y\<lparr>ver_r := None\<rparr>)"

definition placed :: "rpmver \<Rightarrow> extent \<Rightarrow> bool" where
  "placed x i \<longleftrightarrow> (if present (ver_r x) then fst i = snd i else fst i < snd i)"

text \<open>Two versions are placed according to their order; a release lies in the interval of its version.\<close>

definition placement :: "rpmver \<Rightarrow> extent \<Rightarrow> rpmver \<Rightarrow> extent \<Rightarrow> bool" where
  "placement x i y j \<longleftrightarrow> placed x i \<and> placed y j \<and>
     (if ev_cmp x y < 0 then snd i < fst j
      else if ev_cmp x y > 0 then snd j < fst i
      else if present (ver_r x) \<and> present (ver_r y) then
        (let c = rpmvercmp (the (ver_r x)) (the (ver_r y)) in if c < 0 then fst i < fst j else if c > 0 then fst j < fst i else i = j)
      else if present (ver_r x) then fst j < fst i \<and> fst i < snd j
      else if present (ver_r y) then fst i < fst j \<and> fst j < snd i
      else i = j)"

lemma placed_le: "placed x i \<Longrightarrow> fst i \<le> snd i"
  by (auto simp: placed_def split: if_splits)

lemma ev_cmp_lex:
  assumes "digit_epoch x" "digit_epoch y"
  shows "ev_cmp x y = (if epoch_cmp x y \<noteq> 0 then epoch_cmp x y else rpmvercmp (ver_v x) (ver_v y))"
  by (simp add: ev_cmp_def rpmverCmp_lex epoch_cmp_digits [OF assms] compare_values_def epoch_or_0_def)

lemma rpmverOverlap_ev:
  assumes "digit_epoch x" "digit_epoch y"
  shows "rpmverOverlap x f y g =
    (if ev_cmp x y \<noteq> 0 then range_overlap (ev_cmp x y) f g
     else if present (ver_r x) \<and> present (ver_r y) then range_overlap (rpmvercmp (the (ver_r x)) (the (ver_r y))) f g
     else present (ver_r x) \<and> has g RPMSENSE_EQUAL \<or> present (ver_r y) \<and> has f RPMSENSE_EQUAL \<or> range_overlap 0 f g)"
  by (auto simp: rpmverOverlap_def ev_cmp_lex [OF assms] Let_def)

text \<open>The points that two ranges have in common, by the position of their intervals.\<close>

lemma intersect_apart:
  assumes "snd i < fst j" "fst i \<le> snd i" "fst j \<le> snd j" "any_sense f" "any_sense g"
  shows "(\<exists>w. in_range f i w \<and> in_range g j w) \<longleftrightarrow> has f RPMSENSE_GREATER \<or> has g RPMSENSE_LESS"
proof
  show "has f RPMSENSE_GREATER \<or> has g RPMSENSE_LESS" if "\<exists>w. in_range f i w \<and> in_range g j w"
    using that assms(1-3) by (auto simp: in_range_def)
  obtain m where m: "snd i < m" "m < fst j" using dense [OF assms(1)] by blast
  have below: "in_range g j w" if "w < fst j" "has g RPMSENSE_LESS" for w using that by (simp add: in_range_def)
  have above: "in_range f i w" if "snd i < w" "has f RPMSENSE_GREATER" for w using that by (simp add: in_range_def)
  have "\<exists>w. snd i < w \<and> in_range g j w"
    using assms(1,3,5) m gt_ex [of "snd j"] unfolding any_sense_def in_range_def by (meson less_le_trans less_trans order_refl)
  moreover have "\<exists>w. w < fst j \<and> in_range f i w"
    using assms(1,2,4) m lt_ex [of "fst i"] unfolding any_sense_def in_range_def by (meson le_less_trans less_trans order_refl)
  ultimately show "\<exists>w. in_range f i w \<and> in_range g j w" if "has f RPMSENSE_GREATER \<or> has g RPMSENSE_LESS"
    using that above below by blast
qed

lemma range_overlap_0:
  "range_overlap 0 f g \<longleftrightarrow> has f RPMSENSE_EQUAL \<and> has g RPMSENSE_EQUAL \<or> has f RPMSENSE_LESS \<and> has g RPMSENSE_LESS \<or>
     has f RPMSENSE_GREATER \<and> has g RPMSENSE_GREATER"
  by (simp add: range_overlap_def)

lemma intersect_same:
  assumes "fst i \<le> snd i"
  shows "(\<exists>w. in_range f i w \<and> in_range g i w) \<longleftrightarrow> range_overlap 0 f g"
proof
  obtain a b where ab: "a < fst i" "snd i < b" using lt_ex [of "fst i"] gt_ex [of "snd i"] by blast
  have "in_range h i a" if "has h RPMSENSE_LESS" for h using ab that by (simp add: in_range_def)
  moreover have "in_range h i b" if "has h RPMSENSE_GREATER" for h using ab that by (simp add: in_range_def)
  moreover have "in_range h i (fst i)" if "has h RPMSENSE_EQUAL" for h using assms that by (simp add: in_range_def)
  ultimately show "\<exists>w. in_range f i w \<and> in_range g i w" if "range_overlap 0 f g" using that unfolding range_overlap_0 by blast
  show "range_overlap 0 f g" if "\<exists>w. in_range f i w \<and> in_range g i w" using that assms unfolding range_overlap_0 in_range_def by auto
qed

lemma intersect_inside:
  assumes "fst j < fst i" "fst i = snd i" "fst i < snd j" "any_sense f"
  shows "(\<exists>w. in_range f i w \<and> in_range g j w) \<longleftrightarrow> has g RPMSENSE_EQUAL \<or> range_overlap 0 f g"
proof
  obtain a b where ab: "a < fst j" "snd j < b" using lt_ex [of "fst j"] gt_ex [of "snd j"] by blast
  obtain c d where cd: "fst j < c" "c < fst i" "fst i < d" "d < snd j" using dense [OF assms(1)] dense [OF assms(3)] by blast
  have "in_range f i c \<or> in_range f i (fst i) \<or> in_range f i d" using assms cd by (auto simp: any_sense_def in_range_def)
  moreover have "in_range g j c \<and> in_range g j (fst i) \<and> in_range g j d" if "has g RPMSENSE_EQUAL"
    using assms cd that by (simp add: in_range_def)
  moreover have "in_range f i a" "in_range g j a" if "has f RPMSENSE_LESS" "has g RPMSENSE_LESS"
    using assms ab that by (simp_all add: in_range_def)
  moreover have "in_range f i b" "in_range g j b" if "has f RPMSENSE_GREATER" "has g RPMSENSE_GREATER"
    using assms ab that by (simp_all add: in_range_def)
  ultimately show "\<exists>w. in_range f i w \<and> in_range g j w" if "has g RPMSENSE_EQUAL \<or> range_overlap 0 f g"
    using that unfolding range_overlap_0 by blast
  show "has g RPMSENSE_EQUAL \<or> range_overlap 0 f g" if "\<exists>w. in_range f i w \<and> in_range g j w"
    using that assms(1-3) unfolding range_overlap_0 in_range_def by auto
qed

lemma range_overlap_sign: "sense < 0 \<Longrightarrow> range_overlap sense f g \<longleftrightarrow> has f RPMSENSE_GREATER \<or> has g RPMSENSE_LESS"
  "sense > 0 \<Longrightarrow> range_overlap sense f g \<longleftrightarrow> has g RPMSENSE_GREATER \<or> has f RPMSENSE_LESS"
  by (auto simp: range_overlap_def)

lemma range_overlap_flip: "range_overlap (- sense) g f = range_overlap sense f g"
  by (auto simp: range_overlap_def)

lemma epoch_cmp_flip: "epoch_cmp y x = - epoch_cmp x y"
  using rpmvercmp_flip [of "the (ver_e x)" "the (ver_e y)"] by (auto simp: epoch_cmp_def)

subsection \<open>Properties\<close>

text \<open>
  C22: printing a parsed version string gives it back, unless its epoch is written as a bare colon;
  and parsing what \<open>rpmverEVR\<close> prints of a handle gives the handle, when its epoch is a number and
  its parts are free of the separators that would split them elsewhere.
\<close>

theorem rpmver_roundtrip:
  "(evr \<noteq> [] \<longrightarrow> \<not> starts_with (CHR '':'') evr \<longrightarrow>
      rpmverEVR (rpmverParse (Some evr)) = Some evr) \<and>
   (wf_ver x \<longrightarrow> rpmverParse (rpmverEVR (Some x)) = Some x)"
proof -
  have "rpmverEVR (Some x) \<noteq> Some []" if "wf_ver x"
    using that by (auto simp: rpmverEVR_Some wf_ver_def)
  then show ?thesis
    using print_parseEVR [of evr] parseEVR_print [of x]
    by (auto simp: rpmverParse_def rpmverEVR_Some)
qed

theorem rpmver_roundtrip_witness:
  "rpmverEVR (rpmverParse (Some ''2:4.19.1-1.fc40'')) = Some ''2:4.19.1-1.fc40'' \<and>
   rpmverParse (rpmverEVR (Some \<lparr>ver_e = Some ''2'', ver_v = ''4.19.1'', ver_r = Some ''1.fc40''\<rparr>)) =
     Some \<lparr>ver_e = Some ''2'', ver_v = ''4.19.1'', ver_r = Some ''1.fc40''\<rparr>"
proof -
  let ?x = "\<lparr>ver_e = Some ''2'', ver_v = ''4.19.1'', ver_r = Some ''1.fc40''\<rparr>"
  have "wf_ver ?x" by (simp add: wf_ver_def risdigit_def char_code)
  with rpmver_roundtrip [of "''2:4.19.1-1.fc40''" ?x] show ?thesis by simp
qed

text \<open>
  comparing version handles is a total preorder in which a missing epoch counts as epoch 0 and
  a missing release sorts before any release.
\<close>

theorem rpmverCmp_total_preorder:
  "(rpmverCmp y x < 0 \<longleftrightarrow> 0 < rpmverCmp x y) \<and>
   (rpmverCmp x y \<le> 0 \<longrightarrow> rpmverCmp y z \<le> 0 \<longrightarrow> rpmverCmp x z \<le> 0) \<and>
   rpmverCmp (x\<lparr>ver_e := None\<rparr>) (x\<lparr>ver_e := Some ''0''\<rparr>) = 0 \<and>
   rpmverCmp (x\<lparr>ver_r := None\<rparr>) (x\<lparr>ver_r := Some s\<rparr>) = -1"
proof -
  have "compare_values (ver_r x) (ver_r x) = 0" by (rule c_order.cmp_refl [OF compare_values_order])
  then have "rpmverCmp (x\<lparr>ver_e := None\<rparr>) (x\<lparr>ver_e := Some ''0''\<rparr>) = 0"
    "rpmverCmp (x\<lparr>ver_r := None\<rparr>) (x\<lparr>ver_r := Some s\<rparr>) = -1"
    by (simp_all add: rpmverCmp_def compare_values_def vercmp.cmp_refl)
  then show ?thesis
    using vercmp3.cmp_flip [of y x] vercmp3.cmp_trans [of x y z] by blast
qed

theorem rpmverCmp_total_preorder_witness:
  "rpmverCmp (parseEVR ''1.0-1'') (parseEVR ''1.0-2'') \<le> 0 \<and>
   rpmverCmp (parseEVR ''1.0-2'') (parseEVR ''1:0.9'') \<le> 0 \<and>
   rpmverCmp (parseEVR ''1.0-1'') (parseEVR ''1:0.9'') \<le> 0"
proof -
  have "rpmverCmp (parseEVR ''1.0-1'') (parseEVR ''1.0-2'') \<le> 0"
    "rpmverCmp (parseEVR ''1.0-2'') (parseEVR ''1:0.9'') \<le> 0" by code_simp+
  with rpmverCmp_total_preorder
    [where x = "parseEVR ''1.0-1''" and y = "parseEVR ''1.0-2''" and z = "parseEVR ''1:0.9''"]
  show ?thesis by blast
qed

text \<open>
  C2: \<open>rpmverOverlap\<close> decides whether two version ranges share a version: for versions with numeric epochs and flags
  that compare at all, and any placement of the two versions in a dense order that agrees with \<open>rpmverCmp\<close>, the
  result is true exactly when some point lies in both ranges. A version with a release is a point, one without is the
  interval of all its releases, so that \<open>Requires: a = 1.0\<close> is satisfied by \<open>Provides: a = 1.0-1\<close>.
\<close>

theorem rpmverOverlap_ranges_intersect:
  assumes "digit_epoch x" "digit_epoch y" "any_sense f" "any_sense g" "placement x i y j"
  shows "rpmverOverlap x f y g \<longleftrightarrow> (\<exists>w. in_range f i w \<and> in_range g j w)"
proof -
  note ij = assms(5) [unfolded placement_def]
  have le: "fst i \<le> snd i" "fst j \<le> snd j" using ij placed_le by auto
  note apart = intersect_apart [OF _ le assms(3,4)] intersect_apart [OF _ le(2,1) assms(4,3)]
  note swap = conj_commute [of "in_range f i w" "in_range g j w" for w]
  note ev = rpmverOverlap_ev [OF assms(1,2)]
  consider (lt) "ev_cmp x y < 0" | (gt) "ev_cmp x y > 0" | (both) "ev_cmp x y = 0" "present (ver_r x)" "present (ver_r y)"
    | (left) "ev_cmp x y = 0" "present (ver_r x)" "\<not> present (ver_r y)" | (right) "ev_cmp x y = 0" "\<not> present (ver_r x)" "present (ver_r y)"
    | (none) "ev_cmp x y = 0" "\<not> present (ver_r x)" "\<not> present (ver_r y)" by fastforce
  then show ?thesis
  proof cases
    case lt
    then show ?thesis using ij apart(1) by (simp add: ev range_overlap_sign)
  next
    case gt
    then show ?thesis using ij apart(2) by (simp add: ev range_overlap_sign swap)
  next
    case both
    let ?c = "rpmvercmp (the (ver_r x)) (the (ver_r y))"
    have points: "fst i = snd i" "fst j = snd j" using ij both by (simp_all add: placed_def)
    consider "?c < 0" | "?c > 0" | "?c = 0" by linarith
    then show ?thesis using ij both points apart intersect_same [OF le(1), of f g]
      by cases (simp_all add: ev range_overlap_sign swap)
  next
    case left
    then show ?thesis using ij intersect_inside [of j i f g] assms(3) by (simp add: ev placed_def)
  next
    case right
    then have "(\<exists>w. in_range g j w \<and> in_range f i w) \<longleftrightarrow> has f RPMSENSE_EQUAL \<or> range_overlap 0 g f"
      using ij intersect_inside [of i j g f] assms(4) by (simp add: placed_def)
    then show ?thesis using right range_overlap_flip [of 0 g f] by (simp add: ev swap)
  next
    case none
    then show ?thesis using ij intersect_same [OF le(1), of f g] by (simp add: ev)
  qed
qed

theorem rpmverOverlap_ranges_intersect_witness:
  "rpmverOverlap (parseEVR ''1.0'') RPMSENSE_EQUAL (parseEVR ''1.0-1'') RPMSENSE_EQUAL \<longleftrightarrow>
     (\<exists>w. in_range RPMSENSE_EQUAL (1, 2) w \<and> in_range RPMSENSE_EQUAL (3 / 2, 3 / 2) w)"
proof (rule rpmverOverlap_ranges_intersect)
  show "digit_epoch (parseEVR ''1.0'')" "digit_epoch (parseEVR ''1.0-1'')" by code_simp+
  show "any_sense RPMSENSE_EQUAL" "any_sense RPMSENSE_EQUAL" by (simp_all add: any_sense_def has_def)
  have "ev_cmp (parseEVR ''1.0'') (parseEVR ''1.0-1'') = 0" "\<not> present (ver_r (parseEVR ''1.0''))" "present (ver_r (parseEVR ''1.0-1''))"
    by code_simp+
  then show "placement (parseEVR ''1.0'') (1, 2) (parseEVR ''1.0-1'') (3 / 2, 3 / 2)"
    by (simp add: placement_def placed_def)
qed

text \<open>The overlap test is symmetric.\<close>

lemma rpmverOverlap_flip: "rpmverOverlap x f y g = rpmverOverlap y g x f"
proof -
  note flip = epoch_cmp_flip [of y x] rpmvercmp_flip [of "ver_v y" "ver_v x"]
    rpmvercmp_flip [of "the (ver_r y)" "the (ver_r x)"]
  have zero: "range_overlap 0 g f = range_overlap 0 f g" using range_overlap_flip [of 0 g f] by simp
  show ?thesis
    unfolding rpmverOverlap_def Let_def flip
    by (simp add: range_overlap_flip zero conj_commute disj_commute)
qed

end
