(* ===== verification/Base64.thy ===== *)
theory Base64
  imports Rpmstring
begin

text \<open>
  The base64 encoder and decoder and the CRC-24 of rpmio/base64.cc.  Binary data are lists of
  bytes (\<open>8 word\<close>), text is a C string.  The decoder's four nested read loops are four mutually
  recursive functions, one per position in a quadruple, that carry the partly assembled byte
  \<open>*plainchar\<close>.  Allocation does not fail (the return value 4 of the decoder is not modelled).
\<close>

unbundle bit_operations_syntax

subsection \<open>Encoding\<close>

definition base64_encoding :: string where
  "base64_encoding = ''ABCDEFGHIJKLMNOPQRSTUVWXYZabcdefghijklmnopqrstuvwxyz0123456789+/''"

definition base64_encode_value :: "8 word \<Rightarrow> char" where
  "base64_encode_value value_in =
     (if sint value_in > 63 then CHR ''='' else base64_encoding ! nat (sint value_in))"

fun encode_groups :: "8 word list \<Rightarrow> cstr" where
  "encode_groups [] = []"
| "encode_groups [a] =
     [base64_encode_value (drop_bit 2 (a AND 0xfc)),
      base64_encode_value (push_bit 4 (a AND 0x03)), CHR ''='', CHR ''='']"
| "encode_groups [a, b] =
     [base64_encode_value (drop_bit 2 (a AND 0xfc)),
      base64_encode_value (push_bit 4 (a AND 0x03) OR drop_bit 4 (b AND 0xf0)),
      base64_encode_value (push_bit 2 (b AND 0x0f)), CHR ''='']"
| "encode_groups (a # b # c # rest) =
     base64_encode_value (drop_bit 2 (a AND 0xfc)) #
     base64_encode_value (push_bit 4 (a AND 0x03) OR drop_bit 4 (b AND 0xf0)) #
     base64_encode_value (push_bit 2 (b AND 0x0f) OR drop_bit 6 (c AND 0xc0)) #
     base64_encode_value (c AND 0x3f) # encode_groups rest"

text \<open>The parameter \<open>length_in\<close> is an \<open>int\<close>, and the loop ends where the pointer meets \<open>plaintext_in + length_in\<close>: with
  a length that is negative or larger than the data it runs out of them, which is None.\<close>

definition base64_encode_block :: "8 word list \<Rightarrow> int \<Rightarrow> cstr option" where
  "base64_encode_block plaintext_in length_in =
     (if 0 \<le> length_in \<and> length_in \<le> int (length plaintext_in) then Some (encode_groups (take (nat length_in) plaintext_in)) else None)"

text \<open>The output loop of \<open>rpmBase64Encode\<close>; \<open>linelen\<close> is already divided by four. The rest of the data is passed with its
  length converted from \<open>size_t\<close> to \<open>int\<close>.\<close>

function base64_encode_lines :: "nat \<Rightarrow> 8 word list \<Rightarrow> cstr option" where
  "base64_encode_lines linelen dat =
     (if dat = [] then Some []
      else if linelen > 0 \<and> length dat > linelen * 3
      then (case base64_encode_block dat (int (linelen * 3)) of None \<Rightarrow> None
        | Some line \<Rightarrow> map_option (\<lambda>rest. line @ [CHR 0x0A] @ rest) (base64_encode_lines linelen (drop (linelen * 3) dat)))
      else map_option (\<lambda>line. line @ (if linelen > 0 then [CHR 0x0A] else []))
        (base64_encode_block dat (sint (of_nat (length dat) :: u32))))"
  by pat_completeness auto
termination by (relation "measure (length \<circ> snd)") auto

declare base64_encode_lines.simps [simp del]

definition base64_linelen :: "int \<Rightarrow> nat" where
  "base64_linelen linelen = nat ((if linelen < 0 then 64 else linelen) div 4)"

definition base64_encodedlen :: "nat \<Rightarrow> nat \<Rightarrow> nat" where
  "base64_encodedlen len linelen =
     (let encodedlen = ((len + 2) div 3) * 4 in
      (if linelen > 0 then encodedlen + (encodedlen div (linelen * 4) + 1) else encodedlen) + 1)"

text \<open>The result may be NULL; the error is that memory outside of the data is read.\<close>

datatype base64_overrun = B64_Overrun

definition rpmBase64Encode :: "8 word list option \<Rightarrow> int \<Rightarrow> base64_overrun + cstr option" where
  "rpmBase64Encode dat linelen =
     (case dat of None \<Rightarrow> Inr None
      | Some d \<Rightarrow>
        (case base64_encode_lines (base64_linelen linelen) d of None \<Rightarrow> Inl B64_Overrun | Some text \<Rightarrow> Inr (Some text)))"

subsection \<open>Decoding\<close>

definition base64_decoding :: "int list" where
  "base64_decoding = [62,-1,-1,-1,63,52,53,54,55,56,57,58,59,60,61,-1,-1,-1,-2,-1,-1,-1,0,1,2,3,4,
     5,6,7,8,9,10,11,12,13,14,15,16,17,18,19,20,21,22,23,24,25,-1,-1,-1,-1,-1,-1,26,27,28,29,30,31,
     32,33,34,35,36,37,38,39,40,41,42,43,44,45,46,47,48,49,50,51]"

definition base64_decode_value :: "char \<Rightarrow> int" where
  "base64_decode_value c =
     (let value_in = ((of_char c :: nat) + 256 - 43) mod 256 in
      if value_in \<ge> length base64_decoding then -1 else base64_decoding ! value_in)"

fun base64_decode_block :: "cstr \<Rightarrow> 8 word list"
  and base64_decode_1 :: "8 word \<Rightarrow> cstr \<Rightarrow> 8 word list"
  and base64_decode_2 :: "8 word \<Rightarrow> cstr \<Rightarrow> 8 word list"
  and base64_decode_3 :: "8 word \<Rightarrow> cstr \<Rightarrow> 8 word list" where
  "base64_decode_block [] = []"
| "base64_decode_block (ch # cs) =
     (let fragment = base64_decode_value ch in
      if fragment < 0 then base64_decode_block cs
      else base64_decode_1 (push_bit 2 (word_of_int fragment AND 0x3f)) cs)"
| "base64_decode_1 plain [] = []"
| "base64_decode_1 plain (ch # cs) =
     (let fragment = base64_decode_value ch in
      if fragment < 0 then base64_decode_1 plain cs
      else (plain OR drop_bit 4 (word_of_int fragment AND 0x30)) #
           base64_decode_2 (push_bit 4 (word_of_int fragment AND 0x0f)) cs)"
| "base64_decode_2 plain [] = []"
| "base64_decode_2 plain (ch # cs) =
     (let fragment = base64_decode_value ch in
      if fragment < 0 then base64_decode_2 plain cs
      else (plain OR drop_bit 2 (word_of_int fragment AND 0x3c)) #
           base64_decode_3 (push_bit 6 (word_of_int fragment AND 0x03)) cs)"
| "base64_decode_3 plain [] = []"
| "base64_decode_3 plain (ch # cs) =
     (let fragment = base64_decode_value ch in
      if fragment < 0 then base64_decode_3 plain cs
      else (plain OR (word_of_int fragment AND 0x3f)) # base64_decode_block cs)"

text \<open>The counting pass: \<open>None\<close> is the early return 3.  Bytes from 128 on are negative as
  (signed) \<open>char\<close> and count as white space.\<close>

fun base64_count :: "cstr \<Rightarrow> nat \<Rightarrow> nat option" where
  "base64_count [] outcnt = Some outcnt"
| "base64_count (ch # cs) outcnt =
     (if schar ch > 32
      then if base64_decode_value ch \<noteq> -1 then base64_count cs (outcnt + 1) else None
      else base64_count cs outcnt)"

datatype base64_error = B64_NullInput | B64_InvalidLength | B64_InvalidChar

definition base64_rc :: "base64_error \<Rightarrow> int" where
  "base64_rc err = (case err of B64_NullInput \<Rightarrow> 1 | B64_InvalidLength \<Rightarrow> 2 | B64_InvalidChar \<Rightarrow> 3)"

definition rpmBase64Decode :: "cstr option \<Rightarrow> base64_error + 8 word list" where
  "rpmBase64Decode inp =
     (case inp of None \<Rightarrow> Inl B64_NullInput
      | Some s \<Rightarrow>
        (case base64_count s 0 of None \<Rightarrow> Inl B64_InvalidChar
         | Some outcnt \<Rightarrow>
             if outcnt mod 4 \<noteq> 0 then Inl B64_InvalidLength else Inr (base64_decode_block s)))"

definition base64_decode_alloc :: "cstr \<Rightarrow> nat" where
  "base64_decode_alloc s = (case base64_count s 0 of None \<Rightarrow> 0 | Some outcnt \<Rightarrow> (outcnt div 4) * 3 + 1)"

subsection \<open>CRC-24\<close>

definition crc24_shift :: "u32 \<Rightarrow> u32" where
  "crc24_shift crc =
     (let crc = push_bit 1 crc in if crc AND 0x1000000 \<noteq> 0 then crc XOR 0x1864cfb else crc)"

definition crc24_byte :: "u32 \<Rightarrow> 8 word \<Rightarrow> u32" where
  "crc24_byte crc d = (crc24_shift ^^ 8) (crc XOR push_bit 16 (ucast d))"

definition rpmCRC24 :: "8 word list \<Rightarrow> u32" where
  "rpmCRC24 dat = foldl crc24_byte 0xb704ce dat"

definition rpmBase64CRC :: "8 word list \<Rightarrow> base64_overrun + cstr option" where
  "rpmBase64CRC dat =
     (let crc = rpmCRC24 dat AND 0xffffff in
      rpmBase64Encode (Some [ucast (drop_bit 16 crc), ucast (drop_bit 8 crc), ucast crc]) 0)"

subsection \<open>Decoding inverts encoding\<close>

text \<open>The text for data of any length, which the encoder produces as long as the lengths fit an \<open>int\<close>.\<close>

function encode_text :: "nat \<Rightarrow> 8 word list \<Rightarrow> cstr" where
  "encode_text linelen dat =
     (if dat = [] then []
      else if linelen > 0 \<and> length dat > linelen * 3
      then encode_groups (take (linelen * 3) dat) @ [CHR 0x0A] @
           encode_text linelen (drop (linelen * 3) dat)
      else encode_groups dat @ (if linelen > 0 then [CHR 0x0A] else []))"
  by pat_completeness auto
termination by (relation "measure (length \<circ> snd)") auto

declare encode_text.simps [simp del]

lemma sint_length: "n < 2 ^ 31 \<Longrightarrow> sint (of_nat n :: u32) = int n"
proof -
  assume "n < 2 ^ 31"
  then have "int n < 2 ^ 31" by simp
  then show ?thesis using sint_sbintrunc' [of "int n", where ?'a = 32] by (simp add: signed_take_bit_int_eq_self)
qed

lemma encode_lines_text:
  assumes "if n > 0 then n * 3 < 2 ^ 31 else length d < 2 ^ 31"
  shows "base64_encode_lines n d = Some (encode_text n d)"
  using assms
proof (induction n d rule: encode_text.induct)
  case (1 n d)
  show ?case
  proof (cases "n > 0 \<and> length d > n * 3")
    case True
    then have "d \<noteq> []" "base64_encode_block d (int (n * 3)) = Some (encode_groups (take (n * 3) d))"
      by (auto simp: base64_encode_block_def nat_mult_distrib)
    with True 1 show ?thesis by (subst base64_encode_lines.simps, subst encode_text.simps) simp
  next
    case False
    then have "length d < 2 ^ 31" using 1(2) by (auto split: if_splits)
    then have "base64_encode_block d (sint (of_nat (length d) :: u32)) = Some (encode_groups d)"
      by (simp add: base64_encode_block_def sint_length)
    with False show ?thesis by (subst base64_encode_lines.simps, subst encode_text.simps) auto
  qed
qed

text \<open>The line length is an \<open>int\<close>; without lines the data has to be shorter than 2 GiB.\<close>

definition encodable :: "8 word list \<Rightarrow> int \<Rightarrow> bool" where
  "encodable d linelen \<longleftrightarrow> linelen < 2 ^ 31 \<and> (0 \<le> linelen \<and> linelen < 4 \<longrightarrow> length d < 2 ^ 31)"

lemma encode_encodable:
  assumes "encodable d linelen"
  shows "rpmBase64Encode (Some d) linelen = Inr (Some (encode_text (base64_linelen linelen) d))"
proof -
  have "if base64_linelen linelen > 0 then base64_linelen linelen * 3 < 2 ^ 31 else length d < 2 ^ 31"
    using assms by (auto simp: encodable_def base64_linelen_def)
  then show ?thesis by (simp add: rpmBase64Encode_def encode_lines_text)
qed

lemma byte_bits: "(\<And>n. n \<in> {0,1,2,3,4,5,6,7} \<Longrightarrow> bit a n = bit (b :: 8 word) n) \<Longrightarrow> a = b"
  by (rule bit_word_eqI) (simp add: less_Suc_eq numeral_eq_Suc)

lemma decode_encoding: "map base64_decode_value base64_encoding = map int [0..<64]"
  by code_simp

lemma encoding_graphic: "\<forall>c \<in> set base64_encoding. 32 < schar c"
  by code_simp

lemma length_encoding: "length base64_encoding = 64"
  by code_simp

lemma encode_value_small:
  assumes "(v :: 8 word) < 64"
  shows "base64_encode_value v = base64_encoding ! unat v"
proof -
  have "sint v = uint v"
    using assms by (simp add: sint_uint signed_take_bit_int_eq_self_iff word_less_def
      order_trans [OF _ unsigned_greater_eq])
  then show ?thesis using assms by (simp add: base64_encode_value_def word_less_def)
qed

lemma encode_value_graphic [simp]: "v < 64 \<Longrightarrow> schar (base64_encode_value v) > 32"
  using encoding_graphic by (simp add: encode_value_small length_encoding word_less_nat_alt)

lemma decode_encode_value [simp]:
  assumes "v < 64"
  shows "base64_decode_value (base64_encode_value v) = uint v"
proof -
  have "unat v < 64" using assms by (simp add: word_less_nat_alt)
  then have "base64_decode_value (base64_encoding ! unat v) = map int [0..<64] ! unat v"
    unfolding decode_encoding [symmetric] by (simp add: length_encoding)
  with \<open>unat v < 64\<close> show ?thesis using assms by (simp add: encode_value_small)
qed

lemma six_bits: "(w :: 8 word) AND 0x3f = w \<Longrightarrow> w < 64"
  using word_and_le1 [where y = w and a = "0x3f"] by (simp add: word_le_nat_alt word_less_nat_alt)

lemma fragments_small [simp]:
  "drop_bit 2 (a AND 0xfc) < (64 :: 8 word)"
  "push_bit 4 (a AND 0x03) < (64 :: 8 word)"
  "push_bit 4 (a AND 0x03) OR drop_bit 4 (b AND 0xf0) < (64 :: 8 word)"
  "push_bit 2 (b AND 0x0f) < (64 :: 8 word)"
  "push_bit 2 (b AND 0x0f) OR drop_bit 6 (c AND 0xc0) < (64 :: 8 word)"
  "c AND 0x3f < (64 :: 8 word)"
  by - (rule six_bits, rule byte_bits,
      (simp add: bit_simps; elim disjE; simp add: bit_simps numeral_eq_Suc))+

lemma fragments_merge:
  "push_bit 2 (drop_bit 2 (a AND 0xfc) AND 0x3f) OR
     drop_bit 4 (push_bit 4 (a AND 0x03) AND 0x30) = (a :: 8 word)"
  "push_bit 2 (drop_bit 2 (a AND 0xfc) AND 0x3f) OR
     drop_bit 4 ((push_bit 4 (a AND 0x03) OR drop_bit 4 (b AND 0xf0)) AND 0x30) = (a :: 8 word)"
  "push_bit 4 ((push_bit 4 (a AND 0x03) OR drop_bit 4 (b AND 0xf0)) AND 0x0f) OR
     drop_bit 2 (push_bit 2 (b AND 0x0f) AND 0x3c) = (b :: 8 word)"
  "push_bit 4 ((push_bit 4 (a AND 0x03) OR drop_bit 4 (b AND 0xf0)) AND 0x0f) OR
     drop_bit 2 ((push_bit 2 (b AND 0x0f) OR drop_bit 6 (c AND 0xc0)) AND 0x3c) = (b :: 8 word)"
  "push_bit 6 ((push_bit 2 (b AND 0x0f) OR drop_bit 6 (c AND 0xc0)) AND 0x03) OR
     ((c AND 0x3f) AND 0x3f) = (c :: 8 word)"
  by - (rule byte_bits, simp add: bit_simps, elim disjE;
      simp add: bit_simps numeral_eq_Suc)+


lemma decode_quads:
  assumes "u < 64" "v < 64" "w < 64" "x < 64"
  shows "base64_decode_block (base64_encode_value u # base64_encode_value v #
           base64_encode_value w # base64_encode_value x # cs) =
         (push_bit 2 (u AND 0x3f) OR drop_bit 4 (v AND 0x30)) #
         (push_bit 4 (v AND 0x0f) OR drop_bit 2 (w AND 0x3c)) #
         (push_bit 6 (w AND 0x03) OR (x AND 0x3f)) # base64_decode_block cs"
    "base64_decode_block (base64_encode_value u # base64_encode_value v # cs) =
         (push_bit 2 (u AND 0x3f) OR drop_bit 4 (v AND 0x30)) #
         base64_decode_2 (push_bit 4 (v AND 0x0f)) cs"
    "base64_decode_block (base64_encode_value u # base64_encode_value v # base64_encode_value w # cs) =
         (push_bit 2 (u AND 0x3f) OR drop_bit 4 (v AND 0x30)) #
         (push_bit 4 (v AND 0x0f) OR drop_bit 2 (w AND 0x3c)) #
         base64_decode_3 (push_bit 6 (w AND 0x03)) cs"
  using assms by (simp_all add: Let_def)

lemma decode_pad [simp]:
  "\<forall>c \<in> set pad. base64_decode_value c < 0 \<Longrightarrow> base64_decode_block pad = []"
  "\<forall>c \<in> set pad. base64_decode_value c < 0 \<Longrightarrow> base64_decode_2 p pad = []"
  "\<forall>c \<in> set pad. base64_decode_value c < 0 \<Longrightarrow> base64_decode_3 p pad = []"
  by (induction pad) (auto simp: Let_def)

lemma decode_value_padding [simp]:
  "base64_decode_value (CHR ''='') = -2" "base64_decode_value (CHR 0x0A) = -1"
  by code_simp+

lemma decode_encode_block_full:
  "length d mod 3 = 0 \<Longrightarrow>
   base64_decode_block (encode_groups d @ rest) = d @ base64_decode_block rest"
proof (induction d rule: encode_groups.induct)
  case (4 a b c d)
  then show ?case
    unfolding encode_groups.simps append_Cons decode_quads(1) [OF fragments_small(1,3,5,6)]
      fragments_merge by simp
qed simp_all

lemma decode_encode_block_last:
  assumes "\<forall>c \<in> set pad. base64_decode_value c < 0"
  shows "base64_decode_block (encode_groups d @ pad) = d"
proof (induction d rule: encode_groups.induct)
  case (2 a)
  show ?case unfolding encode_groups.simps append_Cons
      decode_quads(2) [OF fragments_small(1,2,2,2)] fragments_merge
    using assms by simp
next
  case (3 a b)
  show ?case unfolding encode_groups.simps append_Cons
      decode_quads(3) [OF fragments_small(1,3,4,4)] fragments_merge
    using assms by simp
next
  case (4 a b c d)
  then show ?case
    unfolding encode_groups.simps append_Cons decode_quads(1) [OF fragments_small(1,3,5,6)]
      fragments_merge by simp
qed (use assms in simp)

lemma decode_encode_lines: "base64_decode_block (encode_text n d) = d"
proof (induction n d rule: encode_text.induct)
  case (1 n d)
  show ?case
  proof (cases "n > 0 \<and> length d > n * 3")
    case True
    then have "d \<noteq> []" by auto
    with True 1 show ?thesis
      by (simp add: encode_text.simps [of n d] decode_encode_block_full)
  next
    case False
    then show ?thesis
      using decode_encode_block_last [of "[CHR 0x0A]" d] decode_encode_block_last [of "[]" d]
      by (auto simp: encode_text.simps [of n d])
  qed
qed

text \<open>The counting pass accepts the encoder's output and counts four characters per group.\<close>

lemma count_value [simp]:
  "v < 64 \<Longrightarrow> base64_count (base64_encode_value v # cs) n = base64_count cs (n + 1)"
proof -
  assume "v < 64"
  moreover have "uint v \<noteq> -1" using unsigned_greater_eq [of v, where ?'a = int] by linarith
  ultimately show ?thesis by simp
qed

lemma count_pad [simp]:
  "base64_count (CHR ''='' # cs) n = base64_count cs (n + 1)"
  "base64_count (CHR 0x0A # cs) n = base64_count cs n"
  by (simp_all add: schar_def)

lemma schar_newline [simp]: "schar (CHR 0x0A) = 10"
  by (simp add: schar_def)

lemma count_encode_block:
  "base64_count (encode_groups d @ rest) n = base64_count rest (n + (length d + 2) div 3 * 4)"
proof (induction d arbitrary: n rule: encode_groups.induct)
  case (2 a)
  have "n + (length [a] + 2) div 3 * 4 = n + 1 + 1 + 1 + 1" by simp
  then show ?case unfolding encode_groups.simps append_Cons append_Nil
      count_value [OF fragments_small(1)] count_value [OF fragments_small(2)] count_pad
    by (rule arg_cong [OF sym])
next
  case (3 a b)
  have "n + (length [a, b] + 2) div 3 * 4 = n + 1 + 1 + 1 + 1" by simp
  then show ?case unfolding encode_groups.simps append_Cons append_Nil
      count_value [OF fragments_small(1)] count_value [OF fragments_small(3)]
      count_value [OF fragments_small(4)] count_pad
    by (rule arg_cong [OF sym])
next
  case (4 a b c d)
  have "(length (a # b # c # d) + 2) div 3 = (length d + 2) div 3 + 1" by simp
  then have "n + (length (a # b # c # d) + 2) div 3 * 4
      = n + 1 + 1 + 1 + 1 + (length d + 2) div 3 * 4" by simp
  with 4 show ?case unfolding encode_groups.simps append_Cons
      count_value [OF fragments_small(1)] count_value [OF fragments_small(3)]
      count_value [OF fragments_small(5)] count_value [OF fragments_small(6)]
    by (simp only:)
qed simp

lemma groups_split: "m mod 3 = 0 \<Longrightarrow> m \<le> k \<Longrightarrow> (m + 2) div 3 + (k - m + 2) div 3 = (k + 2) div (3::nat)"
proof -
  assume "m mod 3 = 0" "m \<le> k"
  then obtain q where m: "m = 3 * q" by (auto simp: mod_eq_0_iff_dvd dvd_def)
  obtain j where k: "k = m + j" using \<open>m \<le> k\<close> by (auto simp: le_iff_add)
  have "3 * q + j + 2 = (j + 2) + q * 3" by simp
  then have "(3 * q + j + 2) div 3 = (j + 2) div 3 + q" by (simp only: div_mult_self1)
  then show ?thesis by (simp add: m k)
qed

lemma count_encode_lines:
  "base64_count (encode_text n d) k = Some (k + (length d + 2) div 3 * 4)"
proof (induction n d arbitrary: k rule: encode_text.induct)
  case (1 n d)
  show ?case
  proof (cases "n > 0 \<and> length d > n * 3")
    case True
    then have "d \<noteq> []" by auto
    moreover have "(n * 3 + 2) div 3 + (length d - n * 3 + 2) div 3 = (length d + 2) div 3"
      using True by (intro groups_split) auto
    ultimately show ?thesis using True 1
      by (simp add: encode_text.simps [of n d] count_encode_block min_def
          add_mult_distrib [symmetric] flip: add.assoc)
  qed (use count_encode_block [of d "[]"] in
       \<open>auto simp: encode_text.simps [of n d] count_encode_block\<close>)
qed

text \<open> C21: Whatever line length is asked for (negative ones select the default, values below 4 turn
  line splitting off), \<open>rpmBase64Decode\<close> accepts the output of \<open>rpmBase64Encode\<close> and returns the
  original bytes. Without line splitting the data is shorter than 2 GiB, because its length is passed on as an \<open>int\<close>;
  beyond that the encoder runs out of the data.\<close>

theorem base64_roundtrip:
  assumes "linelen < 2 ^ 31" "0 \<le> linelen \<and> linelen < 4 \<longrightarrow> length d < 2 ^ 31"
  shows "\<exists>text. rpmBase64Encode (Some d) linelen = Inr (Some text) \<and> rpmBase64Decode (Some text) = Inr d"
  using assms encode_encodable [of d linelen]
  by (simp add: encodable_def rpmBase64Decode_def count_encode_lines decode_encode_lines)

theorem base64_roundtrip_witness:
  "\<exists>text. rpmBase64Encode (Some [1, 2, 3, 4]) 0 = Inr (Some text) \<and> rpmBase64Decode (Some text) = Inr [1, 2, 3, 4]"
  by (rule base64_roundtrip) simp_all

lemma base64_encode_overrun:
  assumes "2 ^ 31 \<le> length d" "length d < 2 ^ 32" "0 \<le> linelen" "linelen < 4"
  shows "rpmBase64Encode (Some d) linelen = Inl B64_Overrun"
proof -
  have "int (length d) div 2 ^ 31 = 1" using assms(1,2) by (intro div_pos_geq [THEN trans]) (simp_all add: div_pos_pos_trivial)
  then have "bit (int (length d)) 31" by (simp add: bit_iff_odd)
  then have "sint (of_nat (length d) :: u32) < 0"
    using sint_sbintrunc' [of "int (length d)", where ?'a = 32] by (simp add: signed_take_bit_negative_iff)
  then have "base64_encode_block d (sint (of_nat (length d) :: u32)) = None" by (simp add: base64_encode_block_def)
  moreover have "base64_linelen linelen = 0" using assms(3,4) by (simp add: base64_linelen_def)
  moreover have "d \<noteq> []" using assms(1) by auto
  ultimately show ?thesis by (simp add: rpmBase64Encode_def base64_encode_lines.simps [of 0 d])
qed

subsection \<open>Buffer sizes\<close>

lemma length_encode_block: "length (encode_groups d) = (length d + 2) div 3 * 4"
proof (induction d rule: encode_groups.induct)
  case (4 a b c d)
  have "(length (a # b # c # d) + 2) div 3 = (length d + 2) div 3 + 1" by simp
  with 4 show ?case by simp
qed simp_all

lemma length_encode_lines:
  "length (encode_text n d) =
     (length d + 2) div 3 * 4 + (if n > 0 then (length d + (n * 3 - 1)) div (n * 3) else 0)"
proof (induction n d rule: encode_text.induct)
  case (1 n d)
  show ?case
  proof (cases "n > 0 \<and> length d > n * 3")
    case True
    then have "d \<noteq> []" by auto
    moreover have "(n * 3 + 2) div 3 + (length d - n * 3 + 2) div 3 = (length d + 2) div 3"
      using True by (intro groups_split) auto
    moreover have "(length d + (n * 3 - 1)) div (n * 3) = (length d - n * 3 + (n * 3 - 1)) div (n * 3) + 1"
    proof -
      have "length d + (n * 3 - 1) = (length d - n * 3 + (n * 3 - 1)) + n * 3" using True by simp
      moreover have "n * 3 \<noteq> 0" using True by simp
      ultimately show ?thesis by (metis div_add_self2)
    qed
    ultimately show ?thesis using True 1
      by (simp add: encode_text.simps [of n d] length_encode_block min_def
          add_mult_distrib [symmetric] flip: add.assoc)
  next
    case False
    then have "n > 0 \<Longrightarrow> d \<noteq> [] \<Longrightarrow> (length d + (n * 3 - 1)) div (n * 3) = 1"
      by (intro div_nat_eqI) (cases d; auto)+
    with False show ?thesis
      by (auto simp: encode_text.simps [of n d] length_encode_block)
  qed
qed

text \<open> The buffer \<open>rpmBase64Encode\<close> allocates is large enough: the text and its terminating
  NUL fit into the computed \<open>encodedlen\<close>.\<close>

theorem base64_encode_fits:
  assumes "encodable d linelen"
  shows "length (the (projr (rpmBase64Encode (Some d) linelen))) + 1
     \<le> base64_encodedlen (length d) (base64_linelen linelen)"
proof -
  let ?n = "base64_linelen linelen" and ?g = "(length d + 2) div 3"
  have "(length d + (?n * 3 - 1)) div (?n * 3) \<le> ?g div ?n + 1" if "?n > 0"
  proof -
    have "(length d + (?n * 3 - 1)) div (?n * 3) \<le> (length d + 2 + ?n * 3) div (3 * ?n)"
      using div_le_mono [of "length d + (?n * 3 - 1)" "length d + 2 + ?n * 3" "?n * 3"]
      by (simp add: mult.commute)
    also have "\<dots> = (length d + 2) div (3 * ?n) + 1"
      using that div_add_self2 [of "?n * 3" "length d + 2"] by (simp only: mult.commute)
    also have "\<dots> = ?g div ?n + 1" by (simp only: div_mult2_eq)
    finally show ?thesis .
  qed
  then show ?thesis
    by (auto simp: encode_encodable [OF assms] length_encode_lines base64_encodedlen_def Let_def)
qed

text \<open>The number of bytes each decoder position produces from \<open>k\<close> significant characters.\<close>

abbreviation significant :: "cstr \<Rightarrow> nat" where
  "significant s \<equiv> length (filter (\<lambda>c. base64_decode_value c \<ge> 0) s)"

lemma length_decode:
  "length (base64_decode_block s) = significant s * 3 div 4"
  "length (base64_decode_1 p s) = (significant s + 1) * 3 div 4"
  "length (base64_decode_2 p s) + 1 = (significant s + 2) * 3 div 4"
  "length (base64_decode_3 p s) + 2 = (significant s + 3) * 3 div 4"
proof (induction s arbitrary: p)
  case (Cons c s)
  { case 1 show ?case using Cons by (simp add: Let_def) }
  { case 2 show ?case using Cons by (simp add: Let_def) }
  { case 3 show ?case using Cons by (simp add: Let_def add.commute) }
  { case 4
    have "(12 + significant s * 3) div 4 = significant s * 3 div 4 + 3" by presburger
    then show ?case using Cons by (simp add: Let_def) }
qed simp_all

lemma decode_value_space:
  assumes "schar c \<le> 32"
  shows "base64_decode_value c = -1"
proof -
  let ?n = "of_char c :: nat"
  have n: "?n < 256" "(of_char c :: int) = int ?n" by (simp_all add: of_nat_of_char)
  then have "?n \<le> 32 \<or> 128 \<le> ?n" using assms by (auto simp: schar_def Let_def split: if_splits)
  then have "80 \<le> (?n + 256 - 43) mod 256"
  proof
    assume "128 \<le> ?n"
    then have "(?n + 256 - 43) = (?n - 43) + 256" by simp
    then have "(?n + 256 - 43) mod 256 = ?n - 43" using n by (metis less_imp_diff_less mod_add_self2 mod_less)
    with \<open>128 \<le> ?n\<close> show ?thesis by simp
  qed simp
  moreover have "length base64_decoding = 80" by code_simp
  ultimately show ?thesis by (simp add: base64_decode_value_def Let_def)
qed

lemma count_significant: "base64_count s n = Some k \<Longrightarrow> significant s + n \<le> k"
proof (induction s arbitrary: n)
  case (Cons c s)
  then show ?case using decode_value_space [of c]
    by (cases "schar c \<le> 32") (fastforce split: if_splits)+
qed simp

text \<open> The decoder stays within its buffer: for every accepted text the decoded bytes, plus the
  one byte the decoder may write past them, fit into the allocation of \<open>outcnt / 4 * 3 + 1\<close>.\<close>

theorem base64_decode_fits:
  assumes "rpmBase64Decode (Some s) = Inr out"
  shows "length out + 1 \<le> base64_decode_alloc s"
proof -
  obtain k where k: "base64_count s 0 = Some k" "k mod 4 = 0" and out: "out = base64_decode_block s"
    using assms by (auto simp: rpmBase64Decode_def split: option.splits if_splits)
  have "length out \<le> k * 3 div 4"
    using count_significant [OF k(1)] by (simp add: out length_decode div_le_mono)
  also have "\<dots> = k div 4 * 3" using k(2) by (auto simp: mod_eq_0_iff_dvd dvd_def)
  finally show ?thesis by (simp add: base64_decode_alloc_def k)
qed

theorem base64_decode_fits_witness:
  "length [0x4d, 0x61 :: 8 word] + 1 \<le> base64_decode_alloc ''TW E=''"
  by (rule base64_decode_fits) code_simp

subsection \<open>CRC-24 register\<close>

definition crc24_fits :: "u32 \<Rightarrow> bool" where
  "crc24_fits crc \<longleftrightarrow> (\<forall>n \<ge> 24. \<not> bit crc n)"

lemma high_bits_clear:
  assumes "unat (w :: u32) < 2 ^ k" "k \<le> n"
  shows "\<not> bit w n"
proof -
  have "unat w < 2 ^ n" using assms by (meson order_less_le_trans one_le_numeral power_increasing)
  then have "unat (drop_bit n w) = 0" unfolding unat_drop_bit_eq by (simp only: drop_bit_eq_div div_less)
  then have "drop_bit n w = 0" by (simp only: unat_eq_zero)
  then show ?thesis by (simp add: bit_iff_odd_drop_bit)
qed

lemma crc24_shift_fits: "crc24_fits crc \<Longrightarrow> crc24_fits (crc24_shift crc)"
proof -
  assume fits: "crc24_fits crc"
  have top: "push_bit 1 crc AND 0x1000000 = 0 \<longleftrightarrow> \<not> bit (push_bit 1 crc) 24"
    using and_exp_eq_0_iff_not_bit [of "push_bit 1 crc" 24] by simp
  have poly: "\<not> bit (0x1864cfb :: u32) n" if "n > 24" for n
    using high_bits_clear [of "0x1864cfb" 25 n] that by simp
  have high: "\<not> bit (push_bit 1 crc) n" if "n > 24" for n
    using fits that unfolding crc24_fits_def bit_push_bit_iff by auto
  have "\<not> bit (crc24_shift crc) n" if "n \<ge> 24" for n
  proof (cases "n = 24")
    case True
    have "bit (0x1864cfb :: u32) 24" by code_simp
    then show ?thesis using top True by (auto simp: crc24_shift_def Let_def bit_xor_iff)
  next
    case False
    then show ?thesis using that poly [of n] high [of n]
      by (auto simp: crc24_shift_def Let_def bit_xor_iff)
  qed
  then show ?thesis by (simp add: crc24_fits_def)
qed

lemma crc24_byte_fits: "crc24_fits crc \<Longrightarrow> crc24_fits (crc24_byte crc d)"
proof -
  assume "crc24_fits crc"
  moreover have "\<not> bit d (n - 16)" if "n \<ge> 24" for n
    using bit_imp_le_length [of d "n - 16"] that by auto
  ultimately have "crc24_fits (crc XOR push_bit 16 (ucast d))"
    by (auto simp: crc24_fits_def bit_simps)
  moreover have "crc24_fits c \<Longrightarrow> crc24_fits ((crc24_shift ^^ k) c)" for k c
    by (induction k) (auto intro: crc24_shift_fits)
  ultimately show ?thesis by (simp add: crc24_byte_def)
qed

lemma rpmCRC24_fits: "crc24_fits (rpmCRC24 dat)"
proof -
  have "crc24_fits 0xb704ce"
    using high_bits_clear [of "0xb704ce" 24] by (simp add: crc24_fits_def)
  moreover have "crc24_fits c \<Longrightarrow> crc24_fits (foldl crc24_byte c dat)" for c
    by (induction dat arbitrary: c) (auto intro: crc24_byte_fits)
  ultimately show ?thesis by (simp add: rpmCRC24_def)
qed

text \<open> \<open>rpmBase64CRC\<close> always yields one quadruple of base64 characters without padding or line
  break; decoding it gives the CRC-24 register in big-endian order, and the register never has a
  bit above the 24th, so the final mask and the three bytes lose nothing.\<close>

theorem rpmBase64CRC_value:
  "\<exists>text a b c. rpmBase64CRC dat = Inr (Some text) \<and> length text = 4 \<and>
     rpmBase64Decode (Some text) = Inr [a, b, c] \<and>
     rpmCRC24 dat = push_bit 16 (ucast a) OR push_bit 8 (ucast b) OR ucast c"
proof -
  define crc where "crc = rpmCRC24 dat AND 0xffffff"
  define a b c :: "8 word" where abc: "a = ucast (drop_bit 16 crc)" "b = ucast (drop_bit 8 crc)" "c = ucast crc"
  have "encodable [a, b, c] 0" by (simp add: encodable_def)
  then have "rpmBase64CRC dat = Inr (Some (encode_text 0 [a, b, c]))"
    by (simp add: rpmBase64CRC_def encode_encodable crc_def base64_linelen_def abc Let_def)
  moreover have "length (encode_text 0 [a, b, c]) = 4" by (simp add: length_encode_lines)
  moreover have "rpmBase64Decode (Some (encode_text 0 [a, b, c])) = Inr [a, b, c]"
    by (simp add: rpmBase64Decode_def count_encode_lines decode_encode_lines)
  moreover have "crc = take_bit 24 (rpmCRC24 dat)"
    by (simp add: crc_def take_bit_eq_mask mask_eq_exp_minus_1 and.commute)
  then have crc: "crc = rpmCRC24 dat"
    using rpmCRC24_fits [of dat] unfolding crc24_fits_def
    by (intro bit_word_eqI) (metis bit_take_bit_iff leI)
  have "rpmCRC24 dat = push_bit 16 (ucast a) OR push_bit 8 (ucast b) OR ucast c" (is "_ = ?r")
  proof (rule bit_word_eqI)
    fix n assume n: "n < LENGTH(32)"
    then have "bit ?r n \<longleftrightarrow> 16 \<le> n \<and> n - 16 < 8 \<and> bit crc n \<or> 8 \<le> n \<and> n - 8 < 8 \<and> bit crc n
        \<or> n < 8 \<and> bit crc n"
      by (auto simp: abc bit_or_iff bit_push_bit_iff bit_ucast_iff bit_drop_bit_eq)
    moreover have "n < 24" if "bit crc n"
      using rpmCRC24_fits [of dat] that leI by (auto simp: crc24_fits_def crc)
    ultimately show "bit (rpmCRC24 dat) n = bit ?r n" unfolding crc [symmetric] by auto
  qed
  ultimately show ?thesis by blast
qed

end
