(* ===== verification/Dbiset.thy ===== *)
theory Dbiset
  imports Prelude
begin

text \<open>
  Index sets of the package database, lib/backend/dbiset.cc.  An index set is the vector of its
  records; a set that may be NULL is an option.  Operations that sort both operands return both.
  \<open>std::sort\<close> is the library's \<open>sort\<close>: the order on items is linear, so the sorted vector is unique.
\<close>

subsection \<open>Items and their order\<close>

datatype dbiIndexItem = DbiIndexItem (hdrNum: u32) (tagNum: u32)

definition dbiIndexItem_less :: "dbiIndexItem \<Rightarrow> dbiIndexItem \<Rightarrow> bool" where
  "dbiIndexItem_less a other =
     (if hdrNum a = hdrNum other then tagNum a < tagNum other else hdrNum a < hdrNum other)"

instantiation dbiIndexItem :: linorder
begin

definition less_dbiIndexItem :: "dbiIndexItem \<Rightarrow> dbiIndexItem \<Rightarrow> bool" where
  "less_dbiIndexItem = dbiIndexItem_less"

definition less_eq_dbiIndexItem :: "dbiIndexItem \<Rightarrow> dbiIndexItem \<Rightarrow> bool" where
  "less_eq_dbiIndexItem a b \<longleftrightarrow> dbiIndexItem_less a b \<or> a = b"

instance
proof
  fix x y :: dbiIndexItem
  show "x \<le> y \<or> y \<le> x"
    using dbiIndexItem.expand [of x y]
    by (auto simp: less_eq_dbiIndexItem_def dbiIndexItem_less_def not_less order_le_less)
qed (auto simp: less_dbiIndexItem_def less_eq_dbiIndexItem_def dbiIndexItem_less_def split: if_splits)

end

lemma dbiIndexItem_less_eq_iff:
  "a \<le> b \<longleftrightarrow> hdrNum a < hdrNum b \<or> hdrNum a = hdrNum b \<and> tagNum a \<le> tagNum b"
  using dbiIndexItem.expand [of a b] by (auto simp: less_eq_dbiIndexItem_def dbiIndexItem_less_def order_le_less)

type_synonym dbiIndexSet = "dbiIndexItem list"

subsection \<open>The standard library's algorithms on ranges\<close>

text \<open>\<open>std::unique\<close> keeps the first of every run of equal items.\<close>

fun std_unique :: "('a \<Rightarrow> 'a \<Rightarrow> bool) \<Rightarrow> 'a list \<Rightarrow> 'a list" where
  "std_unique eq [] = []"
| "std_unique eq [x] = [x]"
| "std_unique eq (x # y # zs) =
     (if eq x y then std_unique eq (x # zs) else x # std_unique eq (y # zs))"

fun std_set_difference :: "'a :: linorder list \<Rightarrow> 'a list \<Rightarrow> 'a list" where
  "std_set_difference [] ys = []"
| "std_set_difference xs [] = xs"
| "std_set_difference (x # xs) (y # ys) =
     (if x < y then x # std_set_difference xs (y # ys)
      else if y < x then std_set_difference (x # xs) ys
      else std_set_difference xs ys)"

fun std_set_intersection :: "'a :: linorder list \<Rightarrow> 'a list \<Rightarrow> 'a list" where
  "std_set_intersection [] ys = []"
| "std_set_intersection xs [] = []"
| "std_set_intersection (x # xs) (y # ys) =
     (if x < y then std_set_intersection xs (y # ys)
      else if y < x then std_set_intersection (x # xs) ys
      else x # std_set_intersection xs ys)"

subsection \<open>The operations\<close>

definition dbiIndexSetNew :: "u32 \<Rightarrow> dbiIndexSet" where
  "dbiIndexSetNew sizehint = []"

definition dbiIndexSetClear :: "dbiIndexSet option \<Rightarrow> dbiIndexSet option" where
  "dbiIndexSetClear recs = map_option (\<lambda>_. []) recs"

definition dbiIndexSetSort :: "dbiIndexSet \<Rightarrow> dbiIndexSet" where
  "dbiIndexSetSort recs = sort recs"

definition hdrNumCmp :: "dbiIndexItem \<Rightarrow> dbiIndexItem \<Rightarrow> bool" where
  "hdrNumCmp a b \<longleftrightarrow> hdrNum a = hdrNum b"

definition dbiIndexSetUniq :: "dbiIndexSet \<Rightarrow> bool \<Rightarrow> dbiIndexSet" where
  "dbiIndexSetUniq recs is_sorted =
     (if length recs < 2 then recs
      else std_unique hdrNumCmp (if \<not> is_sorted then dbiIndexSetSort recs else recs))"

definition sort_appended :: "bool \<Rightarrow> dbiIndexSet \<Rightarrow> dbiIndexSet" where
  "sort_appended sortset recs = (if sortset \<and> length recs > 1 then dbiIndexSetSort recs else recs)"

definition dbiIndexSetAppendSet ::
    "dbiIndexSet option \<Rightarrow> dbiIndexSet option \<Rightarrow> bool \<Rightarrow> int \<times> dbiIndexSet option" where
  "dbiIndexSetAppendSet st oset sortset =
     (case (st, oset) of
        (Some recs, Some orecs) \<Rightarrow> (0, Some (sort_appended sortset (recs @ orecs)))
      | _ \<Rightarrow> (1, st))"

definition dbiIndexSetAppendOne ::
    "dbiIndexSet option \<Rightarrow> u32 \<Rightarrow> u32 \<Rightarrow> bool \<Rightarrow> int \<times> dbiIndexSet option" where
  "dbiIndexSetAppendOne st hdr tag sortset =
     (case st of
        None \<Rightarrow> (1, None)
      | Some recs \<Rightarrow> (0, Some (sort_appended sortset (recs @ [DbiIndexItem hdr tag]))))"

definition sort_operand :: "bool \<Rightarrow> dbiIndexSet \<Rightarrow> dbiIndexSet" where
  "sort_operand is_sorted recs =
     (if length recs > 1 \<and> \<not> is_sorted then dbiIndexSetSort recs else recs)"

definition dbiIndexSetPruneSet ::
    "dbiIndexSet \<Rightarrow> dbiIndexSet option \<Rightarrow> bool \<Rightarrow> int \<times> dbiIndexSet \<times> dbiIndexSet option" where
  "dbiIndexSetPruneSet recs oset is_sorted =
     (case oset of
        None \<Rightarrow> (1, recs, None)
      | Some orecs \<Rightarrow>
          if recs = [] \<or> orecs = [] then (1, recs, oset)
          else
            let recs' = sort_operand is_sorted recs; orecs' = sort_operand is_sorted orecs
            in (0, std_set_difference recs' orecs', Some orecs'))"

definition dbiIndexSetFilterSet ::
    "dbiIndexSet \<Rightarrow> dbiIndexSet option \<Rightarrow> bool \<Rightarrow> int \<times> dbiIndexSet \<times> dbiIndexSet option" where
  "dbiIndexSetFilterSet recs oset is_sorted =
     (let num = length recs in
      case oset of
        None \<Rightarrow> (if num \<noteq> 0 then 0 else 1, [], None)
      | Some orecs \<Rightarrow>
          if recs = [] \<or> orecs = [] then (if num \<noteq> 0 then 0 else 1, [], oset)
          else
            let recs' = sort_operand is_sorted recs; orecs' = sort_operand is_sorted orecs
            in (0, std_set_intersection recs' orecs', Some orecs'))"

definition dbiIndexSetCount :: "dbiIndexSet option \<Rightarrow> u32" where
  "dbiIndexSetCount st = (case st of None \<Rightarrow> 0 | Some recs \<Rightarrow> of_nat (length recs))"

text \<open>An index past the end is undefined behaviour in the code: \<open>None\<close>.\<close>

definition dbiIndexRecordOffset :: "dbiIndexSet \<Rightarrow> u32 \<Rightarrow> u32 option" where
  "dbiIndexRecordOffset recs recno =
     (if unat recno < length recs then Some (hdrNum (recs ! unat recno)) else None)"

definition dbiIndexRecordFileNumber :: "dbiIndexSet \<Rightarrow> u32 \<Rightarrow> u32 option" where
  "dbiIndexRecordFileNumber recs recno =
     (if unat recno < length recs then Some (tagNum (recs ! unat recno)) else None)"

subsection \<open>The range algorithms on sorted ranges\<close>

lemma set_difference_subset: "set (std_set_difference xs ys) \<subseteq> set xs"
  by (induction xs ys rule: std_set_difference.induct) auto

lemma set_intersection_subset: "set (std_set_intersection xs ys) \<subseteq> set xs"
  by (induction xs ys rule: std_set_intersection.induct) auto

lemma set_difference_sorted: "sorted xs \<Longrightarrow> sorted (std_set_difference xs ys)"
proof (induction xs ys rule: std_set_difference.induct)
  case (3 x xs y ys)
  then show ?case using set_difference_subset [of xs "y # ys"] by auto
qed simp_all

lemma set_intersection_sorted: "sorted xs \<Longrightarrow> sorted (std_set_intersection xs ys)"
proof (induction xs ys rule: std_set_intersection.induct)
  case (3 x xs y ys)
  then show ?case using set_intersection_subset [of xs ys] by auto
qed simp_all

lemma mset_set_difference:
  "sorted xs \<Longrightarrow> sorted ys \<Longrightarrow> mset (std_set_difference xs ys) = mset xs - mset ys"
proof (induction xs ys rule: std_set_difference.induct)
  case (3 x xs y ys)
  consider "x < y" | "y < x" | "x = y" by fastforce
  then show ?case
  proof cases
    case 1
    then have "x \<notin># mset (y # ys)" using "3.prems" by auto
    with 1 3 show ?thesis by (simp add: multiset_eq_iff not_in_iff)
  next
    case 2
    then have "y \<notin># mset (x # xs)" using "3.prems" by auto
    with 2 3 show ?thesis by (simp add: multiset_eq_iff not_in_iff)
  qed (use 3 in simp)
qed simp_all

lemma mset_set_intersection:
  "sorted xs \<Longrightarrow> sorted ys \<Longrightarrow> mset (std_set_intersection xs ys) = mset xs \<inter># mset ys"
proof (induction xs ys rule: std_set_intersection.induct)
  case (3 x xs y ys)
  consider "x < y" | "y < x" | "x = y" by fastforce
  then show ?case
  proof cases
    case 1
    then have "x \<notin># mset (y # ys)" using "3.prems" by auto
    with 1 3 show ?thesis by (simp add: inter_add_left1)
  next
    case 2
    then have "y \<notin># mset (x # xs)" using "3.prems" by auto
    with 2 3 show ?thesis by (auto simp: inter_add_right1)
  qed (use 3 in simp)
qed simp_all

lemma set_std_unique: "set (std_unique eq xs) \<subseteq> set xs"
  by (induction eq xs rule: std_unique.induct) auto

lemma std_unique_hdrNums:
  "sorted recs \<Longrightarrow> hdrNum ` set (std_unique hdrNumCmp recs) = hdrNum ` set recs"
  by (induction hdrNumCmp recs rule: std_unique.induct) (auto simp: hdrNumCmp_def)

lemma std_unique_ascending:
  "sorted recs \<Longrightarrow> sorted_wrt (\<lambda>a b. hdrNum a < hdrNum b) (std_unique hdrNumCmp recs)"
proof (induction hdrNumCmp recs rule: std_unique.induct)
  case (3 x y zs)
  show ?case
  proof (cases "hdrNumCmp x y")
    case False
    then have "hdrNum x < hdrNum z" if "z \<in> set (y # zs)" for z
      using "3.prems" that by (fastforce simp: dbiIndexItem_less_eq_iff hdrNumCmp_def)
    then show ?thesis using 3 False set_std_unique [of hdrNumCmp "y # zs"] by auto
  qed (use 3 in simp)
qed simp_all

lemma std_unique_least:
  assumes "sorted recs" "x \<in> set (std_unique hdrNumCmp recs)" "y \<in> set recs" "hdrNum x = hdrNum y"
  shows "x \<le> y"
  using assms
proof (induction hdrNumCmp recs arbitrary: y rule: std_unique.induct)
  case (3 u v ws)
  show ?case
  proof (cases "hdrNumCmp u v")
    case True
    with 3 have "y \<noteq> v \<Longrightarrow> x \<le> y" "y = v \<Longrightarrow> x \<le> u" "u \<le> v" by (auto simp: hdrNumCmp_def)
    then show ?thesis by force
  next
    case False
    then have less: "hdrNum u < hdrNum z" if "z \<in> set (v # ws)" for z
      using "3.prems" that by (fastforce simp: dbiIndexItem_less_eq_iff hdrNumCmp_def)
    show ?thesis
    proof (cases "x = u")
      case True
      then show ?thesis using "3.prems" less [of y] by auto
    next
      case x: False
      then have "x \<in> set (std_unique hdrNumCmp (v # ws))" using False "3.prems" by simp
      moreover from this have "y \<noteq> u"
        using less [of x] set_std_unique [of hdrNumCmp "v # ws"] "3.prems"(4) by auto
      ultimately show ?thesis using "3.hyps"(2) [OF False, of y] "3.prems" by simp
    qed
  qed
qed simp_all

subsection \<open>The set operations\<close>

text \<open>Both operands end up sorted, whatever the \<open>sorted\<close> flag said, if it told the truth.\<close>

abbreviation sorted_flag_ok :: "bool \<Rightarrow> dbiIndexSet \<Rightarrow> bool" where
  "sorted_flag_ok flag recs \<equiv> flag \<longrightarrow> sorted recs"

lemma sort_operand_sorted [simp]: "sorted_flag_ok f recs \<Longrightarrow> sorted (sort_operand f recs)"
proof -
  have "length recs \<le> 1 \<Longrightarrow> sorted recs" by (cases recs) auto
  then show "sorted_flag_ok f recs \<Longrightarrow> ?thesis"
    by (auto simp: sort_operand_def dbiIndexSetSort_def not_less)
qed

lemma sort_operand_mset [simp]: "mset (sort_operand f recs) = mset recs"
  by (simp add: sort_operand_def dbiIndexSetSort_def)

text \<open> Pruning removes an index set from another: when the \<open>sorted\<close> flag tells the truth, the
  result is sorted and is the multiset difference of the two sets, and the other set keeps its
  records; the return value is 1 exactly if one of them is missing or empty.\<close>

theorem dbiIndexSetPruneSet_spec:
  assumes "sorted_flag_ok flag recs" "sorted_flag_ok flag orecs"
    and "dbiIndexSetPruneSet recs (Some orecs) flag = (rc, recs', oset')"
  shows "mset recs' = mset recs - mset orecs \<and> (rc = 0 \<longrightarrow> sorted recs')
    \<and> (\<exists>orecs'. oset' = Some orecs' \<and> mset orecs' = mset orecs)
    \<and> rc = (if recs = [] \<or> orecs = [] then 1 else 0)"
proof (cases "recs = [] \<or> orecs = []")
  case False
  then have "recs' = std_set_difference (sort_operand flag recs) (sort_operand flag orecs)"
      "oset' = Some (sort_operand flag orecs)" "rc = 0"
    using assms(3) by (auto simp: dbiIndexSetPruneSet_def Let_def)
  then show ?thesis using assms(1,2) False
    by (simp add: mset_set_difference set_difference_sorted)
qed (use assms(3) in \<open>auto simp: dbiIndexSetPruneSet_def\<close>)

theorem dbiIndexSetPruneSet_spec_witness:
  "\<exists>recs' oset'. dbiIndexSetPruneSet [DbiIndexItem 2 1, DbiIndexItem 1 5, DbiIndexItem 1 5]
       (Some [DbiIndexItem 1 5]) False = (0, recs', oset') \<and>
     mset recs' = {# DbiIndexItem 2 1, DbiIndexItem 1 5 #}"
proof -
  obtain rc recs' oset' where r: "dbiIndexSetPruneSet [DbiIndexItem 2 1, DbiIndexItem 1 5, DbiIndexItem 1 5]
       (Some [DbiIndexItem 1 5]) False = (rc, recs', oset')"
    by (metis prod.exhaust)
  from dbiIndexSetPruneSet_spec [OF _ _ r] show ?thesis by (auto simp: r)
qed

text \<open> Filtering intersects two index sets: when the \<open>sorted\<close> flag tells the truth, the result
  is sorted and is the multiset intersection; the return value is 1 exactly for an empty set.\<close>

theorem dbiIndexSetFilterSet_spec:
  assumes "sorted_flag_ok flag recs" "sorted_flag_ok flag orecs"
    and "dbiIndexSetFilterSet recs (Some orecs) flag = (rc, recs', oset')"
  shows "mset recs' = mset recs \<inter># mset orecs \<and> sorted recs'
    \<and> (\<exists>orecs'. oset' = Some orecs' \<and> mset orecs' = mset orecs) \<and> rc = (if recs = [] then 1 else 0)"
proof (cases "recs = [] \<or> orecs = []")
  case False
  then have "recs' = std_set_intersection (sort_operand flag recs) (sort_operand flag orecs)"
      "oset' = Some (sort_operand flag orecs)" "rc = 0"
    using assms(3) by (auto simp: dbiIndexSetFilterSet_def Let_def)
  then show ?thesis using assms(1,2) False
    by (simp add: mset_set_intersection set_intersection_sorted)
qed (use assms(3) in \<open>auto simp: dbiIndexSetFilterSet_def\<close>)

theorem dbiIndexSetFilterSet_spec_witness:
  "\<exists>recs' oset'. dbiIndexSetFilterSet [DbiIndexItem 2 1, DbiIndexItem 1 5]
       (Some [DbiIndexItem 3 3, DbiIndexItem 2 1]) False = (0, recs', oset') \<and>
     mset recs' = {# DbiIndexItem 2 1, DbiIndexItem 1 5 #} \<inter># {# DbiIndexItem 3 3, DbiIndexItem 2 1 #}"
proof -
  obtain rc recs' oset' where r: "dbiIndexSetFilterSet [DbiIndexItem 2 1, DbiIndexItem 1 5]
       (Some [DbiIndexItem 3 3, DbiIndexItem 2 1]) False = (rc, recs', oset')"
    by (metis prod.exhaust)
  from dbiIndexSetFilterSet_spec [OF _ _ r]
  have "rc = 0" "mset recs' = {# DbiIndexItem 2 1, DbiIndexItem 1 5 #} \<inter># {# DbiIndexItem 3 3, DbiIndexItem 2 1 #}"
    by simp_all
  with r show ?thesis by blast
qed

text \<open> After \<open>dbiIndexSetUniq\<close> every header number of the set occurs exactly once, in ascending
  order, and the record kept for it is the one with the least tag number.\<close>

theorem dbiIndexSetUniq_spec:
  assumes "sorted_flag_ok flag recs"
  shows "hdrNum ` set (dbiIndexSetUniq recs flag) = hdrNum ` set recs
    \<and> sorted_wrt (\<lambda>a b. hdrNum a < hdrNum b) (dbiIndexSetUniq recs flag)
    \<and> set (dbiIndexSetUniq recs flag) \<subseteq> set recs
    \<and> (\<forall>x \<in> set (dbiIndexSetUniq recs flag). \<forall>y \<in> set recs. hdrNum x = hdrNum y \<longrightarrow> x \<le> y)"
proof (cases "length recs < 2")
  case True
  then show ?thesis by (cases recs) (auto simp: dbiIndexSetUniq_def)
next
  case False
  define srt where "srt = (if \<not> flag then dbiIndexSetSort recs else recs)"
  have "sorted srt" "set srt = set recs" using assms by (auto simp: srt_def dbiIndexSetSort_def)
  moreover have "dbiIndexSetUniq recs flag = std_unique hdrNumCmp srt"
    using False by (simp add: dbiIndexSetUniq_def srt_def)
  ultimately show ?thesis
    using std_unique_hdrNums [of srt] std_unique_ascending [of srt] std_unique_least [of srt]
      set_std_unique [of hdrNumCmp srt] by auto
qed

theorem dbiIndexSetUniq_spec_witness:
  "hdrNum ` set (dbiIndexSetUniq [DbiIndexItem 7 1, DbiIndexItem 3 5, DbiIndexItem 7 0] False) = {3, 7}"
  using dbiIndexSetUniq_spec [of False "[DbiIndexItem 7 1, DbiIndexItem 3 5, DbiIndexItem 7 0]"]
  by auto

text \<open>Appending keeps every record and, when asked to sort, leaves the set sorted; a NULL operand
  is reported with 1 and changes nothing.\<close>

theorem dbiIndexSetAppend_spec:
  "(\<exists>r. dbiIndexSetAppendSet (Some recs) (Some orecs) srt = (0, Some r)
      \<and> mset r = mset recs + mset orecs \<and> (srt \<longrightarrow> sorted r) \<and> (\<not> srt \<longrightarrow> r = recs @ orecs))
   \<and> dbiIndexSetAppendOne (Some recs) h t srt
      = dbiIndexSetAppendSet (Some recs) (Some [DbiIndexItem h t]) srt
   \<and> dbiIndexSetAppendSet st None srt = (1, st) \<and> dbiIndexSetAppendOne None h t srt = (1, None)"
proof -
  have "length l \<le> 1 \<Longrightarrow> sorted l" for l :: dbiIndexSet by (cases l) auto
  then show ?thesis
    by (auto simp: dbiIndexSetAppendSet_def dbiIndexSetAppendOne_def sort_appended_def
        dbiIndexSetSort_def not_less split: option.splits)
qed

end
