(* ===== verification/Argv.thy ===== *)
theory Argv
  imports Rpmstring
begin

text \<open>
  String arrays, rpmio/argv.cc.  An \<open>ARGV_t\<close> is the list of its strings without the terminating
  NULL, or \<open>None\<close> for a NULL array; an \<open>ARGI_t\<close> is the list of its values.  Counters are unbounded
  (the arrays of the code are indexed with \<open>int\<close>).
\<close>

type_synonym argv = "cstr list"
type_synonym argi = "int list"

subsection \<open>Counting, adding, sorting and searching\<close>

definition argvCount :: "argv option \<Rightarrow> nat" where
  "argvCount av = (case av of None \<Rightarrow> 0 | Some strs \<Rightarrow> length strs)"

definition argiCount :: "argi option \<Rightarrow> nat" where
  "argiCount ai = (case ai of None \<Rightarrow> 0 | Some vals \<Rightarrow> length vals)"

definition argiData :: "argi option \<Rightarrow> argi option" where
  "argiData ai = (case ai of None \<Rightarrow> None | Some vals \<Rightarrow> if length vals > 0 then Some vals else None)"

definition argvCmp :: "cstr \<Rightarrow> cstr \<Rightarrow> int" where
  "argvCmp astr bstr = strcmp astr bstr"

definition argvSort :: "argv option \<Rightarrow> (cstr \<Rightarrow> cstr \<Rightarrow> int) option \<Rightarrow> argv option" where
  "argvSort av compar =
     (let compar = (case compar of None \<Rightarrow> argvCmp | Some c \<Rightarrow> c) in map_option (qsort compar) av)"

definition argvSearch ::
    "argv option \<Rightarrow> cstr \<Rightarrow> (cstr \<Rightarrow> cstr \<Rightarrow> int) option \<Rightarrow> nat option" where
  "argvSearch av val compar =
     (case av of None \<Rightarrow> None
      | Some strs \<Rightarrow> bsearch (case compar of None \<Rightarrow> argvCmp | Some c \<Rightarrow> c) val strs)"

text \<open>\<open>argiAdd\<close> with a non-NULL \<open>argip\<close>: a negative index appends, one past the end zero-fills.\<close>

definition argiAdd :: "argi option \<Rightarrow> int \<Rightarrow> int \<Rightarrow> argi option" where
  "argiAdd argip ix val =
     (let vals = (case argip of None \<Rightarrow> [] | Some vals \<Rightarrow> vals);
          ix = (if ix < 0 then length vals else nat ix);
          vals = (if ix \<ge> length vals then vals @ replicate (ix + 1 - length vals) 0 else vals)
      in Some (vals[ix := val]))"

definition argvAddN :: "argv option \<Rightarrow> cstr \<Rightarrow> nat \<Rightarrow> argv option" where
  "argvAddN argvp val len =
     Some ((case argvp of None \<Rightarrow> [] | Some strs \<Rightarrow> strs) @ [take len val])"

definition argvAdd :: "argv option \<Rightarrow> cstr \<Rightarrow> argv option" where
  "argvAdd argvp val = argvAddN argvp val (length val)"

definition argvAppend :: "argv option \<Rightarrow> argv option \<Rightarrow> argv option" where
  "argvAppend argvp av =
     Some ((case argvp of None \<Rightarrow> [] | Some strs \<Rightarrow> strs) @ (case av of None \<Rightarrow> [] | Some strs \<Rightarrow> strs))"

subsection \<open>Splitting and joining\<close>

text \<open>
  The first loop of \<open>argvSplitString\<close> copies the string with a NUL for every separator and counts
  the fields; the second walks the NUL-separated buffer while \<open>s < t\<close>.
\<close>

fun argv_split_copy :: "cstr \<Rightarrow> cstr \<Rightarrow> nat \<Rightarrow> string \<times> nat" where
  "argv_split_copy [] seps argc = ([], argc)"
| "argv_split_copy (c # s) seps argc =
     (if c \<in> set seps
      then let (dest, n) = argv_split_copy s seps (argc + 1) in (NUL # dest, n)
      else let (dest, n) = argv_split_copy s seps argc in (c # dest, n))"

function argv_split_walk :: "string \<Rightarrow> bool \<Rightarrow> argv" where
  "argv_split_walk s skipempty =
     (if s = [] then []
      else let w = takeWhile (\<lambda>c. c \<noteq> NUL) s; rest = drop (length w + 1) s in
        if w = [] \<and> skipempty then argv_split_walk rest skipempty
        else w # argv_split_walk rest skipempty)"
  by pat_completeness auto
termination by (relation "measure (length \<circ> fst)") auto

declare argv_split_walk.simps [simp del]

definition argvSplitString :: "cstr option \<Rightarrow> cstr option \<Rightarrow> bool \<Rightarrow> argv option" where
  "argvSplitString str seps skipempty =
     (case (str, seps) of
        (Some s, Some sp) \<Rightarrow> Some (argv_split_walk (fst (argv_split_copy s sp 1)) skipempty)
      | _ \<Rightarrow> None)"

definition argvSplit :: "cstr option \<Rightarrow> cstr option \<Rightarrow> argv option" where
  "argvSplit str seps = argvSplitString str seps True"

fun argv_join_rest :: "cstr \<Rightarrow> argv \<Rightarrow> cstr" where
  "argv_join_rest sep [] = []"
| "argv_join_rest sep (a # av) = sep @ a @ argv_join_rest sep av"

definition argvJoin :: "argv option \<Rightarrow> cstr option \<Rightarrow> cstr option" where
  "argvJoin av sep =
     (case av of
        Some (a # rest) \<Rightarrow> Some (a @ argv_join_rest (case sep of None \<Rightarrow> [] | Some s \<Rightarrow> s) rest)
      | _ \<Rightarrow> None)"

text \<open>The size \<open>argvJoin\<close> allocates.\<close>

definition argvJoin_alloc :: "argv \<Rightarrow> cstr option \<Rightarrow> nat" where
  "argvJoin_alloc av sep =
     sum_list (map length av) + (case sep of None \<Rightarrow> 0 | Some s \<Rightarrow> length s) * (length av - 1) + 1"

subsection \<open>Sorted arrays\<close>

lemma argvCmp_strcmp: "argvCmp = strcmp"
  by (simp add: fun_eq_iff argvCmp_def)

interpretation argvCmp: c_order argvCmp
  unfolding argvCmp_strcmp by (rule strcmp.c_order_axioms)

text \<open> After sorting, the search finds every string of the array and nothing else, and what it
  returns is an index where the string stands.\<close>

theorem argvSort_argvSearch:
  "case argvSearch (argvSort (Some strs) None) val None of
     None \<Rightarrow> val \<notin> set strs
   | Some i \<Rightarrow> i < length strs \<and> the (argvSort (Some strs) None) ! i = val \<and> val \<in> set strs"
proof -
  let ?s = "qsort argvCmp strs"
  have eq: "argvCmp val x = 0 \<longleftrightarrow> x = val" for x by (auto simp: argvCmp_def strcmp_eq_0_iff)
  show ?thesis
    using argvCmp.bsearch_ascending [OF argvCmp.ascending_qsort, of val strs]
    by (auto simp: argvSearch_def argvSort_def eq split: option.splits)
qed

text \<open> The stored values after \<open>argiAdd\<close>: the new value at the (possibly appended) index, zero
  in the gap a far index opens, everything else unchanged.\<close>

theorem argiAdd_spec:
  "\<exists>vals'. argiAdd (Some vals) ix val = Some vals'
     \<and> length vals' = (if ix < 0 then length vals + 1 else max (length vals) (nat ix + 1))
     \<and> vals' ! (if ix < 0 then length vals else nat ix) = val
     \<and> (\<forall>j < length vals'. j \<noteq> (if ix < 0 then length vals else nat ix) \<longrightarrow>
          vals' ! j = (if j < length vals then vals ! j else 0))"
  by (auto simp: argiAdd_def Let_def nth_append nth_list_update max_def)

subsection \<open>Splitting\<close>

lemma argv_split_copy_dest:
  "fst (argv_split_copy s seps n) = map (\<lambda>c. if c \<in> set seps then NUL else c) s"
  by (induction s arbitrary: n) (auto simp: case_prod_beta)

lemma argv_split_copy_count:
  "snd (argv_split_copy s seps n) = n + length (filter (\<lambda>c. c \<in> set seps) s)"
  by (induction s arbitrary: n) (auto simp: case_prod_beta)

lemma argv_split_walk_Nil [simp]: "argv_split_walk [] skip = []"
  by (simp add: argv_split_walk.simps)

lemma argv_split_walk_last:
  "NUL \<notin> set w \<Longrightarrow> argv_split_walk w skip = (if w = [] then [] else [w])"
proof -
  assume "NUL \<notin> set w"
  then have "takeWhile (\<lambda>c. c \<noteq> NUL) w = w" by (auto simp: takeWhile_eq_all_conv)
  then show ?thesis by (subst argv_split_walk.simps) (simp add: Let_def del: takeWhile_eq_all_conv)
qed

lemma argv_split_walk_word:
  "NUL \<notin> set w \<Longrightarrow> argv_split_walk (w @ NUL # rest) skip =
     (if w = [] \<and> skip then [] else [w]) @ argv_split_walk rest skip"
proof -
  assume "NUL \<notin> set w"
  then have "takeWhile (\<lambda>c. c \<noteq> NUL) (w @ NUL # rest) = w"
    by (induction w) auto
  then show ?thesis by (subst argv_split_walk.simps) (simp add: Let_def)
qed

text \<open>The fields of a string: always one more than it has separators.\<close>

fun split_fields :: "cstr \<Rightarrow> cstr \<Rightarrow> argv" where
  "split_fields seps [] = [[]]"
| "split_fields seps (c # s) =
     (if c \<in> set seps then [] # split_fields seps s
      else (c # hd (split_fields seps s)) # tl (split_fields seps s))"

definition drop_empty_last :: "argv \<Rightarrow> argv" where
  "drop_empty_last ws = (if last ws = [] then butlast ws else ws)"

lemma split_fields_not_Nil [simp]: "split_fields seps s \<noteq> []"
  by (cases s) auto

lemma split_fields_append:
  "set w \<inter> set seps = {} \<Longrightarrow> c \<in> set seps \<Longrightarrow>
   split_fields seps (w @ c # s) = w # split_fields seps s"
  by (induction w) auto

lemma split_fields_plain: "set w \<inter> set seps = {} \<Longrightarrow> split_fields seps w = [w]"
  by (induction w) auto

lemma drop_empty_last_Cons: "ws \<noteq> [] \<Longrightarrow> drop_empty_last (w # ws) = w # drop_empty_last ws"
  by (auto simp: drop_empty_last_def)

lemma argv_split_walk_fields:
  assumes "NUL \<notin> set s"
  shows "argv_split_walk (map (\<lambda>c. if c \<in> set seps then NUL else c) s) skip =
    filter (\<lambda>w. \<not> (skip \<and> w = [])) (drop_empty_last (split_fields seps s))"
  using assms
proof (induction "length s" arbitrary: s rule: less_induct)
  case less
  define w where "w = takeWhile (\<lambda>c. c \<notin> set seps) s"
  define rest where "rest = dropWhile (\<lambda>c. c \<notin> set seps) s"
  have s: "s = w @ rest" by (simp add: w_def rest_def)
  have w: "set w \<inter> set seps = {}" by (auto simp: w_def dest: set_takeWhileD)
  then have map_w: "map (\<lambda>c. if c \<in> set seps then NUL else c) w = w" by (auto intro!: map_idI)
  have nul: "NUL \<notin> set w" "NUL \<notin> set rest" using less.prems s by auto
  show ?case
  proof (cases rest)
    case Nil
    then show ?thesis using w nul
      by (auto simp: s map_w split_fields_plain argv_split_walk_last drop_empty_last_def)
  next
    case (Cons c r)
    then have c: "c \<in> set seps" by (metis hd_dropWhile list.distinct(1) list.sel(1) rest_def)
    have "length r < length s" by (simp add: s Cons)
    then have IH: "argv_split_walk (map (\<lambda>c. if c \<in> set seps then NUL else c) r) skip =
      filter (\<lambda>w. \<not> (skip \<and> w = [])) (drop_empty_last (split_fields seps r))"
      using less nul by (simp add: Cons)
    have m: "map (\<lambda>c. if c \<in> set seps then NUL else c) s
        = w @ NUL # map (\<lambda>c. if c \<in> set seps then NUL else c) r"
      using c by (simp add: s Cons map_w)
    have "split_fields seps s = w # split_fields seps r"
      using split_fields_append [OF w c] by (simp add: s Cons)
    then show ?thesis unfolding m argv_split_walk_word [OF nul(1)]
      using IH by (auto simp: drop_empty_last_Cons)
  qed
qed

lemma length_split_fields:
  "length (split_fields seps s) = length (filter (\<lambda>c. c \<in> set seps) s) + 1"
  by (induction s) auto

text \<open> \<open>argvSplitString\<close> returns the separator-delimited fields of the string in order, except
  that an empty field at the very end is always dropped and, with \<open>ARGV_SKIPEMPTY\<close>, so is every
  other empty field; the result fits the array allocated from the counted fields.\<close>

theorem argvSplitString_fields:
  assumes "NUL \<notin> set s"
  shows "argvSplitString (Some s) (Some seps) skip
      = Some (filter (\<lambda>w. \<not> (skip \<and> w = [])) (drop_empty_last (split_fields seps s)))
    \<and> argvCount (argvSplitString (Some s) (Some seps) skip) \<le> snd (argv_split_copy s seps 1)"
proof -
  have "length (filter P (drop_empty_last ws)) \<le> length ws" for P ws
    by (rule order_trans [OF length_filter_le]) (simp add: drop_empty_last_def)
  from this [of _ "split_fields seps s"] show ?thesis
    by (simp add: argvSplitString_def argvCount_def argv_split_copy_dest argv_split_copy_count
        argv_split_walk_fields [OF assms] length_split_fields)
qed

theorem argvSplitString_fields_witness:
  "argvSplitString (Some ''a::b:'') (Some '':'') False = Some [''a'', '''', ''b'']
   \<and> argvSplitString (Some ''a::b:'') (Some '':'') True = Some [''a'', ''b'']"
  using argvSplitString_fields [of "''a::b:''" "'':''" False]
    argvSplitString_fields [of "''a::b:''" "'':''" True]
  by (simp add: drop_empty_last_def)

lemma split_fields_join:
  "c \<notin> set a \<Longrightarrow> \<forall>w \<in> set ws. c \<notin> set w \<Longrightarrow>
   split_fields [c] (a @ argv_join_rest [c] ws) = a # ws"
proof (induction ws arbitrary: a)
  case (Cons w ws)
  then show ?case using split_fields_append [of a "[c]" c "w @ argv_join_rest [c] ws"] by simp
qed (simp add: split_fields_plain)

text \<open> Splitting inverts joining: an array whose strings do not contain the separator and
  whose last string is not empty is restored by splitting its joined form at that separator.\<close>

theorem argvJoin_argvSplitString:
  assumes "av \<noteq> []" "last av \<noteq> []" "\<forall>w \<in> set av. c \<notin> set w \<and> NUL \<notin> set w" "c \<noteq> NUL"
  shows "argvSplitString (argvJoin (Some av) (Some [c])) (Some [c]) False = Some av"
proof -
  obtain a ws where av: "av = a # ws" using assms(1) by (cases av) auto
  have "NUL \<notin> set (argv_join_rest [c] ws)"
    using assms(3,4) unfolding av by (induction ws) auto
  then have nul: "NUL \<notin> set (a @ argv_join_rest [c] ws)" using assms(3) by (simp add: av)
  have "split_fields [c] (a @ argv_join_rest [c] ws) = av"
    using split_fields_join [of c a ws] assms(3) by (simp add: av)
  then show ?thesis using assms(2) argv_split_walk_fields [OF nul, of "[c]" False]
    by (simp add: argvJoin_def argvSplitString_def av argv_split_copy_dest drop_empty_last_def)
qed

theorem argvJoin_argvSplitString_witness:
  "argvSplitString (argvJoin (Some [''usr'', '''', ''lib'']) (Some ''/'')) (Some ''/'') False
     = Some [''usr'', '''', ''lib'']"
  by (rule argvJoin_argvSplitString) simp_all

lemma length_argv_join_rest:
  "length (argv_join_rest sep ws) = sum_list (map length ws) + length sep * length ws"
  by (induction ws) auto

text \<open> The joined string and its NUL exactly fill the allocation of \<open>argvJoin\<close>.\<close>

theorem argvJoin_fits:
  "argvJoin (Some (a # ws)) sep = Some dest \<Longrightarrow> length dest + 1 = argvJoin_alloc (a # ws) sep"
  by (auto simp: argvJoin_def argvJoin_alloc_def length_argv_join_rest split: option.splits)

theorem argvJoin_fits_witness:
  "length ''a, b'' + 1 = argvJoin_alloc [''a'', ''b''] (Some '', '')"
  by (rule argvJoin_fits) (simp add: argvJoin_def)

end
