(* ===== verification/Strpool.thy ===== *)
theory Strpool
  imports Rpmstring
begin

text \<open>
  The string pool of rpmio/rpmstrpool.cc: strings are stored once and named by small integers.

  The strings stored so far are the list \<open>offs\<close> (the string with id \<open>i\<close> at position \<open>i - 1\<close>); the
  chunked memory they live in is kept as its sizes.  The hash table is open-addressed with
  quadratic probing; the hash and the probe counter are 32-bit words, bucket counts and ids are
  natural numbers (a pool of \<open>2^31\<close> strings is out of scope).  The probe loops have no bound in the
  code: they are one \<open>partial_function\<close> in the option monad whose value \<open>None\<close> is an endless loop.
\<close>

unbundle bit_operations_syntax

subsection \<open>The hash function\<close>

definition jenkins_step :: "u32 \<Rightarrow> char \<Rightarrow> u32" where
  "jenkins_step hash c =
     (let hash = hash + word_of_int (schar c);
          hash = hash + push_bit 10 hash
      in hash XOR drop_bit 6 hash)"

definition jenkins_final :: "u32 \<Rightarrow> u32" where
  "jenkins_final hash =
     (let hash = hash + push_bit 3 hash;
          hash = hash XOR drop_bit 11 hash
      in hash + push_bit 15 hash)"

fun rstrlenhash_loop :: "u32 \<Rightarrow> cstr \<Rightarrow> nat \<Rightarrow> u32 \<times> nat" where
  "rstrlenhash_loop hash [] len = (hash, len)"
| "rstrlenhash_loop hash (c # s) len = rstrlenhash_loop (jenkins_step hash c) s (len + 1)"

definition rstrlenhash :: "cstr \<Rightarrow> u32 \<times> nat" where
  "rstrlenhash str = map_prod jenkins_final id (rstrlenhash_loop 0xe4721b68 str 0)"

fun rstrnlenhash_loop :: "u32 \<Rightarrow> cstr \<Rightarrow> nat \<Rightarrow> nat \<Rightarrow> u32 \<times> nat" where
  "rstrnlenhash_loop hash s 0 len = (hash, len)"
| "rstrnlenhash_loop hash [] n len = (hash, len)"
| "rstrnlenhash_loop hash (c # s) (Suc n) len =
     rstrnlenhash_loop (jenkins_step hash c) s n (len + 1)"

definition rstrnlenhash :: "cstr \<Rightarrow> nat \<Rightarrow> u32 \<times> nat" where
  "rstrnlenhash str n = map_prod jenkins_final id (rstrnlenhash_loop 0xe4721b68 str n 0)"

definition rstrnhash :: "cstr \<Rightarrow> nat \<Rightarrow> u32" where
  "rstrnhash str n = fst (rstrnlenhash str n)"

definition rstrhash :: "cstr \<Rightarrow> u32" where
  "rstrhash str = fst (rstrlenhash str)"

subsection \<open>The pool and its table\<close>

record poolHash =
  numBuckets :: nat
  buckets :: "nat list"
  keyCount :: nat

record rpmstrPool =
  offs :: "cstr list"
  offs_alloced :: nat
  chunks_size :: nat
  chunks_allocated :: nat
  chunk_allocated :: nat
  chunk_used :: nat
  pool_hash :: "poolHash option"
  frozen :: bool

abbreviation offs_size :: "rpmstrPool \<Rightarrow> nat" where
  "offs_size pool \<equiv> length (offs pool)"

definition id2str :: "cstr list \<Rightarrow> nat \<Rightarrow> cstr option" where
  "id2str strs sid = (if sid > 0 \<and> sid \<le> length strs then Some (strs ! (sid - 1)) else None)"

definition hashbucket :: "u32 \<Rightarrow> u32 \<Rightarrow> u32" where
  "hashbucket hash number = hash + number * number"

definition poolHashCreate :: "nat \<Rightarrow> poolHash" where
  "poolHashCreate n = \<lparr>numBuckets = n, buckets = replicate n 0, keyCount = 0\<rparr>"

text \<open>The bucket of the \<open>i\<close>-th probe, and the loop \<open>for (i=0;;i++)\<close> up to the first bucket that
  satisfies \<open>stop\<close>.\<close>

definition probe_slot :: "u32 \<Rightarrow> nat \<Rightarrow> u32 \<Rightarrow> nat" where
  "probe_slot keyHash n i = unat (hashbucket keyHash i) mod n"

partial_function (option) probe :: "(nat \<Rightarrow> bool) \<Rightarrow> u32 \<Rightarrow> nat \<Rightarrow> u32 \<Rightarrow> nat option" where
  [code]: "probe stop keyHash n i =
     (let b = probe_slot keyHash n i in
      if stop b then Some b else probe stop keyHash n (i + 1))"

text \<open>\<open>poolHashResize\<close>: every id of the old table goes to the first empty bucket of the new one.\<close>

fun poolHashResize_loop :: "cstr list \<Rightarrow> nat list \<Rightarrow> nat list \<Rightarrow> nat list option" where
  "poolHashResize_loop strs [] bk = Some bk"
| "poolHashResize_loop strs (keyid # old) bk =
     (if keyid = 0 then poolHashResize_loop strs old bk
      else case id2str strs keyid of
        None \<Rightarrow> None
      | Some key \<Rightarrow>
        (case probe (\<lambda>b. bk ! b = 0) (rstrhash key) (length bk) 0 of
           None \<Rightarrow> None
         | Some b \<Rightarrow> poolHashResize_loop strs old (bk[b := keyid])))"

definition poolHashResize :: "cstr list \<Rightarrow> poolHash \<Rightarrow> nat \<Rightarrow> poolHash option" where
  "poolHashResize strs ht n =
     map_option (\<lambda>bk. ht\<lparr>buckets := bk, numBuckets := n\<rparr>)
       (poolHashResize_loop strs (buckets ht) (replicate n 0))"

definition poolHashAddHEntry ::
    "cstr list \<Rightarrow> poolHash \<Rightarrow> cstr \<Rightarrow> u32 \<Rightarrow> nat \<Rightarrow> poolHash option" where
  "poolHashAddHEntry strs ht key keyHash keyid =
     (case (if 2 * keyCount ht > numBuckets ht
            then poolHashResize strs ht (numBuckets ht * 2) else Some ht) of
        None \<Rightarrow> None
      | Some ht \<Rightarrow>
        (case probe (\<lambda>b. buckets ht ! b = 0 \<or> id2str strs (buckets ht ! b) = Some key)
                keyHash (numBuckets ht) 0 of
           None \<Rightarrow> None
         | Some b \<Rightarrow> Some
             (if buckets ht ! b = 0
              then ht\<lparr>buckets := (buckets ht)[b := keyid], keyCount := keyCount ht + 1\<rparr>
              else ht)))"

definition poolHashAddEntry :: "cstr list \<Rightarrow> poolHash \<Rightarrow> cstr \<Rightarrow> nat \<Rightarrow> poolHash option" where
  "poolHashAddEntry strs ht key keyid = poolHashAddHEntry strs ht key (rstrhash key) keyid"

text \<open>The loop of \<open>rpmstrPoolRehash\<close> over the ids from \<open>i\<close> to \<open>offs_size\<close>.\<close>

fun rehash_loop :: "cstr list \<Rightarrow> cstr list \<Rightarrow> nat \<Rightarrow> poolHash \<Rightarrow> poolHash option" where
  "rehash_loop strs [] i ht = Some ht"
| "rehash_loop strs (key # keys) i ht =
     (case poolHashAddEntry strs ht key i of
        None \<Rightarrow> None
      | Some ht' \<Rightarrow> rehash_loop strs keys (i + 1) ht')"

definition rpmstrPoolRehash :: "rpmstrPool \<Rightarrow> rpmstrPool option" where
  "rpmstrPoolRehash pool =
     (let sizehint = (if offs_size pool < 1024 then 1024 else offs_size pool * 2) in
      map_option (\<lambda>ht. pool\<lparr>pool_hash := Some ht\<rparr>)
        (rehash_loop (offs pool) (offs pool) 1 (poolHashCreate sizehint)))"

definition rpmstrPoolCreate :: "rpmstrPool option" where
  "rpmstrPoolCreate =
     rpmstrPoolRehash
       \<lparr>offs = [], offs_alloced = 2048, chunks_size = 1, chunks_allocated = 1024,
        chunk_allocated = 65536, chunk_used = 0, pool_hash = None, frozen = False\<rparr>"

definition rpmstrPoolFreeze :: "rpmstrPool \<Rightarrow> bool \<Rightarrow> rpmstrPool" where
  "rpmstrPoolFreeze pool keephash =
     (if \<not> frozen pool
      then pool\<lparr>pool_hash := (if keephash then pool_hash pool else None),
                offs_alloced := offs_size pool + 2, frozen := True\<rparr>
      else pool)"

definition rpmstrPoolUnfreeze :: "rpmstrPool \<Rightarrow> rpmstrPool option" where
  "rpmstrPoolUnfreeze pool =
     map_option (\<lambda>p. p\<lparr>frozen := False\<rparr>)
       (if pool_hash pool = None then rpmstrPoolRehash pool else Some pool)"

text \<open>The bookkeeping of \<open>rpmstrPoolPut\<close>, before the string is copied and indexed.\<close>

definition pool_reserve :: "nat \<Rightarrow> rpmstrPool \<Rightarrow> rpmstrPool" where
  "pool_reserve ssize pool =
     (let pool = (if ssize > chunk_allocated pool - chunk_used pool
        then pool\<lparr>
          chunks_size := chunks_size pool + 1,
          chunks_allocated := (if chunks_size pool + 1 \<ge> chunks_allocated pool
             then chunks_allocated pool + chunks_allocated pool else chunks_allocated pool),
          chunk_allocated := (if ssize > chunk_allocated pool then 2 * ssize else chunk_allocated pool),
          chunk_used := 0\<rparr>
        else pool)
      in pool\<lparr>chunk_used := chunk_used pool + ssize\<rparr>)"

definition rpmstrPoolPut :: "rpmstrPool \<Rightarrow> cstr \<Rightarrow> u32 \<Rightarrow> (rpmstrPool \<times> nat) option" where
  "rpmstrPoolPut pool key hash =
     (case pool_hash pool of
        None \<Rightarrow> None
      | Some ht \<Rightarrow>
        let sid = offs_size pool + 1;
            pool = pool\<lparr>offs_alloced := (if offs_alloced pool \<le> sid then offs_alloced pool + 2048
                                        else offs_alloced pool)\<rparr>;
            pool = pool_reserve (length key + 1) pool;
            pool = pool\<lparr>offs := offs pool @ [key]\<rparr>
        in map_option (\<lambda>ht. (pool\<lparr>pool_hash := Some ht\<rparr>, sid))
             (poolHashAddHEntry (offs pool) ht key hash sid))"

text \<open>\<open>strncmp(s, key, keylen) == 0 && s[keylen] == 0\<close> for a key of at least \<open>keylen\<close> characters.\<close>

definition key_matches :: "cstr \<Rightarrow> nat \<Rightarrow> cstr \<Rightarrow> bool" where
  "key_matches key keylen s \<longleftrightarrow> take keylen s = take keylen key \<and> length s = keylen"

definition rpmstrPoolGet :: "cstr list \<Rightarrow> poolHash \<Rightarrow> cstr \<Rightarrow> nat \<Rightarrow> u32 \<Rightarrow> nat option" where
  "rpmstrPoolGet strs ht key keylen keyHash =
     map_option (\<lambda>b. buckets ht ! b)
       (probe (\<lambda>b. buckets ht ! b = 0 \<or>
                 (case id2str strs (buckets ht ! b) of None \<Rightarrow> False | Some s \<Rightarrow> key_matches key keylen s))
          keyHash (numBuckets ht) 0)"

definition strn2id :: "rpmstrPool \<Rightarrow> cstr \<Rightarrow> nat \<Rightarrow> u32 \<Rightarrow> bool \<Rightarrow> (rpmstrPool \<times> nat) option" where
  "strn2id pool s slen hash create =
     (case pool_hash pool of
        None \<Rightarrow> Some (pool, 0)
      | Some ht \<Rightarrow>
        (case rpmstrPoolGet (offs pool) ht s slen hash of
           None \<Rightarrow> None
         | Some sid \<Rightarrow>
             if sid = 0 \<and> create \<and> \<not> frozen pool
             then rpmstrPoolPut pool (take slen s) hash
             else Some (pool, sid)))"

definition rpmstrPoolIdn ::
    "rpmstrPool \<Rightarrow> cstr option \<Rightarrow> nat \<Rightarrow> bool \<Rightarrow> (rpmstrPool \<times> nat) option" where
  "rpmstrPoolIdn pool str slen create =
     (case str of None \<Rightarrow> Some (pool, 0)
      | Some s \<Rightarrow> strn2id pool s slen (rstrnhash s slen) create)"

definition rpmstrPoolId :: "rpmstrPool \<Rightarrow> cstr option \<Rightarrow> bool \<Rightarrow> (rpmstrPool \<times> nat) option" where
  "rpmstrPoolId pool str create =
     (case str of None \<Rightarrow> Some (pool, 0)
      | Some s \<Rightarrow> let (hash, slen) = rstrlenhash s in strn2id pool s slen hash create)"

definition rpmstrPoolStr :: "rpmstrPool option \<Rightarrow> nat \<Rightarrow> cstr option" where
  "rpmstrPoolStr pool sid = (case pool of None \<Rightarrow> None | Some p \<Rightarrow> id2str (offs p) sid)"

definition rpmstrPoolStrlen :: "rpmstrPool option \<Rightarrow> nat \<Rightarrow> nat" where
  "rpmstrPoolStrlen pool sid =
     (case rpmstrPoolStr pool sid of None \<Rightarrow> 0 | Some s \<Rightarrow> length s)"

text \<open>\<open>same\<close> says whether the two pools are the same object; otherwise both ids must be valid.\<close>

definition rpmstrPoolStreq ::
    "bool \<Rightarrow> rpmstrPool \<Rightarrow> nat \<Rightarrow> rpmstrPool \<Rightarrow> nat \<Rightarrow> bool option" where
  "rpmstrPoolStreq same poolA sidA poolB sidB =
     (if same then Some (sidA = sidB)
      else case (id2str (offs poolA) sidA, id2str (offs poolB) sidB) of
        (Some a, Some b) \<Rightarrow> Some (rstreq a b) | _ \<Rightarrow> None)"

definition rpmstrPoolNumStr :: "rpmstrPool option \<Rightarrow> nat" where
  "rpmstrPoolNumStr pool = (case pool of None \<Rightarrow> 0 | Some p \<Rightarrow> offs_size p)"

subsection \<open>Hashing\<close>

lemma rstrlenhash_loop_eq: "rstrlenhash_loop h s n = (foldl jenkins_step h s, n + length s)"
  by (induction s arbitrary: h n) auto

lemma rstrnlenhash_loop_eq:
  "rstrnlenhash_loop h s n k = (foldl jenkins_step h (take n s), k + min n (length s))"
  by (induction h s n k rule: rstrnlenhash_loop.induct) auto

lemma rstrlenhash_eq: "rstrlenhash s = (rstrhash s, length s)"
  by (simp add: rstrlenhash_def rstrhash_def rstrlenhash_loop_eq)

lemma rstrnhash_take: "rstrnhash s n = rstrhash (take n s)"
  by (simp add: rstrnhash_def rstrnlenhash_def rstrhash_def rstrlenhash_def rstrlenhash_loop_eq
      rstrnlenhash_loop_eq)

subsection \<open>The probe loop\<close>

lemma probe_finds:
  assumes "stop (probe_slot h n (i + of_nat k))" "\<forall>j < k. \<not> stop (probe_slot h n (i + of_nat j))"
  shows "probe stop h n i = Some (probe_slot h n (i + of_nat k))"
  using assms
proof (induction k arbitrary: i)
  case 0
  then show ?case by (simp add: probe.simps Let_def)
next
  case (Suc k)
  have "\<not> stop (probe_slot h n i)" using Suc.prems(2) [rule_format, of 0] by simp
  moreover have "probe stop h n (i + 1) = Some (probe_slot h n (i + 1 + of_nat k))"
    using Suc.prems by (intro Suc.IH) (auto simp: add.assoc dest: spec [of _ "Suc _"])
  ultimately show ?case by (subst probe.simps) (simp add: Let_def add.assoc)
qed

lemma probe_SomeD:
  "probe stop h n i = Some b \<Longrightarrow>
   \<exists>k. b = probe_slot h n (i + of_nat k) \<and> stop b \<and> (\<forall>j < k. \<not> stop (probe_slot h n (i + of_nat j)))"
proof (induction rule: probe.raw_induct [rotated, consumes 1, case_names step])
  case (step rec stop h n i b)
  show ?case
  proof (cases "stop (probe_slot h n i)")
    case True
    with step show ?thesis by (intro exI [of _ 0]) (simp add: Let_def)
  next
    case False
    with step(2) have "rec stop h n (i + 1) = Some b" by (simp add: Let_def)
    from step(1) [OF this] obtain k where k: "b = probe_slot h n (i + 1 + of_nat k)" "stop b"
      "\<forall>j < k. \<not> stop (probe_slot h n (i + 1 + of_nat j))" by blast
    have "\<not> stop (probe_slot h n (i + of_nat j))" if "j < Suc k" for j
      using that k(3) False by (cases j) (auto simp: add.assoc)
    with k show ?thesis by (intro exI [of _ "Suc k"]) (auto simp: add.assoc)
  qed
qed

lemma probe_Some_iff:
  "probe stop h n 0 = Some b \<longleftrightarrow>
   (\<exists>k. b = probe_slot h n (of_nat k) \<and> stop b \<and> (\<forall>j < k. \<not> stop (probe_slot h n (of_nat j))))"
  using probe_SomeD [of stop h n 0 b] probe_finds [of stop h n 0] by auto

lemma probe_returns_iff: "(\<exists>b. probe stop h n 0 = Some b) \<longleftrightarrow> (\<exists>i. stop (probe_slot h n i))"
proof
  assume "\<exists>i. stop (probe_slot h n i)"
  then have ex: "\<exists>k. stop (probe_slot h n (of_nat k))" by (metis of_nat_unat ucast_id)
  from LeastI_ex [OF ex] show "\<exists>b. probe stop h n 0 = Some b"
    unfolding probe_Some_iff using not_less_Least by blast
qed (auto simp: probe_Some_iff)

lemma probe_slot_less: "0 < n \<Longrightarrow> probe_slot h n i < n"
  by (simp add: probe_slot_def)


subsection \<open>What the table holds\<close>

text \<open>The id is found on its hash's probe sequence before any empty bucket.\<close>

definition chain_ok :: "nat list \<Rightarrow> u32 \<Rightarrow> nat \<Rightarrow> bool" where
  "chain_ok bk h sid \<longleftrightarrow>
     (\<exists>k. bk ! probe_slot h (length bk) (of_nat k) = sid \<and>
          (\<forall>j < k. bk ! probe_slot h (length bk) (of_nat j) \<noteq> 0))"

abbreviation sid_str :: "cstr list \<Rightarrow> nat \<Rightarrow> cstr" where
  "sid_str strs sid \<equiv> strs ! (sid - 1)"

definition table_holds :: "cstr list \<Rightarrow> nat set \<Rightarrow> nat list \<Rightarrow> bool" where
  "table_holds strs S bk \<longleftrightarrow>
     bk \<noteq> [] \<and> S \<subseteq> {1..length strs} \<and> filter_mset (\<lambda>sid. sid \<noteq> 0) (mset bk) = mset_set S \<and>
     (\<forall>sid \<in> S. chain_ok bk (rstrhash (sid_str strs sid)) sid)"

definition table_wf :: "cstr list \<Rightarrow> poolHash \<Rightarrow> bool" where
  "table_wf strs ht \<longleftrightarrow> length (buckets ht) = numBuckets ht \<and>
     keyCount ht = length strs \<and> table_holds strs {1..length strs} (buckets ht)"

definition pool_wf :: "rpmstrPool \<Rightarrow> bool" where
  "pool_wf pool \<longleftrightarrow> distinct (offs pool) \<and>
     (case pool_hash pool of None \<Rightarrow> True | Some ht \<Rightarrow> table_wf (offs pool) ht)"

lemma table_holds_finite: "table_holds strs S bk \<Longrightarrow> finite S"
  by (auto simp: table_holds_def intro: finite_subset)

lemma table_holds_bucket:
  "table_holds strs S bk \<Longrightarrow> sid \<in> set bk \<Longrightarrow> sid \<noteq> 0 \<Longrightarrow> sid \<in> S"
proof -
  assume *: "table_holds strs S bk" "sid \<in> set bk" "sid \<noteq> 0"
  then have "sid \<in># filter_mset (\<lambda>sid. sid \<noteq> 0) (mset bk)" by simp
  with * show ?thesis
    unfolding table_holds_def by (auto simp: table_holds_finite [OF *(1)])
qed

lemma chain_update:
  "chain_ok bk h sid \<Longrightarrow> bk ! b = 0 \<Longrightarrow> sid \<noteq> 0 \<Longrightarrow> chain_ok (bk[b := new]) h sid"
  unfolding chain_ok_def by (metis length_list_update nth_list_update_neq)

lemma chain_new:
  assumes "probe stop h (length bk) 0 = Some b" "\<And>b. bk ! b = 0 \<Longrightarrow> stop b" "bk \<noteq> []" "sid \<noteq> 0"
    and "bk ! b = 0"
  shows "chain_ok (bk[b := sid]) h sid"
proof -
  obtain k where k: "b = probe_slot h (length bk) (of_nat k)"
    "\<forall>j < k. \<not> stop (probe_slot h (length bk) (of_nat j))"
    using assms(1) by (auto simp: probe_Some_iff)
  have "b < length bk" using assms(3) by (auto simp: k(1) intro: probe_slot_less)
  moreover have "bk[b := sid] ! probe_slot h (length bk) (of_nat j) \<noteq> 0" if "j < k" for j
    using k(2) that assms(2,4,5) by (cases "b = probe_slot h (length bk) (of_nat j)") auto
  ultimately show ?thesis unfolding chain_ok_def
    by (intro exI [of _ k]) (simp add: k(1) [symmetric])
qed

lemma probe_bucket_less: "probe stop h (length bk) 0 = Some b \<Longrightarrow> bk \<noteq> [] \<Longrightarrow> b < length bk"
  by (auto simp: probe_Some_iff intro: probe_slot_less)

lemma table_holds_insert:
  assumes holds: "table_holds strs S bk" and sid: "sid \<notin> S" "0 < sid" "sid \<le> length strs"
    and probe: "probe stop (rstrhash (sid_str strs sid)) (length bk) 0 = Some b"
    and stop: "\<And>b. bk ! b = 0 \<Longrightarrow> stop b" and empty: "bk ! b = 0"
  shows "table_holds strs (insert sid S) (bk[b := sid])"
proof -
  have bk: "bk \<noteq> []" using holds by (simp add: table_holds_def)
  have b: "b < length bk" using probe_bucket_less [OF probe bk] .
  then have "filter_mset (\<lambda>sid. sid \<noteq> 0) (mset (bk[b := sid]))
      = add_mset sid (filter_mset (\<lambda>sid. sid \<noteq> 0) (mset bk))"
    using sid(2) empty by (simp add: mset_update filter_diff_mset)
  moreover have "chain_ok (bk[b := sid]) (rstrhash (sid_str strs sid)) sid"
    using chain_new [OF probe stop bk _ empty] sid(2) by blast
  moreover have "\<forall>s \<in> S. 0 < s" using holds by (auto simp: table_holds_def)
  ultimately show ?thesis
    using holds sid table_holds_finite [OF holds] empty
    by (auto simp: table_holds_def intro: chain_update)
qed

lemma table_holds_append:
  "table_holds strs S bk \<Longrightarrow> table_holds (strs @ [key]) S bk"
  by (auto simp: table_holds_def nth_append subset_iff Suc_le_eq)

subsection \<open>Resizing, adding and looking up\<close>

lemma resize_holds:
  assumes "poolHashResize_loop strs old bk = Some bk'" "table_holds strs S bk"
    and "distinct (filter (\<lambda>sid. sid \<noteq> 0) old)" "set old \<inter> S \<subseteq> {0}" "\<forall>sid \<in> set old. sid \<le> length strs"
  shows "table_holds strs (S \<union> (set old - {0})) bk' \<and> length bk' = length bk"
  using assms
proof (induction strs old bk arbitrary: S rule: poolHashResize_loop.induct)
  case (2 strs keyid old bk)
  show ?case
  proof (cases "keyid = 0")
    case True
    moreover have "set old \<inter> S \<subseteq> {0}" using "2.prems"(4) by auto
    ultimately show ?thesis using 2 by simp
  next
    case False
    from 2 False obtain b where id: "id2str strs keyid = Some (sid_str strs keyid)"
      and b: "probe (\<lambda>b. bk ! b = 0) (rstrhash (sid_str strs keyid)) (length bk) 0 = Some b"
      and rest: "poolHashResize_loop strs old (bk[b := keyid]) = Some bk'"
      by (auto simp: id2str_def split: option.splits)
    have "table_holds strs (insert keyid S) (bk[b := keyid])"
      using "2.prems" False b by (intro table_holds_insert [OF _ _ _ _ b]) (auto simp: probe_Some_iff)
    from "2.IH"(2) [OF False id b rest this]
    have "table_holds strs (insert keyid S \<union> (set old - {0})) bk' \<and> length bk' = length (bk[b := keyid])"
      using "2.prems" False by auto
    moreover have "insert keyid S \<union> (set old - {0}) = S \<union> (set (keyid # old) - {0})"
      using False by auto
    ultimately show ?thesis by simp
  qed
qed simp

lemma poolHashResize_holds:
  assumes "poolHashResize strs ht n = Some ht'" "table_holds strs S (buckets ht)" "0 < n"
  shows "table_holds strs S (buckets ht')" "length (buckets ht') = n" "numBuckets ht' = n"
    "keyCount ht' = keyCount ht"
proof -
  obtain bk where bk: "poolHashResize_loop strs (buckets ht) (replicate n 0) = Some bk"
    and ht': "ht' = ht\<lparr>buckets := bk, numBuckets := n\<rparr>"
    using assms(1) by (auto simp: poolHashResize_def)
  let ?f = "filter (\<lambda>sid. sid \<noteq> 0) (buckets ht)"
  have f: "mset ?f = mset_set S" using assms(2) by (simp add: table_holds_def)
  have fin: "finite S" using table_holds_finite [OF assms(2)] .
  have "distinct ?f" by (metis f distinct_count_atmost_1 count_mset_set(1) count_mset_set(3) fin finite_set_mset_mset_set set_mset_mset)
  moreover have S: "set (buckets ht) - {0} = S"
    using arg_cong [OF f, of set_mset] fin by auto
  moreover have "table_holds strs {} (replicate n 0)"
    using assms(3) by (auto simp: table_holds_def)
  moreover have "\<forall>sid \<in> set (buckets ht). sid \<le> length strs"
    using assms(2) S by (auto simp: table_holds_def)
  ultimately have "table_holds strs S bk \<and> length bk = n"
    using resize_holds [OF bk, of "{}"] by simp
  then show "table_holds strs S (buckets ht')" "length (buckets ht') = n" "numBuckets ht' = n"
    "keyCount ht' = keyCount ht" by (simp_all add: ht')
qed

lemma sid_str_inj:
  "distinct strs \<Longrightarrow> 0 < a \<Longrightarrow> a \<le> length strs \<Longrightarrow> 0 < b \<Longrightarrow> b \<le> length strs \<Longrightarrow>
   sid_str strs a = sid_str strs b \<Longrightarrow> a = b"
  by (subst (asm) nth_eq_iff_index_eq) auto

lemma id2str_in_set: "id2str strs sid = Some key \<Longrightarrow> key \<in> set strs"
  by (auto simp: id2str_def split: if_splits)

lemma poolHashAddHEntry_holds:
  assumes "poolHashAddHEntry strs ht (sid_str strs sid) (rstrhash (sid_str strs sid)) sid = Some ht'"
    and holds: "table_holds strs S (buckets ht)" and len: "length (buckets ht) = numBuckets ht"
    and sid: "sid \<notin> S" "0 < sid" "sid \<le> length strs" and "distinct strs"
  shows "table_holds strs (insert sid S) (buckets ht') \<and> length (buckets ht') = numBuckets ht'
    \<and> keyCount ht' = keyCount ht + 1"
proof -
  let ?key = "sid_str strs sid"
  define h1 where "h1 = (if 2 * keyCount ht > numBuckets ht
     then poolHashResize strs ht (numBuckets ht * 2) else Some ht)"
  have n: "0 < numBuckets ht" using holds len by (simp add: table_holds_def flip: len)
  obtain ht1 b where ht1: "h1 = Some ht1" and
    b: "probe (\<lambda>b. buckets ht1 ! b = 0 \<or> id2str strs (buckets ht1 ! b) = Some ?key)
          (rstrhash ?key) (numBuckets ht1) 0 = Some b" and
    ht': "ht' = (if buckets ht1 ! b = 0
       then ht1\<lparr>buckets := (buckets ht1)[b := sid], keyCount := keyCount ht1 + 1\<rparr> else ht1)"
    using assms(1) unfolding poolHashAddHEntry_def h1_def [symmetric] by (auto split: option.splits)
  have 1: "table_holds strs S (buckets ht1)" "length (buckets ht1) = numBuckets ht1"
    "keyCount ht1 = keyCount ht"
  proof -
    consider "poolHashResize strs ht (numBuckets ht * 2) = Some ht1" | "ht1 = ht"
      using ht1 by (cases "2 * keyCount ht > numBuckets ht") (simp_all add: h1_def)
    then show "table_holds strs S (buckets ht1)" "length (buckets ht1) = numBuckets ht1"
        "keyCount ht1 = keyCount ht"
      using holds len n poolHashResize_holds [of strs ht "numBuckets ht * 2" ht1 S] by (cases, simp_all)+
  qed
  have empty: "buckets ht1 ! b = 0"
  proof (rule ccontr)
    assume "buckets ht1 ! b \<noteq> 0"
    then have "id2str strs (buckets ht1 ! b) = Some ?key" using b by (auto simp: probe_Some_iff)
    moreover have "b < length (buckets ht1)"
      using b 1 by (intro probe_bucket_less) (auto simp: table_holds_def)
    ultimately have "buckets ht1 ! b = sid" "buckets ht1 ! b \<in> S"
      using \<open>distinct strs\<close> sid \<open>buckets ht1 ! b \<noteq> 0\<close> table_holds_bucket [OF 1(1)]
      by (auto simp: id2str_def nth_eq_iff_index_eq split: if_splits)
    then show False using sid(1) by simp
  qed
  have "table_holds strs (insert sid S) ((buckets ht1)[b := sid])"
    by (rule table_holds_insert [OF 1(1) sid b [folded 1(2)] _ empty]) simp
  then show ?thesis using empty 1 by (simp add: ht')
qed

lemma key_matches_iff: "keylen \<le> length key \<Longrightarrow> key_matches key keylen s \<longleftrightarrow> s = take keylen key"
  by (auto simp: key_matches_def)

text \<open>The lookup finds an id exactly for the strings of the table; for other strings it returns 0 or
  does not return.\<close>

lemma rpmstrPoolGet_found:
  assumes holds: "table_holds strs S (buckets ht)" "length (buckets ht) = numBuckets ht"
    and sid: "sid \<in> S" "sid_str strs sid = take keylen key" and "keylen \<le> length key" "distinct strs"
  shows "rpmstrPoolGet strs ht key keylen (rstrhash (take keylen key)) = Some sid"
proof -
  let ?h = "rstrhash (take keylen key)" and ?bk = "buckets ht"
  let ?stop = "\<lambda>b. ?bk ! b = 0 \<or> (case id2str strs (?bk ! b) of None \<Rightarrow> False | Some s \<Rightarrow> key_matches key keylen s)"
  have valid: "0 < sid" "sid \<le> length strs" using holds(1) sid(1) by (auto simp: table_holds_def)
  obtain k where k: "?bk ! probe_slot ?h (length ?bk) (of_nat k) = sid"
    "\<forall>j < k. ?bk ! probe_slot ?h (length ?bk) (of_nat j) \<noteq> 0"
    using holds(1) sid by (auto simp: table_holds_def chain_ok_def)
  have match: "?bk ! b = sid" if "?stop b" "?bk ! b \<noteq> 0" for b
    using that valid sid(2) \<open>keylen \<le> length key\<close>
    by (intro sid_str_inj [OF \<open>distinct strs\<close>])
      (auto simp: id2str_def key_matches_iff split: if_splits option.splits)
  have "?stop (probe_slot ?h (length ?bk) (of_nat k))"
    using k(1) valid sid(2) \<open>keylen \<le> length key\<close> by (simp add: id2str_def key_matches_iff)
  then obtain b where b: "probe ?stop ?h (length ?bk) 0 = Some b" using probe_returns_iff by blast
  then obtain m where m: "b = probe_slot ?h (length ?bk) (of_nat m)" "?stop b"
    "\<forall>j < m. \<not> ?stop (probe_slot ?h (length ?bk) (of_nat j))" by (auto simp: probe_Some_iff)
  have "m \<le> k" using m(3) \<open>?stop (probe_slot ?h (length ?bk) (of_nat k))\<close> by (meson not_less)
  then have "?bk ! b \<noteq> 0" using k valid m(1) by (cases "m = k") auto
  then show ?thesis using b match [OF m(2)] holds(2) by (simp add: rpmstrPoolGet_def)
qed

lemma rpmstrPoolGet_Some:
  assumes "rpmstrPoolGet strs ht key keylen h = Some sid" "keylen \<le> length key"
  shows "sid = 0 \<or> id2str strs sid = Some (take keylen key)"
  using assms by (auto simp: rpmstrPoolGet_def probe_Some_iff key_matches_iff split: option.splits)

lemma rpmstrPoolGet_not_found:
  assumes "rpmstrPoolGet strs ht key keylen h = Some sid" "keylen \<le> length key"
    and "take keylen key \<notin> set strs"
  shows "sid = 0"
  using rpmstrPoolGet_Some [OF assms(1,2)] assms(3) id2str_in_set by blast

lemma rehash_loop_holds:
  assumes "rehash_loop strs keys i ht = Some ht'" "strs = done @ keys" "i = length done + 1"
    and "distinct strs" "table_holds strs {1..length done} (buckets ht)"
    and "length (buckets ht) = numBuckets ht" "keyCount ht = length done"
  shows "table_wf strs ht'"
  using assms
proof (induction keys arbitrary: i ht "done")
  case Nil
  then show ?case by (simp add: table_wf_def)
next
  case (Cons key keys)
  from Cons.prems(1) obtain ht1 where ht1: "poolHashAddEntry strs ht key i = Some ht1"
    and rest: "rehash_loop strs keys (i + 1) ht1 = Some ht'" by (auto split: option.splits)
  have key: "sid_str strs i = key" "i \<le> length strs" using Cons.prems(2,3) by auto
  have "table_holds strs (insert i {1..length done}) (buckets ht1)
      \<and> length (buckets ht1) = numBuckets ht1 \<and> keyCount ht1 = keyCount ht + 1"
    using ht1 Cons.prems key
    by (intro poolHashAddHEntry_holds) (auto simp: poolHashAddEntry_def)
  moreover have "insert i {1..length done} = {1..length (done @ [key])}" using Cons.prems(3) by auto
  ultimately show ?case using Cons.prems by (intro Cons.IH [OF rest, of "done @ [key]"]) auto
qed

lemma rpmstrPoolRehash_wf:
  assumes "rpmstrPoolRehash pool = Some pool'" "distinct (offs pool)"
  shows "pool_wf pool' \<and> offs pool' = offs pool \<and> frozen pool' = frozen pool \<and> pool_hash pool' \<noteq> None"
proof -
  define n where "n = (if offs_size pool < 1024 then 1024 else offs_size pool * 2)"
  obtain ht where ht: "rehash_loop (offs pool) (offs pool) 1 (poolHashCreate n) = Some ht"
    and pool': "pool' = pool\<lparr>pool_hash := Some ht\<rparr>"
    using assms(1) by (auto simp: rpmstrPoolRehash_def Let_def n_def)
  have "0 < n" by (auto simp: n_def)
  then have "table_wf (offs pool) ht"
    using assms(2) by (intro rehash_loop_holds [OF ht, of "[]"])
      (auto simp: poolHashCreate_def table_holds_def)
  then show ?thesis using assms(2) by (simp add: pool' pool_wf_def)
qed

lemma rpmstrPoolPut_wf:
  assumes "rpmstrPoolPut pool key (rstrhash key) = Some (pool', sid)" "pool_wf pool"
    "key \<notin> set (offs pool)"
  shows "pool_wf pool' \<and> sid = offs_size pool + 1 \<and> offs pool' = offs pool @ [key]
    \<and> frozen pool' = frozen pool \<and> pool_hash pool' \<noteq> None"
proof -
  let ?strs = "offs pool @ [key]"
  have offs: "offs (pool_reserve n p) = offs p" "frozen (pool_reserve n p) = frozen p" for n p
    by (simp_all add: pool_reserve_def Let_def)
  obtain ht ht' where ht: "pool_hash pool = Some ht"
    and ht': "poolHashAddHEntry ?strs ht key (rstrhash key) (offs_size pool + 1) = Some ht'"
    and pool': "offs pool' = ?strs" "pool_hash pool' = Some ht'" "frozen pool' = frozen pool"
      "sid = offs_size pool + 1"
    using assms(1) by (auto simp: rpmstrPoolPut_def Let_def offs split: option.splits)
  have dist: "distinct ?strs" using assms(2,3) by (simp add: pool_wf_def)
  have wf: "table_wf (offs pool) ht" using assms(2) ht by (simp add: pool_wf_def)
  have "table_holds ?strs (insert (offs_size pool + 1) {1..offs_size pool}) (buckets ht')
    \<and> length (buckets ht') = numBuckets ht' \<and> keyCount ht' = keyCount ht + 1"
    using ht' wf dist by (intro poolHashAddHEntry_holds)
      (auto simp: table_wf_def intro: table_holds_append)
  moreover have "insert (offs_size pool + 1) {1..offs_size pool} = {1..length ?strs}" by auto
  ultimately show ?thesis using dist wf pool' by (simp add: pool_wf_def table_wf_def)
qed

lemma strn2id_wf:
  assumes "strn2id pool s slen (rstrhash (take slen s)) create = Some (pool', sid)" "pool_wf pool"
    and "slen \<le> length s"
  shows "pool_wf pool' \<and> (\<exists>added. offs pool' = offs pool @ added)
    \<and> (sid \<noteq> 0 \<longrightarrow> id2str (offs pool') sid = Some (take slen s))
    \<and> (sid = 0 \<longrightarrow> pool' = pool)
    \<and> (sid = 0 \<longleftrightarrow> pool_hash pool = None \<or>
         take slen s \<notin> set (offs pool) \<and> (\<not> create \<or> frozen pool))"
proof (cases "pool_hash pool")
  case None
  then show ?thesis using assms(1,2) by (simp add: strn2id_def)
next
  case (Some ht)
  let ?key = "take slen s"
  have wf: "table_holds (offs pool) {1..offs_size pool} (buckets ht)"
      "length (buckets ht) = numBuckets ht" "distinct (offs pool)"
    using assms(2) Some by (auto simp: pool_wf_def table_wf_def)
  obtain g where g: "rpmstrPoolGet (offs pool) ht s slen (rstrhash ?key) = Some g"
    using assms(1) Some by (auto simp: strn2id_def split: option.splits)
  show ?thesis
  proof (cases "?key \<in> set (offs pool)")
    case True
    then obtain i where i: "i < offs_size pool" "offs pool ! i = ?key" by (auto simp: in_set_conv_nth)
    then have "g = Suc i"
      using rpmstrPoolGet_found [OF wf(1,2), of "Suc i" slen s] wf(3) assms(3) g by auto
    then show ?thesis using assms(1,2) Some g i True by (auto simp: strn2id_def id2str_def)
  next
    case False
    then have "g = 0" using rpmstrPoolGet_not_found [OF g assms(3)] by simp
    show ?thesis
    proof (cases "create \<and> \<not> frozen pool")
      case True
      then have "rpmstrPoolPut pool ?key (rstrhash ?key) = Some (pool', sid)"
        using assms(1) Some g \<open>g = 0\<close> by (simp add: strn2id_def)
      from rpmstrPoolPut_wf [OF this assms(2) False] True show ?thesis
        using Some by (auto simp: id2str_def)
    next
      case False
      then show ?thesis using assms(1,2) Some g \<open>g = 0\<close> \<open>?key \<notin> set (offs pool)\<close>
        by (auto simp: strn2id_def)
    qed
  qed
qed

lemma rpmstrPoolId_strn2id:
  "rpmstrPoolId pool (Some s) create = strn2id pool s (length s) (rstrhash (take (length s) s)) create"
  by (simp add: rpmstrPoolId_def rstrlenhash_eq)

lemma rpmstrPoolIdn_strn2id:
  "rpmstrPoolIdn pool (Some s) slen create = strn2id pool s slen (rstrhash (take slen s)) create"
  by (simp add: rpmstrPoolIdn_def rstrnhash_take)

text \<open>The contract a client of the pool relies on: ids are never reused and keep their strings, an
  id is handed out for a string exactly once.\<close>

text \<open> C4: Whenever \<open>rpmstrPoolId\<close> returns on a well-formed pool, the pool stays well-formed, every
  id handed out before still names its string, a non-zero result names the string asked for, and
  the result is 0 exactly if the string is unknown and may not be added (no create flag or a frozen
  pool) or the pool has no hash table.\<close>

theorem rpmstrPoolId_spec:
  assumes "pool_wf pool" "rpmstrPoolId pool (Some s) create = Some (pool', sid)"
  shows "pool_wf pool'
    \<and> (\<forall>i str. rpmstrPoolStr (Some pool) i = Some str \<longrightarrow> rpmstrPoolStr (Some pool') i = Some str)
    \<and> (sid \<noteq> 0 \<longrightarrow> rpmstrPoolStr (Some pool') sid = Some s)
    \<and> (sid = 0 \<longleftrightarrow> pool_hash pool = None \<or> s \<notin> set (offs pool) \<and> (\<not> create \<or> frozen pool))"
proof -
  have "strn2id pool s (length s) (rstrhash (take (length s) s)) create = Some (pool', sid)"
    using assms(2) by (simp add: rpmstrPoolId_strn2id)
  from strn2id_wf [OF this assms(1)] show ?thesis
    by (auto simp: rpmstrPoolStr_def id2str_def nth_append split: if_splits)
qed

text \<open>Ids identify strings: for two lookups that both return an id from the same well-formed
  pool (the second on the pool the first left), the ids are equal exactly if the strings are.\<close>

theorem rpmstrPoolId_injective:
  assumes "pool_wf pool" "rpmstrPoolId pool (Some s) c1 = Some (pool1, sid1)" "sid1 \<noteq> 0"
    and "rpmstrPoolId pool1 (Some t) c2 = Some (pool2, sid2)" "sid2 \<noteq> 0"
  shows "sid1 = sid2 \<longleftrightarrow> s = t"
proof -
  have 1: "pool_wf pool1" "id2str (offs pool1) sid1 = Some s"
    using strn2id_wf [OF assms(2) [unfolded rpmstrPoolId_strn2id] assms(1)] assms(3) by simp_all
  have 2: "pool_wf pool2" "id2str (offs pool2) sid2 = Some t" "\<exists>added. offs pool2 = offs pool1 @ added"
    using strn2id_wf [OF assms(4) [unfolded rpmstrPoolId_strn2id] 1(1)] assms(5) by simp_all
  have "id2str (offs pool2) sid1 = Some s"
    using 1(2) 2(3) by (auto simp: id2str_def nth_append split: if_splits)
  then show ?thesis using 2(1,2) sid_str_inj [of "offs pool2" sid1 sid2]
    by (auto simp: id2str_def pool_wf_def split: if_splits)
qed

text \<open> \<open>rpmstrPoolIdn\<close> on the first \<open>slen\<close> characters of a string is \<open>rpmstrPoolId\<close> on that
  prefix: both compute the same hash and match the same pool strings.\<close>

theorem rpmstrPoolIdn_prefix:
  assumes "slen \<le> length s"
  shows "rpmstrPoolIdn pool (Some s) slen create = rpmstrPoolId pool (Some (take slen s)) create"
proof -
  have "key_matches (take slen s) slen = key_matches s slen"
    using assms by (auto simp: key_matches_def fun_eq_iff min_def)
  then have "rpmstrPoolGet strs ht s slen h = rpmstrPoolGet strs ht (take slen s) slen h" for strs ht h
    unfolding rpmstrPoolGet_def by (simp only:)
  moreover have "length (take slen s) = slen" using assms by simp
  ultimately show ?thesis
    by (simp only: rpmstrPoolIdn_strn2id rpmstrPoolId_strn2id strn2id_def take_take min.idem)
qed


text \<open>A new pool is well-formed, empty and unfrozen; freezing and unfreezing change no string
  and keep the pool well-formed, and after unfreezing the table is there again, even if freezing
  dropped it.\<close>

theorem rpmstrPool_lifecycle:
  "(\<exists>pool. rpmstrPoolCreate = Some pool \<and> pool_wf pool \<and> offs pool = [] \<and> \<not> frozen pool)
   \<and> (\<forall>pool keep. pool_wf pool \<longrightarrow>
        pool_wf (rpmstrPoolFreeze pool keep) \<and> offs (rpmstrPoolFreeze pool keep) = offs pool)
   \<and> (\<forall>pool pool'. pool_wf pool \<and> rpmstrPoolUnfreeze pool = Some pool' \<longrightarrow>
        pool_wf pool' \<and> offs pool' = offs pool \<and> \<not> frozen pool' \<and> pool_hash pool' \<noteq> None)"
proof (intro conjI allI impI)
  show "\<exists>pool. rpmstrPoolCreate = Some pool \<and> pool_wf pool \<and> offs pool = [] \<and> \<not> frozen pool"
    by (auto simp: rpmstrPoolCreate_def rpmstrPoolRehash_def pool_wf_def table_wf_def
        table_holds_def poolHashCreate_def)
next
  fix pool pool' assume *: "pool_wf pool \<and> rpmstrPoolUnfreeze pool = Some pool'"
  have frz: "pool_wf (p\<lparr>frozen := False\<rparr>) = pool_wf p" for p by (cases "pool_hash p") (simp_all add: pool_wf_def)
  show "pool_wf pool'" "offs pool' = offs pool" "\<not> frozen pool'" "pool_hash pool' \<noteq> None"
    using * rpmstrPoolRehash_wf [of pool]
    by (auto simp: rpmstrPoolUnfreeze_def frz pool_wf_def split: if_splits)
qed (auto simp: rpmstrPoolFreeze_def pool_wf_def split: option.splits)

theorem rpmstrPool_lifecycle_witness:
  "\<exists>pool. rpmstrPoolCreate = Some pool \<and> pool_wf (rpmstrPoolFreeze pool False)
     \<and> offs (rpmstrPoolFreeze pool False) = []"
proof -
  obtain pool where "rpmstrPoolCreate = Some pool" "pool_wf pool" "offs pool = []"
    using rpmstrPool_lifecycle by blast
  then show ?thesis using rpmstrPool_lifecycle by auto
qed

subsection \<open>When the probe loop ends\<close>

text \<open>
  With a bucket count that divides \<open>2^32\<close> (a new pool's 1024, doubled at every resize) the first
  \<open>m\<close> probes hit \<open>m\<close> different buckets as long as \<open>m * m\<close> is at most the number of buckets.
\<close>

lemma probe_slot_distinct:
  assumes "n dvd 2 ^ 32" "i < j" "j * j < n"
  shows "probe_slot h n (of_nat i) \<noteq> probe_slot h n (of_nat j)"
proof -
  have slot: "probe_slot h n (of_nat k) = (unat h + k * k) mod n" for k
  proof -
    have "unat (hashbucket h (of_nat k)) = (unat h + k * k) mod 2 ^ 32"
      by (simp add: hashbucket_def unat_word_ariths unat_of_nat mod_simps)
    then show ?thesis using assms(1) by (simp add: probe_slot_def mod_mod_cancel)
  qed
  have "i * i < j * j" using assms(2) by (simp add: mult_strict_mono')
  moreover have "(unat h + i * i) mod n = (unat h + j * j) mod n \<Longrightarrow> (j * j - i * i) mod n = 0"
    using \<open>i * i < j * j\<close> by (metis add_diff_cancel_left mod_eq_dvd_iff_nat add_left_mono dvd_imp_mod_0 less_imp_le)
  ultimately show ?thesis using assms(3) by (auto simp: slot)
qed

lemma probe_terminates:
  assumes "n dvd 2 ^ 32" "length bk = n" "(length (filter (\<lambda>sid. sid \<noteq> 0) bk))\<^sup>2 < n"
    and "\<And>b. bk ! b = 0 \<Longrightarrow> stop b"
  shows "\<exists>b. probe stop h n 0 = Some b"
proof (rule ccontr)
  let ?m = "length (filter (\<lambda>sid. sid \<noteq> 0) bk)"
  assume "\<nexists>b. probe stop h n 0 = Some b"
  then have full: "bk ! probe_slot h n i \<noteq> 0" for i using probe_returns_iff [of stop h n] assms(4) by blast
  have "inj_on (\<lambda>i. probe_slot h n (of_nat i)) {0..?m}"
  proof (rule linorder_inj_onI')
    fix i j assume "i \<in> {0..?m}" "j \<in> {0..?m}" "i < j"
    then have "j * j < n" using assms(3) by (metis atLeastAtMost_iff le_less_trans mult_le_mono power2_eq_square)
    then show "probe_slot h n (of_nat i) \<noteq> probe_slot h n (of_nat j)"
      using probe_slot_distinct [OF assms(1) \<open>i < j\<close>] by simp
  qed
  moreover have "(\<lambda>i. probe_slot h n (of_nat i)) ` {0..?m} \<subseteq> {b. b < length bk \<and> bk ! b \<noteq> 0}"
    using full assms(2,3) by (auto intro: probe_slot_less)
  ultimately have "card {0..?m} \<le> card {b. b < length bk \<and> bk ! b \<noteq> 0}"
    by (rule card_inj_on_le) simp
  then show False by (simp add: length_filter_conv_card)
qed

lemma table_nonzero: "table_holds strs S bk \<Longrightarrow> length (filter (\<lambda>sid. sid \<noteq> 0) bk) = card S"
  by (metis mset_filter size_mset size_mset_set table_holds_def)

lemma small_load: "k\<^sup>2 < n \<Longrightarrow> 2 * k \<le> (n :: nat)"
proof (cases "k \<le> 1")
  case False
  then have "2 * k \<le> k\<^sup>2" by (simp add: power2_eq_square)
  then show "k\<^sup>2 < n \<Longrightarrow> ?thesis" by simp
qed (auto simp: le_Suc_eq)

text \<open>Adding without a resize returns as soon as the probe sequence has an empty bucket.\<close>

lemma rpmstrPoolId_returns_if:
  assumes "pool_wf pool" "pool_hash pool = Some ht" "2 * keyCount ht \<le> numBuckets ht"
    and "\<exists>i. buckets ht ! probe_slot (rstrhash s) (numBuckets ht) i = 0"
  shows "\<exists>pool' sid ht'. rpmstrPoolId pool (Some s) create = Some (pool', sid) \<and>
    pool_hash pool' = Some ht' \<and> numBuckets ht' = numBuckets ht"
proof -
  let ?h = "rstrhash s"
  have ret: "\<exists>b. probe stop ?h (numBuckets ht) 0 = Some b" if "\<And>b. buckets ht ! b = 0 \<Longrightarrow> stop b" for stop
    using assms(4) that probe_returns_iff by blast
  obtain g where g: "rpmstrPoolGet (offs pool) ht s (length s) ?h = Some g"
    using ret [of "\<lambda>b. buckets ht ! b = 0 \<or> (case id2str (offs pool) (buckets ht ! b) of
        None \<Rightarrow> False | Some t \<Rightarrow> key_matches s (length s) t)"]
    by (auto simp: rpmstrPoolGet_def)
  obtain b where b: "probe (\<lambda>b. buckets ht ! b = 0 \<or> id2str (offs pool @ [s]) (buckets ht ! b) = Some s)
      ?h (numBuckets ht) 0 = Some b"
    using ret [of "\<lambda>b. buckets ht ! b = 0 \<or> id2str (offs pool @ [s]) (buckets ht ! b) = Some s"] by auto
  have offs: "offs (pool_reserve n p) = offs p" for n p by (simp add: pool_reserve_def Let_def)
  have "\<exists>ht'. poolHashAddHEntry (offs pool @ [s]) ht s ?h (offs_size pool + 1) = Some ht'
      \<and> numBuckets ht' = numBuckets ht"
    using assms(3) b by (simp add: poolHashAddHEntry_def)
  then show ?thesis using assms(2) g
    by (auto simp: rpmstrPoolId_strn2id strn2id_def rpmstrPoolPut_def Let_def offs)
qed

lemma small_pool_returns:
  assumes "pool_wf pool" "pool_hash pool = Some ht" "numBuckets ht dvd 2 ^ 32" "(offs_size pool)\<^sup>2 < numBuckets ht"
  shows "\<exists>pool' sid ht'. rpmstrPoolId pool (Some s) create = Some (pool', sid) \<and>
    pool_hash pool' = Some ht' \<and> numBuckets ht' = numBuckets ht"
proof -
  have wf: "table_wf (offs pool) ht" using assms(1,2) by (simp add: pool_wf_def)
  then have "(length (filter (\<lambda>sid. sid \<noteq> 0) (buckets ht)))\<^sup>2 < numBuckets ht"
    using assms(4) table_nonzero [of "offs pool" "{1..offs_size pool}"] by (simp add: table_wf_def)
  then have "\<exists>b. probe (\<lambda>b. buckets ht ! b = 0) (rstrhash s) (numBuckets ht) 0 = Some b"
    using probe_terminates [OF assms(3), of "buckets ht" "\<lambda>b. buckets ht ! b = 0"] wf
    by (simp add: table_wf_def)
  then have "\<exists>i. buckets ht ! probe_slot (rstrhash s) (numBuckets ht) i = 0"
    by (auto simp: probe_Some_iff)
  moreover have "2 * keyCount ht \<le> numBuckets ht"
    using small_load [OF assms(4)] wf by (simp add: table_wf_def)
  ultimately show ?thesis using rpmstrPoolId_returns_if [OF assms(1,2)] by blast
qed

text \<open> C26: Looking up or adding a string in a well-formed pool returns whenever the square of the
  number of stored strings is below the (power of two) number of buckets.\<close>

theorem rpmstrPoolId_returns:
  assumes "pool_wf pool" "pool_hash pool = Some ht" "numBuckets ht dvd 2 ^ 32"
    and "(offs_size pool)\<^sup>2 < numBuckets ht"
  shows "\<exists>pool' sid. rpmstrPoolId pool (Some s) create = Some (pool', sid)"
  using small_pool_returns [OF assms] by blast

lemma rpmstrPoolCreate_eq:
  "rpmstrPoolCreate = Some \<lparr>offs = [], offs_alloced = 2048, chunks_size = 1, chunks_allocated = 1024,
     chunk_allocated = 65536, chunk_used = 0, pool_hash = Some (poolHashCreate 1024), frozen = False\<rparr>"
  by (simp add: rpmstrPoolCreate_def rpmstrPoolRehash_def)

lemma rpmstrPoolCreate_wf: "pool_wf (the rpmstrPoolCreate)"
  by (simp add: rpmstrPoolCreate_eq pool_wf_def table_wf_def table_holds_def poolHashCreate_def)

theorem rpmstrPoolId_returns_witness:
  "\<exists>pool' sid. rpmstrPoolId (the rpmstrPoolCreate) (Some ''bash'') True = Some (pool', sid)"
  by (rule rpmstrPoolId_returns [OF rpmstrPoolCreate_wf, of "poolHashCreate 1024"])
    (simp_all add: rpmstrPoolCreate_eq poolHashCreate_def)

theorem rpmstrPoolId_spec_witness:
  "\<exists>pool sid. rpmstrPoolId (the rpmstrPoolCreate) (Some ''bash'') True = Some (pool, sid)
     \<and> sid \<noteq> 0 \<and> rpmstrPoolStr (Some pool) sid = Some ''bash''"
proof -
  obtain pool sid where r: "rpmstrPoolId (the rpmstrPoolCreate) (Some ''bash'') True = Some (pool, sid)"
    using rpmstrPoolId_returns_if [OF rpmstrPoolCreate_wf, of "poolHashCreate 1024" "''bash''" True]
    by (auto simp: rpmstrPoolCreate_eq poolHashCreate_def probe_slot_def)
  from rpmstrPoolId_spec [OF rpmstrPoolCreate_wf this] r show ?thesis by (auto simp: rpmstrPoolCreate_eq)
qed

theorem rpmstrPoolId_injective_witness:
  "\<exists>p1 s1 p2 s2. rpmstrPoolId (the rpmstrPoolCreate) (Some ''bash'') True = Some (p1, s1)
     \<and> rpmstrPoolId p1 (Some ''bash'') False = Some (p2, s2) \<and> s1 \<noteq> 0 \<and> s1 = s2"
proof -
  have ex: "\<exists>pool' sid ht'. rpmstrPoolId (the rpmstrPoolCreate) (Some ''bash'') True = Some (pool', sid)
      \<and> pool_hash pool' = Some ht' \<and> numBuckets ht' = 1024"
    using rpmstrPoolId_returns_if [OF rpmstrPoolCreate_wf, of "poolHashCreate 1024" "''bash''" True]
    by (auto simp: rpmstrPoolCreate_eq poolHashCreate_def probe_slot_def)
  then obtain p1 s1 ht1 where r1: "rpmstrPoolId (the rpmstrPoolCreate) (Some ''bash'') True = Some (p1, s1)"
    and ht1: "pool_hash p1 = Some ht1" "numBuckets ht1 = 1024" by blast
  have wf1: "pool_wf p1" "s1 \<noteq> 0" "id2str (offs p1) s1 = Some ''bash''"
    using strn2id_wf [OF r1 [unfolded rpmstrPoolId_strn2id] rpmstrPoolCreate_wf]
    by (auto simp: rpmstrPoolCreate_eq)
  then have "rpmstrPoolGet (offs p1) ht1 ''bash'' (length ''bash'') (rstrhash (take (length ''bash'') ''bash'')) = Some s1"
    using ht1 by (intro rpmstrPoolGet_found [where S = "{1..offs_size p1}"])
      (auto simp: pool_wf_def table_wf_def id2str_def split: if_splits)
  then have r2: "rpmstrPoolId p1 (Some ''bash'') False = Some (p1, s1)"
    using ht1 by (simp add: rpmstrPoolId_strn2id strn2id_def)
  from rpmstrPoolId_injective [OF rpmstrPoolCreate_wf r1 wf1(2) r2 wf1(2)] r1 r2 wf1(2)
  show ?thesis by blast
qed

theorem rpmstrPoolIdn_prefix_witness:
  "rpmstrPoolIdn (the rpmstrPoolCreate) (Some ''glibc-2.40'') 5 True
     = rpmstrPoolId (the rpmstrPoolCreate) (Some ''glibc'') True"
  using rpmstrPoolIdn_prefix [of 5 "''glibc-2.40''" "the rpmstrPoolCreate" True] by simp

subsection \<open>Reachable pools and the endless probe\<close>

inductive pool_reachable :: "rpmstrPool \<Rightarrow> bool" where
  create: "rpmstrPoolCreate = Some pool \<Longrightarrow> pool_reachable pool"
| id: "pool_reachable pool \<Longrightarrow> rpmstrPoolId pool str flag = Some (pool', sid) \<Longrightarrow> pool_reachable pool'"
| freeze: "pool_reachable pool \<Longrightarrow> pool_reachable (rpmstrPoolFreeze pool keep)"
| unfreeze: "pool_reachable pool \<Longrightarrow> rpmstrPoolUnfreeze pool = Some pool' \<Longrightarrow> pool_reachable pool'"

text \<open>Strings added one after the other.\<close>

fun pool_add_all :: "rpmstrPool \<Rightarrow> cstr list \<Rightarrow> rpmstrPool option" where
  "pool_add_all pool [] = Some pool"
| "pool_add_all pool (s # ss) =
     (case rpmstrPoolId pool (Some s) True of None \<Rightarrow> None | Some (pool, _) \<Rightarrow> pool_add_all pool ss)"

lemma pool_add_all_snoc:
  "pool_add_all pool (ss @ [s]) =
     (case pool_add_all pool ss of None \<Rightarrow> None | Some pool \<Rightarrow> map_option fst (rpmstrPoolId pool (Some s) True))"
  by (induction ss arbitrary: pool) (auto split: option.splits)

abbreviation colliding :: "u32 \<Rightarrow> cstr set" where
  "colliding c \<equiv> {s. NUL \<notin> set s \<and> rstrhash s = c}"

lemma infinite_hash_class: "\<exists>c. infinite (colliding c)"
proof -
  have "inj (\<lambda>n. replicate n CHR ''a'')" by (rule injI) (metis length_replicate)
  then have "infinite (range (\<lambda>n. replicate n CHR ''a''))" using finite_imageD infinite_UNIV_nat by blast
  moreover have "range (\<lambda>n. replicate n CHR ''a'') \<subseteq> {s. NUL \<notin> set s}" by auto
  ultimately have "infinite {s :: cstr. NUL \<notin> set s}" by (rule infinite_super [rotated])
  then show ?thesis using pigeonhole_infinite [of "{s. NUL \<notin> set s}" rstrhash] by auto
qed

abbreviation slots :: "u32 \<Rightarrow> nat set" where
  "slots c \<equiv> range (probe_slot c 1024)"

text \<open>A square is 1 modulo 8 or 0 modulo 4, so that less than half of the buckets are probed.\<close>

lemma square_mod: "(k * k) mod 1024 \<in> (\<lambda>x. 8 * x + 1) ` {..<128} \<union> (\<lambda>x. 4 * x) ` {..<(256 :: nat)}"
proof -
  define r where "r = (k * k) mod 1024"
  define q where "q = r div 8"
  have "r mod 8 = ((k mod 8) * (k mod 8)) mod 8" by (simp add: r_def mod_mod_cancel mod_mult_eq)
  moreover have "k mod 8 \<in> {0, 1, 2, 3, 4, 5, 6, 7}" by (simp, linarith)
  ultimately have m: "r mod 8 = 1 \<or> r mod 8 = 0 \<or> r mod 8 = 4" by auto
  have r: "r = 8 * q + r mod 8" "q < 128" by (simp_all add: q_def r_def less_mult_imp_div_less)
  from m show ?thesis
  proof (elim disjE)
    assume "r mod 8 = 1"
    then show ?thesis using r unfolding r_def [symmetric] by auto
  next
    assume "r mod 8 = 0"
    then have "r = 4 * (2 * q)" using r by simp
    moreover have "2 * q < 256" using r(2) by simp
    ultimately show ?thesis unfolding r_def [symmetric] by blast
  next
    assume "r mod 8 = 4"
    then have "r = 4 * (2 * q + 1)" using r by simp
    moreover have "2 * q + 1 < 256" using r(2) by simp
    ultimately show ?thesis unfolding r_def [symmetric] by blast
  qed
qed

lemma card_slots: "card (slots c) \<le> 384"
proof -
  let ?R = "(\<lambda>x. 8 * x + 1) ` {..<128} \<union> (\<lambda>x. 4 * x) ` {..<(256 :: nat)}"
  have "probe_slot c 1024 i = (unat c + unat i * unat i) mod 1024" for i
    by (simp add: probe_slot_def hashbucket_def unat_word_ariths mod_simps mod_mod_cancel)
  then have "probe_slot c 1024 i = (unat c + (unat i * unat i) mod 1024) mod 1024" for i by (simp add: mod_add_right_eq)
  then have "slots c \<subseteq> (\<lambda>r. (unat c + r) mod 1024) ` ?R" using square_mod by auto
  then have "card (slots c) \<le> card ((\<lambda>r. (unat c + r) mod 1024) ` ?R)" by (intro card_mono) auto
  also have "\<dots> \<le> card ?R" by (rule card_image_le) simp
  also have "\<dots> \<le> card ((\<lambda>x. 8 * x + 1) ` {..<(128 :: nat)}) + card ((\<lambda>x. 4 * x) ` {..<(256 :: nat)})" by (rule card_Un_le)
  also have "\<dots> \<le> 128 + 256"
    using card_image_le [of "{..<128}" "\<lambda>x. 8 * x + (1 :: nat)"] card_image_le [of "{..<256}" "\<lambda>x. 4 * x :: nat"] by simp
  finally show ?thesis by simp
qed

lemma slots_free_or_full:
  assumes holds: "table_holds strs S bk" and hash: "\<forall>s \<in> set strs. rstrhash s = c"
    and len: "length bk = 1024"
  shows "card S < card (slots c) \<Longrightarrow> \<exists>i. bk ! probe_slot c 1024 i = 0"
    and "card S = card (slots c) \<Longrightarrow> bk ! probe_slot c 1024 i \<noteq> 0"
proof -
  have fin: "finite (slots c)" by (rule finite_subset [of _ "{..<1024}"]) (auto intro: probe_slot_less)
  show "\<exists>i. bk ! probe_slot c 1024 i = 0" if less: "card S < card (slots c)"
  proof (rule ccontr)
    assume "\<nexists>i. bk ! probe_slot c 1024 i = 0"
    then have "slots c \<subseteq> {b. b < length bk \<and> bk ! b \<noteq> 0}" by (auto simp: len intro: probe_slot_less)
    then have "card (slots c) \<le> card {b. b < length bk \<and> bk ! b \<noteq> 0}" by (intro card_mono) auto
    also have "\<dots> = card S" using table_nonzero [OF holds] by (simp add: length_filter_conv_card)
    finally show False using less by simp
  qed
  show "bk ! probe_slot c 1024 i \<noteq> 0" if eq: "card S = card (slots c)"
  proof -
    have "\<exists>b \<in> slots c. bk ! b = sid" if "sid \<in> S" for sid
    proof -
      have "sid_str strs sid \<in> set strs" using holds that by (intro nth_mem) (fastforce simp: table_holds_def)
      then have "rstrhash (sid_str strs sid) = c" using hash by blast
      then show ?thesis using holds that len by (auto simp: table_holds_def chain_ok_def)
    qed
    then obtain f where f: "\<And>sid. sid \<in> S \<Longrightarrow> f sid \<in> slots c \<and> bk ! f sid = sid" by metis
    then have "inj_on f S" by (metis inj_onI)
    then have "f ` S = slots c" using f eq fin by (intro card_subset_eq) (auto simp: card_image)
    then obtain sid where "sid \<in> S" "probe_slot c 1024 i = f sid" by blast
    then show ?thesis using f holds by (auto simp: table_holds_def)
  qed
qed

lemma colliding_pool:
  assumes K: "infinite (colliding c)" and "k \<le> card (slots c)"
  shows "\<exists>ss pool ht. set ss \<subseteq> colliding c \<and> pool_add_all (the rpmstrPoolCreate) ss = Some pool \<and>
    pool_wf pool \<and> \<not> frozen pool \<and> pool_hash pool = Some ht \<and>
    numBuckets ht = 1024 \<and> offs_size pool = k \<and> (\<forall>s \<in> set (offs pool). rstrhash s = c)"
  using assms(2)
proof (induction k)
  case 0
  show ?case
    by (rule exI [of _ "[]"], rule exI [of _ "the rpmstrPoolCreate"], rule exI [of _ "poolHashCreate 1024"])
      (use rpmstrPoolCreate_wf in \<open>simp add: rpmstrPoolCreate_eq poolHashCreate_def\<close>)
next
  case (Suc k)
  then obtain ss pool ht where p: "set ss \<subseteq> colliding c \<and> pool_add_all (the rpmstrPoolCreate) ss = Some pool"
    "pool_wf pool" "\<not> frozen pool" "pool_hash pool = Some ht" "numBuckets ht = 1024" "offs_size pool = k"
    "\<forall>s \<in> set (offs pool). rstrhash s = c" by auto
  obtain s where s: "rstrhash s = c" "s \<notin> set (offs pool)" "NUL \<notin> set s"
    using infinite_imp_nonempty [OF Diff_infinite_finite [OF _ K, of "set (offs pool)"]] by auto
  have tab: "table_holds (offs pool) {1..k} (buckets ht)" "length (buckets ht) = 1024" "keyCount ht = k"
    using p by (auto simp: pool_wf_def table_wf_def)
  have "\<exists>i. buckets ht ! probe_slot (rstrhash s) (numBuckets ht) i = 0"
    using slots_free_or_full(1) [OF tab(1) p(7) tab(2)] Suc.prems s(1) p(5) by simp
  moreover have "2 * keyCount ht \<le> numBuckets ht" using Suc.prems card_slots [of c] tab(3) p(5) by simp
  ultimately obtain pool' sid ht' where r: "rpmstrPoolId pool (Some s) True = Some (pool', sid)"
    "pool_hash pool' = Some ht'" "numBuckets ht' = 1024"
    using rpmstrPoolId_returns_if [OF p(2,4), of s True] p(5) by auto
  then have r': "rpmstrPoolPut pool s (rstrhash s) = Some (pool', sid)"
    using rpmstrPoolGet_not_found [of "offs pool" ht s "length s" "rstrhash s"] p(3,4) s(2)
    by (auto simp: rpmstrPoolId_strn2id strn2id_def split: option.splits if_splits)
  have "set (ss @ [s]) \<subseteq> colliding c" "pool_add_all (the rpmstrPoolCreate) (ss @ [s]) = Some pool'"
    using p(1) s r(1) by (auto simp: pool_add_all_snoc)
  with rpmstrPoolPut_wf [OF r' p(2) s(2)] p s r show ?case
    by (intro exI [of _ "ss @ [s]"] exI [of _ pool'] exI [of _ ht']) auto
qed

text \<open> C27: Quadratic probing does not reach every bucket, so a lookup need not end: there are C strings which, added to
  a new pool one after the other, give a table of which at most 384 of the 1024 buckets are used, so that no resize is
  due, and another C string for which \<open>rpmstrPoolId\<close> probes full buckets forever.\<close>

theorem rpmstrPoolId_can_loop:
  "\<exists>ss pool ht s. NUL \<notin> set (concat (s # ss)) \<and> pool_add_all (the rpmstrPoolCreate) ss = Some pool \<and>
     pool_hash pool = Some ht \<and> numBuckets ht = 1024 \<and> keyCount ht \<le> 384 \<and> rpmstrPoolId pool (Some s) create = None"
proof -
  obtain c where K: "infinite (colliding c)" using infinite_hash_class by blast
  obtain ss pool ht where p: "set ss \<subseteq> colliding c \<and> pool_add_all (the rpmstrPoolCreate) ss = Some pool" "pool_wf pool" "\<not> frozen pool"
    "pool_hash pool = Some ht" "numBuckets ht = 1024" "offs_size pool = card (slots c)"
    "\<forall>s \<in> set (offs pool). rstrhash s = c" using colliding_pool [OF K order_refl] by blast
  obtain s where s: "rstrhash s = c" "s \<notin> set (offs pool)" "NUL \<notin> set s"
    using infinite_imp_nonempty [OF Diff_infinite_finite [OF _ K, of "set (offs pool)"]] by auto
  have tab: "table_holds (offs pool) {1..card (slots c)} (buckets ht)" "length (buckets ht) = 1024"
      "keyCount ht = card (slots c)"
    using p by (auto simp: pool_wf_def table_wf_def)
  have "rpmstrPoolGet (offs pool) ht s (length s) c = None"
  proof (rule ccontr)
    assume "\<not> ?thesis"
    then obtain sid where g: "rpmstrPoolGet (offs pool) ht s (length s) c = Some sid" by auto
    then have "sid = 0" using rpmstrPoolGet_not_found s(2) by fastforce
    with g obtain i where "buckets ht ! probe_slot c 1024 i = 0"
      using p(5) by (auto simp: rpmstrPoolGet_def probe_Some_iff)
    then show False using slots_free_or_full(2) [OF tab(1) p(7) tab(2)] by simp
  qed
  then have "rpmstrPoolId pool (Some s) create = None"
    using p(4) s(1) by (simp add: rpmstrPoolId_strn2id strn2id_def)
  then show ?thesis using p s(3) tab(3) card_slots [of c]
    by (intro exI [of _ ss] exI [of _ pool] exI [of _ ht] exI [of _ s]) auto
qed

subsection \<open>Memory bookkeeping\<close>

text \<open>Every index the pool writes is inside its arrays: \<open>offs[offs_size]\<close>, \<open>chunks[chunks_size]\<close>
  and the current chunk.\<close>

definition memory_ok :: "rpmstrPool \<Rightarrow> bool" where
  "memory_ok pool \<longleftrightarrow> offs_size pool < offs_alloced pool \<and> chunks_size pool < chunks_allocated pool
     \<and> 1 < chunks_allocated pool \<and> chunk_used pool \<le> chunk_allocated pool"

lemma memory_reserve:
  "memory_ok pool \<Longrightarrow> memory_ok (pool_reserve n pool) \<and> n \<le> chunk_used (pool_reserve n pool)"
  by (auto simp: memory_ok_def pool_reserve_def Let_def)

lemma reserve_offs: "offs (pool_reserve n p) = offs p" "offs_alloced (pool_reserve n p) = offs_alloced p"
  by (simp_all add: pool_reserve_def Let_def)

lemma memory_put: "memory_ok pool \<Longrightarrow> rpmstrPoolPut pool key h = Some (pool', sid) \<Longrightarrow> memory_ok pool'"
proof -
  assume ok: "memory_ok pool" and put: "rpmstrPoolPut pool key h = Some (pool', sid)"
  define p where "p = pool\<lparr>offs_alloced := (if offs_alloced pool \<le> offs_size pool + 1
     then offs_alloced pool + 2048 else offs_alloced pool)\<rparr>"
  define q where "q = pool_reserve (length key + 1) p"
  have p: "memory_ok p" "offs p = offs pool" "offs_size pool + 1 < offs_alloced p"
    using ok by (auto simp: p_def memory_ok_def)
  have q: "memory_ok q" "offs q = offs pool" "offs_alloced q = offs_alloced p"
    using memory_reserve [OF p(1)] by (simp_all add: q_def p(2) reserve_offs)
  obtain ht where "pool' = q\<lparr>offs := offs q @ [key], pool_hash := Some ht\<rparr>"
    using put by (auto simp: rpmstrPoolPut_def Let_def p_def q_def split: option.splits)
  then show ?thesis using q p(3) by (simp add: memory_ok_def)
qed

lemma memory_rehash: "rpmstrPoolRehash pool = Some pool' \<Longrightarrow> memory_ok pool' = memory_ok pool"
  by (auto simp: rpmstrPoolRehash_def memory_ok_def Let_def)

text \<open> C25: In every reachable pool the string array, the chunk array and the current chunk are large
  enough for what has been stored, the strings are pairwise different and the table is well-formed.\<close>

theorem pool_reachable_invariant:
  "pool_reachable pool \<Longrightarrow> pool_wf pool \<and> memory_ok pool"
proof (induction rule: pool_reachable.induct)
  case (create pool)
  then show ?case using rpmstrPoolCreate_wf by (auto simp: rpmstrPoolCreate_eq memory_ok_def)
next
  case (id pool str flag pool' sid)
  show ?case
  proof (cases str)
    case None
    then show ?thesis using id by (simp add: rpmstrPoolId_def)
  next
    case (Some s)
    with id have r: "strn2id pool s (length s) (rstrhash (take (length s) s)) flag = Some (pool', sid)"
      by (simp add: rpmstrPoolId_strn2id)
    then have "pool_wf pool'" using strn2id_wf id.IH by blast
    moreover have "memory_ok pool'"
      using r id.IH memory_put by (auto simp: strn2id_def split: option.splits if_splits)
    ultimately show ?thesis by simp
  qed
next
  case (freeze pool keep)
  then show ?case
    by (auto simp: rpmstrPoolFreeze_def pool_wf_def memory_ok_def split: option.splits)
next
  case (unfreeze pool pool')
  have *: "pool_wf (p\<lparr>frozen := False\<rparr>) = pool_wf p" "memory_ok (p\<lparr>frozen := False\<rparr>) = memory_ok p" for p
    by (cases "pool_hash p"; simp add: pool_wf_def memory_ok_def)+
  show ?case using unfreeze rpmstrPoolRehash_wf [of pool] memory_rehash [of pool]
    by (auto simp: rpmstrPoolUnfreeze_def * split: if_splits) (auto simp: pool_wf_def)
qed

theorem pool_reachable_invariant_witness:
  "pool_wf (rpmstrPoolFreeze (the rpmstrPoolCreate) True)
     \<and> memory_ok (rpmstrPoolFreeze (the rpmstrPoolCreate) True)"
  by (rule pool_reachable_invariant)
    (rule pool_reachable.freeze, rule pool_reachable.create, simp add: rpmstrPoolCreate_eq)


subsection \<open>The interface of a pool\<close>

text \<open>What the users of a pool rely on: in an open (unfrozen, hashed) well-formed pool interning
  yields an id that names the string, keeps all earlier names, and ids name different strings.\<close>

locale intern_pool =
  fixes wf :: "'p \<Rightarrow> bool" and is_open :: "'p \<Rightarrow> bool" and name_of :: "'p \<Rightarrow> nat \<Rightarrow> cstr option"
    and intern :: "'p \<Rightarrow> cstr \<Rightarrow> ('p \<times> nat) option"
  assumes intern_open: "wf p \<Longrightarrow> is_open p \<Longrightarrow> intern p s = Some (p', sid) \<Longrightarrow> wf p' \<and> is_open p'"
    and intern_names: "wf p \<Longrightarrow> is_open p \<Longrightarrow> intern p s = Some (p', sid) \<Longrightarrow> name_of p' sid = Some s"
    and intern_keeps: "wf p \<Longrightarrow> is_open p \<Longrightarrow> intern p s = Some (p', sid) \<Longrightarrow>
          name_of p i = Some t \<Longrightarrow> name_of p' i = Some t"
    and name_inj: "wf p \<Longrightarrow> name_of p i = Some t \<Longrightarrow> name_of p j = Some t \<Longrightarrow> i = j"
begin

fun intern_all :: "'p \<Rightarrow> cstr list \<Rightarrow> ('p \<times> nat list) option" where
  "intern_all p [] = Some (p, [])"
| "intern_all p (s # ss) =
     (case intern p s of None \<Rightarrow> None
      | Some (p, sid) \<Rightarrow>
        (case intern_all p ss of None \<Rightarrow> None | Some (p, sids) \<Rightarrow> Some (p, sid # sids)))"

lemma intern_all_names:
  "wf p \<Longrightarrow> is_open p \<Longrightarrow> intern_all p ss = Some (p', sids) \<Longrightarrow>
   wf p' \<and> is_open p' \<and> map (name_of p') sids = map Some ss \<and>
   (\<forall>i t. name_of p i = Some t \<longrightarrow> name_of p' i = Some t)"
proof (induction ss arbitrary: p sids)
  case (Cons s ss)
  from Cons.prems(3) obtain q sid rest where q: "intern p s = Some (q, sid)"
    "intern_all q ss = Some (p', rest)" "sids = sid # rest"
    by (auto split: option.splits prod.splits)
  then show ?case
    using Cons.IH [of q rest] intern_open [OF Cons.prems(1,2) q(1)]
      intern_names [OF Cons.prems(1,2) q(1)] intern_keeps [OF Cons.prems(1,2) q(1)] by auto
qed auto

end

lemma intern_size: "rpmstrPoolId pool (Some s) create = Some (pool', sid) \<Longrightarrow> offs_size pool' \<le> Suc (offs_size pool)"
  by (auto simp: rpmstrPoolId_strn2id strn2id_def rpmstrPoolPut_def Let_def reserve_offs split: option.splits if_splits)

lemma strn2id_stays_open:
  assumes "strn2id pool s slen (rstrhash (take slen s)) create = Some (pool', sid)" "pool_wf pool"
    "slen \<le> length s"
  shows "frozen pool' = frozen pool \<and> (pool_hash pool \<noteq> None \<longrightarrow> pool_hash pool' \<noteq> None)"
proof (cases "pool_hash pool")
  case (Some ht)
  then obtain g where g: "rpmstrPoolGet (offs pool) ht s slen (rstrhash (take slen s)) = Some g"
    using assms(1) by (auto simp: strn2id_def split: option.splits)
  show ?thesis
  proof (cases "g = 0 \<and> create \<and> \<not> frozen pool")
    case True
    then have put: "rpmstrPoolPut pool (take slen s) (rstrhash (take slen s)) = Some (pool', sid)"
      using assms(1) Some g by (simp add: strn2id_def)
    have "take slen s \<notin> set (offs pool)"
    proof
      assume "take slen s \<in> set (offs pool)"
      then obtain i where i: "i < offs_size pool" "offs pool ! i = take slen s" by (auto simp: in_set_conv_nth)
      have "rpmstrPoolGet (offs pool) ht s slen (rstrhash (take slen s)) = Some (Suc i)"
        using assms(2,3) Some i by (intro rpmstrPoolGet_found [where S = "{1..offs_size pool}"])
          (auto simp: pool_wf_def table_wf_def)
      with g True show False by simp
    qed
    from rpmstrPoolPut_wf [OF put assms(2) this] show ?thesis by simp
  next
    case False
    then show ?thesis using assms(1) Some g by (auto simp: strn2id_def split: if_splits)
  qed
qed (use assms(1) in \<open>simp add: strn2id_def\<close>)

abbreviation pool_open :: "rpmstrPool \<Rightarrow> bool" where
  "pool_open pool \<equiv> \<not> frozen pool \<and> pool_hash pool \<noteq> None"

interpretation strpool: intern_pool pool_wf pool_open "\<lambda>p. id2str (offs p)"
  "\<lambda>p s. rpmstrPoolId p (Some s) True"
proof
  fix p s p' sid i j t
  assume p: "pool_wf p" "pool_open p" and r: "rpmstrPoolId p (Some s) True = Some (p', sid)"
  have "strn2id p s (length s) (rstrhash (take (length s) s)) True = Some (p', sid)"
    using r by (simp add: rpmstrPoolId_strn2id)
  from strn2id_wf [OF this p(1)] strn2id_stays_open [OF this p(1)] p(2)
  have facts: "pool_wf p'" "\<exists>added. offs p' = offs p @ added" "id2str (offs p') sid = Some s"
    "pool_open p'" by auto
  show "pool_wf p' \<and> pool_open p'" using facts by simp
  show "id2str (offs p') sid = Some s" using facts by simp
  show "id2str (offs p) i = Some t \<Longrightarrow> id2str (offs p') i = Some t"
    using facts(2) by (auto simp: id2str_def nth_append split: if_splits)
next
  fix p i j t
  show "pool_wf p \<Longrightarrow> id2str (offs p) i = Some t \<Longrightarrow> id2str (offs p) j = Some t \<Longrightarrow> i = j"
    using sid_str_inj [of "offs p" i j] by (auto simp: id2str_def pool_wf_def split: if_splits)
qed

text \<open>A pool that has some strings.\<close>

lemma interned_pool:
  assumes "length ss \<le> 31"
  shows "\<exists>pool. pool_wf pool \<and> pool_open pool \<and> set ss \<subseteq> set (offs pool)"
proof -
  have "\<exists>pool ht. pool_wf pool \<and> pool_open pool \<and> pool_hash pool = Some ht \<and> numBuckets ht = 1024 \<and>
      offs_size pool \<le> length ss \<and> set ss \<subseteq> set (offs pool)"
    using assms
  proof (induction ss)
    case Nil
    show ?case using rpmstrPoolCreate_wf
      by (intro exI [of _ "the rpmstrPoolCreate"] exI [of _ "poolHashCreate 1024"]) (simp add: rpmstrPoolCreate_eq poolHashCreate_def)
  next
    case (Cons s ss)
    then obtain pool ht where p: "pool_wf pool" "pool_open pool" "pool_hash pool = Some ht" "numBuckets ht = 1024"
      "offs_size pool \<le> length ss" "set ss \<subseteq> set (offs pool)" by auto
    have "(offs_size pool)\<^sup>2 \<le> 30\<^sup>2" using p(5) Cons.prems by (intro power_mono) simp_all
    then obtain pool' sid ht' where r: "rpmstrPoolId pool (Some s) True = Some (pool', sid)" "pool_hash pool' = Some ht'" "numBuckets ht' = 1024"
      using small_pool_returns [OF p(1,3), of s True] p(4) by auto
    have "offs_size pool' \<le> Suc (offs_size pool)" by (rule intern_size [OF r(1)])
    moreover have "id2str (offs pool') sid = Some s" by (rule strpool.intern_names [OF p(1,2) r(1)])
    then have "s \<in> set (offs pool')" by (rule id2str_in_set)
    moreover have "set (offs pool) \<subseteq> set (offs pool')"
      using strn2id_wf [OF r(1) [unfolded rpmstrPoolId_strn2id] p(1)] by auto
    ultimately show ?case using strpool.intern_open [OF p(1,2) r(1)] r(2,3) p(5,6)
      by (intro exI [of _ pool'] exI [of _ ht']) auto
  qed
  then show ?thesis by blast
qed

text \<open>A string that the pool has is found, and nothing changes.\<close>

lemma intern_present:
  assumes "pool_wf pool" "pool_open pool" "id2str (offs pool) sid = Some s"
  shows "rpmstrPoolId pool (Some s) True = Some (pool, sid)"
proof -
  obtain ht where ht: "pool_hash pool = Some ht" using assms(2) by auto
  have sid: "0 < sid" "sid \<le> offs_size pool" "sid_str (offs pool) sid = s" using assms(3) by (auto simp: id2str_def split: if_splits)
  have "rpmstrPoolGet (offs pool) ht s (length s) (rstrhash s) = Some sid"
    using rpmstrPoolGet_found [of "offs pool" "{1..offs_size pool}" ht sid "length s" s] assms(1) ht sid
    by (auto simp: pool_wf_def table_wf_def)
  then show ?thesis using ht sid(1) by (simp add: rpmstrPoolId_strn2id strn2id_def)
qed

end
