(* ===== verification/Rpmds.thy ===== *)
theory Rpmds
  imports Rpmver Strpool Base64 "HOL-Library.Monad_Syntax"
begin

text \<open>
  Dependency sets, lib/rpmds.cc (rich dependencies are in the theory Richdep).

  A dependency set names its strings by ids of a string pool that it shares with other sets, so the
  pools are an explicit store: the list of all pools, a pool handle being a position in it.  The
  operations that intern strings return the new store; their value \<open>None\<close> is an endless probe of
  the pool's hash table.  A set that may be NULL is an option; dereferencing a NULL string is
  \<open>the None\<close>, about which nothing can be proved.
\<close>

type_synonym rpmTagVal = nat
type_synonym pools = "rpmstrPool list"

abbreviation RPMTAG_PROVIDENAME :: rpmTagVal where "RPMTAG_PROVIDENAME \<equiv> 1047"
abbreviation RPMTAG_REQUIREFLAGS :: rpmTagVal where "RPMTAG_REQUIREFLAGS \<equiv> 1048"
abbreviation RPMTAG_REQUIRENAME :: rpmTagVal where "RPMTAG_REQUIRENAME \<equiv> 1049"
abbreviation RPMTAG_REQUIREVERSION :: rpmTagVal where "RPMTAG_REQUIREVERSION \<equiv> 1050"
abbreviation RPMTAG_CONFLICTFLAGS :: rpmTagVal where "RPMTAG_CONFLICTFLAGS \<equiv> 1053"
abbreviation RPMTAG_CONFLICTNAME :: rpmTagVal where "RPMTAG_CONFLICTNAME \<equiv> 1054"
abbreviation RPMTAG_CONFLICTVERSION :: rpmTagVal where "RPMTAG_CONFLICTVERSION \<equiv> 1055"
abbreviation RPMTAG_TRIGGERNAME :: rpmTagVal where "RPMTAG_TRIGGERNAME \<equiv> 1066"
abbreviation RPMTAG_OBSOLETENAME :: rpmTagVal where "RPMTAG_OBSOLETENAME \<equiv> 1090"
abbreviation RPMTAG_ORDERNAME :: rpmTagVal where "RPMTAG_ORDERNAME \<equiv> 5035"
abbreviation RPMTAG_RECOMMENDNAME :: rpmTagVal where "RPMTAG_RECOMMENDNAME \<equiv> 5046"
abbreviation RPMTAG_SUGGESTNAME :: rpmTagVal where "RPMTAG_SUGGESTNAME \<equiv> 5049"
abbreviation RPMTAG_SUPPLEMENTNAME :: rpmTagVal where "RPMTAG_SUPPLEMENTNAME \<equiv> 5052"
abbreviation RPMTAG_ENHANCENAME :: rpmTagVal where "RPMTAG_ENHANCENAME \<equiv> 5055"
abbreviation RPMTAG_FILETRIGGERNAME :: rpmTagVal where "RPMTAG_FILETRIGGERNAME \<equiv> 5069"
abbreviation RPMTAG_TRANSFILETRIGGERNAME :: rpmTagVal where "RPMTAG_TRANSFILETRIGGERNAME \<equiv> 5079"

record rpmds =
  ds_pool :: nat
  ds_Type :: cstr
  ds_DNEVR :: cstr
  ds_N :: "nat list"
  ds_EVR :: "nat list"
  ds_Flags :: "rpmsenseFlags list"
  ds_Color :: "u32 list"
  ds_tagN :: rpmTagVal
  ds_Count :: int
  ds_instance :: nat
  ds_i :: int
  ds_ti :: "int list"

subsection \<open>Dependency types\<close>

record depinfo =
  typeTag :: rpmTagVal
  evrTag :: rpmTagVal
  flagTag :: rpmTagVal
  ixTag :: rpmTagVal
  di_name :: cstr
  di_abrev :: char

abbreviation depinfo_row ::
    "rpmTagVal \<Rightarrow> rpmTagVal \<Rightarrow> rpmTagVal \<Rightarrow> rpmTagVal \<Rightarrow> cstr \<Rightarrow> char \<Rightarrow> depinfo" where
  "depinfo_row t e f x n a \<equiv>
     \<lparr>typeTag = t, evrTag = e, flagTag = f, ixTag = x, di_name = n, di_abrev = a\<rparr>"

definition depTypes :: "depinfo list" where
  "depTypes =
    [depinfo_row 1047 1113 1112 0 ''Provides'' (CHR ''P''),
     depinfo_row 1049 1050 1048 0 ''Requires'' (CHR ''R''),
     depinfo_row 1054 1055 1053 0 ''Conflicts'' (CHR ''C''),
     depinfo_row 1090 1115 1114 0 ''Obsoletes'' (CHR ''O''),
     depinfo_row 5052 5053 5054 0 ''Supplements'' (CHR ''S''),
     depinfo_row 5055 5056 5057 0 ''Enhances'' (CHR ''e''),
     depinfo_row 5046 5047 5048 0 ''Recommends'' (CHR ''r''),
     depinfo_row 5049 5050 5051 0 ''Suggests'' (CHR ''s''),
     depinfo_row 5035 5036 5037 0 ''Order'' (CHR ''o''),
     depinfo_row 1066 1067 1068 1069 ''Trigger'' (CHR ''t''),
     depinfo_row 5069 5071 5072 5070 ''FileTrigger'' (CHR ''f''),
     depinfo_row 5079 5081 5082 5080 ''TransFileTrigger'' (CHR ''F''),
     depinfo_row 1156 1157 1158 0 ''Oldsuggests'' (CHR ''?''),
     depinfo_row 1159 1160 1161 0 ''Oldenhances'' (CHR ''?'')]"

definition depinfoByTag :: "rpmTagVal \<Rightarrow> depinfo option" where
  "depinfoByTag tag = find (\<lambda>dse. tag = typeTag dse) depTypes"

definition depinfoByAbrev :: "char \<Rightarrow> depinfo option" where
  "depinfoByAbrev abrev = find (\<lambda>dse. abrev = di_abrev dse) depTypes"

text \<open>\<open>dsType\<close> with its out parameters as the result; \<open>None\<close> is the return value 1.\<close>

definition dsType :: "rpmTagVal \<Rightarrow> (cstr \<times> rpmTagVal \<times> rpmTagVal \<times> rpmTagVal) option" where
  "dsType tag = map_option (\<lambda>di. (di_name di, evrTag di, flagTag di, ixTag di)) (depinfoByTag tag)"

definition tagNToChar :: "rpmTagVal \<Rightarrow> char" where
  "tagNToChar tagN = (case depinfoByTag tagN of None \<Rightarrow> NUL | Some di \<Rightarrow> di_abrev di)"

definition rpmdsDToTagN :: "char \<Rightarrow> rpmTagVal" where
  "rpmdsDToTagN deptype = (case depinfoByAbrev deptype of None \<Rightarrow> 0 | Some di \<Rightarrow> typeTag di)"

subsection \<open>Access by index\<close>

abbreviation pool_str :: "pools \<Rightarrow> nat \<Rightarrow> nat \<Rightarrow> cstr option" where
  "pool_str st p sid \<equiv> rpmstrPoolStr (Some (st ! p)) sid"

definition rpmdsNIdIndex :: "rpmds option \<Rightarrow> int \<Rightarrow> nat" where
  "rpmdsNIdIndex dsp i =
     (case dsp of None \<Rightarrow> 0
      | Some ds \<Rightarrow> if i \<ge> 0 \<and> i < int (length (ds_N ds)) then ds_N ds ! nat i else 0)"

definition rpmdsEVRIdIndex :: "rpmds option \<Rightarrow> int \<Rightarrow> nat" where
  "rpmdsEVRIdIndex dsp i =
     (case dsp of None \<Rightarrow> 0
      | Some ds \<Rightarrow> if i \<ge> 0 \<and> i < int (length (ds_EVR ds)) then ds_EVR ds ! nat i else 0)"

definition rpmdsNIndex :: "pools \<Rightarrow> rpmds option \<Rightarrow> int \<Rightarrow> cstr option" where
  "rpmdsNIndex st dsp i =
     (case dsp of None \<Rightarrow> None
      | Some ds \<Rightarrow>
          if i \<ge> 0 \<and> i < int (length (ds_N ds)) then pool_str st (ds_pool ds) (ds_N ds ! nat i)
          else None)"

definition rpmdsEVRIndex :: "pools \<Rightarrow> rpmds option \<Rightarrow> int \<Rightarrow> cstr option" where
  "rpmdsEVRIndex st dsp i =
     (case dsp of None \<Rightarrow> None
      | Some ds \<Rightarrow>
          if i \<ge> 0 \<and> i < int (length (ds_EVR ds)) then pool_str st (ds_pool ds) (ds_EVR ds ! nat i)
          else None)"

definition rpmdsFlagsIndex :: "rpmds option \<Rightarrow> int \<Rightarrow> rpmsenseFlags" where
  "rpmdsFlagsIndex dsp i =
     (case dsp of None \<Rightarrow> 0
      | Some ds \<Rightarrow> if i \<ge> 0 \<and> i < int (length (ds_Flags ds)) then ds_Flags ds ! nat i else 0)"

definition rpmdsTiIndex :: "rpmds option \<Rightarrow> int \<Rightarrow> int" where
  "rpmdsTiIndex dsp i =
     (case dsp of None \<Rightarrow> -1
      | Some ds \<Rightarrow> if i \<ge> 0 \<and> i < int (length (ds_ti ds)) then ds_ti ds ! nat i else -1)"

definition rpmdsColorIndex :: "rpmds option \<Rightarrow> int \<Rightarrow> u32" where
  "rpmdsColorIndex dsp i =
     (case dsp of None \<Rightarrow> 0
      | Some ds \<Rightarrow> if i \<ge> 0 \<and> i < int (length (ds_Color ds)) then ds_Color ds ! nat i else 0)"

subsection \<open>The current element\<close>

definition rpmdsCount :: "rpmds option \<Rightarrow> int" where
  "rpmdsCount dsp = (case dsp of None \<Rightarrow> 0 | Some ds \<Rightarrow> ds_Count ds)"

definition rpmdsIx :: "rpmds option \<Rightarrow> int" where
  "rpmdsIx dsp = (case dsp of None \<Rightarrow> -1 | Some ds \<Rightarrow> ds_i ds)"

definition rpmdsSetIx :: "rpmds option \<Rightarrow> int \<Rightarrow> int \<times> rpmds option" where
  "rpmdsSetIx dsp ix =
     (case dsp of None \<Rightarrow> (-1, None)
      | Some ds \<Rightarrow>
          if ix \<ge> 0 \<and> ix < ds_Count ds then (ix, Some (ds\<lparr>ds_i := ix, ds_DNEVR := []\<rparr>))
          else (-1, Some ds))"

definition rpmdsD :: "rpmds option \<Rightarrow> char" where
  "rpmdsD dsp = (case dsp of None \<Rightarrow> NUL | Some ds \<Rightarrow> tagNToChar (ds_tagN ds))"

definition rpmdsNId :: "rpmds option \<Rightarrow> nat" where
  "rpmdsNId dsp = (case dsp of None \<Rightarrow> 0 | Some ds \<Rightarrow> rpmdsNIdIndex dsp (ds_i ds))"

definition rpmdsEVRId :: "rpmds option \<Rightarrow> nat" where
  "rpmdsEVRId dsp = (case dsp of None \<Rightarrow> 0 | Some ds \<Rightarrow> rpmdsEVRIdIndex dsp (ds_i ds))"

definition rpmdsN :: "pools \<Rightarrow> rpmds option \<Rightarrow> cstr option" where
  "rpmdsN st dsp = (case dsp of None \<Rightarrow> None | Some ds \<Rightarrow> rpmdsNIndex st dsp (ds_i ds))"

definition rpmdsEVR :: "pools \<Rightarrow> rpmds option \<Rightarrow> cstr option" where
  "rpmdsEVR st dsp = (case dsp of None \<Rightarrow> None | Some ds \<Rightarrow> rpmdsEVRIndex st dsp (ds_i ds))"

definition rpmdsFlags :: "rpmds option \<Rightarrow> rpmsenseFlags" where
  "rpmdsFlags dsp = (case dsp of None \<Rightarrow> 0 | Some ds \<Rightarrow> rpmdsFlagsIndex dsp (ds_i ds))"

definition rpmdsTi :: "rpmds option \<Rightarrow> int" where
  "rpmdsTi dsp = (case dsp of None \<Rightarrow> -1 | Some ds \<Rightarrow> rpmdsTiIndex dsp (ds_i ds))"

definition rpmdsTagN :: "rpmds option \<Rightarrow> rpmTagVal" where
  "rpmdsTagN dsp = (case dsp of None \<Rightarrow> 0 | Some ds \<Rightarrow> ds_tagN ds)"

definition rpmdsTagEVR :: "rpmds option \<Rightarrow> rpmTagVal" where
  "rpmdsTagEVR dsp =
     (case dsp of None \<Rightarrow> 0
      | Some ds \<Rightarrow> (case dsType (ds_tagN ds) of None \<Rightarrow> 0 | Some (_, evr, _, _) \<Rightarrow> evr))"

definition rpmdsTagF :: "rpmds option \<Rightarrow> rpmTagVal" where
  "rpmdsTagF dsp =
     (case dsp of None \<Rightarrow> 0
      | Some ds \<Rightarrow> (case dsType (ds_tagN ds) of None \<Rightarrow> 0 | Some (_, _, f, _) \<Rightarrow> f))"

definition rpmdsTagTi :: "rpmds option \<Rightarrow> rpmTagVal" where
  "rpmdsTagTi dsp =
     (case dsp of None \<Rightarrow> 0
      | Some ds \<Rightarrow> (case dsType (ds_tagN ds) of None \<Rightarrow> 0 | Some (_, _, _, ti) \<Rightarrow> ti))"

definition rpmdsInstance :: "rpmds option \<Rightarrow> nat" where
  "rpmdsInstance dsp = (case dsp of None \<Rightarrow> 0 | Some ds \<Rightarrow> ds_instance ds)"

definition rpmdsColor :: "rpmds option \<Rightarrow> u32" where
  "rpmdsColor dsp = (case dsp of None \<Rightarrow> 0 | Some ds \<Rightarrow> rpmdsColorIndex dsp (ds_i ds))"

definition rpmdsSetColor :: "rpmds option \<Rightarrow> u32 \<Rightarrow> u32 \<times> rpmds option" where
  "rpmdsSetColor dsp color =
     (case dsp of None \<Rightarrow> (0, None)
      | Some ds \<Rightarrow>
          if ds_i ds \<ge> 0 \<and> ds_i ds < ds_Count ds
          then let cs = (if ds_Color ds = [] then replicate (nat (ds_Count ds)) 0 else ds_Color ds)
               in (cs ! nat (ds_i ds), Some (ds\<lparr>ds_Color := cs[nat (ds_i ds) := color]\<rparr>))
          else (0, dsp))"

definition rpmdsNext :: "rpmds option \<Rightarrow> int \<times> rpmds option" where
  "rpmdsNext dsp = (case dsp of None \<Rightarrow> (-1, None) | Some ds \<Rightarrow> rpmdsSetIx dsp (ds_i ds + 1))"

definition rpmdsInit :: "rpmds option \<Rightarrow> rpmds option" where
  "rpmdsInit dsp = map_option (\<lambda>ds. ds\<lparr>ds_i := -1, ds_DNEVR := []\<rparr>) dsp"

subsection \<open>The printed form\<close>

definition rpmdsNewDNEVRStr :: "pools \<Rightarrow> cstr option \<Rightarrow> rpmds option \<Rightarrow> cstr" where
  "rpmdsNewDNEVRStr st dspfx dsp =
     (let N = rpmdsN st dsp; EVR = rpmdsEVR st dsp; Flags = rpmdsFlags dsp;
          s = (case dspfx of None \<Rightarrow> [] | Some p \<Rightarrow> p @ '' '');
          s = (case N of None \<Rightarrow> s | Some n \<Rightarrow> s @ n);
          s = (if has Flags RPMSENSE_SENSEMASK
               then (if s \<noteq> [] then s @ '' '' else s)
                 @ (if has Flags RPMSENSE_LESS then ''<'' else [])
                 @ (if has Flags RPMSENSE_GREATER then ''>'' else [])
                 @ (if has Flags RPMSENSE_EQUAL then ''='' else [])
               else s)
      in (case EVR of None \<Rightarrow> s
          | Some evr \<Rightarrow> if evr \<noteq> [] then (if s \<noteq> [] then s @ '' '' else s) @ evr else s))"

definition rpmdsDNEVR :: "pools \<Rightarrow> rpmds option \<Rightarrow> cstr option \<times> rpmds option" where
  "rpmdsDNEVR st dsp =
     (case dsp of None \<Rightarrow> (None, None)
      | Some ds \<Rightarrow>
          if ds_i ds \<ge> 0 \<and> ds_i ds < ds_Count ds
          then let t = (let c = tagNToChar (ds_tagN ds) in if c = NUL then [] else [c]);
                   s = (if ds_DNEVR ds = [] then rpmdsNewDNEVRStr st (Some t) dsp else ds_DNEVR ds)
               in (Some s, Some (ds\<lparr>ds_DNEVR := s\<rparr>))
          else (None, dsp))"

subsection \<open>Creation\<close>

text \<open>Interning into the pool with handle \<open>p\<close>.\<close>

definition pool_intern :: "pools \<Rightarrow> nat \<Rightarrow> cstr option \<Rightarrow> (pools \<times> nat) option" where
  "pool_intern st p str =
     do { (pool, sid) \<leftarrow> rpmstrPoolId (st ! p) str True; Some (st[p := pool], sid) }"

text \<open>A NULL pool argument makes a private pool, appended to the store.\<close>

definition rpmdsCreate ::
    "pools \<Rightarrow> nat option \<Rightarrow> rpmTagVal \<Rightarrow> cstr \<Rightarrow> int \<Rightarrow> nat \<Rightarrow> (pools \<times> rpmds) option" where
  "rpmdsCreate st pool tagN Type Count inst =
     do { (st, p) \<leftarrow> (case pool of Some p \<Rightarrow> Some (st, p)
            | None \<Rightarrow> do { new \<leftarrow> rpmstrPoolCreate; Some (st @ [new], length st) });
          Some (st, \<lparr>ds_pool = p, ds_Type = Type, ds_DNEVR = [], ds_N = [], ds_EVR = [],
                     ds_Flags = [], ds_Color = [], ds_tagN = tagN, ds_Count = Count,
                     ds_instance = inst, ds_i = -1, ds_ti = []\<rparr>) }"

definition freeze_private :: "pools \<Rightarrow> nat option \<Rightarrow> rpmds \<Rightarrow> pools" where
  "freeze_private st pool ds =
     (if pool \<noteq> Some (ds_pool ds)
      then st[ds_pool ds := rpmstrPoolFreeze (st ! ds_pool ds) False] else st)"

fun td2pool :: "pools \<Rightarrow> nat \<Rightarrow> cstr list \<Rightarrow> (pools \<times> nat list) option" where
  "td2pool st p [] = Some (st, [])"
| "td2pool st p (s # strings) =
     do { (st, sid) \<leftarrow> pool_intern st p (Some s);
          (st, sids) \<leftarrow> td2pool st p strings;
          Some (st, sid # sids) }"

text \<open>What the dependency code reads of a header: string and integer array tags, the name, the EVR
  string and the database instance.\<close>

record hdr =
  hdr_strs :: "rpmTagVal \<Rightarrow> cstr list option"
  hdr_nums :: "rpmTagVal \<Rightarrow> u32 list option"
  hdr_name :: "cstr option"
  hdr_evr :: "cstr option"
  hdr_instance :: nat

abbreviation tag_data :: "'a list option \<Rightarrow> 'a list" where
  "tag_data d \<equiv> (case d of None \<Rightarrow> [] | Some xs \<Rightarrow> xs)"

text \<open>The loop that marks rpmlib() requires.\<close>

definition mark_rpmlib :: "pools \<Rightarrow> rpmds \<Rightarrow> rpmds" where
  "mark_rpmlib st ds =
     fold (\<lambda>i ds.
        if \<not> has (rpmdsFlagsIndex (Some ds) (int i)) RPMSENSE_RPMLIB
           \<and> rstreqn (the (rpmdsNIndex st (Some ds) (int i))) ''rpmlib('' 7
        then ds\<lparr>ds_Flags := (ds_Flags ds)[i := ds_Flags ds ! i OR RPMSENSE_RPMLIB]\<rparr> else ds)
      [0..<nat (ds_Count ds)] ds"

text \<open>The part of \<open>rpmdsNewPool\<close> after the checks of the array lengths.\<close>

definition newPool_fill ::
    "pools \<Rightarrow> nat option \<Rightarrow> nat \<Rightarrow> rpmTagVal \<Rightarrow> cstr \<Rightarrow> cstr list \<Rightarrow> cstr list \<Rightarrow> rpmsenseFlags list \<Rightarrow> int list
      \<Rightarrow> (pools \<times> rpmds) option" where
  "newPool_fill st pool inst tagN Type names evr dflags indices =
     do { (st, ds) \<leftarrow> rpmdsCreate st pool tagN Type (int (length names)) inst;
          (st, ns) \<leftarrow> td2pool st (ds_pool ds) names;
          (st, es) \<leftarrow> td2pool st (ds_pool ds) evr;
          let ds = ds\<lparr>ds_N := ns, ds_EVR := es, ds_Flags := dflags, ds_ti := indices\<rparr>;
          let ds = (if tagN = RPMTAG_REQUIRENAME \<and> ds_Flags ds \<noteq> [] then mark_rpmlib st ds else ds);
          Some (freeze_private st pool ds, ds) }"

definition rpmdsNewPool :: "pools \<Rightarrow> nat option \<Rightarrow> hdr \<Rightarrow> rpmTagVal \<Rightarrow> (pools \<times> rpmds option) option" where
  "rpmdsNewPool st pool h tagN =
     (case dsType tagN of None \<Rightarrow> Some (st, None)
      | Some (Type, tagEVR, tagF, tagTi) \<Rightarrow>
        (case hdr_strs h tagN of None \<Rightarrow> Some (st, None)
         | Some names \<Rightarrow>
           let evr = tag_data (hdr_strs h tagEVR); dflags = tag_data (hdr_nums h tagF);
               tindices = tag_data (hdr_nums h tagTi) in
           if length evr \<noteq> length names \<or> length dflags \<noteq> length names
              \<or> tagTi \<noteq> 0 \<and> length tindices \<noteq> length names
           then Some (st, None)
           else map_option (map_prod id Some)
             (newPool_fill st pool (hdr_instance h) tagN Type names evr dflags
                (if tagTi \<noteq> 0 then map sint tindices else []))))"

definition singleDSPool ::
    "pools \<Rightarrow> nat option \<Rightarrow> rpmTagVal \<Rightarrow> nat \<Rightarrow> nat \<Rightarrow> rpmsenseFlags \<Rightarrow> nat \<Rightarrow> u32 \<Rightarrow> int
      \<Rightarrow> (pools \<times> rpmds option) option" where
  "singleDSPool st pool tagN N EVR Flags inst Color triggerIndex =
     (case dsType tagN of None \<Rightarrow> Some (st, None)
      | Some (Type, _, _, tagTi) \<Rightarrow> do {
          (st, ds) \<leftarrow> rpmdsCreate st pool tagN Type 1 inst;
          let ds = ds\<lparr>ds_N := [N], ds_EVR := [EVR], ds_Flags := [Flags],
                      ds_ti := (if tagTi \<noteq> 0 \<and> triggerIndex \<noteq> -1 then [triggerIndex] else []),
                      ds_i := 0\<rparr>;
          Some (st, if Color \<noteq> 0 then snd (rpmdsSetColor (Some ds) Color) else Some ds) })"

definition singleDS ::
    "pools \<Rightarrow> nat option \<Rightarrow> rpmTagVal \<Rightarrow> cstr option \<Rightarrow> cstr option \<Rightarrow> rpmsenseFlags \<Rightarrow> nat \<Rightarrow> u32 \<Rightarrow> int
      \<Rightarrow> (pools \<times> rpmds option) option" where
  "singleDS st pool tagN N EVR Flags inst Color triggerIndex =
     do { (st, dsp) \<leftarrow> singleDSPool st pool tagN 0 0 Flags inst Color triggerIndex;
          (case dsp of None \<Rightarrow> Some (st, None)
           | Some ds \<Rightarrow> do {
               (st, n) \<leftarrow> pool_intern st (ds_pool ds) (Some (case N of None \<Rightarrow> [] | Some n \<Rightarrow> n));
               (st, e) \<leftarrow> pool_intern st (ds_pool ds) (Some (case EVR of None \<Rightarrow> [] | Some e \<Rightarrow> e));
               let ds = ds\<lparr>ds_N := (ds_N ds)[0 := n], ds_EVR := (ds_EVR ds)[0 := e]\<rparr>;
               Some (freeze_private st pool ds, Some ds) }) }"

definition rpmdsThisPool ::
    "pools \<Rightarrow> nat option \<Rightarrow> hdr \<Rightarrow> rpmTagVal \<Rightarrow> rpmsenseFlags \<Rightarrow> (pools \<times> rpmds option) option" where
  "rpmdsThisPool st pool h tagN Flags =
     singleDS st pool tagN (hdr_name h) (hdr_evr h) Flags (hdr_instance h) 0 0"

definition rpmdsSinglePool ::
    "pools \<Rightarrow> nat option \<Rightarrow> rpmTagVal \<Rightarrow> cstr option \<Rightarrow> cstr option \<Rightarrow> rpmsenseFlags
      \<Rightarrow> (pools \<times> rpmds option) option" where
  "rpmdsSinglePool st pool tagN N EVR Flags = singleDS st pool tagN N EVR Flags 0 0 0"

definition rpmdsSinglePoolTix ::
    "pools \<Rightarrow> nat option \<Rightarrow> rpmTagVal \<Rightarrow> cstr option \<Rightarrow> cstr option \<Rightarrow> rpmsenseFlags \<Rightarrow> int
      \<Rightarrow> (pools \<times> rpmds option) option" where
  "rpmdsSinglePoolTix st pool tagN N EVR Flags triggerIndex =
     singleDS st pool tagN N EVR Flags 0 0 triggerIndex"

definition rpmdsCurrent :: "pools \<Rightarrow> rpmds option \<Rightarrow> (pools \<times> rpmds option) option" where
  "rpmdsCurrent st dsp =
     (case dsp of None \<Rightarrow> Some (st, None)
      | Some ds \<Rightarrow>
          if ds_i ds \<ge> 0 \<and> ds_i ds < ds_Count ds
          then let ti = (if ds_ti ds \<noteq> [] then ds_ti ds ! nat (ds_i ds) else -1) in
            singleDSPool st (Some (ds_pool ds)) (ds_tagN ds) (ds_N ds ! nat (ds_i ds))
              (ds_EVR ds ! nat (ds_i ds)) (rpmdsFlags dsp) (ds_instance ds) (rpmdsColor dsp) ti
          else Some (st, None))"

text \<open>\<open>rpmdsFilterTi\<close>: the loop appends every element with the wanted trigger index.\<close>

definition rpmdsFilterTi :: "rpmds option \<Rightarrow> int \<Rightarrow> rpmds option" where
  "rpmdsFilterTi dsp ti =
     (case dsp of None \<Rightarrow> None
      | Some ds \<Rightarrow>
        fold (\<lambda>i fds.
            if ds_ti ds ! i \<noteq> ti then fds
            else let f = (case fds of Some f \<Rightarrow> f
                   | None \<Rightarrow> \<lparr>ds_pool = ds_pool ds, ds_Type = ds_Type ds, ds_DNEVR = [], ds_N = [],
                       ds_EVR = [], ds_Flags = [], ds_Color = [], ds_tagN = ds_tagN ds, ds_Count = 0,
                       ds_instance = ds_instance ds, ds_i = -1, ds_ti = []\<rparr>)
              in Some (f\<lparr>ds_N := ds_N f @ [ds_N ds ! i], ds_EVR := ds_EVR f @ [ds_EVR ds ! i],
                         ds_Flags := ds_Flags f @ [ds_Flags ds ! i], ds_ti := ds_ti f @ [ds_ti ds ! i],
                         ds_Count := ds_Count f + 1\<rparr>))
          [0..<length (ds_ti ds)] None)"

definition rpmdsDup :: "rpmds \<Rightarrow> rpmds" where
  "rpmdsDup ods =
     \<lparr>ds_pool = ds_pool ods, ds_Type = ds_Type ods, ds_DNEVR = [], ds_N = ds_N ods,
      ds_EVR = ds_EVR ods, ds_Flags = ds_Flags ods, ds_Color = [], ds_tagN = ds_tagN ods,
      ds_Count = ds_Count ods, ds_instance = ds_instance ods, ds_i = ds_i ods, ds_ti = ds_ti ods\<rparr>"

subsection \<open>Finding and merging\<close>

text \<open>The comparison of \<open>doFind\<close>; the flags are subtracted as unsigned and stored as \<open>int\<close>. The trigger indexes are
  subtracted as \<open>int\<close>: the difference wraps around, where it is too large.\<close>

definition find_cmp :: "pools \<Rightarrow> rpmds \<Rightarrow> rpmds \<Rightarrow> int \<Rightarrow> int" where
  "find_cmp st ds ods i =
     (let ON = rpmdsN st (Some ods); OEVR = rpmdsEVR st (Some ods); OFlags = rpmdsFlags (Some ods);
          Oindex = rpmdsTi (Some ods); ds = ds\<lparr>ds_i := i\<rparr>;
          N = rpmdsN st (Some ds); EVR = rpmdsEVR st (Some ds); Flags = rpmdsFlags (Some ds);
          index = rpmdsTi (Some ds);
          c = strcmp (the ON) (the N);
          c = (if c = 0 \<and> OEVR \<noteq> None \<and> EVR \<noteq> None then strcmp (the OEVR) (the EVR) else c);
          c = (if c = 0 then sint (OFlags - Flags) else c)
      in if c = 0 then sint (word_of_int (Oindex - index) :: u32) else c)"

text \<open>The loop of \<open>doFind\<close>: the result code, the upper bound and the element index it leaves.\<close>

function doFind_loop :: "(int \<Rightarrow> int) \<Rightarrow> nat \<Rightarrow> nat \<Rightarrow> int \<Rightarrow> int \<times> nat \<times> int" where
  "doFind_loop cmp l u i =
     (if l < u
      then let m = (l + u) div 2; comparison = cmp (int m) in
        if comparison < 0 then doFind_loop cmp l m (int m)
        else if comparison > 0 then doFind_loop cmp (m + 1) u (int m)
        else (int m, u, int m)
      else (-1, u, i))"
  by pat_completeness auto
termination by (relation "measure (\<lambda>(cmp, l, u, i). u - l)") auto

declare doFind_loop.simps [simp del]

definition doFind :: "pools \<Rightarrow> rpmds option \<Rightarrow> rpmds option \<Rightarrow> int \<times> nat \<times> rpmds option" where
  "doFind st dsp odsp =
     (case (dsp, odsp) of
        (Some ds, Some ods) \<Rightarrow>
          let (rc, u, i) = doFind_loop (find_cmp st ds ods) 0 (nat (ds_Count ds)) (ds_i ds)
          in (rc, u, Some (ds\<lparr>ds_i := i\<rparr>))
      | _ \<Rightarrow> (-1, 0, dsp))"

definition rpmdsFind :: "pools \<Rightarrow> rpmds option \<Rightarrow> rpmds option \<Rightarrow> int \<times> rpmds option" where
  "rpmdsFind st dsp odsp = (let (rc, _, ds) = doFind st dsp odsp in (rc, ds))"

text \<open>One round of the loop of \<open>rpmdsMerge\<close>, for the current element of \<open>ods\<close>.\<close>

definition merge_one :: "pools \<Rightarrow> rpmds \<Rightarrow> rpmds \<Rightarrow> (pools \<times> rpmds) option" where
  "merge_one st ds ods =
     (let (rc, u, dsp) = doFind st (Some ds) (Some ods); ds = the dsp in
      if rc \<ge> 0 then Some (st, ds)
      else do {
        let p = ds_pool ds;
        pool \<leftarrow> rpmstrPoolUnfreeze (st ! p);
        let st = st[p := pool];
        (st, n) \<leftarrow> pool_intern st p (rpmdsN st (Some ods));
        (st, e) \<leftarrow> pool_intern st p (rpmdsEVR st (Some ods));
        Some (st, ds\<lparr>ds_N := insert_at u n (ds_N ds), ds_EVR := insert_at u e (ds_EVR ds),
           ds_Flags := insert_at u (rpmdsFlags (Some ods)) (ds_Flags ds),
           ds_ti := (if ds_ti ds \<noteq> [] \<or> ds_ti ods \<noteq> []
                     then insert_at u (rpmdsTi (Some ods)) (ds_ti ds) else ds_ti ds),
           ds_i := ds_Count ds, ds_Count := ds_Count ds + 1\<rparr>) })"

fun merge_loop :: "pools \<Rightarrow> rpmds \<Rightarrow> rpmds \<Rightarrow> nat list \<Rightarrow> (pools \<times> rpmds) option" where
  "merge_loop st ds ods [] = Some (st, ds)"
| "merge_loop st ds ods (k # ks) =
     do { (st, ds) \<leftarrow> merge_one st ds (ods\<lparr>ds_i := int k, ds_DNEVR := []\<rparr>);
          merge_loop st ds ods ks }"

definition merge_prepare :: "rpmds option \<Rightarrow> rpmds \<Rightarrow> rpmds" where
  "merge_prepare dsp ods =
     (let ds = (case dsp of None \<Rightarrow> rpmdsDup (ods\<lparr>ds_Count := 1\<rparr>) | Some ds \<Rightarrow> ds);
          ds = (if ds_EVR ds = [] then ds\<lparr>ds_EVR := replicate (nat (ds_Count ds)) 0\<rparr> else ds);
          ds = (if ds_Flags ds = [] then ds\<lparr>ds_Flags := replicate (nat (ds_Count ds)) 0\<rparr> else ds)
      in if ds_ti ds = [] \<and> ds_ti ods \<noteq> []
         then ds\<lparr>ds_ti := replicate (nat (ds_Count ds)) (-1)\<rparr> else ds)"

text \<open>\<open>rpmdsMerge\<close> for a non-NULL \<open>dsp\<close> pointer: the new store, the merged set, the other set (whose
  index is restored) and the return value.\<close>

definition rpmdsMerge ::
    "pools \<Rightarrow> rpmds option \<Rightarrow> rpmds option \<Rightarrow> (pools \<times> rpmds option \<times> rpmds option \<times> int) option" where
  "rpmdsMerge st dsp odsp =
     (case odsp of None \<Rightarrow> Some (st, dsp, None, -1)
      | Some ods \<Rightarrow> do {
          (st, ds) \<leftarrow> merge_loop st (merge_prepare dsp ods) ods [0..<nat (ds_Count ods)];
          Some (st, Some ds, Some (ods\<lparr>ds_DNEVR := []\<rparr>), ds_Count ds - rpmdsCount dsp) })"

subsection \<open>Comparing and searching\<close>

definition rpmdsCompareIndex :: "pools \<Rightarrow> rpmds \<Rightarrow> int \<Rightarrow> rpmds \<Rightarrow> int \<Rightarrow> bool" where
  "rpmdsCompareIndex st A aix B bix =
     (if \<not> the (rpmstrPoolStreq (ds_pool A = ds_pool B)
              (st ! ds_pool A) (rpmdsNIdIndex (Some A) aix) (st ! ds_pool B) (rpmdsNIdIndex (Some B) bix))
      then False
      else let AFlags = rpmdsFlagsIndex (Some A) aix; BFlags = rpmdsFlagsIndex (Some B) bix in
        if \<not> (has AFlags RPMSENSE_SENSEMASK \<and> has BFlags RPMSENSE_SENSEMASK) then True
        else (case (rpmdsEVRIndex st (Some A) aix, rpmdsEVRIndex st (Some B) bix) of
                (Some aevr, Some bevr) \<Rightarrow>
                  if aevr \<noteq> [] \<and> bevr \<noteq> []
                  then rpmverOverlap (the (rpmverParse (Some aevr))) AFlags
                         (the (rpmverParse (Some bevr))) BFlags
                  else True
              | _ \<Rightarrow> True))"

definition rpmdsCompare :: "pools \<Rightarrow> rpmds \<Rightarrow> rpmds \<Rightarrow> bool" where
  "rpmdsCompare st A B = rpmdsCompareIndex st A (ds_i A) B (ds_i B)"

text \<open>The two scans around a hit of the binary search, and the search itself: the subset
  \<open>[l, u)\<close> of the elements with the name, empty when there is none.\<close>

fun scan_down :: "(nat \<Rightarrow> bool) \<Rightarrow> nat \<Rightarrow> nat" where
  "scan_down eq 0 = 0"
| "scan_down eq (Suc l) = (if eq l then scan_down eq l else Suc l)"

function scan_up :: "(nat \<Rightarrow> bool) \<Rightarrow> nat \<Rightarrow> nat \<Rightarrow> nat" where
  "scan_up eq cnt u =
     (let u = u + 1 in
      if u < cnt then if \<not> eq u then u else scan_up eq cnt u else u)"
  by pat_completeness auto
termination by (relation "measure (\<lambda>(eq, cnt, u). cnt - u)") auto

declare scan_up.simps [simp del]

function search_range :: "(nat \<Rightarrow> int) \<Rightarrow> nat \<Rightarrow> nat \<Rightarrow> nat \<Rightarrow> nat \<times> nat" where
  "search_range cmp cnt l u =
     (if l < u
      then let i = (l + u) div 2; comparison = cmp i in
        if comparison < 0 then search_range cmp cnt l i
        else if comparison > 0 then search_range cmp cnt (i + 1) u
        else
          let l = (if cmp l \<noteq> 0 then i else l);
              l = scan_down (\<lambda>k. cmp k = 0) l;
              u = (if u \<ge> cnt \<or> cmp u \<noteq> 0 then i else u);
              u = scan_up (\<lambda>k. cmp k = 0) cnt u
          in (l, u)
      else (l, u))"
  by pat_completeness auto
termination by (relation "measure (\<lambda>(cmp, cnt, l, u). u - l)") auto

declare search_range.simps [simp del]

fun first_overlap :: "(nat \<Rightarrow> bool) \<Rightarrow> nat list \<Rightarrow> int" where
  "first_overlap ov [] = -1"
| "first_overlap ov (l # ls) = (if ov l then int l else first_overlap ov ls)"

definition rpmdsSearch :: "pools \<Rightarrow> rpmds option \<Rightarrow> rpmds option \<Rightarrow> int" where
  "rpmdsSearch st dsp odsp =
     (case (dsp, odsp) of
        (Some ds, Some ods) \<Rightarrow>
          let ON = rpmdsN st odsp;
              (l, u) = search_range (\<lambda>i. strcmp (the ON) (the (rpmdsNIndex st dsp (int i))))
                         (nat (ds_Count ds)) 0 (nat (ds_Count ds))
          in first_overlap (\<lambda>k. rpmdsCompareIndex st ods (rpmdsIx odsp) ds (int k)) [l..<u]
      | _ \<Rightarrow> -1)"

fun any_match :: "pools \<Rightarrow> rpmds \<Rightarrow> rpmds \<Rightarrow> nat list \<Rightarrow> bool" where
  "any_match st provides req [] = False"
| "any_match st provides req (i # is) =
     (rpmdsCompare st (provides\<lparr>ds_i := int i\<rparr>) req \<or> any_match st provides req is)"

definition rpmdsMatches ::
    "pools \<Rightarrow> nat option \<Rightarrow> hdr \<Rightarrow> int \<Rightarrow> rpmds \<Rightarrow> bool \<Rightarrow> (pools \<times> bool) option" where
  "rpmdsMatches st pool h prix req selfevr =
     do { (st, provides) \<leftarrow>
            (if selfevr then rpmdsThisPool st pool h RPMTAG_PROVIDENAME RPMSENSE_EQUAL
             else rpmdsNewPool st pool h RPMTAG_PROVIDENAME);
          Some (st,
            if prix \<ge> 0 \<or> selfevr
            then let provides = (if prix \<ge> 0 then snd (rpmdsSetIx provides prix) else provides)
                 in rpmdsCompare st (the provides) req
            else (case provides of None \<Rightarrow> False
                  | Some p \<Rightarrow> any_match st p req [0..<nat (ds_Count p)])) }"

subsection \<open>Capabilities of rpm itself\<close>

record rpmlibProvides =
  featureName :: cstr
  featureEVR :: cstr
  featureFlags :: rpmsenseFlags

text \<open>The table as built with every optional feature (bzip2, xz, zstd, capabilities).\<close>

definition rpmlibProvides_table :: "rpmlibProvides list" where
  "rpmlibProvides_table =
    (let full = RPMSENSE_RPMLIB OR RPMSENSE_EQUAL; eq = RPMSENSE_EQUAL;
         row = (\<lambda>n e f. \<lparr>featureName = ''rpmlib('' @ n @ '')'', featureEVR = e, featureFlags = f\<rparr>) in
    [row ''VersionedDependencies'' ''3.0.3-1'' full,
     row ''CompressedFileNames'' ''3.0.4-1'' full,
     row ''PayloadIsBzip2'' ''3.0.5-1'' full,
     row ''PayloadIsXz'' ''5.2-1'' full,
     row ''PayloadIsLzma'' ''4.4.2-1'' full,
     row ''PayloadFilesHavePrefix'' ''4.0-1'' full,
     row ''ExplicitPackageProvide'' ''4.0-1'' full,
     row ''HeaderLoadSortsTags'' ''4.0.1-1'' eq,
     row ''ScriptletInterpreterArgs'' ''4.0.3-1'' eq,
     row ''PartialHardlinkSets'' ''4.0.4-1'' eq,
     row ''ConcurrentAccess'' ''4.1-1'' eq,
     row ''BuiltinLuaScripts'' ''4.2.2-1'' eq,
     row ''FileDigests'' ''4.6.0-1'' eq,
     row ''FileCaps'' ''4.6.1-1'' eq,
     row ''ScriptletExpansion'' ''4.9.0-1'' eq,
     row ''TildeInVersions'' ''4.10.0-1'' eq,
     row ''CaretInVersions'' ''4.15.0-1'' eq,
     row ''LargeFiles'' ''4.12.0-1'' eq,
     row ''RichDependencies'' ''4.12.0-1'' eq,
     row ''DynamicBuildRequires'' ''4.15.0-1'' full,
     row ''PayloadIsZstd'' ''5.4.18-1'' full])"

fun rpmlib_loop ::
    "pools \<Rightarrow> nat option \<Rightarrow> rpmds option \<Rightarrow> rpmlibProvides list \<Rightarrow> int \<Rightarrow> (pools \<times> rpmds option \<times> int) option" where
  "rpmlib_loop st pool dsp [] rc = Some (st, dsp, rc)"
| "rpmlib_loop st pool dsp (rlp # tbl) rc =
     (if rc \<ge> 0 then do {
        (st, ds) \<leftarrow> rpmdsSinglePool st pool RPMTAG_PROVIDENAME (Some (featureName rlp))
                      (Some (featureEVR rlp)) (featureFlags rlp);
        (st, dsp, _, rc) \<leftarrow> rpmdsMerge st dsp ds;
        rpmlib_loop st pool dsp tbl rc }
      else Some (st, dsp, rc))"

definition rpmdsRpmlibPool ::
    "pools \<Rightarrow> nat option \<Rightarrow> rpmds option \<Rightarrow> rpmlibProvides list option \<Rightarrow> (pools \<times> rpmds option \<times> int) option" where
  "rpmdsRpmlibPool st pool dsp tblp =
     do { (st, dsp, rc) \<leftarrow> rpmlib_loop st pool dsp
            (case tblp of None \<Rightarrow> rpmlibProvides_table | Some tbl \<Rightarrow> tbl) 0;
          let st = (case dsp of None \<Rightarrow> st | Some ds \<Rightarrow> freeze_private st pool ds);
          Some (st, dsp, if rc < 0 then -1 else 0) }"

subsection \<open>Classification and flags\<close>

definition rpmdsIsWeak :: "rpmds option \<Rightarrow> bool" where
  "rpmdsIsWeak dsp =
     (if rpmdsTagN dsp \<in> {RPMTAG_REQUIRENAME, RPMTAG_PROVIDENAME, RPMTAG_OBSOLETENAME, RPMTAG_CONFLICTNAME}
      then has (rpmdsFlags dsp) RPMSENSE_MISSINGOK else True)"

definition rpmdsIsReverse :: "rpmds option \<Rightarrow> bool" where
  "rpmdsIsReverse dsp \<longleftrightarrow> rpmdsTagN dsp \<in> {RPMTAG_SUPPLEMENTNAME, RPMTAG_ENHANCENAME}"

text \<open>\<open>None\<close> is the return value 0; the sysusers line is decoded bytes.\<close>

definition rpmdsIsSysuser :: "pools \<Rightarrow> rpmds option \<Rightarrow> 8 word list option" where
  "rpmdsIsSysuser st dsp =
     (if rpmdsTagN dsp \<noteq> RPMTAG_PROVIDENAME \<or> \<not> has (rpmdsFlags dsp) RPMSENSE_EQUAL then None
      else let name = the (rpmdsN st dsp) in
        if \<not> (rstreqn name ''user('' 5 \<or> rstreqn name ''group('' 6 \<or> rstreqn name ''groupmember('' 12)
        then None
        else (case rpmBase64Decode (rpmdsEVR st dsp) of Inl _ \<Rightarrow> None | Inr line \<Rightarrow> Some line))"

definition rpmSanitizeDSFlags :: "rpmTagVal \<Rightarrow> rpmsenseFlags \<Rightarrow> rpmsenseFlags" where
  "rpmSanitizeDSFlags tagN Flags =
     (let extra =
        (if tagN = RPMTAG_PROVIDENAME then Flags AND RPMSENSE_FIND_PROVIDES
         else if tagN \<in> {RPMTAG_TRIGGERNAME, RPMTAG_FILETRIGGERNAME, RPMTAG_TRANSFILETRIGGERNAME}
         then Flags AND RPMSENSE_TRIGGER
         else if tagN \<in> {RPMTAG_RECOMMENDNAME, RPMTAG_SUGGESTNAME, RPMTAG_SUPPLEMENTNAME,
                        RPMTAG_ENHANCENAME, RPMTAG_REQUIRENAME, RPMTAG_ORDERNAME}
         then Flags AND ALL_REQUIRES_MASK
         else if tagN = RPMTAG_CONFLICTNAME then Flags
         else RPMSENSE_ANY)
      in (Flags AND RPMSENSE_SENSEMASK) OR extra)"

definition ReqComparisons :: "(cstr \<times> rpmsenseFlags) list" where
  "ReqComparisons =
     [(''<='', RPMSENSE_LESS OR RPMSENSE_EQUAL), (''=<'', RPMSENSE_LESS OR RPMSENSE_EQUAL),
      (''<'', RPMSENSE_LESS), (''=='', RPMSENSE_EQUAL), (''='', RPMSENSE_EQUAL),
      (''>='', RPMSENSE_GREATER OR RPMSENSE_EQUAL), (''=>'', RPMSENSE_GREATER OR RPMSENSE_EQUAL),
      (''>'', RPMSENSE_GREATER)]"

definition rpmParseDSFlags :: "cstr \<Rightarrow> nat \<Rightarrow> rpmsenseFlags" where
  "rpmParseDSFlags str len =
     (case find (\<lambda>(token, sense). len = length token \<and> rstreqn str token len) ReqComparisons of
        None \<Rightarrow> 0 | Some (_, sense) \<Rightarrow> sense)"

definition rpmdsIsRich :: "pools \<Rightarrow> rpmds option \<Rightarrow> bool" where
  "rpmdsIsRich st dsp = (case rpmdsN st dsp of None \<Rightarrow> False | Some n \<Rightarrow> n \<noteq> [] \<and> hd n = CHR ''('')"

section \<open>Properties\<close>

subsection \<open>Well-formed sets and their entries\<close>

definition pools_extend :: "pools \<Rightarrow> pools \<Rightarrow> bool" where
  "pools_extend st st' \<longleftrightarrow> length st \<le> length st' \<and>
     (\<forall>p < length st. \<forall>i t. pool_str st p i = Some t \<longrightarrow> pool_str st' p i = Some t)"

text \<open>A dependency set whose vectors have an entry for every element, whose ids are valid and whose flags and trigger
  indexes are so small that no difference of two of them overflows; an index of -1 is none.\<close>

definition ds_wf :: "pools \<Rightarrow> rpmds \<Rightarrow> bool" where
  "ds_wf st ds \<longleftrightarrow> ds_pool ds < length st \<and> pool_wf (st ! ds_pool ds) \<and> 0 \<le> ds_Count ds \<and>
     nat (ds_Count ds) \<le> length (ds_N ds) \<and> nat (ds_Count ds) \<le> length (ds_EVR ds) \<and>
     nat (ds_Count ds) \<le> length (ds_Flags ds) \<and>
     (ds_ti ds = [] \<or> nat (ds_Count ds) \<le> length (ds_ti ds)) \<and> (\<forall>t \<in> set (ds_ti ds). - 1 \<le> t \<and> t < 2 ^ 31 - 1) \<and>
     (\<forall>i < nat (ds_Count ds). pool_str st (ds_pool ds) (ds_N ds ! i) \<noteq> None \<and>
        pool_str st (ds_pool ds) (ds_EVR ds ! i) \<noteq> None \<and> unat (ds_Flags ds ! i) < 2 ^ 31)"

type_synonym dep_entry = "cstr \<times> cstr \<times> rpmsenseFlags \<times> int"

definition entry_at :: "pools \<Rightarrow> rpmds \<Rightarrow> nat \<Rightarrow> dep_entry" where
  "entry_at st ds i =
     (the (rpmdsNIndex st (Some ds) (int i)), the (rpmdsEVRIndex st (Some ds) (int i)),
      rpmdsFlagsIndex (Some ds) (int i), rpmdsTiIndex (Some ds) (int i))"

definition entries :: "pools \<Rightarrow> rpmds \<Rightarrow> dep_entry list" where
  "entries st ds = map (entry_at st ds) [0..<nat (ds_Count ds)]"

definition entry_cmp :: "dep_entry \<Rightarrow> dep_entry \<Rightarrow> int" where
  "entry_cmp a b =
     (let c = strcmp (fst a) (fst b) in if c \<noteq> 0 then c else
      let c = strcmp (fst (snd a)) (fst (snd b)) in if c \<noteq> 0 then c else
      let c = uint (fst (snd (snd a))) - uint (fst (snd (snd b))) in if c \<noteq> 0 then c else
      snd (snd (snd a)) - snd (snd (snd b)))"

lemma c_order_minus: "c_order (\<lambda>x y :: int. x - y)"
  by unfold_locales auto

interpretation dep_order: c_order entry_cmp
proof -
  have "c_order (\<lambda>a b :: dep_entry. if strcmp (fst a) (fst b) \<noteq> 0 then strcmp (fst a) (fst b) else
      if strcmp (fst (snd a)) (fst (snd b)) \<noteq> 0 then strcmp (fst (snd a)) (fst (snd b)) else
      if uint (fst (snd (snd a))) - uint (fst (snd (snd b))) \<noteq> 0
      then uint (fst (snd (snd a))) - uint (fst (snd (snd b)))
      else snd (snd (snd a)) - snd (snd (snd b)))"
    by (intro c_order_lex c_order_key [OF strcmp.c_order_axioms] c_order_key [OF c_order_minus])
  then show "c_order entry_cmp" unfolding entry_cmp_def [abs_def] Let_def .
qed

lemma entry_cmp_zero_iff: "entry_cmp a b = 0 \<longleftrightarrow> a = b"
  by (auto simp: entry_cmp_def Let_def prod_eq_iff strcmp_eq_0_iff word_uint_eq_iff split: if_splits)

lemma ds_wf_entry:
  assumes "ds_wf st ds" "i < nat (ds_Count ds)"
  shows "rpmdsNIndex st (Some ds) (int i) = Some (fst (entry_at st ds i))"
    and "rpmdsEVRIndex st (Some ds) (int i) = Some (fst (snd (entry_at st ds i)))"
    and "unat (rpmdsFlagsIndex (Some ds) (int i)) < 2 ^ 31"
proof -
  have "\<exists>n. rpmdsNIndex st (Some ds) (int i) = Some n" "\<exists>e. rpmdsEVRIndex st (Some ds) (int i) = Some e"
    using assms by (auto simp: ds_wf_def rpmdsNIndex_def rpmdsEVRIndex_def)
  then show "rpmdsNIndex st (Some ds) (int i) = Some (fst (entry_at st ds i))"
    "rpmdsEVRIndex st (Some ds) (int i) = Some (fst (snd (entry_at st ds i)))"
    by (auto simp: entry_at_def)
  show "unat (rpmdsFlagsIndex (Some ds) (int i)) < 2 ^ 31"
    using assms by (auto simp: ds_wf_def rpmdsFlagsIndex_def)
qed

lemma ds_wf_ti: "ds_wf st ds \<Longrightarrow> - 1 \<le> rpmdsTiIndex (Some ds) i \<and> rpmdsTiIndex (Some ds) i < 2 ^ 31 - 1"
  by (auto simp: ds_wf_def rpmdsTiIndex_def)

lemma sint_diff_index:
  assumes "- 1 \<le> a \<and> a < 2 ^ 31 - 1" "- 1 \<le> b \<and> b < 2 ^ 31 - 1"
  shows "sint (word_of_int a - word_of_int b :: u32) = a - b"
proof -
  have "sint (word_of_int a - word_of_int b :: u32) = sint (word_of_int (a - b) :: u32)" by simp
  also have "\<dots> = signed_take_bit 31 (a - b)" using sint_sbintrunc' [of "a - b", where ?'a = 32] by simp
  also have "\<dots> = a - b" using assms by (intro signed_take_bit_int_eq_self) simp_all
  finally show ?thesis .
qed

lemma sint_minus_small:
  assumes "unat (a :: u32) < 2 ^ 31" "unat b < 2 ^ 31"
  shows "sint (a - b) = uint a - uint b"
proof -
  have "a - b = word_of_int (uint a - uint b)" by simp
  then have "sint (a - b) = signed_take_bit 31 (uint a - uint b)"
    using sint_sbintrunc' [of "uint a - uint b", where ?'a = 32] by simp
  also have "\<dots> = uint a - uint b"
  proof (rule signed_take_bit_int_eq_self)
    have "int (unat a) < int (2 ^ 31)" "int (unat b) < int (2 ^ 31)"
      using assms by (simp_all only: of_nat_less_iff)
    then have "uint a < 2 ^ 31" "uint b < 2 ^ 31" "0 \<le> uint a" "0 \<le> uint b" by simp_all
    then show "- (2 ^ 31) \<le> uint a - uint b" "uint a - uint b < 2 ^ 31"
      by linarith+
  qed
  finally show ?thesis .
qed

lemma entry_at_sel:
  "fst (snd (snd (entry_at st ds i))) = rpmdsFlagsIndex (Some ds) (int i)"
  "snd (snd (snd (entry_at st ds i))) = rpmdsTiIndex (Some ds) (int i)"
  by (simp_all add: entry_at_def)

text \<open>\<open>find_cmp\<close> is the entry order, and the loop of \<open>doFind\<close> is the generic bisection.\<close>

lemma find_cmp_entry:
  assumes "ds_wf st ds" "i < nat (ds_Count ds)" "ds_wf st ods" "k < nat (ds_Count ods)" "ds_i ods = int k"
  shows "find_cmp st ds ods (int i) = entry_cmp (entry_at st ods k) (entry_at st ds i)"
proof -
  have idx: "rpmdsNIndex st (Some (ds\<lparr>ds_i := j\<rparr>)) = rpmdsNIndex st (Some ds)"
    "rpmdsEVRIndex st (Some (ds\<lparr>ds_i := j\<rparr>)) = rpmdsEVRIndex st (Some ds)"
    "rpmdsFlagsIndex (Some (ds\<lparr>ds_i := j\<rparr>)) = rpmdsFlagsIndex (Some ds)"
    "rpmdsTiIndex (Some (ds\<lparr>ds_i := j\<rparr>)) = rpmdsTiIndex (Some ds)" for j
    by (simp_all add: fun_eq_iff rpmdsNIndex_def rpmdsEVRIndex_def rpmdsFlagsIndex_def rpmdsTiIndex_def)
  show ?thesis
    using ds_wf_entry [OF assms(1,2)] ds_wf_entry [OF assms(3,4)] assms(5)
    by (simp add: find_cmp_def entry_cmp_def Let_def rpmdsN_def rpmdsEVR_def rpmdsFlags_def rpmdsTi_def
        idx entry_at_sel sint_minus_small sint_diff_index [OF ds_wf_ti [OF assms(3)] ds_wf_ti [OF assms(1)]])
qed

lemma doFind_loop_bisect:
  "\<exists>j. doFind_loop cmp l u i =
     (case bisect (\<lambda>k. cmp (int k)) l u of (None, v) \<Rightarrow> (-1, v, j) | (Some m, v) \<Rightarrow> (int m, v, int m))"
proof (induction cmp l u i rule: doFind_loop.induct)
  case (1 cmp l u i)
  let ?m = "(l + u) div 2"
  show ?case
  proof (cases "l < u")
    case True
    then show ?thesis using "1.IH"(1) [OF True refl refl] "1.IH"(2) [OF True refl refl]
      by (subst doFind_loop.simps, subst bisect.simps) (auto simp: Let_def)
  qed (auto simp: doFind_loop.simps bisect.simps)
qed

lemma length_entries [simp]: "length (entries st ds) = nat (ds_Count ds)"
  by (simp add: entries_def)

lemma nth_entries: "i < nat (ds_Count ds) \<Longrightarrow> entries st ds ! i = entry_at st ds i"
  by (simp add: entries_def)

lemma doFind_spec:
  assumes wf: "ds_wf st ds" "ds_wf st ods" and k: "k < nat (ds_Count ods)" "ds_i ods = int k"
    and sorted: "dep_order.strictly_ascending (entries st ds)"
    and find: "doFind st (Some ds) (Some ods) = (rc, u, dsp)"
  shows "(\<exists>j. dsp = Some (ds\<lparr>ds_i := j\<rparr>)) \<and>
    (rc \<ge> 0 \<longrightarrow> nat rc < nat (ds_Count ds) \<and> entries st ds ! nat rc = entry_at st ods k) \<and>
    (rc < 0 \<longrightarrow> u \<le> nat (ds_Count ds) \<and> entry_at st ods k \<notin> set (entries st ds) \<and>
       dep_order.strictly_ascending (insert_at u (entry_at st ods k) (entries st ds)))"
proof -
  let ?e = "entry_at st ods k" and ?n = "nat (ds_Count ds)" and ?xs = "entries st ds"
  let ?c = "\<lambda>i. find_cmp st ds ods (int i)"
  have c: "?c i = entry_cmp ?e (?xs ! i)" if "i < ?n" for i
    using find_cmp_entry [OF wf(1) that wf(2) k] that by (simp add: nth_entries)
  obtain i where i: "(rc, u, i) = doFind_loop (find_cmp st ds ods) 0 ?n (ds_i ds)"
    and dsp: "dsp = Some (ds\<lparr>ds_i := i\<rparr>)" using find by (auto simp: doFind_def split: prod.splits)
  obtain j where j: "doFind_loop (find_cmp st ds ods) 0 ?n (ds_i ds) =
      (case bisect ?c 0 ?n of (None, v) \<Rightarrow> (-1, v, j) | (Some m, v) \<Rightarrow> (int m, v, int m))"
    using doFind_loop_bisect [of "find_cmp st ds ods" 0 ?n "ds_i ds"] by blast
  show ?thesis
  proof (cases "fst (bisect ?c 0 ?n)")
    case (Some m)
    then have b: "bisect ?c 0 ?n = (Some m, u)" "rc = int m"
      using i j by (auto split: prod.splits option.splits)
    have "?c m = 0" "m < ?n" using bisect_Some [OF b(1)] by auto
    then have "?xs ! m = ?e" using c [of m] by (simp add: entry_cmp_zero_iff)
    then show ?thesis using dsp b(2) \<open>m < ?n\<close> by auto
  next
    case None
    then have b: "bisect ?c 0 ?n = (None, u)" "rc = -1"
      using i j by (auto split: prod.splits option.splits)
    have mono: "entry_cmp (?xs ! i) (?xs ! j) \<le> 0" if "i \<le> j" "j < ?n" for i j
      using sorted that by (cases "i = j") (auto simp: dep_order.strictly_ascending_def dep_order.cmp_refl less_imp_le)
    have "0 \<le> u \<and> u \<le> ?n \<and> (\<forall>i. 0 \<le> i \<longrightarrow> i < u \<longrightarrow> 0 < ?c i) \<and> (\<forall>i. u \<le> i \<longrightarrow> i < ?n \<longrightarrow> ?c i < 0)"
    proof (rule bisect_None [OF b(1)])
      fix i j assume ij: "0 \<le> i" "i \<le> j" "j < ?n"
      then show "?c i < 0 \<Longrightarrow> ?c j < 0"
        using c [of i] c [of j] dep_order.cmp_less_le_trans [OF _ mono [OF ij(2,3)], of ?e] by simp
      show "0 < ?c j \<Longrightarrow> 0 < ?c i"
        using ij c [of i] c [of j] dep_order.cmp_le_less_trans [OF mono [OF ij(2,3)], of ?e]
          dep_order.cmp_flip [of "?xs ! j" ?e] dep_order.cmp_flip [of "?xs ! i" ?e] by simp
    qed simp
    then have u: "u \<le> ?n" and below: "\<And>i. i < u \<Longrightarrow> 0 < entry_cmp ?e (?xs ! i)"
      and above: "\<And>i. u \<le> i \<Longrightarrow> i < ?n \<Longrightarrow> entry_cmp ?e (?xs ! i) < 0"
      using c by auto
    have "?e \<notin> set ?xs"
    proof
      assume "?e \<in> set ?xs"
      then obtain i where "i < ?n" "?xs ! i = ?e" by (auto simp: in_set_conv_nth)
      then show False using below [of i] above [of i] dep_order.cmp_refl [of ?e] by (cases "i < u") auto
    qed
    moreover have "dep_order.strictly_ascending (insert_at u ?e ?xs)"
      using sorted u below above dep_order.cmp_flip [of _ ?e]
      by (intro dep_order.strictly_ascending_insert_at) auto
    ultimately show ?thesis using dsp b(2) u by auto
  qed
qed

subsection \<open>Stores and interning\<close>

lemma pools_extend_refl [simp]: "pools_extend st st"
  by (simp add: pools_extend_def)

lemma pools_extend_trans: "pools_extend a b \<Longrightarrow> pools_extend b c \<Longrightarrow> pools_extend a c"
  by (auto simp: pools_extend_def dest: less_le_trans)

lemma pools_extend_update:
  assumes "p < length st" "\<And>i t. id2str (offs (st ! p)) i = Some t \<Longrightarrow> id2str (offs pool) i = Some t"
  shows "pools_extend st (st[p := pool])"
  using assms by (auto simp: pools_extend_def rpmstrPoolStr_def nth_list_update)

text \<open>A set reads the same entries in an extended store.\<close>

lemma ds_wf_extend:
  assumes "ds_wf st ds" "pools_extend st st'" "pool_wf (st' ! ds_pool ds)"
  shows "ds_wf st' ds" "i < nat (ds_Count ds) \<Longrightarrow> entry_at st' ds i = entry_at st ds i"
    "entries st' ds = entries st ds"
proof -
  have str: "pool_str st (ds_pool ds) sid = Some t \<Longrightarrow> pool_str st' (ds_pool ds) sid = Some t" for sid t
    using assms(1,2) by (auto simp: ds_wf_def pools_extend_def)
  show "ds_wf st' ds" using assms str by (fastforce simp: ds_wf_def pools_extend_def)
  show eq: "entry_at st' ds i = entry_at st ds i" if "i < nat (ds_Count ds)" for i
  proof -
    from assms(1) that obtain n e where "pool_str st (ds_pool ds) (ds_N ds ! i) = Some n"
      "pool_str st (ds_pool ds) (ds_EVR ds ! i) = Some e" by (auto simp: ds_wf_def)
    with str show ?thesis by (simp add: entry_at_def rpmdsNIndex_def rpmdsEVRIndex_def)
  qed
  then show "entries st' ds = entries st ds" by (simp add: entries_def)
qed

lemma pool_intern_spec:
  assumes "pool_intern st p (Some s) = Some (st', sid)" "p < length st" "pool_wf (st ! p)" "pool_open (st ! p)"
  shows "pools_extend st st'" "length st' = length st" "pool_wf (st' ! p)" "pool_open (st' ! p)"
    "pool_str st' p sid = Some s" "q \<noteq> p \<Longrightarrow> st' ! q = st ! q"
proof -
  obtain pool where pool: "rpmstrPoolId (st ! p) (Some s) True = Some (pool, sid)" "st' = st[p := pool]"
    using assms(1) by (auto simp: pool_intern_def split: Option.bind_splits)
  note facts = strpool.intern_open [OF assms(3,4) pool(1)] strpool.intern_names [OF assms(3,4) pool(1)]
    strpool.intern_keeps [OF assms(3,4) pool(1)]
  show "pools_extend st st'" using pools_extend_update [OF assms(2)] facts(3) by (simp add: pool(2))
  show "length st' = length st" "pool_wf (st' ! p)" "pool_open (st' ! p)" "pool_str st' p sid = Some s"
    "q \<noteq> p \<Longrightarrow> st' ! q = st ! q"
    using facts assms(2) by (auto simp: pool(2) rpmstrPoolStr_def)
qed

lemma unfreeze_spec:
  assumes "rpmstrPoolUnfreeze pool = Some pool'" "pool_wf pool"
  shows "pool_wf pool'" "offs pool' = offs pool" "pool_open pool'"
proof -
  have *: "pool_wf (p\<lparr>frozen := False\<rparr>) = pool_wf p" for p
    by (cases "pool_hash p") (simp_all add: pool_wf_def)
  show "pool_wf pool'" "offs pool' = offs pool" "pool_open pool'"
    using assms rpmstrPoolRehash_wf [of pool] by (auto simp: rpmstrPoolUnfreeze_def * pool_wf_def split: if_splits)
qed

subsection \<open>Merging\<close>

lemma entry_at_i [simp]: "entry_at st (ds\<lparr>ds_i := j\<rparr>) = entry_at st ds" "entries st (ds\<lparr>ds_i := j\<rparr>) = entries st ds"
    "ds_wf st (ds\<lparr>ds_i := j\<rparr>) = ds_wf st ds"
    "entry_at st (ds\<lparr>ds_DNEVR := d\<rparr>) = entry_at st ds" "entries st (ds\<lparr>ds_DNEVR := d\<rparr>) = entries st ds"
    "ds_wf st (ds\<lparr>ds_DNEVR := d\<rparr>) = ds_wf st ds"
  by (simp_all add: fun_eq_iff entry_at_def entries_def ds_wf_def rpmdsNIndex_def rpmdsEVRIndex_def
      rpmdsFlagsIndex_def rpmdsTiIndex_def)

lemma nat_int_pred [simp]: "nat (int i - 1) = i - Suc 0"
  by linarith

text \<open>The set after inserting an element at position \<open>u\<close>.\<close>

lemma insert_entry:
  assumes wf: "ds_wf st ds" and u: "u \<le> nat (ds_Count ds)"
    and str: "pool_str st (ds_pool ds) n = Some N" "pool_str st (ds_pool ds) e = Some E"
    and f: "unat f < 2 ^ 31" and ti: "ti' = (if tis then insert_at u t (ds_ti ds) else ds_ti ds)"
      "tis \<longrightarrow> nat (ds_Count ds) \<le> length (ds_ti ds)" "\<not> tis \<longrightarrow> ds_ti ds = [] \<and> t = -1" "- 1 \<le> t \<and> t < 2 ^ 31 - 1"
    and ds': "ds' = ds\<lparr>ds_N := insert_at u n (ds_N ds), ds_EVR := insert_at u e (ds_EVR ds),
       ds_Flags := insert_at u f (ds_Flags ds), ds_ti := ti', ds_i := j, ds_Count := ds_Count ds + 1\<rparr>"
  shows "ds_wf st ds' \<and> entries st ds' = insert_at u (N, E, f, t) (entries st ds)"
proof -
  let ?c = "nat (ds_Count ds)"
  have c: "nat (ds_Count ds') = Suc ?c" "0 \<le> ds_Count ds" using wf by (auto simp: ds_wf_def ds')
  have len: "?c \<le> length (ds_N ds)" "?c \<le> length (ds_EVR ds)" "?c \<le> length (ds_Flags ds)"
    using wf by (auto simp: ds_wf_def)
  have nth: "ds_N ds' ! i = (if i < u then ds_N ds ! i else if i = u then n else ds_N ds ! (i - 1))"
      "ds_EVR ds' ! i = (if i < u then ds_EVR ds ! i else if i = u then e else ds_EVR ds ! (i - 1))"
      "ds_Flags ds' ! i = (if i < u then ds_Flags ds ! i else if i = u then f else ds_Flags ds ! (i - 1))"
    if "i < Suc ?c" for i
    using that u len by (auto simp: ds' nth_insert_at)
  have ti_nth: "rpmdsTiIndex (Some ds') (int i) =
      (if i < u then rpmdsTiIndex (Some ds) (int i) else if i = u then t
       else rpmdsTiIndex (Some ds) (int (i - 1)))" if "i < Suc ?c" for i
  proof (cases tis)
    case True
    then have "?c \<le> length (ds_ti ds)" "ds_ti ds' = insert_at u t (ds_ti ds)" using ti by (auto simp: ds')
    then show ?thesis using that u
      by (auto simp: rpmdsTiIndex_def nth_insert_at)
  next
    case False
    then show ?thesis using ti by (auto simp: rpmdsTiIndex_def ds')
  qed
  have entry: "entry_at st ds' i = (if i < u then entry_at st ds i else if i = u then (N, E, f, t)
      else entry_at st ds (i - 1))" if i: "i < Suc ?c" for i
  proof -
    have l: "length (ds_N ds') = Suc (length (ds_N ds))" "length (ds_EVR ds') = Suc (length (ds_EVR ds))"
      "length (ds_Flags ds') = Suc (length (ds_Flags ds))" "ds_pool ds' = ds_pool ds"
      by (simp_all add: ds')
    show ?thesis using i len u str
      by (simp add: entry_at_def ti_nth [OF i] rpmdsNIndex_def rpmdsEVRIndex_def rpmdsFlagsIndex_def
          l nth [OF i])
  qed
  have "entries st ds' = insert_at u (N, E, f, t) (entries st ds)"
    using u c by (intro nth_equalityI) (auto simp: nth_entries entry nth_insert_at)
  moreover have "ds_wf st ds'"
    unfolding ds_wf_def c
  proof (intro conjI allI impI)
    fix i assume i: "i < Suc ?c"
    have old: "pool_str st (ds_pool ds) (ds_N ds ! k) \<noteq> None"
      "pool_str st (ds_pool ds) (ds_EVR ds ! k) \<noteq> None" "unat (ds_Flags ds ! k) < 2 ^ 31" if "k < ?c" for k
      using wf that by (auto simp: ds_wf_def)
    have p: "ds_pool ds' = ds_pool ds" by (simp add: ds')
    consider "i < u" | "i = u" | "u < i" by linarith
    then show "pool_str st (ds_pool ds') (ds_N ds' ! i) \<noteq> None"
      "pool_str st (ds_pool ds') (ds_EVR ds' ! i) \<noteq> None" "unat (ds_Flags ds' ! i) < 2 ^ 31"
      using i u str f old [of i] old [of "i - 1"] unfolding p nth [OF i] by (cases; auto)+
  qed (use wf u ti in \<open>auto simp: ds' ds_wf_def\<close>)
  ultimately show ?thesis by simp
qed

lemma rpmds_current:
  assumes "ds_wf st ods" "k < nat (ds_Count ods)" "ds_i ods = int k"
  shows "rpmdsN st (Some ods) = Some (fst (entry_at st ods k))"
    "rpmdsEVR st (Some ods) = Some (fst (snd (entry_at st ods k)))"
    "rpmdsFlags (Some ods) = fst (snd (snd (entry_at st ods k)))"
    "rpmdsTi (Some ods) = snd (snd (snd (entry_at st ods k)))"
  using ds_wf_entry [OF assms(1,2)] assms(3)
  by (simp_all add: rpmdsN_def rpmdsEVR_def rpmdsFlags_def rpmdsTi_def entry_at_sel)

lemma merge_one_spec:
  assumes wf: "ds_wf st ds" "ds_wf st ods" and k: "k < nat (ds_Count ods)" "ds_i ods = int k"
    and ti: "ds_ti ods \<noteq> [] \<longrightarrow> nat (ds_Count ds) \<le> length (ds_ti ds)"
    and sorted: "dep_order.strictly_ascending (entries st ds)"
    and merge: "merge_one st ds ods = Some (st', ds')"
  shows "pools_extend st st'" "\<forall>p. pool_wf (st ! p) \<longrightarrow> pool_wf (st' ! p)"
    "ds_wf st' ds'" "dep_order.strictly_ascending (entries st' ds')"
    "set (entries st' ds') = insert (entry_at st ods k) (set (entries st ds))"
    "ds_ti ods \<noteq> [] \<longrightarrow> nat (ds_Count ds') \<le> length (ds_ti ds')"
proof -
  obtain rc u dsp where find: "doFind st (Some ds) (Some ods) = (rc, u, dsp)" by (metis prod.exhaust)
  note F = doFind_spec [OF wf k sorted find]
  obtain j where dsp: "dsp = Some (ds\<lparr>ds_i := j\<rparr>)" using F by blast
  let ?e = "entry_at st ods k" and ?p = "ds_pool ds"
  have "pools_extend st st' \<and> (\<forall>p. pool_wf (st ! p) \<longrightarrow> pool_wf (st' ! p)) \<and> ds_wf st' ds' \<and>
    dep_order.strictly_ascending (entries st' ds') \<and> set (entries st' ds') = insert ?e (set (entries st ds)) \<and>
    (ds_ti ods \<noteq> [] \<longrightarrow> nat (ds_Count ds') \<le> length (ds_ti ds'))"
  proof (cases "rc \<ge> 0")
    case True
    then have "st' = st" "ds' = ds\<lparr>ds_i := j\<rparr>" using merge by (simp_all add: merge_one_def find dsp)
    moreover have "?e \<in> set (entries st ds)" using F True by (metis length_entries nth_mem)
    ultimately show ?thesis using wf sorted ti by auto
  next
    case False
    from merge obtain pool st2 n e where pool: "rpmstrPoolUnfreeze (st ! ?p) = Some pool"
      and n: "pool_intern (st[?p := pool]) ?p (rpmdsN (st[?p := pool]) (Some ods)) = Some (st2, n)"
      and e: "pool_intern st2 ?p (rpmdsEVR st2 (Some ods)) = Some (st', e)"
      and ds': "ds' = ds\<lparr>ds_N := insert_at u n (ds_N ds), ds_EVR := insert_at u e (ds_EVR ds),
           ds_Flags := insert_at u (rpmdsFlags (Some ods)) (ds_Flags ds),
           ds_ti := (if ds_ti ds \<noteq> [] \<or> ds_ti ods \<noteq> []
                     then insert_at u (rpmdsTi (Some ods)) (ds_ti ds) else ds_ti ds),
           ds_i := ds_Count ds, ds_Count := ds_Count ds + 1\<rparr>"
      using False by (auto simp: merge_one_def find dsp Let_def split: Option.bind_splits)
    let ?st1 = "st[?p := pool]"
    have p: "?p < length st" "pool_wf (st ! ?p)" using wf(1) by (auto simp: ds_wf_def)
    note U = unfreeze_spec [OF pool p(2)]
    have x1: "pools_extend st ?st1" using p U by (intro pools_extend_update) auto
    have w1: "pool_wf (st ! q) \<longrightarrow> pool_wf (?st1 ! q)" for q using p U by (cases "q = ?p") auto
    have ods1: "ds_wf ?st1 ods" "entry_at ?st1 ods k = ?e"
      using ds_wf_extend(1,2) [OF wf(2) x1 _] k(1) w1 wf(2) by (auto simp: ds_wf_def)
    note N = pool_intern_spec [OF n [unfolded rpmds_current(1) [OF ods1(1) k]]]
    have N': "pools_extend ?st1 st2" "length st2 = length st" "pool_wf (st2 ! ?p)" "pool_open (st2 ! ?p)"
      "pool_str st2 ?p n = Some (fst ?e)" "\<And>q. q \<noteq> ?p \<Longrightarrow> st2 ! q = ?st1 ! q"
      using N p U ods1(2) by auto
    have w2: "pool_wf (st ! q) \<longrightarrow> pool_wf (st2 ! q)" for q using w1 [of q] N'(3) N'(6) [of q] by (cases "q = ?p") auto
    have x2: "pools_extend st st2" using pools_extend_trans [OF x1 N'(1)] .
    have ods2: "ds_wf st2 ods" "entry_at st2 ods k = ?e"
      using ds_wf_extend(1,2) [OF wf(2) x2 _] k(1) w2 wf(2) by (auto simp: ds_wf_def)
    note E = pool_intern_spec [OF e [unfolded rpmds_current(2) [OF ods2(1) k]]]
    have E': "pools_extend st2 st'" "pool_wf (st' ! ?p)" "pool_str st' ?p e = Some (fst (snd ?e))"
      "\<And>q. q \<noteq> ?p \<Longrightarrow> st' ! q = st2 ! q" using E p N' ods2(2) by auto
    have w3: "pool_wf (st ! q) \<longrightarrow> pool_wf (st' ! q)" for q using w2 [of q] E'(2) E'(4) [of q] by (cases "q = ?p") auto
    have x3: "pools_extend st st'" using pools_extend_trans [OF x2 E'(1)] .
    have n': "pool_str st' ?p n = Some (fst ?e)" using E'(1) N' p by (auto simp: pools_extend_def)
    note D = ds_wf_extend [OF wf(1) x3 E'(2)]
    have cur: "rpmdsFlags (Some ods) = fst (snd (snd ?e))" "rpmdsTi (Some ods) = snd (snd (snd ?e))"
      using rpmds_current [OF wf(2) k] by auto
    have "ds_wf st' ds' \<and> entries st' ds' =
        insert_at u (fst ?e, fst (snd ?e), rpmdsFlags (Some ods), rpmdsTi (Some ods)) (entries st' ds)"
    proof (rule insert_entry [OF D(1) _ n' E'(3) _ refl _ _ _ ds'])
      show "- 1 \<le> rpmdsTi (Some ods) \<and> rpmdsTi (Some ods) < 2 ^ 31 - 1" using ds_wf_ti [OF wf(2)] by (simp add: rpmdsTi_def)
      show "u \<le> nat (ds_Count ds)" using F False by simp
      show "unat (rpmdsFlags (Some ods)) < 2 ^ 31" using ds_wf_entry(3) [OF wf(2) k(1)] by (simp add: cur entry_at_sel)
      show "ds_ti ds \<noteq> [] \<or> ds_ti ods \<noteq> [] \<longrightarrow> nat (ds_Count ds) \<le> length (ds_ti ds)"
        using ti wf(1) by (auto simp: ds_wf_def)
      show "\<not> (ds_ti ds \<noteq> [] \<or> ds_ti ods \<noteq> []) \<longrightarrow> ds_ti ds = [] \<and> rpmdsTi (Some ods) = - 1"
        by (auto simp: cur entry_at_sel rpmdsTiIndex_def)
    qed
    then have "ds_wf st' ds'" "entries st' ds' = insert_at u ?e (entries st ds)" by (simp_all add: cur D(3))
    moreover have "ds_ti ods \<noteq> [] \<longrightarrow> nat (ds_Count ds') \<le> length (ds_ti ds')"
      using ti wf(1) by (auto simp: ds' ds_wf_def)
    ultimately show ?thesis using F False x3 w3 by (auto simp: set_insert_at)
  qed
  then show "pools_extend st st'" "\<forall>p. pool_wf (st ! p) \<longrightarrow> pool_wf (st' ! p)"
    "ds_wf st' ds'" "dep_order.strictly_ascending (entries st' ds')"
    "set (entries st' ds') = insert (entry_at st ods k) (set (entries st ds))"
    "ds_ti ods \<noteq> [] \<longrightarrow> nat (ds_Count ds') \<le> length (ds_ti ds')" by blast+
qed

lemma merge_loop_spec:
  assumes "merge_loop st ds ods ks = Some (st', ds')" "ds_wf st ds" "ds_wf st ods"
    and "\<forall>k \<in> set ks. k < nat (ds_Count ods)"
    and "ds_ti ods \<noteq> [] \<longrightarrow> nat (ds_Count ds) \<le> length (ds_ti ds)"
    and "dep_order.strictly_ascending (entries st ds)"
  shows "pools_extend st st' \<and> (\<forall>p. pool_wf (st ! p) \<longrightarrow> pool_wf (st' ! p)) \<and> ds_wf st' ds' \<and>
    dep_order.strictly_ascending (entries st' ds') \<and>
    set (entries st' ds') = set (entries st ds) \<union> entry_at st ods ` set ks"
  using assms
proof (induction st ds ods ks rule: merge_loop.induct)
  case (2 st ds ods k ks)
  let ?o = "ods\<lparr>ds_i := int k, ds_DNEVR := []\<rparr>"
  from "2.prems"(1) obtain st1 ds1 where one: "merge_one st ds ?o = Some (st1, ds1)"
    and rest: "merge_loop st1 ds1 ods ks = Some (st', ds')" by (auto split: Option.bind_splits)
  have o: "ds_wf st ?o" "k < nat (ds_Count ?o)" "ds_i ?o = int k" "ds_ti ?o = ds_ti ods"
    using "2.prems" by auto
  note M = merge_one_spec [OF "2.prems"(2) o(1,2,3) _ "2.prems"(6) one]
  have M': "pools_extend st st1" "\<forall>p. pool_wf (st ! p) \<longrightarrow> pool_wf (st1 ! p)" "ds_wf st1 ds1"
    "dep_order.strictly_ascending (entries st1 ds1)"
    "set (entries st1 ds1) = insert (entry_at st ods k) (set (entries st ds))"
    "ds_ti ods \<noteq> [] \<longrightarrow> nat (ds_Count ds1) \<le> length (ds_ti ds1)"
    using M "2.prems"(5) o(4) by auto
  have "pool_wf (st1 ! ds_pool ods)" using M'(2) "2.prems"(3) by (auto simp: ds_wf_def)
  note O = ds_wf_extend [OF "2.prems"(3) M'(1) this]
  have "entry_at st1 ods ` set ks = entry_at st ods ` set ks"
    using O(2) "2.prems"(4) by (intro image_cong) auto
  moreover have "pools_extend st1 st' \<and> (\<forall>p. pool_wf (st1 ! p) \<longrightarrow> pool_wf (st' ! p)) \<and> ds_wf st' ds' \<and>
    dep_order.strictly_ascending (entries st' ds') \<and>
    set (entries st' ds') = set (entries st1 ds1) \<union> entry_at st1 ods ` set ks"
    using "2.prems"(4) M' O(1) by (intro "2.IH" [OF one refl rest]) auto
  ultimately show ?case using M' by (auto intro: pools_extend_trans)
qed auto

lemma merge_prepare_spec:
  assumes "case dsp of None \<Rightarrow> 1 \<le> ds_Count ods
      | Some ds \<Rightarrow> ds_wf st ds \<and> dep_order.strictly_ascending (entries st ds)" "ds_wf st ods"
  shows "ds_wf st (merge_prepare dsp ods)" "dep_order.strictly_ascending (entries st (merge_prepare dsp ods))"
    "entries st (merge_prepare dsp ods) = (case dsp of None \<Rightarrow> [entry_at st ods 0] | Some ds \<Rightarrow> entries st ds)"
    "ds_ti ods \<noteq> [] \<longrightarrow> nat (ds_Count (merge_prepare dsp ods)) \<le> length (ds_ti (merge_prepare dsp ods))"
proof -
  define ds0 where "ds0 = (case dsp of None \<Rightarrow> rpmdsDup (ods\<lparr>ds_Count := 1\<rparr>) | Some ds \<Rightarrow> ds)"
  have wf0: "ds_wf st ds0"
    using assms by (cases dsp) (auto simp: ds0_def ds_wf_def rpmdsDup_def)
  have e0: "entries st ds0 = (case dsp of None \<Rightarrow> [entry_at st ods 0] | Some ds \<Rightarrow> entries st ds)"
    by (cases dsp) (auto simp: ds0_def rpmdsDup_def entries_def entry_at_def rpmdsNIndex_def
        rpmdsEVRIndex_def rpmdsFlagsIndex_def rpmdsTiIndex_def)
  have nil: "ds_EVR ds0 = [] \<Longrightarrow> nat (ds_Count ds0) = 0" "ds_Flags ds0 = [] \<Longrightarrow> nat (ds_Count ds0) = 0"
    using wf0 by (auto simp: ds_wf_def)
  have prep: "merge_prepare dsp ods = (if ds_ti ds0 = [] \<and> ds_ti ods \<noteq> []
      then ds0\<lparr>ds_ti := replicate (nat (ds_Count ds0)) (-1)\<rparr> else ds0)"
    using nil by (auto simp: merge_prepare_def ds0_def [symmetric] Let_def)
  have ti: "entries st (ds0\<lparr>ds_ti := replicate (nat (ds_Count ds0)) (-1)\<rparr>) = entries st ds0" if "ds_ti ds0 = []"
    using that by (auto simp: entries_def entry_at_def rpmdsNIndex_def rpmdsEVRIndex_def
        rpmdsFlagsIndex_def rpmdsTiIndex_def)
  show "ds_wf st (merge_prepare dsp ods)" using wf0 by (auto simp: prep ds_wf_def)
  show eq: "entries st (merge_prepare dsp ods) = (case dsp of None \<Rightarrow> [entry_at st ods 0] | Some ds \<Rightarrow> entries st ds)"
    using ti e0 by (auto simp: prep)
  show "dep_order.strictly_ascending (entries st (merge_prepare dsp ods))"
    using assms(1) unfolding eq by (cases dsp) (auto simp: dep_order.strictly_ascending_def)
  show "ds_ti ods \<noteq> [] \<longrightarrow> nat (ds_Count (merge_prepare dsp ods)) \<le> length (ds_ti (merge_prepare dsp ods))"
    using wf0 by (auto simp: prep ds_wf_def)
qed

text \<open> C17: Merging a dependency set into a strictly sorted one (or into none yet) gives a strictly
  sorted set whose entries (name, version, flags, trigger index) are exactly the union; the return
  value is the number of entries gained, no other pool string changes, and the other set keeps its
  entries. Both sets are well formed: flags are below 2^31 and trigger indexes from -1 to 2^31 - 2, so that the
  differences by which entries are compared do not overflow.\<close>

theorem rpmdsMerge_spec:
  assumes "case dsp of None \<Rightarrow> 1 \<le> ds_Count ods
      | Some ds \<Rightarrow> ds_wf st ds \<and> dep_order.strictly_ascending (entries st ds)"
    and "ds_wf st ods" and "rpmdsMerge st dsp (Some ods) = Some (st', Some ds', odsp', n)"
  shows "ds_wf st' ds' \<and> dep_order.strictly_ascending (entries st' ds') \<and>
    set (entries st' ds') = (case dsp of None \<Rightarrow> {} | Some ds \<Rightarrow> set (entries st ds)) \<union> set (entries st ods) \<and>
    n = int (length (entries st' ds')) - (case dsp of None \<Rightarrow> 0 | Some ds \<Rightarrow> int (length (entries st ds))) \<and>
    pools_extend st st' \<and> odsp' = Some (ods\<lparr>ds_DNEVR := []\<rparr>) \<and> entries st' ods = entries st ods"
proof -
  let ?ds = "merge_prepare dsp ods"
  note P = merge_prepare_spec [OF assms(1,2)]
  have loop: "merge_loop st ?ds ods [0..<nat (ds_Count ods)] = Some (st', ds')"
    and n: "n = ds_Count ds' - rpmdsCount dsp" "odsp' = Some (ods\<lparr>ds_DNEVR := []\<rparr>)"
    using assms(3) by (auto simp: rpmdsMerge_def split: Option.bind_splits)
  note L = merge_loop_spec [OF loop P(1) assms(2) _ P(4) P(2)]
  have L': "pools_extend st st'" "\<forall>p. pool_wf (st ! p) \<longrightarrow> pool_wf (st' ! p)" "ds_wf st' ds'"
    "dep_order.strictly_ascending (entries st' ds')"
    "set (entries st' ds') = set (entries st ?ds) \<union> entry_at st ods ` set [0..<nat (ds_Count ods)]"
    using L by auto
  have ods: "entries st' ods = entries st ods"
    using ds_wf_extend(3) [OF assms(2) L'(1)] L'(2) assms(2) by (auto simp: ds_wf_def)
  have "entry_at st ods ` set [0..<nat (ds_Count ods)] = set (entries st ods)" by (simp add: entries_def)
  moreover have "dsp = None \<Longrightarrow> entry_at st ods 0 \<in> set (entries st ods)"
    using assms(1) by (auto simp: entries_def)
  ultimately have set: "set (entries st' ds') =
      (case dsp of None \<Rightarrow> {} | Some ds \<Rightarrow> set (entries st ds)) \<union> set (entries st ods)"
    using L'(5) P(3) by (cases dsp) auto
  have "0 \<le> ds_Count ds'" "\<forall>ds. dsp = Some ds \<longrightarrow> 0 \<le> ds_Count ds"
    using L'(3) assms(1) by (auto simp: ds_wf_def)
  then have "n = int (length (entries st' ds')) - (case dsp of None \<Rightarrow> 0 | Some ds \<Rightarrow> int (length (entries st ds)))"
    by (cases dsp) (simp_all add: n rpmdsCount_def)
  then show ?thesis using L' set n(2) ods by simp
qed

definition demo_pool :: rpmstrPool where
  "demo_pool = \<lparr>offs = ['''', ''attr'', ''2.5'', ''bash'', ''5.2''], offs_alloced = 7, chunks_size = 1,
     chunks_allocated = 2, chunk_allocated = 32, chunk_used = 19, pool_hash = None, frozen = True\<rparr>"

definition demo_ds :: "nat list \<Rightarrow> nat list \<Rightarrow> rpmsenseFlags list \<Rightarrow> rpmds" where
  "demo_ds ns es fs = \<lparr>ds_pool = 0, ds_Type = ''Requires'', ds_DNEVR = [], ds_N = ns, ds_EVR = es,
     ds_Flags = fs, ds_Color = [], ds_tagN = RPMTAG_REQUIRENAME, ds_Count = int (length ns),
     ds_instance = 0, ds_i = -1, ds_ti = []\<rparr>"

lemma demo_wf: "ds_wf [demo_pool] (demo_ds [2, 4] [3, 5] [12, 8])" "ds_wf [demo_pool] (demo_ds [4] [5] [8])"
  by (auto simp: ds_wf_def demo_pool_def demo_ds_def pool_wf_def rpmstrPoolStr_def id2str_def less_2_cases_iff)

lemma demo_entries: "entries [demo_pool] (demo_ds [2, 4] [3, 5] [12, 8])
    = [(''attr'', ''2.5'', 12, -1), (''bash'', ''5.2'', 8, -1)]"
  "entries [demo_pool] (demo_ds [4] [5] [8]) = [(''bash'', ''5.2'', 8, -1)]"
  by (simp_all add: entries_def demo_ds_def demo_pool_def entry_at_def rpmdsNIndex_def rpmdsEVRIndex_def
      rpmdsFlagsIndex_def rpmdsTiIndex_def rpmstrPoolStr_def id2str_def upt_rec)

text \<open>Merging an entry that is new: the pool has the strings already, the entry goes to the end.\<close>

lemma merge_one_new:
  assumes "pool_wf pool" "pool_open pool" "id2str (offs pool) a = Some ''attr''" "id2str (offs pool) b = Some ''bash''" "id2str (offs pool) v = Some ''1''"
  shows "merge_one [pool] (demo_ds [a] [v] [8]) ((demo_ds [b] [v] [8])\<lparr>ds_i := 0, ds_DNEVR := []\<rparr>) =
    Some ([pool], (demo_ds [a, b] [v, v] [8, 8])\<lparr>ds_i := 1\<rparr>)"
proof -
  let ?ds = "demo_ds [a] [v] [8]" and ?ods = "(demo_ds [b] [v] [8])\<lparr>ds_i := 0, ds_DNEVR := []\<rparr>"
  have strs: "pool_str [pool] 0 a = Some ''attr''" "pool_str [pool] 0 b = Some ''bash''" "pool_str [pool] 0 v = Some ''1''"
    using assms(3-5) by (simp_all add: rpmstrPoolStr_def)
  have "strcmp ''bash'' ''attr'' > 0" by code_simp
  then have c: "find_cmp [pool] ?ds ?ods 0 > 0"
    using strs by (simp add: find_cmp_def demo_ds_def rpmdsN_def rpmdsNIndex_def)
  have find: "doFind [pool] (Some ?ds) (Some ?ods) = (-1, 1, Some (?ds\<lparr>ds_i := 0\<rparr>))"
    using c by (simp add: doFind_def doFind_loop.simps [of _ 0 1] doFind_loop.simps [of _ 1 1]) (simp add: demo_ds_def doFind_loop.simps)
  have open_pool: "rpmstrPoolUnfreeze pool = Some pool" using assms(2) by (auto simp: rpmstrPoolUnfreeze_def)
  have "pool_intern [pool] 0 (Some ''bash'') = Some ([pool], b)" "pool_intern [pool] 0 (Some ''1'') = Some ([pool], v)"
    using intern_present [OF assms(1,2)] assms(4,5) by (simp_all add: pool_intern_def)
  moreover have "rpmdsN [pool] (Some ?ods) = Some ''bash''" "rpmdsEVR [pool] (Some ?ods) = Some ''1''"
    using strs by (simp_all add: demo_ds_def rpmdsN_def rpmdsEVR_def rpmdsNIndex_def rpmdsEVRIndex_def)
  ultimately show ?thesis using open_pool
    by (simp add: merge_one_def find Let_def) (simp add: demo_ds_def insert_at_def rpmdsFlags_def rpmdsFlagsIndex_def)
qed

theorem rpmdsMerge_spec_witness:
  "\<exists>pool a b v st' ds' odsp'. pool_str [pool] 0 a = Some ''attr'' \<and> pool_str [pool] 0 b = Some ''bash'' \<and> pool_str [pool] 0 v = Some ''1'' \<and>
     rpmdsMerge [pool] (Some (demo_ds [a] [v] [8])) (Some (demo_ds [b] [v] [8])) = Some (st', Some ds', odsp', 1) \<and>
     set (entries st' ds') = {(''attr'', ''1'', 8, -1), (''bash'', ''1'', 8, -1)}"
proof -
  obtain pool where pool: "pool_wf pool" "pool_open pool" "set [''attr'', ''bash'', ''1''] \<subseteq> set (offs pool)"
    using interned_pool [of "[''attr'', ''bash'', ''1'']"] by auto
  have "\<exists>i. id2str (offs pool) i = Some t" if "t \<in> set (offs pool)" for t
    using that by (auto simp: in_set_conv_nth id2str_def intro: exI [of _ "Suc _"])
  then obtain a b v where ids: "id2str (offs pool) a = Some ''attr''" "id2str (offs pool) b = Some ''bash''" "id2str (offs pool) v = Some ''1''"
    using pool(3) by force
  let ?ds = "demo_ds [a] [v] [8]" and ?ods = "demo_ds [b] [v] [8]"
  have wf: "ds_wf [pool] ?ds" "ds_wf [pool] ?ods" using pool(1) ids by (auto simp: ds_wf_def demo_ds_def rpmstrPoolStr_def)
  have es: "entries [pool] ?ds = [(''attr'', ''1'', 8, -1)]" "entries [pool] ?ods = [(''bash'', ''1'', 8, -1)]"
    using ids by (simp_all add: entries_def demo_ds_def entry_at_def rpmdsNIndex_def rpmdsEVRIndex_def rpmdsFlagsIndex_def
        rpmdsTiIndex_def rpmstrPoolStr_def)
  have r: "rpmdsMerge [pool] (Some ?ds) (Some ?ods) =
      Some ([pool], Some ((demo_ds [a, b] [v, v] [8, 8])\<lparr>ds_i := 1\<rparr>), Some (?ods\<lparr>ds_DNEVR := []\<rparr>), 1)"
    using merge_one_new [OF pool(1,2) ids]
    by (simp add: rpmdsMerge_def merge_prepare_def Let_def) (simp add: demo_ds_def rpmdsCount_def)
  from rpmdsMerge_spec [OF _ wf(2) r] wf(1) es
  have "set (entries [pool] ((demo_ds [a, b] [v, v] [8, 8])\<lparr>ds_i := 1\<rparr>)) = {(''attr'', ''1'', 8, -1), (''bash'', ''1'', 8, -1)}"
    by (auto simp: dep_order.strictly_ascending_def)
  moreover have "pool_str [pool] 0 a = Some ''attr''" "pool_str [pool] 0 b = Some ''bash''" "pool_str [pool] 0 v = Some ''1''"
    using ids by (simp_all add: rpmstrPoolStr_def)
  ultimately show ?thesis using r by blast
qed

subsection \<open>Searching\<close>

lemma scan_down_spec:
  "scan_down eq l \<le> l" "scan_down eq l \<le> k \<Longrightarrow> k < l \<Longrightarrow> eq k"
  "0 < scan_down eq l \<Longrightarrow> \<not> eq (scan_down eq l - 1)"
  by (induction l) (auto simp: less_Suc_eq split: if_splits)

lemma scan_up_spec:
  "u < scan_up eq n u" "u < k \<Longrightarrow> k < scan_up eq n u \<Longrightarrow> eq k \<and> k < n"
  "scan_up eq n u < n \<Longrightarrow> \<not> eq (scan_up eq n u)"
proof (induction eq n u arbitrary: k rule: scan_up.induct)
  case (1 eq n u)
  { case 1 show ?case using "1.IH"(1) [OF refl] 
      by (subst scan_up.simps) (cases "u + 1 < n"; cases "eq (u + 1)"; simp add: Let_def) }
  { case 2 then show ?case using "1.IH"(2) [OF refl, of k]
      by (subst (asm) scan_up.simps, cases "k = Suc u") (auto simp: Let_def split: if_splits) }
  { case 3 then show ?case using "1.IH"(3) [OF refl]
      by (subst scan_up.simps, subst (asm) scan_up.simps) (auto simp: Let_def split: if_splits) }
qed

lemma search_range_spec:
  assumes "search_range cmp n l u = (l', u')" "u \<le> n"
    and "\<And>i j. i \<le> j \<Longrightarrow> j < n \<Longrightarrow> cmp i < 0 \<Longrightarrow> cmp j < 0"
    and "\<And>i j. i \<le> j \<Longrightarrow> j < n \<Longrightarrow> 0 < cmp j \<Longrightarrow> 0 < cmp i"
    and "\<And>i. i < l \<Longrightarrow> 0 < cmp i" "\<And>i. u \<le> i \<Longrightarrow> i < n \<Longrightarrow> cmp i < (0 :: int)"
  shows "l' \<le> k \<and> k < u' \<longleftrightarrow> k < n \<and> cmp k = 0"
  using assms
proof (induction cmp n l u rule: search_range.induct)
  case (1 cmp n l u)
  let ?i = "(l + u) div 2"
  note below = "1.prems"(5) and above = "1.prems"(6) and mono = "1.prems"(3,4)
  show ?case
  proof (cases "l < u")
    case False
    then have "l' = l" "u' = u" using "1.prems"(1) by (auto simp: search_range.simps)
    then show ?thesis using False below [of k] above [of k] by force
  next
    case lu: True
    then have i: "l \<le> ?i" "?i < u" "?i < n" using "1.prems"(2) by auto
    consider (neg) "cmp ?i < 0" | (pos) "cmp ?i > 0" | (hit) "cmp ?i = 0" by linarith
    then show ?thesis
    proof cases
      case neg
      then have "search_range cmp n l ?i = (l', u')"
        using "1.prems"(1) lu by (subst (asm) search_range.simps) (simp add: Let_def)
      from "1.IH"(1) [OF lu refl refl neg this] i mono below show ?thesis
        using mono(1) [OF _ _ neg] by auto
    next
      case pos
      then have "search_range cmp n (?i + 1) u = (l', u')"
        using "1.prems"(1) lu by (subst (asm) search_range.simps) (simp add: Let_def)
      from "1.IH"(2) [OF lu refl refl _ pos this] i mono above pos "1.prems"(2) show ?thesis
        using mono(2) [OF _ _ pos] by (auto simp: less_Suc_eq_le)
    next
      case hit
      define l0 where "l0 = (if cmp l \<noteq> 0 then ?i else l)"
      define u0 where "u0 = (if u \<ge> n \<or> cmp u \<noteq> 0 then ?i else u)"
      have r: "l' = scan_down (\<lambda>k. cmp k = 0) l0" "u' = scan_up (\<lambda>k. cmp k = 0) n u0"
        using "1.prems"(1) lu hit by (subst (asm) search_range.simps, simp add: Let_def l0_def u0_def)+
      have zero: "cmp l0 = 0" "cmp u0 = 0" "l0 \<le> u0" "u0 < n"
        using hit i above [of u] by (auto simp: l0_def u0_def)
      have mid: "cmp k = 0" if "a \<le> k" "k \<le> b" "b < n" "cmp a = 0" "cmp b = 0" for a b k
        using mono(1) [of k b] mono(2) [of a k] that by (metis linorder_neqE_linordered_idom order_less_irrefl le_less_trans)
      show ?thesis
      proof
        assume k: "l' \<le> k \<and> k < u'"
        consider "k < l0" | "l0 \<le> k" "k \<le> u0" | "u0 < k" by linarith
        then show "k < n \<and> cmp k = 0"
          using k zero mid [of l0 k u0] scan_down_spec(2) [of "\<lambda>k. cmp k = 0" l0 k]
            scan_up_spec(2) [of u0 k "\<lambda>k. cmp k = 0" n] unfolding r by cases auto
      next
        assume k: "k < n \<and> cmp k = 0"
        have "\<not> k < l'"
        proof
          assume "k < l'"
          then have "cmp (l' - 1) \<noteq> 0" "k \<le> l' - 1" "l' - 1 \<le> l0"
            using scan_down_spec(3) [of "\<lambda>k. cmp k = 0" l0] scan_down_spec(1) [of "\<lambda>k. cmp k = 0" l0] by (auto simp: r)
          then show False using mid [of k "l' - 1" l0] k zero by simp
        qed
        moreover have "\<not> u' \<le> k"
        proof
          assume "u' \<le> k"
          then have "cmp u' \<noteq> 0" "u0 \<le> u'"
            using scan_up_spec(3) [of "\<lambda>k. cmp k = 0" n u0] scan_up_spec(1) [of u0 "\<lambda>k. cmp k = 0" n] k by (auto simp: r)
          then show False using mid [of u0 u' k] k zero \<open>u' \<le> k\<close> by simp
        qed
        ultimately show "l' \<le> k \<and> k < u'" by simp
      qed
    qed
  qed
qed

lemma first_overlap_spec:
  "first_overlap ov ls = (case find ov ls of None \<Rightarrow> -1 | Some l \<Rightarrow> int l)"
  by (induction ls) auto

lemma rpmdsCompareIndex_name:
  assumes "rpmdsCompareIndex st A (int a) B (int b)" "ds_wf st A" "ds_wf st B"
    "a < nat (ds_Count A)" "b < nat (ds_Count B)"
  shows "fst (entry_at st A a) = fst (entry_at st B b)"
proof -
  let ?sa = "rpmdsNIdIndex (Some A) (int a)" and ?sb = "rpmdsNIdIndex (Some B) (int b)"
  have ids: "?sa = ds_N A ! a" "?sb = ds_N B ! b" using assms by (auto simp: rpmdsNIdIndex_def ds_wf_def)
  have n: "rpmdsNIndex st (Some A) (int a) = pool_str st (ds_pool A) ?sa"
    "rpmdsNIndex st (Some B) (int b) = pool_str st (ds_pool B) ?sb"
    using assms by (auto simp: rpmdsNIndex_def ids ds_wf_def)
  have "the (rpmstrPoolStreq (ds_pool A = ds_pool B) (st ! ds_pool A) ?sa (st ! ds_pool B) ?sb)"
    using assms(1) by (simp add: rpmdsCompareIndex_def split: if_splits)
  then have "pool_str st (ds_pool A) ?sa = pool_str st (ds_pool B) ?sb"
    using n ds_wf_entry(1) [OF assms(2,4)] ds_wf_entry(1) [OF assms(3,5)]
    by (cases "ds_pool A = ds_pool B")
      (auto simp: rpmstrPoolStreq_def rpmstrPoolStr_def rstreq_iff split: option.splits)
  then show ?thesis using n by (simp add: entry_at_def)
qed

text \<open> C24: On a set sorted by name \<open>rpmdsSearch\<close> is complete and returns the first match: the least
  index whose element overlaps the wanted dependency, -1 exactly if no element of the set does.\<close>

theorem rpmdsSearch_first_overlap:
  assumes "ds_wf st ds" "ds_wf st ods" "k < nat (ds_Count ods)" "ds_i ods = int k"
    and "strcmp.ascending (map fst (entries st ds))"
  shows "rpmdsSearch st (Some ds) (Some ods) =
    (case find (\<lambda>j. rpmdsCompareIndex st ods (int k) ds (int j)) [0..<nat (ds_Count ds)] of
       None \<Rightarrow> -1 | Some j \<Rightarrow> int j)"
proof -
  let ?n = "nat (ds_Count ds)" and ?on = "fst (entry_at st ods k)"
  let ?c = "\<lambda>i. strcmp (the (rpmdsN st (Some ods))) (the (rpmdsNIndex st (Some ds) (int i)))"
  let ?ov = "\<lambda>j. rpmdsCompareIndex st ods (int k) ds (int j)"
  have c: "?c i = strcmp ?on (fst (entry_at st ds i))" for i
    using rpmds_current(1) [OF assms(2,3,4)] by (simp add: entry_at_def)
  have asc: "strcmp (fst (entry_at st ds i)) (fst (entry_at st ds j)) \<le> 0" if "i \<le> j" "j < ?n" for i j
    using assms(5) that by (cases "i = j") (auto simp: strcmp.ascending_def nth_entries strcmp.cmp_refl)
  obtain l u where lu: "search_range ?c ?n 0 ?n = (l, u)" by force
  have range: "l \<le> i \<and> i < u \<longleftrightarrow> i < ?n \<and> ?c i = 0" for i
  proof (rule search_range_spec [OF lu])
    show "?c i < 0 \<Longrightarrow> ?c j < 0" if "i \<le> j" "j < ?n" for i j
      unfolding c by (rule strcmp.cmp_less_le_trans [OF _ asc [OF that]])
    show "0 < ?c j \<Longrightarrow> 0 < ?c i" if "i \<le> j" "j < ?n" for i j
      unfolding c using strcmp.cmp_le_less_trans [OF asc [OF that], of ?on]
        strcmp.cmp_flip [of "fst (entry_at st ds j)" ?on] strcmp.cmp_flip [of "fst (entry_at st ds i)" ?on] by simp
  qed simp_all
  have ov: "?c j = 0" if "j < ?n" "?ov j" for j
    using rpmdsCompareIndex_name [OF that(2) assms(2,1,3) that(1)] by (simp add: c)
  have "find ?ov [l..<u] = find ?ov [0..<?n]"
  proof (cases "find ?ov [0..<?n]")
    case None
    then have "find ?ov [l..<u] = None" using range by (auto simp: find_None_iff)
    then show ?thesis using None by simp
  next
    case (Some j)
    then have j: "j < ?n" "?ov j" "\<forall>i < j. \<not> ?ov i" by (auto simp: find_Some_iff)
    then have "l \<le> j \<and> j < u" using ov range by blast
    moreover have "\<forall>i < j - l. \<not> ?ov (l + i)" using j(3) by (metis add.commute less_diff_conv)
    ultimately have "find ?ov [l..<u] = Some j"
      using j by (auto simp: find_Some_iff intro!: exI [of _ "j - l"])
    then show ?thesis using Some by simp
  qed
  then show ?thesis by (simp add: rpmdsSearch_def lu first_overlap_spec rpmdsIx_def assms(4))
qed

theorem rpmdsSearch_first_overlap_witness:
  "rpmdsSearch [demo_pool] (Some (demo_ds [2, 4] [3, 5] [12, 8])) (Some ((demo_ds [4] [5] [8])\<lparr>ds_i := 0\<rparr>)) = 1"
proof -
  let ?ds = "demo_ds [2, 4] [3, 5] [12, 8]" and ?ods = "(demo_ds [4] [5] [8])\<lparr>ds_i := 0\<rparr>"
  have "strcmp ''attr'' ''bash'' \<le> 0" by code_simp
  then have asc: "strcmp.ascending (map fst (entries [demo_pool] ?ds))"
    unfolding demo_entries strcmp.ascending_def by (auto simp: less_Suc_eq numeral_2_eq_2)
  have wf: "ds_wf [demo_pool] ?ods" "0 < nat (ds_Count ?ods)" "ds_i ?ods = int 0"
    subgoal using demo_wf(2) by simp
    subgoal by (simp add: demo_ds_def)
    subgoal by simp
    done
  have n: "[0..<nat (ds_Count ?ds)] = [0, 1]" by (simp add: demo_ds_def upt_rec)
  have "\<not> rpmdsCompareIndex [demo_pool] ?ods (int 0) ?ds (int 0)"
    "rpmdsCompareIndex [demo_pool] ?ods (int 0) ?ds (int 1)"
    by code_simp+
  then show ?thesis
    using rpmdsSearch_first_overlap [OF demo_wf(1) wf asc] unfolding n by simp
qed

text \<open>Whether two dependencies overlap does not depend on their order.\<close>

theorem rpmdsCompareIndex_sym:
  "rpmdsCompareIndex st A a B b = rpmdsCompareIndex st B b A a"
proof -
  have "the (rpmstrPoolStreq (ds_pool A = ds_pool B) (st ! ds_pool A) x (st ! ds_pool B) y) =
      the (rpmstrPoolStreq (ds_pool B = ds_pool A) (st ! ds_pool B) y (st ! ds_pool A) x)" for x y
    by (auto simp: rpmstrPoolStreq_def split: option.splits)
  then show ?thesis unfolding rpmdsCompareIndex_def Let_def
    using rpmverOverlap_flip by (auto split: option.splits)
qed

subsection \<open>Reading a set from a header\<close>

lemma td2pool_intern_all:
  "p < length st \<Longrightarrow> td2pool st p ss =
     map_option (\<lambda>(pool, sids). (st[p := pool], sids)) (strpool.intern_all (st ! p) ss)"
  by (induction ss arbitrary: st)
    (auto simp: pool_intern_def split: Option.bind_splits option.splits prod.splits)

lemma td2pool_spec:
  assumes "td2pool st p ss = Some (st', sids)" "p < length st" "pool_wf (st ! p)" "pool_open (st ! p)"
  shows "length st' = length st" "pool_wf (st' ! p)" "pool_open (st' ! p)"
    "map (pool_str st' p) sids = map Some ss" "pools_extend st st'" "length sids = length ss"
proof -
  obtain pool where r: "strpool.intern_all (st ! p) ss = Some (pool, sids)" "st' = st[p := pool]"
    using assms(1) by (auto simp: td2pool_intern_all [OF assms(2)])
  note N = strpool.intern_all_names [OF assms(3,4) r(1)]
  show "length st' = length st" "pool_wf (st' ! p)" "pool_open (st' ! p)"
    "map (pool_str st' p) sids = map Some ss"
    using N assms(2) by (auto simp: r(2) rpmstrPoolStr_def)
  then show "length sids = length ss" by (metis length_map)
  show "pools_extend st st'" unfolding r(2) using N by (intro pools_extend_update [OF assms(2)]) auto
qed

definition mark_flag :: "cstr \<Rightarrow> rpmsenseFlags \<Rightarrow> rpmsenseFlags" where
  "mark_flag n f = (if \<not> has f RPMSENSE_RPMLIB \<and> rstreqn n ''rpmlib('' 7 then f OR RPMSENSE_RPMLIB else f)"

lemma mark_rpmlib_eq:
  assumes "nat (ds_Count ds) = length (ds_Flags ds)" "length (ds_N ds) = length (ds_Flags ds)"
  shows "mark_rpmlib st ds = ds\<lparr>ds_Flags := map2 (\<lambda>n f. mark_flag (the (pool_str st (ds_pool ds) n)) f)
           (ds_N ds) (ds_Flags ds)\<rparr>"
proof -
  let ?n = "length (ds_Flags ds)"
  let ?g = "\<lambda>i. mark_flag (the (pool_str st (ds_pool ds) (ds_N ds ! i))) (ds_Flags ds ! i)"
  let ?step = "\<lambda>i ds.
        if \<not> has (rpmdsFlagsIndex (Some ds) (int i)) RPMSENSE_RPMLIB
           \<and> rstreqn (the (rpmdsNIndex st (Some ds) (int i))) ''rpmlib('' 7
        then ds\<lparr>ds_Flags := (ds_Flags ds)[i := ds_Flags ds ! i OR RPMSENSE_RPMLIB]\<rparr> else ds"
  define step where "step = ?step"
  have "m \<le> ?n \<Longrightarrow> fold step [0..<m] ds = ds\<lparr>ds_Flags := map ?g [0..<m] @ drop m (ds_Flags ds)\<rparr>" for m
  proof (induction m)
    case (Suc m)
    let ?d = "ds\<lparr>ds_Flags := map ?g [0..<m] @ drop m (ds_Flags ds)\<rparr>"
    have drop: "drop m (ds_Flags ds) = ds_Flags ds ! m # drop (Suc m) (ds_Flags ds)"
      using Suc.prems by (simp add: Cons_nth_drop_Suc)
    have "rpmdsFlagsIndex (Some ?d) (int m) = ds_Flags ds ! m"
      "rpmdsNIndex st (Some ?d) (int m) = pool_str st (ds_pool ds) (ds_N ds ! m)"
      using Suc.prems assms(2) by (simp_all add: rpmdsFlagsIndex_def rpmdsNIndex_def nth_append)
    moreover have "(map ?g [0..<m] @ drop m (ds_Flags ds))[m := v] = map ?g [0..<m] @ v # drop (Suc m) (ds_Flags ds)" for v
      unfolding drop by (simp add: list_update_append)
    ultimately have "step m ?d = ds\<lparr>ds_Flags := map ?g [0..<Suc m] @ drop (Suc m) (ds_Flags ds)\<rparr>"
      by (auto simp: step_def mark_flag_def nth_append drop)
    then show ?case using Suc by simp
  qed simp
  from this [of ?n] have "mark_rpmlib st ds = ds\<lparr>ds_Flags := map ?g [0..<?n]\<rparr>"
    by (simp add: mark_rpmlib_def assms(1) step_def)
  moreover have "map ?g [0..<?n] = map2 (\<lambda>n f. mark_flag (the (pool_str st (ds_pool ds) n)) f) (ds_N ds) (ds_Flags ds)"
    using assms(2) by (intro nth_equalityI) auto
  ultimately show ?thesis by simp
qed

lemma freeze_private_str: "ds_pool ds < length st \<Longrightarrow> pool_str (freeze_private st pool ds) p i = pool_str st p i"
  by (cases "p = ds_pool ds") (auto simp: freeze_private_def rpmstrPoolStr_def rpmstrPoolFreeze_def)

lemma newPool_fill_spec:
  assumes "newPool_fill st pool inst tagN Type names evr fl ti = Some (st', ds)"
    and "case pool of None \<Rightarrow> True | Some p \<Rightarrow> p < length st \<and> pool_wf (st ! p) \<and> pool_open (st ! p)"
    and "length fl = length names"
  shows "ds_Count ds = int (length names) \<and> ds_ti ds = ti \<and>
    map (pool_str st' (ds_pool ds)) (ds_N ds) = map Some names \<and>
    map (pool_str st' (ds_pool ds)) (ds_EVR ds) = map Some evr \<and>
    ds_Flags ds = (if tagN = RPMTAG_REQUIRENAME then map2 mark_flag names fl else fl)"
proof -
  obtain st1 ds0 st2 ns st3 es where
    c: "rpmdsCreate st pool tagN Type (int (length names)) inst = Some (st1, ds0)"
    and n: "td2pool st1 (ds_pool ds0) names = Some (st2, ns)"
    and e: "td2pool st2 (ds_pool ds0) evr = Some (st3, es)"
    and r: "let d = ds0\<lparr>ds_N := ns, ds_EVR := es, ds_Flags := fl, ds_ti := ti\<rparr>;
               d = (if tagN = RPMTAG_REQUIRENAME \<and> ds_Flags d \<noteq> [] then mark_rpmlib st3 d else d)
            in st' = freeze_private st3 pool d \<and> ds = d"
    using assms(1) unfolding newPool_fill_def Let_def by (auto simp: bind_eq_Some_conv split: prod.splits)
  have new: "pool_wf p \<and> pool_open p" if "rpmstrPoolCreate = Some p" for p
    using that rpmstrPoolCreate_wf by (auto simp: rpmstrPoolCreate_eq)
  have p: "ds_pool ds0 < length st1" "pool_wf (st1 ! ds_pool ds0)" "pool_open (st1 ! ds_pool ds0)"
    "ds_Count ds0 = int (length names)"
    using c assms(2) new by (auto simp: rpmdsCreate_def nth_append split: option.splits Option.bind_splits)
  note N = td2pool_spec [OF n p(1-3)]
  have p2: "ds_pool ds0 < length st2" using N(1) p(1) by simp
  note E = td2pool_spec [OF e p2 N(2,3)]
  have names3: "map (pool_str st3 (ds_pool ds0)) ns = map Some names"
    using N(4) E(5) p2 by (auto simp: list_eq_iff_nth_eq pools_extend_def)
  let ?d = "ds0\<lparr>ds_N := ns, ds_EVR := es, ds_Flags := fl, ds_ti := ti\<rparr>"
  have marked: "mark_rpmlib st3 ?d = ?d\<lparr>ds_Flags := map2 mark_flag names fl\<rparr>"
  proof -
    have "map2 (\<lambda>n f. mark_flag (the (pool_str st3 (ds_pool ds0) n)) f) ns fl = map2 mark_flag names fl"
      using names3 N(6) assms(3) by (auto simp: list_eq_iff_nth_eq)
    then show ?thesis using mark_rpmlib_eq [of ?d st3] p(4) N(6) assms(3) by simp
  qed
  have ds: "ds = (if tagN = RPMTAG_REQUIRENAME \<and> fl \<noteq> [] then mark_rpmlib st3 ?d else ?d)"
    "st' = freeze_private st3 pool ds" using r by (simp_all add: Let_def)
  have sel: "ds_pool ds = ds_pool ds0" "ds_N ds = ns" "ds_EVR ds = es" "ds_Count ds = int (length names)"
    "ds_Flags ds = (if tagN = RPMTAG_REQUIRENAME then map2 mark_flag names fl else fl)" "ds_ti ds = ti"
    using p(4) by (auto simp: ds(1) marked)
  have "pool_str st' (ds_pool ds) = pool_str st3 (ds_pool ds0)"
    using p2 E(1) N(1) by (simp add: fun_eq_iff ds(2) sel(1) freeze_private_str)
  then show ?thesis using sel names3 E(4) by simp
qed

text \<open> A dependency set read from a header has exactly the header's names and versions, in
  order, and its flags, where a requirement of a name starting with rpmlib( also gets the RPMLIB
  flag; it is NULL exactly if the version, flag or trigger index array has another length.\<close>

theorem rpmdsNewPool_entries:
  assumes "dsType tagN = Some (Type, tagEVR, tagF, tagTi)" "hdr_strs h tagN = Some names"
    and "rpmdsNewPool st pool h tagN = Some (st', dsp)"
    and "case pool of None \<Rightarrow> True | Some p \<Rightarrow> p < length st \<and> pool_wf (st ! p) \<and> pool_open (st ! p)"
  shows "if length (tag_data (hdr_strs h tagEVR)) = length names \<and>
            length (tag_data (hdr_nums h tagF)) = length names \<and>
            (tagTi \<noteq> 0 \<longrightarrow> length (tag_data (hdr_nums h tagTi)) = length names)
         then \<exists>ds. dsp = Some ds \<and> ds_Count ds = int (length names) \<and>
           map (pool_str st' (ds_pool ds)) (ds_N ds) = map Some names \<and>
           map (pool_str st' (ds_pool ds)) (ds_EVR ds) = map Some (tag_data (hdr_strs h tagEVR)) \<and>
           ds_Flags ds = (if tagN = RPMTAG_REQUIRENAME then map2 mark_flag names (tag_data (hdr_nums h tagF))
                          else tag_data (hdr_nums h tagF))
         else dsp = None \<and> st' = st"
proof -
  note D = assms(3) [unfolded rpmdsNewPool_def assms(1,2) option.case prod.case Let_def]
  show ?thesis
  proof (cases "length (tag_data (hdr_strs h tagEVR)) = length names \<and>
            length (tag_data (hdr_nums h tagF)) = length names \<and>
            (tagTi \<noteq> 0 \<longrightarrow> length (tag_data (hdr_nums h tagTi)) = length names)")
    case True
    with D obtain ds where "newPool_fill st pool (hdr_instance h) tagN Type names
        (tag_data (hdr_strs h tagEVR)) (tag_data (hdr_nums h tagF))
        (if tagTi \<noteq> 0 then map sint (tag_data (hdr_nums h tagTi)) else []) = Some (st', ds)" "dsp = Some ds"
      by (auto split: if_splits)
    from newPool_fill_spec [OF this(1) assms(4)] this(2) True show ?thesis by simp
  qed (use D in auto)
qed

theorem rpmdsNewPool_entries_witness:
  "\<exists>h :: hdr. hdr_strs h RPMTAG_CONFLICTNAME = Some [] \<and>
     (\<exists>ds st'. rpmdsNewPool [] None h RPMTAG_CONFLICTNAME = Some (st', Some ds) \<and> ds_Count ds = 0)"
proof -
  let ?h = "\<lparr>hdr_strs = (\<lambda>t. if t = RPMTAG_CONFLICTNAME then Some [] else None), hdr_nums = (\<lambda>t. None),
    hdr_name = None, hdr_evr = None, hdr_instance = 0\<rparr> :: hdr"
  have t: "dsType RPMTAG_CONFLICTNAME = Some (''Conflicts'', 1055, 1053, 0)"
    by (simp add: dsType_def depinfoByTag_def depTypes_def)
  obtain st' dsp where r: "rpmdsNewPool [] None ?h RPMTAG_CONFLICTNAME = Some (st', dsp)"
    by (auto simp: rpmdsNewPool_def t newPool_fill_def rpmdsCreate_def rpmstrPoolCreate_eq Let_def)
  from rpmdsNewPool_entries [OF t _ r] obtain ds where "dsp = Some ds" "ds_Count ds = 0" by auto
  with r show ?thesis by (intro exI [of _ ?h]) auto
qed

end
