(* ===== verification/Richdep.thy ===== *)
theory Richdep
  imports Rpmds "HOL-Library.Sublist"
begin

text \<open>
  Rich (boolean) dependencies, the second half of lib/rpmds.cc: the recursive-descent parser
  \<open>rpmrichParseInternal\<close> with its callback, the checks of operator combinations, and
  \<open>rpmdsParseRichDep\<close>, which splits a rich dependency into its two sides.

  A pointer into the parsed text is the text from there on.  The callback takes the caller's state
  and returns the new one or an error.  Every error message is a constructor of \<open>rich_error\<close>.  The
  parser's recursion is bounded by fuel; \<open>RichNoFuel\<close> never comes out of \<open>rpmrichParse\<close>, which
  supplies twice the length of the text plus two (proved below).
\<close>

datatype rpmrichOp = RPMRICHOP_NONE | RPMRICHOP_SINGLE | RPMRICHOP_AND | RPMRICHOP_OR | RPMRICHOP_IF
  | RPMRICHOP_ELSE | RPMRICHOP_WITH | RPMRICHOP_WITHOUT | RPMRICHOP_UNLESS

datatype rpmrichParseType = RPMRICH_PARSE_SIMPLE | RPMRICH_PARSE_ENTER | RPMRICH_PARSE_LEAVE
  | RPMRICH_PARSE_OP

datatype rich_error = RichUnknownOp cstr | RichNameRequired | RichVersionRequired | RichIllegalWith
  | RichIllegalUnless | RichIllegalIf | RichNoOpenParen | RichMissingArgument | RichEmpty
  | RichUnterminated | RichChainDifferent | RichChainIllegal | RichCallback | RichJunk | RichPoolLoop
  | RichNoFuel

text \<open>Arguments of the callback: kind, name text and length, version text and length, sense, operator.\<close>

type_synonym 's rich_cb =
  "'s \<Rightarrow> rpmrichParseType \<Rightarrow> cstr \<Rightarrow> nat \<Rightarrow> cstr option \<Rightarrow> nat \<Rightarrow> rpmsenseFlags \<Rightarrow> rpmrichOp \<Rightarrow> rich_error + 's"

subsection \<open>Operators and white space\<close>

definition RichOps :: "(cstr \<times> rpmrichOp) list" where
  "RichOps =
     [(''and'', RPMRICHOP_AND), (''or'', RPMRICHOP_OR), (''if'', RPMRICHOP_IF),
      (''unless'', RPMRICHOP_UNLESS), (''else'', RPMRICHOP_ELSE), (''with'', RPMRICHOP_WITH),
      (''without'', RPMRICHOP_WITHOUT)]"

definition parseRichDepOp :: "cstr \<Rightarrow> rich_error + (rpmrichOp \<times> cstr)" where
  "parseRichDepOp p =
     (let w = takeWhile (\<lambda>c. \<not> risspace c \<and> c \<noteq> CHR '')'') p in
      case find (\<lambda>(token, op). length w = length token \<and> rstreqn p token (length w)) RichOps of
        Some (_, op) \<Rightarrow> Inr (op, drop (length w) p)
      | None \<Rightarrow> Inl (RichUnknownOp w))"

fun rpmrichOpStr :: "rpmrichOp \<Rightarrow> cstr option" where
  "rpmrichOpStr RPMRICHOP_SINGLE = Some ''SINGLE''"
| "rpmrichOpStr RPMRICHOP_AND = Some ''and''"
| "rpmrichOpStr RPMRICHOP_OR = Some ''or''"
| "rpmrichOpStr RPMRICHOP_IF = Some ''if''"
| "rpmrichOpStr RPMRICHOP_UNLESS = Some ''unless''"
| "rpmrichOpStr RPMRICHOP_ELSE = Some ''else''"
| "rpmrichOpStr RPMRICHOP_WITH = Some ''with''"
| "rpmrichOpStr RPMRICHOP_WITHOUT = Some ''without''"
| "rpmrichOpStr RPMRICHOP_NONE = None"

definition SKIPWHITE :: "cstr \<Rightarrow> cstr" where
  "SKIPWHITE x = dropWhile (\<lambda>c. risspace c \<or> c = CHR '','') x"

text \<open>\<open>SKIPNONWHITEX\<close> with its counter \<open>bl\<close> of open parentheses.\<close>

fun SKIPNONWHITEX :: "int \<Rightarrow> cstr \<Rightarrow> cstr" where
  "SKIPNONWHITEX bl [] = []"
| "SKIPNONWHITEX bl (c # x) =
     (if risspace c \<or> c = CHR '','' then c # x
      else if c = CHR '')''
      then if bl \<le> 0 then c # x else SKIPNONWHITEX (bl - 1) x
      else SKIPNONWHITEX (if c = CHR ''('' then bl + 1 else bl) x)"

subsection \<open>The parser\<close>

definition parseSimpleDep :: "'s rich_cb \<Rightarrow> 's \<Rightarrow> cstr \<Rightarrow> rich_error + ('s \<times> cstr)" where
  "parseSimpleDep cb st n =
     (let p = SKIPNONWHITEX 0 n; nl = length n - length p in
      if nl = 0 then Inl RichNameRequired
      else
        let p = SKIPWHITE p; pe = SKIPNONWHITEX 0 p;
            sense = (if p \<noteq> [] then rpmParseDSFlags p (length p - length pe) else 0);
            e = SKIPWHITE pe; p' = SKIPNONWHITEX 0 e; el = length e - length p' in
        if sense \<noteq> 0
        then if el = 0 then Inl RichVersionRequired
          else (case cb st RPMRICH_PARSE_SIMPLE n nl (Some e) el sense RPMRICHOP_SINGLE of
                  Inl err \<Rightarrow> Inl err | Inr st \<Rightarrow> Inr (st, p'))
        else (case cb st RPMRICH_PARSE_SIMPLE n nl None 0 0 RPMRICHOP_SINGLE of
                Inl err \<Rightarrow> Inl err | Inr st \<Rightarrow> Inr (st, p)))"

text \<open>The \<open>RICHPARSE_*\<close> bits as a record of flags.\<close>

record richparse =
  RICHPARSE_CHECK :: bool
  RICHPARSE_NO_WITH :: bool
  RICHPARSE_NO_AND :: bool
  RICHPARSE_NO_OR :: bool

abbreviation no_check :: richparse where
  "no_check \<equiv> \<lparr>RICHPARSE_CHECK = False, RICHPARSE_NO_WITH = False, RICHPARSE_NO_AND = False,
     RICHPARSE_NO_OR = False\<rparr>"

definition check_or :: "richparse \<Rightarrow> richparse \<Rightarrow> richparse" where
  "check_or a b =
     \<lparr>RICHPARSE_CHECK = RICHPARSE_CHECK a \<or> RICHPARSE_CHECK b,
      RICHPARSE_NO_WITH = RICHPARSE_NO_WITH a \<or> RICHPARSE_NO_WITH b,
      RICHPARSE_NO_AND = RICHPARSE_NO_AND a \<or> RICHPARSE_NO_AND b,
      RICHPARSE_NO_OR = RICHPARSE_NO_OR a \<or> RICHPARSE_NO_OR b\<rparr>"

definition rpmrichParseCheck :: "rpmrichOp \<Rightarrow> richparse \<Rightarrow> rich_error option" where
  "rpmrichParseCheck op check =
     (if (op = RPMRICHOP_WITH \<or> op = RPMRICHOP_WITHOUT) \<and> RICHPARSE_NO_WITH check
      then Some RichIllegalWith
      else if \<not> RICHPARSE_CHECK check then None
      else if (op = RPMRICHOP_AND \<or> op = RPMRICHOP_IF) \<and> RICHPARSE_NO_AND check
      then Some RichIllegalUnless
      else if (op = RPMRICHOP_OR \<or> op = RPMRICHOP_UNLESS) \<and> RICHPARSE_NO_OR check
      then Some RichIllegalIf
      else None)"

text \<open>The updates of the check data after the closing parenthesis.\<close>

definition richparse_update :: "rpmrichOp \<Rightarrow> rpmrichOp \<Rightarrow> richparse \<Rightarrow> richparse" where
  "richparse_update firstop op check =
     (let check = (if firstop = RPMRICHOP_IF then check\<lparr>RICHPARSE_NO_OR := True\<rparr> else check);
          check = (if firstop = RPMRICHOP_UNLESS then check\<lparr>RICHPARSE_NO_AND := True\<rparr> else check);
          check = (if op = RPMRICHOP_AND \<or> op = RPMRICHOP_OR
                   then check\<lparr>RICHPARSE_NO_AND := False, RICHPARSE_NO_OR := False\<rparr> else check)
      in if op \<noteq> RPMRICHOP_SINGLE \<and> op \<noteq> RPMRICHOP_WITH \<and> op \<noteq> RPMRICHOP_WITHOUT \<and> op \<noteq> RPMRICHOP_OR
         then check\<lparr>RICHPARSE_NO_WITH := True\<rparr> else check)"

text \<open>The tests of an operator against the chain: the new chain operator or an error.\<close>

definition chain_check :: "rpmrichOp \<Rightarrow> rpmrichOp \<Rightarrow> rich_error option" where
  "chain_check chainop op =
     (let chainop = (if op = RPMRICHOP_ELSE \<and> (chainop = RPMRICHOP_IF \<or> chainop = RPMRICHOP_UNLESS)
                     then RPMRICHOP_NONE else chainop) in
      if chainop \<noteq> RPMRICHOP_NONE \<and> op \<noteq> chainop then Some RichChainDifferent
      else if chainop \<noteq> RPMRICHOP_NONE \<and> op \<noteq> RPMRICHOP_AND \<and> op \<noteq> RPMRICHOP_OR \<and> op \<noteq> RPMRICHOP_WITH
      then Some RichChainIllegal
      else None)"

text \<open>The loop body after an operand: either the closing parenthesis ends the dependency, with its
  checks and the callback, or the next operator is read.\<close>

definition rich_after_operand ::
    "'s rich_cb \<Rightarrow> 's \<Rightarrow> cstr \<Rightarrow> cstr \<Rightarrow> rpmrichOp \<Rightarrow> rpmrichOp \<Rightarrow> rpmrichOp \<Rightarrow> richparse
      \<Rightarrow> rich_error + (('s \<times> cstr \<times> richparse) + ('s \<times> cstr \<times> rpmrichOp \<times> rpmrichOp))" where
  "rich_after_operand cb st dstr p op firstop chainop check =
     (let p = SKIPWHITE p in
      if p = [] then Inl RichUnterminated
      else if hd p = CHR '')''
      then (case rpmrichParseCheck firstop check of
              Some err \<Rightarrow> Inl err
            | None \<Rightarrow>
              let check = richparse_update firstop op check; p = tl p in
              case cb st RPMRICH_PARSE_LEAVE dstr (length dstr - length p) None 0 0 op of
                Inl err \<Rightarrow> Inl err | Inr st \<Rightarrow> Inr (Inl (st, p, check)))
      else (case parseRichDepOp p of
              Inl err \<Rightarrow> Inl err
            | Inr (op, pe) \<Rightarrow>
              (case chain_check chainop op of
                 Some err \<Rightarrow> Inl err
               | None \<Rightarrow>
                 (case cb st RPMRICH_PARSE_OP p (length p - length pe) None 0 0 op of
                    Inl err \<Rightarrow> Inl err
                  | Inr st \<Rightarrow>
                      Inr (Inr (st, pe, op, if firstop = RPMRICHOP_SINGLE then op else firstop))))))"

text \<open>\<open>rpmrichParseInternal\<close> and its loop; the result has the text after the closing parenthesis and
  the value or-ed into \<open>*checkp\<close>.\<close>

fun rpmrichParseInternal ::
    "nat \<Rightarrow> 's rich_cb \<Rightarrow> 's \<Rightarrow> cstr \<Rightarrow> richparse \<Rightarrow> rich_error + ('s \<times> cstr \<times> richparse)"
  and rich_loop ::
    "nat \<Rightarrow> 's rich_cb \<Rightarrow> 's \<Rightarrow> cstr \<Rightarrow> cstr \<Rightarrow> rpmrichOp \<Rightarrow> rpmrichOp \<Rightarrow> rpmrichOp \<Rightarrow> richparse
      \<Rightarrow> rich_error + ('s \<times> cstr \<times> richparse)"
  and rich_operand ::
    "nat \<Rightarrow> 's rich_cb \<Rightarrow> 's \<Rightarrow> cstr \<Rightarrow> rpmrichOp \<Rightarrow> richparse \<Rightarrow> rich_error + ('s \<times> cstr \<times> richparse)" where
  "rpmrichParseInternal 0 cb st dstr check = Inl RichNoFuel"
| "rpmrichParseInternal (Suc fuel) cb st dstr check =
     (case cb st RPMRICH_PARSE_ENTER dstr 0 None 0 0 RPMRICHOP_SINGLE of
        Inl err \<Rightarrow> Inl err
      | Inr st \<Rightarrow>
          if dstr = [] \<or> hd dstr \<noteq> CHR ''('' then Inl RichNoOpenParen
          else (case rich_loop fuel cb st dstr (tl dstr) RPMRICHOP_SINGLE RPMRICHOP_SINGLE RPMRICHOP_NONE check of
                  Inl err \<Rightarrow> Inl err
                | Inr (st, p, check') \<Rightarrow> Inr (st, p, check_or check check')))"
| "rich_loop 0 cb st dstr p op firstop chainop check = Inl RichNoFuel"
| "rich_loop (Suc fuel) cb st dstr p op firstop chainop check =
     (let p = SKIPWHITE p in
      if p \<noteq> [] \<and> hd p = CHR '')''
      then Inl (if chainop \<noteq> RPMRICHOP_NONE then RichMissingArgument else RichEmpty)
      else case rich_operand fuel cb st p op check of
        Inl err \<Rightarrow> Inl err
      | Inr (st, p, check) \<Rightarrow>
          (case rich_after_operand cb st dstr p op firstop chainop check of
             Inl err \<Rightarrow> Inl err
           | Inr (Inl result) \<Rightarrow> Inr result
           | Inr (Inr (st, pe, op, firstop)) \<Rightarrow> rich_loop fuel cb st dstr pe op firstop op check))"
| "rich_operand fuel cb st p op check =
     (if p \<noteq> [] \<and> hd p = CHR ''(''
      then case rpmrichParseInternal fuel cb st p (no_check\<lparr>RICHPARSE_CHECK := RICHPARSE_CHECK check\<rparr>) of
             Inl err \<Rightarrow> Inl err
           | Inr (st, p, subcheck) \<Rightarrow>
               let subcheck = (if op = RPMRICHOP_IF \<or> op = RPMRICHOP_UNLESS
                 then subcheck\<lparr>RICHPARSE_NO_AND := False, RICHPARSE_NO_OR := False\<rparr> else subcheck)
               in Inr (st, p, check_or check subcheck)
      else case parseSimpleDep cb st p of
             Inl err \<Rightarrow> Inl err | Inr (st, p) \<Rightarrow> Inr (st, p, check))"

definition rich_fuel :: "cstr \<Rightarrow> nat" where
  "rich_fuel dstr = 2 * length dstr + 2"

definition rpmrichParse :: "'s rich_cb \<Rightarrow> 's \<Rightarrow> cstr \<Rightarrow> rich_error + ('s \<times> cstr)" where
  "rpmrichParse cb st dstr =
     (case rpmrichParseInternal (rich_fuel dstr) cb st dstr no_check of
        Inl err \<Rightarrow> Inl err | Inr (st, p, _) \<Rightarrow> Inr (st, p))"

definition rpmrichParseForTag :: "'s rich_cb \<Rightarrow> 's \<Rightarrow> cstr \<Rightarrow> rpmTagVal \<Rightarrow> rich_error + ('s \<times> cstr)" where
  "rpmrichParseForTag cb st dstr tagN =
     (case rpmrichParseInternal (rich_fuel dstr) cb st dstr (no_check\<lparr>RICHPARSE_CHECK := True\<rparr>) of
        Inl err \<Rightarrow> Inl err
      | Inr (st, p, check) \<Rightarrow>
          (case rpmrichParseCheck
                  (if tagN \<in> {RPMTAG_CONFLICTNAME, RPMTAG_SUPPLEMENTNAME, RPMTAG_ENHANCENAME}
                   then RPMRICHOP_OR else RPMRICHOP_AND) check of
             Some err \<Rightarrow> Inl err | None \<Rightarrow> Inr (st, p)))"

subsection \<open>Splitting a rich dependency\<close>

record rich_data =
  rd_leftds :: "rpmds option"
  rd_rightds :: "rpmds option"
  rd_op :: rpmrichOp
  rd_depth :: int
  rd_rightstart :: "cstr option"
  rd_dochain :: bool
  rd_pools :: pools

text \<open>A single dependency in the pool of \<open>dep\<close> whose name and version are interned afterwards.\<close>

definition rich_single ::
    "pools \<Rightarrow> rpmds \<Rightarrow> rpmsenseFlags \<Rightarrow> cstr \<Rightarrow> cstr \<Rightarrow> (pools \<times> rpmds option) option" where
  "rich_single st dep flags n e =
     do { (st, dsp) \<leftarrow> singleDS st (Some (ds_pool dep)) (ds_tagN dep) None None flags 0 0 0;
          (case dsp of None \<Rightarrow> Some (st, None)
           | Some ds \<Rightarrow> do {
               (st, nid) \<leftarrow> pool_intern st (ds_pool ds) (Some n);
               (st, eid) \<leftarrow> pool_intern st (ds_pool ds) (Some e);
               Some (st, Some (ds\<lparr>ds_N := (ds_N ds)[0 := nid], ds_EVR := (ds_EVR ds)[0 := eid]\<rparr>)) }) }"

definition rpmdsParseRichDepCB :: "rpmds \<Rightarrow> rpmsenseFlags \<Rightarrow> rich_data rich_cb" where
  "rpmdsParseRichDepCB dep depflags d type n nl e el sense op =
     (let d = (if type = RPMRICH_PARSE_ENTER then d\<lparr>rd_depth := rd_depth d + 1\<rparr>
               else if type = RPMRICH_PARSE_LEAVE then d\<lparr>rd_depth := rd_depth d - 1\<rparr> else d) in
      case (if type = RPMRICH_PARSE_LEAVE \<and> rd_depth d = 0 \<and> rd_dochain d \<and> rd_rightstart d \<noteq> None
            then let rs = the (rd_rightstart d);
                     right = ''('' @ take (length rs - length (drop nl n)) rs in
              map_option (\<lambda>(st, ds). d\<lparr>rd_pools := st, rd_rightds := ds\<rparr>)
                (rich_single (rd_pools d) dep depflags right [])
            else Some d) of
        None \<Rightarrow> Inl RichPoolLoop
      | Some d \<Rightarrow>
          if rd_depth d \<noteq> 1 then Inr d
          else
            (case (if (type = RPMRICH_PARSE_SIMPLE \<or> type = RPMRICH_PARSE_LEAVE) \<and> \<not> rd_dochain d
                   then let sense = (if type = RPMRICH_PARSE_SIMPLE \<and> ds_tagN dep = RPMTAG_REQUIRENAME
                                        \<and> nl > 7 \<and> rstreqn n ''rpmlib('' 7
                                     then sense OR RPMSENSE_RPMLIB else sense) in
                     map_option (\<lambda>(st, ds).
                         if rd_leftds d = None then d\<lparr>rd_pools := st, rd_leftds := ds\<rparr>
                         else d\<lparr>rd_pools := st, rd_rightds := ds, rd_rightstart := Some n\<rparr>)
                       (rich_single (rd_pools d) dep (sense OR depflags) (take nl n)
                          (case e of None \<Rightarrow> [] | Some e \<Rightarrow> take el e))
                   else Some d) of
               None \<Rightarrow> Inl RichPoolLoop
             | Some d \<Rightarrow>
                 Inr (if type = RPMRICH_PARSE_OP
                      then if rd_op d \<noteq> RPMRICHOP_SINGLE then d\<lparr>rd_dochain := True\<rparr> else d\<lparr>rd_op := op\<rparr>
                      else d)))"

definition rpmdsParseRichDep ::
    "pools \<Rightarrow> rpmds \<Rightarrow> rich_error + (pools \<times> rpmds option \<times> rpmds option \<times> rpmrichOp)" where
  "rpmdsParseRichDep st dep =
     (let depstr = the (rpmdsN st (Some dep));
          depflags = rpmdsFlags (Some dep) AND NOT (RPMSENSE_SENSEMASK OR RPMSENSE_MISSINGOK);
          d0 = \<lparr>rd_leftds = None, rd_rightds = None, rd_op = RPMRICHOP_SINGLE, rd_depth = 0,
                rd_rightstart = None, rd_dochain = False, rd_pools = st\<rparr> in
      case rpmrichParse (rpmdsParseRichDepCB dep depflags) d0 depstr of
        Inl err \<Rightarrow> Inl err
      | Inr (d, rest) \<Rightarrow>
          if rest \<noteq> [] then Inl RichJunk
          else Inr (rd_pools d, rd_leftds d, rd_rightds d, rd_op d))"

section \<open>Properties\<close>

subsection \<open>Consumption and fuel\<close>

lemma length_SKIPWHITE: "length (SKIPWHITE x) \<le> length x"
  by (simp add: SKIPWHITE_def length_dropWhile_le)

lemma length_SKIPNONWHITEX: "length (SKIPNONWHITEX bl x) \<le> length x"
  by (induction bl x rule: SKIPNONWHITEX.induct) auto

lemma parseSimpleDep_shorter:
  "parseSimpleDep cb st n = Inr (st', p) \<Longrightarrow> length p < length n"
  using length_SKIPNONWHITEX [of 0 n] length_SKIPWHITE [of "SKIPNONWHITEX 0 n"]
    length_SKIPNONWHITEX [of 0 "SKIPWHITE (SKIPNONWHITEX 0 n)"]
    length_SKIPWHITE [of "SKIPNONWHITEX 0 (SKIPWHITE (SKIPNONWHITEX 0 n))"]
    length_SKIPNONWHITEX [of 0 "SKIPWHITE (SKIPNONWHITEX 0 (SKIPWHITE (SKIPNONWHITEX 0 n)))"]
  by (auto simp: parseSimpleDep_def Let_def split: if_splits sum.splits)

lemma parseRichDepOp_shorter: "parseRichDepOp p = Inr (op, pe) \<Longrightarrow> length pe \<le> length p"
  by (auto simp: parseRichDepOp_def Let_def split: option.splits)

lemma rich_after_operand_shorter:
  "rich_after_operand cb st dstr p op firstop chainop check = Inr (Inl (st', q, c)) \<Longrightarrow> length q < length p"
  "rich_after_operand cb st dstr p op firstop chainop check = Inr (Inr (st', q, o1, o2)) \<Longrightarrow> length q \<le> length p"
  using length_SKIPWHITE [of p] parseRichDepOp_shorter [of "SKIPWHITE p"]
  by (auto simp: rich_after_operand_def Let_def split: if_splits option.splits sum.splits prod.splits
      dest: le_trans)
     (metis Suc_le_eq Suc_pred diff_less length_greater_0_conv less_le_trans less_numeral_extra(1) order_le_less_trans)

lemma rich_shorter:
  "rpmrichParseInternal fuel cb st dstr check = Inr (st', q, c) \<Longrightarrow> length q < length dstr"
  "rich_loop fuel cb st dstr p op firstop chainop check = Inr (st', q, c) \<Longrightarrow> length q < length p"
  "rich_operand fuel cb st p op check = Inr (st', q, c) \<Longrightarrow> length q < length p"
proof (induction fuel cb st dstr check and fuel cb st dstr p op firstop chainop check and fuel cb st p op check
    arbitrary: st' q c and st' q c and st' q c rule: rpmrichParseInternal_rich_loop_rich_operand.induct)
  case (2 fuel cb st dstr check)
  then show ?case by (fastforce split: sum.splits if_splits prod.splits)
next
  case (4 fuel cb st dstr p op firstop chainop check)
  let ?p = "SKIPWHITE p"
  from "4.prems" have np: "\<not> (?p \<noteq> [] \<and> hd ?p = CHR '')'')" by (auto simp: Let_def split: if_splits)
  from "4.prems" np obtain st1 p1 c1 where o: "rich_operand fuel cb st ?p op check = Inr (st1, p1, c1)"
    by (auto simp: Let_def simp del: rich_operand.simps split: sum.splits)
  have "length p1 < length p" using "4.IH"(1) [OF refl np o] length_SKIPWHITE [of p] by simp
  moreover from "4.prems" np o consider
      "rich_after_operand cb st1 dstr p1 op firstop chainop c1 = Inr (Inl (st', q, c))"
    | st2 pe op2 fo2 where "rich_after_operand cb st1 dstr p1 op firstop chainop c1 = Inr (Inr (st2, pe, op2, fo2))"
        "rich_loop fuel cb st2 dstr pe op2 fo2 op2 c1 = Inr (st', q, c)"
    by (auto simp: Let_def simp del: rich_operand.simps split: sum.splits prod.splits)
  then have "length q < length p1 \<or> length q < length p"
  proof cases
    case 1
    then show ?thesis using rich_after_operand_shorter(1) [OF 1] by simp
  next
    case 2
    then show ?thesis using rich_after_operand_shorter(2) [OF 2(1)]
        "4.IH"(2) [OF refl np o refl refl 2(1) refl refl refl refl 2(2)] calculation by simp
  qed
  ultimately show ?case by linarith
next
  case (5 fuel cb st p op check)
  show ?case
  proof (cases "p \<noteq> [] \<and> hd p = CHR ''(''")
    case True
    then show ?thesis using 5 by (auto simp: Let_def split: sum.splits prod.splits)
  next
    case False
    then have "rich_operand fuel cb st p op check = (case parseSimpleDep cb st p of
        Inl err \<Rightarrow> Inl err | Inr (st, p) \<Rightarrow> Inr (st, p, check))" by auto
    then show ?thesis using 5(2) parseSimpleDep_shorter [of cb st p] by (auto split: sum.splits)
  qed
qed simp_all

text \<open>Enough fuel: an odd amount above twice the length for a dependency, an even one for the loop.\<close>

lemma parseSimpleDep_NoFuel:
  "(\<And>d t n nl e el s op. cb d t n nl e el s op \<noteq> Inl RichNoFuel) \<Longrightarrow> parseSimpleDep cb st n \<noteq> Inl RichNoFuel"
  by (auto simp: parseSimpleDep_def Let_def split: if_splits sum.splits)

lemma rich_after_operand_NoFuel:
  assumes "\<And>d t n nl e el s op. cb d t n nl e el s op \<noteq> Inl RichNoFuel"
  shows "rich_after_operand cb st dstr p op firstop chainop check \<noteq> Inl RichNoFuel"
proof -
  have "rpmrichParseCheck o1 k \<noteq> Some RichNoFuel" "parseRichDepOp x \<noteq> Inl RichNoFuel"
    "chain_check o1 o2 \<noteq> Some RichNoFuel" for o1 o2 k x
    by (auto simp: rpmrichParseCheck_def parseRichDepOp_def chain_check_def Let_def split: option.splits)
  then show ?thesis using assms
    by (auto simp: rich_after_operand_def Let_def split: if_splits option.splits sum.splits prod.splits)
qed

lemma rich_enough_fuel:
  assumes cb: "\<And>d t n nl e el s op. cb d t n nl e el s op \<noteq> Inl RichNoFuel"
  shows "2 * length dstr + 1 \<le> fuel \<Longrightarrow> rpmrichParseInternal fuel cb st dstr check \<noteq> Inl RichNoFuel"
    and "2 * length p + 2 \<le> fuel \<Longrightarrow> rich_loop fuel cb st dstr p op firstop chainop check \<noteq> Inl RichNoFuel"
    and "2 * length p + 1 \<le> fuel \<Longrightarrow> rich_operand fuel cb st p op check \<noteq> Inl RichNoFuel"
  using cb
proof (induction fuel cb st dstr check and fuel cb st dstr p op firstop chainop check and fuel cb st p op check
    rule: rpmrichParseInternal_rich_loop_rich_operand.induct)
  case (2 fuel cb st dstr check)
  then show ?case by (cases dstr) (auto split: sum.splits prod.splits)
next
  case (4 fuel cb st dstr p op firstop chainop check)
  let ?p = "SKIPWHITE p"
  show ?case
  proof (cases "?p \<noteq> [] \<and> hd ?p = CHR '')''")
    case True
    then show ?thesis by (simp add: Let_def)
  next
    case np: False
    have "rich_operand fuel cb st ?p op check \<noteq> Inl RichNoFuel"
      using "4.IH"(1) [OF refl np] "4.prems" length_SKIPWHITE [of p] by simp
    then consider err where "rich_operand fuel cb st ?p op check = Inl err" "err \<noteq> RichNoFuel"
      | st1 p1 c1 where "rich_operand fuel cb st ?p op check = Inr (st1, p1, c1)"
      by (cases "rich_operand fuel cb st ?p op check") auto
    then show ?thesis
    proof cases
      case 1
      then show ?thesis using np by (auto simp: Let_def simp del: rich_operand.simps)
    next
      case 2
      have "length p1 < length p" using rich_shorter(3) [OF 2] length_SKIPWHITE [of p] by simp
      show ?thesis
      proof (cases "rich_after_operand cb st1 dstr p1 op firstop chainop c1")
        case (Inl err)
        have "err \<noteq> RichNoFuel"
          using rich_after_operand_NoFuel [of cb st1 dstr p1 op firstop chainop c1, OF "4.prems"(2)] Inl by simp
        then show ?thesis using np 2 Inl by (auto simp: Let_def simp del: rich_operand.simps)
      next
        case (Inr r)
        show ?thesis
        proof (cases r)
          case (Inl x)
          then show ?thesis using np 2 Inr by (auto simp: Let_def simp del: rich_operand.simps)
        next
          case r: (Inr x)
          obtain st2 pe op2 fo2 where x: "x = (st2, pe, op2, fo2)" by (metis prod_cases4)
          note e = Inr [unfolded r x]
          have "length pe \<le> length p1" using rich_after_operand_shorter(2) [OF e] .
          then have "rich_loop fuel cb st2 dstr pe op2 fo2 op2 c1 \<noteq> Inl RichNoFuel"
            using "4.IH"(2) [OF refl np 2 refl refl e refl refl refl refl] "4.prems" \<open>length p1 < length p\<close> by simp
          then show ?thesis using np 2 e by (auto simp: Let_def simp del: rich_operand.simps)
        qed
      qed
    qed
  qed
next
  case (5 fuel cb st p op check)
  show ?case
  proof (cases "p \<noteq> [] \<and> hd p = CHR ''(''")
    case True
    then show ?thesis using 5 by (auto simp: Let_def split: sum.splits prod.splits)
  next
    case False
    then have "rich_operand fuel cb st p op check = (case parseSimpleDep cb st p of
        Inl err \<Rightarrow> Inl err | Inr (st, p) \<Rightarrow> Inr (st, p, check))" by auto
    then show ?thesis using parseSimpleDep_NoFuel [OF 5(3)] by (auto split: sum.splits)
  qed
qed simp_all

text \<open> C28: The rich dependency parser always ends with a result or one of its error messages: the
  fuel that bounds its recursion is enough for every text and every callback.\<close>

theorem rpmrichParse_ends:
  assumes "\<And>d t n nl e el s op. cb d t n nl e el s op \<noteq> Inl RichNoFuel"
  shows "rpmrichParse cb st dstr \<noteq> Inl RichNoFuel \<and> rpmrichParseForTag cb st dstr tagN \<noteq> Inl RichNoFuel"
proof -
  have "rpmrichParseInternal (rich_fuel dstr) cb st dstr check \<noteq> Inl RichNoFuel" for check
    using assms by (intro rich_enough_fuel(1)) (auto simp: rich_fuel_def)
  moreover have "rpmrichParseCheck op k \<noteq> Some RichNoFuel" for op k by (simp add: rpmrichParseCheck_def)
  ultimately show ?thesis
    by (auto simp: rpmrichParse_def rpmrichParseForTag_def split: sum.splits prod.splits option.splits)
qed

theorem rpmrichParse_ends_witness:
  "rpmrichParse (\<lambda>st :: nat. \<lambda>t n nl e el s op. Inr (st + 1)) 0 ''(a if (b or c) else d >= 2)'' \<noteq> Inl RichNoFuel"
  using rpmrichParse_ends [of "\<lambda>st :: nat. \<lambda>t n nl e el s op. Inr (st + 1)" 0] by simp

subsection \<open>What a successful parse has read\<close>

lemma suffix_SKIPWHITE: "suffix (SKIPWHITE x) x"
  by (simp add: SKIPWHITE_def suffix_dropWhile)

lemma suffix_SKIPNONWHITEX: "suffix (SKIPNONWHITEX bl x) x"
  by (induction bl x rule: SKIPNONWHITEX.induct) (auto intro: suffix_ConsI)

lemmas suffix_skip = suffix_SKIPWHITE suffix_SKIPNONWHITEX
  suffix_order.trans [OF suffix_SKIPWHITE] suffix_order.trans [OF suffix_SKIPNONWHITEX]

lemma parseSimpleDep_suffix: "parseSimpleDep cb st n = Inr (st', p) \<Longrightarrow> suffix p n"
proof -
  assume "parseSimpleDep cb st n = Inr (st', p)"
  then have "p = SKIPWHITE (SKIPNONWHITEX 0 n) \<or>
      p = SKIPNONWHITEX 0 (SKIPWHITE (SKIPNONWHITEX 0 (SKIPWHITE (SKIPNONWHITEX 0 n))))"
    by (auto simp: parseSimpleDep_def Let_def split: if_splits sum.splits)
  then show ?thesis by (elim disjE) (simp, intro suffix_skip)+
qed

lemma rich_after_operand_suffix:
  "rich_after_operand cb st dstr p op firstop chainop check = Inr (Inl (st', q, c)) \<Longrightarrow> suffix (CHR '')'' # q) p"
  "rich_after_operand cb st dstr p op firstop chainop check = Inr (Inr (st', q, o1, o2)) \<Longrightarrow> suffix q p"
proof -
  assume "rich_after_operand cb st dstr p op firstop chainop check = Inr (Inl (st', q, c))"
  then have "SKIPWHITE p \<noteq> []" "hd (SKIPWHITE p) = CHR '')''" "q = tl (SKIPWHITE p)"
    by (auto simp: rich_after_operand_def Let_def split: if_splits option.splits sum.splits prod.splits)
  then have "SKIPWHITE p = CHR '')'' # q" by (metis list.collapse)
  then show "suffix (CHR '')'' # q) p" by (metis suffix_SKIPWHITE)
next
  assume "rich_after_operand cb st dstr p op firstop chainop check = Inr (Inr (st', q, o1, o2))"
  then have "parseRichDepOp (SKIPWHITE p) = Inr (o1, q)"
    by (auto simp: rich_after_operand_def Let_def split: if_splits option.splits sum.splits prod.splits)
  then have "suffix q (SKIPWHITE p)"
    by (auto simp: parseRichDepOp_def Let_def intro: suffix_drop split: option.splits)
  then show "suffix q p" by (metis suffix_order.trans suffix_SKIPWHITE)
qed

lemma rich_suffix:
  "rpmrichParseInternal fuel cb st dstr check = Inr (st', q, c) \<Longrightarrow>
     \<exists>body. dstr = CHR ''('' # body @ CHR '')'' # q"
  "rich_loop fuel cb st dstr p op firstop chainop check = Inr (st', q, c) \<Longrightarrow> suffix (CHR '')'' # q) p"
  "rich_operand fuel cb st p op check = Inr (st', q, c) \<Longrightarrow> suffix q p"
proof (induction fuel cb st dstr check and fuel cb st dstr p op firstop chainop check and fuel cb st p op check
    arbitrary: st' q c and st' q c and st' q c rule: rpmrichParseInternal_rich_loop_rich_operand.induct)
  case (2 fuel cb st dstr check)
  from "2.prems" obtain st1 c1 where st1: "cb st RPMRICH_PARSE_ENTER dstr 0 None 0 0 RPMRICHOP_SINGLE = Inr st1"
    and d: "\<not> (dstr = [] \<or> hd dstr \<noteq> CHR ''('')"
    and l: "rich_loop fuel cb st1 dstr (tl dstr) RPMRICHOP_SINGLE RPMRICHOP_SINGLE RPMRICHOP_NONE check = Inr (st', q, c1)"
    by (auto split: sum.splits if_splits prod.splits)
  from "2.IH" [OF st1 d l] d show ?case by (cases dstr) (auto simp: suffix_def)
next
  case (4 fuel cb st dstr p op firstop chainop check)
  let ?p = "SKIPWHITE p"
  from "4.prems" have np: "\<not> (?p \<noteq> [] \<and> hd ?p = CHR '')'')" by (auto simp: Let_def split: if_splits)
  from "4.prems" np obtain st1 p1 c1 where o: "rich_operand fuel cb st ?p op check = Inr (st1, p1, c1)"
    by (auto simp: Let_def simp del: rich_operand.simps split: sum.splits)
  have p1: "suffix p1 p" using "4.IH"(1) [OF refl np o] by (metis suffix_order.trans suffix_SKIPWHITE)
  from "4.prems" np o consider
      "rich_after_operand cb st1 dstr p1 op firstop chainop c1 = Inr (Inl (st', q, c))"
    | st2 pe op2 fo2 where "rich_after_operand cb st1 dstr p1 op firstop chainop c1 = Inr (Inr (st2, pe, op2, fo2))"
        "rich_loop fuel cb st2 dstr pe op2 fo2 op2 c1 = Inr (st', q, c)"
    by (auto simp: Let_def simp del: rich_operand.simps split: sum.splits prod.splits)
  then show ?case
  proof cases
    case 1
    then show ?thesis using rich_after_operand_suffix(1) [OF 1] p1 by (metis suffix_order.trans)
  next
    case 2
    then show ?thesis using rich_after_operand_suffix(2) [OF 2(1)] p1
        "4.IH"(2) [OF refl np o refl refl 2(1) refl refl refl refl 2(2)] by (metis suffix_order.trans)
  qed
next
  case (5 fuel cb st p op check)
  show ?case
  proof (cases "p \<noteq> [] \<and> hd p = CHR ''(''")
    case True
    with "5.prems" obtain st1 c1 where
      "rpmrichParseInternal fuel cb st p (no_check\<lparr>RICHPARSE_CHECK := RICHPARSE_CHECK check\<rparr>) = Inr (st1, q, c1)"
      by (auto simp: Let_def split: sum.splits prod.splits)
    from "5.IH" [OF True this] obtain body where "p = (CHR ''('' # body @ '')'') @ q" by auto
    then show ?thesis by (metis suffixI)
  next
    case False
    then have "rich_operand fuel cb st p op check = (case parseSimpleDep cb st p of
        Inl err \<Rightarrow> Inl err | Inr (st, p) \<Rightarrow> Inr (st, p, check))" by auto
    then show ?thesis using "5.prems" parseSimpleDep_suffix [of cb st p] by (auto split: sum.splits)
  qed
qed simp_all

text \<open>A successful parse has read a parenthesised text: the input is an opening parenthesis, the
  body, the matching closing parenthesis and the text the parser leaves.\<close>

theorem rpmrichParse_reads:
  assumes "rpmrichParse cb st dstr = Inr (st', rest)"
  shows "\<exists>body. dstr = CHR ''('' # body @ CHR '')'' # rest"
proof -
  from assms obtain c where "rpmrichParseInternal (rich_fuel dstr) cb st dstr no_check = Inr (st', rest, c)"
    by (auto simp: rpmrichParse_def split: sum.splits)
  then show ?thesis by (rule rich_suffix(1))
qed

theorem rpmrichParse_reads_witness:
  "\<exists>body. ''(a with b) tail'' = CHR ''('' # body @ CHR '')'' # '' tail''"
proof -
  have "rpmrichParse (\<lambda>st :: nat. \<lambda>t n nl e el s op. Inr (st + 1)) 0 ''(a with b) tail'' = Inr (5, '' tail'')"
    by code_simp
  then show ?thesis by (rule rpmrichParse_reads)
qed

end
