(* ===== verification/Expression.thy ===== *)
theory Expression
  imports Rpmver "HOL-Library.Signed_Division" "HOL-Library.Sublist"
begin

text \<open>
  The expression language of rpmio/expression.cc, which evaluates the conditions of spec files and
  the \<open>%[...]\<close> macro: values, tokens, the lexer \<open>rdToken\<close> and the recursive descent evaluator
  \<open>doTernary\<close> down to \<open>doPrimary\<close>, with short-circuit evaluation by the internal flag
  \<open>RPMEXPR_DISCARD\<close>. Macro expansion and calls into the Lua interpreter are parameters. A C
  \<open>int\<close> is an \<open>int\<close> in its 32-bit range; an operation whose result leaves the range, which C leaves
  undefined, ends with the error \<open>UndefinedOverflow\<close>, and a read past the terminating NUL with
  \<open>UndefinedRead\<close>. Every other error stands for a NULL result after a message.
\<close>

subsection \<open>Values\<close>

datatype value_s = VInteger int | VString cstr | VVersion rpmver

datatype expr_error =
    SyntaxEq | SyntaxAnd | SyntaxOr | ExpansionFailed | ExpansionBareWord | ExpansionNotInteger
  | UnterminatedString | InvalidVersion | BareWord | ParseError | ArgumentType | LuaFailed
  | SyntaxError | UnsupportedFunction | UnmatchedParen | MinusOnlyNumbers | UnexpectedEnd
  | TypesMustMatch | DivisionByZero | MulDivVersion | MulDivString | AddSubVersion | SubString
  | UndefinedOverflow | UndefinedRead | NoFuel

type_synonym 'a expr_result = "expr_error + 'a"

definition c_int :: "int \<Rightarrow> int expr_result" where
  "c_int i = (if - (2 ^ 31) \<le> i \<and> i < 2 ^ 31 then Inr i else Inl UndefinedOverflow)"

definition valueCmpInteger :: "int \<Rightarrow> int \<Rightarrow> int expr_result" where
  "valueCmpInteger i1 i2 = c_int (i1 - i2)"

definition valueCmpString :: "cstr \<Rightarrow> cstr \<Rightarrow> int expr_result" where
  "valueCmpString s1 s2 = Inr (strcmp s1 s2)"

definition valueCmpVersion :: "rpmver \<Rightarrow> rpmver \<Rightarrow> int expr_result" where
  "valueCmpVersion v1 v2 = Inr (rpmverCmp v1 v2)"

definition valueMakeVersion :: "cstr \<Rightarrow> value_s option" where
  "valueMakeVersion s = map_option VVersion (rpmverParse (Some s))"

definition boolifyValue :: "value_s \<Rightarrow> bool" where
  "boolifyValue v = (case v of VInteger i \<Rightarrow> i \<noteq> 0 | VString s \<Rightarrow> s \<noteq> [] | VVersion _ \<Rightarrow> False)"

fun valueSameType :: "value_s \<Rightarrow> value_s \<Rightarrow> bool" where
  "valueSameType (VInteger _) (VInteger _) = True"
| "valueSameType (VString _) (VString _) = True"
| "valueSameType (VVersion _) (VVersion _) = True"
| "valueSameType _ _ = False"

subsection \<open>Tokens and the parser state\<close>

datatype expr_token =
    TOK_EOF | TOK_INTEGER | TOK_STRING | TOK_ADD | TOK_MINUS | TOK_MULTIPLY | TOK_DIVIDE
  | TOK_OPEN_P | TOK_CLOSE_P | TOK_EQ | TOK_NEQ | TOK_LT | TOK_LE | TOK_GT | TOK_GE | TOK_NOT
  | TOK_LOGICAL_AND | TOK_LOGICAL_OR | TOK_TERNARY_COND | TOK_TERNARY_ALT | TOK_COMMA | TOK_FUNCTION

text \<open>\<open>state->p\<close> is the text still to read; \<open>state->str\<close> only serves the messages. The field for the
  token starts as 0, no token, and is set by the first \<open>rdToken\<close>.\<close>

record parseState =
  es_p :: cstr
  es_nextToken :: expr_token
  es_tokenValue :: "value_s option"
  es_flags :: u32

abbreviation RPMEXPR_EXPAND :: u32 where "RPMEXPR_EXPAND \<equiv> 1"
abbreviation RPMEXPR_DISCARD :: u32 where "RPMEXPR_DISCARD \<equiv> 0x80000000"

text \<open>What the evaluator calls outside of this file: \<open>rpmExpandMacros\<close> (None when it fails) and
  \<open>rpmluaCallStringFunction\<close> (None when it fails).\<close>

record expr_env =
  expandMacros :: "cstr \<Rightarrow> cstr option"
  luaCallString :: "cstr \<Rightarrow> value_s list \<Rightarrow> cstr option"

subsection \<open>The lexer\<close>

definition getValuebuf :: "expr_env \<Rightarrow> parseState \<Rightarrow> cstr \<Rightarrow> nat \<Rightarrow> cstr option" where
  "getValuebuf E st p sz =
     (let sz = (if has (es_flags st) RPMEXPR_DISCARD then 0 else sz);
          temp = take sz p
      in if sz \<noteq> 0 \<and> has (es_flags st) RPMEXPR_EXPAND then expandMacros E temp else Some temp)"

text \<open>\<open>matchchar\<close> of macro.cc: None when it reads past the end (a backslash before the NUL), otherwise
  the returned pointer, which may be NULL.\<close>

fun matchchar :: "int \<Rightarrow> char \<Rightarrow> char \<Rightarrow> cstr \<Rightarrow> cstr option option" where
  "matchchar lvl pl pr [] = Some None"
| "matchchar lvl pl pr (c # p) =
     (if c = CHR 0x5C then (case p of [] \<Rightarrow> None | _ # p' \<Rightarrow> matchchar lvl pl pr p')
      else if c = pr then (if lvl - 1 \<le> 0 then Some (Some p) else matchchar (lvl - 1) pl pr p)
      else matchchar (if c = pl then lvl + 1 else lvl) pl pr p)"

definition findMacroEnd :: "cstr \<Rightarrow> cstr option option" where
  "findMacroEnd str =
     (if starts_with (CHR ''('') str then matchchar 0 (CHR ''('') (CHR '')'') str
      else if starts_with (CHR ''{'') str then matchchar 0 (CHR ''{'') (CHR ''}'') str
      else if starts_with (CHR ''['') str then matchchar 0 (CHR ''['') (CHR '']'') str
      else
        let str = dropWhile (\<lambda>c. c = CHR ''?'' \<or> c = CHR ''!'') str;
            str = (if starts_with (CHR ''-'') str then tl str else str);
            str = dropWhile (\<lambda>c. risalnum c \<or> c = CHR ''_'') str
        in Some (Some
             (if starts_with (CHR ''*'') str \<and> starts_with (CHR ''*'') (tl str) then tl (tl str)
              else if starts_with (CHR ''*'') str \<or> starts_with (CHR ''#'') str then tl str
              else str)))"

text \<open>The argument is the text after the percent sign, the result the text after the macro.\<close>

definition skipMacro :: "cstr \<Rightarrow> cstr option" where
  "skipMacro p =
     (if starts_with (CHR ''%'') p then Some (tl p)
      else map_option (\<lambda>pe. case pe of None \<Rightarrow> [] | Some s \<Rightarrow> s) (findMacroEnd p))"

lemma suffix_tlI: "suffix q p \<Longrightarrow> suffix (tl q) p"
  by (rule suffix_order.trans [OF suffix_tl])

lemma suffix_dropWhileI: "suffix q p \<Longrightarrow> suffix (dropWhile P q) p"
  by (rule suffix_order.trans [OF suffix_dropWhile])

lemma matchchar_suffix: "matchchar lvl pl pr p = Some (Some q) \<Longrightarrow> suffix q p"
proof (induction lvl pl pr p rule: matchchar.induct)
  case (2 lvl pl pr c p)
  then show ?case by (auto split: if_splits list.splits intro: suffix_ConsI)
qed simp

lemma findMacroEnd_suffix: "findMacroEnd p = Some (Some q) \<Longrightarrow> suffix q p"
  by (auto simp: findMacroEnd_def Let_def matchchar_suffix split: if_splits
      intro!: suffix_tlI suffix_dropWhileI suffix_order.refl)

lemma skipMacro_length: "skipMacro p = Some q \<Longrightarrow> length q \<le> length p"
  by (auto simp: skipMacro_def split: if_splits option.splits dest: findMacroEnd_suffix [THEN suffix_length_le])

text \<open>The two loops of \<open>rdToken\<close> that find the end of a literal, skipping macros when they are
  expanded: \<open>stop\<close> is the character test that breaks the loop. The result is the rest of the text
  from that character on.\<close>

function scan_literal :: "(char \<Rightarrow> bool) \<Rightarrow> bool \<Rightarrow> cstr \<Rightarrow> cstr option" where
  "scan_literal stop expand p =
     (case p of
        [] \<Rightarrow> Some []
      | c # s \<Rightarrow>
          if c = CHR ''%'' \<and> expand then
            (case skipMacro s of None \<Rightarrow> None | Some q \<Rightarrow> scan_literal stop expand q)
          else if stop c then Some p
          else scan_literal stop expand s)"
  by pat_completeness auto
termination
  by (relation "measure (\<lambda>(_, _, p). length p)") (auto dest: skipMacro_length)

declare scan_literal.simps [simp del]

definition wellformedInteger :: "cstr \<Rightarrow> bool" where
  "wellformedInteger p = list_all risdigit (if starts_with (CHR ''-'') p then tl p else p)"

definition isFunctionCall :: "cstr \<Rightarrow> cstr option" where
  "isFunctionCall p =
     (if (p = [] \<or> \<not> risalpha (hd p)) \<and> \<not> starts_with (CHR ''_'') (tl p) then None
      else let pe = dropWhile (\<lambda>c. risalpha c \<or> risdigit c \<or> c = CHR ''_'' \<or> c = CHR ''.'' \<or> c = CHR '':'') (tl p)
           in if starts_with (CHR ''('') pe then Some pe else None)"

definition set_token :: "parseState \<Rightarrow> expr_token \<Rightarrow> value_s option \<Rightarrow> cstr \<Rightarrow> parseState" where
  "set_token st t v p = st\<lparr>es_p := p, es_nextToken := t, es_tokenValue := v\<rparr>"

definition rd_integer :: "expr_env \<Rightarrow> parseState \<Rightarrow> cstr \<Rightarrow> parseState expr_result" where
  "rd_integer E st p =
     (let expand = has (es_flags st) RPMEXPR_EXPAND in
      case scan_literal (\<lambda>c. \<not> risdigit c) expand p of
        None \<Rightarrow> Inl UndefinedRead
      | Some q \<Rightarrow>
          (case getValuebuf E st p (length p - length q) of
             None \<Rightarrow> Inl ExpansionFailed
           | Some temp \<Rightarrow>
               if expand \<and> \<not> wellformedInteger temp then
                 Inl (if temp \<noteq> [] \<and> risalpha (hd temp) then ExpansionBareWord else ExpansionNotInteger)
               else Inr (set_token st TOK_INTEGER (Some (VInteger (sint (atoi temp)))) q)))"

text \<open>\<open>version\<close> tells the literal \<open>v"..."\<close> from \<open>"..."\<close>; \<open>p\<close> is the text after the opening quote.\<close>

definition rd_string :: "expr_env \<Rightarrow> parseState \<Rightarrow> bool \<Rightarrow> cstr \<Rightarrow> parseState expr_result" where
  "rd_string E st version p =
     (let expand = has (es_flags st) RPMEXPR_EXPAND in
      case scan_literal (\<lambda>c. c = CHR 0x22) expand p of
        None \<Rightarrow> Inl UndefinedRead
      | Some q \<Rightarrow>
          if \<not> starts_with (CHR 0x22) q then Inl UnterminatedString
          else (case getValuebuf E st p (length p - length q) of
             None \<Rightarrow> Inl ExpansionFailed
           | Some temp \<Rightarrow>
               if \<not> version then Inr (set_token st TOK_STRING (Some (VString temp)) (tl q))
               else (case valueMakeVersion (if has (es_flags st) RPMEXPR_DISCARD then ''0'' else temp) of
                       None \<Rightarrow> Inl InvalidVersion
                     | Some v \<Rightarrow> Inr (set_token st TOK_STRING (Some v) (tl q)))))"

definition rdToken :: "expr_env \<Rightarrow> parseState \<Rightarrow> parseState expr_result" where
  "rdToken E st =
     (case dropWhile risspace (es_p st) of
        [] \<Rightarrow> Inr (set_token st TOK_EOF None [])
      | c # s \<Rightarrow>
          if c = CHR ''+'' then Inr (set_token st TOK_ADD None s)
          else if c = CHR ''-'' then Inr (set_token st TOK_MINUS None s)
          else if c = CHR ''*'' then Inr (set_token st TOK_MULTIPLY None s)
          else if c = CHR ''/'' then Inr (set_token st TOK_DIVIDE None s)
          else if c = CHR ''('' then Inr (set_token st TOK_OPEN_P None s)
          else if c = CHR '')'' then Inr (set_token st TOK_CLOSE_P None s)
          else if c = CHR ''='' then
            (if starts_with (CHR ''='') s then Inr (set_token st TOK_EQ None (tl s)) else Inl SyntaxEq)
          else if c = CHR ''!'' then
            (if starts_with (CHR ''='') s then Inr (set_token st TOK_NEQ None (tl s))
             else Inr (set_token st TOK_NOT None s))
          else if c = CHR ''<'' then
            (if starts_with (CHR ''='') s then Inr (set_token st TOK_LE None (tl s))
             else Inr (set_token st TOK_LT None s))
          else if c = CHR ''>'' then
            (if starts_with (CHR ''='') s then Inr (set_token st TOK_GE None (tl s))
             else Inr (set_token st TOK_GT None s))
          else if c = CHR ''&'' then
            (if starts_with (CHR ''&'') s then Inr (set_token st TOK_LOGICAL_AND None (tl s)) else Inl SyntaxAnd)
          else if c = CHR ''|'' then
            (if starts_with (CHR ''|'') s then Inr (set_token st TOK_LOGICAL_OR None (tl s)) else Inl SyntaxOr)
          else if c = CHR ''?'' then Inr (set_token st TOK_TERNARY_COND None s)
          else if c = CHR '':'' then Inr (set_token st TOK_TERNARY_ALT None s)
          else if c = CHR '','' then Inr (set_token st TOK_COMMA None s)
          else if risdigit c \<or> c = CHR ''%'' \<and> has (es_flags st) RPMEXPR_EXPAND then rd_integer E st (c # s)
          else if c = CHR 0x22 then rd_string E st False s
          else if c = CHR ''v'' \<and> starts_with (CHR 0x22) s then rd_string E st True (tl s)
          else if risalpha c then
            (case isFunctionCall (c # s) of
               None \<Rightarrow> Inl BareWord
             | Some pe \<Rightarrow>
                 Inr (set_token st TOK_FUNCTION (Some (VString (take (length (c # s) - length pe) (c # s)))) (tl pe)))
          else Inl ParseError)"

subsection \<open>The evaluator\<close>

text \<open>
  The levels of the grammar call each other down to \<open>doPrimary\<close>, which calls \<open>doTernary\<close> again after
  it has read a token. Each level takes the level below as an argument, and \<open>doTernary\<close> closes the
  recursion; the first argument of the recursive definitions is fuel, an upper bound of the number of
  tokens left, and \<open>NoFuel\<close> is shown never to be returned.
\<close>

type_synonym expr_parser = "parseState \<Rightarrow> (value_s \<times> parseState) expr_result"

definition is_version :: "value_s \<Rightarrow> bool" where
  "is_version v = (case v of VVersion _ \<Rightarrow> True | _ \<Rightarrow> False)"

definition doLuaFunction :: "expr_env \<Rightarrow> parseState \<Rightarrow> cstr \<Rightarrow> value_s list \<Rightarrow> value_s expr_result" where
  "doLuaFunction E st name argv =
     (if has (es_flags st) RPMEXPR_DISCARD then Inr (VString [])
      else if list_ex is_version argv then Inl ArgumentType
      else (case luaCallString E name argv of None \<Rightarrow> Inl LuaFailed | Some result \<Rightarrow> Inr (VString result)))"

primrec function_args ::
    "nat \<Rightarrow> expr_env \<Rightarrow> expr_parser \<Rightarrow> value_s list \<Rightarrow> parseState \<Rightarrow> (value_s list \<times> parseState) expr_result" where
  "function_args 0 E tern varg st = Inl NoFuel"
| "function_args (Suc n) E tern varg st =
     (if es_nextToken st = TOK_CLOSE_P then Inr (varg, st)
      else rbind (tern st) (\<lambda>(v, st).
        if es_nextToken st = TOK_CLOSE_P then Inr (varg @ [v], st)
        else if es_nextToken st \<noteq> TOK_COMMA then Inl SyntaxError
        else rbind (rdToken E st) (\<lambda>st.
          if es_nextToken st = TOK_CLOSE_P then Inl SyntaxError
          else function_args n E tern (varg @ [v]) st)))"

definition doFunction :: "nat \<Rightarrow> expr_env \<Rightarrow> expr_parser \<Rightarrow> expr_parser" where
  "doFunction n E tern st =
     (let vname = (case es_tokenValue st of Some (VString s) \<Rightarrow> s | _ \<Rightarrow> []) in
      rbind (rdToken E st) (\<lambda>st.
      rbind (function_args n E tern [] st) (\<lambda>(varg, st).
      rbind (rdToken E st) (\<lambda>st.
        if take 4 vname = ''lua:''
        then rbind (doLuaFunction E st (drop 4 vname) varg) (\<lambda>v. Inr (v, st))
        else Inl UnsupportedFunction))))"

primrec doPrimary :: "nat \<Rightarrow> expr_env \<Rightarrow> expr_parser \<Rightarrow> expr_parser" where
  "doPrimary 0 E tern st = Inl NoFuel"
| "doPrimary (Suc n) E tern st =
     (case es_nextToken st of
        TOK_FUNCTION \<Rightarrow> doFunction n E tern st
      | TOK_OPEN_P \<Rightarrow>
          rbind (rdToken E st) (\<lambda>st.
          rbind (tern st) (\<lambda>(v, st).
            if es_nextToken st \<noteq> TOK_CLOSE_P then Inl UnmatchedParen
            else rbind (rdToken E st) (\<lambda>st. Inr (v, st))))
      | TOK_INTEGER \<Rightarrow> rbind (rdToken E st) (\<lambda>st'. Inr (the (es_tokenValue st), st'))
      | TOK_STRING \<Rightarrow> rbind (rdToken E st) (\<lambda>st'. Inr (the (es_tokenValue st), st'))
      | TOK_MINUS \<Rightarrow>
          rbind (rdToken E st) (\<lambda>st.
          rbind (doPrimary n E tern st) (\<lambda>(v, st).
            case v of VInteger i \<Rightarrow> rbind (c_int (- i)) (\<lambda>i. Inr (VInteger i, st))
                    | _ \<Rightarrow> Inl MinusOnlyNumbers))
      | TOK_NOT \<Rightarrow>
          rbind (rdToken E st) (\<lambda>st.
          rbind (doPrimary n E tern st) (\<lambda>(v, st).
            Inr (VInteger (of_bool (\<not> boolifyValue v)), st)))
      | TOK_EOF \<Rightarrow> Inl UnexpectedEnd
      | _ \<Rightarrow> Inl SyntaxError)"

text \<open>The binary levels are loops of the same shape: while the next token is one of the level's
  operators, read it, evaluate the operand to its right and combine the two values. \<open>doLogical\<close> has
  a loop of its own, which changes the flags.\<close>

primrec operator_loop ::
    "nat \<Rightarrow> expr_env \<Rightarrow> (expr_token \<Rightarrow> bool) \<Rightarrow> (u32 \<Rightarrow> expr_token \<Rightarrow> value_s \<Rightarrow> value_s \<Rightarrow> value_s expr_result)
      \<Rightarrow> expr_parser \<Rightarrow> value_s \<Rightarrow> expr_parser" where
  "operator_loop 0 E isop combine sub v1 st = Inl NoFuel"
| "operator_loop (Suc n) E isop combine sub v1 st =
     (let op = es_nextToken st in
      if isop op then
        rbind (rdToken E st) (\<lambda>st.
        rbind (sub st) (\<lambda>(v2, st).
        rbind (combine (es_flags st) op v1 v2) (\<lambda>v1.
          operator_loop n E isop combine sub v1 st)))
      else Inr (v1, st))"

definition mulDiv :: "u32 \<Rightarrow> expr_token \<Rightarrow> value_s \<Rightarrow> value_s \<Rightarrow> value_s expr_result" where
  "mulDiv flags op v1 v2 =
     (if \<not> valueSameType v1 v2 then Inl TypesMustMatch
      else case (v1, v2) of
        (VInteger i1, VInteger i2) \<Rightarrow>
          if has flags RPMEXPR_DISCARD then Inr v1
          else if i2 = 0 \<and> op = TOK_DIVIDE then Inl DivisionByZero
          else rbind (c_int (if op = TOK_MULTIPLY then i1 * i2 else i1 sdiv i2)) (\<lambda>i. Inr (VInteger i))
      | (VVersion _, _) \<Rightarrow> Inl MulDivVersion
      | _ \<Rightarrow> Inl MulDivString)"

definition is_mulDiv :: "expr_token \<Rightarrow> bool" where
  "is_mulDiv t \<longleftrightarrow> t = TOK_MULTIPLY \<or> t = TOK_DIVIDE"

definition doMultiplyDivide :: "nat \<Rightarrow> expr_env \<Rightarrow> expr_parser \<Rightarrow> expr_parser" where
  "doMultiplyDivide n E tern st =
     rbind (doPrimary n E tern st) (\<lambda>(v1, st).
       operator_loop n E is_mulDiv mulDiv (doPrimary n E tern) v1 st)"

definition addSub :: "expr_token \<Rightarrow> value_s \<Rightarrow> value_s \<Rightarrow> value_s expr_result" where
  "addSub op v1 v2 =
     (if \<not> valueSameType v1 v2 then Inl TypesMustMatch
      else case (v1, v2) of
        (VInteger i1, VInteger i2) \<Rightarrow>
          rbind (c_int (if op = TOK_ADD then i1 + i2 else i1 - i2)) (\<lambda>i. Inr (VInteger i))
      | (VString s1, VString s2) \<Rightarrow> if op = TOK_MINUS then Inl SubString else Inr (VString (s1 @ s2))
      | _ \<Rightarrow> Inl AddSubVersion)"

definition is_addSub :: "expr_token \<Rightarrow> bool" where
  "is_addSub t \<longleftrightarrow> t = TOK_ADD \<or> t = TOK_MINUS"

definition doAddSubtract :: "nat \<Rightarrow> expr_env \<Rightarrow> expr_parser \<Rightarrow> expr_parser" where
  "doAddSubtract n E tern st =
     rbind (doMultiplyDivide n E tern st) (\<lambda>(v1, st).
       operator_loop n E is_addSub (\<lambda>_. addSub) (doMultiplyDivide n E tern) v1 st)"

definition valueCompare :: "value_s \<Rightarrow> value_s \<Rightarrow> int expr_result" where
  "valueCompare v1 v2 =
     (case (v1, v2) of
        (VInteger i1, VInteger i2) \<Rightarrow> valueCmpInteger i1 i2
      | (VVersion r1, VVersion r2) \<Rightarrow> valueCmpVersion r1 r2
      | (VString s1, VString s2) \<Rightarrow> valueCmpString s1 s2
      | _ \<Rightarrow> Inl TypesMustMatch)"

definition relational :: "expr_token \<Rightarrow> value_s \<Rightarrow> value_s \<Rightarrow> value_s expr_result" where
  "relational op v1 v2 =
     (if \<not> valueSameType v1 v2 then Inl TypesMustMatch
      else rbind (valueCompare v1 v2) (\<lambda>cmp.
        Inr (VInteger (of_bool
          (case op of
             TOK_EQ \<Rightarrow> cmp = 0 | TOK_NEQ \<Rightarrow> cmp \<noteq> 0 | TOK_LT \<Rightarrow> cmp < 0
           | TOK_LE \<Rightarrow> cmp \<le> 0 | TOK_GT \<Rightarrow> cmp > 0 | TOK_GE \<Rightarrow> cmp \<ge> 0 | _ \<Rightarrow> False)))))"

definition is_relational :: "expr_token \<Rightarrow> bool" where
  "is_relational t \<longleftrightarrow> t \<in> {TOK_EQ, TOK_NEQ, TOK_LT, TOK_LE, TOK_GT, TOK_GE}"

definition doRelational :: "nat \<Rightarrow> expr_env \<Rightarrow> expr_parser \<Rightarrow> expr_parser" where
  "doRelational n E tern st =
     rbind (doAddSubtract n E tern st) (\<lambda>(v1, st).
       operator_loop n E is_relational (\<lambda>_. relational) (doAddSubtract n E tern) v1 st)"

primrec doLogical_loop :: "nat \<Rightarrow> expr_env \<Rightarrow> expr_parser \<Rightarrow> u32 \<Rightarrow> value_s \<Rightarrow> expr_parser" where
  "doLogical_loop 0 E rel oldflags v1 st = Inl NoFuel"
| "doLogical_loop (Suc n) E rel oldflags v1 st =
     (let op = es_nextToken st; b1 = boolifyValue v1 in
      if op = TOK_LOGICAL_AND \<or> op = TOK_LOGICAL_OR then
        let short = (op = TOK_LOGICAL_AND \<and> \<not> b1 \<or> op = TOK_LOGICAL_OR \<and> b1);
            st = (if short then st\<lparr>es_flags := es_flags st OR RPMEXPR_DISCARD\<rparr> else st) in
        rbind (rdToken E st) (\<lambda>st.
        rbind (rel st) (\<lambda>(v2, st).
          if \<not> valueSameType v1 v2 then Inl TypesMustMatch
          else doLogical_loop n E rel oldflags (if short then v1 else v2) (st\<lparr>es_flags := oldflags\<rparr>)))
      else Inr (v1, st))"

definition doLogical :: "nat \<Rightarrow> expr_env \<Rightarrow> expr_parser \<Rightarrow> expr_parser" where
  "doLogical n E tern st0 =
     rbind (doRelational n E tern st0)
       (\<lambda>(v1, st). doLogical_loop n E (doRelational n E tern) (es_flags st0) v1 st)"

primrec doTernary :: "nat \<Rightarrow> expr_env \<Rightarrow> expr_parser" where
  "doTernary 0 E st = Inl NoFuel"
| "doTernary (Suc n) E st0 =
     (let oldflags = es_flags st0 in
      rbind (doLogical (Suc n) E (doTernary n E) st0) (\<lambda>(v1, st).
        if es_nextToken st = TOK_TERNARY_COND then
          let cond = boolifyValue v1;
              st = (if \<not> cond then st\<lparr>es_flags := es_flags st OR RPMEXPR_DISCARD\<rparr> else st) in
          rbind (rdToken E st) (\<lambda>st.
          rbind (doTernary n E st) (\<lambda>(v1, st).
            if es_nextToken st \<noteq> TOK_TERNARY_ALT then Inl SyntaxError
            else
              let st = st\<lparr>es_flags := oldflags\<rparr>;
                  st = (if cond then st\<lparr>es_flags := es_flags st OR RPMEXPR_DISCARD\<rparr> else st) in
              rbind (rdToken E st) (\<lambda>st.
              rbind (doTernary n E st) (\<lambda>(v2, st).
                let st = st\<lparr>es_flags := oldflags\<rparr> in
                if \<not> valueSameType v1 v2 then Inl TypesMustMatch
                else Inr (if cond then v1 else v2, st)))))
        else Inr (v1, st)))"

subsection \<open>Entry points\<close>

definition expr_fuel :: "cstr \<Rightarrow> nat" where
  "expr_fuel expr = length expr + 2"

definition expr_value :: "expr_env \<Rightarrow> cstr \<Rightarrow> u32 \<Rightarrow> value_s expr_result" where
  "expr_value E expr flags =
     rbind (rdToken E \<lparr>es_p = expr, es_nextToken = TOK_EOF, es_tokenValue = None, es_flags = flags\<rparr>) (\<lambda>st.
     rbind (doTernary (expr_fuel expr) E st) (\<lambda>(v, st).
       if es_nextToken st \<noteq> TOK_EOF then Inl SyntaxError else Inr v))"

definition rpmExprBoolFlags :: "expr_env \<Rightarrow> cstr \<Rightarrow> u32 \<Rightarrow> bool expr_result" where
  "rpmExprBoolFlags E expr flags = rbind (expr_value E expr flags) (\<lambda>v. Inr (boolifyValue v))"

text \<open>\<open>printf("%d")\<close>.\<close>

fun nat_digits :: "nat \<Rightarrow> cstr" where
  "nat_digits n = (if n < 10 then [char_of (48 + n)] else nat_digits (n div 10) @ [char_of (48 + n mod 10)])"

declare nat_digits.simps [simp del]

definition int_digits :: "int \<Rightarrow> cstr" where
  "int_digits i = (if i < 0 then CHR ''-'' # nat_digits (nat (- i)) else nat_digits (nat i))"

definition rpmExprStrFlags :: "expr_env \<Rightarrow> cstr \<Rightarrow> u32 \<Rightarrow> cstr expr_result" where
  "rpmExprStrFlags E expr flags =
     rbind (expr_value E expr flags) (\<lambda>v.
       Inr (case v of VInteger i \<Rightarrow> int_digits i | VString s \<Rightarrow> s | VVersion r \<Rightarrow> the (rpmverEVR (Some r))))"

definition rpmExprBool :: "expr_env \<Rightarrow> cstr \<Rightarrow> bool expr_result" where
  "rpmExprBool E expr = rpmExprBoolFlags E expr 0"

definition rpmExprStr :: "expr_env \<Rightarrow> cstr \<Rightarrow> cstr expr_result" where
  "rpmExprStr E expr = rpmExprStrFlags E expr 0"

subsection \<open>Every evaluation ends\<close>

text \<open>The characters left plus the lookahead token: reading a token makes it smaller.\<close>

definition tokens_left :: "parseState \<Rightarrow> nat" where
  "tokens_left st = length (es_p st) + of_bool (es_nextToken st \<noteq> TOK_EOF)"

lemma scan_literal_rules:
  "scan_literal stop expand [] = Some []"
  "scan_literal stop expand (c # s) =
     (if c = CHR ''%'' \<and> expand then
        (case skipMacro s of None \<Rightarrow> None | Some q \<Rightarrow> scan_literal stop expand q)
      else if stop c then Some (c # s) else scan_literal stop expand s)"
  by (subst scan_literal.simps, simp)+

lemma skipMacro_suffix: "skipMacro p = Some q \<Longrightarrow> suffix q p"
  by (auto simp: skipMacro_def suffix_tl split: if_splits option.splits dest: findMacroEnd_suffix)

lemma scan_literal_suffix: "scan_literal stop expand p = Some q \<Longrightarrow> suffix q p"
proof (induction stop expand p rule: scan_literal.induct)
  case (1 stop expand p)
  show ?case
  proof (cases p)
    case (Cons c s)
    show ?thesis
    proof (cases "c = CHR ''%'' \<and> expand")
      case True
      with 1(3) Cons obtain r where r: "skipMacro s = Some r" "scan_literal stop expand r = Some q"
        by (auto simp: scan_literal_rules split: option.splits)
      from 1(1) [OF Cons True r] skipMacro_suffix [OF r(1)] Cons show ?thesis
        by (auto intro: suffix_ConsI dest: suffix_order.trans)
    next
      case False
      with 1 Cons show ?thesis by (auto simp: scan_literal_rules split: if_splits intro: suffix_ConsI)
    qed
  qed (use 1(3) in \<open>simp add: scan_literal_rules\<close>)
qed

lemma scan_literal_consumes:
  "scan_literal stop expand (c # s) = Some q \<Longrightarrow> \<not> stop c \<or> c = CHR ''%'' \<and> expand \<Longrightarrow> length q \<le> length s"
  by (auto simp: scan_literal_rules split: if_splits option.splits
      dest!: scan_literal_suffix [THEN suffix_length_le] skipMacro_length)

lemma set_token_simps [simp]:
  "es_p (set_token st t v p) = p" "es_nextToken (set_token st t v p) = t"
  "es_tokenValue (set_token st t v p) = v" "es_flags (set_token st t v p) = es_flags st"
  by (simp_all add: set_token_def)

text \<open>What a token read promises of the state, and that it is not out of fuel.\<close>

definition reads :: "nat \<Rightarrow> u32 \<Rightarrow> parseState expr_result \<Rightarrow> bool" where
  "reads k f r \<longleftrightarrow> r \<noteq> Inl NoFuel \<and> (\<forall>st'. r = Inr st' \<longrightarrow> tokens_left st' \<le> k \<and> es_flags st' = f)"

lemma reads_if: "(b \<Longrightarrow> reads k f x) \<Longrightarrow> (\<not> b \<Longrightarrow> reads k f y) \<Longrightarrow> reads k f (if b then x else y)"
  by simp

lemma reads_set_token:
  "es_flags st = f \<Longrightarrow> length p + of_bool (t \<noteq> TOK_EOF) \<le> k \<Longrightarrow> reads k f (Inr (set_token st t v p))"
  by (auto simp: reads_def tokens_left_def)

lemma reads_Inl: "e \<noteq> NoFuel \<Longrightarrow> reads k f (Inl e)"
  by (simp add: reads_def)

lemma reads_integer:
  assumes "risdigit c \<or> c = CHR ''%'' \<and> has (es_flags st) RPMEXPR_EXPAND"
  shows "reads (Suc (length s)) (es_flags st) (rd_integer E st (c # s))"
  using assms scan_literal_consumes [of "\<lambda>c. \<not> risdigit c" "has (es_flags st) RPMEXPR_EXPAND" c s]
  by (auto simp: rd_integer_def Let_def intro!: reads_if reads_set_token reads_Inl split: option.split)

lemma reads_string: "reads (Suc (length s)) (es_flags st) (rd_string E st version s)"
proof -
  have "length q \<le> length s" if "scan_literal (\<lambda>c. c = CHR 0x22) (has (es_flags st) RPMEXPR_EXPAND) s = Some q" for q
    using that by (rule scan_literal_suffix [THEN suffix_length_le])
  then show ?thesis
    by (auto simp: rd_string_def Let_def le_SucI intro!: reads_if reads_set_token reads_Inl
        split: option.split)
qed

lemma isFunctionCall_length: "isFunctionCall (c # s) = Some pe \<Longrightarrow> length pe \<le> length s"
  by (auto simp: isFunctionCall_def Let_def length_dropWhile_le split: if_splits)

lemma reads_function:
  "reads (Suc (length s)) (es_flags st) (case isFunctionCall (c # s) of None \<Rightarrow> Inl BareWord
     | Some pe \<Rightarrow> Inr (set_token st TOK_FUNCTION (v pe) (tl pe)))"
  by (auto intro!: reads_set_token reads_Inl split: option.split dest: isFunctionCall_length)

lemma rdToken_reads: "reads (length (es_p st)) (es_flags st) (rdToken E st)"
proof (cases "dropWhile risspace (es_p st)")
  case Nil
  show ?thesis unfolding rdToken_def Nil list.case by (rule reads_set_token) simp_all
next
  case (Cons c s)
  have le: "Suc (length s) \<le> length (es_p st)" using length_dropWhile_le [of risspace "es_p st"] Cons by simp
  have mono: "reads (Suc (length s)) f r \<Longrightarrow> reads (length (es_p st)) f r" for f r
    using le by (auto simp: reads_def)
  note leaf = reads_set_token reads_Inl mono [OF reads_integer] mono [OF reads_function]
    mono [OF reads_string] reads_string
  have str: "c = CHR ''v'' \<and> starts_with (CHR 0x22) s \<Longrightarrow> reads (length (es_p st)) (es_flags st) (rd_string E st v (tl s))" for v
    using reads_string [of "tl s" st E v] le by (cases s) (auto simp: reads_def)
  show ?thesis
    unfolding rdToken_def Cons list.case
    by (intro reads_if; (rule leaf str, ((assumption | use le in \<open>simp; fail\<close>)+)?)?)
qed

lemma rdToken_props:
  assumes "rdToken E st = Inr st'"
  shows "tokens_left st' \<le> length (es_p st)" "es_flags st' = es_flags st"
    "es_nextToken st \<noteq> TOK_EOF \<Longrightarrow> tokens_left st' < tokens_left st"
  using rdToken_reads [of st E] assms by (auto simp: reads_def tokens_left_def)

lemma rdToken_fuel [simp]: "rdToken E st \<noteq> Inl NoFuel"
  using rdToken_reads [of st E] by (simp add: reads_def)

text \<open>The contract of the levels: the result is not out of fuel, and after a success less than \<open>k\<close>
  tokens are left and the flags are \<open>f\<close>.\<close>

definition fin :: "nat \<Rightarrow> u32 \<Rightarrow> (value_s \<times> parseState) expr_result \<Rightarrow> bool" where
  "fin k f r \<longleftrightarrow> r \<noteq> Inl NoFuel \<and> (\<forall>v st'. r = Inr (v, st') \<longrightarrow> tokens_left st' < k \<and> es_flags st' = f)"

definition level :: "nat \<Rightarrow> expr_parser \<Rightarrow> bool" where
  "level n p \<longleftrightarrow> (\<forall>st. tokens_left st < n \<longrightarrow> fin (tokens_left st) (es_flags st) (p st))"

lemma level_mono: "level n p \<Longrightarrow> m \<le> n \<Longrightarrow> level m p"
  by (simp add: level_def)

lemma fin_Inr: "tokens_left st < k \<Longrightarrow> es_flags st = f \<Longrightarrow> fin k f (Inr (v, st))"
  by (simp add: fin_def)

lemma fin_Inl: "e \<noteq> NoFuel \<Longrightarrow> fin k f (Inl e)"
  by (simp add: fin_def)

lemma fin_mono: "fin j f r \<Longrightarrow> j \<le> k \<Longrightarrow> fin k f r"
  by (auto simp: fin_def)

lemma fin_if: "(b \<Longrightarrow> fin k f x) \<Longrightarrow> (\<not> b \<Longrightarrow> fin k f y) \<Longrightarrow> fin k f (if b then x else y)"
  by simp

lemma fin_pure: "r \<noteq> Inl NoFuel \<Longrightarrow> (\<And>v. r = Inr v \<Longrightarrow> fin k f (h v)) \<Longrightarrow> fin k f (rbind r h)"
  by (cases r) (auto simp: fin_def)

lemma fin_level:
  assumes "level n p" "tokens_left st < n"
    and "\<And>v st'. tokens_left st' < tokens_left st \<Longrightarrow> es_flags st' = es_flags st \<Longrightarrow> fin k f (h v st')"
  shows "fin k f (rbind (p st) (\<lambda>(v, st). h v st))"
proof (rule fin_pure)
  have p: "fin (tokens_left st) (es_flags st) (p st)" using assms(1,2) by (simp add: level_def)
  then show "p st \<noteq> Inl NoFuel" by (simp add: fin_def)
  fix r assume r: "p st = Inr r"
  obtain v st' where "r = (v, st')" by (cases r)
  moreover from p r this have "tokens_left st' < tokens_left st" "es_flags st' = es_flags st"
    by (simp_all add: fin_def)
  ultimately show "fin k f (case r of (v, st) \<Rightarrow> h v st)" using assms(3) by simp
qed

lemma fin_read:
  assumes "es_nextToken st \<noteq> TOK_EOF"
    and "\<And>st'. tokens_left st' < tokens_left st \<Longrightarrow> es_flags st' = es_flags st \<Longrightarrow> fin k f (h st')"
  shows "fin k f (rbind (rdToken E st) h)"
  by (rule fin_pure) (simp_all add: assms rdToken_props(2,3))

lemma tokens_left_flags [simp]: "tokens_left (st\<lparr>es_flags := f\<rparr>) = tokens_left st"
  by (simp add: tokens_left_def)

lemma fin_operator_loop:
  assumes "level n sub" and comb: "\<And>f op v1 v2. combine f op v1 v2 \<noteq> Inl NoFuel"
    and eof: "\<not> isop TOK_EOF" and "tokens_left st < m" "m \<le> n"
  shows "fin (Suc (tokens_left st)) (es_flags st) (operator_loop m E isop combine sub v1 st)"
  using assms(4,5)
proof (induction m arbitrary: v1 st)
  case (Suc m)
  show ?case
  proof (cases "isop (es_nextToken st)")
    case True
    then have ne: "es_nextToken st \<noteq> TOK_EOF" using eof by auto
    show ?thesis unfolding operator_loop.simps Let_def if_P [OF True]
    proof (intro fin_read [OF ne] fin_level [OF assms(1)] fin_pure comb)
      fix st1 v st2 v1
      assume "tokens_left st1 < tokens_left st" "es_flags st1 = es_flags st"
        "tokens_left st2 < tokens_left st1" "es_flags st2 = es_flags st1"
      then show "fin (Suc (tokens_left st)) (es_flags st) (operator_loop m E isop combine sub v1 st2)"
        using Suc.IH [of st2 v1] Suc.prems by (auto elim: fin_mono)
    qed (use Suc.prems in linarith)
  qed (simp add: fin_Inr)
qed simp

lemma level_operator_loop:
  assumes "level n p" and "\<And>f op v1 v2. combine f op v1 v2 \<noteq> Inl NoFuel" "\<not> isop TOK_EOF"
  shows "level n (\<lambda>st. rbind (p st) (\<lambda>(v1, st). operator_loop n E isop combine p v1 st))"
  unfolding level_def
proof (intro allI impI fin_level [OF assms(1)])
  fix st v and st' :: parseState
  assume "tokens_left st < n" "tokens_left st' < tokens_left st" "es_flags st' = es_flags st"
  then show "fin (tokens_left st) (es_flags st) (operator_loop n E isop combine p v st')"
    using fin_operator_loop [where m = n and st = st' and ?v1.0 = v and E = E and isop = isop
        and combine = combine, OF assms] by (auto elim: fin_mono)
qed

lemma value_ops_fuel [simp]:
  "c_int i \<noteq> Inl NoFuel" "mulDiv f op v1 v2 \<noteq> Inl NoFuel" "addSub op v1 v2 \<noteq> Inl NoFuel"
  "relational op v1 v2 \<noteq> Inl NoFuel" "doLuaFunction E st name argv \<noteq> Inl NoFuel"
  by (auto simp: c_int_def mulDiv_def addSub_def relational_def valueCompare_def valueCmpInteger_def
      valueCmpString_def valueCmpVersion_def doLuaFunction_def rbind_eq_Inl
      split: value_s.splits option.splits)

lemma fin_function_args:
  assumes "level n tern"
    and "\<And>varg st'. tokens_left st' \<le> tokens_left st \<Longrightarrow> es_nextToken st' = TOK_CLOSE_P \<Longrightarrow>
       es_flags st' = es_flags st \<Longrightarrow> fin k f (h varg st')"
    and "tokens_left st < m" "m \<le> n"
  shows "fin k f (rbind (function_args m E tern varg st) (\<lambda>(varg, st). h varg st))"
  using assms(2-4)
proof (induction m arbitrary: varg st)
  case (Suc m)
  have rec: "fin k f (rbind (function_args m E tern (varg @ [v]) st2) (\<lambda>(varg, st). h varg st))"
    if "tokens_left st2 < tokens_left st1" "es_flags st2 = es_flags st1"
      "tokens_left st1 < tokens_left st" "es_flags st1 = es_flags st" for st1 st2 v
    using that Suc.prems by (intro Suc.IH) auto
  show ?case
  proof (cases "es_nextToken st = TOK_CLOSE_P")
    case True
    then show ?thesis using Suc.prems(1) [of st] by simp
  next
    case False
    have "rbind (function_args (Suc m) E tern varg st) (\<lambda>(varg, st). h varg st) =
      rbind (tern st) (\<lambda>(v, st). rbind
        (if es_nextToken st = TOK_CLOSE_P then Inr (varg @ [v], st)
         else if es_nextToken st \<noteq> TOK_COMMA then Inl SyntaxError
         else rbind (rdToken E st) (\<lambda>st. if es_nextToken st = TOK_CLOSE_P then Inl SyntaxError
           else function_args m E tern (varg @ [v]) st)) (\<lambda>(varg, st). h varg st))"
      using False by (cases "tern st") auto
    also have "fin k f \<dots>"
    proof (rule fin_level [OF assms(1)])
      show "tokens_left st < n" using Suc.prems by simp
      fix v st1 assume st1: "tokens_left st1 < tokens_left st" "es_flags st1 = es_flags st"
      have read: "fin k f (rbind (rbind (rdToken E st1) (\<lambda>st. if es_nextToken st = TOK_CLOSE_P
          then Inl SyntaxError else function_args m E tern (varg @ [v]) st)) (\<lambda>(varg, st). h varg st))"
        if "es_nextToken st1 = TOK_COMMA"
      proof (cases "rdToken E st1")
        case (Inr st2)
        then show ?thesis using rec [of st2 st1 v] st1 rdToken_props [OF Inr] that by (simp add: fin_Inl)
      next
        case (Inl e)
        then show ?thesis using rdToken_fuel [of E st1] by (auto simp: fin_def)
      qed
      then show "fin k f (rbind
        (if es_nextToken st1 = TOK_CLOSE_P then Inr (varg @ [v], st1)
         else if es_nextToken st1 \<noteq> TOK_COMMA then Inl SyntaxError
         else rbind (rdToken E st1) (\<lambda>st. if es_nextToken st = TOK_CLOSE_P then Inl SyntaxError
           else function_args m E tern (varg @ [v]) st)) (\<lambda>(varg, st). h varg st))"
        using Suc.prems(1) [of st1 "varg @ [v]"] st1 by (simp add: fin_Inl)
    qed
    finally show ?thesis .
  qed
qed simp

lemma fin_doFunction:
  assumes "level n tern" "tokens_left st < Suc m" "m \<le> n" "es_nextToken st \<noteq> TOK_EOF"
  shows "fin (tokens_left st) (es_flags st) (doFunction m E tern st)"
  unfolding doFunction_def Let_def
proof (rule fin_read [OF assms(4)])
  fix st1 assume st1: "tokens_left st1 < tokens_left st" "es_flags st1 = es_flags st"
  let ?n = "case es_tokenValue st of Some (VString s) \<Rightarrow> s | _ \<Rightarrow> []"
  show "fin (tokens_left st) (es_flags st) (rbind (function_args m E tern [] st1) (\<lambda>(varg, st).
      rbind (rdToken E st) (\<lambda>st. if take 4 ?n = ''lua:''
        then rbind (doLuaFunction E st (drop 4 ?n) varg) (\<lambda>v. Inr (v, st)) else Inl UnsupportedFunction)))"
  proof (rule fin_function_args [OF assms(1)])
    fix varg st2 assume st2: "tokens_left st2 \<le> tokens_left st1" "es_nextToken st2 = TOK_CLOSE_P"
      "es_flags st2 = es_flags st1"
    then have "es_nextToken st2 \<noteq> TOK_EOF" by simp
    then show "fin (tokens_left st) (es_flags st) (rbind (rdToken E st2) (\<lambda>st. if take 4 ?n = ''lua:''
        then rbind (doLuaFunction E st (drop 4 ?n) varg) (\<lambda>v. Inr (v, st)) else Inl UnsupportedFunction))"
      by (rule fin_read) (use st1 st2 in \<open>auto intro!: fin_if fin_pure fin_Inr fin_Inl\<close>)
  qed (use assms st1 in linarith)+
qed

lemma level_doPrimary: "level n tern \<Longrightarrow> m \<le> Suc n \<Longrightarrow> level m (doPrimary m E tern)"
proof (induction m)
  case (Suc m)
  then have prim: "level m (doPrimary m E tern)" by simp
  show ?case unfolding level_def
  proof (intro allI impI)
    fix st assume st: "tokens_left st < Suc m"
    show "fin (tokens_left st) (es_flags st) (doPrimary (Suc m) E tern st)"
    proof (cases "es_nextToken st")
      case TOK_OPEN_P
      then have "es_nextToken st \<noteq> TOK_EOF" by simp
      then have "fin (tokens_left st) (es_flags st) (rbind (rdToken E st) (\<lambda>st.
          rbind (tern st) (\<lambda>(v, st). if es_nextToken st \<noteq> TOK_CLOSE_P then Inl UnmatchedParen
            else rbind (rdToken E st) (\<lambda>st. Inr (v, st)))))"
        by (rule fin_read)
          (use st Suc.prems in \<open>auto intro!: fin_level [OF Suc.prems(1)] fin_if fin_Inl fin_read fin_Inr\<close>)
      with TOK_OPEN_P show ?thesis by simp
    next
      case TOK_MINUS
      then have "es_nextToken st \<noteq> TOK_EOF" by simp
      then have "fin (tokens_left st) (es_flags st) (rbind (rdToken E st) (\<lambda>st.
          rbind (doPrimary m E tern st) (\<lambda>(v, st). case v of
              VInteger i \<Rightarrow> rbind (c_int (- i)) (\<lambda>i. Inr (VInteger i, st)) | _ \<Rightarrow> Inl MinusOnlyNumbers)))"
        by (rule fin_read)
          (rule fin_level [OF prim], use st in \<open>auto intro!: fin_pure fin_Inl fin_Inr split: value_s.split\<close>)
      with TOK_MINUS show ?thesis by simp
    next
      case TOK_NOT
      then have "es_nextToken st \<noteq> TOK_EOF" by simp
      then have "fin (tokens_left st) (es_flags st) (rbind (rdToken E st) (\<lambda>st.
          rbind (doPrimary m E tern st) (\<lambda>(v, st). Inr (VInteger (of_bool (\<not> boolifyValue v)), st))))"
        by (rule fin_read) (use st in \<open>auto intro!: fin_level [OF prim] fin_Inr\<close>)
      with TOK_NOT show ?thesis by simp
    next
      case TOK_FUNCTION
      then show ?thesis using fin_doFunction [OF Suc.prems(1) st] Suc.prems(2) by simp
    qed (auto intro!: fin_read fin_Inr simp: fin_Inl)
  qed
qed (simp add: level_def)

lemma level_binary:
  assumes "level n tern"
  shows "level (Suc n) (doMultiplyDivide (Suc n) E tern)" "level (Suc n) (doAddSubtract (Suc n) E tern)"
    "level (Suc n) (doRelational (Suc n) E tern)"
proof -
  show mul: "level (Suc n) (doMultiplyDivide (Suc n) E tern)" unfolding doMultiplyDivide_def [abs_def]
    by (rule level_operator_loop [OF level_doPrimary [OF assms order_refl]]) (simp_all add: is_mulDiv_def)
  show add: "level (Suc n) (doAddSubtract (Suc n) E tern)" unfolding doAddSubtract_def [abs_def]
    by (rule level_operator_loop [OF mul]) (simp_all add: is_addSub_def)
  show "level (Suc n) (doRelational (Suc n) E tern)" unfolding doRelational_def [abs_def]
    by (rule level_operator_loop [OF add]) (simp_all add: is_relational_def)
qed

lemma fin_doLogical_loop:
  assumes "level n rel" "tokens_left st < m" "m \<le> n" "es_flags st = oldflags"
  shows "fin (Suc (tokens_left st)) oldflags (doLogical_loop m E rel oldflags v1 st)"
  using assms(2-4)
proof (induction m arbitrary: v1 st)
  case (Suc m)
  let ?op = "es_nextToken st"
  let ?short = "?op = TOK_LOGICAL_AND \<and> \<not> boolifyValue v1 \<or> ?op = TOK_LOGICAL_OR \<and> boolifyValue v1"
  let ?st = "if ?short then st\<lparr>es_flags := es_flags st OR RPMEXPR_DISCARD\<rparr> else st"
  show ?case
  proof (cases "?op = TOK_LOGICAL_AND \<or> ?op = TOK_LOGICAL_OR")
    case True
    then have ne: "es_nextToken ?st \<noteq> TOK_EOF" by auto
    show ?thesis unfolding doLogical_loop.simps Let_def if_P [OF True]
    proof (intro fin_read [OF ne] fin_level [OF assms(1)] fin_if fin_Inl)
      fix st1 v2 and st2 :: parseState
      assume "tokens_left st1 < tokens_left ?st" "tokens_left st2 < tokens_left st1"
      then have "tokens_left st2 < tokens_left st" by (simp split: if_splits)
      then show "fin (Suc (tokens_left st)) oldflags
          (doLogical_loop m E rel oldflags (if ?short then v1 else v2) (st2\<lparr>es_flags := oldflags\<rparr>))"
        using Suc.prems by (intro fin_mono [OF Suc.IH]) auto
    qed (use Suc.prems in \<open>auto split: if_splits\<close>)
  qed (use Suc.prems in \<open>simp add: fin_Inr\<close>)
qed simp

lemma level_doLogical:
  assumes "level n tern"
  shows "level (Suc n) (doLogical (Suc n) E tern)"
  unfolding level_def doLogical_def
proof (intro allI impI fin_level [OF level_binary(3) [OF assms]])
  fix st v and st' :: parseState
  assume "tokens_left st < Suc n" "tokens_left st' < tokens_left st" "es_flags st' = es_flags st"
  then show "fin (tokens_left st) (es_flags st)
      (doLogical_loop (Suc n) E (doRelational (Suc n) E tern) (es_flags st) v st')"
    by (intro fin_mono [OF fin_doLogical_loop [OF level_binary(3) [OF assms]]]) simp_all
qed

lemma level_doTernary: "level n (doTernary n E)"
proof (induction n)
  case (Suc n)
  show ?case unfolding level_def
  proof (intro allI impI)
    fix st assume st: "tokens_left st < Suc n"
    show "fin (tokens_left st) (es_flags st) (doTernary (Suc n) E st)"
      unfolding doTernary.simps Let_def
      by (intro fin_level [OF level_doLogical [OF Suc.IH]] fin_if fin_read fin_level [OF Suc.IH] fin_Inr fin_Inl)
        (use st in \<open>auto split: if_splits\<close>)
  qed
qed (simp add: level_def)

text \<open> C30: The evaluator returns on every text: the fuel, one more than the number of characters and the
  lookahead, is never used up.\<close>

theorem expr_value_ends: "expr_value E expr flags \<noteq> Inl NoFuel"
proof -
  let ?st = "\<lparr>es_p = expr, es_nextToken = TOK_EOF, es_tokenValue = None, es_flags = flags\<rparr>"
  have "doTernary (expr_fuel expr) E st \<noteq> Inl NoFuel" if "rdToken E ?st = Inr st" for st
    using level_doTernary [of "expr_fuel expr" E] rdToken_props(1) [OF that]
    by (auto simp: level_def fin_def expr_fuel_def)
  then show ?thesis by (auto simp: expr_value_def rbind_eq_Inl split: if_splits)
qed

end
