(* ===== verification/Expression_Semantics.thy ===== *)
theory Expression_Semantics
  imports Expression
begin

text \<open>
  The meaning of the expression language: syntax trees, their text with the least number of
  parentheses, and two semantics. \<open>sem\<close> follows the evaluation order of the source with its discard
  mode, \<open>lazy\<close> never looks at a skipped operand. The evaluator of \<open>Expression\<close> on the text of a tree
  returns exactly \<open>sem\<close> of the tree, errors included, and on well-typed trees that is \<open>lazy\<close>.
\<close>

subsection \<open>Syntax trees and their text\<close>

datatype expr =
    ENum cstr | EStr cstr | EVer cstr
  | ENeg expr | ENot expr
  | EBin expr_token expr expr
  | ECond expr expr expr

fun tok_text :: "expr_token \<Rightarrow> cstr" where
  "tok_text TOK_ADD = ''+''" | "tok_text TOK_MINUS = ''-''" | "tok_text TOK_MULTIPLY = ''*''"
| "tok_text TOK_DIVIDE = ''/''" | "tok_text TOK_EQ = ''==''" | "tok_text TOK_NEQ = ''!=''"
| "tok_text TOK_LT = ''<''" | "tok_text TOK_LE = ''<=''" | "tok_text TOK_GT = ''>''"
| "tok_text TOK_GE = ''>=''" | "tok_text TOK_LOGICAL_AND = ''&&''" | "tok_text TOK_LOGICAL_OR = ''||''"
| "tok_text TOK_TERNARY_COND = ''?''" | "tok_text TOK_TERNARY_ALT = '':''" | "tok_text TOK_CLOSE_P = '')''"
| "tok_text _ = []"

text \<open>Binding strength of the tokens that may follow an operand: 4 for \<open>*\<close> and \<open>/\<close> down to 1 for the
  logical operators, which share a level, and 0 for what ends an expression.\<close>

fun tok_level :: "expr_token \<Rightarrow> nat" where
  "tok_level t = (if is_mulDiv t then 4 else if is_addSub t then 3 else if is_relational t then 2
     else if t = TOK_LOGICAL_AND \<or> t = TOK_LOGICAL_OR \<or> t = TOK_TERNARY_COND then 1 else 0)"

lemma tok_level_values [simp]:
  "tok_level TOK_EOF = 0" "tok_level TOK_INTEGER = 0" "tok_level TOK_STRING = 0" "tok_level TOK_ADD = 3"
  "tok_level TOK_MINUS = 3" "tok_level TOK_MULTIPLY = 4" "tok_level TOK_DIVIDE = 4" "tok_level TOK_OPEN_P = 0"
  "tok_level TOK_CLOSE_P = 0" "tok_level TOK_EQ = 2" "tok_level TOK_NEQ = 2" "tok_level TOK_LT = 2"
  "tok_level TOK_LE = 2" "tok_level TOK_GT = 2" "tok_level TOK_GE = 2" "tok_level TOK_NOT = 0"
  "tok_level TOK_LOGICAL_AND = 1" "tok_level TOK_LOGICAL_OR = 1" "tok_level TOK_TERNARY_COND = 1"
  "tok_level TOK_TERNARY_ALT = 0" "tok_level TOK_COMMA = 0" "tok_level TOK_FUNCTION = 0"
  by (simp_all add: is_mulDiv_def is_addSub_def is_relational_def)

lemma tok_level_le [simp]: "tok_level t \<le> 4" "tok_level t \<le> 5"
  by simp_all

declare tok_level.simps [simp del]

fun expr_level :: "expr \<Rightarrow> nat" where
  "expr_level (EBin op _ _) = tok_level op"
| "expr_level (ECond _ _ _) = 0"
| "expr_level _ = 5"

fun render :: "expr \<Rightarrow> cstr" and render_at :: "nat \<Rightarrow> expr \<Rightarrow> cstr" where
  "render (ENum ds) = ds"
| "render (EStr s) = CHR 0x22 # s @ [CHR 0x22]"
| "render (EVer s) = CHR ''v'' # CHR 0x22 # s @ [CHR 0x22]"
| "render (ENeg e) = ''-'' @ render_at 5 e"
| "render (ENot e) = ''!'' @ render_at 5 e"
| "render (EBin op a b) = render_at (tok_level op) a @ tok_text op @ render_at (Suc (tok_level op)) b"
| "render (ECond c a b) = render_at 1 c @ ''?'' @ render_at 0 a @ '':'' @ render_at 0 b"
| "render_at l e = (if expr_level e < l then ''('' @ render e @ '')'' else render e)"

fun wf_expr :: "expr \<Rightarrow> bool" where
  "wf_expr (ENum ds) \<longleftrightarrow> ds \<noteq> [] \<and> list_all risdigit ds"
| "wf_expr (EStr s) \<longleftrightarrow> CHR 0x22 \<notin> set s"
| "wf_expr (EVer s) \<longleftrightarrow> s \<noteq> [] \<and> CHR 0x22 \<notin> set s"
| "wf_expr (ENeg e) \<longleftrightarrow> wf_expr e"
| "wf_expr (ENot e) \<longleftrightarrow> wf_expr e"
| "wf_expr (EBin op a b) \<longleftrightarrow> tok_level op > 0 \<and> op \<noteq> TOK_TERNARY_COND \<and> wf_expr a \<and> wf_expr b"
| "wf_expr (ECond c a b) \<longleftrightarrow> wf_expr c \<and> wf_expr a \<and> wf_expr b"

subsection \<open>Semantics\<close>

definition combine :: "bool \<Rightarrow> expr_token \<Rightarrow> value_s \<Rightarrow> value_s \<Rightarrow> value_s expr_result" where
  "combine d op v1 v2 =
     (if is_mulDiv op then mulDiv (if d then RPMEXPR_DISCARD else 0) op v1 v2
      else if is_addSub op then addSub op v1 v2
      else relational op v1 v2)"

fun sem :: "bool \<Rightarrow> expr \<Rightarrow> value_s expr_result" where
  "sem d (ENum ds) = Inr (VInteger (if d then 0 else sint (atoi ds)))"
| "sem d (EStr s) = Inr (VString (if d then [] else s))"
| "sem d (EVer s) = Inr (VVersion (parseEVR (if d then ''0'' else s)))"
| "sem d (ENeg e) = rbind (sem d e) (\<lambda>v. case v of
     VInteger i \<Rightarrow> rbind (c_int (- i)) (\<lambda>i. Inr (VInteger i)) | _ \<Rightarrow> Inl MinusOnlyNumbers)"
| "sem d (ENot e) = rbind (sem d e) (\<lambda>v. Inr (VInteger (of_bool (\<not> boolifyValue v))))"
| "sem d (EBin op a b) = rbind (sem d a) (\<lambda>v1.
     if tok_level op = 1 then
       let short = (boolifyValue v1 = (op = TOK_LOGICAL_OR)) in
       rbind (sem (d \<or> short) b) (\<lambda>v2.
         if \<not> valueSameType v1 v2 then Inl TypesMustMatch else Inr (if short then v1 else v2))
     else rbind (sem d b) (\<lambda>v2. combine d op v1 v2))"
| "sem d (ECond c a b) = rbind (sem d c) (\<lambda>v.
     let cond = boolifyValue v in
     rbind (sem (d \<or> \<not> cond) a) (\<lambda>v1.
     rbind (sem (d \<or> cond) b) (\<lambda>v2.
       if \<not> valueSameType v1 v2 then Inl TypesMustMatch else Inr (if cond then v1 else v2))))"

subsection \<open>Lexing the text\<close>

abbreviation ahead :: "expr_token \<Rightarrow> cstr \<Rightarrow> u32 \<Rightarrow> parseState" where
  "ahead t r f \<equiv> \<lparr>es_p = r, es_nextToken = t, es_tokenValue = None, es_flags = f\<rparr>"

definition start :: "expr_env \<Rightarrow> u32 \<Rightarrow> cstr \<Rightarrow> parseState expr_result" where
  "start E f p = rdToken E (ahead TOK_EOF p f)"

lemma set_token_flags: "set_token st t v p = \<lparr>es_p = p, es_nextToken = t, es_tokenValue = v, es_flags = es_flags st\<rparr>"
  by (simp add: set_token_def)

lemma rdToken_start: "rdToken E st = start E (es_flags st) (es_p st)"
proof -
  let ?st = "ahead TOK_EOF (es_p st) (es_flags st)"
  have set: "set_token st = set_token ?st" by (intro ext) (simp add: set_token_flags)
  have buf: "getValuebuf E st = getValuebuf E ?st" by (intro ext) (simp add: getValuebuf_def)
  have int: "rd_integer E st = rd_integer E ?st" unfolding rd_integer_def set buf parseState.select_convs ..
  have str: "rd_string E st = rd_string E ?st" unfolding rd_string_def set buf parseState.select_convs ..
  show ?thesis unfolding start_def rdToken_def int str set parseState.select_convs ..
qed

lemma discard_flags [simp]:
  "has (f OR RPMEXPR_DISCARD) RPMEXPR_DISCARD" "has (f OR RPMEXPR_DISCARD) RPMEXPR_EXPAND = has f RPMEXPR_EXPAND"
  by (simp_all add: has_def word_ao_absorbs word_ao_dist)

lemma char_class_facts [simp]:
  "risspace CHR ''+'' = False" "risspace CHR ''-'' = False" "risspace CHR ''*'' = False" "risspace CHR ''/'' = False"
  "risspace CHR ''('' = False" "risspace CHR '')'' = False" "risspace CHR ''='' = False" "risspace CHR ''!'' = False"
  "risspace CHR ''<'' = False" "risspace CHR ''>'' = False" "risspace CHR ''&'' = False" "risspace CHR ''|'' = False"
  "risspace CHR ''?'' = False" "risspace CHR '':'' = False" "risspace CHR 0x22 = False" "risspace CHR ''v'' = False"
  "risdigit CHR 0x22 = False" "risdigit CHR ''v'' = False"
  by (simp_all add: char_class char_code)

text \<open>The texts that may follow an operand: an operator or the end of an expression.\<close>

definition follows :: "expr_token \<Rightarrow> cstr \<Rightarrow> cstr \<Rightarrow> bool" where
  "follows t r r' \<longleftrightarrow> r = tok_text t @ r' \<and> (tok_text t = [] \<longrightarrow> t = TOK_EOF \<and> r' = []) \<and>
     (t \<in> {TOK_LT, TOK_GT} \<longrightarrow> \<not> starts_with (CHR ''='') r')"

lemma follows_start: "follows t r r' \<Longrightarrow> start E f r = Inr (ahead t r' f)"
  by (cases t) (simp_all add: follows_def start_def rdToken_def set_token_flags)

lemma follows_no_literal:
  "follows t r r' \<Longrightarrow> r = [] \<or> \<not> risdigit (hd r)"
  by (cases t) (auto simp: follows_def char_class char_code)

lemma scan_digits:
  assumes "list_all risdigit ds" "r = [] \<or> \<not> risdigit (hd r)"
  shows "scan_literal (\<lambda>c. \<not> risdigit c) False (ds @ r) = Some r"
  using assms by (induction ds) (cases r; simp add: scan_literal_rules)+

lemma scan_quoted:
  "CHR 0x22 \<notin> set s \<Longrightarrow> scan_literal (\<lambda>c. c = CHR 0x22) False (s @ CHR 0x22 # r) = Some (CHR 0x22 # r)"
  by (induction s) (auto simp: scan_literal_rules)

lemma digit_neq:
  assumes "risdigit c"
  shows "c \<noteq> CHR ''+''" "c \<noteq> CHR ''-''" "c \<noteq> CHR ''*''" "c \<noteq> CHR ''/''" "c \<noteq> CHR ''(''" "c \<noteq> CHR '')''"
    "c \<noteq> CHR ''=''" "c \<noteq> CHR ''!''" "c \<noteq> CHR ''<''" "c \<noteq> CHR ''>''" "c \<noteq> CHR ''&''" "c \<noteq> CHR ''|''"
    "c \<noteq> CHR ''?''" "c \<noteq> CHR '':''" "c \<noteq> CHR '',''" "\<not> risspace c"
  using assms by (auto simp: char_class char_code)

lemma start_digits:
  assumes "ds \<noteq> []" "list_all risdigit ds" "r = [] \<or> \<not> risdigit (hd r)" "\<not> has f RPMEXPR_EXPAND"
  shows "start E f (ds @ r) = Inr \<lparr>es_p = r, es_nextToken = TOK_INTEGER,
     es_tokenValue = Some (VInteger (if has f RPMEXPR_DISCARD then 0 else sint (atoi ds))), es_flags = f\<rparr>"
proof -
  obtain c s where ds: "ds = c # s" using assms(1) by (cases ds) auto
  have atoi0: "sint (atoi []) = 0" by (simp add: atoi_def atol_def dec_value_def LONG_MAX_def LONG_MIN_def)
  have "start E f (ds @ r) = rd_integer E (ahead TOK_EOF (ds @ r) f) (ds @ r)"
    using assms(2) digit_neq [of c] unfolding ds by (simp add: start_def rdToken_def)
  then show ?thesis
    using assms scan_digits [OF assms(2,3)] atoi0
    by (simp add: rd_integer_def getValuebuf_def set_token_flags)
qed

lemma start_string:
  assumes "CHR 0x22 \<notin> set s" "\<not> has f RPMEXPR_EXPAND"
  shows "start E f (CHR 0x22 # s @ CHR 0x22 # r) = Inr \<lparr>es_p = r, es_nextToken = TOK_STRING,
     es_tokenValue = Some (VString (if has f RPMEXPR_DISCARD then [] else s)), es_flags = f\<rparr>"
  using assms scan_quoted [OF assms(1), of r]
  by (simp add: start_def rdToken_def rd_string_def getValuebuf_def set_token_flags)

lemma start_version:
  assumes "s \<noteq> []" "CHR 0x22 \<notin> set s" "\<not> has f RPMEXPR_EXPAND"
  shows "start E f (CHR ''v'' # CHR 0x22 # s @ CHR 0x22 # r) = Inr \<lparr>es_p = r, es_nextToken = TOK_STRING,
     es_tokenValue = Some (VVersion (parseEVR (if has f RPMEXPR_DISCARD then ''0'' else s))), es_flags = f\<rparr>"
  using assms scan_quoted [OF assms(2), of r]
  by (simp add: start_def rdToken_def rd_string_def getValuebuf_def set_token_flags valueMakeVersion_def
      rpmverParse_def)

lemma start_prefix:
  "start E f (CHR ''('' # p) = Inr (ahead TOK_OPEN_P p f)"
  "start E f (CHR ''-'' # p) = Inr (ahead TOK_MINUS p f)"
  "\<not> starts_with (CHR ''='') p \<Longrightarrow> start E f (CHR ''!'' # p) = Inr (ahead TOK_NOT p f)"
  by (simp_all add: start_def rdToken_def set_token_flags)

lemma render_starts:
  "wf_expr e \<Longrightarrow> render e \<noteq> [] \<and> hd (render e) \<noteq> CHR ''=''"
proof (induction e)
  case (ENum ds)
  then show ?case using digit_neq by (cases ds) auto
qed auto

lemma render_at_starts: "wf_expr e \<Longrightarrow> \<not> starts_with (CHR ''='') (render_at l e @ r)"
  using render_starts [of e] by (cases "render e") auto

subsection \<open>The evaluator implements the semantics\<close>

text \<open>Results ordered by fuel: out of fuel is below everything.\<close>

definition approx :: "'a expr_result \<Rightarrow> 'a expr_result \<Rightarrow> bool" where
  "approx x y \<longleftrightarrow> x = Inl NoFuel \<or> x = y"

lemma approx_refl [simp]: "approx x x" and approx_NoFuel [simp]: "approx (Inl NoFuel) x"
  by (simp_all add: approx_def)

lemma approx_trans [trans]: "approx x y \<Longrightarrow> approx y z \<Longrightarrow> approx x z"
  by (auto simp: approx_def)

lemma approx_bind:
  assumes "approx x y" "\<And>v. approx (f v) (g v)"
  shows "approx (rbind x f) (rbind y g)"
proof (cases "x = Inl NoFuel")
  case False
  then have "y = x" using assms(1) by (simp add: approx_def)
  with assms(2) show ?thesis by (cases x) simp_all
qed simp

lemma approx_bind_pair:
  "approx x y \<Longrightarrow> (\<And>v st. approx (f v st) (g v st)) \<Longrightarrow>
   approx (rbind x (\<lambda>(v, st). f v st)) (rbind y (\<lambda>(v, st). g v st))"
  by (rule approx_bind) auto

lemma rbind_pair_assoc:
  "rbind (rbind x (\<lambda>(v, st). f v st)) g = rbind x (\<lambda>(v, st). rbind (f v st) g)"
  by (cases x) auto

lemma operator_loop_approx:
  "m \<le> m' \<Longrightarrow> approx (operator_loop m E isop c sub v st) (operator_loop m' E isop c sub v st)"
proof (induction m arbitrary: m' v st)
  case (Suc m)
  then obtain k where "m' = Suc k" "m \<le> k" by (cases m') auto
  with Suc.IH show ?case by (auto simp: Let_def intro!: approx_bind)
qed simp

lemma doLogical_loop_approx:
  "m \<le> m' \<Longrightarrow> approx (doLogical_loop m E rel f v st) (doLogical_loop m' E rel f v st)"
proof (induction m arbitrary: m' v st)
  case (Suc m)
  then obtain k where "m' = Suc k" "m \<le> k" by (cases m') auto
  with Suc.IH show ?case by (auto simp: Let_def intro!: approx_bind)
qed simp

text \<open>The levels by number and the loops they run after the first operand.\<close>

definition parse_at :: "nat \<Rightarrow> expr_env \<Rightarrow> expr_parser \<Rightarrow> nat \<Rightarrow> expr_parser" where
  "parse_at n E tern l = (if l = 1 then doLogical n E tern else if l = 2 then doRelational n E tern
     else if l = 3 then doAddSubtract n E tern else if l = 4 then doMultiplyDivide n E tern
     else doPrimary n E tern)"

definition loop_at :: "nat \<Rightarrow> nat \<Rightarrow> expr_env \<Rightarrow> expr_parser \<Rightarrow> u32 \<Rightarrow> nat \<Rightarrow> value_s \<Rightarrow> expr_parser" where
  "loop_at n m E tern f l =
     (if l = 1 then doLogical_loop m E (doRelational n E tern) f
      else if l = 2 then operator_loop m E is_relational (\<lambda>_. relational) (doAddSubtract n E tern)
      else if l = 3 then operator_loop m E is_addSub (\<lambda>_. addSub) (doMultiplyDivide n E tern)
      else operator_loop m E is_mulDiv mulDiv (doPrimary n E tern))"

primrec conts :: "nat \<Rightarrow> nat \<Rightarrow> expr_env \<Rightarrow> expr_parser \<Rightarrow> u32 \<Rightarrow> nat \<Rightarrow> value_s \<Rightarrow> expr_parser" where
  "conts n m E tern f 0 v st = Inr (v, st)"
| "conts n m E tern f (Suc j) v st =
     rbind (conts n m E tern f j v st) (\<lambda>(v, st). loop_at n m E tern f (4 - j) v st)"

lemma loop_at_approx: "m \<le> m' \<Longrightarrow> approx (loop_at n m E tern f l v st) (loop_at n m' E tern f l v st)"
  by (simp add: loop_at_def operator_loop_approx doLogical_loop_approx)

lemma conts_approx: "m \<le> m' \<Longrightarrow> approx (conts n m E tern f j v st) (conts n m' E tern f j v st)"
  by (induction j) (auto intro!: approx_bind_pair loop_at_approx)

lemma loop_at_skip:
  assumes "tok_level (es_nextToken st) < l" "1 \<le> l" "l \<le> 4"
  shows "loop_at n (Suc m) E tern f l v st = Inr (v, st)"
proof -
  have "l = 1 \<or> l = 2 \<or> l = 3 \<or> l = 4" using assms by auto
  then show ?thesis using assms(1) by (auto simp: loop_at_def Let_def tok_level.simps split: if_splits)
qed

lemma conts_skip:
  "tok_level (es_nextToken st) + j < 5 \<Longrightarrow> conts n (Suc m) E tern f j v st = Inr (v, st)"
  by (induction j) (simp_all add: loop_at_skip)

lemma parse_at_step:
  assumes "j < 4" "es_flags st = f"
  shows "parse_at n E tern (4 - j) st =
     rbind (parse_at n E tern (5 - j) st) (\<lambda>(v, st). loop_at n n E tern f (4 - j) v st)"
proof -
  have "j = 0 \<or> j = 1 \<or> j = 2 \<or> j = 3" using assms by auto
  then show ?thesis
    by (elim disjE) (simp_all add: parse_at_def loop_at_def assms(2) doLogical_def doRelational_def
        doAddSubtract_def doMultiplyDivide_def)
qed

lemma parse_at_conts:
  assumes "j \<le> 4" "es_flags st = f"
  shows "parse_at n E tern (5 - j) st = rbind (doPrimary n E tern st) (\<lambda>(v, st). conts n n E tern f j v st)"
  using assms(1)
proof (induction j)
  case 0
  show ?case by (cases "doPrimary n E tern st") (auto simp: parse_at_def)
next
  case (Suc j)
  then show ?case using parse_at_step [OF _ assms(2), of j] by (simp add: rbind_pair_assoc)
qed

lemma conts_no_fuel: "conts n 0 E tern f (Suc j) v st = Inl NoFuel"
  by (induction j) (simp_all add: loop_at_def)

lemma conts_op:
  assumes k: "1 \<le> k" "k \<le> 4" "tok_level (es_nextToken st1) = k" "tok_level (es_nextToken st2) \<le> k"
    and step: "approx (rbind s (\<lambda>v. loop_at n m E tern f k v st2)) (loop_at n (Suc m) E tern f k v1 st1)"
    and j: "5 - k \<le> j" "j \<le> 4"
  shows "approx (rbind s (\<lambda>v. conts n m E tern f j v st2)) (conts n (Suc m) E tern f j v1 st1)"
  using j
proof (induction j rule: nat_induct_at_least)
  case base
  have eq: "5 - k = Suc (4 - k)" "4 - (4 - k) = k" using k by auto
  have "approx (conts n m E tern f (5 - k) v st2) (loop_at n m E tern f k v st2)" for v
  proof (cases m)
    case 0
    then show ?thesis by (simp add: eq conts_no_fuel del: conts.simps)
  next
    case (Suc m0)
    then show ?thesis using k conts_skip [of st2 "4 - k"] by (simp add: eq)
  qed
  then have "approx (rbind s (\<lambda>v. conts n m E tern f (5 - k) v st2)) (rbind s (\<lambda>v. loop_at n m E tern f k v st2))"
    by (intro approx_bind) simp_all
  also note step
  also have "loop_at n (Suc m) E tern f k v1 st1 = conts n (Suc m) E tern f (5 - k) v1 st1"
    using k conts_skip [of st1 "4 - k"] by (simp add: eq)
  finally show ?case .
next
  case (Suc j)
  have "approx (rbind (rbind s (\<lambda>v. conts n m E tern f j v st2)) (\<lambda>(v, st). loop_at n m E tern f (4 - j) v st))
      (conts n (Suc m) E tern f (Suc j) v1 st1)"
    using Suc by (auto intro!: approx_bind_pair loop_at_approx)
  then show ?case by (simp add: rbind_assoc)
qed

primrec wt :: "expr \<Rightarrow> nat" where
  "wt (ENum _) = 1" | "wt (EStr _) = 1" | "wt (EVer _) = 1" | "wt (ENeg e) = Suc (wt e)" | "wt (ENot e) = Suc (wt e)"
| "wt (EBin _ a b) = Suc (wt a + wt b)" | "wt (ECond c a b) = Suc (wt c + wt a + wt b)"

text \<open>What the levels do on the text of a tree: without parentheses around it, at the top, and with
  parentheses where the level asks for them.\<close>

definition impl_raw :: "expr_env \<Rightarrow> expr \<Rightarrow> bool" where
  "impl_raw E e \<longleftrightarrow> (\<forall>l f t r r' n m m'. 1 \<le> l \<longrightarrow> l \<le> expr_level e \<longrightarrow> follows t r r' \<longrightarrow> tok_level t \<le> l \<longrightarrow>
     \<not> has f RPMEXPR_EXPAND \<longrightarrow> wt e \<le> m \<longrightarrow> m' + wt e \<le> n \<longrightarrow>
     approx (rbind (sem (has f RPMEXPR_DISCARD) e) (\<lambda>v. conts n m' E (doTernary m E) f (5 - l) v (ahead t r' f)))
       (rbind (start E f (render e @ r)) (parse_at n E (doTernary m E) l)))"

definition impl_top :: "expr_env \<Rightarrow> expr \<Rightarrow> bool" where
  "impl_top E e \<longleftrightarrow> (\<forall>f t r r' m. follows t r r' \<longrightarrow> tok_level t = 0 \<longrightarrow> \<not> has f RPMEXPR_EXPAND \<longrightarrow> wt e < m \<longrightarrow>
     approx (rbind (sem (has f RPMEXPR_DISCARD) e) (\<lambda>v. Inr (v, ahead t r' f)))
       (rbind (start E f (render e @ r)) (doTernary m E)))"

definition impl_at :: "expr_env \<Rightarrow> expr \<Rightarrow> bool" where
  "impl_at E e \<longleftrightarrow> (\<forall>l f t r r' n m m'. 1 \<le> l \<longrightarrow> l \<le> 5 \<longrightarrow> follows t r r' \<longrightarrow> tok_level t \<le> l \<longrightarrow>
     \<not> has f RPMEXPR_EXPAND \<longrightarrow> wt e < m \<longrightarrow> m' + wt e \<le> n \<longrightarrow>
     approx (rbind (sem (has f RPMEXPR_DISCARD) e) (\<lambda>v. conts n m' E (doTernary m E) f (5 - l) v (ahead t r' f)))
       (rbind (start E f (render_at l e @ r)) (parse_at n E (doTernary m E) l)))"

lemma impl_rawD:
  "impl_raw E e \<Longrightarrow> 1 \<le> l \<Longrightarrow> l \<le> expr_level e \<Longrightarrow> follows t r r' \<Longrightarrow> tok_level t \<le> l \<Longrightarrow>
     \<not> has f RPMEXPR_EXPAND \<Longrightarrow> wt e \<le> m \<Longrightarrow> m' + wt e \<le> n \<Longrightarrow>
     approx (rbind (sem (has f RPMEXPR_DISCARD) e) (\<lambda>v. conts n m' E (doTernary m E) f (5 - l) v (ahead t r' f)))
       (rbind (start E f (render e @ r)) (parse_at n E (doTernary m E) l))"
  unfolding impl_raw_def by blast

lemma impl_topD:
  "impl_top E e \<Longrightarrow> follows t r r' \<Longrightarrow> tok_level t = 0 \<Longrightarrow> \<not> has f RPMEXPR_EXPAND \<Longrightarrow> wt e < m \<Longrightarrow>
     approx (rbind (sem (has f RPMEXPR_DISCARD) e) (\<lambda>v. Inr (v, ahead t r' f)))
       (rbind (start E f (render e @ r)) (doTernary m E))"
  unfolding impl_top_def by blast

lemma impl_atD:
  "impl_at E e \<Longrightarrow> 1 \<le> l \<Longrightarrow> l \<le> 5 \<Longrightarrow> follows t r r' \<Longrightarrow> tok_level t \<le> l \<Longrightarrow>
     \<not> has f RPMEXPR_EXPAND \<Longrightarrow> wt e < m \<Longrightarrow> m' + wt e \<le> n \<Longrightarrow>
     approx (rbind (sem (has f RPMEXPR_DISCARD) e) (\<lambda>v. conts n m' E (doTernary m E) f (5 - l) v (ahead t r' f)))
       (rbind (start E f (render_at l e @ r)) (parse_at n E (doTernary m E) l))"
  unfolding impl_at_def by blast

lemma start_flags: "start E f p = Inr st \<Longrightarrow> es_flags st = f"
  unfolding start_def by (drule rdToken_props(2)) simp

text \<open>From a statement about \<open>doPrimary\<close> to one about every level.\<close>

lemma approx_parse_at:
  assumes "approx (rbind x (\<lambda>v. Inr (v, st))) (rbind (start E f p) (doPrimary n E tern))" "1 \<le> l" "l \<le> 5" "m' \<le> n"
  shows "approx (rbind x (\<lambda>v. conts n m' E tern f (5 - l) v st)) (rbind (start E f p) (parse_at n E tern l))"
proof -
  have "approx (rbind x (\<lambda>v. conts n m' E tern f (5 - l) v st))
      (rbind (rbind (start E f p) (doPrimary n E tern)) (\<lambda>(v, st). conts n n E tern f (5 - l) v st))"
    using approx_bind_pair [OF assms(1), of "conts n m' E tern f (5 - l)" "conts n n E tern f (5 - l)"]
      conts_approx [OF assms(4)] by (simp add: rbind_assoc)
  also have "rbind (rbind (start E f p) (doPrimary n E tern)) (\<lambda>(v, st). conts n n E tern f (5 - l) v st) =
      rbind (start E f p) (parse_at n E tern l)"
  proof (cases "start E f p")
    case (Inr st)
    then show ?thesis using parse_at_conts [of "5 - l" st f n E tern] start_flags [OF Inr] assms(2,3) by simp
  qed simp
  finally show ?thesis .
qed

text \<open>A tree whose text \<open>doPrimary\<close> reads in one go.\<close>

lemma impl_raw_primary:
  assumes "\<And>f t r r' n m. follows t r r' \<Longrightarrow> \<not> has f RPMEXPR_EXPAND \<Longrightarrow> wt e \<le> m \<Longrightarrow> wt e \<le> n \<Longrightarrow>
     approx (rbind (sem (has f RPMEXPR_DISCARD) e) (\<lambda>v. Inr (v, ahead t r' f)))
       (rbind (start E f (render e @ r)) (doPrimary n E (doTernary m E)))"
    and "expr_level e \<le> 5"
  shows "impl_raw E e"
  unfolding impl_raw_def using assms(2) by (auto intro!: approx_parse_at assms(1))

lemma doPrimary_literal:
  assumes "follows t r r'" "0 < n" "k = TOK_INTEGER \<or> k = TOK_STRING"
  shows "doPrimary n E tern \<lparr>es_p = r, es_nextToken = k, es_tokenValue = Some v, es_flags = f\<rparr> =
     Inr (v, ahead t r' f)"
  using assms follows_start [OF assms(1)] by (cases n) (auto simp: rdToken_start)

lemma impl_raw_literal:
  assumes "wf_expr e" "e = ENum ds \<or> e = EStr ds \<or> e = EVer ds"
  shows "impl_raw E e"
proof (rule impl_raw_primary)
  fix f t r r' n m
  assume a: "follows t r r'" "\<not> has f RPMEXPR_EXPAND" "wt e \<le> m" "wt e \<le> n"
  then have "0 < n" using assms(2) by auto
  note prim = doPrimary_literal [OF a(1) this]
  show "approx (rbind (sem (has f RPMEXPR_DISCARD) e) (\<lambda>v. Inr (v, ahead t r' f)))
       (rbind (start E f (render e @ r)) (doPrimary n E (doTernary m E)))"
    using assms prim a(2) start_digits [OF _ _ follows_no_literal [OF a(1)]] by (auto simp: start_string start_version)
qed (use assms(2) in auto)

lemma impl_raw_neg:
  assumes "impl_at E e"
  shows "impl_raw E (ENeg e)"
proof (rule impl_raw_primary)
  fix f t r r' n m
  assume a: "follows t r r'" "\<not> has f RPMEXPR_EXPAND" "wt (ENeg e) \<le> m" "wt (ENeg e) \<le> n"
  then obtain n0 where n: "n = Suc n0" by (cases n) auto
  let ?k = "\<lambda>(v, st). case v of
      VInteger i \<Rightarrow> rbind (c_int (- i)) (\<lambda>i. Inr (VInteger i, st)) | _ \<Rightarrow> Inl MinusOnlyNumbers"
  have "approx (rbind (sem (has f RPMEXPR_DISCARD) e) (\<lambda>v. Inr (v, ahead t r' f)))
      (rbind (start E f (render_at 5 e @ r)) (doPrimary n0 E (doTernary m E)))"
    using impl_atD [OF assms, of 5 t r r' f m 0 n0] a n
    by (simp add: parse_at_def split: if_splits)
  then have "approx (rbind (rbind (sem (has f RPMEXPR_DISCARD) e) (\<lambda>v. Inr (v, ahead t r' f))) ?k)
      (rbind (rbind (start E f (render_at 5 e @ r)) (doPrimary n0 E (doTernary m E))) ?k)"
    by (intro approx_bind) simp_all
  also have "rbind (rbind (start E f (render_at 5 e @ r)) (doPrimary n0 E (doTernary m E))) ?k =
      rbind (start E f (render (ENeg e) @ r)) (doPrimary n E (doTernary m E))"
    by (simp add: start_prefix n rdToken_start rbind_assoc del: render_at.simps)
  also have "rbind (rbind (sem (has f RPMEXPR_DISCARD) e) (\<lambda>v. Inr (v, ahead t r' f))) ?k =
      rbind (sem (has f RPMEXPR_DISCARD) (ENeg e)) (\<lambda>v. Inr (v, ahead t r' f))"
    by (auto simp: rbind_def split: sum.splits value_s.splits)
  finally show "approx (rbind (sem (has f RPMEXPR_DISCARD) (ENeg e)) (\<lambda>v. Inr (v, ahead t r' f)))
      (rbind (start E f (render (ENeg e) @ r)) (doPrimary n E (doTernary m E)))" .
qed simp

lemma impl_raw_not:
  assumes "impl_at E e" "wf_expr e"
  shows "impl_raw E (ENot e)"
proof (rule impl_raw_primary)
  fix f t r r' n m
  assume a: "follows t r r'" "\<not> has f RPMEXPR_EXPAND" "wt (ENot e) \<le> m" "wt (ENot e) \<le> n"
  then obtain n0 where n: "n = Suc n0" by (cases n) auto
  let ?k = "\<lambda>(v, st). Inr (VInteger (of_bool (\<not> boolifyValue v)), st)"
  have "approx (rbind (sem (has f RPMEXPR_DISCARD) e) (\<lambda>v. Inr (v, ahead t r' f)))
      (rbind (start E f (render_at 5 e @ r)) (doPrimary n0 E (doTernary m E)))"
    using impl_atD [OF assms(1), of 5 t r r' f m 0 n0] a n
    by (simp add: parse_at_def split: if_splits)
  then have "approx (rbind (rbind (sem (has f RPMEXPR_DISCARD) e) (\<lambda>v. Inr (v, ahead t r' f))) ?k)
      (rbind (rbind (start E f (render_at 5 e @ r)) (doPrimary n0 E (doTernary m E))) ?k)"
    by (intro approx_bind) simp_all
  also have "rbind (rbind (start E f (render_at 5 e @ r)) (doPrimary n0 E (doTernary m E))) ?k =
      rbind (start E f (render (ENot e) @ r)) (doPrimary n E (doTernary m E))"
    using render_at_starts [OF assms(2), of 5 r]
    by (simp add: start_prefix n rdToken_start rbind_assoc del: render_at.simps)
  also have "rbind (rbind (sem (has f RPMEXPR_DISCARD) e) (\<lambda>v. Inr (v, ahead t r' f))) ?k =
      rbind (sem (has f RPMEXPR_DISCARD) (ENot e)) (\<lambda>v. Inr (v, ahead t r' f))"
    by (simp add: rbind_assoc)
  finally show "approx (rbind (sem (has f RPMEXPR_DISCARD) (ENot e)) (\<lambda>v. Inr (v, ahead t r' f)))
      (rbind (start E f (render (ENot e) @ r)) (doPrimary n E (doTernary m E)))" .
qed simp

text \<open>From the top level to parenthesised operands, and from the first binary level to the top.\<close>

lemma impl_atI:
  assumes raw: "impl_raw E e" and top: "impl_top E e"
  shows "impl_at E e"
  unfolding impl_at_def
proof (intro allI impI)
  fix l f t r r' n m m'
  assume a: "1 \<le> l" "l \<le> (5 :: nat)" "follows t r r'" "tok_level t \<le> l" "\<not> has f RPMEXPR_EXPAND"
    "wt e < m" "m' + wt e \<le> n"
  show "approx (rbind (sem (has f RPMEXPR_DISCARD) e) (\<lambda>v. conts n m' E (doTernary m E) f (5 - l) v (ahead t r' f)))
     (rbind (start E f (render_at l e @ r)) (parse_at n E (doTernary m E) l))"
  proof (cases "expr_level e < l")
    case False
    then show ?thesis using impl_rawD [OF raw a(1) _ a(3,4,5) _ a(7)] a(6) by simp
  next
    case True
    have "0 < wt e" by (cases e) auto
    with a(7) obtain n0 where n: "n = Suc n0" by (cases n) auto
    let ?k = "\<lambda>(v, st). if es_nextToken st \<noteq> TOK_CLOSE_P then Inl UnmatchedParen
        else rbind (rdToken E st) (\<lambda>st. Inr (v, st))"
    have cl: "follows TOK_CLOSE_P (CHR '')'' # r) r" "tok_level TOK_CLOSE_P = 0"
      by (simp_all add: follows_def)
    have "approx (rbind (rbind (sem (has f RPMEXPR_DISCARD) e) (\<lambda>v. Inr (v, ahead TOK_CLOSE_P r f))) ?k)
        (rbind (rbind (start E f (render e @ CHR '')'' # r)) (doTernary m E)) ?k)"
      using impl_topD [OF top cl a(5,6)] by (intro approx_bind) simp_all
    also have "rbind (rbind (sem (has f RPMEXPR_DISCARD) e) (\<lambda>v. Inr (v, ahead TOK_CLOSE_P r f))) ?k =
        rbind (sem (has f RPMEXPR_DISCARD) e) (\<lambda>v. Inr (v, ahead t r' f))"
      by (simp add: rbind_assoc rdToken_start follows_start [OF a(3)])
    also have "rbind (rbind (start E f (render e @ CHR '')'' # r)) (doTernary m E)) ?k =
        rbind (start E f (render_at l e @ r)) (doPrimary n E (doTernary m E))"
      using True by (simp add: start_prefix n rdToken_start rbind_assoc)
    finally show ?thesis by (rule approx_parse_at) (use a in auto)
  qed
qed

definition ternary_rest :: "nat \<Rightarrow> expr_env \<Rightarrow> u32 \<Rightarrow> value_s \<times> parseState \<Rightarrow> (value_s \<times> parseState) expr_result" where
  "ternary_rest m E f = (\<lambda>(v, st).
     if es_nextToken st = TOK_TERNARY_COND then
       rbind (start E (if boolifyValue v then es_flags st else es_flags st OR RPMEXPR_DISCARD) (es_p st)) (\<lambda>st.
       rbind (doTernary m E st) (\<lambda>(v1, st).
         if es_nextToken st \<noteq> TOK_TERNARY_ALT then Inl SyntaxError
         else
           rbind (start E (if boolifyValue v then f OR RPMEXPR_DISCARD else f) (es_p st)) (\<lambda>st.
           rbind (doTernary m E st) (\<lambda>(v2, st).
             if \<not> valueSameType v1 v2 then Inl TypesMustMatch
             else Inr (if boolifyValue v then v1 else v2, st\<lparr>es_flags := f\<rparr>)))))
     else Inr (v, st))"

lemma doTernary_rest:
  "rbind (start E f p) (doTernary (Suc m) E) =
   rbind (rbind (start E f p) (doLogical (Suc m) E (doTernary m E))) (ternary_rest m E f)"
proof (cases "start E f p")
  case (Inr st)
  have eq: "doTernary (Suc m) E st = rbind (doLogical (Suc m) E (doTernary m E) st) (ternary_rest m E (es_flags st))"
    by (auto simp: ternary_rest_def Let_def rdToken_start intro!: arg_cong [where f = "rbind _"] ext)
  from Inr eq start_flags [OF Inr] show ?thesis by (simp del: doTernary.simps)
qed simp

lemma impl_topI:
  assumes raw: "impl_raw E e" and "1 \<le> expr_level e"
  shows "impl_top E e"
  unfolding impl_top_def
proof (intro allI impI)
  fix f t r r' m
  assume a: "follows t r r'" "tok_level t = 0" "\<not> has f RPMEXPR_EXPAND" "wt e < m"
  then obtain m0 where m: "m = Suc m0" by (cases m) auto
  have cond: "t \<noteq> TOK_TERNARY_COND" using a(2) by auto
  have c: "conts m 1 E (doTernary m0 E) f 4 v (ahead t r' f) = Inr (v, ahead t r' f)" for v
    using conts_skip [of "ahead t r' f" 4 m 0] a(2) by (simp del: conts.simps)
  have "approx (rbind (sem (has f RPMEXPR_DISCARD) e) (\<lambda>v. Inr (v, ahead t r' f)))
      (rbind (start E f (render e @ r)) (doLogical m E (doTernary m0 E)))"
    using impl_rawD [OF raw, of 1 t r r' f m0 1 m] a m assms(2) c
    by (simp add: parse_at_def del: conts.simps)
  then have "approx (rbind (rbind (sem (has f RPMEXPR_DISCARD) e) (\<lambda>v. Inr (v, ahead t r' f))) (ternary_rest m0 E f))
      (rbind (start E f (render e @ r)) (doTernary m E))"
    unfolding m doTernary_rest by (intro approx_bind) simp_all
  then show "approx (rbind (sem (has f RPMEXPR_DISCARD) e) (\<lambda>v. Inr (v, ahead t r' f)))
      (rbind (start E f (render e @ r)) (doTernary m E))"
    using cond by (simp add: rbind_assoc ternary_rest_def del: doTernary.simps)
qed

lemma approx_lower:
  assumes "approx (rbind x (\<lambda>v. conts n m' E tern f j0 v st)) (rbind (start E f p) (parse_at n E tern (5 - j0)))"
    and "j0 \<le> j" "j \<le> 4" "m' \<le> n"
  shows "approx (rbind x (\<lambda>v. conts n m' E tern f j v st)) (rbind (start E f p) (parse_at n E tern (5 - j)))"
  using assms(2,3)
proof (induction j rule: nat_induct_at_least)
  case (Suc j)
  have "approx (rbind (rbind x (\<lambda>v. conts n m' E tern f j v st)) (\<lambda>(v, st). loop_at n m' E tern f (4 - j) v st))
      (rbind (rbind (start E f p) (parse_at n E tern (5 - j))) (\<lambda>(v, st). loop_at n n E tern f (4 - j) v st))"
    using Suc assms(4) by (intro approx_bind_pair loop_at_approx) simp_all
  also have "rbind (rbind (start E f p) (parse_at n E tern (5 - j))) (\<lambda>(v, st). loop_at n n E tern f (4 - j) v st) =
      rbind (start E f p) (parse_at n E tern (5 - Suc j))"
    using parse_at_step [of j _ f n E tern] start_flags [of E f p] Suc.prems
    by (cases "start E f p") simp_all
  finally show ?case by (simp add: rbind_assoc)
qed (rule assms(1))

text \<open>What follows the left operand of a binary operator.\<close>

definition bin_rest :: "bool \<Rightarrow> expr_token \<Rightarrow> expr \<Rightarrow> value_s \<Rightarrow> value_s expr_result" where
  "bin_rest d op b v1 =
     (if tok_level op = 1 then
        let short = (boolifyValue v1 = (op = TOK_LOGICAL_OR)) in
        rbind (sem (d \<or> short) b) (\<lambda>v2.
          if \<not> valueSameType v1 v2 then Inl TypesMustMatch else Inr (if short then v1 else v2))
      else rbind (sem d b) (\<lambda>v2. combine d op v1 v2))"

lemma sem_bin: "sem d (EBin op a b) = rbind (sem d a) (bin_rest d op b)"
  by (simp add: bin_rest_def [abs_def])

lemma mulDiv_flags:
  "mulDiv f op v1 v2 = mulDiv (if has f RPMEXPR_DISCARD then RPMEXPR_DISCARD else 0) op v1 v2"
  by (cases v1; cases v2) (simp_all add: mulDiv_def has_def)

lemma loop_at_combine:
  assumes "2 \<le> k" "k \<le> 4" "tok_level op = k"
  shows "loop_at n (Suc m) E tern f k v1 (ahead op X f) =
     rbind (rbind (start E f X) (parse_at n E tern (Suc k))) (\<lambda>(v2, st).
       rbind (combine (has (es_flags st) RPMEXPR_DISCARD) op v1 v2) (\<lambda>v. loop_at n m E tern f k v st))"
proof -
  have "k = 2 \<or> k = 3 \<or> k = 4" using assms(1,2) by auto
  then show ?thesis
  proof (elim disjE)
    assume "k = 2"
    with assms(3) have "is_relational op" "\<not> is_mulDiv op" "\<not> is_addSub op"
      by (auto simp: tok_level.simps split: if_splits)
    with \<open>k = 2\<close> show ?thesis
      by (simp add: loop_at_def parse_at_def rdToken_start rbind_assoc combine_def Let_def)
  next
    assume "k = 3"
    with assms(3) have "is_addSub op" "\<not> is_mulDiv op" by (auto simp: tok_level.simps split: if_splits)
    with \<open>k = 3\<close> show ?thesis
      by (simp add: loop_at_def parse_at_def rdToken_start rbind_assoc combine_def Let_def)
  next
    assume "k = 4"
    with assms(3) have "is_mulDiv op" by (auto simp: tok_level.simps split: if_splits)
    with \<open>k = 4\<close> show ?thesis
      by (simp add: loop_at_def parse_at_def rdToken_start rbind_assoc combine_def Let_def
          mulDiv_flags [symmetric])
  qed
qed

lemma loop_at_logical:
  assumes "op = TOK_LOGICAL_AND \<or> op = TOK_LOGICAL_OR" "short = (boolifyValue v1 = (op = TOK_LOGICAL_OR))"
  shows "loop_at n (Suc m) E tern f 1 v1 (ahead op X f) =
     rbind (rbind (start E (if short then f OR RPMEXPR_DISCARD else f) X) (parse_at n E tern 2)) (\<lambda>(v2, st).
       if \<not> valueSameType v1 v2 then Inl TypesMustMatch
       else loop_at n m E tern f 1 (if short then v1 else v2) (st\<lparr>es_flags := f\<rparr>))"
proof -
  have L: "loop_at n j E tern f 1 = doLogical_loop j E (doRelational n E tern) f" for j
    by (simp add: loop_at_def)
  have P: "parse_at n E tern 2 = doRelational n E tern" by (simp add: parse_at_def)
  have short: "(op = TOK_LOGICAL_AND \<and> \<not> boolifyValue v1 \<or> op = TOK_LOGICAL_OR \<and> boolifyValue v1) = short"
    using assms by auto
  show ?thesis
    unfolding L P doLogical_loop.simps Let_def parseState.select_convs short if_P [OF assms(1)]
    by (cases short) (simp_all add: rdToken_start rbind_assoc)
qed

lemma loop_at_bin:
  assumes b: "impl_at E b" and f: "\<not> has f RPMEXPR_EXPAND" and t: "follows t r r'" "tok_level t \<le> k"
    and k: "1 \<le> k" "k \<le> 4" "tok_level op = k" "op \<noteq> TOK_TERNARY_COND" and fuel: "wt b < m" "1 + wt b \<le> n"
  shows "approx (rbind (bin_rest (has f RPMEXPR_DISCARD) op b v1) (\<lambda>v. loop_at n m' E (doTernary m E) f k v (ahead t r' f)))
     (loop_at n (Suc m') E (doTernary m E) f k v1 (ahead op (render_at (Suc k) b @ r) f))"
proof -
  let ?X = "render_at (Suc k) b @ r" and ?L = "loop_at n m' E (doTernary m E) f k"
  have B: "approx (rbind (sem (has g RPMEXPR_DISCARD) b) (\<lambda>v2. Inr (v2, ahead t r' g)))
      (rbind (start E g ?X) (parse_at n E (doTernary m E) (Suc k)))" if "\<not> has g RPMEXPR_EXPAND" for g
  proof -
    have "tok_level t + (5 - Suc k) < 5" using t(2) k(1,2) by simp
    then have "conts n 1 E (doTernary m E) g (5 - Suc k) v (ahead t r' g) = Inr (v, ahead t r' g)" for v
      using conts_skip [of "ahead t r' g" "5 - Suc k" n 0] by (simp del: conts.simps)
    moreover have "approx (rbind (sem (has g RPMEXPR_DISCARD) b)
          (\<lambda>v. conts n 1 E (doTernary m E) g (5 - Suc k) v (ahead t r' g)))
        (rbind (start E g ?X) (parse_at n E (doTernary m E) (Suc k)))"
      by (rule impl_atD [OF b]) (use t k fuel that in simp_all)
    ultimately show ?thesis by (simp only:)
  qed
  show ?thesis
  proof (cases "k = 1")
    case True
    then have op: "op = TOK_LOGICAL_AND \<or> op = TOK_LOGICAL_OR"
      using k(3,4) by (cases op) simp_all
    define short where "short = (boolifyValue v1 = (op = TOK_LOGICAL_OR))"
    let ?g = "if short then f OR RPMEXPR_DISCARD else f"
    let ?k = "\<lambda>(v2, st). if \<not> valueSameType v1 v2 then Inl TypesMustMatch
        else ?L (if short then v1 else v2) (st\<lparr>es_flags := f\<rparr>)"
    have d: "has ?g RPMEXPR_DISCARD = (has f RPMEXPR_DISCARD \<or> short)" "\<not> has ?g RPMEXPR_EXPAND" using f by auto
    have "approx (rbind (rbind (sem (has ?g RPMEXPR_DISCARD) b) (\<lambda>v2. Inr (v2, ahead t r' ?g))) ?k)
        (rbind (rbind (start E ?g ?X) (parse_at n E (doTernary m E) (Suc k))) ?k)"
      by (intro approx_bind B d) simp_all
    also have "rbind (rbind (sem (has ?g RPMEXPR_DISCARD) b) (\<lambda>v2. Inr (v2, ahead t r' ?g))) ?k =
        rbind (bin_rest (has f RPMEXPR_DISCARD) op b v1) (\<lambda>v. ?L v (ahead t r' f))"
      unfolding d(1) using k(3) True
      by (cases "sem (has f RPMEXPR_DISCARD \<or> short) b") (simp_all add: bin_rest_def short_def [symmetric])
    also have "rbind (rbind (start E ?g ?X) (parse_at n E (doTernary m E) (Suc k))) ?k =
        loop_at n (Suc m') E (doTernary m E) f k v1 (ahead op ?X f)"
      unfolding True Suc_1 by (rule loop_at_logical [OF op short_def, symmetric])
    finally show ?thesis .
  next
    case False
    let ?k = "\<lambda>(v2, st). rbind (combine (has (es_flags st) RPMEXPR_DISCARD) op v1 v2) (\<lambda>v. ?L v st)"
    have "approx (rbind (rbind (sem (has f RPMEXPR_DISCARD) b) (\<lambda>v2. Inr (v2, ahead t r' f))) ?k)
        (rbind (rbind (start E f ?X) (parse_at n E (doTernary m E) (Suc k))) ?k)"
      by (intro approx_bind B f) simp_all
    moreover have "2 \<le> k" using False k(1) by simp
    ultimately show ?thesis
      using False k(3) unfolding loop_at_combine [OF \<open>2 \<le> k\<close> k(2,3)]
      by (simp add: bin_rest_def rbind_assoc del: render_at.simps)
  qed
qed

lemma impl_raw_bin:
  assumes a: "impl_at E a" and b: "impl_at E b" and wf: "wf_expr (EBin op a b)"
  shows "impl_raw E (EBin op a b)"
  unfolding impl_raw_def
proof (intro allI impI)
  fix l f t r r' n m m'
  assume h: "1 \<le> l" "l \<le> expr_level (EBin op a b)" "follows t r r'" "tok_level t \<le> l"
    "\<not> has f RPMEXPR_EXPAND" "wt (EBin op a b) \<le> m" "m' + wt (EBin op a b) \<le> n"
  define k where "k = tok_level op"
  have k: "1 \<le> k" "k \<le> 4" "tok_level op = k" "op \<noteq> TOK_TERNARY_COND" "l \<le> k" "tok_level t \<le> k"
    using wf h by (auto simp: k_def)
  let ?d = "has f RPMEXPR_DISCARD" and ?T = "doTernary m E" and ?X = "render_at (Suc k) b @ r"
  let ?text = "render_at k a @ tok_text op @ ?X"
  have fo: "follows op (tok_text op @ ?X) ?X"
    using k(1,3,4) render_at_starts [of b "Suc k" r] wf by (cases op) (auto simp: follows_def)
  have "approx (rbind (sem ?d a) (\<lambda>v. conts n (Suc m') E ?T f (5 - k) v (ahead op ?X f)))
      (rbind (start E f ?text) (parse_at n E ?T k))"
    by (rule impl_atD [OF a k(1) _ fo]) (use h k in simp_all)
  then have "approx (rbind (sem ?d a) (\<lambda>v. conts n (Suc m') E ?T f (5 - l) v (ahead op ?X f)))
      (rbind (start E f ?text) (parse_at n E ?T l))"
    using approx_lower [of "sem ?d a" n "Suc m'" E ?T f "5 - k" "ahead op ?X f" ?text "5 - l"] h k
    by (simp del: render_at.simps conts.simps)
  moreover have "approx (rbind (bin_rest ?d op b v1) (\<lambda>v. conts n m' E ?T f (5 - l) v (ahead t r' f)))
      (conts n (Suc m') E ?T f (5 - l) v1 (ahead op ?X f))" for v1
    by (rule conts_op [OF k(1,2)], use k in simp, use k in simp,
        rule loop_at_bin [OF b h(5,3) k(6,1,2,3,4)]) (use h k in auto)
  ultimately have "approx (rbind (sem ?d a) (\<lambda>v1. rbind (bin_rest ?d op b v1)
      (\<lambda>v. conts n m' E ?T f (5 - l) v (ahead t r' f)))) (rbind (start E f ?text) (parse_at n E ?T l))"
    by (meson approx_bind approx_refl approx_trans)
  then show "approx (rbind (sem ?d (EBin op a b)) (\<lambda>v. conts n m' E ?T f (5 - l) v (ahead t r' f)))
      (rbind (start E f (render (EBin op a b) @ r)) (parse_at n E ?T l))"
    by (simp add: sem_bin rbind_assoc k_def del: sem.simps render_at.simps)
qed

lemma conts_cond: "conts n (Suc m) E tern f 4 v (ahead TOK_TERNARY_COND X g) = Inr (v, ahead TOK_TERNARY_COND X g)"
  using conts_skip [of "ahead TOK_TERNARY_COND X g" 3 n m E tern f v]
  by (simp add: numeral_eq_Suc loop_at_def Let_def)

text \<open>What follows the condition of \<open>c ? a : b\<close>.\<close>

definition cond_rest :: "bool \<Rightarrow> expr \<Rightarrow> expr \<Rightarrow> value_s \<Rightarrow> value_s expr_result" where
  "cond_rest d a b v =
     (let cond = boolifyValue v in
      rbind (sem (d \<or> \<not> cond) a) (\<lambda>v1.
      rbind (sem (d \<or> cond) b) (\<lambda>v2.
        if \<not> valueSameType v1 v2 then Inl TypesMustMatch else Inr (if cond then v1 else v2))))"

lemma sem_cond: "sem d (ECond c a b) = rbind (sem d c) (cond_rest d a b)"
  by (simp add: cond_rest_def [abs_def])

lemma ternary_rest_cond:
  assumes a: "impl_top E a" and b: "impl_top E b" and f: "\<not> has f RPMEXPR_EXPAND"
    and t: "follows t r r'" "tok_level t = 0" and m: "wt a < m" "wt b < m"
  shows "approx (rbind (cond_rest (has f RPMEXPR_DISCARD) a b v) (\<lambda>v. Inr (v, ahead t r' f)))
     (ternary_rest m E f (v, ahead TOK_TERNARY_COND (render a @ CHR '':'' # render b @ r) f))"
proof -
  define g where "g = (if boolifyValue v then f else f OR RPMEXPR_DISCARD)"
  define h where "h = (if boolifyValue v then f OR RPMEXPR_DISCARD else f)"
  have d: "has g RPMEXPR_DISCARD = (has f RPMEXPR_DISCARD \<or> \<not> boolifyValue v)" "\<not> has g RPMEXPR_EXPAND"
    "has h RPMEXPR_DISCARD = (has f RPMEXPR_DISCARD \<or> boolifyValue v)" "\<not> has h RPMEXPR_EXPAND"
    using f by (auto simp: g_def h_def)
  let ?Y = "render b @ r"
  let ?kb = "\<lambda>v1 (v2, st). if \<not> valueSameType v1 v2 then Inl TypesMustMatch
      else Inr (if boolifyValue v then v1 else v2, st\<lparr>es_flags := f\<rparr>)"
  let ?ka = "\<lambda>(v1, st). if es_nextToken st \<noteq> TOK_TERNARY_ALT then Inl SyntaxError
      else rbind (start E h (es_p st)) (\<lambda>st. rbind (doTernary m E st) (?kb v1))"
  have alt: "follows TOK_TERNARY_ALT (CHR '':'' # ?Y) ?Y" "tok_level TOK_TERNARY_ALT = 0" by (simp_all add: follows_def)
  have B: "approx (rbind (sem (has h RPMEXPR_DISCARD) b) (\<lambda>v2. ?kb v1 (v2, ahead t r' h)))
      (rbind (start E h ?Y) (\<lambda>st. rbind (doTernary m E st) (?kb v1)))" for v1
    using approx_bind [OF impl_topD [OF b t d(4) m(2)], of "?kb v1" "?kb v1"] by (simp add: rbind_assoc)
  have "approx (rbind (rbind (sem (has g RPMEXPR_DISCARD) a) (\<lambda>v1. Inr (v1, ahead TOK_TERNARY_ALT ?Y g))) ?ka)
      (rbind (rbind (start E g (render a @ CHR '':'' # ?Y)) (doTernary m E)) ?ka)"
    by (intro approx_bind impl_topD [OF a alt d(2) m(1)]) simp_all
  moreover have "approx (rbind (sem (has g RPMEXPR_DISCARD) a) (\<lambda>v1. rbind (sem (has h RPMEXPR_DISCARD) b)
      (\<lambda>v2. ?kb v1 (v2, ahead t r' h))))
      (rbind (rbind (sem (has g RPMEXPR_DISCARD) a) (\<lambda>v1. Inr (v1, ahead TOK_TERNARY_ALT ?Y g))) ?ka)"
    using B by (simp add: rbind_assoc approx_bind)
  ultimately have "approx (rbind (sem (has g RPMEXPR_DISCARD) a) (\<lambda>v1. rbind (sem (has h RPMEXPR_DISCARD) b)
      (\<lambda>v2. ?kb v1 (v2, ahead t r' h))))
      (rbind (rbind (start E g (render a @ CHR '':'' # ?Y)) (doTernary m E)) ?ka)"
    by (rule approx_trans [rotated])
  also have "rbind (rbind (start E g (render a @ CHR '':'' # ?Y)) (doTernary m E)) ?ka =
      ternary_rest m E f (v, ahead TOK_TERNARY_COND (render a @ CHR '':'' # ?Y) f)"
    unfolding ternary_rest_def prod.case parseState.select_convs g_def [symmetric] h_def [symmetric]
    by (simp add: rbind_assoc)
  also have "rbind (sem (has g RPMEXPR_DISCARD) a) (\<lambda>v1. rbind (sem (has h RPMEXPR_DISCARD) b)
      (\<lambda>v2. ?kb v1 (v2, ahead t r' h))) =
      rbind (cond_rest (has f RPMEXPR_DISCARD) a b v) (\<lambda>v. Inr (v, ahead t r' f))"
    unfolding d cond_rest_def Let_def by (auto simp: rbind_def split: sum.split)
  finally show ?thesis .
qed

lemma impl_top_cond:
  assumes c: "impl_at E c" and a: "impl_top E a" and b: "impl_top E b"
  shows "impl_top E (ECond c a b)"
  unfolding impl_top_def
proof (intro allI impI)
  fix f t r r' m
  assume h: "follows t r r'" "tok_level t = 0" "\<not> has f RPMEXPR_EXPAND" "wt (ECond c a b) < m"
  then obtain m0 where m: "m = Suc m0" by (cases m) auto
  let ?d = "has f RPMEXPR_DISCARD" and ?X = "render a @ CHR '':'' # render b @ r"
  have fo: "follows TOK_TERNARY_COND (CHR ''?'' # ?X) ?X" by (simp add: follows_def)
  have "approx (rbind (sem ?d c) (\<lambda>v. conts m 1 E (doTernary m0 E) f (5 - 1) v (ahead TOK_TERNARY_COND ?X f)))
      (rbind (start E f (render_at 1 c @ CHR ''?'' # ?X)) (parse_at m E (doTernary m0 E) 1))"
    by (rule impl_atD [OF c _ _ fo]) (use h m in simp_all)
  then have C: "approx (rbind (sem ?d c) (\<lambda>v. Inr (v, ahead TOK_TERNARY_COND ?X f)))
      (rbind (start E f (render_at 1 c @ CHR ''?'' # ?X)) (doLogical m E (doTernary m0 E)))"
    using conts_cond [of m 0] by (simp add: parse_at_def del: conts.simps render_at.simps)
  have "approx (rbind (sem ?d c) (\<lambda>v. rbind (cond_rest ?d a b v) (\<lambda>v. Inr (v, ahead t r' f))))
      (rbind (sem ?d c) (\<lambda>v. ternary_rest m0 E f (v, ahead TOK_TERNARY_COND ?X f)))"
    by (intro approx_bind ternary_rest_cond [OF a b h(3,1,2)]) (use h m in simp_all)
  also have "approx (rbind (rbind (sem ?d c) (\<lambda>v. Inr (v, ahead TOK_TERNARY_COND ?X f))) (ternary_rest m0 E f))
      (rbind (rbind (start E f (render_at 1 c @ CHR ''?'' # ?X)) (doLogical m E (doTernary m0 E))) (ternary_rest m0 E f))"
    by (intro approx_bind C) simp_all
  then have "approx (rbind (sem ?d c) (\<lambda>v. ternary_rest m0 E f (v, ahead TOK_TERNARY_COND ?X f)))
      (rbind (start E f (render_at 1 c @ CHR ''?'' # ?X)) (doTernary m E))"
    unfolding m doTernary_rest by (simp add: rbind_assoc del: render_at.simps)
  finally show "approx (rbind (sem ?d (ECond c a b)) (\<lambda>v. Inr (v, ahead t r' f)))
      (rbind (start E f (render (ECond c a b) @ r)) (doTernary m E))"
    unfolding sem_cond by (simp add: rbind_assoc del: doTernary.simps)
qed

lemma impl_expr: "wf_expr e \<Longrightarrow> impl_at E e \<and> impl_top E e"
proof (induction e)
  case (ECond c a b)
  then have "impl_top E (ECond c a b)" by (simp add: impl_top_cond)
  then show ?case by (simp add: impl_atI impl_raw_def)
next
  case (EBin op a b)
  then have "impl_raw E (EBin op a b)" by (intro impl_raw_bin) simp_all
  moreover from this have "impl_top E (EBin op a b)" using EBin by (intro impl_topI) auto
  ultimately show ?case by (simp add: impl_atI)
qed (auto intro!: impl_atI impl_topI impl_raw_literal impl_raw_neg impl_raw_not)

lemma wt_le_render: "wf_expr e \<Longrightarrow> wt e \<le> length (render e)"
proof (induction e)
  case (ENum ds)
  then show ?case by (cases ds) auto
next
  case (EBin op a b)
  then have "1 \<le> length (tok_text op)" by (cases op) auto
  moreover have "length (render e) \<le> length (render_at l e)" for l e by simp
  from this [of a "tok_level op"] this [of b "Suc (tok_level op)"]
  have "wt a + wt b \<le> length (render_at (tok_level op) a) + length (render_at (Suc (tok_level op)) b)"
    using EBin by simp
  ultimately show ?case by (simp del: render_at.simps)
qed auto

lemma sem_fuel: "sem d e \<noteq> Inl NoFuel"
  by (induction e arbitrary: d)
    (auto simp: rbind_eq_Inl combine_def Let_def split: value_s.splits if_splits)

lemma expr_value_sem:
  assumes "wf_expr e" "\<not> has f RPMEXPR_EXPAND"
  shows "expr_value E (render e) f = sem (has f RPMEXPR_DISCARD) e"
proof -
  have eof: "follows TOK_EOF [] []" "tok_level TOK_EOF = 0" by (simp_all add: follows_def)
  have "approx (rbind (sem (has f RPMEXPR_DISCARD) e) (\<lambda>v. Inr (v, ahead TOK_EOF [] f)))
      (rbind (start E f (render e @ [])) (doTernary (expr_fuel (render e)) E))"
    by (rule impl_topD [OF _ eof assms(2)])
      (use impl_expr [OF assms(1)] wt_le_render [OF assms(1)] in \<open>simp_all add: expr_fuel_def\<close>)
  then have eq: "rbind (start E f (render e)) (doTernary (expr_fuel (render e)) E) =
      rbind (sem (has f RPMEXPR_DISCARD) e) (\<lambda>v. Inr (v, ahead TOK_EOF [] f))"
    using sem_fuel by (auto simp: approx_def rbind_eq_Inl)
  have "expr_value E (render e) f = rbind (rbind (start E f (render e)) (doTernary (expr_fuel (render e)) E))
      (\<lambda>(v, st). if es_nextToken st \<noteq> TOK_EOF then Inl SyntaxError else Inr v)"
    by (simp add: expr_value_def start_def rbind_assoc)
  also have "\<dots> = sem (has f RPMEXPR_DISCARD) e"
    unfolding eq by (cases "sem (has f RPMEXPR_DISCARD) e") simp_all
  finally show ?thesis .
qed

subsection \<open>Types and short-circuit evaluation\<close>

datatype expr_type = TInteger | TString | TVersion

fun type_of :: "value_s \<Rightarrow> expr_type" where
  "type_of (VInteger _) = TInteger"
| "type_of (VString _) = TString"
| "type_of (VVersion _) = TVersion"

fun ty :: "expr \<Rightarrow> expr_type option" where
  "ty (ENum _) = Some TInteger"
| "ty (EStr _) = Some TString"
| "ty (EVer _) = Some TVersion"
| "ty (ENeg e) = (if ty e = Some TInteger then Some TInteger else None)"
| "ty (ENot e) = (if ty e = None then None else Some TInteger)"
| "ty (EBin op a b) =
     (if ty a \<noteq> ty b \<or> ty a = None then None
      else if tok_level op = 4 \<or> op = TOK_MINUS then (if ty a = Some TInteger then ty a else None)
      else if tok_level op = 3 then (if ty a = Some TVersion then None else ty a)
      else if tok_level op = 2 then Some TInteger
      else ty a)"
| "ty (ECond c a b) = (if ty c = None \<or> ty a \<noteq> ty b then None else ty a)"

text \<open>The operand the source only reads in discard mode is not evaluated.\<close>

fun lazy :: "expr \<Rightarrow> value_s expr_result" where
  "lazy (EBin op a b) = rbind (lazy a) (\<lambda>v1.
     if tok_level op = 1 then (if boolifyValue v1 = (op = TOK_LOGICAL_OR) then Inr v1 else lazy b)
     else rbind (lazy b) (\<lambda>v2. combine False op v1 v2))"
| "lazy (ECond c a b) = rbind (lazy c) (\<lambda>v. if boolifyValue v then lazy a else lazy b)"
| "lazy (ENeg e) = rbind (lazy e) (\<lambda>v. case v of
     VInteger i \<Rightarrow> rbind (c_int (- i)) (\<lambda>i. Inr (VInteger i)) | _ \<Rightarrow> Inl MinusOnlyNumbers)"
| "lazy (ENot e) = rbind (lazy e) (\<lambda>v. Inr (VInteger (of_bool (\<not> boolifyValue v))))"
| "lazy (ENum ds) = Inr (VInteger (sint (atoi ds)))"
| "lazy (EStr s) = Inr (VString s)"
| "lazy (EVer s) = Inr (VVersion (parseEVR s))"

lemma same_type: "valueSameType v1 v2 \<longleftrightarrow> type_of v1 = type_of v2"
  by (cases v1; cases v2) simp_all

lemma relational_result:
  assumes "type_of v1 = type_of v2"
  shows "(\<exists>b. relational op v1 v2 = Inr (VInteger (of_bool b))) \<or> relational op v1 v2 = Inl UndefinedOverflow"
  using assms
  by (cases v1; cases v2) (auto simp: relational_def valueCompare_def valueCmpInteger_def valueCmpString_def
      valueCmpVersion_def c_int_def)

definition runtime_ok :: "expr_type \<Rightarrow> value_s expr_result \<Rightarrow> bool" where
  "runtime_ok T r \<longleftrightarrow> (\<exists>v. r = Inr v \<and> type_of v = T) \<or> r = Inl DivisionByZero \<or> r = Inl UndefinedOverflow"

lemma runtime_okI: "type_of v = T \<Longrightarrow> runtime_ok T (Inr v)"
  by (simp add: runtime_ok_def)

lemma runtime_ok_bind:
  assumes "runtime_ok T r" "\<And>v. type_of v = T \<Longrightarrow> runtime_ok U (f v)"
  shows "runtime_ok U (rbind r f)"
proof (cases r)
  case (Inl e)
  with assms(1) show ?thesis by (auto simp: runtime_ok_def)
next
  case (Inr v)
  with assms(1) have "type_of v = T" by (simp add: runtime_ok_def)
  with Inr assms(2) show ?thesis by simp
qed

lemma runtime_ok_if:
  "(b \<Longrightarrow> runtime_ok T x) \<Longrightarrow> (\<not> b \<Longrightarrow> runtime_ok T y) \<Longrightarrow> runtime_ok T (if b then x else y)"
  by simp

lemma combine_ok:
  assumes "type_of v1 = T" "type_of v2 = T" "tok_level op \<noteq> 1" "tok_level op > 0" "op \<noteq> TOK_TERNARY_COND"
    "ty (EBin op a b) = Some U" "ty a = Some T"
  shows "runtime_ok U (combine d op v1 v2)"
proof -
  have "is_mulDiv op \<or> is_addSub op \<and> \<not> is_mulDiv op \<or> is_relational op \<and> \<not> is_mulDiv op \<and> \<not> is_addSub op"
    using assms(3-5) by (auto simp: tok_level.simps split: if_splits)
  then show ?thesis
  proof (elim disjE conjE)
    assume "is_mulDiv op"
    with assms show ?thesis
      by (cases v1; cases v2) (auto simp: combine_def mulDiv_def c_int_def runtime_ok_def tok_level.simps split: if_splits)
  next
    assume op: "is_addSub op" "\<not> is_mulDiv op"
    have "ty b = Some T" using assms(6,7) by (metis ty.simps(6) option.distinct(1))
    with op have "U = T" "T \<noteq> TVersion" "op = TOK_MINUS \<Longrightarrow> T = TInteger"
      using assms(6,7) by (auto simp: tok_level.simps is_addSub_def split: if_splits)
    with op assms(1,2) show ?thesis
      by (cases v1; cases v2) (auto simp: combine_def addSub_def c_int_def runtime_ok_def)
  next
    assume "is_relational op" "\<not> is_mulDiv op" "\<not> is_addSub op"
    with assms have "U = TInteger" by (auto simp: tok_level.simps is_addSub_def split: if_splits)
    with relational_result [of v1 v2 op] assms \<open>\<not> is_mulDiv op\<close> \<open>\<not> is_addSub op\<close> show ?thesis
      by (auto simp: combine_def runtime_ok_def)
  qed
qed

lemma lazy_ok: "wf_expr e \<Longrightarrow> ty e = Some T \<Longrightarrow> runtime_ok T (lazy e)"
proof (induction e arbitrary: T)
  case (ENeg e)
  then have e: "runtime_ok TInteger (lazy e)" "T = TInteger" by (auto split: if_splits)
  show ?case unfolding lazy.simps
    by (rule runtime_ok_bind [OF e(1)]) (auto simp: runtime_ok_def c_int_def e(2) split: value_s.splits)
next
  case (ENot e)
  then obtain U where "runtime_ok U (lazy e)" "T = TInteger" by (auto split: if_splits)
  then show ?case unfolding lazy.simps by (auto intro!: runtime_ok_bind simp: runtime_ok_def)
next
  case (EBin op a b)
  then obtain U where U: "ty a = Some U" "ty b = Some U" by (auto split: if_splits)
  show ?case
  proof (cases "tok_level op = 1")
    case True
    then have "op \<noteq> TOK_MINUS" by auto
    with True EBin.prems U have "T = U" by (auto split: if_splits)
    moreover have "runtime_ok U (lazy a)" "runtime_ok U (lazy b)" using EBin U by simp_all
    ultimately show ?thesis
      using True unfolding lazy.simps by (auto intro!: runtime_ok_bind [where T = U] runtime_ok_if runtime_okI)
  next
    case False
    show ?thesis unfolding lazy.simps if_not_P [OF False]
      using EBin U False by (auto intro!: runtime_ok_bind [where T = U] combine_ok simp del: ty.simps(6))
  qed
next
  case (ECond c a b)
  then obtain U where "ty c = Some U" "ty a = Some T" "ty b = Some T" by (auto split: if_splits)
  with ECond show ?case unfolding lazy.simps by (auto intro!: runtime_ok_bind [where T = U])
qed (auto simp: runtime_ok_def)

text \<open>In discard mode a well-typed tree cannot fail: its integers are bounded by its size.\<close>

definition small :: "nat \<Rightarrow> value_s \<Rightarrow> bool" where
  "small k v \<longleftrightarrow> (case v of VInteger i \<Rightarrow> \<bar>i\<bar> \<le> int k | _ \<Rightarrow> True)"

lemma small_mono: "small j v \<Longrightarrow> j \<le> k \<Longrightarrow> small k v"
  by (auto simp: small_def split: value_s.splits)

lemma small_of_bool: "1 \<le> k \<Longrightarrow> small k (VInteger (of_bool b))"
  by (simp add: small_def)

lemma combine_discard:
  assumes "type_of v1 = T" "type_of v2 = T" "small j v1" "small k v2" "j + k < 2 ^ 31" "1 \<le> j"
    "tok_level op \<noteq> 1" "tok_level op > 0" "op \<noteq> TOK_TERNARY_COND" "ty (EBin op a b) = Some U" "ty a = Some T"
  shows "\<exists>v. combine True op v1 v2 = Inr v \<and> type_of v = U \<and> small (j + k) v"
proof -
  have "(\<exists>v. combine True op v1 v2 = Inr v) \<and> (\<forall>v. combine True op v1 v2 = Inr v \<longrightarrow> small (j + k) v)"
    using assms(10,11) assms(1-6)
    by (cases v1; cases v2) (auto simp: combine_def mulDiv_def addSub_def relational_def valueCompare_def
      valueCmpInteger_def valueCmpString_def valueCmpVersion_def c_int_def small_def has_def
      tok_level.simps is_addSub_def split: if_splits)
  with combine_ok [OF assms(1,2,7,8,9,10,11), of True] show ?thesis by (auto simp: runtime_ok_def)
qed

lemma wt_pos: "1 \<le> wt e"
  by (cases e) simp_all

lemma sem_discard:
  "wf_expr e \<Longrightarrow> ty e = Some T \<Longrightarrow> wt e < 2 ^ 31 \<Longrightarrow> \<exists>v. sem True e = Inr v \<and> type_of v = T \<and> small (wt e) v"
proof (induction e arbitrary: T)
  case (ENeg e)
  then obtain v where "sem True e = Inr v" "type_of v = TInteger" "small (wt e) v" "T = TInteger"
    by (auto split: if_splits)
  with ENeg.prems show ?case by (cases v) (auto simp: c_int_def small_def)
next
  case (ENot e)
  then show ?case by (auto simp: small_of_bool split: if_splits)
next
  case (EBin op a b)
  then obtain U where U: "ty a = Some U" "ty b = Some U" by (auto split: if_splits)
  obtain v1 where v1: "sem True a = Inr v1" "type_of v1 = U" "small (wt a) v1" using EBin U by fastforce
  obtain v2 where v2: "sem True b = Inr v2" "type_of v2 = U" "small (wt b) v2" using EBin U by fastforce
  show ?case
  proof (cases "tok_level op = 1")
    case True
    then have "op \<noteq> TOK_MINUS" by auto
    with True EBin.prems U have "T = U" by (auto split: if_splits)
    then show ?thesis
      using True v1 v2 by (auto simp: same_type intro: small_mono)
  next
    case False
    then have "sem True (EBin op a b) = combine True op v1 v2" using v1 v2 by simp
    moreover have "\<exists>v. combine True op v1 v2 = Inr v \<and> type_of v = T \<and> small (wt a + wt b) v"
      using EBin.prems by (intro combine_discard [OF v1(2) v2(2) v1(3) v2(3) _ wt_pos False _ _ EBin.prems(2) U(1)]) auto
    ultimately show ?thesis by (auto elim!: small_mono)
  qed
next
  case (ECond c a b)
  then obtain U where U: "ty c = Some U" "ty a = Some T" "ty b = Some T" by (auto split: if_splits)
  obtain v where "sem True c = Inr v" using ECond U by fastforce
  moreover obtain v1 where v1: "sem True a = Inr v1" "type_of v1 = T" "small (wt a) v1" using ECond U by fastforce
  moreover obtain v2 where v2: "sem True b = Inr v2" "type_of v2 = T" "small (wt b) v2" using ECond U by fastforce
  ultimately show ?case by (auto simp: same_type Let_def intro: small_mono)
qed (auto simp: small_def)

lemma sem_lazy:
  "wf_expr e \<Longrightarrow> ty e = Some T \<Longrightarrow> wt e < 2 ^ 31 \<Longrightarrow> sem False e = lazy e"
proof (induction e arbitrary: T)
  case (EBin op a b)
  then obtain U where U: "ty a = Some U" "ty b = Some U" by (auto split: if_splits)
  have IH: "sem False a = lazy a" "sem False b = lazy b" using EBin U by auto
  obtain w where w: "sem True b = Inr w" "type_of w = U" using sem_discard [of b U] EBin.prems U by auto
  have ok: "runtime_ok U (lazy a)" "runtime_ok U (lazy b)" using lazy_ok EBin.prems U by auto
  show ?case
  proof (cases "lazy a")
    case (Inr v1)
    then have "type_of v1 = U" using ok(1) by (simp add: runtime_ok_def)
    with Inr IH w ok(2) show ?thesis by (cases "lazy b") (auto simp: Let_def same_type runtime_ok_def)
  qed (simp add: IH)
next
  case (ECond c a b)
  then obtain U where U: "ty c = Some U" "ty a = Some T" "ty b = Some T" by (auto split: if_splits)
  have IH: "sem False c = lazy c" "sem False a = lazy a" "sem False b = lazy b" using ECond U by auto
  obtain w1 w2 where w: "sem True a = Inr w1" "type_of w1 = T" "sem True b = Inr w2" "type_of w2 = T"
    using sem_discard [of a T] sem_discard [of b T] ECond.prems U by auto
  have ok: "runtime_ok T (lazy a)" "runtime_ok T (lazy b)" using lazy_ok ECond.prems U by auto
  show ?case
  proof (cases "lazy c")
    case (Inr v)
    with IH w ok show ?thesis
      by (cases "lazy a"; cases "lazy b") (auto simp: Let_def same_type runtime_ok_def)
  qed (simp add: IH)
qed (auto split: if_splits)

subsection \<open>The evaluator on the text of an expression\<close>

lemma no_flags: "\<not> has 0 RPMEXPR_EXPAND" "\<not> has 0 RPMEXPR_DISCARD"
  by (simp_all add: has_def)

text \<open> C18: On the text of an expression tree, with parentheses only where the precedences (unary, then
  \<open>* /\<close>, \<open>+ -\<close>, the comparisons, the logical operators on one level, and \<open>? :\<close>) and left
  associativity ask for them, the evaluator returns exactly the value, or the error, of the tree.\<close>

theorem rpmExpr_semantics:
  assumes "wf_expr e"
  shows "rpmExprBool E (render e) = rbind (sem False e) (\<lambda>v. Inr (boolifyValue v)) \<and>
     rpmExprStr E (render e) = rbind (sem False e) (\<lambda>v.
       Inr (case v of VInteger i \<Rightarrow> int_digits i | VString s \<Rightarrow> s | VVersion r \<Rightarrow> the (rpmverEVR (Some r))))"
  using expr_value_sem [OF assms, of 0 E] no_flags
  by (simp add: rpmExprBool_def rpmExprBoolFlags_def rpmExprStr_def rpmExprStrFlags_def)

definition plain_env :: expr_env where
  "plain_env = \<lparr>expandMacros = Some, luaCallString = (\<lambda>_ _. None)\<rparr>"

definition demo_expr :: expr where
  "demo_expr = EBin TOK_MULTIPLY (EBin TOK_MINUS (EBin TOK_MINUS (ENum ''9'') (ENum ''2'')) (ENum ''3'')) (ENum ''2'')"

theorem rpmExpr_semantics_witness:
  "render demo_expr = ''(9-2-3)*2'' \<and> rpmExprStr plain_env ''(9-2-3)*2'' = Inr ''8''"
proof -
  have wf: "wf_expr demo_expr" by (simp add: demo_expr_def risdigit_def char_code)
  have rendered: "render demo_expr = ''(9-2-3)*2''" by (simp add: demo_expr_def)
  have digits: "int_digits 8 = ''8''" by code_simp
  have "sem False demo_expr = Inr (VInteger 8)" by code_simp
  with rpmExpr_semantics [OF wf, of plain_env] rendered digits show ?thesis by simp
qed

text \<open> C19: A well-typed expression is evaluated with short circuits: the operand that \<open>&&\<close>, \<open>||\<close> or
  \<open>? :\<close> skips, which the source still reads in discard mode, can not make the evaluation fail and does
  not influence the result.\<close>

theorem rpmExpr_short_circuit:
  assumes "wf_expr e" "ty e = Some T" "wt e < 2 ^ 31"
  shows "rpmExprBool E (render e) = rbind (lazy e) (\<lambda>v. Inr (boolifyValue v))"
  using expr_value_sem [OF assms(1), of 0 E] sem_lazy [OF assms] no_flags
  by (simp add: rpmExprBool_def rpmExprBoolFlags_def)

theorem rpmExpr_short_circuit_witness:
  "rpmExprBool plain_env ''0||1?2:3/0'' = Inr True"
proof -
  let ?e = "ECond (EBin TOK_LOGICAL_OR (ENum ''0'') (ENum ''1'')) (ENum ''2'')
      (EBin TOK_DIVIDE (ENum ''3'') (ENum ''0''))"
  have "wf_expr ?e" "ty ?e = Some TInteger" "wt ?e < 2 ^ 31" by (simp_all add: risdigit_def char_code)
  note rpmExpr_short_circuit [OF this, of plain_env]
  moreover have "lazy ?e = Inr (VInteger 2)" by code_simp
  ultimately show ?thesis by (simp add: boolifyValue_def)
qed

text \<open> C29: A well-typed expression evaluates to a value of its type, or ends with a division by zero or an
  integer overflow; no other error is possible.\<close>

theorem rpmExpr_type_safe:
  assumes "wf_expr e" "ty e = Some T" "wt e < 2 ^ 31"
  shows "(\<exists>v. expr_value E (render e) 0 = Inr v \<and> type_of v = T) \<or>
     expr_value E (render e) 0 = Inl DivisionByZero \<or> expr_value E (render e) 0 = Inl UndefinedOverflow"
  using lazy_ok [OF assms(1,2)] expr_value_sem [OF assms(1), of 0 E] sem_lazy [OF assms] no_flags
  by (simp add: runtime_ok_def)

theorem rpmExpr_type_safe_witness:
  "expr_value plain_env ''3/0'' 0 = Inl DivisionByZero"
proof -
  let ?e = "EBin TOK_DIVIDE (ENum ''3'') (ENum ''0'')"
  have wf: "wf_expr ?e" "ty ?e = Some TInteger" "wt ?e < 2 ^ 31" by (simp_all add: risdigit_def char_code)
  from rpmExpr_type_safe [OF wf, of plain_env] have "(\<exists>v. expr_value plain_env ''3/0'' 0 = Inr v \<and> type_of v = TInteger) \<or>
     expr_value plain_env ''3/0'' 0 = Inl DivisionByZero \<or> expr_value plain_env ''3/0'' 0 = Inl UndefinedOverflow" by simp
  moreover have "expr_value plain_env ''3/0'' 0 = sem False ?e"
    using expr_value_sem [OF wf(1), of 0 plain_env] no_flags by simp
  moreover have "sem False ?e = Inl DivisionByZero" by code_simp
  ultimately show ?thesis by simp
qed

text \<open>A macro whose braces do not close and that ends in a backslash makes the lexer read past the end
  of the text; the comparison of two integers far apart overflows.\<close>

lemma lexer_reads_past_end:
  "rpmExprBoolFlags plain_env (''%{'' @ [CHR 0x5C]) RPMEXPR_EXPAND = Inl UndefinedRead"
  by code_simp

lemma comparison_overflows:
  "rpmExprBool plain_env ''0-2147483647-1<1'' = Inl UndefinedOverflow"
  by code_simp

end
