(* ===== verification/Hdrblob.thy ===== *)
theory Hdrblob
  imports Sense
begin

text \<open>
  The on-disk header of lib/header.cc: the checks every header passes before anything else looks at it
  (\<open>hdrblobVerifyLengths\<close>, \<open>hdrblobVerifyRegion\<close>, \<open>hdrblobVerifyInfo\<close>, \<open>hdrblobInit\<close>) and the
  lookup of an entry in the verified blob. The blob is the list of its bytes; a pointer is an offset
  into it, and every read is checked: \<open>Overread\<close> is a read outside of the list. The fields are 32-bit
  words with the conversions of the source (\<open>sint\<close> where the C type is signed, \<open>u64\<close> where an
  operand is a \<open>size_t\<close>). The types of the known tags, which the build generates from the tag list,
  and the script program tags are parameters.
\<close>

type_synonym bytes = "8 word list"

datatype hdr_error =
    HdrLength | HdrTags | HdrData | BlobSize
  | RegionNoTags | RegionTag | RegionOffset | RegionTrailer | RegionSize | RegionMismatch
  | TagBad nat | HdrSize | HdrMagic | HdrBlobRead | SighPad | SwabFail | HdrLoad | Overread

subsection \<open>Tables and checks\<close>

definition typeAlign :: "nat list" where
  "typeAlign = [1, 1, 1, 2, 4, 8, 1, 1, 1, 1, 0, 0, 0, 0, 0, 0]"

definition typeSizes :: "int list" where
  "typeSizes = [0, 1, 1, 2, 4, 8, -1, 1, -1, -1, 0, 0, 0, 0, 0, 0]"

abbreviation RPM_NULL_TYPE :: u32 where "RPM_NULL_TYPE \<equiv> 0"
abbreviation RPM_CHAR_TYPE :: u32 where "RPM_CHAR_TYPE \<equiv> 1"
abbreviation RPM_INT8_TYPE :: u32 where "RPM_INT8_TYPE \<equiv> 2"
abbreviation RPM_INT16_TYPE :: u32 where "RPM_INT16_TYPE \<equiv> 3"
abbreviation RPM_INT32_TYPE :: u32 where "RPM_INT32_TYPE \<equiv> 4"
abbreviation RPM_INT64_TYPE :: u32 where "RPM_INT64_TYPE \<equiv> 5"
abbreviation RPM_STRING_TYPE :: u32 where "RPM_STRING_TYPE \<equiv> 6"
abbreviation RPM_BIN_TYPE :: u32 where "RPM_BIN_TYPE \<equiv> 7"
abbreviation RPM_STRING_ARRAY_TYPE :: u32 where "RPM_STRING_ARRAY_TYPE \<equiv> 8"
abbreviation RPM_I18NSTRING_TYPE :: u32 where "RPM_I18NSTRING_TYPE \<equiv> 9"

abbreviation RPMTAG_HEADERIMAGE :: u32 where "RPMTAG_HEADERIMAGE \<equiv> 61"
abbreviation RPMTAG_HEADERSIGNATURES :: u32 where "RPMTAG_HEADERSIGNATURES \<equiv> 62"
abbreviation RPMTAG_HEADERIMMUTABLE :: u32 where "RPMTAG_HEADERIMMUTABLE \<equiv> 63"
abbreviation HEADER_I18NTABLE :: u32 where "HEADER_I18NTABLE \<equiv> 100"

abbreviation HEADER_TAGS_MAX :: u32 where "HEADER_TAGS_MAX \<equiv> 0x0000ffff"
abbreviation HEADER_ARRAY_MAX :: u32 where "HEADER_ARRAY_MAX \<equiv> 0x000fffff"
abbreviation HEADER_DATA_MAX :: u32 where "HEADER_DATA_MAX \<equiv> 0x0fffffff"
abbreviation headerMaxbytes :: u32 where "headerMaxbytes \<equiv> 0x10000000"

record entryInfo =
  ei_tag :: u32
  ei_type :: u32
  ei_offset :: u32
  ei_count :: u32

record hdrblob =
  bl_ei :: bytes
  bl_il :: u32
  bl_dl :: u32
  bl_pvlen :: u32
  bl_regionTag :: u32
  bl_ril :: u32
  bl_rdl :: u32

definition hdrchkTag :: "u32 \<Rightarrow> bool" where
  "hdrchkTag tag \<longleftrightarrow> tag < HEADER_I18NTABLE"

definition hdrchkCount :: "u32 \<Rightarrow> u32 \<Rightarrow> bool" where
  "hdrchkCount dl cnt \<longleftrightarrow> cnt < 1 \<or> cnt > dl"

definition hdrchkType :: "u32 \<Rightarrow> bool" where
  "hdrchkType type \<longleftrightarrow> type < 1 \<or> type > 9"

definition hdrchkArray :: "u32 \<Rightarrow> u32 \<Rightarrow> bool" where
  "hdrchkArray type cnt \<longleftrightarrow> type \<noteq> RPM_BIN_TYPE \<and> cnt AND NOT HEADER_ARRAY_MAX \<noteq> 0"

definition hdrchkAlign :: "u32 \<Rightarrow> u32 \<Rightarrow> bool" where
  "hdrchkAlign type off \<longleftrightarrow> off AND (of_nat (typeAlign ! unat type) - 1) \<noteq> 0"

text \<open>\<open>hdrchkRange\<close> with an \<open>int32_t\<close> offset and with an unsigned one.\<close>

definition hdrchkRange_signed :: "u32 \<Rightarrow> u32 \<Rightarrow> bool" where
  "hdrchkRange_signed dl off \<longleftrightarrow> sint off < 0 \<or> off > dl"

definition hdrchkRange :: "u32 \<Rightarrow> u32 \<Rightarrow> bool" where
  "hdrchkRange dl off \<longleftrightarrow> off > dl"

definition hdrchkTagType :: "(u32 \<Rightarrow> u32) \<Rightarrow> (u32 \<Rightarrow> bool) \<Rightarrow> u32 \<Rightarrow> u32 \<Rightarrow> bool" where
  "hdrchkTagType tagType isProgTag tag type =
     (let t = tagType tag in
      if t = type then False
      else if t = RPM_NULL_TYPE then False
      else if t = RPM_STRING_ARRAY_TYPE \<and> type = RPM_STRING_TYPE \<and> isProgTag tag then False
      else if type = RPM_STRING_TYPE \<and> t = RPM_I18NSTRING_TYPE then False
      else True)"

subsection \<open>Reading the blob\<close>

definition be32 :: "8 word \<Rightarrow> 8 word \<Rightarrow> 8 word \<Rightarrow> 8 word \<Rightarrow> u32" where
  "be32 a b c d = push_bit 24 (ucast a) OR push_bit 16 (ucast b) OR push_bit 8 (ucast c) OR ucast d"

definition read32 :: "bytes \<Rightarrow> int \<Rightarrow> hdr_error + u32" where
  "read32 bs p =
     (if 0 \<le> p \<and> p + 4 \<le> int (length bs)
      then let i = nat p in Inr (be32 (bs ! i) (bs ! (i + 1)) (bs ! (i + 2)) (bs ! (i + 3)))
      else Inl Overread)"

definition ei2h :: "bytes \<Rightarrow> int \<Rightarrow> hdr_error + entryInfo" where
  "ei2h bs p =
     rbind (read32 bs p) (\<lambda>tag.
     rbind (read32 bs (p + 4)) (\<lambda>type.
     rbind (read32 bs (p + 8)) (\<lambda>offset.
     rbind (read32 bs (p + 12)) (\<lambda>cnt.
       Inr \<lparr>ei_tag = tag, ei_type = type, ei_offset = offset, ei_count = cnt\<rparr>))))"

abbreviation pe_addr :: int where "pe_addr \<equiv> 8"

definition data_addr :: "hdrblob \<Rightarrow> int" where
  "data_addr blob = pe_addr + 16 * uint (bl_il blob)"

text \<open>The bytes from \<open>p\<close> up to \<open>pend\<close>, which a bounded scan may look at.\<close>

definition read_range :: "bytes \<Rightarrow> int \<Rightarrow> int \<Rightarrow> hdr_error + bytes" where
  "read_range bs p pend =
     (if pend \<le> p then Inr []
      else if 0 \<le> p \<and> pend \<le> int (length bs) then Inr (take (nat (pend - p)) (drop (nat p) bs))
      else Inl Overread)"

text \<open>\<open>strtaglen\<close> with a non-NULL \<open>end\<close>: the scan over the bytes before \<open>end\<close>, with the number of bytes
  already passed; \<open>--c == 0\<close> is \<open>c = 1\<close>.\<close>

fun strtaglen :: "bytes \<Rightarrow> u32 \<Rightarrow> nat \<Rightarrow> nat option" where
  "strtaglen [] c n = None"
| "strtaglen (b # bs) c n =
     (if b = 0 then (if c = 1 then Some (n + 1) else strtaglen bs (c - 1) (n + 1))
      else strtaglen bs c (n + 1))"

text \<open>\<open>dataLength\<close> of data on disk: \<open>p\<close> is the data up to \<open>pend\<close>. None is the result -1.\<close>

definition dataLength :: "u32 \<Rightarrow> bytes \<Rightarrow> u32 \<Rightarrow> u32 option" where
  "dataLength type p cnt =
     (if type = RPM_STRING_TYPE then
        (if cnt \<noteq> 1 then None else map_option of_nat (strtaglen p 1 0))
      else if type = RPM_STRING_ARRAY_TYPE \<or> type = RPM_I18NSTRING_TYPE then
        map_option of_nat (strtaglen p cnt 0)
      else if typeSizes ! unat type = -1 then None
      else
        let len = of_int (typeSizes ! unat (type AND 0xf)) * cnt in
        if length p < unat len then None else Some len)"

subsection \<open>Verification\<close>

definition hdrblobVerifyLengths :: "u32 \<Rightarrow> u32 \<Rightarrow> u32 \<Rightarrow> hdr_error + unit" where
  "hdrblobVerifyLengths regionTag il dl =
     (let sig = (regionTag = RPMTAG_HEADERSIGNATURES);
          il_max = (if sig then 32 else HEADER_TAGS_MAX);
          dl_max = (if sig then 64 * 1024 * 1024 else HEADER_DATA_MAX)
      in if hdrchkRange il_max il then Inl HdrTags
         else if hdrchkRange dl_max dl then Inl HdrData
         else Inr ())"

text \<open>\<open>einfo.offset + REGION_TAG_COUNT\<close> is computed as a \<open>size_t\<close>: a negative offset wraps around.\<close>

definition region_end :: "u32 \<Rightarrow> u64" where
  "region_end off = scast off + 16"

text \<open>The checks of the region trailer. Its offset is negated; the negation of the least \<open>int\<close> wraps around, which the
  option \<open>-fno-strict-overflow\<close> of CMakeLists.txt defines, and is then refused as too large (lemma
  \<open>verify_trailer_least\<close>). \<open>None\<close> in the result of \<open>hdrblobVerifyRegion\<close> is \<open>RPMRC_NOTFOUND\<close>.\<close>

definition verify_trailer :: "u32 \<Rightarrow> bool \<Rightarrow> hdrblob \<Rightarrow> entryInfo \<Rightarrow> hdr_error + hdrblob" where
  "verify_trailer regionTag exact_size blob einfo =
     (let off = - ei_offset einfo;
          tag = (if regionTag = RPMTAG_HEADERSIGNATURES \<and> ei_tag einfo = RPMTAG_HEADERIMAGE
                 then RPMTAG_HEADERSIGNATURES else ei_tag einfo)
      in if \<not> (tag = regionTag \<and> ei_type einfo = RPM_BIN_TYPE \<and> ei_count einfo = 16) then Inl RegionTrailer
         else
           let ril = ucast ((scast off :: u64) div 16); blob = blob\<lparr>bl_ril := ril\<rparr> in
           if (scast off :: u64) mod 16 \<noteq> 0 \<or> hdrchkRange (bl_il blob) ril
              \<or> hdrchkRange (bl_dl blob) (bl_rdl blob) then Inl RegionSize
           else if exact_size \<and> \<not> (bl_il blob = bl_ril blob \<and> bl_dl blob = bl_rdl blob) then Inl RegionMismatch
           else Inr (blob\<lparr>bl_regionTag := regionTag\<rparr>))"

definition hdrblobVerifyRegion :: "u32 \<Rightarrow> bool \<Rightarrow> hdrblob \<Rightarrow> hdr_error + hdrblob option" where
  "hdrblobVerifyRegion regionTag0 exact_size blob =
     (if bl_il blob < 1 then Inl RegionNoTags
      else rbind (ei2h (bl_ei blob) pe_addr) (\<lambda>einfo.
        let regionTag = (if regionTag0 = 0 \<and> (ei_tag einfo = RPMTAG_HEADERSIGNATURES
                            \<or> ei_tag einfo = RPMTAG_HEADERIMMUTABLE \<or> ei_tag einfo = RPMTAG_HEADERIMAGE)
                         then ei_tag einfo else regionTag0)
        in if ei_tag einfo \<noteq> regionTag then Inr None
           else if \<not> (ei_type einfo = RPM_BIN_TYPE \<and> ei_count einfo = 16) then Inl RegionTag
           else if region_end (ei_offset einfo) > ucast (bl_dl blob) then Inl RegionOffset
           else
             rbind (ei2h (bl_ei blob) (data_addr blob + sint (ei_offset einfo))) (\<lambda>trailer.
             rbind (verify_trailer regionTag exact_size
                 (blob\<lparr>bl_rdl := ucast (region_end (ei_offset einfo))\<rparr>) trailer) (\<lambda>blob. Inr (Some blob)))))"

text \<open>One round of the loop of \<open>hdrblobVerifyInfo\<close>: the checks of entry \<open>i\<close> (counted as the source counts
  it in its message) and the new end of the data.\<close>

definition verify_entry ::
    "(u32 \<Rightarrow> u32) \<Rightarrow> (u32 \<Rightarrow> bool) \<Rightarrow> hdrblob \<Rightarrow> nat \<Rightarrow> entryInfo \<Rightarrow> u32 \<Rightarrow> hdr_error + u32" where
  "verify_entry tagType isProgTag blob i info end0 =
     (let typechk = (bl_regionTag blob = RPMTAG_HEADERIMMUTABLE \<or> bl_regionTag blob = RPMTAG_HEADERIMAGE);
          off = ei_offset info
      in if end0 > off \<or> hdrchkTag (ei_tag info) \<or> hdrchkType (ei_type info)
            \<or> hdrchkCount (bl_dl blob) (ei_count info) \<or> hdrchkAlign (ei_type info) off
            \<or> hdrchkRange_signed (bl_dl blob) off \<or> hdrchkArray (ei_type info) (ei_count info)
            \<or> typechk \<and> hdrchkTagType tagType isProgTag (ei_tag info) (ei_type info)
         then Inl (TagBad i)
         else
           rbind (read_range (bl_ei blob) (data_addr blob + uint off) (data_addr blob + uint (bl_dl blob))) (\<lambda>p.
             case dataLength (ei_type info) p (ei_count info) of
               None \<Rightarrow> Inl (TagBad i)
             | Some len \<Rightarrow>
                 let end1 = off + len in
                 if hdrchkRange (bl_dl blob) end1 \<or> len = 0 then Inl (TagBad i)
                 else if bl_regionTag blob \<noteq> 0 \<and> (ucast end1 :: u64) > ucast (bl_rdl blob) - 16
                         \<and> off < bl_rdl blob then Inl (TagBad i)
                 else Inr end1))"

fun verify_loop ::
    "(u32 \<Rightarrow> u32) \<Rightarrow> (u32 \<Rightarrow> bool) \<Rightarrow> hdrblob \<Rightarrow> nat \<Rightarrow> nat \<Rightarrow> nat \<Rightarrow> u32 \<Rightarrow> hdr_error + unit" where
  "verify_loop tagType isProgTag blob first i 0 end0 = Inr ()"
| "verify_loop tagType isProgTag blob first i (Suc n) end0 =
     rbind (ei2h (bl_ei blob) (pe_addr + 16 * int (first + i))) (\<lambda>info.
     rbind (verify_entry tagType isProgTag blob i info end0) (\<lambda>end1.
       verify_loop tagType isProgTag blob first (Suc i) n end1))"

definition first_entry :: "hdrblob \<Rightarrow> nat" where
  "first_entry blob = (if bl_regionTag blob \<noteq> 0 then 1 else 0)"

definition hdrblobVerifyInfo :: "(u32 \<Rightarrow> u32) \<Rightarrow> (u32 \<Rightarrow> bool) \<Rightarrow> hdrblob \<Rightarrow> hdr_error + unit" where
  "hdrblobVerifyInfo tagType isProgTag blob =
     verify_loop tagType isProgTag blob (first_entry blob) 0 (unat (bl_il blob) - first_entry blob) 0"

text \<open>\<open>hdrblobInit\<close>: \<open>uh\<close> is the memory the caller passes, \<open>uc\<close> its size or 0 when it is not known.\<close>

definition hdrblobInit ::
    "(u32 \<Rightarrow> u32) \<Rightarrow> (u32 \<Rightarrow> bool) \<Rightarrow> bytes \<Rightarrow> nat \<Rightarrow> u32 \<Rightarrow> bool \<Rightarrow> hdr_error + hdrblob" where
  "hdrblobInit tagType isProgTag uh uc regionTag exact_size =
     (if uc \<noteq> 0 \<and> uc < 8 then Inl HdrLength
      else
        rbind (read32 uh 0) (\<lambda>il.
        rbind (read32 uh 4) (\<lambda>dl.
        rbind (hdrblobVerifyLengths regionTag il dl) (\<lambda>_.
          let pvlen = 8 + il * 16 + dl;
              blob = \<lparr>bl_ei = uh, bl_il = il, bl_dl = dl, bl_pvlen = pvlen,
                      bl_regionTag = 0, bl_ril = 0, bl_rdl = 0\<rparr>
          in if pvlen \<ge> headerMaxbytes \<or> uc \<noteq> 0 \<and> unat pvlen \<noteq> uc then Inl BlobSize
             else
               rbind (hdrblobVerifyRegion regionTag exact_size blob) (\<lambda>region.
               let blob = (case region of None \<Rightarrow> blob | Some b \<Rightarrow> b) in
               rbind (hdrblobVerifyInfo tagType isProgTag blob) (\<lambda>_. Inr blob))))))"

text \<open>Reading a header from a file, which is the list of the bytes that are left in it. \<open>Freadall\<close> gives
  all of the bytes or an error, and the file after them.\<close>

definition rpm_header_magic :: bytes where
  "rpm_header_magic = [0x8e, 0xad, 0xe8, 0x01, 0, 0, 0, 0]"

definition Freadall :: "bytes \<Rightarrow> nat \<Rightarrow> (bytes \<times> bytes) option" where
  "Freadall fd nb = (if nb \<le> length fd then Some (take nb fd, drop nb fd) else None)"

definition read_or :: "hdr_error \<Rightarrow> bytes \<Rightarrow> nat \<Rightarrow> hdr_error + (bytes \<times> bytes)" where
  "read_or err fd nb = (case Freadall fd nb of None \<Rightarrow> Inl err | Some r \<Rightarrow> Inr r)"

definition sig_pad :: "u32 \<Rightarrow> nat \<Rightarrow> nat" where
  "sig_pad regionTag uc =
     (if regionTag = RPMTAG_HEADERSIGNATURES then (8 - (uc + length rpm_header_magic) mod 8) mod 8 else 0)"

definition hdrblobRead ::
    "(u32 \<Rightarrow> u32) \<Rightarrow> (u32 \<Rightarrow> bool) \<Rightarrow> bytes \<Rightarrow> bool \<Rightarrow> bool \<Rightarrow> u32 \<Rightarrow> hdr_error + (hdrblob \<times> bytes)" where
  "hdrblobRead tagType isProgTag fd magic exact_size regionTag =
     rbind (read_or HdrSize fd (if magic then 16 else 8)) (\<lambda>(bs, fd).
     let block = (if magic then bs else replicate 8 0 @ bs) in
     if magic \<and> take 8 block \<noteq> rpm_header_magic then Inl HdrMagic
     else
       rbind (read32 block 8) (\<lambda>il.
       rbind (read32 block 12) (\<lambda>dl.
       rbind (hdrblobVerifyLengths regionTag il dl) (\<lambda>_.
         let nb = unat il * 16 + unat dl; uc = 8 + nb in
         rbind (read_or HdrBlobRead fd nb) (\<lambda>(data, fd).
         rbind (read_or SighPad fd (sig_pad regionTag uc)) (\<lambda>(_, fd).
         rbind (hdrblobInit tagType isProgTag (drop 8 block @ data) uc regionTag exact_size) (\<lambda>blob.
           Inr (blob, fd))))))))"

text \<open>The linear search for a tag; the result is the address of the entry.\<close>

fun find_entry :: "hdrblob \<Rightarrow> u32 \<Rightarrow> nat \<Rightarrow> nat \<Rightarrow> hdr_error + int option" where
  "find_entry blob tag i 0 = Inr None"
| "find_entry blob tag i (Suc n) =
     rbind (read32 (bl_ei blob) (pe_addr + 16 * int i)) (\<lambda>ntag.
       if ntag = tag then Inr (Some (pe_addr + 16 * int i)) else find_entry blob tag (Suc i) n)"

definition hdrblobFindEntry :: "hdrblob \<Rightarrow> u32 \<Rightarrow> hdr_error + int option" where
  "hdrblobFindEntry blob tag = find_entry blob tag 0 (unat (bl_il blob))"

definition hdrblobIsEntry :: "hdrblob \<Rightarrow> u32 \<Rightarrow> hdr_error + bool" where
  "hdrblobIsEntry blob tag = rbind (hdrblobFindEntry blob tag) (\<lambda>pe. Inr (pe \<noteq> None))"

subsection \<open>Reads stay inside the blob\<close>

definition blob_fits :: "hdrblob \<Rightarrow> bool" where
  "blob_fits blob \<longleftrightarrow> int (length (bl_ei blob)) = data_addr blob + uint (bl_dl blob) \<and>
     uint (bl_il blob) \<le> 0xffff \<and> uint (bl_dl blob) \<le> 0x0fffffff"

lemma read32_ok: "0 \<le> p \<Longrightarrow> p + 4 \<le> int (length bs) \<Longrightarrow> \<exists>w. read32 bs p = Inr w"
  by (simp add: read32_def Let_def)

lemma ei2h_ok:
  assumes "0 \<le> p" "p + 16 \<le> int (length bs)"
  shows "\<exists>info. ei2h bs p = Inr info"
proof -
  obtain a b c d where "read32 bs p = Inr a" "read32 bs (p + 4) = Inr b" "read32 bs (p + 8) = Inr c"
      "read32 bs (p + 12) = Inr d"
    using assms read32_ok [of p bs] read32_ok [of "p + 4" bs] read32_ok [of "p + 8" bs] read32_ok [of "p + 12" bs]
    by auto
  then show ?thesis by (simp add: ei2h_def)
qed

lemma region_end_bounds:
  assumes "region_end off \<le> ucast (dl :: u32)" "uint dl \<le> 0x0fffffff"
  shows "- 16 \<le> sint off" "sint off + 16 \<le> uint dl"
    "uint (ucast (region_end off) :: u32) = sint off + 16"
proof -
  have r: "- (2 ^ 31) \<le> sint off" "sint off < 2 ^ 31" using sint_ge [of off] sint_lt [of off] by simp_all
  have "uint (scast off :: u64) = sint off mod 2 ^ 64" unfolding scast_eq uint_word_of_int by simp
  moreover have "uint (scast off + 16 :: u64) = (uint (scast off :: u64) + 16) mod 2 ^ 64"
    unfolding uint_word_ariths(1) by simp
  ultimately have u: "uint (region_end off) = (sint off + 16) mod 2 ^ 64"
    unfolding region_end_def by (simp only: mod_add_left_eq)
  have le: "uint (region_end off) \<le> uint dl"
    using assms(1) by (simp add: word_le_def uint_up_ucast is_up)
  have ge: "- 16 \<le> sint off"
  proof (rule ccontr)
    assume "\<not> - 16 \<le> sint off"
    have "(sint off + 16) mod 2 ^ 64 = (sint off + 16 + 2 ^ 64) mod 2 ^ 64" by (simp only: mod_add_self2)
    also have "\<dots> = sint off + 16 + 2 ^ 64"
      using r \<open>\<not> - 16 \<le> sint off\<close> by (intro mod_pos_pos_trivial) auto
    finally have "(sint off + 16) mod 2 ^ 64 = sint off + 16 + 2 ^ 64" .
    with u le r assms(2) show False by simp
  qed
  moreover from ge r have "(sint off + 16) mod 2 ^ 64 = sint off + 16" by (intro mod_pos_pos_trivial) auto
  ultimately show "- 16 \<le> sint off" "sint off + 16 \<le> uint dl" using u le by simp_all
  then show "uint (ucast (region_end off) :: u32) = sint off + 16"
    using u \<open>(sint off + 16) mod 2 ^ 64 = sint off + 16\<close> assms(2)
    by (simp add: unsigned_ucast_eq take_bit_eq_mod)
qed

lemma verify_trailer_keeps:
  assumes "verify_trailer regionTag exact blob einfo = Inr blob'"
  shows "bl_ei blob' = bl_ei blob" "bl_il blob' = bl_il blob" "bl_dl blob' = bl_dl blob"
    "bl_pvlen blob' = bl_pvlen blob" "bl_rdl blob' = bl_rdl blob" "bl_regionTag blob' = regionTag"
    "bl_ril blob' \<le> bl_il blob" "bl_rdl blob \<le> bl_dl blob"
  using assms by (auto simp: verify_trailer_def Let_def hdrchkRange_def split: if_splits)

lemma verify_trailer_least:
  assumes "ei_offset einfo = 0x80000000" "bl_il blob \<le> 0xffff"
  shows "verify_trailer regionTag exact blob einfo \<in> {Inl RegionTrailer, Inl RegionSize}"
proof -
  have "1152921504472629248 = (0xF8000000 :: u32)" by code_simp
  then have "hdrchkRange (bl_il blob) 1152921504472629248"
    using assms(2) by (simp only: hdrchkRange_def) (simp add: word_le_nat_alt word_less_nat_alt)
  then show ?thesis using assms(1) by (simp add: verify_trailer_def Let_def)
qed

lemma verify_trailer_reads [simp]: "verify_trailer regionTag exact blob einfo \<noteq> Inl Overread"
  by (simp add: verify_trailer_def Let_def)

lemma verify_region_reads:
  assumes "blob_fits blob"
  shows "hdrblobVerifyRegion regionTag exact blob \<noteq> Inl Overread"
proof (cases "bl_il blob < 1")
  case False
  then have il: "1 \<le> uint (bl_il blob)" by (simp add: word_less_def)
  have len: "int (length (bl_ei blob)) = 8 + 16 * uint (bl_il blob) + uint (bl_dl blob)"
    using assms by (simp add: blob_fits_def data_addr_def)
  have dl: "uint (bl_dl blob) \<le> 0x0fffffff" using assms by (simp add: blob_fits_def)
  obtain einfo where einfo: "ei2h (bl_ei blob) pe_addr = Inr einfo"
    using ei2h_ok [of 8 "bl_ei blob"] il len uint_ge_0 [of "bl_dl blob"] by auto
  have "\<exists>trailer. ei2h (bl_ei blob) (data_addr blob + sint (ei_offset einfo)) = Inr trailer"
    if "\<not> region_end (ei_offset einfo) > ucast (bl_dl blob)"
  proof (rule ei2h_ok)
    have "region_end (ei_offset einfo) \<le> ucast (bl_dl blob)" using that by simp
    note b = region_end_bounds [OF this dl]
    show "0 \<le> data_addr blob + sint (ei_offset einfo)"
      "data_addr blob + sint (ei_offset einfo) + 16 \<le> int (length (bl_ei blob))"
      using b il len by (simp_all add: data_addr_def)
  qed
  then show ?thesis
    using False einfo by (auto simp: hdrblobVerifyRegion_def Let_def rbind_eq_Inl)
qed (simp add: hdrblobVerifyRegion_def)

lemma verify_region_keeps:
  assumes "hdrblobVerifyRegion regionTag exact blob = Inr (Some blob')" "blob_fits blob"
  shows "blob_fits blob'" "bl_ei blob' = bl_ei blob" "bl_il blob' = bl_il blob" "bl_dl blob' = bl_dl blob"
  using assms verify_trailer_keeps
  by (fastforce simp: hdrblobVerifyRegion_def Let_def rbind_eq_Inr blob_fits_def data_addr_def split: if_splits)+

lemma verify_entry_reads:
  assumes "blob_fits blob"
  shows "verify_entry tagType isProgTag blob i info end0 \<noteq> Inl Overread"
proof -
  have "\<exists>p. read_range (bl_ei blob) (data_addr blob + uint (ei_offset info)) (data_addr blob + uint (bl_dl blob)) = Inr p"
    using assms by (auto simp: read_range_def blob_fits_def data_addr_def)
  then show ?thesis by (auto simp: verify_entry_def Let_def rbind_eq_Inl split: option.splits)
qed

lemma le_unat: "n \<le> unat (w :: u32) \<Longrightarrow> int n \<le> uint w"
  by (simp only: uint_nat of_nat_le_iff)

lemma verify_loop_reads:
  "blob_fits blob \<Longrightarrow> first + i + n \<le> unat (bl_il blob) \<Longrightarrow>
   verify_loop tagType isProgTag blob first i n end0 \<noteq> Inl Overread"
proof (induction n arbitrary: i end0)
  case (Suc n)
  define k where "k = int (first + i)"
  have "0 \<le> k" "k + 1 \<le> uint (bl_il blob)"
    using le_unat [of "Suc (first + i)" "bl_il blob"] Suc.prems(2) by (simp_all add: k_def)
  moreover have "int (length (bl_ei blob)) = 8 + 16 * uint (bl_il blob) + uint (bl_dl blob)"
    using Suc.prems(1) by (simp add: blob_fits_def data_addr_def)
  ultimately have "\<exists>info. ei2h (bl_ei blob) (pe_addr + 16 * int (first + i)) = Inr info"
    using uint_ge_0 [of "bl_dl blob"] unfolding k_def [symmetric] by (intro ei2h_ok) linarith+
  with Suc verify_entry_reads [OF Suc.prems(1)] show ?case by (auto simp: rbind_eq_Inl)
qed simp

lemma init_fits:
  assumes "read32 uh 0 = Inr il" "read32 uh 4 = Inr dl" "hdrblobVerifyLengths regionTag il dl = Inr ()"
    "unat (8 + il * 16 + dl) = length uh"
  shows "blob_fits \<lparr>bl_ei = uh, bl_il = il, bl_dl = dl, bl_pvlen = pv, bl_regionTag = a, bl_ril = b, bl_rdl = c\<rparr>"
proof -
  have "uint il \<le> (if regionTag = RPMTAG_HEADERSIGNATURES then 32 else 0xffff)"
    "uint dl \<le> (if regionTag = RPMTAG_HEADERSIGNATURES then 67108864 else 0x0fffffff)"
    using assms(3) by (simp_all add: hdrblobVerifyLengths_def Let_def hdrchkRange_def not_less word_le_def
        split: if_splits)
  then have b: "uint il \<le> 0xffff" "uint dl \<le> 0x0fffffff" by (simp_all split: if_splits)
  then have "uint (8 + il * 16 + dl) = 8 + uint il * 16 + uint dl"
    by (simp add: uint_word_ariths)
  then have "int (length uh) = 8 + 16 * uint il + uint dl" using assms(4) by (metis mult.commute uint_nat)
  with b show ?thesis by (simp add: blob_fits_def data_addr_def)
qed

lemma first_entry_le:
  "hdrblobVerifyRegion regionTag exact blob = Inr (Some blob') \<Longrightarrow> first_entry blob' \<le> unat (bl_il blob)"
  by (auto simp: hdrblobVerifyRegion_def first_entry_def word_less_nat_alt split: if_splits)

lemma init_reads:
  assumes "uc = length uh" "uc \<noteq> 0"
  shows "hdrblobInit tagType isProgTag uh uc regionTag exact_size \<noteq> Inl Overread"
proof (cases "uc < 8")
  case False
  obtain il dl where il: "read32 uh 0 = Inr il" and dl: "read32 uh 4 = Inr dl"
    using read32_ok [of 0 uh] read32_ok [of 4 uh] False assms by auto
  let ?pv = "8 + il * 16 + dl"
  let ?blob = "\<lparr>bl_ei = uh, bl_il = il, bl_dl = dl, bl_pvlen = ?pv, bl_regionTag = 0, bl_ril = 0, bl_rdl = 0\<rparr>"
  show ?thesis
  proof (cases "hdrblobVerifyLengths regionTag il dl = Inr () \<and> unat ?pv = uc \<and> \<not> ?pv \<ge> headerMaxbytes")
    case True
    then have fits: "blob_fits ?blob" using assms by (intro init_fits [OF il dl, of regionTag]) simp_all
    have info: "hdrblobVerifyInfo tagType isProgTag b \<noteq> Inl Overread"
      if "b = ?blob \<or> hdrblobVerifyRegion regionTag exact_size ?blob = Inr (Some b)" for b
    proof -
      have "blob_fits b" "first_entry b \<le> unat (bl_il b)"
        using that fits verify_region_keeps [OF _ fits] first_entry_le [of regionTag exact_size ?blob b]
        by (auto simp: first_entry_def)
      then show ?thesis unfolding hdrblobVerifyInfo_def by (intro verify_loop_reads) simp_all
    qed
    show ?thesis
      using False True il dl info verify_region_reads [OF fits, of regionTag exact_size]
      by (auto simp: hdrblobInit_def Let_def rbind_eq_Inl split: option.splits)
  next
    case rejected: False
    show ?thesis
      using False rejected il dl assms
      by (auto simp: hdrblobInit_def Let_def rbind_eq_Inl hdrblobVerifyLengths_def split: if_splits)
  qed
qed (use assms in \<open>simp add: hdrblobInit_def\<close>)



text \<open>A successful read has taken the magic, the header and the padding off the file.\<close>

lemma read_or_Inr: "read_or err fd n = Inr (xs, fd') \<longleftrightarrow> n = length xs \<and> fd = xs @ fd'"
  by (auto simp: read_or_def Freadall_def)

lemma read_or_reads [simp]: "read_or err fd n = Inl Overread \<longleftrightarrow> err = Overread \<and> length fd < n"
  by (auto simp: read_or_def Freadall_def)

lemma lengths_reads [simp]: "hdrblobVerifyLengths regionTag il dl \<noteq> Inl Overread"
  by (simp add: hdrblobVerifyLengths_def Let_def)

lemma region_ei: "hdrblobVerifyRegion regionTag exact blob = Inr (Some blob') \<Longrightarrow> bl_ei blob' = bl_ei blob"
  by (auto simp: hdrblobVerifyRegion_def Let_def rbind_eq_Inr dest!: verify_trailer_keeps(1) split: if_splits)

definition fresh_blob :: "bytes \<Rightarrow> u32 \<Rightarrow> u32 \<Rightarrow> hdrblob" where
  "fresh_blob uh il dl =
     \<lparr>bl_ei = uh, bl_il = il, bl_dl = dl, bl_pvlen = 8 + il * 16 + dl, bl_regionTag = 0, bl_ril = 0, bl_rdl = 0\<rparr>"

lemma init_cases:
  assumes "hdrblobInit tagType isProgTag uh uc regionTag exact_size = Inr blob"
  obtains il dl where "read32 uh 0 = Inr il" "read32 uh 4 = Inr dl"
    "hdrblobVerifyLengths regionTag il dl = Inr ()" "uc \<noteq> 0 \<longrightarrow> unat (8 + il * 16 + dl) = uc"
    "blob = fresh_blob uh il dl \<or>
     hdrblobVerifyRegion regionTag exact_size (fresh_blob uh il dl) = Inr (Some blob)"
    "hdrblobVerifyInfo tagType isProgTag blob = Inr ()"
  using assms unfolding hdrblobInit_def Let_def rbind_eq_Inr fresh_blob_def [symmetric]
  by (cases "uc \<noteq> 0 \<and> uc < 8") (auto simp: rbind_eq_Inr split: if_splits option.splits)

lemma init_ei:
  assumes "hdrblobInit tagType isProgTag uh uc regionTag exact_size = Inr blob"
  shows "bl_ei blob = uh"
  using assms
proof (cases rule: init_cases)
  case (1 il dl)
  from 1(5) show ?thesis by (auto simp: fresh_blob_def dest: region_ei)
qed

lemma sig_pad_dvd: "8 dvd n + sig_pad RPMTAG_HEADERSIGNATURES n"
proof (cases "n mod 8 = 0")
  case False
  then have "n + (8 - n mod 8) mod 8 = n + (8 - n mod 8)" by simp
  also have "\<dots> = 8 * (n div 8 + 1)" by presburger
  finally show ?thesis by (simp add: sig_pad_def rpm_header_magic_def)
qed (simp add: sig_pad_def rpm_header_magic_def mod_eq_0_iff_dvd)

lemma hdrblobRead_cases:
  assumes "hdrblobRead tagType isProgTag fd magic exact_size regionTag = Inr (blob, rest)"
  obtains bs data pad uc where "fd = bs @ data @ pad @ rest"
    "length bs = (if magic then 16 else 8)" "magic \<longrightarrow> take 8 bs = rpm_header_magic"
    "uc = 8 + length data" "length pad = sig_pad regionTag uc"
    "hdrblobInit tagType isProgTag ((if magic then drop 8 bs else bs) @ data) uc regionTag exact_size = Inr blob"
proof -
  from assms obtain bs fd1 where bs: "fd = bs @ fd1" "length bs = (if magic then 16 else 8)"
    by (auto simp: hdrblobRead_def rbind_eq_Inr read_or_Inr)
  let ?block = "if magic then bs else replicate 8 0 @ bs"
  have "read_or HdrSize fd (if magic then 16 else 8) = Inr (bs, fd1)" using bs by (simp add: read_or_Inr)
  then obtain nb data fd2 pad where "magic \<longrightarrow> take 8 ?block = rpm_header_magic"
      and data: "read_or HdrBlobRead fd1 nb = Inr (data, fd2)"
      and pad: "read_or SighPad fd2 (sig_pad regionTag (8 + nb)) = Inr (pad, rest)"
      and "hdrblobInit tagType isProgTag (drop 8 ?block @ data) (8 + nb) regionTag exact_size = Inr blob"
    using assms unfolding hdrblobRead_def Let_def
    by (fastforce simp: rbind_eq_Inr split: if_splits)
  moreover have "drop 8 ?block = (if magic then drop 8 bs else bs)" by simp
  moreover have "fd1 = data @ pad @ rest" "nb = length data" "length pad = sig_pad regionTag (8 + nb)"
    using data pad by (simp_all add: read_or_Inr)
  ultimately show thesis using bs that [of bs data pad "8 + nb"] by auto
qed

lemma hdrblobRead_reads: "hdrblobRead tagType isProgTag fd magic exact_size regionTag \<noteq> Inl Overread"
proof -
  have init: "hdrblobInit tagType isProgTag (block @ data) (8 + n) regionTag exact_size \<noteq> Inl Overread"
    if "length block = 8" "length data = n" for block data n
    using that by (intro init_reads) simp_all
  have "read32 block 8 \<noteq> Inl Overread" "read32 block 12 \<noteq> Inl Overread" if "length block = 16" for block
    using that by (simp_all add: read32_def Let_def)
  then show ?thesis
    by (auto simp: hdrblobRead_def Let_def rbind_eq_Inl read_or_Inr init split: if_splits)
qed

text \<open> C31: Reading a header from a file never reads outside of the buffers it fills, whatever the file
  holds. A successful read has taken from the file exactly the magic (where it is asked for), a header that
  \<open>hdrblobInit\<close> accepts with its exact size and, for a signature header, the padding to a multiple of 8
  bytes.\<close>

theorem hdrblobRead_spec:
  "hdrblobRead tagType isProgTag fd magic exact_size regionTag \<noteq> Inl Overread \<and>
   (\<forall>blob rest. hdrblobRead tagType isProgTag fd magic exact_size regionTag = Inr (blob, rest) \<longrightarrow>
     (\<exists>pad. fd = (if magic then rpm_header_magic else []) @ bl_ei blob @ pad @ rest \<and>
        hdrblobInit tagType isProgTag (bl_ei blob) (length (bl_ei blob)) regionTag exact_size = Inr blob \<and>
        length pad < 8 \<and>
        (if regionTag = RPMTAG_HEADERSIGNATURES then 8 dvd length (bl_ei blob) + length pad else pad = [])))"
proof (intro conjI allI impI hdrblobRead_reads)
  fix blob rest
  assume "hdrblobRead tagType isProgTag fd magic exact_size regionTag = Inr (blob, rest)"
  then obtain bs data pad uc where fd: "fd = bs @ data @ pad @ rest"
      and bs: "length bs = (if magic then 16 else 8)" "magic \<longrightarrow> take 8 bs = rpm_header_magic"
      and uc: "uc = 8 + length data" and pad: "length pad = sig_pad regionTag uc"
      and init: "hdrblobInit tagType isProgTag ((if magic then drop 8 bs else bs) @ data) uc regionTag exact_size = Inr blob"
    by (rule hdrblobRead_cases)
  define ei where "ei = (if magic then drop 8 bs else bs) @ data"
  have ei: "bl_ei blob = ei" "uc = length ei" using init_ei [OF init] uc bs(1) by (simp_all add: ei_def)
  have magic: "rpm_header_magic @ drop 8 bs @ ys = bs @ ys" if magic for ys
    using bs(2) that append_take_drop_id [of 8 bs] by (metis append_assoc)
  have "fd = (if magic then rpm_header_magic else []) @ ei @ pad @ rest"
    using fd magic by (cases magic) (simp_all add: ei_def)
  moreover have "8 dvd length ei + length pad" if "regionTag = RPMTAG_HEADERSIGNATURES"
    using sig_pad_dvd [of uc] pad that ei(2) by simp
  moreover have "length pad < 8" "regionTag \<noteq> RPMTAG_HEADERSIGNATURES \<longrightarrow> pad = []"
    using pad by (auto simp: sig_pad_def)
  ultimately show "\<exists>pad. fd = (if magic then rpm_header_magic else []) @ bl_ei blob @ pad @ rest \<and>
        hdrblobInit tagType isProgTag (bl_ei blob) (length (bl_ei blob)) regionTag exact_size = Inr blob \<and>
        length pad < 8 \<and>
        (if regionTag = RPMTAG_HEADERSIGNATURES then 8 dvd length (bl_ei blob) + length pad else pad = [])"
    using init unfolding ei ei_def [symmetric] by (intro exI [of _ pad]) (simp split: if_splits)
qed

subsection \<open>What an accepted header looks like\<close>

lemma strtaglen_spec:
  "strtaglen p c n = Some m \<Longrightarrow> c \<noteq> 0 \<Longrightarrow>
   \<exists>k < length p. m = n + Suc k \<and> p ! k = 0 \<and> count_list (take (Suc k) p) 0 = unat c"
proof (induction p arbitrary: c n)
  case (Cons b bs)
  consider "b = 0 \<and> c = 1" | "b = 0" "c \<noteq> 1" | "b \<noteq> 0" by blast
  then show ?case
  proof cases
    case 1
    then show ?thesis using Cons.prems(1) by (intro exI [of _ 0]) simp
  next
    case 2
    then have "strtaglen bs (c - 1) (n + 1) = Some m" using Cons.prems(1) by simp
    moreover have "c - 1 \<noteq> 0" using 2(2) by simp
    ultimately obtain k where k: "k < length bs" "m = n + 1 + Suc k" "bs ! k = 0"
        "count_list (take (Suc k) bs) 0 = unat (c - 1)"
      using Cons.IH by blast
    have "unat c = Suc (unat (c - 1))" using unat_minus_one [OF Cons.prems(2)] unat_gt_0 [of c] Cons.prems(2) by linarith
    with k 2(1) show ?thesis by (intro exI [of _ "Suc k"]) (simp only: take_Suc_Cons count_list.simps, simp)
  next
    case 3
    then have "strtaglen bs c (n + 1) = Some m" using Cons.prems(1) by simp
    then obtain k where k: "k < length bs" "m = n + 1 + Suc k" "bs ! k = 0"
        "count_list (take (Suc k) bs) 0 = unat c"
      using Cons.IH Cons.prems(2) by blast
    with 3 show ?thesis by (intro exI [of _ "Suc k"]) (simp only: take_Suc_Cons count_list.simps, simp)
  qed
qed simp

text \<open>The entries after the region entry, with the lengths \<open>dataLength\<close> gives them.\<close>

definition entry_bytes :: "hdrblob \<Rightarrow> entryInfo \<Rightarrow> bytes" where
  "entry_bytes blob info =
     take (unat (bl_dl blob) - unat (ei_offset info)) (drop (nat (data_addr blob) + unat (ei_offset info)) (bl_ei blob))"

definition entry_ok :: "hdrblob \<Rightarrow> entryInfo \<Rightarrow> u32 \<Rightarrow> bool" where
  "entry_ok blob info len \<longleftrightarrow>
     HEADER_I18NTABLE \<le> ei_tag info \<and> ei_type info \<noteq> 0 \<and> ei_type info \<le> 9 \<and> ei_count info \<noteq> 0 \<and>
     \<not> hdrchkAlign (ei_type info) (ei_offset info) \<and>
     dataLength (ei_type info) (entry_bytes blob info) (ei_count info) = Some len \<and> 0 < len \<and>
     unat (ei_offset info) + unat len \<le> unat (bl_dl blob) \<and>
     (bl_regionTag blob \<noteq> 0 \<and> 16 \<le> unat (bl_rdl blob) \<longrightarrow>
        unat (ei_offset info) + unat len \<le> unat (bl_rdl blob) - 16 \<or> unat (bl_rdl blob) \<le> unat (ei_offset info))"

lemma u32_less: "unat (w :: u32) < 2 ^ 32"
  using unsigned_less [of w, where ?'a = nat] by simp

lemma unat_ucast64: "unat (ucast (w :: u32) :: u64) = unat w"
proof -
  have "uint (ucast w :: u64) = uint w" by (simp add: uint_up_ucast is_up)
  then show ?thesis by (simp only: unat_eq_nat_uint)
qed

lemma nat_uint: "nat (uint w) = unat w"
  by (rule unat_eq_nat_uint [symmetric])

lemma read_range_entry:
  assumes "blob_fits blob" "uint (ei_offset info) \<le> uint (bl_dl blob)"
  shows "read_range (bl_ei blob) (data_addr blob + uint (ei_offset info)) (data_addr blob + uint (bl_dl blob)) =
     Inr (entry_bytes blob info)"
proof -
  let ?d = "data_addr blob" and ?o = "uint (ei_offset info)" and ?l = "uint (bl_dl blob)"
  have d: "0 \<le> ?d" unfolding data_addr_def by simp
  have "nat (?d + ?o) = nat ?d + unat (ei_offset info)"
    using d by (simp only: nat_add_distrib uint_ge_0 nat_uint)
  moreover have "nat (?d + ?l - (?d + ?o)) = unat (bl_dl blob) - unat (ei_offset info)"
    by (simp only: add_diff_cancel_left nat_diff_distrib' uint_ge_0 nat_uint)
  moreover have "?d + ?l = int (length (bl_ei blob))" using assms(1) by (simp add: blob_fits_def)
  ultimately show ?thesis
    using d assms(2) by (auto simp: read_range_def entry_bytes_def)
qed

lemma entry_bytes_length:
  assumes "blob_fits blob" "unat (ei_offset info) \<le> unat (bl_dl blob)"
  shows "length (entry_bytes blob info) = unat (bl_dl blob) - unat (ei_offset info)"
proof -
  have "0 \<le> data_addr blob" unfolding data_addr_def by simp
  moreover have "int (length (bl_ei blob)) = data_addr blob + uint (bl_dl blob)" using assms(1) by (simp add: blob_fits_def)
  ultimately have "length (bl_ei blob) = nat (data_addr blob) + unat (bl_dl blob)"
    by (metis nat_add_distrib nat_int nat_uint uint_ge_0)
  then show ?thesis by (simp add: entry_bytes_def)
qed

lemma dataLength_le:
  assumes "dataLength type p cnt = Some len" "cnt \<noteq> 0" "length p < 2 ^ 32"
  shows "unat len \<le> length p"
proof -
  have str: "unat (of_nat n :: u32) \<le> length p" if "strtaglen p c 0 = Some n" "c \<noteq> 0" for n c
  proof -
    have "n \<le> length p" using strtaglen_spec [OF that] by auto
    then show ?thesis by (simp add: unat_of_nat)
  qed
  show ?thesis
    using assms(1,2) str by (auto simp: dataLength_def Let_def split: if_splits)
qed

lemma verify_entry_ok:
  assumes "verify_entry tagType isProgTag blob i info end0 = Inr end1" "blob_fits blob"
  obtains len where "entry_ok blob info len" "unat end0 \<le> unat (ei_offset info)"
    "unat end1 = unat (ei_offset info) + unat len"
proof -
  let ?off = "ei_offset info"
  from assms(1) have chk: "\<not> end0 > ?off" "\<not> hdrchkTag (ei_tag info)" "\<not> hdrchkType (ei_type info)"
      "\<not> hdrchkCount (bl_dl blob) (ei_count info)" "\<not> hdrchkRange_signed (bl_dl blob) ?off"
      "\<not> hdrchkAlign (ei_type info) ?off"
    by (auto simp: verify_entry_def Let_def split: if_splits)
  then have off: "unat ?off \<le> unat (bl_dl blob)" by (simp add: hdrchkRange_signed_def not_less word_le_nat_alt)
  then have "uint ?off \<le> uint (bl_dl blob)" by (simp only: word_le_nat_alt [symmetric] word_le_def [symmetric])
  note bytes = read_range_entry [OF assms(2) this]
  from assms(1) bytes obtain len where len: "dataLength (ei_type info) (entry_bytes blob info) (ei_count info) = Some len"
      "end1 = ?off + len" "len \<noteq> 0"
      "\<not> (bl_regionTag blob \<noteq> 0 \<and> (ucast (?off + len) :: u64) > ucast (bl_rdl blob) - 16 \<and> ?off < bl_rdl blob)"
    by (auto simp: verify_entry_def Let_def split: if_splits option.splits)
  have cnt: "ei_count info \<noteq> 0" using chk(4) by (auto simp: hdrchkCount_def)
  note blen = entry_bytes_length [OF assms(2) off]
  have "unat len \<le> length (entry_bytes blob info)"
    by (rule dataLength_le [OF len(1) cnt]) (use blen u32_less [of "bl_dl blob"] in simp)
  then have fit: "unat ?off + unat len \<le> unat (bl_dl blob)" using blen off by simp
  then have sum: "unat (?off + len) = unat ?off + unat len"
    using u32_less [of "bl_dl blob"] by (intro unat_add_lem [THEN iffD1]) simp
  have "unat ?off + unat len \<le> unat (bl_rdl blob) - 16 \<or> unat (bl_rdl blob) \<le> unat ?off"
    if "bl_regionTag blob \<noteq> 0" "16 \<le> unat (bl_rdl blob)"
  proof -
    have "(16 :: u64) \<le> ucast (bl_rdl blob)" using that(2) by (simp add: word_le_nat_alt unat_ucast64)
    then have "unat (ucast (bl_rdl blob) - 16 :: u64) = unat (bl_rdl blob) - 16"
      by (simp add: unat_sub unat_ucast64)
    then show ?thesis
      using len(4) that sum by (auto simp: word_less_nat_alt unat_ucast64 not_less)
  qed
  moreover have "HEADER_I18NTABLE \<le> ei_tag info" "ei_type info \<noteq> 0" "ei_type info \<le> 9"
    using chk by (auto simp: hdrchkTag_def hdrchkType_def not_less)
  moreover have "0 < len" using len(3) by (simp add: word_neq_0_conv)
  ultimately have "entry_ok blob info len" using len(1) fit cnt chk(6) by (auto simp: entry_ok_def)
  moreover have "unat end0 \<le> unat ?off" using chk(1) by (simp add: not_less word_le_nat_alt)
  ultimately show ?thesis using that sum len(2) by simp
qed

definition entry_at :: "hdrblob \<Rightarrow> nat \<Rightarrow> hdr_error + entryInfo" where
  "entry_at blob i = ei2h (bl_ei blob) (pe_addr + 16 * int i)"

text \<open>The list pairs each entry with the length of its data; the data follow each other.\<close>

definition entries_ok :: "hdrblob \<Rightarrow> (entryInfo \<times> u32) list \<Rightarrow> bool" where
  "entries_ok blob xs \<longleftrightarrow>
     (\<forall>(info, len) \<in> set xs. entry_ok blob info len) \<and>
     sorted_wrt (\<lambda>(a, m) (b, n). unat (ei_offset a) + unat m \<le> unat (ei_offset b)) xs"

lemma verify_loop_ok:
  assumes "verify_loop tagType isProgTag blob first i n end0 = Inr ()" "blob_fits blob"
  shows "\<exists>xs. map (entry_at blob) [first + i ..< first + i + n] = map (Inr \<circ> fst) xs \<and> entries_ok blob xs \<and>
    (\<forall>(info, len) \<in> set xs. unat end0 \<le> unat (ei_offset info))"
  using assms(1)
proof (induction n arbitrary: i end0)
  case 0
  then show ?case by (intro exI [of _ "[]"]) (simp add: entries_ok_def)
next
  case (Suc n)
  then obtain info end1 where info: "entry_at blob (first + i) = Inr info"
      and entry: "verify_entry tagType isProgTag blob i info end0 = Inr end1"
      and rest: "verify_loop tagType isProgTag blob first (Suc i) n end1 = Inr ()"
    by (auto simp: rbind_eq_Inr entry_at_def)
  from entry assms(2) obtain len where len: "entry_ok blob info len" "unat end0 \<le> unat (ei_offset info)"
      "unat end1 = unat (ei_offset info) + unat len"
    by (rule verify_entry_ok)
  from Suc.IH [OF rest] obtain xs where
      xs: "map (entry_at blob) [first + Suc i ..< first + Suc i + n] = map (Inr \<circ> fst) xs"
        "entries_ok blob xs" "\<forall>(info, len) \<in> set xs. unat end1 \<le> unat (ei_offset info)"
    by blast
  have "[first + i ..< first + i + Suc n] = (first + i) # [first + Suc i ..< first + Suc i + n]"
    by (simp add: upt_conv_Cons)
  with info xs(1) have "map (entry_at blob) [first + i ..< first + i + Suc n] = map (Inr \<circ> fst) ((info, len) # xs)"
    by simp
  moreover have "entries_ok blob ((info, len) # xs)"
    using len(1,3) xs(2,3) by (auto simp: entries_ok_def)
  moreover have "\<forall>(info', len') \<in> set ((info, len) # xs). unat end0 \<le> unat (ei_offset info')"
    using len(2,3) xs(3) by auto
  ultimately show ?case by blast
qed

text \<open> C3: An accepted header of known size holds exactly its index and its data area, and every entry
  after the region's is well formed: a tag that is not a private one, a known type, a positive count, an
  aligned offset and data of the length its type and count say that lie inside of the data area and not
  across the end of the region; the data of the entries are in order and do not overlap.\<close>

theorem hdrblobInit_wellformed:
  assumes "hdrblobInit tagType isProgTag uh uc regionTag exact_size = Inr blob" "uc = length uh" "uc \<noteq> 0"
  shows "bl_ei blob = uh \<and> length uh = 8 + 16 * unat (bl_il blob) + unat (bl_dl blob) \<and>
    (\<exists>xs. map (entry_at blob) [first_entry blob ..< unat (bl_il blob)] = map (Inr \<circ> fst) xs \<and> entries_ok blob xs)"
proof -
  from assms(1) show ?thesis
  proof (cases rule: init_cases)
    case (1 il dl)
    then have fits0: "blob_fits (fresh_blob uh il dl)"
      using assms(2,3) unfolding fresh_blob_def by (intro init_fits) auto
    have keep: "blob_fits blob" "first_entry blob \<le> unat (bl_il blob)"
      using 1(5) fits0 verify_region_keeps [OF _ fits0, of regionTag exact_size blob]
        first_entry_le [of regionTag exact_size "fresh_blob uh il dl" blob]
      by (auto simp: first_entry_def fresh_blob_def)
    have ei: "bl_ei blob = uh" using assms(1) by (rule init_ei)
    have "int (length uh) = int (8 + 16 * unat (bl_il blob) + unat (bl_dl blob))"
      using keep(1) ei by (simp add: blob_fits_def data_addr_def)
    moreover have "\<exists>xs. map (entry_at blob) [first_entry blob + 0 ..< first_entry blob + 0 +
        (unat (bl_il blob) - first_entry blob)] = map (Inr \<circ> fst) xs \<and> entries_ok blob xs"
      using verify_loop_ok [OF 1(6) [unfolded hdrblobVerifyInfo_def] keep(1)] by blast
    ultimately show ?thesis using ei keep(2) by (simp only: of_nat_eq_iff) simp
  qed
qed

text \<open>A header with the region entry, one string and the region trailer.\<close>

definition demo_blob :: bytes where
  "demo_blob =
     [0, 0, 0, 2, 0, 0, 0, 19,
      0, 0, 0, 63, 0, 0, 0, 7, 0, 0, 0, 3, 0, 0, 0, 16,
      0, 0, 3, 232, 0, 0, 0, 6, 0, 0, 0, 0, 0, 0, 0, 1,
      104, 105, 0,
      0, 0, 0, 63, 0, 0, 0, 7, 255, 255, 255, 224, 0, 0, 0, 16]"

lemma demo_blob_init:
  "hdrblobInit (\<lambda>_. 0) (\<lambda>_. False) demo_blob (length demo_blob) RPMTAG_HEADERIMMUTABLE True =
     Inr \<lparr>bl_ei = demo_blob, bl_il = 2, bl_dl = 19, bl_pvlen = 59, bl_regionTag = 63, bl_ril = 2, bl_rdl = 19\<rparr>"
  by code_simp

theorem hdrblobInit_wellformed_witness:
  "\<exists>blob. hdrblobInit (\<lambda>_. 0) (\<lambda>_. False) demo_blob (length demo_blob) RPMTAG_HEADERIMMUTABLE True = Inr blob \<and>
     length demo_blob = 8 + 16 * unat (bl_il blob) + unat (bl_dl blob) \<and>
     (\<exists>xs. map (entry_at blob) [first_entry blob ..< unat (bl_il blob)] = map (Inr \<circ> fst) xs \<and> entries_ok blob xs)"
  using hdrblobInit_wellformed [OF demo_blob_init refl] demo_blob_init by (auto simp: demo_blob_def)

theorem hdrblobRead_spec_witness:
  "\<exists>pad blob. rpm_header_magic @ demo_blob = rpm_header_magic @ bl_ei blob @ pad \<and> length pad < 8 \<and>
     hdrblobInit (\<lambda>_. 0) (\<lambda>_. False) (bl_ei blob) (length (bl_ei blob)) RPMTAG_HEADERIMMUTABLE True = Inr blob"
proof -
  have "hdrblobRead (\<lambda>_. 0) (\<lambda>_. False) (rpm_header_magic @ demo_blob) True True RPMTAG_HEADERIMMUTABLE =
     Inr (\<lparr>bl_ei = demo_blob, bl_il = 2, bl_dl = 19, bl_pvlen = 59, bl_regionTag = 63, bl_ril = 2, bl_rdl = 19\<rparr>, [])"
    by code_simp
  with hdrblobRead_spec [of "\<lambda>_. 0" "\<lambda>_. False" "rpm_header_magic @ demo_blob" True True RPMTAG_HEADERIMMUTABLE]
  show ?thesis by (metis append_Nil2)
qed

text \<open>The check of the region's offset lets through a trailer that is not within the data area: the sum is
  computed as a \<open>size_t\<close>, so an offset of -16 passes and the last entry of the index is read as the
  trailer.\<close>

definition negative_offset_blob :: bytes where
  "negative_offset_blob =
     [0, 0, 0, 1, 0, 0, 0, 0,
      0, 0, 0, 63, 0, 0, 0, 7, 255, 255, 255, 240, 0, 0, 0, 16]"

lemma region_offset_negative:
  "hdrblobInit (\<lambda>_. 0) (\<lambda>_. False) negative_offset_blob (length negative_offset_blob) RPMTAG_HEADERIMMUTABLE False =
     Inr \<lparr>bl_ei = negative_offset_blob, bl_il = 1, bl_dl = 0, bl_pvlen = 24, bl_regionTag = 63, bl_ril = 1, bl_rdl = 0\<rparr>"
  by code_simp

end
