(* ===== verification/Rpmtd.thy ===== *)
theory Rpmtd
  imports Hdrblob Strpool Argv
begin

text \<open>
  The tag data container of lib/rpmtd.cc. Its data is what the pointer leads to: the bytes of an array of
  numbers in the byte order of the (little endian) machine, one string, or an array of string pointers.
  A read outside of the array or through a pointer that was never set is an error of the model, so that
  a theorem about the result of a call also says that the call reads valid memory only. The tables of
  tag types and return types are generated from the tag list and are parameters.
\<close>

datatype td_error = TdOverread | TdWild

text \<open>An indeterminate string pointer is \<open>None\<close>; \<open>TdDangling\<close> is the address of a variable that is gone.\<close>

datatype tddata = TdNull | TdBytes bytes | TdString cstr | TdStrings "cstr option list" | TdDangling

record rpmtd =
  td_tag :: u32
  td_type :: u32
  td_count :: u32
  td_data :: tddata
  td_flags :: u32
  td_ix :: int
  td_size :: u32

abbreviation RPMTD_ALLOCED :: u32 where "RPMTD_ALLOCED \<equiv> 1"
abbreviation RPMTD_PTR_ALLOCED :: u32 where "RPMTD_PTR_ALLOCED \<equiv> 2"
abbreviation RPMTD_IMMUTABLE :: u32 where "RPMTD_IMMUTABLE \<equiv> 4"
abbreviation RPMTD_ARGV :: u32 where "RPMTD_ARGV \<equiv> 8"
abbreviation RPMTD_INVALID :: u32 where "RPMTD_INVALID \<equiv> 16"

abbreviation RPM_ARRAY_RETURN_TYPE :: u32 where "RPM_ARRAY_RETURN_TYPE \<equiv> 0x00020000"

subsection \<open>Numbers in memory\<close>

definition le_value :: "bytes \<Rightarrow> nat" where
  "le_value bs = foldr (\<lambda>b n. unat b + 256 * n) bs 0"

fun le_bytes :: "nat \<Rightarrow> nat \<Rightarrow> bytes" where
  "le_bytes 0 n = []"
| "le_bytes (Suc k) n = of_nat (n mod 256) # le_bytes k (n div 256)"

text \<open>Element \<open>i\<close> of an array of \<open>k\<close>-byte numbers.\<close>

definition num_at :: "nat \<Rightarrow> tddata \<Rightarrow> nat \<Rightarrow> td_error + nat" where
  "num_at k d i =
     (case d of
        TdBytes bs \<Rightarrow> if k * (i + 1) \<le> length bs then Inr (le_value (take k (drop (k * i) bs))) else Inl TdOverread
      | _ \<Rightarrow> Inl TdWild)"

subsection \<open>Containers and iteration\<close>

definition td_zero :: rpmtd where
  "td_zero = \<lparr>td_tag = 0, td_type = 0, td_count = 0, td_data = TdNull, td_flags = 0, td_ix = -1, td_size = 0\<rparr>"

definition rpmtdReset :: "rpmtd option \<Rightarrow> rpmtd option" where
  "rpmtdReset td = map_option (\<lambda>_. td_zero) td"

definition rpmtdFreeData :: "rpmtd option \<Rightarrow> rpmtd option" where
  "rpmtdFreeData td = rpmtdReset td"

definition rpmtdNew :: rpmtd where
  "rpmtdNew = the (rpmtdReset (Some td_zero))"

definition rpmtdCount :: "rpmtd option \<Rightarrow> u32" where
  "rpmtdCount td = (case td of None \<Rightarrow> 0 | Some td \<Rightarrow> if td_type td = RPM_BIN_TYPE then 1 else td_count td)"

definition rpmtdSize :: "rpmtd option \<Rightarrow> u32" where
  "rpmtdSize td = (case td of None \<Rightarrow> 0 | Some td \<Rightarrow> td_size td)"

definition rpmtdTag :: "rpmtd option \<Rightarrow> u32" where
  "rpmtdTag td = (case td of None \<Rightarrow> 0 | Some td \<Rightarrow> td_tag td)"

definition rpmtdType :: "rpmtd option \<Rightarrow> u32" where
  "rpmtdType td = (case td of None \<Rightarrow> RPM_NULL_TYPE | Some td \<Rightarrow> td_type td)"

definition rpmtdGetFlags :: "rpmtd option \<Rightarrow> u32" where
  "rpmtdGetFlags td = (case td of None \<Rightarrow> 0 | Some td \<Rightarrow> td_flags td)"

definition rpmtdGetIndex :: "rpmtd option \<Rightarrow> int" where
  "rpmtdGetIndex td = (case td of None \<Rightarrow> -1 | Some td \<Rightarrow> td_ix td)"

definition rpmtdSetIndex :: "rpmtd option \<Rightarrow> int \<Rightarrow> rpmtd option \<times> int" where
  "rpmtdSetIndex td index =
     (case td of None \<Rightarrow> (None, -1)
      | Some t \<Rightarrow> if index < 0 \<or> index \<ge> uint (rpmtdCount td) then (td, -1) else (Some (t\<lparr>td_ix := index\<rparr>), index))"

definition rpmtdInit :: "rpmtd option \<Rightarrow> rpmtd option \<times> int" where
  "rpmtdInit td = (case td of None \<Rightarrow> (None, -1) | Some t \<Rightarrow> (Some (t\<lparr>td_ix := -1\<rparr>), 0))"

definition rpmtdNext :: "rpmtd option \<Rightarrow> rpmtd option \<times> int" where
  "rpmtdNext td =
     (case td of None \<Rightarrow> (None, -1)
      | Some t \<Rightarrow>
          let ix = td_ix t + 1 in
          if ix \<ge> 0 then
            if ix < uint (rpmtdCount td) then (Some (t\<lparr>td_ix := ix\<rparr>), ix) else (Some (t\<lparr>td_ix := -1\<rparr>), -1)
          else (Some (t\<lparr>td_ix := ix\<rparr>), -1))"

subsection \<open>Reading the current element\<close>

definition td_pos :: "rpmtd \<Rightarrow> nat" where
  "td_pos td = (if td_ix td \<ge> 0 then nat (td_ix td) else 0)"

text \<open>The getters return a pointer to the element; the model returns the number it points to, \<open>None\<close> for the
  NULL pointer.\<close>

definition get_num :: "u32 \<Rightarrow> nat \<Rightarrow> rpmtd option \<Rightarrow> td_error + nat option" where
  "get_num type k td =
     (case td of
        Some t \<Rightarrow> if td_type t = type then rbind (num_at k (td_data t) (td_pos t)) (\<lambda>v. Inr (Some v)) else Inr None
      | None \<Rightarrow> Inr None)"

definition rpmtdGetChar :: "rpmtd option \<Rightarrow> td_error + nat option" where
  "rpmtdGetChar = get_num RPM_CHAR_TYPE 1"

definition rpmtdGetUint16 :: "rpmtd option \<Rightarrow> td_error + nat option" where
  "rpmtdGetUint16 = get_num RPM_INT16_TYPE 2"

definition rpmtdGetUint32 :: "rpmtd option \<Rightarrow> td_error + nat option" where
  "rpmtdGetUint32 = get_num RPM_INT32_TYPE 4"

definition rpmtdGetUint64 :: "rpmtd option \<Rightarrow> td_error + nat option" where
  "rpmtdGetUint64 = get_num RPM_INT64_TYPE 8"

definition rpmtdGetString :: "rpmtd option \<Rightarrow> td_error + cstr option" where
  "rpmtdGetString td =
     (case td of None \<Rightarrow> Inr None
      | Some t \<Rightarrow>
          if td_type t = RPM_STRING_TYPE then
            (case td_data t of TdString s \<Rightarrow> Inr (Some s) | TdNull \<Rightarrow> Inr None | _ \<Rightarrow> Inl TdWild)
          else if td_type t = RPM_STRING_ARRAY_TYPE \<or> td_type t = RPM_I18NSTRING_TYPE then
            (case td_data t of
               TdStrings ss \<Rightarrow>
                 if td_pos t < length ss
                 then (case ss ! td_pos t of None \<Rightarrow> Inl TdWild | Some s \<Rightarrow> Inr (Some s)) else Inl TdOverread
             | _ \<Rightarrow> Inl TdWild)
          else Inr None)"

definition rpmtdGetNumber :: "rpmtd option \<Rightarrow> td_error + nat" where
  "rpmtdGetNumber td =
     (case td of None \<Rightarrow> Inr 0
      | Some t \<Rightarrow>
          let ix = td_pos t in
          if td_type t = RPM_INT64_TYPE then num_at 8 (td_data t) ix
          else if td_type t = RPM_INT32_TYPE then num_at 4 (td_data t) ix
          else if td_type t = RPM_INT16_TYPE then num_at 2 (td_data t) ix
          else if td_type t = RPM_INT8_TYPE \<or> td_type t = RPM_CHAR_TYPE then num_at 1 (td_data t) ix
          else Inr 0)"

definition next_get :: "(rpmtd option \<Rightarrow> td_error + 'a option) \<Rightarrow> rpmtd option \<Rightarrow> td_error + (rpmtd option \<times> 'a option)" where
  "next_get get td =
     (let (td, i) = rpmtdNext td in if i \<ge> 0 then rbind (get td) (\<lambda>r. Inr (td, r)) else Inr (td, None))"

definition rpmtdNextUint32 :: "rpmtd option \<Rightarrow> td_error + (rpmtd option \<times> nat option)" where
  "rpmtdNextUint32 = next_get rpmtdGetUint32"

definition rpmtdNextUint64 :: "rpmtd option \<Rightarrow> td_error + (rpmtd option \<times> nat option)" where
  "rpmtdNextUint64 = next_get rpmtdGetUint64"

definition rpmtdNextString :: "rpmtd option \<Rightarrow> td_error + (rpmtd option \<times> cstr option)" where
  "rpmtdNextString = next_get rpmtdGetString"

subsection \<open>Filling a container\<close>

definition rpmtdSetTag :: "(u32 \<Rightarrow> u32) \<Rightarrow> rpmtd option \<Rightarrow> u32 \<Rightarrow> rpmtd option \<times> bool" where
  "rpmtdSetTag tagType td tag =
     (case td of None \<Rightarrow> (None, False)
      | Some t \<Rightarrow>
          if tagType tag = RPM_NULL_TYPE then (td, False)
          else if (td_data t \<noteq> TdNull \<or> td_count t > 0) \<and> tagType (td_tag t) \<noteq> tagType tag then (td, False)
          else (Some (t\<lparr>td_tag := tag, td_type := tagType tag\<rparr>), True))"

definition rpmtdSet :: "u32 \<Rightarrow> u32 \<Rightarrow> tddata \<Rightarrow> u32 \<Rightarrow> rpmtd" where
  "rpmtdSet tag type d cnt = td_zero\<lparr>td_tag := tag, td_type := type, td_count := cnt, td_data := d\<rparr>"

text \<open>The container is left alone (\<open>None\<close>) when a check fails.\<close>

definition rpmtdFromUint8 :: "(u32 \<Rightarrow> u32) \<Rightarrow> (u32 \<Rightarrow> u32) \<Rightarrow> u32 \<Rightarrow> tddata \<Rightarrow> u32 \<Rightarrow> rpmtd option" where
  "rpmtdFromUint8 tagType retType tag d cnt =
     (let type = tagType tag in
      if cnt < 1 then None
      else if type = RPM_CHAR_TYPE \<or> type = RPM_INT8_TYPE then
        if retType tag \<noteq> RPM_ARRAY_RETURN_TYPE \<and> cnt > 1 then None else Some (rpmtdSet tag type d cnt)
      else if type = RPM_BIN_TYPE then Some (rpmtdSet tag type d cnt)
      else None)"

definition from_nums :: "u32 \<Rightarrow> (u32 \<Rightarrow> u32) \<Rightarrow> (u32 \<Rightarrow> u32) \<Rightarrow> u32 \<Rightarrow> tddata \<Rightarrow> u32 \<Rightarrow> rpmtd option" where
  "from_nums type tagType retType tag d cnt =
     (if tagType tag \<noteq> type \<or> cnt < 1 then None
      else if retType tag \<noteq> RPM_ARRAY_RETURN_TYPE \<and> cnt > 1 then None
      else Some (rpmtdSet tag type d cnt))"

definition rpmtdFromUint16 :: "(u32 \<Rightarrow> u32) \<Rightarrow> (u32 \<Rightarrow> u32) \<Rightarrow> u32 \<Rightarrow> tddata \<Rightarrow> u32 \<Rightarrow> rpmtd option" where
  "rpmtdFromUint16 = from_nums RPM_INT16_TYPE"

definition rpmtdFromUint32 :: "(u32 \<Rightarrow> u32) \<Rightarrow> (u32 \<Rightarrow> u32) \<Rightarrow> u32 \<Rightarrow> tddata \<Rightarrow> u32 \<Rightarrow> rpmtd option" where
  "rpmtdFromUint32 = from_nums RPM_INT32_TYPE"

definition rpmtdFromUint64 :: "(u32 \<Rightarrow> u32) \<Rightarrow> (u32 \<Rightarrow> u32) \<Rightarrow> u32 \<Rightarrow> tddata \<Rightarrow> u32 \<Rightarrow> rpmtd option" where
  "rpmtdFromUint64 = from_nums RPM_INT64_TYPE"

text \<open>For a string array tag the data is the address of the parameter, which is gone when the function
  has returned.\<close>

definition rpmtdFromString :: "(u32 \<Rightarrow> u32) \<Rightarrow> u32 \<Rightarrow> cstr \<Rightarrow> rpmtd option" where
  "rpmtdFromString tagType tag d =
     (let type = tagType tag in
      if type = RPM_STRING_TYPE then Some (rpmtdSet tag type (TdString d) 1)
      else if type = RPM_STRING_ARRAY_TYPE then Some (rpmtdSet tag type TdDangling 1)
      else None)"

definition rpmtdFromStringArray :: "(u32 \<Rightarrow> u32) \<Rightarrow> u32 \<Rightarrow> cstr list \<Rightarrow> u32 \<Rightarrow> rpmtd option" where
  "rpmtdFromStringArray tagType tag d cnt =
     (if tagType tag \<noteq> RPM_STRING_ARRAY_TYPE \<or> cnt < 1 then None
      else if tagType tag = RPM_STRING_TYPE \<and> cnt \<noteq> 1 then None
      else Some (rpmtdSet tag (tagType tag) (TdStrings (map Some d)) cnt))"

definition rpmtdFromArgv :: "(u32 \<Rightarrow> u32) \<Rightarrow> u32 \<Rightarrow> argv option \<Rightarrow> rpmtd option" where
  "rpmtdFromArgv tagType tag av =
     (let cnt = argvCount av in
      if tagType tag \<noteq> RPM_STRING_ARRAY_TYPE \<or> cnt < 1 then None
      else Some (rpmtdSet tag (tagType tag) (TdStrings (map Some (the av))) (of_nat cnt)))"

definition rpmtdFromArgi :: "(u32 \<Rightarrow> u32) \<Rightarrow> (u32 \<Rightarrow> u32) \<Rightarrow> u32 \<Rightarrow> argi option \<Rightarrow> rpmtd option" where
  "rpmtdFromArgi tagType retType tag ai =
     (let cnt = argiCount ai in
      if tagType tag \<noteq> RPM_INT32_TYPE \<or> retType tag \<noteq> RPM_ARRAY_RETURN_TYPE \<or> cnt < 1 then None
      else Some (rpmtdSet tag (tagType tag) (TdBytes (concat (map (\<lambda>v. le_bytes 4 (unat (of_int v :: u32))) (the ai)))) (of_nat cnt)))"

subsection \<open>Copying\<close>

text \<open>The loop of \<open>rpmtdDup\<close> walks the original from where its index stands.\<close>

function dup_loop :: "rpmtd \<Rightarrow> cstr option list \<Rightarrow> td_error + (rpmtd \<times> cstr option list)" where
  "dup_loop td d =
     (let (tdn, i) = rpmtdNext (Some td) in
      if i \<ge> 0 then rbind (rpmtdGetString tdn) (\<lambda>s. dup_loop (the tdn) (d[nat i := s]))
      else Inr (the tdn, d))"
  by pat_completeness auto
termination
  by (relation "measure (\<lambda>(td, d). nat (uint (rpmtdCount (Some td)) - td_ix td))")
    (auto simp: rpmtdNext_def rpmtdCount_def Let_def split: if_splits)

declare dup_loop.simps [simp del]

definition rpmtdDup :: "rpmtd option \<Rightarrow> td_error + (rpmtd option \<times> rpmtd option)" where
  "rpmtdDup td =
     (case td of None \<Rightarrow> Inr (None, None)
      | Some t \<Rightarrow>
          if td_type t \<noteq> RPM_STRING_ARRAY_TYPE \<and> td_type t \<noteq> RPM_I18NSTRING_TYPE then Inr (td, None)
          else
            rbind (dup_loop t (replicate (unat (td_count t)) None)) (\<lambda>(t', d).
              Inr (Some t', Some (t\<lparr>td_flags := td_flags t AND NOT RPMTD_IMMUTABLE OR (RPMTD_ALLOCED OR RPMTD_PTR_ALLOCED),
                                    td_data := TdStrings d\<rparr>))))"

fun pool_ids :: "rpmstrPool \<Rightarrow> cstr option list \<Rightarrow> (rpmstrPool \<times> nat list) option" where
  "pool_ids pool [] = Some (pool, [])"
| "pool_ids pool (s # ss) =
     (case rpmstrPoolId pool s True of None \<Rightarrow> None
      | Some (pool, sid) \<Rightarrow>
          (case pool_ids pool ss of None \<Rightarrow> None | Some (pool, sids) \<Rightarrow> Some (pool, sid # sids)))"

text \<open>The result is \<open>None\<close> when a lookup in the pool does not return.\<close>

definition rpmtdToPool :: "rpmtd option \<Rightarrow> rpmstrPool option \<Rightarrow> td_error + (rpmstrPool option \<times> nat list option) option" where
  "rpmtdToPool td pool =
     (case (td, pool) of
        (Some t, Some p) \<Rightarrow>
          if td_type t = RPM_STRING_ARRAY_TYPE \<or> td_type t = RPM_I18NSTRING_TYPE then
            (case td_data t of
               TdStrings ss \<Rightarrow>
                 if length ss < unat (td_count t) then Inl TdOverread
                 else if None \<in> set (take (unat (td_count t)) ss) then Inl TdWild
                 else Inr (map_option (map_prod Some Some) (pool_ids p (take (unat (td_count t)) ss)))
             | _ \<Rightarrow> if td_count t = 0 then Inr (Some (pool, Some [])) else Inl TdWild)
          else Inr (Some (pool, None))
      | _ \<Rightarrow> Inr (Some (pool, None)))"

subsection \<open>Iteration\<close>

abbreviation td_step :: "rpmtd option \<Rightarrow> rpmtd option" where
  "td_step td \<equiv> fst (rpmtdNext td)"

lemma rpmtdCount_ix [simp]: "rpmtdCount (Some (td\<lparr>td_ix := i\<rparr>)) = rpmtdCount (Some td)"
  by (simp add: rpmtdCount_def)

lemma int_less_count: "int k < uint (rpmtdCount td) \<longleftrightarrow> k < unat (rpmtdCount td)"
  by (simp only: uint_nat of_nat_less_iff)

lemma next_at:
  "rpmtdNext (Some (td\<lparr>td_ix := int k - 1\<rparr>)) =
     (if k < unat (rpmtdCount (Some td)) then (Some (td\<lparr>td_ix := int k\<rparr>), int k)
      else (Some (td\<lparr>td_ix := -1\<rparr>), -1))"
  by (simp add: rpmtdNext_def int_less_count Let_def)

lemma rpmtd_steps:
  "k \<le> unat (rpmtdCount (Some td)) \<Longrightarrow>
   (td_step ^^ k) (fst (rpmtdInit (Some td))) = Some (td\<lparr>td_ix := int k - 1\<rparr>)"
proof (induction k)
  case (Suc k)
  then show ?case by (simp add: next_at)
qed (simp add: rpmtdInit_def)

text \<open> The iteration over a container visits the indices of its elements in order, from the first to the
  last, then reports the end and is back where it started.\<close>

theorem rpmtd_iteration:
  fixes td :: rpmtd
  defines "start \<equiv> fst (rpmtdInit (Some td))" and "n \<equiv> unat (rpmtdCount (Some td))"
  shows "map (\<lambda>k. snd (rpmtdNext ((td_step ^^ k) start))) [0 ..< n] = map int [0 ..< n] \<and>
    rpmtdNext ((td_step ^^ n) start) = (start, -1)"
proof -
  have "snd (rpmtdNext ((td_step ^^ k) start)) = int k" if "k < n" for k
    using that by (simp add: start_def n_def rpmtd_steps next_at)
  moreover have "rpmtdNext ((td_step ^^ n) start) = (start, -1)"
    using next_at [where td = td and k = n] rpmtd_steps [of n td] unfolding start_def n_def by (simp only:) (simp add: rpmtdInit_def)
  ultimately show ?thesis by simp
qed

subsection \<open>What was put in is read out\<close>

lemma length_le_bytes [simp]: "length (le_bytes k n) = k"
  by (induction k n rule: le_bytes.induct) auto

lemma le_value_le_bytes: "le_value (le_bytes k n) = n mod 256 ^ k"
proof (induction k n rule: le_bytes.induct)
  case (2 k n)
  have "unat (of_nat (n mod 256) :: 8 word) = n mod 256" by (simp add: unat_of_nat)
  with 2 show ?case by (simp add: le_value_def mod_mult2_eq)
qed (simp add: le_value_def)

lemma take_drop_concat:
  "i < length xs \<Longrightarrow> (\<And>x. length (f x) = k) \<Longrightarrow> take k (drop (k * i) (concat (map f xs))) = f (xs ! i)"
proof (induction xs arbitrary: i)
  case (Cons x xs)
  then show ?case by (cases i) auto
qed simp

lemma num_at_le_bytes:
  assumes "i < length vs"
  shows "num_at k (TdBytes (concat (map (le_bytes k) vs))) i = Inr (vs ! i mod 256 ^ k)"
proof -
  have len: "length (concat (map (le_bytes k) vs)) = k * length vs"
    by (simp add: length_concat comp_def sum_list_triv)
  have "k * (i + 1) \<le> k * length vs" using assms by (intro mult_le_mono2) simp
  then show ?thesis
    using assms by (simp add: num_at_def len take_drop_concat le_value_le_bytes)
qed

text \<open>A width and the function that stores an array of numbers of that width.\<close>

definition td_width :: "u32 \<Rightarrow> nat" where
  "td_width type = (if type = RPM_INT16_TYPE then 2 else if type = RPM_INT32_TYPE then 4 else 8)"

text \<open> An array of 16, 32 or 64 bit numbers that was put into a container is read back element by
  element, and the reads stay inside of the array.\<close>

theorem rpmtd_numbers_roundtrip:
  assumes "from \<in> {(RPM_INT16_TYPE, rpmtdFromUint16), (RPM_INT32_TYPE, rpmtdFromUint32), (RPM_INT64_TYPE, rpmtdFromUint64)}"
    and "snd from tagType retType tag (TdBytes (concat (map (le_bytes (td_width (fst from))) vs))) (of_nat (length vs)) = Some td"
    and "length vs < 2 ^ 32" "\<forall>v \<in> set vs. v < 256 ^ td_width (fst from)" "i < length vs"
  shows "rpmtdGetNumber (fst (rpmtdSetIndex (Some td) (int i))) = Inr (vs ! i)"
proof -
  let ?k = "td_width (fst from)"
  have td: "td = rpmtdSet tag (fst from) (TdBytes (concat (map (le_bytes ?k) vs))) (of_nat (length vs))"
    using assms(1,2) by (auto simp: rpmtdFromUint16_def rpmtdFromUint32_def rpmtdFromUint64_def from_nums_def split: if_splits)
  have "rpmtdCount (Some td) = of_nat (length vs)"
    using assms(1) by (auto simp: td rpmtdCount_def rpmtdSet_def)
  then have "unat (rpmtdCount (Some td)) = length vs" using assms(3) by (simp add: unat_of_nat)
  then have "\<not> int i \<ge> uint (rpmtdCount (Some td))" using assms(5) int_less_count [of i "Some td"] by simp
  then have "rpmtdGetNumber (fst (rpmtdSetIndex (Some td) (int i))) = num_at ?k (td_data td) i"
    using assms(1) by (auto simp: rpmtdSetIndex_def rpmtdGetNumber_def td rpmtdSet_def td_pos_def td_width_def)
  then show ?thesis using assms(4,5) by (simp add: td rpmtdSet_def num_at_le_bytes)
qed

theorem rpmtd_numbers_roundtrip_witness:
  "\<exists>td. rpmtdFromUint32 (\<lambda>_. RPM_INT32_TYPE) (\<lambda>_. RPM_ARRAY_RETURN_TYPE) 1028
      (TdBytes (concat (map (le_bytes 4) [7, 70000]))) 2 = Some td \<and>
    rpmtdGetNumber (fst (rpmtdSetIndex (Some td) 1)) = Inr 70000"
proof -
  have "rpmtdFromUint32 (\<lambda>_. RPM_INT32_TYPE) (\<lambda>_. RPM_ARRAY_RETURN_TYPE) 1028
      (TdBytes (concat (map (le_bytes 4) [7, 70000]))) 2 =
      Some (rpmtdSet 1028 RPM_INT32_TYPE (TdBytes (concat (map (le_bytes 4) [7, 70000]))) 2)"
    by (simp add: rpmtdFromUint32_def from_nums_def)
  with rpmtd_numbers_roundtrip [of "(RPM_INT32_TYPE, rpmtdFromUint32)" "\<lambda>_. RPM_INT32_TYPE"
      "\<lambda>_. RPM_ARRAY_RETURN_TYPE" 1028 "[7, 70000]" _ 1]
  show ?thesis by (simp add: td_width_def)
qed

subsection \<open>Copies\<close>

lemma dup_loop_copies:
  assumes "td_data td = TdStrings (map Some ss)" "td_type td = RPM_STRING_ARRAY_TYPE \<or> td_type td = RPM_I18NSTRING_TYPE"
    "unat (td_count td) = length ss"
  shows "k \<le> length ss \<Longrightarrow> length d = length ss \<Longrightarrow>
    dup_loop (td\<lparr>td_ix := int k - 1\<rparr>) d = Inr (td\<lparr>td_ix := -1\<rparr>, take k d @ map Some (drop k ss))"
proof (induction "length ss - k" arbitrary: k d)
  case 0
  then have "k = length ss" by simp
  with 0 assms show ?case
    by (subst dup_loop.simps) (auto simp: next_at rpmtdCount_def Let_def)
next
  case (Suc n)
  then have k: "k < length ss" by simp
  then have cnt: "k < unat (rpmtdCount (Some td))" using assms(2,3) by (auto simp: rpmtdCount_def)
  have get: "rpmtdGetString (Some (td\<lparr>td_ix := int k\<rparr>)) = Inr (Some (ss ! k))"
    using assms k by (auto simp: rpmtdGetString_def td_pos_def)
  have IH: "dup_loop (td\<lparr>td_ix := int (Suc k) - 1\<rparr>) (d[k := Some (ss ! k)]) =
      Inr (td\<lparr>td_ix := -1\<rparr>, take (Suc k) (d[k := Some (ss ! k)]) @ map Some (drop (Suc k) ss))"
    using Suc k by (intro Suc.hyps(1)) auto
  have "take (Suc k) (d[k := Some (ss ! k)]) @ map Some (drop (Suc k) ss) = take k d @ map Some (drop k ss)"
    using k Suc.prems(2) by (simp add: take_Suc_conv_app_nth Cons_nth_drop_Suc [symmetric])
  with IH get cnt show ?case by (subst dup_loop.simps) (simp add: next_at Let_def)
qed

text \<open>A copy of a string array whose iteration has not been started holds the same strings, in memory
  of its own, and leaves the original as it was.\<close>

lemma rpmtdDup_copies:
  assumes "td_type td = RPM_STRING_ARRAY_TYPE \<or> td_type td = RPM_I18NSTRING_TYPE"
    "td_data td = TdStrings (map Some ss)" "unat (td_count td) = length ss" "td_ix td = -1"
  shows "\<exists>flags. rpmtdDup (Some td) = Inr (Some td, Some (td\<lparr>td_flags := flags\<rparr>)) \<and>
    has flags RPMTD_ALLOCED \<and> has flags RPMTD_PTR_ALLOCED \<and> \<not> has flags RPMTD_IMMUTABLE"
proof -
  have td: "td\<lparr>td_ix := - 1\<rparr> = td" using assms(4) by (cases td) simp
  have "dup_loop td (replicate (length ss) None) = Inr (td, map Some ss)"
    using dup_loop_copies [OF assms(2,1,3), of 0 "replicate (length ss) None"] by (simp add: td)
  then have "rpmtdDup (Some td) =
      Inr (Some td, Some (td\<lparr>td_flags := td_flags td AND NOT RPMTD_IMMUTABLE OR (RPMTD_ALLOCED OR RPMTD_PTR_ALLOCED),
        td_data := TdStrings (map Some ss)\<rparr>))"
    using assms by (auto simp: rpmtdDup_def)
  moreover have "td\<lparr>td_flags := f, td_data := TdStrings (map Some ss)\<rparr> = td\<lparr>td_flags := f\<rparr>" for f
    using assms(2) by (cases td) simp
  moreover have "has (w AND NOT 4 OR (1 OR 2)) 1 \<and> has (w AND NOT 4 OR (1 OR 2)) 2 \<and> \<not> has (w AND NOT 4 OR (1 OR 2)) 4" for w :: u32
  proof -
    have "bit (w AND NOT 4 OR (1 OR 2)) 0" "bit (w AND NOT 4 OR (1 OR 2)) 1" "\<not> bit (w AND NOT 4 OR (1 OR 2)) 2"
      by (simp_all add: bit_simps numeral_eq_Suc)
    then show ?thesis
      using and_exp_eq_0_iff_not_bit [of "w AND NOT 4 OR (1 OR 2)" 0] and_exp_eq_0_iff_not_bit [of "w AND NOT 4 OR (1 OR 2)" 1]
        and_exp_eq_0_iff_not_bit [of "w AND NOT 4 OR (1 OR 2)" 2]
      by (simp add: has_def)
  qed
  ultimately show ?thesis by auto
qed

text \<open>A copy that is made while the iteration stands at an element has indeterminate pointers before it.\<close>

lemma rpmtdDup_partial:
  "rpmtdDup (Some (rpmtdSet 1 RPM_STRING_ARRAY_TYPE (TdStrings [Some ''a'', Some ''b'']) 2 \<lparr>td_ix := 0\<rparr>)) =
   Inr (Some (rpmtdSet 1 RPM_STRING_ARRAY_TYPE (TdStrings [Some ''a'', Some ''b'']) 2),
        Some (rpmtdSet 1 RPM_STRING_ARRAY_TYPE (TdStrings [None, Some ''b'']) 2 \<lparr>td_ix := 0, td_flags := 3\<rparr>))"
  by code_simp

text \<open>A string array container made from one string cannot be read.\<close>

lemma rpmtdFromString_dangling:
  "map_option (\<lambda>td. rpmtdGetString (Some td)) (rpmtdFromString (\<lambda>_. RPM_STRING_ARRAY_TYPE) 1 ''a'') = Some (Inl TdWild)"
  by code_simp

subsection \<open>Strings into a pool\<close>

lemma pool_ids_intern_all: "pool_ids pool (map Some ss) = strpool.intern_all pool ss"
  by (induction ss arbitrary: pool) (auto split: option.splits prod.splits)

text \<open> The ids a string array is turned into name its strings, in order, in a pool that is well formed and
  keeps what it held.\<close>

theorem rpmtdToPool_names:
  assumes "pool_wf pool" "pool_open pool" "td_type td = RPM_STRING_ARRAY_TYPE \<or> td_type td = RPM_I18NSTRING_TYPE"
    "td_data td = TdStrings (map Some ss)" "unat (td_count td) = length ss"
    "rpmtdToPool (Some td) (Some pool) = Inr (Some (pool', sids))"
  shows "\<exists>p ids. pool' = Some p \<and> sids = Some ids \<and> pool_wf p \<and> map (id2str (offs p)) ids = map Some ss \<and>
    (\<forall>i t. id2str (offs pool) i = Some t \<longrightarrow> id2str (offs p) i = Some t)"
proof -
  have "rpmtdToPool (Some td) (Some pool) = Inr (map_option (map_prod Some Some) (pool_ids pool (map Some ss)))"
    using assms(3-5) by (auto simp: rpmtdToPool_def)
  with assms(6) obtain p ids where p: "pool_ids pool (map Some ss) = Some (p, ids)" "pool' = Some p" "sids = Some ids"
    by auto
  then have "strpool.intern_all pool ss = Some (p, ids)" by (simp add: pool_ids_intern_all)
  with strpool.intern_all_names [OF assms(1,2) this] p show ?thesis by auto
qed

theorem rpmtdToPool_names_witness:
  "\<exists>p ids. rpmtdToPool (Some (rpmtdSet 1 RPM_STRING_ARRAY_TYPE (TdStrings [Some ''bash'']) 1)) rpmstrPoolCreate =
     Inr (Some (Some p, Some ids)) \<and> pool_wf p \<and> map (id2str (offs p)) ids = [Some ''bash'']"
proof -
  let ?td = "rpmtdSet 1 RPM_STRING_ARRAY_TYPE (TdStrings [Some ''bash'']) 1"
  have pool: "rpmstrPoolCreate = Some (the rpmstrPoolCreate)" by (simp add: rpmstrPoolCreate_eq)
  obtain p sid where r: "rpmstrPoolId (the rpmstrPoolCreate) (Some ''bash'') True = Some (p, sid)"
    using rpmstrPoolId_returns_if [OF rpmstrPoolCreate_wf, of "poolHashCreate 1024" "''bash''" True]
    by (auto simp: rpmstrPoolCreate_eq poolHashCreate_def probe_slot_def)
  then have ids: "rpmtdToPool (Some ?td) (Some (the rpmstrPoolCreate)) = Inr (Some (Some p, Some [sid]))"
    by (simp add: rpmtdToPool_def rpmtdSet_def)
  have op: "pool_open (the rpmstrPoolCreate)" by (simp add: rpmstrPoolCreate_eq)
  show ?thesis
    using rpmtdToPool_names [OF rpmstrPoolCreate_wf op _ _ _ ids, of "[''bash'']"] ids pool
    by (auto simp: rpmtdSet_def)
qed

end
