(* ===== verification/Header.thy ===== *)
theory Header
  imports Rpmtd
begin

text \<open>
  The header in memory of lib/header.cc: its index of entries, sorting and lookup, adding, appending,
  replacing and deleting tags, the i18n tables, iteration, and the retrieval of data. The memory of an
  entry is either a part of the header blob (\<open>InBlob\<close> with the address) or a block of its own (\<open>Alloc\<close>);
  numbers are in the byte order of the machine. A read outside of that memory is the error \<open>Overread\<close>.
  Lifetimes are not modelled: what a container points to is copied when it is filled.
\<close>

datatype hdrdata = NoData | InBlob int | Alloc bytes

record indexEntry =
  ie_info :: entryInfo
  ie_data :: hdrdata
  ie_length :: u32
  ie_rdlen :: u32

record header =
  h_blob :: bytes
  h_index :: "indexEntry list"
  h_indexAlloced :: nat
  h_instance :: u32
  h_flags :: u32
  h_sorted :: bool

abbreviation ie_tag :: "indexEntry \<Rightarrow> u32" where "ie_tag e \<equiv> ei_tag (ie_info e)"
abbreviation ie_type :: "indexEntry \<Rightarrow> u32" where "ie_type e \<equiv> ei_type (ie_info e)"
abbreviation ie_offset :: "indexEntry \<Rightarrow> u32" where "ie_offset e \<equiv> ei_offset (ie_info e)"
abbreviation ie_count :: "indexEntry \<Rightarrow> u32" where "ie_count e \<equiv> ei_count (ie_info e)"

abbreviation INDEX_MALLOC_SIZE :: nat where "INDEX_MALLOC_SIZE \<equiv> 8"
abbreviation HEADERFLAG_ALLOCATED :: u32 where "HEADERFLAG_ALLOCATED \<equiv> 2"
abbreviation HEADERFLAG_LEGACY :: u32 where "HEADERFLAG_LEGACY \<equiv> 4"
abbreviation HEADERGET_MINMEM :: u32 where "HEADERGET_MINMEM \<equiv> 1"
abbreviation HEADERGET_EXT :: u32 where "HEADERGET_EXT \<equiv> 2"
abbreviation HEADERGET_RAW :: u32 where "HEADERGET_RAW \<equiv> 4"
abbreviation HEADERGET_ALLOC :: u32 where "HEADERGET_ALLOC \<equiv> 8"
abbreviation HEADERGET_ARGV :: u32 where "HEADERGET_ARGV \<equiv> 16"
abbreviation HEADERPUT_APPEND :: u32 where "HEADERPUT_APPEND \<equiv> 1"
abbreviation RPMTAG_DIRNAMES :: u32 where "RPMTAG_DIRNAMES \<equiv> 1118"
abbreviation RPMTAG_NOT_FOUND :: u32 where "RPMTAG_NOT_FOUND \<equiv> - 1"

definition ENTRY_IS_REGION :: "indexEntry \<Rightarrow> bool" where
  "ENTRY_IS_REGION e \<longleftrightarrow> ie_tag e \<ge> RPMTAG_HEADERIMAGE \<and> ie_tag e < 64"

definition ENTRY_IN_REGION :: "indexEntry \<Rightarrow> bool" where
  "ENTRY_IN_REGION e \<longleftrightarrow> sint (ie_offset e) < 0"

definition hdrchkData :: "u32 \<Rightarrow> bool" where
  "hdrchkData n \<longleftrightarrow> n AND NOT HEADER_DATA_MAX \<noteq> 0"

definition headerCreate :: "(bytes \<times> nat) option \<Rightarrow> header" where
  "headerCreate blob =
     (case blob of
        Some (b, indexLen) \<Rightarrow>
          \<lparr>h_blob = b,
           h_index = replicate indexLen \<lparr>ie_info = \<lparr>ei_tag = 0, ei_type = 0, ei_offset = 0, ei_count = 0\<rparr>,
             ie_data = NoData, ie_length = 0, ie_rdlen = 0\<rparr>,
           h_indexAlloced = indexLen + 1, h_instance = 0, h_flags = 0, h_sorted = False\<rparr>
      | None \<Rightarrow>
          \<lparr>h_blob = [], h_index = [], h_indexAlloced = INDEX_MALLOC_SIZE, h_instance = 0, h_flags = 0,
           h_sorted = False\<rparr>)"

definition headerNew :: header where
  "headerNew = headerCreate None"

subsection \<open>Sorting and lookup\<close>

text \<open>The difference of two unsigned tags as an \<open>int\<close>.\<close>

definition indexCmp :: "indexEntry \<Rightarrow> indexEntry \<Rightarrow> int" where
  "indexCmp a b = sint (ie_tag a - ie_tag b)"

definition headerSort :: "header \<Rightarrow> header" where
  "headerSort h =
     (if h_sorted h then h else h\<lparr>h_index := qsort indexCmp (h_index h), h_sorted := True\<rparr>)"

fun look_back :: "indexEntry list \<Rightarrow> u32 \<Rightarrow> u32 \<Rightarrow> nat \<Rightarrow> nat" where
  "look_back xs tag type 0 = 0"
| "look_back xs tag type (Suc i) =
     (if ie_tag (xs ! Suc i) = tag \<and> ie_type (xs ! Suc i) \<noteq> type then look_back xs tag type i else Suc i)"

definition key_entry :: "u32 \<Rightarrow> indexEntry" where
  "key_entry tag = \<lparr>ie_info = \<lparr>ei_tag = tag, ei_type = 0, ei_offset = 0, ei_count = 0\<rparr>,
     ie_data = NoData, ie_length = 0, ie_rdlen = 0\<rparr>"

text \<open>The header is sorted first; the result is the position of the entry.\<close>

definition findEntry :: "header \<Rightarrow> u32 \<Rightarrow> u32 \<Rightarrow> header \<times> nat option" where
  "findEntry h tag type =
     (let h = headerSort h in
      case bsearch indexCmp (key_entry tag) (h_index h) of
        None \<Rightarrow> (h, None)
      | Some i \<Rightarrow>
          if type = RPM_NULL_TYPE then (h, Some i)
          else
            let i = look_back (h_index h) tag type i; e = h_index h ! i in
            if ie_tag e = tag \<and> ie_type e = type then (h, Some i) else (h, None))"

definition headerIsEntry :: "header \<Rightarrow> u32 \<Rightarrow> header \<times> bool" where
  "headerIsEntry h tag = (let (h, i) = findEntry h tag RPM_NULL_TYPE in (h, i \<noteq> None))"

fun first_occurrence :: "indexEntry list \<Rightarrow> u32 \<Rightarrow> nat \<Rightarrow> nat" where
  "first_occurrence xs tag 0 = 0"
| "first_occurrence xs tag (Suc i) = (if ie_tag (xs ! i) = tag then first_occurrence xs tag i else Suc i)"

definition headerDel :: "header \<Rightarrow> u32 \<Rightarrow> header \<times> int" where
  "headerDel h tag =
     (let (h, i) = findEntry h tag RPM_NULL_TYPE in
      case i of None \<Rightarrow> (h, 1)
      | Some i \<Rightarrow>
          let i = first_occurrence (h_index h) tag i in
          (h\<lparr>h_index := take i (h_index h) @ dropWhile (\<lambda>e. ie_tag e = tag) (drop i (h_index h))\<rparr>, 0))"

subsection \<open>Data of an entry\<close>

definition entry_data :: "header \<Rightarrow> indexEntry \<Rightarrow> hdr_error + bytes" where
  "entry_data h e =
     (let n = unat (ie_length e) in
      case ie_data e of
        NoData \<Rightarrow> if n = 0 then Inr [] else Inl Overread
      | InBlob a \<Rightarrow>
          if 0 \<le> a \<and> nat a + n \<le> length (h_blob h) then Inr (take n (drop (nat a) (h_blob h))) else Inl Overread
      | Alloc bs \<Rightarrow> if n \<le> length bs then Inr (take n bs) else Inl Overread)"

definition cbytes :: "cstr \<Rightarrow> bytes" where
  "cbytes s = map of_char s"

definition cchars :: "bytes \<Rightarrow> cstr" where
  "cchars bs = map (\<lambda>b. char_of (unat b)) bs"

text \<open>The NUL-terminated strings that follow each other in memory.\<close>

fun read_strings :: "nat \<Rightarrow> bytes \<Rightarrow> hdr_error + cstr list" where
  "read_strings 0 bs = Inr []"
| "read_strings (Suc n) bs =
     (if 0 \<in> set bs
      then rbind (read_strings n (tl (dropWhile (\<lambda>b. b \<noteq> 0) bs))) (\<lambda>ss. Inr (cchars (takeWhile (\<lambda>b. b \<noteq> 0) bs) # ss))
      else Inl Overread)"

text \<open>\<open>dataLength\<close> of data in a container, with its \<open>onDisk\<close> argument 0.\<close>

fun strings_of :: "nat \<Rightarrow> cstr option list \<Rightarrow> hdr_error + cstr list" where
  "strings_of 0 ss = Inr []"
| "strings_of (Suc n) [] = Inl Overread"
| "strings_of (Suc n) (None # ss) = Inl Overread"
| "strings_of (Suc n) (Some s # ss) = rbind (strings_of n ss) (\<lambda>r. Inr (s # r))"

definition is_array :: "u32 \<Rightarrow> bool" where
  "is_array type \<longleftrightarrow> type = RPM_STRING_ARRAY_TYPE \<or> type = RPM_I18NSTRING_TYPE"

definition dataLength_mem :: "u32 \<Rightarrow> tddata \<Rightarrow> u32 \<Rightarrow> hdr_error + u32 option" where
  "dataLength_mem type d cnt =
     (if type = RPM_STRING_TYPE then
        if cnt \<noteq> 1 then Inr None
        else (case d of TdString s \<Rightarrow> Inr (Some (of_nat (length s + 1))) | _ \<Rightarrow> Inl Overread)
      else if is_array type then
        (case d of
           TdStrings ss \<Rightarrow>
             rbind (strings_of (unat cnt) ss) (\<lambda>ss. Inr (Some (of_nat (sum_list (map (\<lambda>s. length s + 1) ss)))))
         | _ \<Rightarrow> if cnt = 0 then Inr (Some 0) else Inl Overread)
      else if typeSizes ! unat type = -1 then Inr None
      else Inr (Some (of_int (typeSizes ! unat (type AND 0xf)) * cnt)))"

text \<open>The copy loop: a string with its NUL, and how much of the length is left after it. The NUL does not
  count.\<close>

fun copy_chars :: "bytes \<Rightarrow> u32 \<Rightarrow> bytes \<times> u32" where
  "copy_chars [] dl = ([], dl)"
| "copy_chars (b # bs) dl =
     (if b = 0 then ([b], dl)
      else let dl = dl - 1 in
        if dl > 0 then (let (t, dl) = copy_chars bs dl in (b # t, dl)) else ([b], dl))"

fun copy_strings :: "cstr list \<Rightarrow> u32 \<Rightarrow> bytes" where
  "copy_strings [] dl = []"
| "copy_strings (s # ss) dl =
     (if dl > 0 then (let (t, dl) = copy_chars (cbytes s @ [0]) dl in t @ copy_strings ss dl) else [])"

definition copyData :: "u32 \<Rightarrow> tddata \<Rightarrow> u32 \<Rightarrow> u32 \<Rightarrow> hdr_error + bytes" where
  "copyData type d cnt len =
     (if is_array type then
        (case d of
           TdStrings ss \<Rightarrow> rbind (strings_of (unat cnt) ss) (\<lambda>ss. Inr (copy_strings ss len))
         | _ \<Rightarrow> if cnt = 0 then Inr [] else Inl Overread)
      else
        (case d of
           TdBytes bs \<Rightarrow> if unat len \<le> length bs then Inr (take (unat len) bs) else Inl Overread
         | TdString s \<Rightarrow> if unat len \<le> length s + 1 then Inr (take (unat len) (cbytes s @ [0])) else Inl Overread
         | _ \<Rightarrow> if len = 0 then Inr [] else Inl Overread))"

text \<open>The copy in a block of its own; \<open>None\<close> is NULL. A copy that does not fill its block exactly is an error
  of the model.\<close>

definition grabData :: "u32 \<Rightarrow> tddata \<Rightarrow> u32 \<Rightarrow> hdr_error + bytes option" where
  "grabData type d cnt =
     rbind (dataLength_mem type d cnt) (\<lambda>len.
       case len of None \<Rightarrow> Inr None
       | Some len \<Rightarrow>
           if len > 0 then
             rbind (copyData type d cnt len) (\<lambda>bs. if length bs = unat len then Inr (Some bs) else Inl Overread)
           else Inr None)"

subsection \<open>Changing a header\<close>

definition intAddEntry :: "header \<Rightarrow> rpmtd \<Rightarrow> hdr_error + (header \<times> bool)" where
  "intAddEntry h td =
     (if td_count td = 0 \<or> hdrchkType (td_type td) \<or> hdrchkData (td_count td)
         \<or> hdrchkArray (td_type td) (td_count td) then Inr (h, False)
      else
        rbind (grabData (td_type td) (td_data td) (td_count td)) (\<lambda>data.
          case data of None \<Rightarrow> Inr (h, False)
          | Some bs \<Rightarrow>
              let used = length (h_index h);
                  alloced = (if used = h_indexAlloced h then h_indexAlloced h + INDEX_MALLOC_SIZE else h_indexAlloced h);
                  entry = \<lparr>ie_info = \<lparr>ei_tag = td_tag td, ei_type = td_type td, ei_offset = 0, ei_count = td_count td\<rparr>,
                           ie_data = Alloc bs, ie_length = of_nat (length bs), ie_rdlen = 0\<rparr>
              in Inr (h\<lparr>h_index := h_index h @ [entry], h_indexAlloced := alloced,
                        h_sorted := (if used > 0 \<and> td_tag td < ie_tag (last (h_index h)) then False else h_sorted h)\<rparr>,
                      True)))"

text \<open>The data of an entry moves to a block of its own with more data at the end.\<close>

definition entry_append :: "header \<Rightarrow> nat \<Rightarrow> bytes \<Rightarrow> u32 \<Rightarrow> hdr_error + header" where
  "entry_append h i extra cnt =
     (let e = h_index h ! i in
      rbind (entry_data h e) (\<lambda>old.
        Inr (h\<lparr>h_index := (h_index h)[i := e
            \<lparr>ie_info := (ie_info e)\<lparr>ei_offset := (if ENTRY_IN_REGION e then 0 else ie_offset e), ei_count := cnt\<rparr>,
             ie_data := Alloc (old @ extra), ie_length := ie_length e + of_nat (length extra)\<rparr>]\<rparr>)))"

definition intAppendEntry :: "header \<Rightarrow> rpmtd \<Rightarrow> hdr_error + (header \<times> bool)" where
  "intAppendEntry h td =
     (if td_type td = RPM_STRING_TYPE \<or> td_type td = RPM_I18NSTRING_TYPE then Inr (h, False)
      else
        let (h, i) = findEntry h (td_tag td) (td_type td) in
        case i of None \<Rightarrow> Inr (h, False)
        | Some i \<Rightarrow>
            rbind (dataLength_mem (td_type td) (td_data td) (td_count td)) (\<lambda>len.
              case len of None \<Rightarrow> Inr (h, False)
              | Some len \<Rightarrow>
                  rbind (copyData (td_type td) (td_data td) (td_count td) len) (\<lambda>bs.
                    if length bs \<noteq> unat len then Inl Overread
                    else rbind (entry_append h i bs (ie_count (h_index h ! i) + td_count td)) (\<lambda>h. Inr (h, True)))))"

definition headerPut :: "header \<Rightarrow> rpmtd \<Rightarrow> u32 \<Rightarrow> hdr_error + (header \<times> bool)" where
  "headerPut h td flags =
     (if has flags HEADERPUT_APPEND then
        let (h, i) = findEntry h (td_tag td) (td_type td) in
        if i \<noteq> None then intAppendEntry h td else intAddEntry h td
      else intAddEntry h td)"

definition headerMod :: "header \<Rightarrow> rpmtd \<Rightarrow> hdr_error + (header \<times> bool)" where
  "headerMod h td =
     (let (h, i) = findEntry h (td_tag td) (td_type td) in
      case i of None \<Rightarrow> Inr (h, False)
      | Some i \<Rightarrow>
          rbind (grabData (td_type td) (td_data td) (td_count td)) (\<lambda>data.
            case data of None \<Rightarrow> Inr (h, False)
            | Some bs \<Rightarrow>
                let i = first_occurrence (h_index h) (td_tag td) i; e = h_index h ! i in
                Inr (h\<lparr>h_index := (h_index h)[i := e
                    \<lparr>ie_info := (ie_info e)\<lparr>ei_count := td_count td, ei_type := td_type td,
                                             ei_offset := (if ENTRY_IN_REGION e then 0 else ie_offset e)\<rparr>,
                     ie_data := Alloc bs, ie_length := of_nat (length bs)\<rparr>]\<rparr>, True)))"

subsection \<open>The order of the entries\<close>

text \<open>For tags below $2^{31}$ the comparison is the difference of the tags, which is an order.\<close>

definition tag_cmp :: "indexEntry \<Rightarrow> indexEntry \<Rightarrow> int" where
  "tag_cmp a b = uint (ie_tag a) - uint (ie_tag b)"

interpretation tags: c_order tag_cmp
  by unfold_locales (auto simp: tag_cmp_def)

definition small_tag :: "u32 \<Rightarrow> bool" where
  "small_tag tag \<longleftrightarrow> tag < 0x80000000"

lemma sint_diff_small:
  assumes "small_tag a" "small_tag b"
  shows "sint (a - b) = uint a - uint b"
proof -
  have b: "uint a < 2 ^ 31" "uint b < 2 ^ 31" using assms by (simp_all add: small_tag_def word_less_def)
  have s: "sint w = uint w" if "uint w < 2 ^ 31" for w :: u32
    using that signed_take_bit_int_eq_self [of 31 "uint w"] uint_ge_0 [of w] by (simp add: sint_uint)
  have "sint (a - b) = signed_take_bit 31 (sint a - sint b)"
    using sint_word_ariths(2) [of a b] by simp
  also have "\<dots> = sint a - sint b"
    using b uint_ge_0 [of a] uint_ge_0 [of b] s [OF b(1)] s [OF b(2)]
    by (intro signed_take_bit_int_eq_self) linarith+
  finally show ?thesis using s [OF b(1)] s [OF b(2)] by simp
qed

lemma indexCmp_small: "small_tag (ie_tag a) \<Longrightarrow> small_tag (ie_tag b) \<Longrightarrow> indexCmp a b = tag_cmp a b"
  by (simp add: indexCmp_def tag_cmp_def sint_diff_small)

lemma cmp_insort_cong:
  "(\<And>y. y \<in> set ys \<Longrightarrow> c x y = c' x y) \<Longrightarrow> cmp_insort c x ys = cmp_insort c' x ys"
  by (induction ys) auto

lemma qsort_cong:
  "(\<And>x y. x \<in> set xs \<Longrightarrow> y \<in> set xs \<Longrightarrow> c x y = c' x y) \<Longrightarrow> qsort c xs = qsort c' xs"
proof (induction xs)
  case (Cons x xs)
  then have "qsort c xs = qsort c' xs" by simp
  moreover have "cmp_insort c x (qsort c' xs) = cmp_insort c' x (qsort c' xs)"
    using Cons.prems by (intro cmp_insort_cong) simp
  ultimately show ?case by (simp add: qsort_def)
qed (simp add: qsort_def)

lemma bisect_cong: "(\<And>i. i < u \<Longrightarrow> c i = c' i) \<Longrightarrow> bisect c l u = bisect c' l u"
proof (induction c l u rule: bisect.induct)
  case (1 c l u)
  show ?case
  proof (cases "l < u")
    case True
    let ?m = "(l + u) div 2"
    have "?m < u" using True by simp
    then have m: "c ?m = c' ?m" and lo: "c ?m < 0 \<Longrightarrow> bisect c l ?m = bisect c' l ?m"
      and hi: "\<not> c ?m < 0 \<Longrightarrow> c ?m > 0 \<Longrightarrow> bisect c (?m + 1) u = bisect c' (?m + 1) u"
      using 1 True by auto
    show ?thesis
      unfolding bisect.simps [of c l u] bisect.simps [of c' l u] using True m lo hi by (auto simp: Let_def)
  qed (simp add: bisect.simps)
qed

lemma bsearch_cong:
  "(\<And>x. x \<in> set xs \<Longrightarrow> c key x = c' key x) \<Longrightarrow> bsearch c key xs = bsearch c' key xs"
  unfolding bsearch_def by (intro arg_cong [where f = fst] bisect_cong) simp

text \<open>The sort is stable: it keeps the order of entries that compare equal.\<close>

lemma filter_cmp_insort:
  "(\<And>y. P x \<Longrightarrow> P y \<Longrightarrow> cmp x y \<le> 0) \<Longrightarrow>
   filter P (cmp_insort cmp x ys) = (if P x then x # filter P ys else filter P ys)"
  by (induction ys) auto

lemma filter_qsort:
  "(\<And>x y. P x \<Longrightarrow> P y \<Longrightarrow> cmp x y \<le> 0) \<Longrightarrow> filter P (qsort cmp xs) = filter P xs"
  by (induction xs) (simp_all add: qsort_def filter_cmp_insort)

subsection \<open>What a header holds\<close>

definition lookups :: "header \<Rightarrow> u32 \<Rightarrow> indexEntry list" where
  "lookups h tag = filter (\<lambda>e. ie_tag e = tag) (h_index h)"

definition header_inv :: "header \<Rightarrow> bool" where
  "header_inv h \<longleftrightarrow>
     (\<forall>e \<in> set (h_index h). small_tag (ie_tag e)) \<and> length (h_index h) \<le> h_indexAlloced h \<and>
     (h_sorted h \<longrightarrow> tags.ascending (h_index h))"

lemma lookups_empty_iff: "lookups h tag = [] \<longleftrightarrow> (\<forall>e \<in> set (h_index h). ie_tag e \<noteq> tag)"
  by (auto simp: lookups_def filter_empty_conv)

lemma qsort_index: "header_inv h \<Longrightarrow> qsort indexCmp (h_index h) = qsort tag_cmp (h_index h)"
  by (intro qsort_cong indexCmp_small) (auto simp: header_inv_def)

lemma headerSort_inv: "header_inv h \<Longrightarrow> header_inv (headerSort h) \<and> h_sorted (headerSort h)"
  using tags.ascending_qsort [of "h_index h"] by (auto simp: headerSort_def header_inv_def qsort_index)

lemma headerSort_lookups: "header_inv h \<Longrightarrow> lookups (headerSort h) tag = lookups h tag"
  unfolding headerSort_def lookups_def
  by (auto simp: qsort_index intro!: filter_qsort simp: tag_cmp_def)

lemma headerSort_same [simp]:
  "h_blob (headerSort h) = h_blob h" "h_flags (headerSort h) = h_flags h" "h_instance (headerSort h) = h_instance h"
  "mset (h_index (headerSort h)) = mset (h_index h)" "set (h_index (headerSort h)) = set (h_index h)"
  by (simp_all add: headerSort_def)

lemma findEntry_header [simp]: "fst (findEntry h tag type) = headerSort h"
  by (auto simp: findEntry_def Let_def split: option.splits)

lemma look_back_le: "look_back xs tag type i \<le> i"
  by (induction i) (auto intro: le_SucI)

lemma bsearch_index:
  assumes "header_inv h" "small_tag tag" "h_sorted h"
  shows "(\<exists>i. bsearch indexCmp (key_entry tag) (h_index h) = Some i) \<longleftrightarrow> lookups h tag \<noteq> []"
    "bsearch indexCmp (key_entry tag) (h_index h) = Some i \<Longrightarrow> i < length (h_index h) \<and> ie_tag (h_index h ! i) = tag"
proof -
  have key: "ie_tag (key_entry tag) = tag" by (simp add: key_entry_def)
  have zero: "tag_cmp (key_entry tag) e = 0 \<longleftrightarrow> ie_tag e = tag" for e
    by (auto simp: tag_cmp_def key word_uint_eq_iff)
  have "bsearch indexCmp (key_entry tag) (h_index h) = bsearch tag_cmp (key_entry tag) (h_index h)"
    using assms by (intro bsearch_cong indexCmp_small) (auto simp: key header_inv_def)
  moreover have asc: "tags.ascending (h_index h)" using assms by (simp add: header_inv_def)
  ultimately show "(\<exists>i. bsearch indexCmp (key_entry tag) (h_index h) = Some i) \<longleftrightarrow> lookups h tag \<noteq> []"
    "bsearch indexCmp (key_entry tag) (h_index h) = Some i \<Longrightarrow> i < length (h_index h) \<and> ie_tag (h_index h ! i) = tag"
    using tags.bsearch_ascending [OF asc, of "key_entry tag"] by (auto simp: zero lookups_empty_iff)
qed

lemma findEntry_any:
  assumes "header_inv h" "small_tag tag"
  shows "snd (findEntry h tag RPM_NULL_TYPE) = None \<longleftrightarrow> lookups h tag = []"
    "snd (findEntry h tag RPM_NULL_TYPE) = Some i \<Longrightarrow>
       i < length (h_index (headerSort h)) \<and> ie_tag (h_index (headerSort h) ! i) = tag"
  using bsearch_index [of "headerSort h" tag] headerSort_inv [OF assms(1)] headerSort_lookups [OF assms(1), of tag] assms(2)
  by (auto simp: findEntry_def Let_def split: option.splits)

lemma findEntry_typed:
  assumes "header_inv h" "small_tag tag" "snd (findEntry h tag type) = Some i"
  shows "i < length (h_index (headerSort h))" "ie_tag (h_index (headerSort h) ! i) = tag"
    "type \<noteq> RPM_NULL_TYPE \<Longrightarrow> ie_type (h_index (headerSort h) ! i) = type"
proof -
  obtain j where j: "bsearch indexCmp (key_entry tag) (h_index (headerSort h)) = Some j"
      "i = (if type = RPM_NULL_TYPE then j else look_back (h_index (headerSort h)) tag type j)"
      "type \<noteq> RPM_NULL_TYPE \<Longrightarrow> ie_tag (h_index (headerSort h) ! i) = tag \<and> ie_type (h_index (headerSort h) ! i) = type"
    using assms(3) by (auto simp: findEntry_def Let_def split: option.splits if_splits)
  note b = bsearch_index(2) [OF _ assms(2) _ j(1)]
  have "j < length (h_index (headerSort h))" "ie_tag (h_index (headerSort h) ! j) = tag"
    using b headerSort_inv [OF assms(1)] by auto
  then show "i < length (h_index (headerSort h))" "ie_tag (h_index (headerSort h) ! i) = tag"
    "type \<noteq> RPM_NULL_TYPE \<Longrightarrow> ie_type (h_index (headerSort h) ! i) = type"
    using j(2,3) look_back_le [of "h_index (headerSort h)" tag type j] by (auto split: if_splits)
qed

lemma first_occurrence_spec:
  "first_occurrence xs tag i \<le> i \<and> (\<forall>k. first_occurrence xs tag i \<le> k \<longrightarrow> k < i \<longrightarrow> ie_tag (xs ! k) = tag) \<and>
   (first_occurrence xs tag i \<noteq> 0 \<longrightarrow> ie_tag (xs ! (first_occurrence xs tag i - 1)) \<noteq> tag)"
proof (induction i)
  case (Suc i)
  then show ?case by (auto simp: le_Suc_eq less_Suc_eq)
qed simp

lemma ascending_tags:
  "tags.ascending xs \<longleftrightarrow> sorted_wrt (\<lambda>a b. uint (ie_tag a) \<le> uint (ie_tag b)) xs"
  by (simp add: tags.ascending_sorted_wrt tag_cmp_def)

lemma dropWhile_tag:
  "sorted_wrt (\<lambda>a b. uint (ie_tag a) \<le> uint (ie_tag b)) xs \<Longrightarrow> (\<forall>e \<in> set xs. uint tag \<le> uint (ie_tag e)) \<Longrightarrow>
   dropWhile (\<lambda>e. ie_tag e = tag) xs = filter (\<lambda>e. ie_tag e \<noteq> tag) xs"
proof (induction xs)
  case (Cons x xs)
  show ?case
  proof (cases "ie_tag x = tag")
    case False
    then have "uint tag < uint (ie_tag x)"
      using Cons.prems(2) by (metis list.set_intros(1) order_less_le word_uint_eq_iff)
    then have "filter (\<lambda>e. ie_tag e \<noteq> tag) xs = xs" using Cons.prems(1) by (auto intro!: filter_True)
    with False show ?thesis by simp
  qed (use Cons in simp)
qed simp

lemma first_occurrence_split:
  assumes "tags.ascending xs" "i < length xs" "ie_tag (xs ! i) = tag"
  defines "j \<equiv> first_occurrence xs tag i"
  shows "j \<le> i" "ie_tag (xs ! j) = tag" "\<forall>e \<in> set (take j xs). ie_tag e \<noteq> tag"
    "\<forall>e \<in> set (drop j xs). uint tag \<le> uint (ie_tag e)"
proof -
  note f = first_occurrence_spec [of xs tag i, folded j_def]
  have le: "uint (ie_tag (xs ! a)) \<le> uint (ie_tag (xs ! b))" if "a \<le> b" "b < length xs" for a b
    using assms(1) that by (cases "a = b") (auto simp: ascending_tags sorted_wrt_iff_nth_less)
  show "j \<le> i" using f by simp
  show jt: "ie_tag (xs ! j) = tag" using f assms(3) by (metis le_neq_implies_less le_refl)
  show "\<forall>e \<in> set (take j xs). ie_tag e \<noteq> tag"
  proof
    fix e assume "e \<in> set (take j xs)"
    then obtain k where k: "k < j" "e = xs ! k" by (auto simp: in_set_conv_nth)
    show "ie_tag e \<noteq> tag"
    proof
      assume "ie_tag e = tag"
      then have "uint tag \<le> uint (ie_tag (xs ! (j - 1)))" "uint (ie_tag (xs ! (j - 1))) \<le> uint tag"
        using le [of k "j - 1"] le [of "j - 1" j] k jt \<open>j \<le> i\<close> assms(2) by auto
      with f k show False by (simp add: word_uint_eq_iff)
    qed
  qed
  show "\<forall>e \<in> set (drop j xs). uint tag \<le> uint (ie_tag e)"
    using le [of j] jt \<open>j \<le> i\<close> assms(2) by (auto simp: in_set_conv_nth)
qed

lemma delete_tag:
  assumes "tags.ascending xs" "i < length xs" "ie_tag (xs ! i) = tag"
  defines "j \<equiv> first_occurrence xs tag i"
  shows "take j xs @ dropWhile (\<lambda>e. ie_tag e = tag) (drop j xs) = filter (\<lambda>e. ie_tag e \<noteq> tag) xs"
proof -
  note split = first_occurrence_split [OF assms(1-3), folded j_def]
  have "filter (\<lambda>e. ie_tag e \<noteq> tag) (take j xs) = take j xs" using split(3) by (intro filter_True) simp
  moreover have "dropWhile (\<lambda>e. ie_tag e = tag) (drop j xs) = filter (\<lambda>e. ie_tag e \<noteq> tag) (drop j xs)"
    using assms(1) split(4) by (intro dropWhile_tag) (simp_all add: ascending_tags sorted_wrt_drop)
  ultimately show ?thesis by (metis append_take_drop_id filter_append)
qed

lemma headerDel_result:
  assumes "header_inv h" "small_tag tag"
  shows "snd (headerDel h tag) = (if lookups h tag = [] then 1 else 0)"
    "h_index (fst (headerDel h tag)) = filter (\<lambda>e. ie_tag e \<noteq> tag) (h_index (headerSort h))"
    "h_blob (fst (headerDel h tag)) = h_blob h" "h_sorted (fst (headerDel h tag))"
    "h_indexAlloced (fst (headerDel h tag)) = h_indexAlloced (headerSort h)"
    "h_flags (fst (headerDel h tag)) = h_flags h"
proof -
  obtain h' i where r: "findEntry h tag RPM_NULL_TYPE = (h', i)" by fastforce
  then have h': "h' = headerSort h" using findEntry_header [of h tag RPM_NULL_TYPE] by simp
  note inv = headerSort_inv [OF assms(1)]
  have none: "i = None \<longleftrightarrow> lookups h tag = []" using findEntry_any(1) [OF assms] r by simp
  have some: "k < length (h_index h') \<and> ie_tag (h_index h' ! k) = tag" if "i = Some k" for k
    using findEntry_any(2) [OF assms] r h' that by simp
  have asc: "tags.ascending (h_index h')" using inv h' by (simp add: header_inv_def)
  have keep: "filter (\<lambda>e. ie_tag e \<noteq> tag) (h_index h') = h_index h'" if "i = None"
    using that none by (intro filter_True) (auto simp: lookups_empty_iff h')
  show "snd (headerDel h tag) = (if lookups h tag = [] then 1 else 0)"
    "h_index (fst (headerDel h tag)) = filter (\<lambda>e. ie_tag e \<noteq> tag) (h_index (headerSort h))"
    "h_blob (fst (headerDel h tag)) = h_blob h" "h_sorted (fst (headerDel h tag))"
    "h_indexAlloced (fst (headerDel h tag)) = h_indexAlloced (headerSort h)"
    "h_flags (fst (headerDel h tag)) = h_flags h"
    using r none keep delete_tag [OF asc] some inv unfolding h'
    by (cases i; simp add: headerDel_def Let_def)+
qed

lemma headerDel_inv:
  assumes "header_inv h" "small_tag tag"
  shows "header_inv (fst (headerDel h tag))"
    "lookups (fst (headerDel h tag)) t = (if t = tag then [] else lookups h t)"
proof -
  note r = headerDel_result [OF assms] and inv = headerSort_inv [OF assms(1)]
  show "header_inv (fst (headerDel h tag))"
    using r inv by (auto simp: header_inv_def ascending_tags sorted_wrt_filter intro: le_trans [OF length_filter_le])
  have "lookups (fst (headerDel h tag)) t = filter (\<lambda>e. ie_tag e = t \<and> ie_tag e \<noteq> tag) (h_index (headerSort h))"
    by (simp add: lookups_def r(2) conj_commute)
  also have "\<dots> = (if t = tag then [] else lookups (headerSort h) t)"
    by (auto simp: lookups_def intro!: filter_cong)
  finally show "lookups (fst (headerDel h tag)) t = (if t = tag then [] else lookups h t)"
    by (simp add: headerSort_lookups [OF assms(1)])
qed

subsection \<open>Copied data is well formed\<close>

text \<open>Strings are NUL-free and the strings of an array have less than $2^{32}$ bytes together.\<close>

definition nul_free :: "cstr \<Rightarrow> bool" where
  "nul_free s \<longleftrightarrow> CHR 0x00 \<notin> set s"

definition strings_size :: "cstr list \<Rightarrow> nat" where
  "strings_size ss = sum_list (map (\<lambda>s. length s + 1) ss)"

definition string_block :: "cstr list \<Rightarrow> bytes" where
  "string_block ss = concat (map (\<lambda>s. cbytes s @ [0]) ss)"

definition data_valid :: "tddata \<Rightarrow> bool" where
  "data_valid d =
     (case d of
        TdString s \<Rightarrow> nul_free s \<and> length s + 1 < 2 ^ 32
      | TdStrings ss \<Rightarrow>
          (\<forall>s \<in> set ss. case s of None \<Rightarrow> True | Some s \<Rightarrow> nul_free s) \<and>
          sum_list (map (case_option 0 (\<lambda>s. Suc (length s))) ss) < 2 ^ 32
      | _ \<Rightarrow> True)"

lemma strings_size_simps [simp]:
  "strings_size [] = 0" "strings_size (s # ss) = length s + 1 + strings_size ss"
  by (simp_all add: strings_size_def)

lemma string_block_simps [simp]:
  "string_block [] = []" "string_block (s # ss) = cbytes s @ 0 # string_block ss"
  by (simp_all add: string_block_def)

lemma length_cbytes [simp]: "length (cbytes s) = length s"
  by (simp add: cbytes_def)

lemma length_string_block [simp]: "length (string_block ss) = strings_size ss"
  by (induction ss) auto

lemma length_le_strings_size: "length ss \<le> strings_size ss"
  by (induction ss) auto

lemma unat_of_char: "unat (of_char c :: 8 word) = of_char c"
proof -
  have "(of_char c :: 8 word) = of_nat (of_char c)" by (simp add: of_nat_of_char)
  then have "unat (of_char c :: 8 word) = of_char c mod 256" by (simp add: unat_of_nat)
  moreover have "(of_char c :: nat) < 256" by (metis nat_of_char_less_256)
  ultimately show ?thesis by simp
qed

lemma cchars_cbytes [simp]: "cchars (cbytes s) = s"
  by (induction s) (simp_all add: cchars_def cbytes_def unat_of_char)

lemma cbytes_nonzero: "nul_free s \<Longrightarrow> 0 \<notin> set (cbytes s)"
proof -
  have "c = CHR 0x00" if "(of_char c :: 8 word) = 0" for c
  proof -
    have "(of_char c :: nat) = 0" using unat_of_char [of c] that by simp
    moreover have "c = char_of (of_char c :: nat)" by simp
    ultimately show ?thesis by (simp add: char_of_def)
  qed
  then show "nul_free s \<Longrightarrow> 0 \<notin> set (cbytes s)" by (auto simp: nul_free_def cbytes_def)
qed

lemma copy_chars_all:
  "0 \<notin> set bs \<Longrightarrow> length bs < unat dl \<Longrightarrow> copy_chars (bs @ [0]) dl = (bs @ [0], dl - of_nat (length bs))"
proof (induction bs arbitrary: dl)
  case (Cons b bs)
  then have "dl \<noteq> 0" by (auto simp: unat_eq_0)
  then have d: "unat (dl - 1) = unat dl - 1" by (rule unat_minus_one)
  then have "length bs < unat (dl - 1)" using Cons.prems by simp
  moreover from this have "dl - 1 > 0" by (simp add: word_less_nat_alt)
  ultimately show ?case using Cons by (auto simp: Let_def)
qed simp

lemma copy_strings_all:
  "\<forall>s \<in> set ss. nul_free s \<Longrightarrow> strings_size ss \<le> unat dl + length ss - 1 \<Longrightarrow> ss = [] \<or> 0 < unat dl \<Longrightarrow>
   copy_strings ss dl = string_block ss"
proof (induction ss arbitrary: dl)
  case (Cons s ss)
  have len: "length s < unat dl" using Cons.prems(2,3) length_le_strings_size [of ss] by simp
  then have "copy_chars (cbytes s @ [0]) dl = (cbytes s @ [0], dl - of_nat (length s))"
    using copy_chars_all [of "cbytes s" dl] Cons.prems(1) cbytes_nonzero by simp
  moreover have "unat (dl - of_nat (length s)) = unat dl - length s"
  proof -
    have "unat (of_nat (length s) :: u32) = length s"
      using len u32_less [of dl] by (simp add: unat_of_nat)
    then show ?thesis using len by (simp add: unat_sub word_le_nat_alt)
  qed
  ultimately show ?case using Cons len by (simp add: word_less_nat_alt)
qed simp

lemma strtaglen_skip: "0 \<notin> set bs \<Longrightarrow> strtaglen (bs @ rest) c n = strtaglen rest c (n + length bs)"
  by (induction bs arbitrary: n) auto

lemma strtaglen_block:
  "\<forall>s \<in> set ss. nul_free s \<Longrightarrow> ss \<noteq> [] \<Longrightarrow> length ss < 2 ^ 32 \<Longrightarrow>
   strtaglen (string_block ss @ rest) (of_nat (length ss)) n = Some (n + strings_size ss)"
proof (induction ss arbitrary: n)
  case (Cons s ss)
  have skip: "strtaglen (string_block (s # ss) @ rest) (of_nat (length (s # ss))) n =
      strtaglen (0 # string_block ss @ rest) (of_nat (length (s # ss))) (n + length s)"
    using strtaglen_skip [of "cbytes s" "0 # string_block ss @ rest"] Cons.prems(1) cbytes_nonzero by simp
  show ?case
  proof (cases ss)
    case Nil
    then show ?thesis unfolding skip by simp
  next
    case (Cons t ts)
    have "(of_nat (length (s # ss)) :: u32) \<noteq> 1"
    proof
      assume "(of_nat (length (s # ss)) :: u32) = 1"
      then have "unat (of_nat (length (s # ss)) :: u32) = 1" by (simp only: unat_1)
      then have "length (s # ss) = 1" using Cons.prems(3) by (simp only: unat_of_nat) simp
      then show False using \<open>ss = t # ts\<close> by simp
    qed
    moreover have "(of_nat (length (s # ss)) :: u32) - 1 = of_nat (length ss)" by simp
    ultimately have "strtaglen (0 # string_block ss @ rest) (of_nat (length (s # ss))) (n + length s) =
        strtaglen (string_block ss @ rest) (of_nat (length ss)) (n + length s + 1)"
      by (simp del: of_nat_Suc)
    also have "\<dots> = Some (n + length s + 1 + strings_size ss)"
      using Cons.prems Cons.IH [of "n + length s + 1"] \<open>ss = t # ts\<close> by simp
    finally show ?thesis unfolding skip by simp
  qed
qed simp

lemma strings_of_spec:
  "strings_of n ss = Inr ts \<Longrightarrow>
   length ts = n \<and> set ts \<subseteq> {s. Some s \<in> set ss} \<and>
   strings_size ts \<le> sum_list (map (case_option 0 (\<lambda>s. Suc (length s))) ss)"
  by (induction n ss arbitrary: ts rule: strings_of.induct) (fastforce simp: rbind_eq_Inr)+

definition data_ok :: "u32 \<Rightarrow> bytes \<Rightarrow> u32 \<Rightarrow> bool" where
  "data_ok type bs cnt \<longleftrightarrow>
     \<not> hdrchkType type \<and> cnt \<noteq> 0 \<and> bs \<noteq> [] \<and> length bs < 2 ^ 32 \<and>
     dataLength type bs cnt = Some (of_nat (length bs))"

lemma type_cases:
  assumes "\<not> hdrchkType type"
  shows "type \<in> {1, 2, 3, 4, 5, 6, 7, 8, 9}"
proof -
  have "type \<noteq> 0" "unat type \<le> 9" using assms by (auto simp: hdrchkType_def word_le_nat_alt not_less)
  then have "unat type \<in> {1, 2, 3, 4, 5, 6, 7, 8, 9}" by (auto simp: unat_eq_0 numeral_eq_Suc le_Suc_eq)
  then have "of_nat (unat type) \<in> (of_nat ` {1, 2, 3, 4, 5, 6, 7, 8, 9} :: u32 set)" by (rule imageI)
  then show ?thesis by simp
qed

lemma strings_of_take: "strings_of n ss = Inr ts \<Longrightarrow> take n ss = map Some ts"
  by (induction n ss arbitrary: ts rule: strings_of.induct) (auto simp: rbind_eq_Inr)

text \<open>What the copied block holds, for each kind of type.\<close>

lemma grabData_len:
  assumes "grabData type d cnt = Inr (Some bs)"
  obtains len where "dataLength_mem type d cnt = Inr (Some len)" "copyData type d cnt len = Inr bs" "length bs = unat len" "0 < len"
  using assms by (auto simp: grabData_def rbind_eq_Inr split: option.splits if_splits)

lemma grabData_string:
  assumes "grabData RPM_STRING_TYPE d cnt = Inr (Some bs)" "data_valid d"
  shows "\<exists>t. cnt = 1 \<and> d = TdString t \<and> nul_free t \<and> length t + 1 < 2 ^ 32 \<and> bs = string_block [t]"
proof -
  obtain len where len: "dataLength_mem RPM_STRING_TYPE d cnt = Inr (Some len)" "copyData RPM_STRING_TYPE d cnt len = Inr bs"
    using assms(1) by (rule grabData_len)
  obtain t where t: "cnt = 1" "d = TdString t" "len = of_nat (length t + 1)"
    using len(1) by (auto simp: dataLength_mem_def split: if_splits tddata.splits)
  have v: "nul_free t" "length t + 1 < 2 ^ 32" using assms(2) by (simp_all add: data_valid_def t)
  then have "unat len = length t + 1" by (simp only: t(3) unat_of_nat) simp
  then have "bs = string_block [t]" using len(2) t by (auto simp: copyData_def is_array_def split: if_splits)
  then show ?thesis using t v by blast
qed

lemma grabData_array:
  assumes "grabData type d cnt = Inr (Some bs)" "data_valid d" "is_array type" "cnt \<noteq> 0"
  shows "\<exists>ss ts. d = TdStrings ss \<and> take (unat cnt) ss = map Some ts \<and> length ts = unat cnt \<and>
    (\<forall>s \<in> set ts. nul_free s) \<and> strings_size ts < 2 ^ 32 \<and> bs = string_block ts"
proof -
  obtain len where len: "dataLength_mem type d cnt = Inr (Some len)" "copyData type d cnt len = Inr bs" "0 < len"
    using assms(1) by (rule grabData_len)
  have "type \<noteq> RPM_STRING_TYPE" using assms(3) by (auto simp: is_array_def)
  then obtain ss ts where t: "d = TdStrings ss" "strings_of (unat cnt) ss = Inr ts" "len = of_nat (strings_size ts)"
    using len(1,3) assms(3,4)
    by (auto simp: dataLength_mem_def rbind_eq_Inr strings_size_def split: tddata.splits if_splits)
  note sp = strings_of_spec [OF t(2)]
  have v: "\<forall>s \<in> set ts. nul_free s" "strings_size ts < 2 ^ 32"
    using assms(2) sp by (auto simp: data_valid_def t(1) split: option.splits)
  then have ul: "unat len = strings_size ts" by (simp only: t(3) unat_of_nat) simp
  have ne: "ts \<noteq> []" using sp assms(4) by (auto simp: unat_eq_0)
  have "bs = copy_strings ts len" using len(2) assms(3) t by (simp add: copyData_def)
  also have "\<dots> = string_block ts"
    using v(1) ul ne len(3) by (intro copy_strings_all) (auto simp: word_less_nat_alt neq_Nil_conv)
  finally show ?thesis using t(1) strings_of_take [OF t(2)] sp v by blast
qed

text \<open>The bytes a pointer to numbers leads to; a string can be read as bytes, too.\<close>

definition raw_bytes :: "tddata \<Rightarrow> bytes" where
  "raw_bytes d = (case d of TdBytes bs \<Rightarrow> bs | TdString s \<Rightarrow> cbytes s @ [0] | _ \<Rightarrow> [])"

lemma grabData_number:
  assumes "grabData type d cnt = Inr (Some bs)" "type \<noteq> RPM_STRING_TYPE" "\<not> is_array type"
  shows "typeSizes ! unat type \<noteq> -1 \<and> length bs = unat (of_int (typeSizes ! unat (type AND 0xf)) * cnt :: u32) \<and>
    bs = take (length bs) (raw_bytes d)"
proof -
  obtain len where len: "dataLength_mem type d cnt = Inr (Some len)" "copyData type d cnt len = Inr bs" "length bs = unat len" "0 < len"
    using assms(1) by (rule grabData_len)
  then have "typeSizes ! unat type \<noteq> -1" "len = of_int (typeSizes ! unat (type AND 0xf)) * cnt"
    using assms(2,3) by (auto simp: dataLength_mem_def split: if_splits)
  moreover have "bs = take (length bs) (raw_bytes d)"
    using len(2,3,4) assms(3) by (auto simp: copyData_def raw_bytes_def split: tddata.splits if_splits)
  ultimately show ?thesis using len(3) by simp
qed

lemma grabData_ok:
  assumes "grabData type d cnt = Inr (Some bs)" "\<not> hdrchkType type" "cnt \<noteq> 0" "data_valid d"
  shows "data_ok type bs cnt"
proof -
  obtain len :: u32 where n: "length bs = unat len" "0 < len" using assms(1) by (rule grabData_len)
  then have bs: "bs \<noteq> []" "length bs < 2 ^ 32" using u32_less [of len] by (auto simp: word_less_nat_alt)
  consider (str) "type = RPM_STRING_TYPE" | (arr) "is_array type" | (num) "type \<noteq> RPM_STRING_TYPE" "\<not> is_array type"
    by blast
  then have "dataLength type bs cnt = Some (of_nat (length bs))"
  proof cases
    case str
    then obtain t where "cnt = 1" "nul_free t" "bs = string_block [t]" using grabData_string assms(1,4) by blast
    then show ?thesis using strtaglen_block [of "[t]" "[]" 0] str by (simp add: dataLength_def)
  next
    case arr
    then obtain ts where t: "length ts = unat cnt" "\<forall>s \<in> set ts. nul_free s" "bs = string_block ts"
      using grabData_array assms(1,3,4) by blast
    then have "ts \<noteq> []" using bs(1) by auto
    then have "strtaglen bs cnt 0 = Some (strings_size ts)"
      using strtaglen_block [of ts "[]" 0] t u32_less [of cnt] by simp
    then show ?thesis using arr t(3) by (auto simp: dataLength_def is_array_def)
  next
    case num
    then show ?thesis using grabData_number [OF assms(1)] n(1) by (simp add: dataLength_def is_array_def Let_def)
  qed
  then show ?thesis using assms(2,3) bs by (simp add: data_ok_def)
qed

text \<open>Everything a header holds is data of the type and count the entry says.\<close>

definition entry_wf :: "header \<Rightarrow> indexEntry \<Rightarrow> bool" where
  "entry_wf h e \<longleftrightarrow>
     (\<exists>bs. entry_data h e = Inr bs \<and> unat (ie_length e) = length bs \<and> data_ok (ie_type e) bs (ie_count e))"

definition header_wf :: "header \<Rightarrow> bool" where
  "header_wf h \<longleftrightarrow> header_inv h \<and> (\<forall>e \<in> set (h_index h). entry_wf h e)"

lemma entry_data_blob: "h_blob h' = h_blob h \<Longrightarrow> entry_data h' e = entry_data h e"
  unfolding entry_data_def Let_def by (cases "ie_data e") simp_all

lemma entry_wf_blob: "h_blob h' = h_blob h \<Longrightarrow> entry_wf h' e = entry_wf h e"
  by (simp add: entry_wf_def entry_data_blob [of h' h])

lemma headerSort_wf: "header_wf h \<Longrightarrow> header_wf (headerSort h)"
  using headerSort_inv [of h] by (auto simp: header_wf_def entry_wf_blob [of "headerSort h" h])

lemma headerDel_wf: "header_wf h \<Longrightarrow> small_tag tag \<Longrightarrow> header_wf (fst (headerDel h tag))"
  using headerDel_inv(1) [of h tag] headerDel_result [of h tag]
  by (auto simp: header_wf_def entry_wf_blob [of "fst (headerDel h tag)" h])

definition new_entry :: "rpmtd \<Rightarrow> bytes \<Rightarrow> indexEntry" where
  "new_entry td bs =
     \<lparr>ie_info = \<lparr>ei_tag = td_tag td, ei_type = td_type td, ei_offset = 0, ei_count = td_count td\<rparr>,
      ie_data = Alloc bs, ie_length = of_nat (length bs), ie_rdlen = 0\<rparr>"

lemma new_entry_ids [simp]:
  "ie_tag (new_entry td bs) = td_tag td" "ie_type (new_entry td bs) = td_type td" "ie_count (new_entry td bs) = td_count td"
  by (simp_all add: new_entry_def)

lemma new_entry_wf: "data_ok (td_type td) bs (td_count td) \<Longrightarrow> entry_wf h (new_entry td bs)"
  by (auto simp: entry_wf_def new_entry_def entry_data_def data_ok_def unat_of_nat)

lemma intAddEntry_cases:
  assumes "intAddEntry h td = Inr (h', ok)" "data_valid (td_data td)"
  obtains "\<not> ok" "h' = h"
  | bs where "ok" "data_ok (td_type td) bs (td_count td)" "grabData (td_type td) (td_data td) (td_count td) = Inr (Some bs)"
      "h_index h' = h_index h @ [new_entry td bs]" "h_blob h' = h_blob h" "h_flags h' = h_flags h"
      "h_indexAlloced h' = (if length (h_index h) = h_indexAlloced h then h_indexAlloced h + INDEX_MALLOC_SIZE else h_indexAlloced h)"
      "h_sorted h' = (h_sorted h \<and> (h_index h = [] \<or> \<not> td_tag td < ie_tag (last (h_index h))))"
  using assms grabData_ok [of "td_type td" "td_data td" "td_count td"]
  by (auto simp: intAddEntry_def Let_def new_entry_def rbind_eq_Inr split: if_splits option.splits)

lemma ascending_snoc:
  "tags.ascending (xs @ [x]) \<longleftrightarrow> tags.ascending xs \<and> (\<forall>e \<in> set xs. uint (ie_tag e) \<le> uint (ie_tag x))"
  by (auto simp: ascending_tags sorted_wrt_append)

lemma ascending_last:
  "tags.ascending xs \<Longrightarrow> xs \<noteq> [] \<Longrightarrow> e \<in> set xs \<Longrightarrow> uint (ie_tag e) \<le> uint (ie_tag (last xs))"
  by (induction xs) (auto simp: ascending_tags)

lemma intAddEntry_wf:
  assumes "intAddEntry h td = Inr (h', ok)" "data_valid (td_data td)" "header_wf h" "small_tag (td_tag td)"
  shows "header_wf h'"
  using assms(1,2)
proof (cases rule: intAddEntry_cases)
  case (2 bs)
  have tag: "ie_tag (new_entry td bs) = td_tag td" by (simp add: new_entry_def)
  have "tags.ascending (h_index h')" if "h_sorted h'"
  proof -
    have asc: "tags.ascending (h_index h)" using that 2(8) assms(3) by (simp add: header_wf_def header_inv_def)
    have "uint (ie_tag e) \<le> uint (td_tag td)" if "e \<in> set (h_index h)" for e
      using ascending_last [OF asc _ that] \<open>h_sorted h'\<close> 2(8) that
      by (cases "h_index h = []") (auto simp: word_less_def)
    then show ?thesis using asc by (simp add: 2(4) ascending_snoc tag)
  qed
  moreover have "length (h_index h') \<le> h_indexAlloced h'" using assms(3) by (auto simp: 2(4,7) header_wf_def header_inv_def)
  ultimately have "header_inv h'"
    using assms(3,4) by (auto simp: header_inv_def header_wf_def 2(4) tag)
  moreover have "\<forall>e \<in> set (h_index h'). entry_wf h' e"
    using assms(3) new_entry_wf [OF 2(2)] by (auto simp: header_wf_def 2(4) entry_wf_blob [OF 2(5)])
  ultimately show ?thesis by (simp add: header_wf_def)
qed (use assms in simp)

subsection \<open>Appending and replacing\<close>

lemma strtaglen_append:
  "strtaglen xs c n = Some m \<Longrightarrow> strtaglen (xs @ ys) c n = Some m"
  by (induction xs c n rule: strtaglen.induct) (auto split: if_splits)

lemma strtaglen_shift: "strtaglen xs c (n + k) = map_option (\<lambda>m. m + k) (strtaglen xs c n)"
  by (induction xs c n rule: strtaglen.induct) auto

text \<open>A full scan of one block goes on with the next one.\<close>

lemma strtaglen_concat:
  "strtaglen xs c n = Some (n + length xs) \<Longrightarrow> c \<noteq> 0 \<Longrightarrow> d \<noteq> 0 \<Longrightarrow> unat c + unat d < 2 ^ 32 \<Longrightarrow>
   strtaglen (xs @ ys) (c + d) n = strtaglen ys d (n + length xs)"
proof (induction xs arbitrary: c n)
  case (Cons b xs)
  have sum: "unat (c + d) = unat c + unat d" using Cons.prems(4) by (simp add: unat_word_ariths)
  have "unat d \<noteq> 0" "unat c \<noteq> 0" using Cons.prems(2,3) by (simp_all add: unat_eq_0)
  then have "unat (c + d) \<noteq> unat (1 :: u32)" unfolding sum by simp
  then have ne: "c + d \<noteq> 1" by metis
  show ?case
  proof (cases "b = 0")
    case b: True
    show ?thesis
    proof (cases "c = 1")
      case True
      then have "xs = []" using Cons.prems(1) b by simp
      moreover have "1 + d - 1 = d" by simp
      ultimately show ?thesis using b ne True by (simp only: append_Cons append_Nil strtaglen.simps if_True if_False) simp
    next
      case False
      then have "strtaglen xs (c - 1) (n + 1) = Some (n + 1 + length xs)" using Cons.prems(1) b by simp
      moreover have "unat (c - 1) = unat c - 1" using Cons.prems(2) by (rule unat_minus_one)
      moreover have "c - 1 \<noteq> 0" using False by simp
      ultimately have "strtaglen (xs @ ys) (c - 1 + d) (n + 1) = strtaglen ys d (n + 1 + length xs)"
        using Cons.prems by (intro Cons.IH) auto
      moreover have "c + d - 1 = c - 1 + d" by simp
      ultimately show ?thesis using b ne by (simp only: append_Cons strtaglen.simps if_True if_False) simp
    qed
  next
    case False
    then have "strtaglen xs c (n + 1) = Some (n + 1 + length xs)" using Cons.prems(1) by simp
    from Cons.IH [OF this Cons.prems(2-4)] False show ?thesis by simp
  qed
qed simp

lemma dataLength_default:
  assumes "type \<noteq> RPM_STRING_TYPE" "\<not> is_array type"
  shows "dataLength type p cnt =
    (let len = of_int (typeSizes ! unat (type AND 0xf)) * cnt in
     if typeSizes ! unat type = -1 \<or> length p < unat len then None else Some len)"
  using assms by (simp add: dataLength_def is_array_def Let_def)

lemma unat_of_nat_u32: "n < 2 ^ 32 \<Longrightarrow> unat (of_nat n :: u32) = n"
  by (simp add: unat_of_nat)

lemma unat_of_nat_inj: "(of_nat m :: u32) = of_nat n \<Longrightarrow> m < 2 ^ 32 \<Longrightarrow> n < 2 ^ 32 \<Longrightarrow> m = n"
  by (metis unat_of_nat_u32)

lemma data_ok_array:
  assumes "is_array type" "cnt \<noteq> 0" "length bs < 2 ^ 32"
  shows "dataLength type bs cnt = Some (of_nat (length bs)) \<longleftrightarrow> strtaglen bs cnt 0 = Some (length bs)"
proof -
  have "dataLength type bs cnt = map_option of_nat (strtaglen bs cnt 0)"
    using assms(1) by (auto simp: dataLength_def is_array_def)
  moreover have "n = length bs" if "strtaglen bs cnt 0 = Some n" "(of_nat n :: u32) = of_nat (length bs)" for n
    using strtaglen_spec [OF that(1) assms(2)] assms(3) that(2) by (intro unat_of_nat_inj) auto
  ultimately show ?thesis by auto
qed

lemma data_ok_append:
  assumes "data_ok type xs c" "data_ok type ys d" "type \<noteq> RPM_STRING_TYPE"
    "length xs + length ys < 2 ^ 32" "unat c + unat d < 2 ^ 32"
  shows "data_ok type (xs @ ys) (c + d)"
proof -
  have c: "c \<noteq> 0" "d \<noteq> 0" using assms(1,2) by (simp_all add: data_ok_def)
  have "unat (c + d) = unat c + unat d" using assms(5) by (simp add: unat_word_ariths)
  then have cd: "c + d \<noteq> 0" using c by (metis add_is_0 unat_eq_0 unat_0)
  have "dataLength type (xs @ ys) (c + d) = Some (of_nat (length xs + length ys))"
  proof (cases "is_array type")
    case True
    have x: "strtaglen xs c 0 = Some (0 + length xs)" and y: "strtaglen ys d 0 = Some (length ys)"
      using assms(1,2,4) data_ok_array [OF True c(1), of xs] data_ok_array [OF True c(2), of ys] by (simp_all add: data_ok_def)
    have "strtaglen (xs @ ys) (c + d) 0 = Some (length ys + length xs)"
      using strtaglen_concat [OF x c assms(5), of ys] strtaglen_shift [of ys d 0 "length xs"] y by simp
    then show ?thesis
      using data_ok_array [OF True cd, of "xs @ ys"] assms(4) by (simp add: add.commute)
  next
    case False
    let ?k = "of_int (typeSizes ! unat (type AND 0xf)) :: u32"
    have n: "?k * c = of_nat (length xs)" "?k * d = of_nat (length ys)" "typeSizes ! unat type \<noteq> -1"
      using assms(1-3) False by (auto simp: data_ok_def dataLength_default Let_def split: if_splits)
    then have "?k * (c + d) = of_nat (length xs + length ys)" by (simp only: distrib_left of_nat_add)
    moreover have "unat (of_nat (length xs + length ys) :: u32) = length xs + length ys"
      using assms(4) by (simp only: unat_of_nat) simp
    ultimately show ?thesis
      unfolding dataLength_default [OF assms(3) False] Let_def using n(3) by (simp only:) simp
  qed
  then show ?thesis using assms cd by (auto simp: data_ok_def)
qed

lemma ENTRY_offset_wf:
  "entry_data h (e\<lparr>ie_info := i, ie_data := Alloc bs, ie_length := n\<rparr>) =
     (if unat n \<le> length bs then Inr (take (unat n) bs) else Inl Overread)"
  by (simp add: entry_data_def)

lemma filter_update_tag:
  "i < length xs \<Longrightarrow> ie_tag e = ie_tag (xs ! i) \<Longrightarrow> ie_tag e \<noteq> t \<Longrightarrow>
   filter (\<lambda>e. ie_tag e = t) (xs[i := e]) = filter (\<lambda>e. ie_tag e = t) xs"
proof (induction xs arbitrary: i)
  case (Cons x xs)
  then show ?case by (cases i) auto
qed simp

text \<open>An entry of a sorted header is replaced by one of the same tag.\<close>

lemma update_entry_wf:
  assumes "header_wf h" "i < length (h_index h)" "ie_tag e = ie_tag (h_index h ! i)" "entry_wf h e"
  shows "header_wf (h\<lparr>h_index := (h_index h)[i := e]\<rparr>)"
    "t \<noteq> ie_tag e \<Longrightarrow> lookups (h\<lparr>h_index := (h_index h)[i := e]\<rparr>) t = lookups h t"
proof -
  let ?h = "h\<lparr>h_index := (h_index h)[i := e]\<rparr>"
  have "tags.ascending ((h_index h)[i := e])" if "tags.ascending (h_index h)"
    using that assms(2,3) by (auto simp: ascending_tags sorted_wrt_iff_nth_less nth_list_update)
  moreover have "set ((h_index h)[i := e]) \<subseteq> insert e (set (h_index h))" by (rule set_update_subset_insert)
  moreover have "small_tag (ie_tag e)"
    using assms(1,2) unfolding assms(3) by (simp add: header_wf_def header_inv_def)
  ultimately have "header_inv ?h" using assms(1) by (auto simp: header_inv_def header_wf_def)
  moreover have "\<forall>x \<in> set (h_index ?h). entry_wf ?h x"
    using assms(1,4) \<open>set ((h_index h)[i := e]) \<subseteq> insert e (set (h_index h))\<close>
    by (auto simp: header_wf_def entry_wf_blob [of ?h h])
  ultimately show "header_wf ?h" by (simp add: header_wf_def)
  show "t \<noteq> ie_tag e \<Longrightarrow> lookups ?h t = lookups h t"
    using assms(2,3) by (simp add: lookups_def filter_update_tag)
qed

lemma headerMod_cases:
  assumes "headerMod h td = Inr (h', ok)"
  obtains "\<not> ok" "h' = headerSort h"
  | i j bs where "ok" "snd (findEntry h (td_tag td) (td_type td)) = Some j"
      "grabData (td_type td) (td_data td) (td_count td) = Inr (Some bs)"
      "i = first_occurrence (h_index (headerSort h)) (td_tag td) j"
      "h' = headerSort h\<lparr>h_index := (h_index (headerSort h))[i := (h_index (headerSort h) ! i)
        \<lparr>ie_info := (ie_info (h_index (headerSort h) ! i))\<lparr>ei_count := td_count td, ei_type := td_type td,
           ei_offset := (if ENTRY_IN_REGION (h_index (headerSort h) ! i) then 0 else ie_offset (h_index (headerSort h) ! i))\<rparr>,
         ie_data := Alloc bs, ie_length := of_nat (length bs)\<rparr>]\<rparr>"
proof -
  obtain k where k: "findEntry h (td_tag td) (td_type td) = (headerSort h, k)"
    by (metis findEntry_header prod.collapse)
  show thesis
    using assms that k by (auto simp: headerMod_def Let_def rbind_eq_Inr split: option.splits if_splits)
qed

lemma headerMod_wf:
  assumes "headerMod h td = Inr (h', ok)" "header_wf h" "small_tag (td_tag td)" "data_valid (td_data td)"
    "\<not> hdrchkType (td_type td)" "td_count td \<noteq> 0"
  shows "header_wf h'" "t \<noteq> td_tag td \<Longrightarrow> lookups h' t = lookups h t"
proof -
  have inv: "header_inv h" using assms(2) by (simp add: header_wf_def)
  note sortwf = headerSort_wf [OF assms(2)]
  have asc: "tags.ascending (h_index (headerSort h))"
    using headerSort_inv [OF inv] by (simp add: header_inv_def)
  have "header_wf h' \<and> (t \<noteq> td_tag td \<longrightarrow> lookups h' t = lookups h t)"
    using assms(1)
  proof (cases rule: headerMod_cases)
    case (2 i j bs)
    note f = findEntry_typed [OF inv assms(3) 2(2)]
    note o = first_occurrence_split [OF asc f(1,2)]
    let ?e = "h_index (headerSort h) ! i"
    let ?e' = "?e\<lparr>ie_info := (ie_info ?e)\<lparr>ei_count := td_count td, ei_type := td_type td,
           ei_offset := (if ENTRY_IN_REGION ?e then 0 else ie_offset ?e)\<rparr>,
         ie_data := Alloc bs, ie_length := of_nat (length bs)\<rparr>"
    have i: "i < length (h_index (headerSort h))" "ie_tag ?e = td_tag td" using o f(1) unfolding 2(4) by simp_all
    have ok: "data_ok (td_type td) bs (td_count td)" using grabData_ok [OF 2(3) assms(5,6,4)] .
    then have "unat (of_nat (length bs) :: u32) = length bs" by (simp add: data_ok_def unat_of_nat)
    then have "entry_wf (headerSort h) ?e'" using ok by (auto simp: entry_wf_def ENTRY_offset_wf)
    from update_entry_wf [OF sortwf i(1) _ this] i(2) 2(5) headerSort_lookups [OF inv] show ?thesis by simp
  qed (use sortwf headerSort_lookups [OF inv] in simp)
  then show "header_wf h'" "t \<noteq> td_tag td \<Longrightarrow> lookups h' t = lookups h t" by auto
qed

lemma entry_append_cases:
  assumes "entry_append h i extra cnt = Inr h'"
  obtains old where "entry_data h (h_index h ! i) = Inr old"
    "h' = h\<lparr>h_index := (h_index h)[i := (h_index h ! i)
      \<lparr>ie_info := (ie_info (h_index h ! i))
         \<lparr>ei_offset := (if ENTRY_IN_REGION (h_index h ! i) then 0 else ie_offset (h_index h ! i)), ei_count := cnt\<rparr>,
       ie_data := Alloc (old @ extra), ie_length := ie_length (h_index h ! i) + of_nat (length extra)\<rparr>]\<rparr>"
  using assms by (auto simp: entry_append_def Let_def rbind_eq_Inr)

lemma entry_append_wf:
  assumes "entry_append h i extra cnt = Inr h'" "header_wf h" "i < length (h_index h)"
    "data_ok (ie_type (h_index h ! i)) (the_old @ extra) cnt" "entry_data h (h_index h ! i) = Inr the_old"
  shows "header_wf h'" "t \<noteq> ie_tag (h_index h ! i) \<Longrightarrow> lookups h' t = lookups h t"
proof -
  let ?e = "h_index h ! i"
  from assms(1,5) have h': "h' = h\<lparr>h_index := (h_index h)[i := ?e
      \<lparr>ie_info := (ie_info ?e)\<lparr>ei_offset := (if ENTRY_IN_REGION ?e then 0 else ie_offset ?e), ei_count := cnt\<rparr>,
       ie_data := Alloc (the_old @ extra), ie_length := ie_length ?e + of_nat (length extra)\<rparr>]\<rparr>"
    by (auto elim!: entry_append_cases)
  let ?e' = "?e\<lparr>ie_info := (ie_info ?e)\<lparr>ei_offset := (if ENTRY_IN_REGION ?e then 0 else ie_offset ?e), ei_count := cnt\<rparr>,
       ie_data := Alloc (the_old @ extra), ie_length := ie_length ?e + of_nat (length extra)\<rparr>"
  have "entry_wf h ?e" using assms(2,3) by (simp add: header_wf_def)
  then have old: "unat (ie_length ?e) = length the_old" using assms(5) by (auto simp: entry_wf_def)
  have "length the_old + length extra < 2 ^ 32" using assms(4) by (simp add: data_ok_def)
  then have "unat (ie_length ?e + of_nat (length extra)) = length the_old + length extra"
    using old by (simp add: unat_word_ariths unat_of_nat)
  then have "entry_wf h ?e'" using assms(4) by (auto simp: entry_wf_def ENTRY_offset_wf)
  from update_entry_wf [OF assms(2,3) _ this]
  show "header_wf h'" "t \<noteq> ie_tag ?e \<Longrightarrow> lookups h' t = lookups h t" unfolding h' by simp_all
qed

text \<open>Appending stays below the limits of the 32-bit length and count.\<close>

definition append_fits :: "header \<Rightarrow> rpmtd \<Rightarrow> bool" where
  "append_fits h td \<longleftrightarrow>
     (\<exists>bs. grabData (td_type td) (td_data td) (td_count td) = Inr (Some bs) \<and>
       (\<forall>e \<in> set (lookups h (td_tag td)).
          unat (ie_count e) + unat (td_count td) < 2 ^ 32 \<and> unat (ie_length e) + length bs < 2 ^ 32))"

lemma intAppendEntry_cases:
  assumes "intAppendEntry h td = Inr (h', ok)"
  obtains "\<not> ok" "h' = h \<or> h' = headerSort h"
  | i bs len where "ok" "snd (findEntry h (td_tag td) (td_type td)) = Some i" "td_type td \<noteq> RPM_STRING_TYPE"
      "td_type td \<noteq> RPM_I18NSTRING_TYPE"
      "dataLength_mem (td_type td) (td_data td) (td_count td) = Inr (Some len)"
      "copyData (td_type td) (td_data td) (td_count td) len = Inr bs" "length bs = unat len"
      "entry_append (headerSort h) i bs (ie_count (h_index (headerSort h) ! i) + td_count td) = Inr h'"
proof -
  obtain k where k: "findEntry h (td_tag td) (td_type td) = (headerSort h, k)"
    by (metis findEntry_header prod.collapse)
  show thesis
    using assms that k by (auto simp: intAppendEntry_def Let_def rbind_eq_Inr split: option.splits if_splits)
qed

lemma intAppendEntry_wf:
  assumes "intAppendEntry h td = Inr (h', ok)" "header_wf h" "small_tag (td_tag td)" "data_valid (td_data td)"
    "\<not> hdrchkType (td_type td)" "td_count td \<noteq> 0" "append_fits h td"
  shows "header_wf h'" "t \<noteq> td_tag td \<Longrightarrow> lookups h' t = lookups h t"
proof -
  have inv: "header_inv h" using assms(2) by (simp add: header_wf_def)
  note sortwf = headerSort_wf [OF assms(2)]
  have "header_wf h' \<and> (t \<noteq> td_tag td \<longrightarrow> lookups h' t = lookups h t)"
    using assms(1)
  proof (cases rule: intAppendEntry_cases)
    case (2 i bs len)
    let ?e = "h_index (headerSort h) ! i"
    note f = findEntry_typed [OF inv assms(3) 2(2)]
    have "td_type td \<noteq> RPM_NULL_TYPE" using assms(5) by (auto simp: hdrchkType_def)
    with f have f3: "ie_type ?e = td_type td" by simp
    have mem: "?e \<in> set (lookups h (td_tag td))"
      using nth_mem [OF f(1)] f(2) by (simp add: lookups_def)
    from assms(7) 2(5,6) have grab: "grabData (td_type td) (td_data td) (td_count td) = Inr (Some bs)"
      by (auto simp: append_fits_def grabData_def split: if_splits)
    from assms(7) grab mem have fits: "unat (ie_count ?e) + unat (td_count td) < 2 ^ 32"
        "unat (ie_length ?e) + length bs < 2 ^ 32"
      by (auto simp: append_fits_def)
    have ok: "data_ok (td_type td) bs (td_count td)" using grabData_ok [OF grab assms(5,6,4)] .
    have "entry_wf (headerSort h) ?e" using sortwf nth_mem [OF f(1)] unfolding header_wf_def by blast
    then obtain old where old: "entry_data (headerSort h) ?e = Inr old" "unat (ie_length ?e) = length old"
        "data_ok (ie_type ?e) old (ie_count ?e)"
      by (auto simp: entry_wf_def)
    have "data_ok (ie_type ?e) (old @ bs) (ie_count ?e + td_count td)"
      using old(3) ok fits old(2) 2(3) f3 by (intro data_ok_append) simp_all
    from entry_append_wf [OF 2(8) sortwf f(1) this old(1)] f(2) headerSort_lookups [OF inv] show ?thesis by simp
  qed (use assms(2) sortwf headerSort_lookups [OF inv] in auto)
  then show "header_wf h'" "t \<noteq> td_tag td \<Longrightarrow> lookups h' t = lookups h t" by auto
qed

subsection \<open>The operations keep a header well formed\<close>

lemma headerNew_wf: "header_wf headerNew"
  by (simp add: headerNew_def headerCreate_def header_wf_def header_inv_def)

lemma headerPut_wf:
  assumes "headerPut h td flags = Inr (h', ok)" "header_wf h" "small_tag (td_tag td)" "data_valid (td_data td)"
    "has flags HEADERPUT_APPEND \<longrightarrow> \<not> hdrchkType (td_type td) \<and> td_count td \<noteq> 0 \<and> append_fits h td"
  shows "header_wf h'"
proof (cases "has flags HEADERPUT_APPEND \<and> snd (findEntry h (td_tag td) (td_type td)) \<noteq> None")
  case True
  have inv: "header_inv h" using assms(2) by (simp add: header_wf_def)
  obtain k where k: "findEntry h (td_tag td) (td_type td) = (headerSort h, k)"
    by (metis findEntry_header prod.collapse)
  have "append_fits (headerSort h) td" using assms(5) True by (simp add: append_fits_def headerSort_lookups [OF inv])
  moreover have "intAppendEntry (headerSort h) td = Inr (h', ok)" using assms(1) True k by (simp add: headerPut_def Let_def)
  ultimately show ?thesis
    using assms(3-5) True headerSort_wf [OF assms(2)] by (intro intAppendEntry_wf(1) [of "headerSort h" td h' ok]) auto
next
  case False
  obtain k where k: "findEntry h (td_tag td) (td_type td) = (headerSort h, k)"
    by (metis findEntry_header prod.collapse)
  then have "intAddEntry h td = Inr (h', ok) \<or> intAddEntry (headerSort h) td = Inr (h', ok)"
    using assms(1) False by (auto simp: headerPut_def Let_def split: if_splits)
  then show ?thesis using intAddEntry_wf assms(2-4) headerSort_wf [OF assms(2)] by blast
qed

text \<open>The headers that callers build. The conditions are those that the operations do not check themselves: a tag is below
  2^31, so that the order of the index does not overflow; strings are C strings, together shorter than 4 GiB; data
  that is appended or replaces other data has a known type and is not empty; appending does not overflow the count or the
  length of an entry.\<close>

inductive header_reachable :: "header \<Rightarrow> bool" where
  fresh: "header_reachable headerNew"
| put: "header_reachable h \<Longrightarrow> small_tag (td_tag td) \<Longrightarrow> data_valid (td_data td) \<Longrightarrow>
    (has flags HEADERPUT_APPEND \<longrightarrow> \<not> hdrchkType (td_type td) \<and> td_count td \<noteq> 0 \<and> append_fits h td) \<Longrightarrow>
    headerPut h td flags = Inr (h', ok) \<Longrightarrow> header_reachable h'"
| modify: "header_reachable h \<Longrightarrow> small_tag (td_tag td) \<Longrightarrow> data_valid (td_data td) \<Longrightarrow>
    \<not> hdrchkType (td_type td) \<Longrightarrow> td_count td \<noteq> 0 \<Longrightarrow> headerMod h td = Inr (h', ok) \<Longrightarrow> header_reachable h'"
| delete: "header_reachable h \<Longrightarrow> small_tag tag \<Longrightarrow> header_reachable (fst (headerDel h tag))"
| lookup: "header_reachable h \<Longrightarrow> header_reachable (fst (findEntry h tag type))"

text \<open> C32: Every header that is built from an empty one by adding, appending to, replacing, deleting and looking
  up tags is well formed: its index fits its allocation and is sorted when it says so, and every entry
  holds readable data of exactly the length its type and count say. The callers keep the conditions of
  \<open>header_reachable\<close>: tags below 2^31, strings of less than 4 GiB, a known type and a nonzero count where data is
  appended or replaced, and no appending beyond a count or length of 2^32.\<close>

theorem header_reachable_wf:
  assumes "header_reachable h"
  shows "header_wf h"
  using assms
proof induction
  case (put h td flags h' ok)
  show ?case by (rule headerPut_wf [OF put.hyps(5) put.IH put.hyps(2-4)])
next
  case (modify h td h' ok)
  show ?case by (rule headerMod_wf(1) [OF modify.hyps(6) modify.IH modify.hyps(2-5)])
qed (simp_all add: headerNew_wf headerDel_wf headerSort_wf)

text \<open>A header with two tags, the second put in before the first.\<close>

definition demo_td :: "u32 \<Rightarrow> cstr \<Rightarrow> rpmtd" where
  "demo_td tag s = rpmtdSet tag RPM_STRING_TYPE (TdString s) 1"

definition demo_header :: header where
  "demo_header = fst (projr (headerPut (fst (projr (headerPut headerNew (demo_td 1001 ''1.0'') 0))) (demo_td 1000 ''hello'') 0))"

lemma demo_header_eq:
  "headerPut headerNew (demo_td 1001 ''1.0'') 0 = Inr (headerNew\<lparr>h_index := [new_entry (demo_td 1001 ''1.0'') (string_block [''1.0''])]\<rparr>, True)"
  "headerPut (headerNew\<lparr>h_index := [new_entry (demo_td 1001 ''1.0'') (string_block [''1.0''])]\<rparr>) (demo_td 1000 ''hello'') 0 =
     Inr (headerNew\<lparr>h_index := [new_entry (demo_td 1001 ''1.0'') (string_block [''1.0'']),
        new_entry (demo_td 1000 ''hello'') (string_block [''hello''])]\<rparr>, True)"
  by code_simp+

lemma demo_header_index: "length (h_index demo_header) = 2"
  unfolding demo_header_def demo_header_eq sum.sel fst_conv by simp

theorem header_reachable_wf_witness: "header_wf demo_header \<and> length (h_index demo_header) = 2"
proof -
  have td: "small_tag (td_tag (demo_td 1001 ''1.0''))" "small_tag (td_tag (demo_td 1000 ''hello''))"
    "data_valid (td_data (demo_td 1001 ''1.0''))" "data_valid (td_data (demo_td 1000 ''hello''))"
    by (simp_all add: demo_td_def rpmtdSet_def small_tag_def data_valid_def nul_free_def)
  have "header_reachable demo_header"
    unfolding demo_header_def demo_header_eq sum.sel fst_conv
    by (rule header_reachable.put [OF header_reachable.put [OF header_reachable.fresh td(1,3) _ demo_header_eq(1)]
          td(2,4) _ demo_header_eq(2)]) (simp_all add: has_def)
  from header_reachable_wf [OF this] demo_header_index show ?thesis by simp
qed

subsection \<open>A header as a store of tags\<close>

text \<open>What the users of a header rely on when they delete tags.\<close>

locale tag_store =
  fixes inv :: "'h \<Rightarrow> bool" and ok_tag :: "u32 \<Rightarrow> bool" and entries :: "'h \<Rightarrow> u32 \<Rightarrow> 'e list"
    and del :: "'h \<Rightarrow> u32 \<Rightarrow> 'h"
  assumes del_inv: "inv h \<Longrightarrow> ok_tag t \<Longrightarrow> inv (del h t)"
    and entries_del: "inv h \<Longrightarrow> ok_tag t \<Longrightarrow> entries (del h t) u = (if u = t then [] else entries h u)"
begin

lemma del_all:
  "inv h \<Longrightarrow> \<forall>t \<in> set ts. ok_tag t \<Longrightarrow>
   inv (foldl del h ts) \<and> entries (foldl del h ts) u = (if u \<in> set ts then [] else entries h u)"
  by (induction ts arbitrary: h) (auto simp: del_inv entries_del)

end

interpretation header_tags: tag_store header_wf small_tag lookups "\<lambda>h tag. fst (headerDel h tag)"
proof
  show "header_wf (fst (headerDel h t))" if "header_wf h" "small_tag t" for h t using that by (rule headerDel_wf)
  show "lookups (fst (headerDel h t)) u = (if u = t then [] else lookups h u)" if "header_wf h" "small_tag t" for h t u
    using headerDel_inv(2) [of h t u] that by (simp add: header_wf_def)
qed

lemma intAddEntry_lookups:
  assumes "intAddEntry h td = Inr (h', True)" "data_valid (td_data td)"
  shows "\<exists>bs. grabData (td_type td) (td_data td) (td_count td) = Inr (Some bs) \<and>
    data_ok (td_type td) bs (td_count td) \<and>
    (\<forall>t. lookups h' t = lookups h t @ (if t = td_tag td then [new_entry td bs] else []))"
  using assms by (cases rule: intAddEntry_cases) (auto simp: lookups_def)

lemma headerIsEntry_iff:
  assumes "header_wf h" "small_tag tag"
  shows "snd (headerIsEntry h tag) \<longleftrightarrow> lookups h tag \<noteq> []"
proof -
  have "snd (headerIsEntry h tag) \<longleftrightarrow> snd (findEntry h tag RPM_NULL_TYPE) \<noteq> None"
    by (simp add: headerIsEntry_def split: prod.split)
  also have "\<dots> \<longleftrightarrow> lookups h tag \<noteq> []" 
    using findEntry_any(1) [OF conjunct1 [OF assms(1) [unfolded header_wf_def]] assms(2)] by (simp only:)
  finally show ?thesis .
qed

text \<open> A header is a store of tags. After a tag was put, its entries are the old ones and then the new one,
  which holds the copied data, and the tag is found; after it was deleted it is not found and nothing of it
  is left; no other tag is touched by either.\<close>

theorem headerPut_headerDel_lookup:
  assumes "header_wf h" "small_tag (td_tag td)" "data_valid (td_data td)" "headerPut h td 0 = Inr (h', True)"
  shows "(\<exists>e bs. grabData (td_type td) (td_data td) (td_count td) = Inr (Some bs) \<and>
      entry_data h' e = Inr bs \<and> ie_type e = td_type td \<and> ie_count e = td_count td \<and>
      (\<forall>t. lookups h' t = lookups h t @ (if t = td_tag td then [e] else []))) \<and>
    snd (headerIsEntry h' (td_tag td)) \<and>
    (\<forall>t. lookups (fst (headerDel h' (td_tag td))) t = (if t = td_tag td then [] else lookups h t)) \<and>
    \<not> snd (headerIsEntry (fst (headerDel h' (td_tag td))) (td_tag td))"
proof (intro conjI)
  have add: "intAddEntry h td = Inr (h', True)" using assms(4) by (simp add: headerPut_def has_def)
  have wf: "header_wf h'" by (rule intAddEntry_wf [OF add assms(3,1,2)])
  from add assms(3) obtain bs where bs: "grabData (td_type td) (td_data td) (td_count td) = Inr (Some bs)"
      "data_ok (td_type td) bs (td_count td)"
      and look: "\<And>t. lookups h' t = lookups h t @ (if t = td_tag td then [new_entry td bs] else [])"
    using intAddEntry_lookups by blast
  note found = headerIsEntry_iff [OF _ assms(2)]
  have "entry_data h' (new_entry td bs) = Inr bs"
    using bs(2) by (simp add: entry_data_def new_entry_def data_ok_def unat_of_nat)
  then show "\<exists>e bs. grabData (td_type td) (td_data td) (td_count td) = Inr (Some bs) \<and>
      entry_data h' e = Inr bs \<and> ie_type e = td_type td \<and> ie_count e = td_count td \<and>
      (\<forall>t. lookups h' t = lookups h t @ (if t = td_tag td then [e] else []))"
    using bs(1) look by (intro exI [of _ "new_entry td bs"] exI [of _ bs] conjI allI) (simp_all add: new_entry_ids)
  show "snd (headerIsEntry h' (td_tag td))" using found [OF wf] look by simp
  show "\<forall>t. lookups (fst (headerDel h' (td_tag td))) t = (if t = td_tag td then [] else lookups h t)"
    using header_tags.entries_del [OF wf assms(2)] look by simp
  show "\<not> snd (headerIsEntry (fst (headerDel h' (td_tag td))) (td_tag td))"
    using found [OF headerDel_wf [OF wf assms(2)]] header_tags.entries_del [OF wf assms(2)] by simp
qed

theorem headerPut_headerDel_lookup_witness:
  "\<exists>h'. headerPut headerNew (demo_td 1001 ''1.0'') 0 = Inr (h', True) \<and> snd (headerIsEntry h' 1001) \<and>
     \<not> snd (headerIsEntry (fst (headerDel h' 1001)) 1001)"
proof -
  have "small_tag (td_tag (demo_td 1001 ''1.0''))" "data_valid (td_data (demo_td 1001 ''1.0''))"
    by (simp_all add: demo_td_def rpmtdSet_def small_tag_def data_valid_def nul_free_def)
  from headerPut_headerDel_lookup [OF headerNew_wf this demo_header_eq(1)] demo_header_eq(1)
  show ?thesis by (simp add: demo_td_def rpmtdSet_def)
qed

text \<open>Tags from $2^{31}$ on break the order: the comparison is cyclic.\<close>

lemma indexCmp_cycle:
  "indexCmp (key_entry 100) (key_entry 0x7fffffff) < 0" "indexCmp (key_entry 0x7fffffff) (key_entry 0xffffffff) < 0"
  "indexCmp (key_entry 0xffffffff) (key_entry 100) < 0"
  by code_simp+

end
