(* ===== verification/Header_Region.thy ===== *)
theory Header_Region
  imports Header
begin

text \<open>
  Headers on disk and in memory, lib/header.cc: the byte order conversion of a region (\<open>regionSwab\<close>),
  the size of a header (\<open>headerSizeof\<close>), export (\<open>doExport\<close>) and import (\<open>hdrblobImport\<close>,
  \<open>headerImport\<close>), reading, writing and reloading. Memory is a list of bytes, a pointer into it an
  offset; a read or a write outside of it is the error \<open>Overread\<close>.
\<close>

subsection \<open>Memory\<close>

definition write_at :: "bytes \<Rightarrow> int \<Rightarrow> bytes \<Rightarrow> hdr_error + bytes" where
  "write_at mem a bs =
     (if 0 \<le> a \<and> a + int (length bs) \<le> int (length mem)
      then Inr (take (nat a) mem @ bs @ drop (nat a + length bs) mem) else Inl Overread)"

definition be_bytes :: "u32 \<Rightarrow> bytes" where
  "be_bytes w = [ucast (drop_bit 24 w), ucast (drop_bit 16 w), ucast (drop_bit 8 w), ucast w]"

definition pe_bytes :: "entryInfo \<Rightarrow> bytes" where
  "pe_bytes info = be_bytes (ei_tag info) @ be_bytes (ei_type info) @ be_bytes (ei_offset info) @ be_bytes (ei_count info)"

text \<open>\<open>n\<close> bytes from \<open>off\<close> bytes after the data pointer of an entry.\<close>

definition entry_mem :: "bytes \<Rightarrow> indexEntry \<Rightarrow> nat \<Rightarrow> nat \<Rightarrow> hdr_error + bytes" where
  "entry_mem blob e off n =
     (case ie_data e of
        NoData \<Rightarrow> if n = 0 then Inr [] else Inl Overread
      | InBlob a \<Rightarrow>
          if 0 \<le> a \<and> nat a + off + n \<le> length blob then Inr (take n (drop (nat a + off) blob)) else Inl Overread
      | Alloc bs \<Rightarrow> if off + n \<le> length bs then Inr (take n (drop off bs)) else Inl Overread)"

definition hdrchkTags :: "u32 \<Rightarrow> bool" where
  "hdrchkTags n \<longleftrightarrow> n AND NOT HEADER_TAGS_MAX \<noteq> 0"

definition alignDiff :: "u32 \<Rightarrow> nat \<Rightarrow> nat" where
  "alignDiff type alignsize =
     (let typesize = nat (typeSizes ! unat type) in
      if typeSizes ! unat type > 1 then
        let diff = typesize - alignsize mod typesize in if diff \<noteq> typesize then diff else 0
      else 0)"

subsection \<open>Byte order\<close>

text \<open>The width of the elements that are swapped, 1 for data that is not.\<close>

definition swap_width :: "u32 \<Rightarrow> nat" where
  "swap_width type = (if type = RPM_INT64_TYPE then 8 else if type = RPM_INT32_TYPE then 4
     else if type = RPM_INT16_TYPE then 2 else 1)"

definition swap_at :: "nat \<Rightarrow> nat \<Rightarrow> bytes \<Rightarrow> bytes" where
  "swap_at k a mem = take a mem @ rev (take k (drop a mem)) @ drop (a + k) mem"

text \<open>The loop over the elements; \<open>dataEnd\<close> is \<open>None\<close> where the source passes NULL.\<close>

fun swab_loop :: "nat \<Rightarrow> int option \<Rightarrow> nat \<Rightarrow> int \<Rightarrow> bytes \<Rightarrow> hdr_error + bytes" where
  "swab_loop k dataEnd 0 it mem = Inr mem"
| "swab_loop k dataEnd (Suc n) it mem =
     (if (case dataEnd of None \<Rightarrow> False | Some e \<Rightarrow> it \<ge> e) then Inl SwabFail
      else if it < 0 \<or> it + int k > int (length mem) then Inl Overread
      else swab_loop k dataEnd n (it + int k) (swap_at k (nat it) mem))"

text \<open>\<open>dataLength\<close> of data in memory up to \<open>dataEnd\<close>. Without an end the scan for NULs goes on to the end of
  the memory.\<close>

definition region_length :: "u32 \<Rightarrow> bytes \<Rightarrow> int \<Rightarrow> u32 \<Rightarrow> int option \<Rightarrow> hdr_error + u32" where
  "region_length type mem a cnt dataEnd =
     (case dataEnd of
        Some e \<Rightarrow>
          rbind (read_range mem a e) (\<lambda>p. case dataLength type p cnt of None \<Rightarrow> Inl SwabFail | Some n \<Rightarrow> Inr n)
      | None \<Rightarrow>
          if type = RPM_STRING_TYPE \<and> cnt \<noteq> 1 then Inl SwabFail
          else if type = RPM_STRING_TYPE \<or> is_array type then
            if a < 0 then Inl Overread
            else (case strtaglen (drop (nat a) mem) cnt 0 of None \<Rightarrow> Inl Overread | Some n \<Rightarrow> Inr (of_nat n))
          else if typeSizes ! unat type = -1 then Inl SwabFail
          else Inr (of_int (typeSizes ! unat (type AND 0xf)) * cnt))"

text \<open>The loop of \<open>regionSwab\<close>; the entries are what it stores when it is given an index.\<close>

fun region_loop ::
    "bool \<Rightarrow> u32 \<Rightarrow> int \<Rightarrow> int option \<Rightarrow> nat \<Rightarrow> u32 \<Rightarrow> int \<Rightarrow> bytes \<Rightarrow> hdr_error + (indexEntry list \<times> u32 \<times> bytes)" where
  "region_loop fast regionid dataStart dataEnd 0 dl pe mem = Inr ([], dl, mem)"
| "region_loop fast regionid dataStart dataEnd (Suc il) dl pe mem =
     rbind (ei2h mem pe) (\<lambda>info.
     let a = dataStart + sint (ei_offset info) in
     if hdrchkType (ei_type info) \<or> hdrchkData (ei_count info) \<or> hdrchkData (ei_offset info)
        \<or> hdrchkAlign (ei_type info) (ei_offset info)
        \<or> (case dataEnd of None \<Rightarrow> False | Some e \<Rightarrow> a \<ge> e) then Inl SwabFail
     else
       rbind (if fast \<and> il > 0 \<and> typeSizes ! unat (ei_type info) = -1
              then rbind (read32 mem (pe + 16 + 8)) (\<lambda>next. Inr (next - ei_offset info))
              else region_length (ei_type info) mem a (ei_count info) dataEnd) (\<lambda>len.
       if hdrchkData len then Inl SwabFail
       else
         let ie = \<lparr>ie_info = info\<lparr>ei_offset := regionid\<rparr>, ie_data = InBlob a, ie_length = len, ie_rdlen = 0\<rparr>;
             dl = dl + of_nat (alignDiff (ei_type info) (unat dl)) in
         rbind (if swap_width (ei_type info) = 1 then Inr mem
                else swab_loop (swap_width (ei_type info)) dataEnd (unat (ei_count info)) a mem) (\<lambda>mem.
         rbind (region_loop fast regionid dataStart dataEnd il (dl + len) (pe + 16) mem) (\<lambda>(es, dl, mem).
           Inr (ie # es, dl, mem)))))"

definition regionSwab ::
    "bool \<Rightarrow> nat \<Rightarrow> u32 \<Rightarrow> int \<Rightarrow> int \<Rightarrow> int option \<Rightarrow> u32 \<Rightarrow> bool \<Rightarrow> bytes \<Rightarrow> hdr_error + (indexEntry list \<times> u32 \<times> bytes)" where
  "regionSwab has_entry il dl pe dataStart dataEnd regionid fast mem =
     (if has_entry \<and> sint regionid \<ge> 0 \<or> \<not> has_entry \<and> regionid \<noteq> 0 then Inl SwabFail
      else region_loop fast regionid dataStart dataEnd il dl pe mem)"

subsection \<open>Size and export\<close>

fun sizeof_loop :: "u32 \<Rightarrow> bool \<Rightarrow> indexEntry list \<Rightarrow> u32 \<Rightarrow> u32" where
  "sizeof_loop flags is_first [] sz = sz"
| "sizeof_loop flags is_first (e # es) sz =
     sizeof_loop flags False es
       (if ENTRY_IS_REGION e then
          sz + ie_length e + (if is_first \<and> has flags HEADERFLAG_LEGACY then 16 + ie_count e else 0)
        else if ENTRY_IN_REGION e then sz
        else sz + of_nat (alignDiff (ie_type e) (unat sz)) + (16 + ie_length e))"

definition headerSizeof :: "header option \<Rightarrow> bool \<Rightarrow> header option \<times> u32" where
  "headerSizeof h magicp =
     (case h of None \<Rightarrow> (None, 0)
      | Some h \<Rightarrow>
          let h = headerSort h in
          (Some h, sizeof_loop (h_flags h) True (h_index h) ((if magicp then 8 else 0) + 8)))"

text \<open>The address of data in the blob; other blocks have unrelated addresses, which is only compared
  within a region.\<close>

definition data_pos :: "indexEntry \<Rightarrow> int" where
  "data_pos e = (case ie_data e of InBlob a \<Rightarrow> a | _ \<Rightarrow> 0)"

definition offsetCmp :: "indexEntry \<Rightarrow> indexEntry \<Rightarrow> int" where
  "offsetCmp a b =
     (let rc = sint (ie_offset a - ie_offset b) in
      if rc = 0 then
        if ENTRY_IN_REGION a then data_pos a - data_pos b else sint (ie_tag a - ie_tag b)
      else rc)"

record export_sizes =
  xs_il :: u32
  xs_dl :: u32
  xs_drlen :: u32
  xs_ndribbles :: u32

definition is_empty :: "indexEntry \<Rightarrow> bool" where
  "is_empty e \<longleftrightarrow> ie_data e = NoData \<or> ie_length e = 0"

definition size_dribble :: "export_sizes \<Rightarrow> indexEntry \<Rightarrow> export_sizes" where
  "size_dribble x e =
     (let diff = of_nat (alignDiff (ie_type e) (unat (xs_dl x))) in
      x\<lparr>xs_drlen := xs_drlen x + diff + ie_length e, xs_dl := xs_dl x + diff + ie_length e,
        xs_ndribbles := xs_ndribbles x + 1, xs_il := xs_il x + 1\<rparr>)"

definition in_run :: "u32 \<Rightarrow> indexEntry \<Rightarrow> bool" where
  "in_run rid e \<longleftrightarrow> sint (ie_offset e) \<le> sint rid + 1"

function size_loop :: "u32 \<Rightarrow> bool \<Rightarrow> indexEntry list \<Rightarrow> export_sizes \<Rightarrow> export_sizes" where
  "size_loop flags is_first [] x = x"
| "size_loop flags is_first (e # es) x =
     (if ENTRY_IS_REGION e then
        let rid = ie_offset e; ril = (- ie_offset e) div 16;
            x = x\<lparr>xs_il := xs_il x + ril + (if is_first \<and> has flags HEADERFLAG_LEGACY then 1 else 0),
                  xs_dl := xs_dl x + (ie_rdlen e + ie_count e)\<rparr>;
            x = foldl size_dribble x (filter (\<lambda>d. \<not> sint (ie_offset d) \<le> sint rid) (takeWhile (in_run rid) es))
        in size_loop flags False (dropWhile (in_run rid) es) x
      else if is_empty e then size_loop flags False es x
      else
        let dl = xs_dl x + of_nat (alignDiff (ie_type e) (unat (xs_dl x))) in
        size_loop flags False es (x\<lparr>xs_il := xs_il x + 1, xs_dl := dl + ie_length e\<rparr>))"
  by pat_completeness auto
termination
  by (relation "measure (\<lambda>(flags, is_first, es, x). length es)") (auto simp: le_imp_less_Suc length_dropWhile_le)

text \<open>The data as it goes to the file: the elements byte-swapped.\<close>

fun swap_chunks :: "nat \<Rightarrow> nat \<Rightarrow> bytes \<Rightarrow> bytes" where
  "swap_chunks k 0 bs = []"
| "swap_chunks k (Suc n) bs = rev (take k bs) @ swap_chunks k n (drop k bs)"

definition disk_data :: "bytes \<Rightarrow> indexEntry \<Rightarrow> hdr_error + bytes" where
  "disk_data blob e =
     (let k = swap_width (ie_type e) in
      if k = 1 then entry_mem blob e 0 (unat (ie_length e))
      else rbind (entry_mem blob e 0 (k * unat (ie_count e))) (\<lambda>bs. Inr (swap_chunks k (unat (ie_count e)) bs)))"

record export_state =
  x_mem :: bytes
  x_pe :: int
  x_te :: int

text \<open>One entry that is not in a region.\<close>

definition export_entry :: "bytes \<Rightarrow> int \<Rightarrow> export_state \<Rightarrow> indexEntry \<Rightarrow> hdr_error + export_state" where
  "export_entry blob dataStart x e =
     (let diff = alignDiff (ie_type e) (unat (of_int (x_te x - dataStart) :: u32)) in
      rbind (write_at (x_mem x) (x_te x) (replicate diff 0)) (\<lambda>mem.
      let te = x_te x + int diff in
      rbind (write_at mem (x_pe x) (pe_bytes ((ie_info e)\<lparr>ei_offset := of_int (te - dataStart)\<rparr>))) (\<lambda>mem.
      rbind (disk_data blob e) (\<lambda>bs.
      rbind (write_at mem te bs) (\<lambda>mem.
        Inr \<lparr>x_mem = mem, x_pe = x_pe x + 16, x_te = te + int (length bs)\<rparr>)))))"

text \<open>A region is copied as it is and its numbers are swapped in place. A legacy header gets a region entry and
  trailer of its own.\<close>

definition export_region ::
    "bytes \<Rightarrow> bool \<Rightarrow> export_sizes \<Rightarrow> int \<Rightarrow> export_state \<Rightarrow> indexEntry \<Rightarrow> hdr_error + export_state" where
  "export_region blob legacy sizes dataStart x e =
     (let rdl = - ie_offset e; ril = rdl div 16 + xs_ndribbles sizes; cnt = ie_count e; rdlen = ie_rdlen e; t = x_te x in
      if legacy then
        if unat cnt > 16 then Inl Overread
        else rbind (entry_mem blob e 0 (unat rdl)) (\<lambda>pes.
        rbind (write_at (x_mem x) (x_pe x + 16) pes) (\<lambda>mem.
        rbind (entry_mem blob e (unat rdl) (unat rdlen)) (\<lambda>data.
        rbind (write_at mem t data) (\<lambda>mem.
        let te = t + uint rdlen in
        rbind (write_at mem (x_pe x) (pe_bytes ((ie_info e)\<lparr>ei_offset := of_int (te - dataStart)\<rparr>))) (\<lambda>mem.
        rbind (write_at mem te (take (unat cnt) (pe_bytes ((ie_info e)\<lparr>ei_offset := - rdl - cnt\<rparr>)))) (\<lambda>mem.
        rbind (regionSwab False (unat (ril + 1)) 0 (x_pe x) t None 0 False mem) (\<lambda>(_, nbytes, mem).
          if nbytes \<noteq> rdlen + cnt then Inl SwabFail
          else Inr \<lparr>x_mem = mem, x_pe = x_pe x + 16 * uint (ril + 1), x_te = te + uint cnt\<rparr>)))))))
      else
        rbind (entry_mem blob e 16 (16 * unat (ril - 1))) (\<lambda>pes.
        rbind (write_at (x_mem x) (x_pe x + 16) pes) (\<lambda>mem.
        rbind (entry_mem blob e (16 * unat ril) (unat (rdlen + cnt + xs_drlen sizes))) (\<lambda>data.
        rbind (write_at mem t data) (\<lambda>mem.
        rbind (entry_mem blob e 0 16) (\<lambda>se.
        rbind (read32 se 8) (\<lambda>off.
        let te = t + uint rdlen in
        rbind (write_at mem (x_pe x)
            (pe_bytes ((ie_info e)\<lparr>ei_offset := (if off \<noteq> 0 then of_int (te - dataStart) else off)\<rparr>))) (\<lambda>mem.
        rbind (regionSwab False (unat ril) 0 (x_pe x) t None 0 False mem) (\<lambda>(_, nbytes, mem).
          if nbytes \<noteq> rdlen + cnt + xs_drlen sizes then Inl SwabFail
          else Inr \<lparr>x_mem = mem, x_pe = x_pe x + 16 * uint ril,
                    x_te = te + uint (cnt + xs_drlen sizes)\<rparr>)))))))))"

function export_loop ::
    "bytes \<Rightarrow> u32 \<Rightarrow> export_sizes \<Rightarrow> int \<Rightarrow> bool \<Rightarrow> indexEntry list \<Rightarrow> export_state \<Rightarrow> hdr_error + export_state" where
  "export_loop blob flags sizes dataStart is_first [] x = Inr x"
| "export_loop blob flags sizes dataStart is_first (e # es) x =
     (if is_empty e then export_loop blob flags sizes dataStart False es x
      else if ENTRY_IS_REGION e then
        rbind (export_region blob (is_first \<and> has flags HEADERFLAG_LEGACY) sizes dataStart x e) (\<lambda>x.
          export_loop blob flags sizes dataStart False (dropWhile (in_run (ie_offset e)) es) x)
      else
        rbind (export_entry blob dataStart x e) (\<lambda>x. export_loop blob flags sizes dataStart False es x))"
  by pat_completeness auto
termination
  by (relation "measure (\<lambda>(blob, flags, sizes, ds, is_first, es, x). length es)")
    (auto simp: le_imp_less_Suc length_dropWhile_le)

text \<open>\<open>None\<close> is the NULL of an export that failed.\<close>

definition doExport :: "header \<Rightarrow> hdr_error + bytes option" where
  "doExport h =
     (let index = qsort offsetCmp (h_index h);
          sizes = size_loop (h_flags h) True index \<lparr>xs_il = 0, xs_dl = 0, xs_drlen = 0, xs_ndribbles = 0\<rparr>;
          il = xs_il sizes; dl = xs_dl sizes
      in if hdrchkTags il \<or> hdrchkData dl then Inr None
         else
           let len = 8 + il * 16 + dl; dataStart = 8 + 16 * uint il;
               mem = be_bytes il @ be_bytes dl @ replicate (unat len - 8) 0
           in case export_loop (h_blob h) (h_flags h) sizes dataStart True index
                     \<lparr>x_mem = mem, x_pe = 8, x_te = dataStart\<rparr> of
                Inl SwabFail \<Rightarrow> Inr None
              | Inl err \<Rightarrow> Inl err
              | Inr x \<Rightarrow> if x_pe x \<noteq> dataStart \<or> x_te x \<noteq> uint len then Inr None else Inr (Some (x_mem x)))"

definition headerExport :: "header option \<Rightarrow> hdr_error + bytes option" where
  "headerExport h = (case h of None \<Rightarrow> Inr None | Some h \<Rightarrow> doExport h)"

subsection \<open>Import\<close>

abbreviation RPMTAG_OLDFILENAMES :: u32 where "RPMTAG_OLDFILENAMES \<equiv> 1027"
abbreviation RPMTAG_BASENAMES :: u32 where "RPMTAG_BASENAMES \<equiv> 1117"

text \<open>Dribble entries replace the entries of the region with the same tag.\<close>

definition del_replaced :: "header \<Rightarrow> indexEntry \<Rightarrow> header" where
  "del_replaced h e =
     (let h = fst (headerDel h (ie_tag e)) in
      if ie_tag e = RPMTAG_BASENAMES then fst (headerDel h RPMTAG_OLDFILENAMES) else h)"

definition region_entry :: "hdrblob \<Rightarrow> entryInfo \<Rightarrow> u32 \<Rightarrow> indexEntry" where
  "region_entry blob info rdlen =
     \<lparr>ie_info = info, ie_data = InBlob 8, ie_length = bl_pvlen blob - 8, ie_rdlen = rdlen\<rparr>"

definition finish_import :: "hdrblob \<Rightarrow> bytes \<Rightarrow> u32 \<Rightarrow> indexEntry list \<Rightarrow> header" where
  "finish_import blob mem flags index =
     headerSort (headerCreate (Some (mem, unat (bl_il blob)))\<lparr>h_index := index, h_flags := flags OR HEADERFLAG_ALLOCATED\<rparr>)"

text \<open>A header without a region gets a region entry; the index has one more entry than the blob.\<close>

definition import_legacy :: "hdrblob \<Rightarrow> bool \<Rightarrow> hdr_error + header" where
  "import_legacy blob fast =
     (let dataStart = data_addr blob; rid = of_int (pe_addr - dataStart);
          info = \<lparr>ei_tag = RPMTAG_HEADERIMAGE, ei_type = RPM_BIN_TYPE, ei_offset = rid, ei_count = 16\<rparr> in
      rbind (regionSwab True (unat (bl_il blob)) 0 pe_addr dataStart (Some (dataStart + uint (bl_dl blob))) rid fast (bl_ei blob))
        (\<lambda>(es, rdlen, mem).
          if rdlen \<noteq> bl_dl blob then Inl HdrLoad
          else Inr (finish_import blob mem HEADERFLAG_LEGACY (region_entry blob info rdlen # es))))"

definition import_region :: "hdrblob \<Rightarrow> bool \<Rightarrow> hdr_error + header" where
  "import_region blob fast =
     (let dataStart = data_addr blob; dataEnd = Some (dataStart + uint (bl_dl blob)) in
      rbind (ei2h (bl_ei blob) pe_addr) (\<lambda>info.
      let ril = (if ei_offset info \<noteq> 0 then bl_ril blob else bl_il blob); offset = ril * 16; rid = - offset in
      if offset \<ge> 0x7fffffff then Inl HdrLoad
      else if ril > bl_il blob then Inl Overread
      else
        rbind (regionSwab True (unat (ril - 1)) 0 (pe_addr + 16) dataStart dataEnd rid fast (bl_ei blob)) (\<lambda>(es, rdlen, mem).
        let region = region_entry blob (info\<lparr>ei_offset := rid\<rparr>) rdlen in
        if ril < bl_il blob then
          rbind (regionSwab True (unat (bl_il blob - ril)) rdlen (pe_addr + 16 * uint ril) dataStart dataEnd (rid + 1) fast mem)
            (\<lambda>(new, rdlen, mem).
            let h = headerCreate (Some (mem, unat (bl_il blob)))\<lparr>h_index := region # es\<rparr>;
                h = foldl del_replaced h new
            in if rdlen + 16 \<noteq> bl_dl blob then Inl HdrLoad
               else Inr (finish_import blob mem 0 (h_index h @ new)))
        else if rdlen + 16 \<noteq> bl_dl blob then Inl HdrLoad
        else Inr (finish_import blob mem 0 (region # es)))))"

definition hdrblobImport :: "hdrblob \<Rightarrow> bool \<Rightarrow> hdr_error + header" where
  "hdrblobImport blob fast =
     rbind (read32 (bl_ei blob) pe_addr) (\<lambda>tag.
       case (if \<not> tag < HEADER_I18NTABLE then import_legacy blob fast else import_region blob fast) of
         Inl SwabFail \<Rightarrow> Inl HdrLoad
       | r \<Rightarrow> r)"

definition headerImport ::
    "(u32 \<Rightarrow> u32) \<Rightarrow> (u32 \<Rightarrow> bool) \<Rightarrow> bytes \<Rightarrow> nat \<Rightarrow> bool \<Rightarrow> bool \<Rightarrow> hdr_error + header" where
  "headerImport tagType isProgTag b bsize copy fast =
     (let bsize = (if copy \<and> bsize = 0 then
          (case hdrblobInit tagType isProgTag b 0 0 False of Inr blob \<Rightarrow> unat (bl_pvlen blob) | Inl _ \<Rightarrow> 0) else bsize) in
      if copy \<and> bsize = 0 then Inl HdrLoad
      else if copy \<and> length b < bsize then Inl Overread
      else
        rbind (hdrblobInit tagType isProgTag (if copy then take bsize b else b) bsize 0 False) (\<lambda>blob.
          hdrblobImport blob fast))"

text \<open>\<open>None\<close> is NULL.\<close>

definition headerReload :: "(u32 \<Rightarrow> u32) \<Rightarrow> (u32 \<Rightarrow> bool) \<Rightarrow> header \<Rightarrow> u32 \<Rightarrow> hdr_error + header option" where
  "headerReload tagType isProgTag h tag =
     rbind (headerExport (Some h)) (\<lambda>uh.
       case uh of None \<Rightarrow> Inr None
       | Some uh \<Rightarrow>
           (case headerImport tagType isProgTag uh (length uh) False False of
              Inl Overread \<Rightarrow> Inl Overread
            | Inl _ \<Rightarrow> Inr None
            | Inr nh \<Rightarrow>
                (case h_index nh of
                   [] \<Rightarrow> Inl Overread
                 | e # es \<Rightarrow>
                     if ENTRY_IS_REGION e \<and> (tag = RPMTAG_HEADERSIGNATURES \<or> tag = RPMTAG_HEADERIMMUTABLE)
                     then Inr (Some (nh\<lparr>h_index := e\<lparr>ie_info := (ie_info e)\<lparr>ei_tag := tag\<rparr>\<rparr> # es\<rparr>))
                     else Inr (Some nh))))"

definition headerRead :: "(u32 \<Rightarrow> u32) \<Rightarrow> (u32 \<Rightarrow> bool) \<Rightarrow> bytes \<Rightarrow> bool \<Rightarrow> hdr_error + (header \<times> bytes)" where
  "headerRead tagType isProgTag fd magicp =
     rbind (hdrblobRead tagType isProgTag fd magicp False 0) (\<lambda>(blob, fd).
     rbind (hdrblobImport blob False) (\<lambda>h. Inr (h, fd)))"

text \<open>What \<open>headerWrite\<close> appends to the file; \<open>None\<close> is its failure.\<close>

definition headerWrite :: "header option \<Rightarrow> bool \<Rightarrow> hdr_error + bytes option" where
  "headerWrite h magicp =
     rbind (headerExport h) (\<lambda>uh.
       case uh of None \<Rightarrow> Inr None
       | Some uh \<Rightarrow> Inr (Some ((if magicp then rpm_header_magic else []) @ uh)))"

end
