(* ===== verification/Header_Roundtrip.thy ===== *)
theory Header_Roundtrip
  imports Header_Region
begin

text \<open>
  Export and import of a header that has no region yet, as every header that was built in memory: the
  exported bytes are a reference encoding, \<open>headerSizeof\<close> is their number, the verification of
  lib/header.cc accepts them, and the import gives back every entry.
\<close>

subsection \<open>Numbers on disk\<close>

lemma be32_be_bytes: "be32 (ucast (drop_bit 24 w)) (ucast (drop_bit 16 w)) (ucast (drop_bit 8 w)) (ucast w) = w"
proof (rule bit_word_eqI)
  fix n assume "n < LENGTH(32)"
  then consider "n < 8" | "8 \<le> n" "n < 16" | "16 \<le> n" "n < 24" | "24 \<le> n" "n < 32" by fastforce
  then show "bit (be32 (ucast (drop_bit 24 w)) (ucast (drop_bit 16 w)) (ucast (drop_bit 8 w)) (ucast w)) n = bit w n"
    by cases (auto simp: be32_def bit_simps)
qed

lemma length_be_bytes [simp]: "length (be_bytes w) = 4"
  by (simp add: be_bytes_def)

lemma length_pe_bytes [simp]: "length (pe_bytes info) = 16"
  by (simp add: pe_bytes_def)

lemma read32_at:
  assumes "p = int (length xs)"
  shows "read32 (xs @ be_bytes w @ ys) p = Inr w"
  using assms by (simp add: read32_def be_bytes_def nth_append be32_be_bytes)

lemma ei2h_at:
  assumes "p = int (length xs)"
  shows "ei2h (xs @ pe_bytes info @ ys) p = Inr info"
proof -
  have "read32 (xs @ pe_bytes info @ ys) p = Inr (ei_tag info)"
    using read32_at [OF assms, of "ei_tag info"] by (simp add: pe_bytes_def)
  moreover have "read32 (xs @ pe_bytes info @ ys) (p + 4) = Inr (ei_type info)"
    using read32_at [of "p + 4" "xs @ be_bytes (ei_tag info)" "ei_type info"] assms by (simp add: pe_bytes_def)
  moreover have "read32 (xs @ pe_bytes info @ ys) (p + 8) = Inr (ei_offset info)"
    using read32_at [of "p + 8" "xs @ be_bytes (ei_tag info) @ be_bytes (ei_type info)" "ei_offset info"] assms
    by (simp add: pe_bytes_def)
  moreover have "read32 (xs @ pe_bytes info @ ys) (p + 12) = Inr (ei_count info)"
    using read32_at [of "p + 12" "xs @ be_bytes (ei_tag info) @ be_bytes (ei_type info) @ be_bytes (ei_offset info)"
        "ei_count info"] assms
    by (simp add: pe_bytes_def)
  ultimately show ?thesis by (simp add: ei2h_def)
qed

subsection \<open>The reference encoding\<close>

text \<open>An item is the description of an entry and its data in the byte order of the machine.\<close>

type_synonym item = "entryInfo \<times> bytes"

definition disk_bytes :: "item \<Rightarrow> bytes" where
  "disk_bytes it =
     (let k = swap_width (ei_type (fst it)) in
      if k = 1 then snd it else swap_chunks k (unat (ei_count (fst it))) (snd it))"

text \<open>The data area from offset \<open>off\<close> on, for a function that gives the bytes of an item.\<close>

fun area :: "(item \<Rightarrow> bytes) \<Rightarrow> item list \<Rightarrow> nat \<Rightarrow> bytes" where
  "area f [] off = []"
| "area f (it # its) off =
     (let diff = alignDiff (ei_type (fst it)) off in
      replicate diff 0 @ f it @ area f its (off + diff + length (snd it)))"

fun infos :: "item list \<Rightarrow> nat \<Rightarrow> entryInfo list" where
  "infos [] off = []"
| "infos (it # its) off =
     (let off = off + alignDiff (ei_type (fst it)) off in
      (fst it)\<lparr>ei_offset := of_nat off\<rparr> # infos its (off + length (snd it)))"

definition encode :: "item list \<Rightarrow> bytes" where
  "encode its =
     be_bytes (of_nat (length its)) @ be_bytes (of_nat (length (area disk_bytes its 0))) @
     concat (map pe_bytes (infos its 0)) @ area disk_bytes its 0"

text \<open>What an item has to satisfy.\<close>

definition item_ok :: "item \<Rightarrow> bool" where
  "item_ok it \<longleftrightarrow>
     data_ok (ei_type (fst it)) (snd it) (ei_count (fst it)) \<and> \<not> hdrchkData (ei_count (fst it)) \<and>
     \<not> hdrchkArray (ei_type (fst it)) (ei_count (fst it)) \<and> HEADER_I18NTABLE \<le> ei_tag (fst it)"

definition items_fit :: "item list \<Rightarrow> bool" where
  "items_fit its \<longleftrightarrow> (\<forall>it \<in> set its. item_ok it) \<and> its \<noteq> [] \<and> length its \<le> 0xffff \<and>
     length (area disk_bytes its 0) \<le> 0x0fffffff \<and> 8 + 16 * length its + length (area disk_bytes its 0) < 0x10000000"

lemma length_swap_chunks: "k * n \<le> length bs \<Longrightarrow> length (swap_chunks k n bs) = k * n"
  by (induction n arbitrary: bs) auto

lemma swap_chunks_twice: "length bs = k * n \<Longrightarrow> swap_chunks k n (swap_chunks k n bs) = bs"
proof (induction n arbitrary: bs)
  case (Suc n)
  then have "length (drop k bs) = k * n" "k \<le> length bs" by simp_all
  with Suc.IH show ?case by (simp add: min_def)
qed simp

lemma and_not_eq_0: "n AND NOT m = 0 \<longleftrightarrow> n AND m = (n :: u32)"
  by (auto simp: bit_eq_iff bit_simps)

lemma not_mask_bound:
  assumes "m = mask k"
  shows "n AND NOT m = 0 \<longleftrightarrow> unat (n :: u32) < 2 ^ k"
proof -
  have "n AND NOT m = 0 \<longleftrightarrow> uint n < 2 ^ k" unfolding assms by (simp only: and_not_eq_0 mask_eq_iff)
  also have "\<dots> \<longleftrightarrow> unat n < 2 ^ k" by (simp only: uint_nat) (metis of_nat_less_iff of_nat_numeral of_nat_power)
  finally show ?thesis .
qed

lemma hdrchkData_bound: "\<not> hdrchkData n \<longleftrightarrow> unat n \<le> 0x0fffffff"
  using not_mask_bound [of HEADER_DATA_MAX 28 n] unfolding hdrchkData_def by (auto simp: mask_eq_exp_minus_1)

lemma hdrchkTags_bound: "\<not> hdrchkTags n \<longleftrightarrow> unat n \<le> 0xffff"
  using not_mask_bound [of HEADER_TAGS_MAX 16 n] unfolding hdrchkTags_def by (auto simp: mask_eq_exp_minus_1)

lemma item_numbers:
  assumes "item_ok it" "swap_width (ei_type (fst it)) \<noteq> 1"
  shows "length (snd it) = swap_width (ei_type (fst it)) * unat (ei_count (fst it))"
proof -
  let ?t = "ei_type (fst it)" and ?c = "ei_count (fst it)" and ?k = "swap_width (ei_type (fst it))"
  have t: "?t = 3 \<or> ?t = 4 \<or> ?t = 5" using assms(2) by (auto simp: swap_width_def split: if_splits)
  have c: "unat ?c \<le> 0x0fffffff" using assms(1) by (simp add: item_ok_def hdrchkData_bound)
  have "of_nat ?k * ?c = of_nat (length (snd it))"
    using assms(1) t by (auto simp: item_ok_def data_ok_def dataLength_def typeSizes_def swap_width_def Let_def split: if_splits)
  then have "unat (of_nat ?k * ?c) = length (snd it)"
    using assms(1) by (simp only:) (simp add: item_ok_def data_ok_def unat_of_nat)
  moreover have "unat (of_nat ?k * ?c) = ?k * unat ?c"
    using t c by (auto simp: unat_word_ariths swap_width_def)
  ultimately show ?thesis by simp
qed

lemma length_disk_bytes: "item_ok it \<Longrightarrow> length (disk_bytes it) = length (snd it)"
  using item_numbers [of it] by (simp add: disk_bytes_def Let_def length_swap_chunks)

lemma area_length:
  "\<forall>it \<in> set its. length (f it) = length (snd it) \<Longrightarrow> \<forall>it \<in> set its. length (g it) = length (snd it) \<Longrightarrow>
   length (area f its off) = length (area g its off)"
  by (induction its arbitrary: off) (simp_all add: Let_def)

lemma length_infos [simp]: "length (infos its off) = length its"
  by (induction its arbitrary: off) (simp_all add: Let_def)

lemma length_pes [simp]: "length (concat (map pe_bytes infs)) = 16 * length infs"
  by (induction infs) simp_all

lemma length_encode: "length (encode its) = 8 + 16 * length its + length (area disk_bytes its 0)"
  by (simp add: encode_def)

subsection \<open>Export writes the encoding\<close>

lemma write_at_gap:
  "a = int (length xs) \<Longrightarrow> length bs \<le> n \<Longrightarrow>
   write_at (xs @ replicate n 0 @ ys) a bs = Inr (xs @ bs @ replicate (n - length bs) 0 @ ys)"
  by (simp add: write_at_def)

text \<open>An entry of a header without regions.\<close>

definition plain_entry :: "bytes \<Rightarrow> indexEntry \<Rightarrow> item \<Rightarrow> bool" where
  "plain_entry blob e it \<longleftrightarrow>
     ie_offset e = 0 \<and> ie_info e = fst it \<and> ie_length e = of_nat (length (snd it)) \<and> item_ok it \<and>
     (\<forall>n \<le> length (snd it). entry_mem blob e 0 n = Inr (take n (snd it)))"

lemma plain_entry_facts:
  assumes "plain_entry blob e it"
  shows "\<not> is_empty e" "\<not> ENTRY_IS_REGION e" "\<not> ENTRY_IN_REGION e" "unat (ie_length e) = length (snd it)"
    "disk_data blob e = Inr (disk_bytes it)"
proof -
  have ok: "item_ok it" and len: "ie_length e = of_nat (length (snd it))" and info: "ie_info e = fst it"
    using assms by (simp_all add: plain_entry_def)
  have ne: "snd it \<noteq> []" "length (snd it) < 2 ^ 32" using ok by (simp_all add: item_ok_def data_ok_def)
  then show ul: "unat (ie_length e) = length (snd it)" by (simp add: len unat_of_nat)
  have mem: "entry_mem blob e 0 n = Inr (take n (snd it))" if "n \<le> length (snd it)" for n
    using assms that by (simp add: plain_entry_def)
  have "ie_data e \<noteq> NoData"
  proof
    assume "ie_data e = NoData"
    then show False using mem [of "length (snd it)"] ne by (simp add: entry_mem_def)
  qed
  moreover have "ie_length e \<noteq> 0" using ul ne by (metis length_0_conv unat_0)
  ultimately show "\<not> is_empty e" by (simp add: is_empty_def)
  have "HEADER_I18NTABLE \<le> ei_tag (fst it)" using ok by (simp add: item_ok_def)
  then have "\<not> ie_tag e < 64" by (simp add: info word_less_nat_alt word_le_nat_alt)
  then show "\<not> ENTRY_IS_REGION e" by (simp add: ENTRY_IS_REGION_def)
  have "ie_offset e = 0" using assms unfolding plain_entry_def by blast
  then show "\<not> ENTRY_IN_REGION e" by (simp add: ENTRY_IN_REGION_def)
  show "disk_data blob e = Inr (disk_bytes it)"
  proof (cases "swap_width (ie_type e) = 1")
    case True
    then show ?thesis using mem [of "length (snd it)"] by (simp add: disk_data_def disk_bytes_def info ul)
  next
    case False
    then have "length (snd it) = swap_width (ie_type e) * unat (ie_count e)" using item_numbers [OF ok] by (simp add: info)
    then show ?thesis using mem [of "length (snd it)"] False by (simp add: disk_data_def disk_bytes_def info)
  qed
qed

lemma size_loop_plain:
  "list_all2 (plain_entry blob) es its \<Longrightarrow> off + length (area disk_bytes its off) < 2 ^ 32 \<Longrightarrow> xs_dl x = of_nat off \<Longrightarrow>
   size_loop flags is_first es x =
     x\<lparr>xs_il := xs_il x + of_nat (length its), xs_dl := of_nat (off + length (area disk_bytes its off))\<rparr>"
proof (induction es its arbitrary: off x is_first rule: list_all2_induct)
  case Nil
  then show ?case by simp
next
  case (Cons e es it its)
  note p = plain_entry_facts [OF Cons.hyps(1)]
  have info: "ie_info e = fst it" and ok: "item_ok it" using Cons.hyps(1) by (simp_all add: plain_entry_def)
  let ?d = "alignDiff (ei_type (fst it)) off"
  let ?off = "off + ?d + length (snd it)"
  have len: "length (area disk_bytes (it # its) off) = ?d + length (snd it) + length (area disk_bytes its ?off)"
    by (simp add: Let_def length_disk_bytes [OF ok])
  have uo: "unat (xs_dl x) = off" using Cons.prems len by (simp add: unat_of_nat)
  have dl: "xs_dl x + of_nat ?d + ie_length e = of_nat ?off"
    using Cons.prems(2) Cons.hyps(1) by (simp add: plain_entry_def)
  have "size_loop flags is_first (e # es) x =
      size_loop flags False es (x\<lparr>xs_il := xs_il x + 1, xs_dl := of_nat ?off\<rparr>)"
    using p(1,2) by (simp only: size_loop.simps if_False Let_def uo info dl)
  also have "\<dots> = x\<lparr>xs_il := xs_il x + 1 + of_nat (length its), xs_dl := of_nat (?off + length (area disk_bytes its ?off))\<rparr>"
    using Cons.IH [of ?off "x\<lparr>xs_il := xs_il x + 1, xs_dl := of_nat ?off\<rparr>" False] Cons.prems(1) len by simp
  finally show ?case by (simp add: len [simplified] Let_def length_disk_bytes [OF ok] algebra_simps)
qed

lemma export_entry_plain:
  assumes "plain_entry blob e it" "off < 2 ^ 32" "pe = int (length A)"
    "dataStart = int (length A + 16 * Suc n)" "length D = off"
    "alignDiff (ei_type (fst it)) off + length (snd it) \<le> m"
  shows "export_entry blob dataStart
      \<lparr>x_mem = A @ replicate (16 * Suc n) 0 @ D @ replicate m 0, x_pe = pe, x_te = dataStart + int off\<rparr> e =
    (let d = alignDiff (ei_type (fst it)) off in
     Inr \<lparr>x_mem = (A @ pe_bytes ((fst it)\<lparr>ei_offset := of_nat (off + d)\<rparr>)) @ replicate (16 * n) 0 @
           (D @ replicate d 0 @ disk_bytes it) @ replicate (m - d - length (snd it)) 0,
          x_pe = pe + 16, x_te = dataStart + int (off + d + length (snd it))\<rparr>)"
proof -
  let ?d = "alignDiff (ei_type (fst it)) off"
  have ok: "item_ok it" and info: "ie_info e = fst it" using assms(1) by (simp_all add: plain_entry_def)
  have off: "unat (of_int (dataStart + int off - dataStart) :: u32) = off" using assms(2) by (simp add: unat_of_nat)
  let ?B = "A @ replicate (16 * Suc n) 0"
  have w1: "write_at (?B @ D @ replicate m 0) (dataStart + int off) (replicate ?d 0) =
      Inr ((?B @ D) @ replicate ?d 0 @ replicate (m - ?d) 0)"
    using write_at_gap [of "dataStart + int off" "?B @ D" "replicate ?d 0" m "[]"] assms(4-6) by simp
  have w2: "write_at ((?B @ D) @ replicate ?d 0 @ replicate (m - ?d) 0) pe (pe_bytes i) =
      Inr (A @ pe_bytes i @ replicate (16 * n) 0 @ D @ replicate ?d 0 @ replicate (m - ?d) 0)" for i
    using write_at_gap [of pe A "pe_bytes i" "16 * Suc n" "D @ replicate ?d 0 @ replicate (m - ?d) 0"] assms(3) by simp
  have w3: "write_at (A @ pe_bytes i @ replicate (16 * n) 0 @ D @ replicate ?d 0 @ replicate (m - ?d) 0)
        (dataStart + int off + int ?d) (disk_bytes it) =
      Inr (A @ pe_bytes i @ replicate (16 * n) 0 @ D @ replicate ?d 0 @ disk_bytes it @ replicate (m - ?d - length (snd it)) 0)" for i
    using write_at_gap [of "dataStart + int off + int ?d" "A @ pe_bytes i @ replicate (16 * n) 0 @ D @ replicate ?d 0"
        "disk_bytes it" "m - ?d" "[]"] assms(4-6) length_disk_bytes [OF ok]
    by simp
  have te: "(of_int (dataStart + int off + int ?d - dataStart) :: u32) = of_nat (off + ?d)" by simp
  show ?thesis
    unfolding export_entry_def export_state.simps info off Let_def
    using w1 w2 w3 plain_entry_facts(5) [OF assms(1)] length_disk_bytes [OF ok]
    by (simp add: te [simplified] append_assoc del: replicate_Suc mult_Suc_right)
qed

lemma export_loop_plain:
  "list_all2 (plain_entry blob) es its \<Longrightarrow> pe = int (length A) \<Longrightarrow> dataStart = int (length A + 16 * length its) \<Longrightarrow>
   length D = off \<Longrightarrow> off + m < 2 ^ 32 \<Longrightarrow> length (area disk_bytes its off) = m \<Longrightarrow>
   export_loop blob flags sizes dataStart is_first es
     \<lparr>x_mem = A @ replicate (16 * length its) 0 @ D @ replicate m 0, x_pe = pe, x_te = dataStart + int off\<rparr> =
   Inr \<lparr>x_mem = A @ concat (map pe_bytes (infos its off)) @ D @ area disk_bytes its off,
        x_pe = pe + 16 * int (length its), x_te = dataStart + int (off + m)\<rparr>"
proof (induction es its arbitrary: A D off m pe is_first rule: list_all2_induct)
  case Nil
  then show ?case by simp
next
  case (Cons e es it its)
  note p = plain_entry_facts [OF Cons.hyps(1)]
  have ok: "item_ok it" using Cons.hyps(1) by (simp add: plain_entry_def)
  let ?d = "alignDiff (ei_type (fst it)) off"
  let ?off = "off + ?d + length (snd it)" and ?m = "m - ?d - length (snd it)"
  let ?A = "A @ pe_bytes ((fst it)\<lparr>ei_offset := of_nat (off + ?d)\<rparr>)" and ?D = "D @ replicate ?d 0 @ disk_bytes it"
  have m: "m = ?d + length (snd it) + length (area disk_bytes its ?off)"
    using Cons.prems(5) by (simp add: Let_def length_disk_bytes [OF ok])
  have step: "export_entry blob dataStart
      \<lparr>x_mem = A @ replicate (16 * Suc (length its)) 0 @ D @ replicate m 0, x_pe = pe, x_te = dataStart + int off\<rparr> e =
      Inr \<lparr>x_mem = ?A @ replicate (16 * length its) 0 @ ?D @ replicate ?m 0,
          x_pe = pe + 16, x_te = dataStart + int ?off\<rparr>"
    using export_entry_plain [OF Cons.hyps(1), of off pe A dataStart "length its" D m] Cons.prems m
    by (simp only: Let_def list.size) simp
  have rest: "export_loop blob flags sizes dataStart False es
      \<lparr>x_mem = ?A @ replicate (16 * length its) 0 @ ?D @ replicate ?m 0, x_pe = pe + 16, x_te = dataStart + int ?off\<rparr> =
     Inr \<lparr>x_mem = ?A @ concat (map pe_bytes (infos its ?off)) @ ?D @ area disk_bytes its ?off,
          x_pe = pe + 16 + 16 * int (length its), x_te = dataStart + int (?off + ?m)\<rparr>"
    using Cons.prems m by (intro Cons.IH) (simp_all add: length_disk_bytes [OF ok])
  have "export_loop blob flags sizes dataStart is_first (e # es)
      \<lparr>x_mem = A @ replicate (16 * Suc (length its)) 0 @ D @ replicate m 0, x_pe = pe, x_te = dataStart + int off\<rparr> =
    Inr \<lparr>x_mem = ?A @ concat (map pe_bytes (infos its ?off)) @ ?D @ area disk_bytes its ?off,
          x_pe = pe + 16 + 16 * int (length its), x_te = dataStart + int (?off + ?m)\<rparr>"
    using p(1,2) by (simp only: export_loop.simps if_False step rbind_simps rest)
  also have "\<dots> = Inr \<lparr>x_mem = A @ concat (map pe_bytes (infos (it # its) off)) @ D @ area disk_bytes (it # its) off,
        x_pe = pe + 16 * int (length (it # its)), x_te = dataStart + int (off + m)\<rparr>"
    using m by (simp add: Let_def)
  finally show ?case by simp
qed

text \<open>A header without regions holds the items in the order of their tags.\<close>

definition plain_header :: "header \<Rightarrow> item list \<Rightarrow> bool" where
  "plain_header h its \<longleftrightarrow> header_inv h \<and> list_all2 (plain_entry (h_blob h)) (h_index (headerSort h)) its \<and> items_fit its"

lemma plain_offsets: "list_all2 (plain_entry blob) es its \<Longrightarrow> \<forall>e \<in> set es. ie_offset e = 0"
  by (induction rule: list_all2_induct) (auto simp: plain_entry_def)

lemma cmp_insort_id: "(\<And>y. y \<in> set ys \<Longrightarrow> cmp x y \<le> 0) \<Longrightarrow> cmp_insort cmp x ys = x # ys"
  by (cases ys) auto

lemma qsort_id: "sorted_wrt (\<lambda>x y. cmp x y \<le> 0) xs \<Longrightarrow> qsort cmp xs = xs"
  by (induction xs) (auto simp: qsort_def cmp_insort_id)

lemma export_order:
  assumes "header_inv h" "\<forall>e \<in> set (h_index h). ie_offset e = 0"
  shows "qsort offsetCmp (h_index h) = h_index (headerSort h)"
proof -
  have "qsort offsetCmp (h_index h) = qsort tag_cmp (h_index h)"
    using assms by (intro qsort_cong) (auto simp: offsetCmp_def ENTRY_IN_REGION_def header_inv_def tag_cmp_def sint_diff_small)
  also have "\<dots> = h_index (headerSort h)"
  proof (cases "h_sorted h")
    case True
    then have "sorted_wrt (\<lambda>x y. tag_cmp x y \<le> 0) (h_index h)"
      using assms(1) by (simp add: header_inv_def tags.ascending_sorted_wrt)
    then show ?thesis using True by (simp add: qsort_id headerSort_def)
  qed (simp add: headerSort_def qsort_index [OF assms(1)])
  finally show ?thesis .
qed

lemma doExport_plain:
  assumes "plain_header h its"
  shows "doExport h = Inr (Some (encode its))"
proof -
  let ?n = "length its" and ?m = "length (area disk_bytes its 0)"
  have es: "list_all2 (plain_entry (h_blob h)) (h_index (headerSort h)) its" and inv: "header_inv h"
    and fit: "?n \<le> 0xffff" "?m \<le> 0x0fffffff"
    using assms by (simp_all add: plain_header_def items_fit_def)
  have "\<forall>e \<in> set (h_index h). ie_offset e = 0" using plain_offsets [OF es] by simp
  note order = export_order [OF inv this]
  let ?sizes = "\<lparr>xs_il = of_nat ?n, xs_dl = of_nat ?m, xs_drlen = 0, xs_ndribbles = 0\<rparr>"
  have sizes: "size_loop (h_flags h) True (h_index (headerSort h))
      \<lparr>xs_il = 0, xs_dl = 0, xs_drlen = 0, xs_ndribbles = 0\<rparr> = ?sizes"
    using size_loop_plain [OF es, of 0 "\<lparr>xs_il = 0, xs_dl = 0, xs_drlen = 0, xs_ndribbles = 0\<rparr>"] fit by simp
  have u: "unat (of_nat ?n :: u32) = ?n" "unat (of_nat ?m :: u32) = ?m" using fit by (simp_all add: unat_of_nat)
  have len: "unat (8 + of_nat ?n * 16 + of_nat ?m :: u32) = 8 + 16 * ?n + ?m"
    using fit u by (simp add: unat_word_ariths)
  have chk: "\<not> hdrchkTags (of_nat ?n)" "\<not> hdrchkData (of_nat ?m)"
    using fit u by (simp_all only: hdrchkTags_bound hdrchkData_bound)
  let ?A = "be_bytes (of_nat ?n) @ be_bytes (of_nat ?m)" and ?ds = "8 + 16 * int ?n"
  have mem: "be_bytes (of_nat ?n) @ be_bytes (of_nat ?m) @ replicate (8 + 16 * ?n + ?m - 8) 0 =
      ?A @ replicate (16 * ?n) 0 @ [] @ replicate ?m 0"
    by (simp add: replicate_add)
  have loop: "export_loop (h_blob h) (h_flags h) ?sizes ?ds True (h_index (headerSort h))
      \<lparr>x_mem = ?A @ replicate (16 * ?n) 0 @ [] @ replicate ?m 0, x_pe = 8, x_te = ?ds\<rparr> =
    Inr \<lparr>x_mem = encode its, x_pe = ?ds, x_te = ?ds + int ?m\<rparr>"
    using export_loop_plain [OF es, of 8 ?A ?ds "[]" 0 ?m "h_flags h" ?sizes True] fit
    by (simp add: encode_def)
  have ui: "uint (of_nat ?n :: u32) = int ?n" "uint (8 + of_nat ?n * 16 + of_nat ?m :: u32) = ?ds + int ?m"
    using u len by (simp_all only: uint_nat)
  show ?thesis
    unfolding doExport_def order sizes Let_def export_sizes.simps len ui mem
    using chk loop by (simp only: if_False simp_thms sum.case export_state.simps)
qed

subsection \<open>The size of a header\<close>

lemma typeSizes_values:
  assumes "\<not> hdrchkType type"
  shows "typeSizes ! unat type \<in> {-1, 1, 2, 4, 8}" "typeSizes ! unat type > 1 \<longleftrightarrow> swap_width type \<noteq> 1"
    "swap_width type \<noteq> 1 \<Longrightarrow> nat (typeSizes ! unat type) = swap_width type"
  using type_cases [OF assms] by (auto simp: typeSizes_def swap_width_def)

lemma alignDiff_eq:
  assumes "\<not> hdrchkType type"
  shows "alignDiff type n = (let k = swap_width type in if n mod k = 0 then 0 else k - n mod k)"
proof (cases "swap_width type = 1")
  case False
  then have "0 < swap_width type" by (simp add: swap_width_def)
  moreover from this have "n mod swap_width type < swap_width type" by simp
  ultimately show ?thesis using typeSizes_values(2,3) [OF assms] False by (auto simp: alignDiff_def Let_def)
qed (use typeSizes_values(2) [OF assms] in \<open>simp add: alignDiff_def\<close>)

lemma swap_width_dvd: "swap_width type dvd 8"
  by (simp add: swap_width_def)

lemma alignDiff_base:
  assumes "\<not> hdrchkType type" "8 dvd b"
  shows "alignDiff type (b + n) = alignDiff type n"
proof -
  have "swap_width type dvd b" using swap_width_dvd assms(2) by (rule dvd_trans)
  then have "(b + n) mod swap_width type = n mod swap_width type" by (metis mod_add_left_eq dvd_imp_mod_0 add_0)
  then show ?thesis by (simp only: alignDiff_eq [OF assms(1)] Let_def)
qed

lemma sizeof_loop_plain:
  "list_all2 (plain_entry blob) es its \<Longrightarrow> 8 dvd b \<Longrightarrow> b + 16 * length its + off + length (area disk_bytes its off) < 2 ^ 32 \<Longrightarrow>
   sizeof_loop flags is_first es (of_nat (b + off)) = of_nat (b + 16 * length its + off + length (area disk_bytes its off))"
proof (induction es its arbitrary: b off is_first rule: list_all2_induct)
  case Nil
  then show ?case by simp
next
  case (Cons e es it its)
  note p = plain_entry_facts [OF Cons.hyps(1)]
  have info: "ie_info e = fst it" and ok: "item_ok it" and el: "ie_length e = of_nat (length (snd it))"
    using Cons.hyps(1) by (simp_all add: plain_entry_def)
  let ?d = "alignDiff (ei_type (fst it)) off"
  let ?off = "off + ?d + length (snd it)"
  have len: "length (area disk_bytes (it # its) off) = ?d + length (snd it) + length (area disk_bytes its ?off)"
    by (simp add: Let_def length_disk_bytes [OF ok])
  have "unat (of_nat (b + off) :: u32) = b + off" using Cons.prems(2) by (intro unat_of_nat_u32) simp
  then have al: "alignDiff (ie_type e) (unat (of_nat (b + off) :: u32)) = ?d"
    using alignDiff_base [OF _ Cons.prems(1), of "ei_type (fst it)" off] ok
    by (simp only: info item_ok_def data_ok_def simp_thms)
  have "sizeof_loop flags is_first (e # es) (of_nat (b + off)) =
      sizeof_loop flags False es (of_nat (b + off) + of_nat ?d + (16 + ie_length e))"
    using p(2,3) by (simp only: sizeof_loop.simps if_False al)
  also have "of_nat (b + off) + of_nat ?d + (16 + ie_length e) = (of_nat ((b + 16) + ?off) :: u32)"
    by (simp add: el)
  also have "sizeof_loop flags False es (of_nat ((b + 16) + ?off)) =
      of_nat ((b + 16) + 16 * length its + ?off + length (area disk_bytes its ?off))"
    using Cons.prems len by (intro Cons.IH) auto
  also have "(b + 16) + 16 * length its + ?off + length (area disk_bytes its ?off) =
      b + 16 * length (it # its) + off + length (area disk_bytes (it # its) off)"
    unfolding len by simp
  finally show ?case .
qed

text \<open> The size that is computed for a header without regions is the number of bytes its export has, with the
  magic where it is asked for.\<close>

theorem headerSizeof_export:
  assumes "plain_header h its"
  shows "\<exists>b. doExport h = Inr (Some b) \<and>
    unat (snd (headerSizeof (Some h) magicp)) = (if magicp then 8 else 0) + length b"
proof -
  let ?b = "(if magicp then 8 else 0) + 8 :: nat"
  have es: "list_all2 (plain_entry (h_blob h)) (h_index (headerSort h)) its" and fit: "items_fit its"
    using assms by (simp_all add: plain_header_def)
  have "snd (headerSizeof (Some h) magicp) =
      sizeof_loop (h_flags (headerSort h)) True (h_index (headerSort h)) (of_nat (?b + 0))"
    by (simp add: headerSizeof_def Let_def)
  also have "\<dots> = of_nat (?b + 16 * length its + 0 + length (area disk_bytes its 0))"
    using fit by (intro sizeof_loop_plain [OF es]) (auto simp: items_fit_def)
  finally have "unat (snd (headerSizeof (Some h) magicp)) = ?b + 16 * length its + length (area disk_bytes its 0)"
    using fit by (simp only: add_0_right) (intro unat_of_nat_u32, auto simp: items_fit_def)
  then show ?thesis using doExport_plain [OF assms] by (auto simp: length_encode)
qed

subsection \<open>The encoding is accepted\<close>

lemma item_count_le:
  assumes "item_ok it"
  shows "unat (ei_count (fst it)) \<le> length (snd it)"
proof -
  let ?t = "ei_type (fst it)" and ?c = "ei_count (fst it)"
  have ok: "data_ok ?t (snd it) ?c" and c: "?c \<noteq> 0" using assms by (simp_all add: item_ok_def data_ok_def)
  consider (num) "swap_width ?t \<noteq> 1" | (str) "?t = RPM_STRING_TYPE" | (arr) "is_array ?t"
    | (byte) "?t \<in> {1, 2, 7}"
    using type_cases [of ?t] ok by (auto simp: data_ok_def swap_width_def is_array_def)
  then show ?thesis
  proof cases
    case num
    then have "0 < swap_width ?t" by (simp add: swap_width_def)
    then show ?thesis using item_numbers [OF assms num] by simp
  next
    case str
    then have "?c = 1" using ok by (auto simp: data_ok_def dataLength_def split: if_splits)
    then show ?thesis using ok by (cases "snd it") (auto simp: data_ok_def)
  next
    case arr
    then have "strtaglen (snd it) ?c 0 = Some (length (snd it))"
      using ok data_ok_array [OF arr c, of "snd it"] by (simp add: data_ok_def)
    from strtaglen_spec [OF this c] show ?thesis by (metis count_le_length le_trans length_take min.cobounded1 min_def)
  next
    case byte
    then have "?c = of_nat (length (snd it))"
      using ok by (auto simp: data_ok_def dataLength_def typeSizes_def Let_def split: if_splits)
    then show ?thesis using ok by (simp add: data_ok_def unat_of_nat)
  qed
qed

lemma dataLength_prefix:
  assumes "item_ok it"
  shows "dataLength (ei_type (fst it)) (disk_bytes it @ rest) (ei_count (fst it)) = Some (of_nat (length (snd it)))"
proof -
  let ?t = "ei_type (fst it)" and ?c = "ei_count (fst it)"
  have ok: "dataLength ?t (snd it) ?c = Some (of_nat (length (snd it)))" "length (snd it) < 2 ^ 32"
    using assms by (simp_all add: item_ok_def data_ok_def)
  show ?thesis
  proof (cases "?t = RPM_STRING_TYPE \<or> is_array ?t")
    case True
    then have "disk_bytes it = snd it" by (auto simp: disk_bytes_def swap_width_def is_array_def)
    then show ?thesis
      using ok True strtaglen_append [of "snd it" _ 0 _ rest]
      by (auto simp: dataLength_def is_array_def split: if_splits)
  next
    case False
    have "length (disk_bytes it @ rest) = length (snd it) + length rest" by (simp add: length_disk_bytes [OF assms])
    then show ?thesis
      using ok False by (auto simp: dataLength_default Let_def split: if_splits)
  qed
qed

lemma align_ok:
  assumes "\<not> hdrchkType type" "n mod swap_width type = 0"
  shows "\<not> hdrchkAlign type (of_nat n)"
proof -
  have m: "mask 0 = (0 :: u32)" "mask 1 = (1 :: u32)" "mask 2 = (3 :: u32)" "mask 3 = (7 :: u32)"
    by (simp_all add: mask_eq_exp_minus_1)
  have "\<exists>k. of_nat (typeAlign ! unat type) - 1 = (mask k :: u32) \<and> 2 ^ k = swap_width type"
  proof -
    consider "swap_width type = 1" "typeAlign ! unat type = 1" | "swap_width type = 2" "typeAlign ! unat type = 2"
      | "swap_width type = 4" "typeAlign ! unat type = 4" | "swap_width type = 8" "typeAlign ! unat type = 8"
      using type_cases [OF assms(1)] by (auto simp: typeAlign_def swap_width_def)
    then show ?thesis
    proof cases
      case 1 then show ?thesis by (intro exI [of _ 0]) (simp only: m, simp)
    next
      case 2 then show ?thesis by (intro exI [of _ 1]) (simp only: m, simp)
    next
      case 3 then show ?thesis by (intro exI [of _ 2]) (simp only: m, simp)
    next
      case 4 then show ?thesis by (intro exI [of _ 3]) (simp only: m, simp)
    qed
  qed
  then obtain k where k: "of_nat (typeAlign ! unat type) - 1 = (mask k :: u32)" "2 ^ k = swap_width type" by blast
  have "take_bit k (of_nat n :: u32) = of_nat (take_bit k n)" by (simp add: take_bit_of_nat)
  also have "take_bit k n = 0" using assms(2) k(2) by (simp add: take_bit_eq_mod)
  finally show ?thesis by (simp add: hdrchkAlign_def k(1) take_bit_eq_mask [symmetric])
qed

lemma aligned:
  assumes "\<not> hdrchkType type"
  shows "(n + alignDiff type n) mod swap_width type = 0"
proof -
  let ?k = "swap_width type"
  have "0 < ?k" by (simp add: swap_width_def)
  then have "n mod ?k \<le> ?k" by simp
  then have "(n + (?k - n mod ?k)) mod ?k = 0"
    by (metis (no_types, lifting) add.commute le_add_diff_inverse mod_add_right_eq mod_self)
  then show ?thesis by (simp add: alignDiff_eq [OF assms] Let_def)
qed

text \<open>The index entries from \<open>i\<close> on describe the items, and the data area from offset \<open>off\<close> on holds them.\<close>

definition laid_out :: "bytes \<Rightarrow> nat \<Rightarrow> nat \<Rightarrow> item list \<Rightarrow> nat \<Rightarrow> bool" where
  "laid_out mem ds i its off \<longleftrightarrow>
     (\<forall>j < length its. ei2h mem (pe_addr + 16 * int (i + j)) = Inr (infos its off ! j)) \<and>
     drop (ds + off) mem = area disk_bytes its off \<and> ds + off \<le> length mem"

lemma laid_out_Cons:
  assumes "laid_out mem ds i (it # its) off" "item_ok it"
  defines "d \<equiv> alignDiff (ei_type (fst it)) off"
  shows "ei2h mem (pe_addr + 16 * int i) = Inr ((fst it)\<lparr>ei_offset := of_nat (off + d)\<rparr>)"
    "drop (ds + (off + d)) mem = disk_bytes it @ area disk_bytes its (off + d + length (snd it))"
    "laid_out mem ds (Suc i) its (off + d + length (snd it))"
    "ds + off + d + length (snd it) + length (area disk_bytes its (off + d + length (snd it))) = length mem"
proof -
  have pes: "\<forall>j < Suc (length its). ei2h mem (pe_addr + 16 * int (i + j)) = Inr (infos (it # its) off ! j)"
    and dr: "drop (ds + off) mem = replicate d 0 @ disk_bytes it @ area disk_bytes its (off + d + length (snd it))"
    and le: "ds + off \<le> length mem"
    using assms(1) by (simp_all add: laid_out_def Let_def d_def)
  show "ei2h mem (pe_addr + 16 * int i) = Inr ((fst it)\<lparr>ei_offset := of_nat (off + d)\<rparr>)"
    using pes [rule_format, of 0] by (simp add: Let_def d_def)
  have "drop (ds + (off + d)) mem = drop d (drop (ds + off) mem)" by (simp add: add.commute add.left_commute)
  then show dr1: "drop (ds + (off + d)) mem = disk_bytes it @ area disk_bytes its (off + d + length (snd it))"
    by (simp add: dr)
  have "length (drop (ds + off) mem) = d + length (snd it) + length (area disk_bytes its (off + d + length (snd it)))"
    by (simp add: dr length_disk_bytes [OF assms(2)])
  then show len: "ds + off + d + length (snd it) + length (area disk_bytes its (off + d + length (snd it))) = length mem"
    using le by simp
  have "drop (ds + (off + d + length (snd it))) mem = drop (length (snd it)) (drop (ds + (off + d)) mem)"
    by (simp add: ac_simps)
  also have "\<dots> = area disk_bytes its (off + d + length (snd it))"
    by (simp add: dr1 length_disk_bytes [OF assms(2), symmetric])
  finally show "laid_out mem ds (Suc i) its (off + d + length (snd it))"
    using pes [rule_format, of "Suc j" for j] len by (auto simp: laid_out_def Let_def d_def)
qed

lemma verify_entry_plain:
  assumes "item_ok it" "bl_regionTag blob = 0" "data_addr blob = int ds" "length (bl_ei blob) = ds + m"
    "bl_dl blob = of_nat m" "m \<le> 0x0fffffff" "end0 = of_nat off0" "off0 \<le> off"
    "drop (ds + off) (bl_ei blob) = disk_bytes it @ rest" "off mod swap_width (ei_type (fst it)) = 0"
    "off + length (snd it) \<le> m"
  shows "verify_entry tagType isProgTag blob i ((fst it)\<lparr>ei_offset := of_nat off\<rparr>) end0 = Inr (of_nat (off + length (snd it)))"
proof -
  let ?t = "ei_type (fst it)" and ?c = "ei_count (fst it)" and ?n = "length (snd it)"
  have ok: "data_ok ?t (snd it) ?c" "HEADER_I18NTABLE \<le> ei_tag (fst it)" "\<not> hdrchkArray ?t ?c" "\<not> hdrchkType ?t" "?c \<noteq> 0" "0 < ?n"
    using assms(1) by (auto simp: item_ok_def data_ok_def)
  have u: "unat (of_nat off :: u32) = off" "unat (of_nat m :: u32) = m" "unat (of_nat off0 :: u32) = off0"
      "unat (of_nat (off + ?n) :: u32) = off + ?n" "unat (of_nat ?n :: u32) = ?n"
    using assms(6,8,11) by (intro unat_of_nat_u32, simp)+
  have s: "\<not> sint (of_nat off :: u32) < 0"
  proof -
    have "uint (of_nat off :: u32) = int off" using u(1) by (metis uint_nat)
    then have "sint (of_nat off :: u32) = signed_take_bit 31 (int off)" by (simp add: sint_uint)
    also have "\<dots> = int off" using assms(6,11) by (intro signed_take_bit_int_eq_self) simp_all
    finally show ?thesis by simp
  qed
  have chk: "\<not> end0 > of_nat off" "\<not> hdrchkTag (ei_tag (fst it))" "\<not> hdrchkCount (bl_dl blob) ?c"
      "\<not> hdrchkAlign ?t (of_nat off)" "\<not> hdrchkRange_signed (bl_dl blob) (of_nat off)"
      "\<not> hdrchkRange (bl_dl blob) (of_nat (off + ?n))" "(of_nat ?n :: u32) \<noteq> 0"
  proof -
    show "\<not> end0 > of_nat off" using assms(7,8) u by (simp add: word_less_nat_alt)
    show "\<not> hdrchkTag (ei_tag (fst it))" using ok by (simp add: hdrchkTag_def not_less)
    show "\<not> hdrchkCount (bl_dl blob) ?c"
      using item_count_le [OF assms(1)] assms(5,11) ok(5) u by (auto simp: hdrchkCount_def word_less_nat_alt unat_eq_0)
    show "\<not> hdrchkAlign ?t (of_nat off)" using ok(4) assms(10) by (rule align_ok)
    show "\<not> hdrchkRange_signed (bl_dl blob) (of_nat off)" "\<not> hdrchkRange (bl_dl blob) (of_nat (off + ?n))"
      using s u assms(5,11) by (simp_all only: hdrchkRange_signed_def hdrchkRange_def word_less_nat_alt) simp_all
    show "(of_nat ?n :: u32) \<noteq> 0" using u(5) ok(6) by (metis less_numeral_extra(3) unat_0)
  qed
  have ui: "uint (of_nat off :: u32) = int off" "uint (bl_dl blob) = int m" using u assms(5) by (metis uint_nat)+
  have "read_range (bl_ei blob) (data_addr blob + uint (of_nat off :: u32)) (data_addr blob + uint (bl_dl blob)) =
      Inr (disk_bytes it @ rest)"
  proof -
    have "nat (int ds + int m - (int ds + int off)) = length (drop (ds + off) (bl_ei blob))"
      using assms(4,11) by simp
    moreover have "nat (int ds + int off) = ds + off" by simp
    moreover have "off < m" using assms(11) ok(6) by linarith
    ultimately show ?thesis using assms(3,4,9) by (simp add: read_range_def ui)
  qed
  then show ?thesis
    using chk ok(3,4) assms(2) dataLength_prefix [OF assms(1), of rest]
    by (simp add: verify_entry_def Let_def del: of_nat_add) simp
qed

lemma verify_loop_plain:
  assumes "bl_regionTag blob = 0" "data_addr blob = int ds" "length (bl_ei blob) = ds + m" "bl_dl blob = of_nat m" "m \<le> 0x0fffffff"
  shows "\<forall>it \<in> set its. item_ok it \<Longrightarrow> laid_out (bl_ei blob) ds i its off \<Longrightarrow>
    verify_loop tagType isProgTag blob 0 i (length its) (of_nat off) = Inr ()"
proof (induction its arbitrary: i off)
  case (Cons it its)
  let ?d = "alignDiff (ei_type (fst it)) off"
  have ok: "item_ok it" using Cons.prems(1) by simp
  then have ty: "\<not> hdrchkType (ei_type (fst it))" by (simp add: item_ok_def data_ok_def)
  note l = laid_out_Cons [OF Cons.prems(2) ok]
  have "off + ?d + length (snd it) \<le> m" using l(4) assms(3) by simp
  then have "verify_entry tagType isProgTag blob i ((fst it)\<lparr>ei_offset := of_nat (off + ?d)\<rparr>) (of_nat off) =
      Inr (of_nat (off + ?d + length (snd it)))"
    using verify_entry_plain [OF ok assms refl _ l(2) aligned [OF ty], of off tagType isProgTag i] by simp
  moreover have "verify_loop tagType isProgTag blob 0 (Suc i) (length its) (of_nat (off + ?d + length (snd it))) = Inr ()"
    using Cons.prems(1) l(3) by (intro Cons.IH) simp_all
  ultimately show ?case using l(1) by (simp del: of_nat_add)
qed simp

lemma infos_at:
  "j < length its \<Longrightarrow> ei2h (xs @ concat (map pe_bytes (infos its off)) @ ys) (int (length xs) + 16 * int j) = Inr (infos its off ! j)"
proof -
  assume "j < length its"
  then have j: "j < length (infos its off)" by simp
  have "concat (map pe_bytes (infos its off)) =
      concat (map pe_bytes (take j (infos its off))) @ pe_bytes (infos its off ! j) @
      concat (map pe_bytes (drop (Suc j) (infos its off)))"
    by (metis (no_types) append_assoc concat.simps(2) concat_append id_take_nth_drop j list.map(2) map_append)
  moreover have "length (take j (infos its off)) = j" using j by simp
  ultimately show ?thesis
    using ei2h_at [of "int (length xs) + 16 * int j" "xs @ concat (map pe_bytes (take j (infos its off)))"] by simp
qed

lemma encode_laid_out: "laid_out (encode its) (8 + 16 * length its) 0 its 0"
proof -
  let ?hd = "be_bytes (of_nat (length its)) @ be_bytes (of_nat (length (area disk_bytes its 0)))"
  have "encode its = ?hd @ concat (map pe_bytes (infos its 0)) @ area disk_bytes its 0" by (simp add: encode_def)
  then show ?thesis
    using infos_at [of _ its ?hd 0 "area disk_bytes its 0"] by (simp add: laid_out_def)
qed

definition encode_blob :: "item list \<Rightarrow> hdrblob" where
  "encode_blob its = fresh_blob (encode its) (of_nat (length its)) (of_nat (length (area disk_bytes its 0)))"

lemma hdrblobInit_encode:
  assumes "items_fit its"
  shows "hdrblobInit tagType isProgTag (encode its) (length (encode its)) 0 False = Inr (encode_blob its)"
proof -
  let ?n = "length its" and ?m = "length (area disk_bytes its 0)"
  have fit: "\<forall>it \<in> set its. item_ok it" "its \<noteq> []" "?n \<le> 0xffff" "?m \<le> 0x0fffffff" "8 + 16 * ?n + ?m < 0x10000000"
    using assms by (simp_all add: items_fit_def)
  have il: "read32 (encode its) 0 = Inr (of_nat ?n)" and dl: "read32 (encode its) 4 = Inr (of_nat ?m)"
    using read32_at [of 0 "[]" "of_nat ?n"] read32_at [of 4 "be_bytes (of_nat ?n)" "of_nat ?m"] by (simp_all add: encode_def)
  have u: "unat (of_nat ?n :: u32) = ?n" "unat (of_nat ?m :: u32) = ?m" using fit by (simp_all add: unat_of_nat)
  then have pv: "unat (8 + of_nat ?n * 16 + of_nat ?m :: u32) = length (encode its)"
    using fit by (simp add: unat_word_ariths length_encode)
  have lens: "hdrblobVerifyLengths 0 (of_nat ?n) (of_nat ?m) = Inr ()"
    using fit u by (simp add: hdrblobVerifyLengths_def hdrchkRange_def word_less_nat_alt)
  have ds: "data_addr (encode_blob its) = int (8 + 16 * ?n)"
    unfolding data_addr_def encode_blob_def fresh_blob_def uint_nat using u(1) by simp
  obtain it its' where its: "its = it # its'" using fit(2) by (cases its) auto
  have first: "ei2h (encode its) pe_addr = Inr ((fst it)\<lparr>ei_offset := of_nat (alignDiff (ei_type (fst it)) 0)\<rparr>)"
    using laid_out_Cons(1) [OF encode_laid_out [of its, unfolded its]] fit(1) by (simp add: its)
  have tag: "HEADER_I18NTABLE \<le> ei_tag (fst it)" using fit(1) by (simp add: its item_ok_def)
  then have t: "100 \<le> unat (ei_tag (fst it))" by (simp add: word_le_nat_alt)
  have ne: "ei_tag (fst it) \<noteq> 0" "ei_tag (fst it) \<noteq> 61" "ei_tag (fst it) \<noteq> 62" "ei_tag (fst it) \<noteq> 63"
    using t by auto
  have "\<not> (of_nat ?n :: u32) < 1" using u fit(2) by (simp add: word_less_nat_alt)
  then have region: "hdrblobVerifyRegion 0 False (encode_blob its) = Inr None"
    using first ne by (simp add: hdrblobVerifyRegion_def encode_blob_def fresh_blob_def)
  have "verify_loop tagType isProgTag (encode_blob its) 0 0 ?n (of_nat 0) = Inr ()"
    using encode_laid_out [of its]
    by (intro verify_loop_plain [OF _ ds _ _ fit(4,1)]) (simp_all add: encode_blob_def fresh_blob_def length_encode)
  then have info: "hdrblobVerifyInfo tagType isProgTag (encode_blob its) = Inr ()"
    using u by (simp add: hdrblobVerifyInfo_def encode_blob_def fresh_blob_def first_entry_def)
  have "\<not> (8 + of_nat ?n * 16 + of_nat ?m :: u32) \<ge> headerMaxbytes"
    using pv fit(5) by (simp add: word_le_nat_alt length_encode)
  then show ?thesis
    using il dl lens pv region info fit(2)
    by (simp add: hdrblobInit_def encode_blob_def fresh_blob_def length_encode)
qed

subsection \<open>The import reads the encoding\<close>

lemma read32_prefix: "0 \<le> p \<Longrightarrow> p + 4 \<le> int (length xs) \<Longrightarrow> read32 (xs @ ys) p = read32 xs p"
  by (auto simp: read32_def Let_def nth_append)

lemma ei2h_prefix: "0 \<le> p \<Longrightarrow> p + 16 \<le> int (length xs) \<Longrightarrow> ei2h (xs @ ys) p = ei2h xs p"
  by (simp add: ei2h_def read32_prefix)

lemma ei2h_take:
  assumes "take n mem = take n mem'" "n \<le> length mem" "n \<le> length mem'" "0 \<le> p" "p + 16 \<le> int n"
  shows "ei2h mem p = ei2h mem' p"
proof -
  have "ei2h mem p = ei2h (take n mem @ drop n mem) p" by simp
  also have "\<dots> = ei2h (take n mem' @ drop n mem') p"
    using assms by (subst (1 2) ei2h_prefix) simp_all
  finally show ?thesis by simp
qed

lemma swab_loop_spec:
  "it = int (length xs) \<Longrightarrow> length ys = k * n \<Longrightarrow> 0 < k \<Longrightarrow> int (length xs + length ys) \<le> e \<Longrightarrow>
   swab_loop k (Some e) n it (xs @ ys @ zs) = Inr (xs @ swap_chunks k n ys @ zs)"
proof (induction n arbitrary: it xs ys)
  case (Suc n)
  have k: "k \<le> length ys" using Suc.prems(2) by simp
  have swap: "swap_at k (nat it) (xs @ ys @ zs) = (xs @ rev (take k ys)) @ drop k ys @ zs"
    using k Suc.prems(1) by (simp add: swap_at_def)
  have "swab_loop k (Some e) (Suc n) it (xs @ ys @ zs) =
      swab_loop k (Some e) n (it + int k) ((xs @ rev (take k ys)) @ drop k ys @ zs)"
  proof -
    have "\<not> it \<ge> e" using Suc.prems(1,3,4) k by linarith
    moreover have "\<not> (it < 0 \<or> it + int k > int (length (xs @ ys @ zs)))" using Suc.prems(1) k by simp
    ultimately show ?thesis by (simp only: swab_loop.simps option.case if_False swap)
  qed
  also have "\<dots> = Inr ((xs @ rev (take k ys)) @ swap_chunks k n (drop k ys) @ zs)"
    using Suc.prems k by (intro Suc.IH) simp_all
  finally show ?case by simp
qed simp

text \<open>An imported entry and the item it came from.\<close>

definition imported :: "u32 \<Rightarrow> bytes \<Rightarrow> indexEntry \<Rightarrow> item \<Rightarrow> bool" where
  "imported rid mem e it \<longleftrightarrow>
     ie_info e = (fst it)\<lparr>ei_offset := rid\<rparr> \<and> ie_length e = of_nat (length (snd it)) \<and>
     (\<exists>a. ie_data e = InBlob (int a) \<and> a + length (snd it) \<le> length mem \<and> take (length (snd it)) (drop a mem) = snd it)"

lemma swab_disk:
  assumes "item_ok it" "e = int (length mem + length (disk_bytes it @ rest))"
  shows "(if swap_width (ei_type (fst it)) = 1 then Inr (mem @ disk_bytes it @ rest)
     else swab_loop (swap_width (ei_type (fst it))) (Some e) (unat (ei_count (fst it))) (int (length mem)) (mem @ disk_bytes it @ rest)) =
    Inr (mem @ snd it @ rest)"
proof (cases "swap_width (ei_type (fst it)) = 1")
  case True
  then show ?thesis by (simp add: disk_bytes_def)
next
  case False
  let ?k = "swap_width (ei_type (fst it))" and ?n = "unat (ei_count (fst it))"
  have k: "0 < ?k" by (simp add: swap_width_def)
  have d: "disk_bytes it = swap_chunks ?k ?n (snd it)" using False by (simp add: disk_bytes_def)
  have len: "length (snd it) = ?k * ?n" by (rule item_numbers [OF assms(1) False])
  have "swab_loop ?k (Some e) ?n (int (length mem)) (mem @ disk_bytes it @ rest) = Inr (mem @ swap_chunks ?k ?n (disk_bytes it) @ rest)"
    using k assms(2) length_disk_bytes [OF assms(1)] len by (intro swab_loop_spec) simp_all
  then show ?thesis using False by (simp add: d swap_chunks_twice [OF len])
qed

lemma region_length_plain:
  assumes "item_ok it" "drop a mem = disk_bytes it @ rest" "a < length mem"
  shows "region_length (ei_type (fst it)) mem (int a) (ei_count (fst it)) (Some (int (length mem))) = Inr (of_nat (length (snd it)))"
proof -
  have "nat (int (length mem) - int a) = length (drop a mem)" by simp
  then have "read_range mem (int a) (int (length mem)) = Inr (disk_bytes it @ rest)"
    using assms(2,3) by (simp add: read_range_def)
  then show ?thesis using dataLength_prefix [OF assms(1), of rest] by (simp add: region_length_def)
qed

lemma region_loop_plain:
  "\<forall>it \<in> set its. item_ok it \<Longrightarrow> laid_out mem ds i its off \<Longrightarrow> length mem = ds + m \<Longrightarrow> m \<le> 0x0fffffff \<Longrightarrow>
   8 + 16 * (i + length its) \<le> ds \<Longrightarrow>
   \<exists>es. region_loop False rid (int ds) (Some (int (ds + m))) (length its) (of_nat off) (pe_addr + 16 * int i) mem =
       Inr (es, of_nat (off + length (area disk_bytes its off)), take (ds + off) mem @ area snd its off) \<and>
     list_all2 (imported rid (take (ds + off) mem @ area snd its off)) es its"
proof (induction its arbitrary: mem i off)
  case Nil
  then show ?case by (auto simp: laid_out_def)
next
  case (Cons it its)
  let ?d = "alignDiff (ei_type (fst it)) off"
  let ?a = "off + ?d" and ?n = "length (snd it)"
  have ok: "item_ok it" using Cons.prems(1) by simp
  then have item: "\<not> hdrchkType (ei_type (fst it))" "\<not> hdrchkData (ei_count (fst it))" "0 < ?n"
    by (auto simp: item_ok_def data_ok_def)
  note l = laid_out_Cons [OF Cons.prems(2) ok]
  let ?rest = "area disk_bytes its (?a + ?n)"
  have bound: "?a + ?n + length ?rest = m" using l(4) Cons.prems(3) by simp
  have u: "unat (of_nat ?a :: u32) = ?a" "unat (of_nat ?n :: u32) = ?n" "unat (of_nat off :: u32) = off"
    using bound Cons.prems(4) by (intro unat_of_nat_u32, simp)+
  have si: "sint (of_nat ?a :: u32) = int ?a"
  proof -
    have "uint (of_nat ?a :: u32) = int ?a" using u(1) by (metis uint_nat)
    then have "sint (of_nat ?a :: u32) = signed_take_bit 31 (int ?a)" by (simp add: sint_uint)
    also have "\<dots> = int ?a" using bound Cons.prems(4) by (intro signed_take_bit_int_eq_self) simp_all
    finally show ?thesis .
  qed
  have chk: "\<not> hdrchkData (of_nat ?a)" "\<not> hdrchkData (of_nat ?n)" "\<not> hdrchkAlign (ei_type (fst it)) (of_nat ?a)"
  proof -
    show "\<not> hdrchkData (of_nat ?a)" unfolding hdrchkData_bound u(1) using bound Cons.prems(4) by linarith
    show "\<not> hdrchkData (of_nat ?n)" unfolding hdrchkData_bound u(2) using bound Cons.prems(4) by linarith
    show "\<not> hdrchkAlign (ei_type (fst it)) (of_nat ?a)" by (rule align_ok [OF item(1) aligned [OF item(1)]])
  qed
  let ?A = "take (ds + ?a) mem"
  have A: "length ?A = ds + ?a" "mem = ?A @ disk_bytes it @ ?rest"
    using bound Cons.prems(3) l(2) append_take_drop_id [of "ds + ?a" mem] by simp_all
  let ?mem = "?A @ snd it @ ?rest"
  have len: "region_length (ei_type (fst it)) mem (int ds + int ?a) (ei_count (fst it)) (Some (int (ds + m))) = Inr (of_nat ?n)"
    using region_length_plain [OF ok l(2)] Cons.prems(3) bound item(3) by simp
  have swab: "(if swap_width (ei_type (fst it)) = 1 then Inr mem
      else swab_loop (swap_width (ei_type (fst it))) (Some (int (ds + m))) (unat (ei_count (fst it))) (int ds + int ?a) mem) = Inr ?mem"
  proof -
    have "int (ds + m) = int (length ?A + length (disk_bytes it @ ?rest))"
      using A(1) bound length_disk_bytes [OF ok] by simp
    from swab_disk [OF ok this] show ?thesis by (simp only: A(2) [symmetric] A(1) of_nat_add)
  qed
  have tk: "take ds ?mem = take ds mem"
  proof -
    have "take ds (?A @ ys) = take ds ?A" for ys using A(1) by simp
    then show ?thesis using A(2) by metis
  qed
  have lm: "length ?mem = ds + m" using A(1) bound by simp
  have "ei2h ?mem (pe_addr + 16 * int (Suc i + j)) = ei2h mem (pe_addr + 16 * int (Suc i + j))" if "j < length its" for j
    using Cons.prems(3,5) lm that by (intro ei2h_take [OF tk]) simp_all
  moreover have "drop (ds + (?a + ?n)) ?mem = ?rest" using A(1) by simp
  ultimately have laid: "laid_out ?mem ds (Suc i) its (?a + ?n)"
    using l(3) lm bound by (simp add: laid_out_def del: of_nat_add of_nat_Suc)
  have inner: "8 + 16 * (Suc i + length its) \<le> ds" using Cons.prems(5) by simp
  let ?final = "take (ds + (?a + ?n)) ?mem @ area snd its (?a + ?n)"
  obtain es where es: "region_loop False rid (int ds) (Some (int (ds + m))) (length its) (of_nat (?a + ?n))
        (pe_addr + 16 * int (Suc i)) ?mem = Inr (es, of_nat (?a + ?n + length ?rest), ?final)"
      "list_all2 (imported rid ?final) es its"
    using Cons.IH [OF _ laid lm Cons.prems(4) inner] Cons.prems(1) by auto
  have final: "?final = take (ds + off) mem @ area snd (it # its) off"
  proof -
    have "drop (ds + off) ?A = take ?d (drop (ds + off) mem)" by (simp add: drop_take)
    also have "\<dots> = replicate ?d 0" using Cons.prems(2) by (simp add: laid_out_def Let_def)
    finally have "?A = take (ds + off) mem @ replicate ?d 0"
      using append_take_drop_id [of "ds + off" ?A] by (simp add: min_def)
    then show ?thesis using A(1) by (simp add: Let_def)
  qed
  let ?e = "\<lparr>ie_info = (fst it)\<lparr>ei_offset := rid\<rparr>, ie_data = InBlob (int ds + int ?a), ie_length = of_nat ?n, ie_rdlen = 0\<rparr>"
  have "imported rid ?final ?e it"
    using A(1) unfolding imported_def by (auto intro!: exI [of _ "ds + ?a"])
  moreover have "region_loop False rid (int ds) (Some (int (ds + m))) (length (it # its)) (of_nat off) (pe_addr + 16 * int i) mem =
      Inr (?e # es, of_nat (off + length (area disk_bytes (it # its) off)), ?final)"
  proof -
    have "\<not> int ds + int ?a \<ge> int (ds + m)" using bound item(3) by linarith
    moreover have "(of_nat off :: u32) + of_nat ?d + of_nat ?n = of_nat (?a + ?n)" by simp
    moreover have "?a + ?n + length ?rest = off + length (area disk_bytes (it # its) off)"
      by (simp add: Let_def length_disk_bytes [OF ok])
    moreover have "pe_addr + 16 * int i + 16 = pe_addr + 16 * int (Suc i)" by simp
    moreover have "ei_type ((fst it)\<lparr>ei_offset := w\<rparr>) = ei_type (fst it)" "ei_count ((fst it)\<lparr>ei_offset := w\<rparr>) = ei_count (fst it)"
      "ei_offset ((fst it)\<lparr>ei_offset := w\<rparr>) = w" "(fst it)\<lparr>ei_offset := w, ei_offset := v\<rparr> = (fst it)\<lparr>ei_offset := v\<rparr>" for w v
      by simp_all
    ultimately show ?thesis
      using l(1) chk item(1,2) len swab es(1)
      by (simp only: region_loop.simps list.size add_0_right add_Suc_right rbind_simps Let_def si u(3)
          option.case simp_thms if_False prod.case)
  qed
  ultimately show ?case using es(2) unfolding final by auto
qed

definition items_ascending :: "item list \<Rightarrow> bool" where
  "items_ascending its \<longleftrightarrow>
     sorted_wrt (\<lambda>a b. uint (ei_tag (fst a)) \<le> uint (ei_tag (fst b))) its \<and> (\<forall>it \<in> set its. small_tag (ei_tag (fst it)))"

lemma imported_tags: "list_all2 (imported rid mem) es its \<Longrightarrow> map ie_tag es = map (ei_tag \<circ> fst) its"
  by (induction rule: list_all2_induct) (auto simp: imported_def)

lemma sorted_wrt_map_eq: "map f xs = map g ys \<Longrightarrow> sorted_wrt (\<lambda>a b. P (g a) (g b)) ys \<Longrightarrow> sorted_wrt (\<lambda>a b. P (f a) (f b)) xs"
  by (metis sorted_wrt_map)

lemma sint_region_id:
  assumes "0 < n" "n \<le> 0xffff"
  shows "sint (of_int (8 - int (8 + 16 * n)) :: u32) < 0"
proof -
  have "sint (of_int (8 - int (8 + 16 * n)) :: u32) = signed_take_bit 31 (8 - int (8 + 16 * n))"
    by (simp only: sint_sbintrunc' len_num1) simp
  also have "\<dots> = 8 - int (8 + 16 * n)" using assms by (intro signed_take_bit_int_eq_self) simp_all
  finally show ?thesis using assms by simp
qed

lemma headerSort_id:
  assumes "sorted_wrt (\<lambda>a b. uint (ie_tag a) \<le> uint (ie_tag b)) (h_index h)" "\<forall>e \<in> set (h_index h). small_tag (ie_tag e)"
  shows "h_index (headerSort h) = h_index h"
proof -
  have "qsort indexCmp (h_index h) = qsort tag_cmp (h_index h)"
    using assms(2) by (intro qsort_cong indexCmp_small) auto
  also have "\<dots> = h_index h" using assms(1) by (intro qsort_id) (simp add: tag_cmp_def)
  finally show ?thesis by (simp add: headerSort_def)
qed

lemma encode_blob_fields:
  assumes "items_fit its"
  shows "bl_ei (encode_blob its) = encode its" "unat (bl_il (encode_blob its)) = length its"
    "bl_dl (encode_blob its) = of_nat (length (area disk_bytes its 0))"
    "uint (bl_dl (encode_blob its)) = int (length (area disk_bytes its 0))"
    "data_addr (encode_blob its) = int (8 + 16 * length its)"
proof -
  have u: "unat (of_nat (length its) :: u32) = length its"
      "unat (of_nat (length (area disk_bytes its 0)) :: u32) = length (area disk_bytes its 0)"
    using assms by (simp_all add: items_fit_def unat_of_nat)
  then have "uint (of_nat (length its) :: u32) = int (length its)"
      "uint (of_nat (length (area disk_bytes its 0)) :: u32) = int (length (area disk_bytes its 0))" by (metis uint_nat)+
  with u show "bl_ei (encode_blob its) = encode its" "unat (bl_il (encode_blob its)) = length its"
    "bl_dl (encode_blob its) = of_nat (length (area disk_bytes its 0))"
    "uint (bl_dl (encode_blob its)) = int (length (area disk_bytes its 0))"
    "data_addr (encode_blob its) = int (8 + 16 * length its)"
    by (simp_all add: encode_blob_def fresh_blob_def data_addr_def)
qed

lemma import_legacy_encode:
  assumes "items_fit its"
  shows "\<exists>r es mem. import_legacy (encode_blob its) False = Inr (finish_import (encode_blob its) mem HEADERFLAG_LEGACY (r # es)) \<and>
    ie_tag r = RPMTAG_HEADERIMAGE \<and> list_all2 (imported (ie_offset r) mem) es its"
proof -
  let ?n = "length its" and ?m = "length (area disk_bytes its 0)" and ?mem = "encode its"
  let ?ds = "8 + 16 * ?n"
  let ?rid = "of_int (pe_addr - int ?ds) :: u32"
  have fit: "\<forall>it \<in> set its. item_ok it" "its \<noteq> []" "?n \<le> 0xffff" "?m \<le> 0x0fffffff"
    using assms(1) by (simp_all add: items_fit_def)
  note f = encode_blob_fields [OF assms]
  have lm: "length ?mem = ?ds + ?m" by (simp add: length_encode)
  obtain es where es: "region_loop False ?rid (int ?ds) (Some (int (?ds + ?m))) ?n 0 pe_addr ?mem =
        Inr (es, of_nat ?m, take ?ds ?mem @ area snd its 0)"
      "list_all2 (imported ?rid (take ?ds ?mem @ area snd its 0)) es its"
    using region_loop_plain [OF fit(1) encode_laid_out lm fit(4), of ?rid] by auto
  have "sint ?rid < 0" using sint_region_id [of ?n] fit(2,3) by simp
  then have "regionSwab True ?n 0 pe_addr (int ?ds) (Some (int ?ds + int ?m)) ?rid False ?mem =
      Inr (es, of_nat ?m, take ?ds ?mem @ area snd its 0)"
    using es(1) by (simp add: regionSwab_def)
  then have "import_legacy (encode_blob its) False = Inr (finish_import (encode_blob its) (take ?ds ?mem @ area snd its 0) HEADERFLAG_LEGACY
      (region_entry (encode_blob its) \<lparr>ei_tag = RPMTAG_HEADERIMAGE, ei_type = RPM_BIN_TYPE, ei_offset = ?rid, ei_count = 16\<rparr> (of_nat ?m) # es))"
    unfolding import_legacy_def Let_def f(1,2,4,5) by (simp add: f(3))
  moreover have "ie_info (region_entry b i l) = i" for b i l by (simp add: region_entry_def)
  ultimately show ?thesis using es(2) by (metis entryInfo.select_convs(1,3))
qed

lemma hdrblobImport_encode:
  assumes "items_fit its" "items_ascending its"
  shows "\<exists>h r es. hdrblobImport (encode_blob its) False = Inr h \<and> h_index h = r # es \<and> ie_tag r = RPMTAG_HEADERIMAGE \<and>
    list_all2 (imported (ie_offset r) (h_blob h)) es its"
proof -
  have fit: "\<forall>it \<in> set its. item_ok it" "its \<noteq> []" using assms(1) by (simp_all add: items_fit_def)
  obtain it its' where its: "its = it # its'" using fit(2) by (cases its) auto
  have "laid_out (encode its) (8 + 16 * length its) 0 (it # its') 0" using encode_laid_out [of its] by (simp only: its)
  from laid_out_Cons(1) [OF this] fit(1)
  have "ei2h (encode its) pe_addr = Inr ((fst it)\<lparr>ei_offset := of_nat (0 + alignDiff (ei_type (fst it)) 0)\<rparr>)" by (simp add: its)
  then have tag: "read32 (encode its) pe_addr = Inr (ei_tag (fst it))"
    by (auto simp: ei2h_def rbind_eq_Inr dest!: arg_cong [where f = ei_tag])
  have plain: "\<not> ei_tag (fst it) < HEADER_I18NTABLE" using fit(1) by (simp add: its item_ok_def not_less)
  obtain r es mem where imp: "import_legacy (encode_blob its) False = Inr (finish_import (encode_blob its) mem HEADERFLAG_LEGACY (r # es))"
      "ie_tag r = RPMTAG_HEADERIMAGE" "list_all2 (imported (ie_offset r) mem) es its"
    using import_legacy_encode [OF assms(1)] by blast
  let ?h = "finish_import (encode_blob its) mem HEADERFLAG_LEGACY (r # es)"
  have tags: "map ie_tag es = map (ei_tag \<circ> fst) its" using imp(3) by (rule imported_tags)
  have set: "\<exists>it \<in> set its. ie_tag e = ei_tag (fst it)" if "e \<in> set es" for e
  proof -
    have "ie_tag e \<in> set (map (ei_tag \<circ> fst) its)" using that unfolding tags [symmetric] by simp
    then show ?thesis by auto
  qed
  have "sorted_wrt (\<lambda>a b. uint (ie_tag a) \<le> uint (ie_tag b)) (r # es)"
  proof -
    have "sorted_wrt (\<lambda>a b. uint (ie_tag a) \<le> uint (ie_tag b)) es"
      using assms(2) tags unfolding items_ascending_def
      by (intro sorted_wrt_map_eq [of ie_tag es "ei_tag \<circ> fst" its "\<lambda>a b. uint a \<le> uint b"]) simp_all
    moreover have "ie_tag r \<le> ie_tag e" if e: "e \<in> set es" for e
    proof -
      obtain it where "it \<in> set its" "ie_tag e = ei_tag (fst it)" using set [OF e] by blast
      then have "HEADER_I18NTABLE \<le> ie_tag e" using fit(1) by (simp add: item_ok_def)
      moreover have "ie_tag r \<le> HEADER_I18NTABLE" using imp(2) by simp
      ultimately show ?thesis by (rule order_trans [rotated])
    qed
    ultimately show ?thesis by (simp add: word_le_def)
  qed
  moreover have "small_tag (ie_tag e)" if "e \<in> set (r # es)" for e
  proof (cases "e = r")
    case True
    then show ?thesis using imp(2) by (simp add: small_tag_def)
  next
    case False
    then show ?thesis using that set [of e] assms(2) by (fastforce simp: items_ascending_def)
  qed
  ultimately have "h_index ?h = r # es"
    unfolding finish_import_def by (subst headerSort_id) simp_all
  moreover have "h_blob ?h = mem" by (simp add: finish_import_def headerCreate_def)
  moreover have "hdrblobImport (encode_blob its) False = Inr ?h"
    using tag plain imp(1)
    by (simp only: hdrblobImport_def encode_blob_fields(1) [OF assms(1)] rbind_simps simp_thms if_True sum.case)
  ultimately show ?thesis using imp(2,3) by (metis (no_types, lifting))
qed

text \<open>What a header says of an entry: its type, its count and the bytes of its data.\<close>

definition content :: "header \<Rightarrow> indexEntry \<Rightarrow> u32 \<times> u32 \<times> (hdr_error + bytes)" where
  "content h e = (ie_type e, ie_count e, entry_data h e)"

lemma imported_content:
  assumes "imported rid (h_blob h) e it" "item_ok it"
  shows "content h e = (ei_type (fst it), ei_count (fst it), Inr (snd it))"
proof -
  have "unat (of_nat (length (snd it)) :: u32) = length (snd it)"
    using assms(2) by (intro unat_of_nat_u32) (simp add: item_ok_def data_ok_def)
  then show ?thesis using assms(1) by (auto simp: content_def imported_def entry_data_def Let_def)
qed

lemma plain_content:
  assumes "plain_entry (h_blob h) e it"
  shows "content h e = (ei_type (fst it), ei_count (fst it), Inr (snd it))"
proof -
  have "entry_mem (h_blob h) e 0 (length (snd it)) = Inr (snd it)" "ie_info e = fst it"
    using assms by (simp_all add: plain_entry_def)
  moreover have "unat (ie_length e) = length (snd it)" "\<not> is_empty e"
    using plain_entry_facts [OF assms] by blast+
  ultimately show ?thesis
    by (cases "ie_data e") (auto simp: content_def entry_data_def entry_mem_def Let_def split: if_splits)
qed

lemma filter_content:
  assumes "list_all2 P es its" "\<And>e it. P e it \<Longrightarrow> it \<in> set its \<Longrightarrow> ie_tag e = ei_tag (fst it) \<and> f e = g it"
  shows "map f (filter (\<lambda>e. ie_tag e = tag) es) = map g (filter (\<lambda>it. ei_tag (fst it) = tag) its)"
  using assms by (induction rule: list_all2_induct) auto

lemma plain_ascending:
  assumes "plain_header h its"
  shows "items_ascending its"
proof -
  have es: "list_all2 (plain_entry (h_blob h)) (h_index (headerSort h)) its" and inv: "header_inv (headerSort h)" "h_sorted (headerSort h)"
    using assms headerSort_inv by (auto simp: plain_header_def)
  have tags: "map (ei_tag \<circ> fst) its = map ie_tag (h_index (headerSort h))"
    using es by (induction rule: list_all2_induct) (auto simp: plain_entry_def)
  have "sorted_wrt (\<lambda>a b. uint (ie_tag a) \<le> uint (ie_tag b)) (h_index (headerSort h))"
    using inv by (simp add: header_inv_def ascending_tags)
  then have "sorted_wrt (\<lambda>a b. uint (ei_tag (fst a)) \<le> uint (ei_tag (fst b))) its"
    using sorted_wrt_map_eq [OF tags, of "\<lambda>a b. uint a \<le> uint b"] by simp
  moreover have "small_tag (ei_tag (fst it))" if "it \<in> set its" for it
  proof -
    have "ei_tag (fst it) \<in> set (map ie_tag (h_index (headerSort h)))" using that unfolding tags [symmetric] by simp
    then show ?thesis using inv(1) by (auto simp: header_inv_def)
  qed
  ultimately show ?thesis by (simp add: items_ascending_def)
qed

text \<open> C8: a header without regions survives export and import: the exported blob is accepted, whatever the types
  of tags the tag table knows, and for every tag outside of the region tags the imported header has the same
  entries, in the same order and with the same types, counts and data, byte orders swapped twice.\<close>

theorem header_export_import:
  assumes "plain_header h its"
  shows "\<exists>b h'. doExport h = Inr (Some b) \<and> headerImport tagType isProgTag b (length b) False False = Inr h' \<and>
    (\<forall>tag \<ge> HEADER_I18NTABLE. map (content h') (lookups h' tag) = map (content h) (lookups h tag))"
proof -
  have es: "list_all2 (plain_entry (h_blob h)) (h_index (headerSort h)) its" and fit: "items_fit its" and inv: "header_inv h"
    using assms by (simp_all add: plain_header_def)
  obtain h' r es' where h': "hdrblobImport (encode_blob its) False = Inr h'" "h_index h' = r # es'"
      "ie_tag r = RPMTAG_HEADERIMAGE" "list_all2 (imported (ie_offset r) (h_blob h')) es' its"
    using hdrblobImport_encode [OF fit plain_ascending [OF assms]] by blast
  have ok: "\<forall>it \<in> set its. item_ok it" using fit by (simp add: items_fit_def)
  have "map (content h') (lookups h' tag) = map (content h) (lookups h tag)" if "HEADER_I18NTABLE \<le> tag" for tag
  proof -
    let ?c = "\<lambda>it :: item. (ei_type (fst it), ei_count (fst it), Inr (snd it) :: hdr_error + bytes)"
    have "ie_tag r \<noteq> tag" using that h'(3) by auto
    then have "map (content h') (lookups h' tag) = map ?c (filter (\<lambda>it. ei_tag (fst it) = tag) its)"
      using filter_content [OF h'(4), of "content h'" ?c] imported_content ok by (auto simp: lookups_def h'(2) imported_def)
    moreover have "map (content h) (lookups (headerSort h) tag) = map ?c (filter (\<lambda>it. ei_tag (fst it) = tag) its)"
      unfolding lookups_def by (intro filter_content [OF es] conjI plain_content) (metis plain_entry_def, assumption)
    ultimately show ?thesis by (simp add: headerSort_lookups [OF inv])
  qed
  moreover have "headerImport tagType isProgTag (encode its) (length (encode its)) False False = Inr h'"
    using hdrblobInit_encode [OF fit] h'(1) by (simp add: headerImport_def)
  ultimately show ?thesis using doExport_plain [OF assms] by blast
qed

lemma new_entry_plain:
  assumes "item_ok (ie_info (new_entry td bs), bs)"
  shows "plain_entry blob (new_entry td bs) (ie_info (new_entry td bs), bs)"
  using assms by (simp add: plain_entry_def new_entry_def entry_mem_def)

definition demo_item :: "u32 \<Rightarrow> cstr \<Rightarrow> item" where
  "demo_item tag s = (ie_info (new_entry (demo_td tag s) (string_block [s])), string_block [s])"

lemma demo_item_ok:
  assumes "nul_free s" "length s < 100" "100 \<le> tag"
  shows "item_ok (demo_item tag s)"
proof -
  have "strtaglen (string_block [s]) 1 0 = Some (length s + 1)"
    using strtaglen_block [of "[s]" "[]" 0] assms(1) by simp
  then have "data_ok RPM_STRING_TYPE (string_block [s]) 1"
    using assms(2) by (simp add: data_ok_def dataLength_def hdrchkType_def)
  then show ?thesis
    using assms(3)
    by (simp add: item_ok_def demo_item_def new_entry_def demo_td_def rpmtdSet_def hdrchkArray_def hdrchkData_def)
qed

lemma demo_plain: "plain_header demo_header [demo_item 1000 ''hello'', demo_item 1001 ''1.0'']"
proof -
  let ?a = "new_entry (demo_td 1000 ''hello'') (string_block [''hello''])"
    and ?b = "new_entry (demo_td 1001 ''1.0'') (string_block [''1.0''])"
  have h: "demo_header = headerNew\<lparr>h_index := [?b, ?a]\<rparr>"
    unfolding demo_header_def demo_header_eq sum.sel fst_conv ..
  have idx: "h_index (headerSort demo_header) = [?a, ?b]" unfolding h by code_simp
  have ok: "item_ok (demo_item 1000 ''hello'')" "item_ok (demo_item 1001 ''1.0'')"
    by (rule demo_item_ok; simp add: nul_free_def)+
  have "header_inv demo_header"
    unfolding h by (simp add: header_inv_def headerNew_def headerCreate_def demo_td_def rpmtdSet_def small_tag_def)
  moreover have "list_all2 (plain_entry (h_blob demo_header)) [?a, ?b] [demo_item 1000 ''hello'', demo_item 1001 ''1.0'']"
    using ok by (simp add: demo_item_def new_entry_plain)
  moreover have "length (area disk_bytes [demo_item 1000 ''hello'', demo_item 1001 ''1.0''] 0) = 10" by code_simp
  ultimately show ?thesis using ok by (simp only: plain_header_def idx items_fit_def) simp
qed

theorem headerSizeof_export_witness:
  "\<exists>b. doExport demo_header = Inr (Some b) \<and> unat (snd (headerSizeof (Some demo_header) True)) = 8 + length b"
  using headerSizeof_export [OF demo_plain, of True] by simp

theorem header_export_import_witness:
  "\<exists>b h'. doExport demo_header = Inr (Some b) \<and>
    headerImport (\<lambda>_. 0) (\<lambda>_. False) b (length b) False False = Inr h' \<and>
    (\<forall>tag \<ge> HEADER_I18NTABLE. map (content h') (lookups h' tag) = map (content demo_header) (lookups demo_header tag))"
  using header_export_import [OF demo_plain] by simp

end
