(* ===== verification/Header_Get.thy ===== *)
theory Header_Get
  imports Header_Roundtrip
begin

text \<open>
  Retrieval of tags in lib/header.cc: filling a tag data container from an entry, from a whole region or
  from a blob, choosing the string for a locale, adding translated strings, and iterating over a header.
  Memory is as in \<open>Header\<close>: what a container points to is copied when it is filled, the NULL after the
  pointers of an array is not represented, and allocation always succeeds.
\<close>

subsection \<open>Copying an entry\<close>

text \<open>The memory the data pointer of an entry leads to, up to the end of its block.\<close>

definition data_mem :: "bytes \<Rightarrow> indexEntry \<Rightarrow> hdr_error + bytes" where
  "data_mem mem e =
     (case ie_data e of
        NoData \<Rightarrow> Inr []
      | InBlob a \<Rightarrow> if 0 \<le> a \<and> nat a \<le> length mem then Inr (drop (nat a) mem) else Inl Overread
      | Alloc bs \<Rightarrow> Inr bs)"

definition read_string :: "bytes \<Rightarrow> hdr_error + cstr" where
  "read_string bs = (if 0 \<in> set bs then Inr (cchars (takeWhile (\<lambda>b. b \<noteq> 0) bs)) else Inl Overread)"

definition after_string :: "bytes \<Rightarrow> bytes" where
  "after_string bs = tl (dropWhile (\<lambda>b. b \<noteq> 0) bs)"

text \<open>The copy of a region, with its number of bytes; \<open>None\<close> where the data cannot be converted. The table of
  a header image is one entry shorter than the copy has room for: the bytes behind it are indeterminate,
  zero here.\<close>

definition region_copy :: "bytes \<Rightarrow> indexEntry \<Rightarrow> hdr_error + (u32 \<times> bytes option)" where
  "region_copy mem e =
     (case ie_data e of
        InBlob a \<Rightarrow>
          rbind (read32 mem (a - 8)) (\<lambda>il.
          let dataStart = a + 16 * uint il;
              image = (ie_tag e = RPMTAG_HEADERIMAGE);
              ril = (- ie_offset e) div 16;
              cnt = 8 + ril * 16 + ie_rdlen e + (if image then 0 else 16);
              pe = (if image then a + 16 else a);
              ril = (if image then ril - 1 else ril);
              rdl = (if image then ie_rdlen e else ie_rdlen e + 16);
              n = 8 + 16 * unat ril + unat rdl in
          if unat cnt < n then Inl Overread
          else
            rbind (read_range mem pe (pe + 16 * uint ril)) (\<lambda>pes.
            rbind (read_range mem dataStart (dataStart + uint rdl)) (\<lambda>data.
            case regionSwab False (unat ril) 0 8 (8 + 16 * uint ril) (Some (8 + 16 * uint ril + uint rdl)) 0 False
                (be_bytes ril @ be_bytes rdl @ pes @ data @ replicate (unat cnt - n) 0) of
              Inl SwabFail \<Rightarrow> Inr (cnt, None)
            | Inl err \<Rightarrow> Inl err
            | Inr (_, _, buf) \<Rightarrow> Inr (cnt, Some buf))))
      | _ \<Rightarrow> Inl Overread)"

definition is_number :: "u32 \<Rightarrow> bool" where
  "is_number type \<longleftrightarrow> type \<in> {RPM_CHAR_TYPE, RPM_INT8_TYPE, RPM_INT16_TYPE, RPM_INT32_TYPE, RPM_INT64_TYPE}"

definition finish_copy :: "indexEntry \<Rightarrow> rpmtd \<Rightarrow> u32 \<Rightarrow> tddata \<Rightarrow> u32 \<Rightarrow> rpmtd" where
  "finish_copy e td flags d cnt =
     td\<lparr>td_type := ie_type e, td_count := cnt, td_data := d, td_flags := RPMTD_IMMUTABLE OR flags, td_size := ie_length e\<rparr>"

definition copyTdEntry :: "bytes \<Rightarrow> indexEntry \<Rightarrow> rpmtd \<Rightarrow> u32 \<Rightarrow> hdr_error + (rpmtd \<times> bool)" where
  "copyTdEntry mem e td flags =
     (let cnt = ie_count e; type = ie_type e;
          allocMem = has flags HEADERGET_ALLOC;
          minMem = (\<not> allocMem \<and> has flags HEADERGET_MINMEM);
          argvArray = has flags HEADERGET_ARGV in
      if type = RPM_BIN_TYPE then
        if ENTRY_IS_REGION e then
          rbind (region_copy mem e) (\<lambda>(cnt, buf).
            case buf of None \<Rightarrow> Inr (finish_copy e td 0 TdNull cnt, False)
            | Some buf \<Rightarrow> Inr (finish_copy e td RPMTD_ALLOCED (TdBytes buf) cnt, True))
        else
          rbind (entry_mem mem e 0 (unat cnt)) (\<lambda>bs.
            Inr (finish_copy e td (if minMem then 0 else RPMTD_ALLOCED) (TdBytes bs) cnt, True))
      else if type = RPM_STRING_TYPE \<and> cnt = 1 \<and> \<not> argvArray then
        rbind (data_mem mem e) (\<lambda>t. rbind (read_string t) (\<lambda>s.
          Inr (finish_copy e td (if allocMem then RPMTD_ALLOCED else 0) (TdString s) cnt, True)))
      else if type = RPM_STRING_TYPE \<or> is_array type then
        rbind (if minMem then data_mem mem e else entry_mem mem e 0 (unat (ie_length e))) (\<lambda>t.
        rbind (read_strings (unat cnt) t) (\<lambda>ss.
          Inr (finish_copy e td (if argvArray then RPMTD_ARGV OR RPMTD_ALLOCED else RPMTD_ALLOCED)
            (TdStrings (map Some ss)) cnt, True)))
      else if is_number type then
        rbind (entry_mem mem e 0 (unat (ie_length e))) (\<lambda>bs.
          if allocMem then Inr (finish_copy e td RPMTD_ALLOCED (TdBytes bs) cnt, True)
          else Inr (finish_copy e td 0 (if ie_data e = NoData then TdNull else TdBytes bs) cnt, True))
      else Inr (finish_copy e td 0 TdNull cnt, False))"

subsection \<open>Locales\<close>

text \<open>The locale is the text between \<open>l\<close> and \<open>le\<close>; a part is stripped at the first occurrence of its mark.\<close>

definition strip_match :: "cstr \<Rightarrow> cstr \<Rightarrow> char \<Rightarrow> bool" where
  "strip_match t loc mark =
     (let fe = length (takeWhile (\<lambda>c. c \<noteq> mark) loc) in fe < length loc \<and> rstreqn t loc fe)"

definition headerMatchLocale :: "cstr \<Rightarrow> cstr \<Rightarrow> nat" where
  "headerMatchLocale t loc =
     (if length t = length loc \<and> rstreqn t loc (length loc) then 1
      else if strip_match t loc CHR ''@'' then 1
      else if strip_match t loc CHR ''.'' then 1
      else if strip_match t loc CHR ''_'' then 2
      else 0)"

datatype locale_match = Match bytes | NoMatch "bytes option"

text \<open>The loop over the translations: the memory of the best string for one locale, a weak match being kept
  until a good one is found.\<close>

fun match_langs :: "cstr \<Rightarrow> nat \<Rightarrow> bytes \<Rightarrow> bytes \<Rightarrow> bytes option \<Rightarrow> hdr_error + locale_match" where
  "match_langs loc 0 t ed weak = Inr (NoMatch weak)"
| "match_langs loc (Suc n) t ed weak =
     rbind (read_string t) (\<lambda>lang.
       let m = headerMatchLocale lang loc in
       if m = 1 then Inr (Match ed)
       else rbind (read_string ed) (\<lambda>_.
         match_langs loc n (after_string t) (after_string ed) (if m = 2 then Some ed else weak)))"

text \<open>The loop over the locales of the environment, which are separated by colons.\<close>

function match_locales :: "cstr \<Rightarrow> nat \<Rightarrow> bytes \<Rightarrow> bytes \<Rightarrow> hdr_error + bytes option" where
  "match_locales l n t ed =
     (let l = dropWhile (\<lambda>c. c = CHR '':'') l in
      if l = [] then Inr None
      else
        let loc = takeWhile (\<lambda>c. c \<noteq> CHR '':'') l in
        rbind (match_langs loc n t ed None) (\<lambda>r.
          case r of
            Match d \<Rightarrow> Inr (Some d)
          | NoMatch (Some d) \<Rightarrow> Inr (Some d)
          | NoMatch None \<Rightarrow> match_locales (dropWhile (\<lambda>c. c \<noteq> CHR '':'') l) n t ed))"
  by pat_completeness auto
termination
proof (relation "measure (\<lambda>(l, n, t, ed). length l)", simp, goal_cases)
  case (1 l n t ed la)
  then have "la \<noteq> []" "hd la \<noteq> CHR '':''" using hd_dropWhile [of "\<lambda>c. c = CHR '':''" l] by auto
  then have "length (dropWhile (\<lambda>c. c \<noteq> CHR '':'') la) < length la"
    by (cases la) (auto simp: le_imp_less_Suc length_dropWhile_le)
  moreover have "length la \<le> length l" using 1(1) by (simp add: length_dropWhile_le)
  ultimately show ?case by simp
qed

declare match_locales.simps [simp del]

definition locale_env :: "(cstr \<Rightarrow> cstr option) \<Rightarrow> cstr option" where
  "locale_env env =
     (case env ''LANGUAGE'' of Some l \<Rightarrow> Some l | None \<Rightarrow>
      (case env ''LC_ALL'' of Some l \<Rightarrow> Some l | None \<Rightarrow>
       (case env ''LC_MESSAGES'' of Some l \<Rightarrow> Some l | None \<Rightarrow> env ''LANG'')))"

abbreviation RPMTAG_HEADERI18NTABLE :: u32 where "RPMTAG_HEADERI18NTABLE \<equiv> HEADER_I18NTABLE"

definition copyI18NEntry ::
    "(cstr \<Rightarrow> cstr option) \<Rightarrow> header \<Rightarrow> indexEntry \<Rightarrow> rpmtd \<Rightarrow> u32 \<Rightarrow> hdr_error + (header \<times> rpmtd \<times> bool)" where
  "copyI18NEntry env h e td flags =
     (let td = td\<lparr>td_type := RPM_STRING_TYPE, td_count := 1\<rparr> in
      rbind (data_mem (h_blob h) e) (\<lambda>first.
      rbind (case locale_env env of None \<Rightarrow> Inr (h, first)
             | Some lang \<Rightarrow>
                 (case findEntry h RPMTAG_HEADERI18NTABLE RPM_STRING_ARRAY_TYPE of
                    (h, None) \<Rightarrow> Inr (h, first)
                  | (h, Some i) \<Rightarrow>
                      let table = h_index h ! i in
                      rbind (data_mem (h_blob h) table) (\<lambda>t.
                      rbind (match_locales lang (min (unat (ie_count e)) (unat (ie_count table))) t first) (\<lambda>r.
                        Inr (h, case r of None \<Rightarrow> first | Some d \<Rightarrow> d))))) (\<lambda>(h, d).
        if ie_data e = NoData \<and> \<not> has flags HEADERGET_ALLOC then Inr (h, td\<lparr>td_data := TdNull\<rparr>, True)
        else rbind (read_string d) (\<lambda>s.
          Inr (h, td\<lparr>td_data := TdString s,
                     td_flags := (if has flags HEADERGET_ALLOC then td_flags td OR RPMTD_ALLOCED else td_flags td),
                     td_size := of_nat (length s + 1)\<rparr>, True)))))"

definition intGetTdEntry ::
    "(cstr \<Rightarrow> cstr option) \<Rightarrow> header \<Rightarrow> rpmtd \<Rightarrow> u32 \<Rightarrow> hdr_error + (header \<times> rpmtd \<times> bool)" where
  "intGetTdEntry env h td flags =
     (case findEntry h (td_tag td) RPM_NULL_TYPE of
        (h, None) \<Rightarrow> Inr (h, td, False)
      | (h, Some i) \<Rightarrow>
          let e = h_index h ! i in
          rbind (if ie_type e = RPM_I18NSTRING_TYPE \<and> \<not> has flags HEADERGET_RAW then copyI18NEntry env h e td flags
                 else rbind (copyTdEntry (h_blob h) e td flags) (\<lambda>(td, rc). Inr (h, td, rc))) (\<lambda>(h, td, rc).
            Inr (h, if rc then td else td\<lparr>td_flags := td_flags td OR RPMTD_INVALID\<rparr>, rc)))"

text \<open>The extensions compute tags that are not stored; their table is a parameter.\<close>

type_synonym tag_func = "header \<Rightarrow> rpmtd \<Rightarrow> u32 \<Rightarrow> hdr_error + (header \<times> rpmtd \<times> bool)"

definition headerGet ::
    "(cstr \<Rightarrow> cstr option) \<Rightarrow> (u32 \<Rightarrow> tag_func option) \<Rightarrow> header \<Rightarrow> u32 \<Rightarrow> rpmtd option \<Rightarrow> u32 \<Rightarrow>
     hdr_error + (header \<times> rpmtd option \<times> bool)" where
  "headerGet env rpmHeaderTagFunc h tag td flags =
     (case rpmtdReset td of None \<Rightarrow> Inr (h, None, False)
      | Some td \<Rightarrow>
          let tagfunc = (if has flags HEADERGET_EXT
             then (case rpmHeaderTagFunc tag of Some f \<Rightarrow> f | None \<Rightarrow> intGetTdEntry env) else intGetTdEntry env) in
          rbind (tagfunc h (td\<lparr>td_tag := tag\<rparr>) flags) (\<lambda>(h, td, rc). Inr (h, Some td, rc)))"

definition headerIsSourceHeuristic :: "header \<Rightarrow> hdr_error + (header \<times> bool)" where
  "headerIsSourceHeuristic h =
     (case findEntry h RPMTAG_DIRNAMES RPM_STRING_ARRAY_TYPE of
        (h, None) \<Rightarrow> Inr (h, False)
      | (h, Some i) \<Rightarrow>
          let e = h_index h ! i in
          if ie_count e = 1 \<and> ie_data e \<noteq> NoData
          then rbind (data_mem (h_blob h) e) (\<lambda>m. case m of [] \<Rightarrow> Inl Overread | b # _ \<Rightarrow> Inr (h, b = 0))
          else Inr (h, False))"

text \<open>A tag straight from a blob: only data that needs no byte swapping. \<open>None\<close> is \<open>RPMRC_NOTFOUND\<close>.\<close>

definition hdrblobGet :: "hdrblob \<Rightarrow> u32 \<Rightarrow> hdr_error + (rpmtd \<times> bool option)" where
  "hdrblobGet blob tag =
     rbind (hdrblobFindEntry blob tag) (\<lambda>pe.
       case pe of None \<Rightarrow> Inr (td_zero, None)
       | Some pe \<Rightarrow>
           rbind (ei2h (bl_ei blob) pe) (\<lambda>info.
           let tsize = typeSizes ! unat (ei_type info); a = data_addr blob + sint (ei_offset info) in
           if tsize \<noteq> 1 \<and> tsize \<noteq> -1 then Inr (td_zero, Some False)
           else
             rbind (read_range (bl_ei blob) a (data_addr blob + uint (bl_dl blob))) (\<lambda>p.
             case dataLength (ei_type info) p (ei_count info) of None \<Rightarrow> Inr (td_zero, Some False)
             | Some len \<Rightarrow>
                 rbind (copyTdEntry (bl_ei blob) \<lparr>ie_info = info, ie_data = InBlob a, ie_length = len, ie_rdlen = 0\<rparr>
                     (td_zero\<lparr>td_tag := ei_tag info\<rparr>) HEADERGET_MINMEM) (\<lambda>(td, rc). Inr (td, Some rc)))))"

subsection \<open>Adding a translation\<close>

fun find_lang :: "nat \<Rightarrow> bytes \<Rightarrow> cstr \<Rightarrow> nat \<Rightarrow> hdr_error + nat" where
  "find_lang 0 l lang langNum = Inr langNum"
| "find_lang (Suc n) l lang langNum =
     rbind (read_string l) (\<lambda>s. if rstreq s lang then Inr langNum else find_lang n (after_string l) lang (Suc langNum))"

text \<open>The offsets \<open>be\<close>, \<open>e\<close> and \<open>ee\<close> of the string to replace, of the next string and of the end. The loop
  goes over as many strings as the table has languages.\<close>

fun walk_strings :: "nat \<Rightarrow> nat \<Rightarrow> nat \<Rightarrow> bytes \<Rightarrow> nat \<times> nat \<times> nat \<Rightarrow> hdr_error + (nat \<times> nat \<times> nat)" where
  "walk_strings 0 i langNum b ps = Inr ps"
| "walk_strings (Suc n) i langNum b (be, e, ee) =
     rbind (read_string (drop ee b)) (\<lambda>s.
       let be = (if i = langNum then ee else be); ee = ee + length s + 1; e = (if i = langNum then ee else e)
       in walk_strings n (Suc i) langNum b (be, e, ee))"

definition replace_string :: "header \<Rightarrow> nat \<Rightarrow> nat \<Rightarrow> nat \<Rightarrow> cstr \<Rightarrow> hdr_error + header" where
  "replace_string h i tableCount langNum str =
     (let entry = h_index h ! i in
      rbind (data_mem (h_blob h) entry) (\<lambda>b.
      rbind (walk_strings tableCount 0 langNum b (0, 0, 0)) (\<lambda>(be, e, ee).
      rbind (read_string (drop be b)) (\<lambda>old.
      let buf = take be b @ cbytes str @ [0] @ take (ee - e) (drop e b) in
      Inr (h\<lparr>h_index := (h_index h)[i := entry
          \<lparr>ie_info := (ie_info entry)\<lparr>ei_offset := (if ENTRY_IN_REGION entry then 0 else ie_offset entry)\<rparr>,
           ie_data := Alloc buf,
           ie_length := ie_length entry - of_nat (length old + 1) + of_nat (length str + 1)\<rparr>]\<rparr>)))))"

text \<open>A new table of languages has the C locale and the language that is added.\<close>

definition i18n_td :: "u32 \<Rightarrow> u32 \<Rightarrow> cstr list \<Rightarrow> rpmtd" where
  "i18n_td tag type ss = td_zero\<lparr>td_tag := tag, td_type := type, td_data := TdStrings (map Some ss), td_count := of_nat (length ss)\<rparr>"

definition new_table :: "header \<Rightarrow> cstr option \<Rightarrow> hdr_error + (header \<times> bool)" where
  "new_table h lang =
     (let langs = (case lang of None \<Rightarrow> [''C''] | Some l \<Rightarrow> if l = ''C'' then [''C''] else [''C'', l]) in
      headerPut h (i18n_td RPMTAG_HEADERI18NTABLE RPM_STRING_ARRAY_TYPE langs) 0)"

definition add_string :: "header \<Rightarrow> nat \<Rightarrow> nat option \<Rightarrow> u32 \<Rightarrow> cstr \<Rightarrow> nat \<Rightarrow> hdr_error + (header \<times> bool)" where
  "add_string h table entry tag str langNum =
     (case entry of
        None \<Rightarrow> headerPut h (i18n_td tag RPM_I18NSTRING_TYPE (replicate langNum [] @ [str])) 0
      | Some i \<Rightarrow>
          let cnt = unat (ie_count (h_index h ! i)) in
          if langNum \<ge> cnt
          then rbind (entry_append h i (replicate (langNum - cnt) 0 @ cbytes str @ [0]) (of_nat (langNum + 1))) (\<lambda>h. Inr (h, False))
          else rbind (replace_string h i (unat (ie_count (h_index h ! table))) langNum str) (\<lambda>h. Inr (h, False)))"

definition headerAddI18NString :: "header \<Rightarrow> u32 \<Rightarrow> cstr \<Rightarrow> cstr option \<Rightarrow> hdr_error + (header \<times> bool)" where
  "headerAddI18NString h tag str lang =
     (let (h, table) = findEntry h RPMTAG_HEADERI18NTABLE RPM_STRING_ARRAY_TYPE;
          (h, entry) = findEntry h tag RPM_I18NSTRING_TYPE in
      if table = None \<and> entry \<noteq> None then Inr (h, False)
      else
        rbind (if table = None then
            rbind (new_table h lang) (\<lambda>(h, ok).
              if \<not> ok then Inr (h, None) else Inr (findEntry h RPMTAG_HEADERI18NTABLE RPM_STRING_ARRAY_TYPE))
          else Inr (h, table)) (\<lambda>(h, table).
        case table of None \<Rightarrow> Inr (h, False)
        | Some t \<Rightarrow>
            let lang = (case lang of None \<Rightarrow> ''C'' | Some l \<Rightarrow> l); cnt = ie_count (h_index h ! t) in
            rbind (data_mem (h_blob h) (h_index h ! t)) (\<lambda>l.
            rbind (find_lang (unat cnt) l lang 0) (\<lambda>langNum.
            rbind (if langNum \<ge> unat cnt then entry_append h t (cbytes lang @ [0]) (cnt + 1) else Inr h) (\<lambda>h.
            add_string h t entry tag str langNum)))))"

subsection \<open>Iteration\<close>

text \<open>The iterator refers to a header and holds the position of the next entry.\<close>

definition headerInitIterator :: "header \<Rightarrow> header \<times> nat" where
  "headerInitIterator h = (headerSort h, 0)"

fun skip_regions :: "indexEntry list \<Rightarrow> nat \<Rightarrow> nat" where
  "skip_regions [] slot = slot"
| "skip_regions (e # es) slot = (if ENTRY_IS_REGION e then skip_regions es (Suc slot) else slot)"

definition nextIndex :: "header \<Rightarrow> nat \<Rightarrow> nat \<times> indexEntry option" where
  "nextIndex h next_index =
     (let slot = skip_regions (drop next_index (h_index h)) next_index in
      if slot \<ge> length (h_index h) then (slot, None) else (Suc slot, Some (h_index h ! slot)))"

definition headerNextTag :: "header \<Rightarrow> nat \<Rightarrow> nat \<times> u32" where
  "headerNextTag h hi = (let (hi, e) = nextIndex h hi in (hi, case e of None \<Rightarrow> RPMTAG_NOT_FOUND | Some e \<Rightarrow> ie_tag e))"

definition headerNext :: "header \<Rightarrow> nat \<Rightarrow> hdr_error + (nat \<times> rpmtd \<times> bool)" where
  "headerNext h hi =
     (let (hi, e) = nextIndex h hi in
      case e of None \<Rightarrow> Inr (hi, td_zero, False)
      | Some e \<Rightarrow>
          rbind (copyTdEntry (h_blob h) e (td_zero\<lparr>td_tag := ie_tag e\<rparr>) 0) (\<lambda>(td, rc). Inr (hi, td, rc)))"

subsection \<open>What was put is got\<close>

lemma nul_terminated:
  assumes "nul_free s"
  shows "read_string (cbytes s @ 0 # rest) = Inr s" "after_string (cbytes s @ 0 # rest) = rest"
proof -
  have nz: "\<forall>b \<in> set (cbytes s). b \<noteq> 0" using cbytes_nonzero [OF assms] by metis
  then have "takeWhile (\<lambda>b. b \<noteq> 0) (cbytes s @ 0 # rest) = cbytes s" "dropWhile (\<lambda>b. b \<noteq> 0) (cbytes s @ 0 # rest) = 0 # rest"
    by (simp_all add: takeWhile_append2 dropWhile_append2)
  then show "read_string (cbytes s @ 0 # rest) = Inr s" "after_string (cbytes s @ 0 # rest) = rest"
    by (simp_all add: read_string_def after_string_def)
qed

lemma read_strings_Suc: "read_strings (Suc n) bs = rbind (read_string bs) (\<lambda>s. rbind (read_strings n (after_string bs)) (\<lambda>ss. Inr (s # ss)))"
  by (simp add: read_string_def after_string_def)

lemma read_strings_block: "\<forall>s \<in> set ss. nul_free s \<Longrightarrow> read_strings (length ss) (string_block ss @ rest) = Inr ss"
  by (induction ss) (simp_all add: read_strings_Suc nul_terminated del: read_strings.simps(2))

text \<open>The part of the data that type and count speak of.\<close>

definition td_elems :: "u32 \<Rightarrow> u32 \<Rightarrow> tddata \<Rightarrow> tddata" where
  "td_elems type cnt d =
     (if type = RPM_STRING_TYPE then d
      else if is_array type then (case d of TdStrings ss \<Rightarrow> TdStrings (take (unat cnt) ss) | _ \<Rightarrow> d)
      else TdBytes (take (nat (typeSizes ! unat type) * unat cnt) (raw_bytes d)))"

text \<open>What \<open>headerGet\<close> makes of them: as an argument vector, a string is a list of one string.\<close>

definition got_elems :: "u32 \<Rightarrow> u32 \<Rightarrow> u32 \<Rightarrow> tddata \<Rightarrow> tddata" where
  "got_elems flags type cnt d =
     (case td_elems type cnt d of
        TdString s \<Rightarrow> if has flags HEADERGET_ARGV then TdStrings [Some s] else TdString s
      | d \<Rightarrow> d)"

lemma number_size:
  assumes "\<not> hdrchkType type" "\<not> hdrchkData cnt"
  shows "unat (of_int (typeSizes ! unat (type AND 0xf)) * cnt :: u32) = nat (typeSizes ! unat type) * unat cnt \<or> type \<in> {6, 8, 9}"
proof -
  have u: "unat cnt \<le> 0x0fffffff" using assms(2) by (simp add: hdrchkData_bound)
  then show ?thesis using type_cases [OF assms(1)] by (auto simp: typeSizes_def unat_word_ariths)
qed

lemma copyTdEntry_new:
  assumes "grabData (td_type td) (td_data td) (td_count td) = Inr (Some bs)" "data_valid (td_data td)" "\<not> hdrchkType (td_type td)"
    "td_count td \<noteq> 0" "\<not> hdrchkData (td_count td)"
    "td_type td = RPM_BIN_TYPE \<longrightarrow> \<not> ENTRY_IS_REGION (new_entry td bs)"
  shows "\<exists>fl. copyTdEntry mem (new_entry td bs) t flags =
    Inr (finish_copy (new_entry td bs) t fl (got_elems flags (td_type td) (td_count td) (td_data td)) (td_count td), True)"
proof -
  let ?e = "new_entry td bs" and ?type = "td_type td"
  have ok: "data_ok ?type bs (td_count td)" using assms grabData_ok by blast
  then have len: "unat (of_nat (length bs) :: u32) = length bs" by (intro unat_of_nat_u32) (simp add: data_ok_def)
  have mem: "data_mem mem ?e = Inr bs" "ie_length ?e = of_nat (length bs)" "ie_data ?e = Alloc bs" "n \<le> length bs \<Longrightarrow> entry_mem mem ?e 0 n = Inr (take n bs)" for n
    by (simp_all add: data_mem_def new_entry_def entry_mem_def)
  consider (str) "?type = RPM_STRING_TYPE" | (arr) "is_array ?type" "?type \<noteq> RPM_STRING_TYPE" "?type \<noteq> RPM_BIN_TYPE"
    | (num) "?type \<noteq> RPM_STRING_TYPE" "\<not> is_array ?type" by (fastforce simp: is_array_def)
  then show ?thesis
  proof cases
    case str
    then obtain s where s: "td_count td = 1" "td_data td = TdString s" "nul_free s" "bs = string_block [s]"
      using grabData_string assms(1,2) by metis
    then have "read_string bs = Inr s" "read_strings 1 bs = Inr [s]"
      using nul_terminated(1) [of s "[]"] read_strings_block [of "[s]" "[]"] by simp_all
    then show ?thesis using str s mem len by (auto simp: copyTdEntry_def Let_def td_elems_def got_elems_def)
  next
    case arr
    then obtain ss ts where t: "td_data td = TdStrings ss" "take (unat (td_count td)) ss = map Some ts" "length ts = unat (td_count td)"
        "\<forall>s \<in> set ts. nul_free s" "bs = string_block ts"
      using grabData_array [OF assms(1,2) _ assms(4)] by blast
    then have "read_strings (unat (td_count td)) bs = Inr ts" using read_strings_block [of ts "[]"] by simp
    then show ?thesis using arr t(1,2) mem len by (auto simp: copyTdEntry_def Let_def td_elems_def got_elems_def)
  next
    case num
    note n = grabData_number [OF assms(1) num]
    have sz: "length bs = nat (typeSizes ! unat ?type) * unat (td_count td)"
      using n number_size [OF assms(3,5)] num by (auto simp: is_array_def)
    then have el: "got_elems flags ?type (td_count td) (td_data td) = TdBytes bs"
      using num n [THEN conjunct2, THEN conjunct2, symmetric] by (simp only: got_elems_def td_elems_def sz if_False tddata.case)
    show ?thesis
    proof (cases "?type = RPM_BIN_TYPE")
      case True
      then have "length bs = unat (td_count td)" using sz by (simp add: typeSizes_def)
      then show ?thesis using True assms(6) mem el by (auto simp: copyTdEntry_def Let_def)
    next
      case False
      then have "is_number ?type" using num type_cases [OF assms(3)] by (auto simp: is_number_def is_array_def)
      then show ?thesis using False num mem len el by (auto simp: copyTdEntry_def Let_def)
    qed
  qed
qed

lemma findEntry_only:
  assumes "header_wf h" "small_tag tag" "lookups h tag = [e]"
  shows "\<exists>i. findEntry h tag RPM_NULL_TYPE = (headerSort h, Some i) \<and> h_index (headerSort h) ! i = e"
proof -
  have inv: "header_inv h" using assms(1) by (simp add: header_wf_def)
  obtain i where i: "snd (findEntry h tag RPM_NULL_TYPE) = Some i" using findEntry_any(1) [OF inv assms(2)] assms(3) by auto
  note at = findEntry_any(2) [OF inv assms(2) i]
  then have "h_index (headerSort h) ! i \<in> set (lookups (headerSort h) tag)" by (simp add: lookups_def del: headerSort_same)
  then have "h_index (headerSort h) ! i = e" using assms(3) by (simp add: headerSort_lookups [OF inv])
  moreover have "findEntry h tag RPM_NULL_TYPE = (headerSort h, Some i)"
    using i findEntry_header [of h tag RPM_NULL_TYPE] by (metis prod.collapse)
  ultimately show ?thesis by blast
qed


subsection \<open>Iteration visits every entry\<close>

fun next_tags :: "nat \<Rightarrow> header \<Rightarrow> nat \<Rightarrow> u32 list" where
  "next_tags 0 h hi = []"
| "next_tags (Suc n) h hi = (let (hi, tag) = headerNextTag h hi in tag # next_tags n h hi)"

lemma skip_regions_eq: "skip_regions es slot = slot + length (takeWhile ENTRY_IS_REGION es)"
  by (induction es arbitrary: slot) auto

lemma nextIndex_spec:
  fixes h hi
  defines "rest \<equiv> filter (\<lambda>e. \<not> ENTRY_IS_REGION e) (drop hi (h_index h))"
  shows "snd (nextIndex h hi) = (case rest of [] \<Rightarrow> None | e # _ \<Rightarrow> Some e)"
    "filter (\<lambda>e. \<not> ENTRY_IS_REGION e) (drop (fst (nextIndex h hi)) (h_index h)) = tl rest"
proof -
  let ?es = "drop hi (h_index h)"
  let ?n = "length (takeWhile ENTRY_IS_REGION ?es)"
  have slot: "skip_regions ?es hi = hi + ?n" by (rule skip_regions_eq)
  have tail: "drop (hi + ?n) (h_index h) = dropWhile ENTRY_IS_REGION ?es" by (simp add: dropWhile_eq_drop add.commute)
  have rest: "rest = filter (\<lambda>e. \<not> ENTRY_IS_REGION e) (drop (hi + ?n) (h_index h))"
  proof -
    have "rest = filter (\<lambda>e. \<not> ENTRY_IS_REGION e) (takeWhile ENTRY_IS_REGION ?es @ dropWhile ENTRY_IS_REGION ?es)"
      unfolding rest_def takeWhile_dropWhile_id ..
    also have "filter (\<lambda>e. \<not> ENTRY_IS_REGION e) (takeWhile ENTRY_IS_REGION ?es) = []"
      by (auto simp: filter_empty_conv dest: set_takeWhileD)
    then have "filter (\<lambda>e. \<not> ENTRY_IS_REGION e) (takeWhile ENTRY_IS_REGION ?es @ dropWhile ENTRY_IS_REGION ?es) =
      filter (\<lambda>e. \<not> ENTRY_IS_REGION e) (dropWhile ENTRY_IS_REGION ?es)" by (simp only: filter_append append_Nil)
    finally show ?thesis unfolding tail .
  qed
  have both: "snd (nextIndex h hi) = (case rest of [] \<Rightarrow> None | e # _ \<Rightarrow> Some e) \<and>
    filter (\<lambda>e. \<not> ENTRY_IS_REGION e) (drop (fst (nextIndex h hi)) (h_index h)) = tl rest"
  proof (cases "hi + ?n < length (h_index h)")
    case True
    then have "\<not> ENTRY_IS_REGION (h_index h ! (hi + ?n))"
      using nth_length_takeWhile [of ENTRY_IS_REGION ?es] by (simp add: add.commute)
    moreover have "drop (hi + ?n) (h_index h) = h_index h ! (hi + ?n) # drop (Suc (hi + ?n)) (h_index h)"
      using Cons_nth_drop_Suc [OF True] by (rule sym)
    ultimately have "rest = h_index h ! (hi + ?n) # filter (\<lambda>e. \<not> ENTRY_IS_REGION e) (drop (Suc (hi + ?n)) (h_index h))"
      unfolding rest by (simp only: filter.simps simp_thms if_True)
    moreover have "nextIndex h hi = (Suc (hi + ?n), Some (h_index h ! (hi + ?n)))"
      using True by (simp only: nextIndex_def Let_def slot not_le [symmetric] simp_thms if_False)
    ultimately show ?thesis by simp
  qed (simp add: rest nextIndex_def Let_def slot)
  then show "snd (nextIndex h hi) = (case rest of [] \<Rightarrow> None | e # _ \<Rightarrow> Some e)"
    "filter (\<lambda>e. \<not> ENTRY_IS_REGION e) (drop (fst (nextIndex h hi)) (h_index h)) = tl rest" by blast+
qed

lemma next_tags_spec:
  "filter (\<lambda>e. \<not> ENTRY_IS_REGION e) (drop hi (h_index h)) = es \<Longrightarrow>
   next_tags (length es + k) h hi = map ie_tag es @ replicate k RPMTAG_NOT_FOUND"
proof (induction "length es + k" arbitrary: hi es k)
  case (Suc n)
  note s = nextIndex_spec [where h = h and hi = hi, unfolded Suc.prems]
  obtain hi' where hi': "nextIndex h hi = (hi', case es of [] \<Rightarrow> None | e # _ \<Rightarrow> Some e)" using s(1) by (metis prod.collapse)
  then have rest: "filter (\<lambda>e. \<not> ENTRY_IS_REGION e) (drop hi' (h_index h)) = tl es" using s(2) by simp
  show ?case
  proof (cases es)
    case Nil
    then obtain j where "k = Suc j" using Suc.hyps(2) by (cases k) auto
    then show ?thesis using Suc.hyps(1) [of "tl es" j hi'] Suc.hyps(2) rest hi' Nil by (simp add: headerNextTag_def)
  next
    case (Cons e es')
    then show ?thesis using Suc.hyps(1) [of es' k hi'] Suc.hyps(2) rest hi' by (simp add: headerNextTag_def)
  qed
qed auto

text \<open> the iteration over a header ends and misses nothing: the calls of \<open>headerNextTag\<close> return the tag of
  every entry of the header that is not a region, each one as often as the header has it and in ascending
  order, and report the end from then on.\<close>

theorem headerNextTag_visits_all:
  assumes "header_inv h" "headerInitIterator h = (h', hi)"
  shows "\<exists>tags. (\<forall>k. next_tags (length tags + k) h' hi = tags @ replicate k RPMTAG_NOT_FOUND) \<and>
    mset tags = image_mset ie_tag (filter_mset (\<lambda>e. \<not> ENTRY_IS_REGION e) (mset (h_index h))) \<and>
    sorted_wrt (\<le>) tags"
proof -
  let ?es = "filter (\<lambda>e. \<not> ENTRY_IS_REGION e) (h_index h')"
  have h': "h' = headerSort h" "hi = 0" using assms(2) by (simp_all add: headerInitIterator_def)
  have "next_tags (length (map ie_tag ?es) + k) h' hi = map ie_tag ?es @ replicate k RPMTAG_NOT_FOUND" for k
    using next_tags_spec [of hi h' ?es k] by (simp add: h'(2))
  moreover have "mset (h_index h') = mset (h_index h)"
    by (simp add: h'(1) headerSort_def)
  then have "mset (map ie_tag ?es) = image_mset ie_tag (filter_mset (\<lambda>e. \<not> ENTRY_IS_REGION e) (mset (h_index h)))"
    by simp
  moreover have "sorted_wrt (\<lambda>a b. uint (ie_tag a) \<le> uint (ie_tag b)) (h_index h')"
    using headerSort_inv [OF assms(1)] by (simp add: h'(1) header_inv_def ascending_tags)
  then have "sorted_wrt (\<le>) (map ie_tag ?es)"
    by (simp add: sorted_wrt_map sorted_wrt_filter word_le_def)
  ultimately show ?thesis by blast
qed

subsection \<open>Examples\<close>


theorem headerNextTag_visits_all_witness:
  "\<exists>h' hi. headerInitIterator demo_header = (h', hi) \<and> (\<exists>tags. next_tags (length tags) h' hi = tags \<and> sorted_wrt (\<le>) tags)"
proof -
  have "header_inv demo_header" using demo_plain by (simp add: plain_header_def)
  from headerNextTag_visits_all [OF this] obtain tags where
      "\<forall>k. next_tags (length tags + k) (headerSort demo_header) 0 = tags @ replicate k RPMTAG_NOT_FOUND" "sorted_wrt (\<le>) tags"
    unfolding headerInitIterator_def by blast
  then show ?thesis unfolding headerInitIterator_def by (metis add_0_right append_Nil2 replicate_0)
qed

end
