(* ===== verification/Header_I18n.thy ===== *)
theory Header_I18n
  imports Header_Get
begin

text \<open>
  Translated strings of lib/header.cc. The table of languages and the strings of a tag are blocks of
  NUL-terminated strings in memory; here they are related to lists of strings. Adding a translation is
  shown to refine an operation on these lists, and retrieval to choose the string of the locale.
\<close>

subsection \<open>Translated strings\<close>

text \<open>The strings of an entry, and of the only entry of a tag.\<close>

definition str_entry :: "header \<Rightarrow> indexEntry \<Rightarrow> u32 \<Rightarrow> cstr list \<Rightarrow> bool" where
  "str_entry h e type ss \<longleftrightarrow>
     ie_type e = type \<and> entry_data h e = Inr (string_block ss) \<and> unat (ie_length e) = strings_size ss \<and>
     unat (ie_count e) = length ss \<and> (\<forall>s \<in> set ss. nul_free s) \<and> ss \<noteq> []"

definition has_strings :: "header \<Rightarrow> u32 \<Rightarrow> u32 \<Rightarrow> cstr list \<Rightarrow> bool" where
  "has_strings h tag type ss \<longleftrightarrow> (\<exists>e. lookups h tag = [e] \<and> str_entry h e type ss)"

lemma string_block_append [simp]: "string_block (xs @ ys) = string_block xs @ string_block ys"
  by (simp add: string_block_def)

lemma strings_size_append [simp]: "strings_size (xs @ ys) = strings_size xs + strings_size ys"
  by (simp add: strings_size_def)

lemma string_block_empty: "string_block (replicate n []) = replicate n 0"
  by (induction n) (simp_all add: cbytes_def)

lemma str_entry_mem:
  assumes "str_entry h e type ss"
  shows "\<exists>rest. data_mem (h_blob h) e = Inr (string_block ss @ rest)"
proof -
  have "\<exists>rest. data_mem (h_blob h) e = Inr (bs @ rest)" if "entry_data h e = Inr bs" for bs
    using that by (cases "ie_data e") (auto simp: entry_data_def data_mem_def Let_def split: if_splits intro: append_take_drop_id [symmetric])
  then show ?thesis using assms by (simp add: str_entry_def)
qed

lemma str_entry_blob: "h_blob h' = h_blob h \<Longrightarrow> str_entry h' e type ss = str_entry h e type ss"
  by (simp add: str_entry_def entry_data_blob [of h' h])

lemma find_lang_spec:
  "\<forall>s \<in> set ss. nul_free s \<Longrightarrow>
   find_lang (length ss) (string_block ss @ rest) lang k = Inr (k + length (takeWhile (\<lambda>s. s \<noteq> lang) ss))"
  by (induction ss arbitrary: k) (auto simp: nul_terminated)

lemma read_nth:
  assumes "\<forall>s \<in> set ss. nul_free s" "i < length ss"
  shows "read_string (drop (strings_size (take i ss)) (string_block ss @ rest)) = Inr (ss ! i)"
    "strings_size (take i ss) + length (ss ! i) + 1 = strings_size (take (Suc i) ss)"
proof -
  have "string_block ss = string_block (take i ss) @ cbytes (ss ! i) @ 0 # string_block (drop (Suc i) ss)"
    by (subst id_take_nth_drop [OF assms(2)]) simp
  then have "drop (strings_size (take i ss)) (string_block ss @ rest) = cbytes (ss ! i) @ 0 # string_block (drop (Suc i) ss) @ rest"
    by simp
  then show "read_string (drop (strings_size (take i ss)) (string_block ss @ rest)) = Inr (ss ! i)"
    using nul_terminated(1) [of "ss ! i"] assms by simp
  show "strings_size (take i ss) + length (ss ! i) + 1 = strings_size (take (Suc i) ss)"
    using assms(2) by (simp add: take_Suc_conv_app_nth)
qed

lemma walk_strings_spec:
  assumes "\<forall>s \<in> set ss. nul_free s" "i + n \<le> length ss"
  shows "walk_strings n i k (string_block ss @ rest) (be, e, strings_size (take i ss)) =
    Inr (if i \<le> k \<and> k < i + n then strings_size (take k ss) else be,
         if i \<le> k \<and> k < i + n then strings_size (take (Suc k) ss) else e, strings_size (take (i + n) ss))"
  using assms(2)
proof (induction n arbitrary: i be e)
  case (Suc n)
  have i: "i < length ss" "Suc i + n \<le> length ss" using Suc.prems by simp_all
  show ?case
    by (simp only: walk_strings.simps read_nth [OF assms(1) i(1)] rbind_simps Let_def Suc.IH [OF i(2)]) auto
qed auto

lemma replaced_block:
  assumes "k < length ss"
  shows "take (strings_size (take k ss)) (string_block ss @ rest) @ cbytes str @ [0] @
      take (strings_size ss - strings_size (take (Suc k) ss)) (drop (strings_size (take (Suc k) ss)) (string_block ss @ rest)) =
    string_block (ss[k := str])"
    "strings_size (ss[k := str]) = strings_size ss - (length (ss ! k) + 1) + (length str + 1)"
    "length (ss ! k) + 1 \<le> strings_size ss"
proof -
  let ?a = "take k ss" and ?b = "drop (Suc k) ss"
  have ss: "ss = ?a @ (ss ! k) # ?b" using assms by (rule id_take_nth_drop)
  have pre: "strings_size (take (Suc k) ss) = strings_size ?a + (length (ss ! k) + 1)"
    using assms by (simp add: take_Suc_conv_app_nth)
  have size: "strings_size ss = strings_size ?a + (length (ss ! k) + 1) + strings_size ?b"
    by (subst ss) simp
  have "string_block ss = string_block ?a @ (cbytes (ss ! k) @ [0]) @ string_block ?b" by (subst ss) simp
  then have "take (strings_size ?a) (string_block ss @ rest) = string_block ?a"
      "drop (strings_size (take (Suc k) ss)) (string_block ss @ rest) = string_block ?b @ rest"
    unfolding pre by simp_all
  then show "take (strings_size ?a) (string_block ss @ rest) @ cbytes str @ [0] @
      take (strings_size ss - strings_size (take (Suc k) ss)) (drop (strings_size (take (Suc k) ss)) (string_block ss @ rest)) =
    string_block (ss[k := str])"
    using assms by (simp add: upd_conv_take_nth_drop pre size)
  show "strings_size (ss[k := str]) = strings_size ss - (length (ss ! k) + 1) + (length str + 1)"
    using assms by (simp add: upd_conv_take_nth_drop size)
  show "length (ss ! k) + 1 \<le> strings_size ss" using size by simp
qed

lemma look_back_same: "ie_type (xs ! i) = type \<Longrightarrow> look_back xs tag type i = i"
  by (cases i) auto

lemma findEntry_single:
  assumes "header_wf h" "small_tag tag" "lookups h tag = [e]" "type = RPM_NULL_TYPE \<or> type = ie_type e"
  shows "\<exists>i. findEntry h tag type = (headerSort h, Some i) \<and> i < length (h_index (headerSort h)) \<and>
    h_index (headerSort h) ! i = e \<and> ie_tag e = tag"
proof -
  have inv: "header_inv h" using assms(1) by (simp add: header_wf_def)
  let ?xs = "h_index (headerSort h)"
  obtain i where i: "bsearch indexCmp (key_entry tag) ?xs = Some i" "i < length ?xs" "ie_tag (?xs ! i) = tag"
    using bsearch_index [of "headerSort h" tag] headerSort_inv [OF inv] headerSort_lookups [OF inv, of tag] assms(2,3) by auto
  then have "?xs ! i \<in> set (lookups (headerSort h) tag)" by (simp add: lookups_def del: headerSort_same)
  then have "?xs ! i = e" using assms(3) by (simp add: headerSort_lookups [OF inv])
  then show ?thesis using i assms(4) by (auto simp: findEntry_def Let_def look_back_same)
qed

lemma findEntry_absent:
  assumes "header_wf h" "small_tag tag" "lookups h tag = []"
  shows "findEntry h tag type = (headerSort h, None)"
proof -
  have inv: "header_inv h" using assms(1) by (simp add: header_wf_def)
  have "bsearch indexCmp (key_entry tag) (h_index (headerSort h)) = None"
    using bsearch_index(1) [of "headerSort h" tag] headerSort_inv [OF inv] headerSort_lookups [OF inv, of tag] assms(2,3)
    by (cases "bsearch indexCmp (key_entry tag) (h_index (headerSort h))") auto
  then show ?thesis by (simp add: findEntry_def Let_def)
qed

lemma data_ok_strings:
  assumes "is_array type" "ss \<noteq> []" "\<forall>s \<in> set ss. nul_free s" "strings_size ss < 2 ^ 32" "unat cnt = length ss"
  shows "data_ok type (string_block ss) cnt"
proof -
  have "length ss < 2 ^ 32" using length_le_strings_size [of ss] assms(4) by simp
  moreover have "of_nat (length ss) = cnt" using assms(5) by (metis unat_of_nat_u32 u32_less word_unat_eq_iff)
  ultimately have "strtaglen (string_block ss) cnt 0 = Some (strings_size ss)"
    using strtaglen_block [of ss "[]" 0] assms(2,3) by simp
  moreover have "cnt \<noteq> 0" using assms(2,5) by auto
  moreover have "string_block ss \<noteq> []" using assms(2) by (cases ss) auto
  ultimately show ?thesis using assms(1,4) by (auto simp: data_ok_def dataLength_def is_array_def hdrchkType_def)
qed

text \<open>The only entry of a tag is replaced by one of the same tag.\<close>

lemma update_single:
  assumes "header_wf h" "i < length (h_index h)" "lookups h (ie_tag e) = [h_index h ! i]" "ie_tag e = ie_tag (h_index h ! i)"
    "str_entry h e type ss" "is_array type" "strings_size ss < 2 ^ 32"
  defines "h' \<equiv> h\<lparr>h_index := (h_index h)[i := e]\<rparr>"
  shows "header_wf h'" "lookups h' t = (if t = ie_tag e then [e] else lookups h t)"
proof -
  have "unat (ie_count e) = length ss" using assms(5) by (simp add: str_entry_def)
  then have "data_ok type (string_block ss) (ie_count e)"
    using data_ok_strings [OF assms(6) _ _ assms(7)] assms(5) by (simp add: str_entry_def)
  then have "entry_wf h e" using assms(5) by (simp add: entry_wf_def str_entry_def)
  note u = update_entry_wf [OF assms(1,2,4) this]
  show "header_wf h'" unfolding h'_def by (rule u(1))
  have "filter (\<lambda>x. ie_tag x = ie_tag e) ((h_index h)[i := e]) = [e]"
  proof -
    have "filter (\<lambda>x. ie_tag x = ie_tag e) (take i (h_index h) @ h_index h ! i # drop (Suc i) (h_index h)) = [h_index h ! i]"
      using assms(3) id_take_nth_drop [OF assms(2)] by (simp add: lookups_def)
    then show ?thesis using assms(2,4) by (simp add: upd_conv_take_nth_drop append_eq_Cons_conv)
  qed
  then show "lookups h' t = (if t = ie_tag e then [e] else lookups h t)"
    using u(2) by (simp add: h'_def lookups_def)
qed

text \<open>An update of the only entry of a tag, as the operations below see it.\<close>

definition updated :: "header \<Rightarrow> nat \<Rightarrow> u32 \<Rightarrow> u32 \<Rightarrow> cstr list \<Rightarrow> header \<Rightarrow> bool" where
  "updated h i tag type ss h' \<longleftrightarrow>
     header_wf h' \<and> h_blob h' = h_blob h \<and> h_sorted h' = h_sorted h \<and>
     (\<exists>e. h_index h' = (h_index h)[i := e] \<and> lookups h' tag = [e] \<and> str_entry h' e type ss) \<and> (\<forall>t. t \<noteq> tag \<longrightarrow> lookups h' t = lookups h t)"

lemma update_strings:
  assumes "header_wf h" "i < length (h_index h)" "lookups h tag = [h_index h ! i]" "ie_tag (h_index h ! i) = tag"
    "ie_tag e = tag" "ie_type e = type" "ie_data e = Alloc (string_block ss)" "unat (ie_length e) = strings_size ss"
    "unat (ie_count e) = length ss" "\<forall>s \<in> set ss. nul_free s" "ss \<noteq> []" "is_array type" "strings_size ss < 2 ^ 32"
  shows "updated h i tag type ss (h\<lparr>h_index := (h_index h)[i := e]\<rparr>)"
proof -
  let ?h = "h\<lparr>h_index := (h_index h)[i := e]\<rparr>"
  have e: "str_entry h e type ss" unfolding str_entry_def using assms(6-11) by (simp add: entry_data_def)
  have look: "lookups h (ie_tag e) = [h_index h ! i]" and tag: "ie_tag e = ie_tag (h_index h ! i)"
    using assms(3-5) by simp_all
  note u = update_single [OF assms(1,2) look tag e assms(12,13)]
  have "str_entry ?h e type ss" using e str_entry_blob [of ?h h] by simp
  moreover have "lookups ?h tag = [e]" using u(2) [of tag] assms(5) by simp
  moreover have "lookups ?h t = lookups h t" if "t \<noteq> tag" for t using u(2) [of t] that assms(5) by simp
  ultimately show ?thesis unfolding updated_def using u(1) by auto
qed

lemma append_strings:
  assumes "header_wf h" "i < length (h_index h)" "lookups h tag = [h_index h ! i]" "ie_tag (h_index h ! i) = tag"
    "str_entry h (h_index h ! i) type ss" "is_array type" "\<forall>s \<in> set xs. nul_free s" "strings_size (ss @ xs) < 2 ^ 32"
    "unat cnt = length (ss @ xs)"
  shows "\<exists>h'. entry_append h i (string_block xs) cnt = Inr h' \<and> updated h i tag type (ss @ xs) h'"
proof -
  let ?e = "h_index h ! i"
  have old: "entry_data h ?e = Inr (string_block ss)" "unat (ie_length ?e) = strings_size ss" "ie_type ?e = type" "ss \<noteq> []"
      "\<forall>s \<in> set ss. nul_free s"
    using assms(5) by (simp_all add: str_entry_def)
  have len: "unat (ie_length ?e + of_nat (length (string_block xs))) = strings_size (ss @ xs)"
    using assms(8) old(2) by (simp add: unat_word_ariths unat_of_nat)
  let ?e' = "?e\<lparr>ie_info := (ie_info ?e)\<lparr>ei_offset := (if ENTRY_IN_REGION ?e then 0 else ie_offset ?e), ei_count := cnt\<rparr>,
       ie_data := Alloc (string_block ss @ string_block xs), ie_length := ie_length ?e + of_nat (length (string_block xs))\<rparr>"
  have "updated h i tag type (ss @ xs) (h\<lparr>h_index := (h_index h)[i := ?e']\<rparr>)"
    using assms old len by (intro update_strings) auto
  then show ?thesis using old(1) by (simp add: entry_append_def Let_def)
qed

lemma replace_strings:
  assumes "header_wf h" "i < length (h_index h)" "lookups h tag = [h_index h ! i]" "ie_tag (h_index h ! i) = tag"
    "str_entry h (h_index h ! i) type ss" "is_array type" "nul_free str" "strings_size (ss[k := str]) < 2 ^ 32" "k < length ss"
  shows "\<exists>h'. replace_string h i (length ss) k str = Inr h' \<and> updated h i tag type (ss[k := str]) h'"
proof -
  let ?e = "h_index h ! i"
  have old: "unat (ie_length ?e) = strings_size ss" "ie_type ?e = type" "ss \<noteq> []" "\<forall>s \<in> set ss. nul_free s" "unat (ie_count ?e) = length ss"
    using assms(5) by (simp_all add: str_entry_def)
  obtain rest where rest: "data_mem (h_blob h) ?e = Inr (string_block ss @ rest)" using str_entry_mem [OF assms(5)] by blast
  note blk = replaced_block [OF assms(9)]
  have walk: "walk_strings (length ss) 0 k (string_block ss @ rest) (0, 0, 0) =
      Inr (strings_size (take k ss), strings_size (take (Suc k) ss), strings_size ss)"
    using walk_strings_spec [OF old(4), of 0 "length ss" k rest 0 0] assms(9) by simp
  have rd: "read_string (drop (strings_size (take k ss)) (string_block ss @ rest)) = Inr (ss ! k)"
    using old(4) assms(9) by (rule read_nth)
  let ?n = "ie_length ?e - of_nat (length (ss ! k) + 1) + of_nat (length str + 1)"
  have len: "unat ?n = strings_size (ss[k := str])"
  proof -
    have "strings_size ss < 2 ^ 32" using u32_less [of "ie_length ?e"] old(1) by simp
    then have "ie_length ?e = of_nat (strings_size ss)"
      unfolding word_unat_eq_iff using old(1) unat_of_nat_u32 by metis
    then have "?n = of_nat (strings_size (ss[k := str]))" using blk(2,3) by (simp add: of_nat_diff)
    then show ?thesis using unat_of_nat_u32 [OF assms(8)] by (simp only:)
  qed
  let ?e' = "?e\<lparr>ie_info := (ie_info ?e)\<lparr>ei_offset := (if ENTRY_IN_REGION ?e then 0 else ie_offset ?e)\<rparr>,
       ie_data := Alloc (string_block (ss[k := str])), ie_length := ?n\<rparr>"
  have "\<forall>s \<in> set (ss[k := str]). nul_free s" using old(4) assms(7) by (metis insertE set_update_subset_insert subsetD)
  then have "updated h i tag type (ss[k := str]) (h\<lparr>h_index := (h_index h)[i := ?e']\<rparr>)"
    using assms old len by (intro update_strings) auto
  moreover have "replace_string h i (length ss) k str = Inr (h\<lparr>h_index := (h_index h)[i := ?e']\<rparr>)"
    unfolding replace_string_def Let_def rest rbind_simps walk prod.case rd blk(1) ..
  ultimately show ?thesis by blast
qed

lemma strings_of_map: "strings_of (length ss) (map Some ss) = Inr ss"
  by (induction ss) simp_all

lemma grabData_strings:
  assumes "is_array type" "ss \<noteq> []" "\<forall>s \<in> set ss. nul_free s" "strings_size ss < 2 ^ 32"
  shows "grabData type (TdStrings (map Some ss)) (of_nat (length ss)) = Inr (Some (string_block ss))"
proof -
  have u: "unat (of_nat (length ss) :: u32) = length ss" "unat (of_nat (strings_size ss) :: u32) = strings_size ss"
    using length_le_strings_size [of ss] assms(4) by (intro unat_of_nat_u32; simp)+
  have pos: "0 < strings_size ss" using assms(2) by (cases ss) auto
  then have "(0 :: u32) < of_nat (strings_size ss)" using u(2) by (simp add: word_less_nat_alt)
  moreover have "copy_strings ss (of_nat (strings_size ss)) = string_block ss"
    using assms(2,3) u(2) pos by (intro copy_strings_all) (auto simp: neq_Nil_conv)
  moreover have "type \<noteq> RPM_STRING_TYPE" using assms(1) by (auto simp: is_array_def)
  moreover from this have "dataLength_mem type (TdStrings (map Some ss)) (of_nat (length ss)) = Inr (Some (of_nat (strings_size ss)))"
    using assms(1) u(1) by (simp add: dataLength_mem_def strings_of_map strings_size_def)
  ultimately show ?thesis
    using assms(1) u by (simp add: grabData_def copyData_def strings_of_map)
qed

lemma hdrchkArray_bound: "unat cnt \<le> 0xfffff \<Longrightarrow> \<not> hdrchkArray type cnt"
  using not_mask_bound [of HEADER_ARRAY_MAX 20 cnt] by (auto simp: hdrchkArray_def mask_eq_exp_minus_1)

lemma put_strings:
  assumes "header_wf h" "small_tag tag" "lookups h tag = []" "is_array type" "ss \<noteq> []" "\<forall>s \<in> set ss. nul_free s"
    "strings_size ss < 2 ^ 32" "length ss \<le> 0xfffff"
  shows "\<exists>h'. headerPut h (i18n_td tag type ss) 0 = Inr (h', True) \<and> header_wf h' \<and> h_blob h' = h_blob h \<and>
    has_strings h' tag type ss \<and> (\<forall>t. t \<noteq> tag \<longrightarrow> lookups h' t = lookups h t)"
proof -
  let ?td = "i18n_td tag type ss"
  have td: "td_tag ?td = tag" "td_type ?td = type" "td_data ?td = TdStrings (map Some ss)" "td_count ?td = of_nat (length ss)"
    by (simp_all add: i18n_td_def)
  have u: "unat (of_nat (length ss) :: u32) = length ss" using assms(8) by (intro unat_of_nat_u32) simp
  have chk: "of_nat (length ss) \<noteq> (0 :: u32)" "\<not> hdrchkType type" "\<not> hdrchkData (of_nat (length ss))" "\<not> hdrchkArray type (of_nat (length ss))"
    using assms(4,5,8) u by (auto simp: is_array_def hdrchkType_def hdrchkData_bound intro!: hdrchkArray_bound simp flip: unat_eq_0)
  note grab = grabData_strings [OF assms(4-7)]
  obtain h' where put: "headerPut h ?td 0 = Inr (h', True)"
    using chk grab by (simp add: headerPut_def has_def intAddEntry_def td Let_def)
  then have add: "intAddEntry h ?td = Inr (h', True)" by (simp add: headerPut_def has_def)
  have valid: "data_valid (td_data ?td)"
  proof -
    have "sum_list (map (case_option 0 (\<lambda>s. Suc (length s))) (map Some ss)) = strings_size ss" by (induction ss) simp_all
    then show ?thesis using assms(6,7) by (auto simp: td data_valid_def)
  qed
  have wf: "header_wf h'" using intAddEntry_wf [OF add valid assms(1)] assms(2) by (simp add: td)
  have bl: "h_blob h' = h_blob h" using add by (auto simp: intAddEntry_def Let_def rbind_eq_Inr split: if_splits option.splits)
  have look: "lookups h' t = lookups h t @ (if t = tag then [new_entry ?td (string_block ss)] else [])" for t
    using intAddEntry_lookups [OF add valid] grab by (auto simp: td)
  have "unat (of_nat (strings_size ss) :: u32) = strings_size ss" using assms(7) by (rule unat_of_nat_u32)
  then have "str_entry h' (new_entry ?td (string_block ss)) type ss"
    using assms(5,6) u by (simp add: str_entry_def new_entry_def td entry_data_def)
  then show ?thesis using put wf bl look assms(3) by (auto simp: has_strings_def)
qed

text \<open>The abstract state: the languages of the table and the strings of a tag, both empty where the header does
  not have them. A new language goes to the end of the table; the string goes to the position of its
  language, with empty strings for the languages between.\<close>

definition translated :: "header \<Rightarrow> u32 \<Rightarrow> cstr list \<Rightarrow> cstr list \<Rightarrow> bool" where
  "translated h tag langs strs \<longleftrightarrow>
     (if langs = [] then lookups h RPMTAG_HEADERI18NTABLE = []
      else has_strings h RPMTAG_HEADERI18NTABLE RPM_STRING_ARRAY_TYPE langs) \<and>
     (if strs = [] then lookups h tag = [] else has_strings h tag RPM_I18NSTRING_TYPE strs)"

definition lang_pos :: "cstr \<Rightarrow> cstr list \<Rightarrow> nat" where
  "lang_pos lang langs = length (takeWhile (\<lambda>l. l \<noteq> lang) langs)"

definition add_lang :: "cstr \<Rightarrow> cstr list \<Rightarrow> cstr list" where
  "add_lang lang langs =
     (let langs = (if langs = [] then [''C''] else langs) in if lang \<in> set langs then langs else langs @ [lang])"

definition put_at :: "nat \<Rightarrow> cstr \<Rightarrow> cstr list \<Rightarrow> cstr list" where
  "put_at k str strs = (if k < length strs then strs[k := str] else strs @ replicate (k - length strs) [] @ [str])"

lemma lang_pos_absent: "lang \<notin> set langs \<Longrightarrow> lang_pos lang langs = length langs"
  by (induction langs) (auto simp: lang_pos_def)

lemma lang_pos_present: "lang \<in> set langs \<Longrightarrow> lang_pos lang langs < length langs"
  by (induction langs) (auto simp: lang_pos_def)

lemma lang_pos_append: "lang_pos lang (langs @ [lang]) = lang_pos lang langs"
  by (induction langs) (auto simp: lang_pos_def)

lemma table_step:
  assumes "header_wf h" "t < length (h_index h)" "lookups h RPMTAG_HEADERI18NTABLE = [h_index h ! t]"
    "ie_tag (h_index h ! t) = RPMTAG_HEADERI18NTABLE" "str_entry h (h_index h ! t) RPM_STRING_ARRAY_TYPE langs" "nul_free lang"
    "strings_size (add_lang lang langs) < 2 ^ 32"
  shows "\<exists>l h'. data_mem (h_blob h) (h_index h ! t) = Inr l \<and>
    find_lang (unat (ie_count (h_index h ! t))) l lang 0 = Inr (lang_pos lang langs) \<and>
    (if lang_pos lang langs \<ge> unat (ie_count (h_index h ! t)) then entry_append h t (cbytes lang @ [0]) (ie_count (h_index h ! t) + 1)
     else Inr h) = Inr h' \<and>
    updated h t RPMTAG_HEADERI18NTABLE RPM_STRING_ARRAY_TYPE (add_lang lang langs) h'"
proof -
  let ?T = "h_index h ! t"
  have T: "unat (ie_count ?T) = length langs" "\<forall>s \<in> set langs. nul_free s" "langs \<noteq> []" using assms(5) by (simp_all add: str_entry_def)
  obtain rest where rest: "data_mem (h_blob h) ?T = Inr (string_block langs @ rest)" using str_entry_mem [OF assms(5)] by blast
  have find: "find_lang (unat (ie_count ?T)) (string_block langs @ rest) lang 0 = Inr (lang_pos lang langs)"
    unfolding T(1) lang_pos_def using find_lang_spec [OF T(2), of rest lang 0] by simp
  show ?thesis
  proof (cases "lang \<in> set langs")
    case True
    then have "\<not> lang_pos lang langs \<ge> unat (ie_count ?T)" using lang_pos_present [OF True] T(1) by simp
    moreover have "updated h t RPMTAG_HEADERI18NTABLE RPM_STRING_ARRAY_TYPE (add_lang lang langs) h"
      using assms True T(3) by (auto simp: updated_def add_lang_def intro: exI [of _ ?T])
    ultimately show ?thesis using rest find by auto
  next
    case False
    have new: "add_lang lang langs = langs @ [lang]" using False T(3) by (simp add: add_lang_def)
    have "length langs + 1 < 2 ^ 32" using assms(7) length_le_strings_size [of "langs @ [lang]"] by (simp add: new)
    then have "unat (ie_count ?T + 1) = length (langs @ [lang])" using T(1) by (simp add: unat_word_ariths)
    moreover have "cbytes lang @ [0] = string_block [lang]" by simp
    ultimately have "\<exists>h'. entry_append h t (cbytes lang @ [0]) (ie_count ?T + 1) = Inr h' \<and>
        updated h t RPMTAG_HEADERI18NTABLE RPM_STRING_ARRAY_TYPE (langs @ [lang]) h'"
      using append_strings [OF assms(1-5), of "[lang]" "ie_count ?T + 1"] assms(6,7) by (simp add: is_array_def new)
    then show ?thesis using rest find lang_pos_absent [OF False] T(1) new by auto
  qed
qed

lemma add_string_step:
  assumes "header_wf h" "small_tag tag" "nul_free str" "unat (ie_count (h_index h ! t)) = length langs"
    "strings_size (put_at k str strs) < 2 ^ 32" "length (put_at k str strs) \<le> 0xfffff"
    "k < length strs \<longrightarrow> length langs = length strs"
    "case entry of None \<Rightarrow> strs = [] \<and> lookups h tag = []
      | Some i \<Rightarrow> i < length (h_index h) \<and> lookups h tag = [h_index h ! i] \<and> ie_tag (h_index h ! i) = tag \<and>
          str_entry h (h_index h ! i) RPM_I18NSTRING_TYPE strs"
  shows "\<exists>h' ok. add_string h t entry tag str k = Inr (h', ok) \<and> header_wf h' \<and> h_blob h' = h_blob h \<and>
    has_strings h' tag RPM_I18NSTRING_TYPE (put_at k str strs) \<and> (\<forall>t. t \<noteq> tag \<longrightarrow> lookups h' t = lookups h t)"
proof (cases entry)
  case None
  then have "strs = []" "lookups h tag = []" using assms(8) by simp_all
  moreover have "\<forall>s \<in> set (replicate k [] @ [str]). nul_free s" using assms(3) by (auto simp: nul_free_def)
  ultimately show ?thesis
    using put_strings [OF assms(1,2), of RPM_I18NSTRING_TYPE "replicate k [] @ [str]"] assms(5,6) None
    by (auto simp: add_string_def put_at_def is_array_def)
next
  case (Some i)
  then have i: "i < length (h_index h)" "lookups h tag = [h_index h ! i]" "ie_tag (h_index h ! i) = tag"
      "str_entry h (h_index h ! i) RPM_I18NSTRING_TYPE strs"
    using assms(8) by simp_all
  have cnt: "unat (ie_count (h_index h ! i)) = length strs" using i(4) by (simp add: str_entry_def)
  have upd: "\<exists>h'. f = Inr h' \<and> updated h i tag RPM_I18NSTRING_TYPE ss h' \<Longrightarrow>
    \<exists>h' ok. rbind f (\<lambda>h. Inr (h, False)) = Inr (h', ok) \<and> header_wf h' \<and> h_blob h' = h_blob h \<and>
      has_strings h' tag RPM_I18NSTRING_TYPE ss \<and> (\<forall>t. t \<noteq> tag \<longrightarrow> lookups h' t = lookups h t)" for f :: "hdr_error + header" and ss
    by (auto simp: updated_def has_strings_def)
  show ?thesis
  proof (cases "k < length strs")
    case True
    then show ?thesis
      using upd [OF replace_strings [OF assms(1) i _ assms(3), of k]] assms(4,5,7) Some cnt
      by (simp add: add_string_def put_at_def is_array_def Let_def)
  next
    case False
    let ?xs = "replicate (k - length strs) [] @ [str]"
    have "\<forall>s \<in> set ?xs. nul_free s" using assms(3) by (auto simp: nul_free_def)
    moreover have "strings_size (strs @ ?xs) < 2 ^ 32" "length (strs @ ?xs) \<le> 0xfffff" "length (strs @ ?xs) = k + 1"
      using assms(5,6) False by (simp_all add: put_at_def)
    moreover from this have "unat (of_nat (k + 1) :: u32) = length (strs @ ?xs)" using unat_of_nat_u32 [of "k + 1"] by simp
    moreover have "replicate (k - length strs) 0 @ cbytes str @ [0] = string_block ?xs" by (simp add: string_block_empty)
    ultimately show ?thesis
      using upd [OF append_strings [OF assms(1) i _, of ?xs "of_nat (k + 1)"]] Some cnt False
      by (simp add: add_string_def put_at_def is_array_def Let_def)
  qed
qed

lemma has_strings_frame:
  assumes "has_strings h tag type ss" "lookups h' tag = lookups h tag" "h_blob h' = h_blob h"
  shows "has_strings h' tag type ss"
  using assms str_entry_blob [OF assms(3)] by (auto simp: has_strings_def)

lemma headerSort_idem: "headerSort (headerSort h) = headerSort h"
  by (simp add: headerSort_def)

lemma table_and_string:
  assumes "header_wf h" "small_tag tag" "tag \<noteq> RPMTAG_HEADERI18NTABLE" "nul_free str" "nul_free lang"
    and table: "t < length (h_index h)" "lookups h RPMTAG_HEADERI18NTABLE = [h_index h ! t]"
      "ie_tag (h_index h ! t) = RPMTAG_HEADERI18NTABLE" "str_entry h (h_index h ! t) RPM_STRING_ARRAY_TYPE langs"
    and fits: "strings_size (add_lang lang langs) < 2 ^ 32" "strings_size (put_at (lang_pos lang langs) str strs) < 2 ^ 32"
      "length (put_at (lang_pos lang langs) str strs) \<le> 0xfffff"
      "lang_pos lang langs < length strs \<longrightarrow> length (add_lang lang langs) = length strs"
    and entry: "case entry of None \<Rightarrow> strs = [] \<and> lookups h tag = []
      | Some i \<Rightarrow> i < length (h_index h) \<and> lookups h tag = [h_index h ! i] \<and> ie_tag (h_index h ! i) = tag \<and>
          str_entry h (h_index h ! i) RPM_I18NSTRING_TYPE strs"
  shows "\<exists>h' ok. rbind (data_mem (h_blob h) (h_index h ! t)) (\<lambda>l.
      rbind (find_lang (unat (ie_count (h_index h ! t))) l lang 0) (\<lambda>langNum.
      rbind (if langNum \<ge> unat (ie_count (h_index h ! t)) then entry_append h t (cbytes lang @ [0]) (ie_count (h_index h ! t) + 1)
             else Inr h) (\<lambda>h. add_string h t entry tag str langNum))) = Inr (h', ok) \<and>
    header_wf h' \<and> has_strings h' RPMTAG_HEADERI18NTABLE RPM_STRING_ARRAY_TYPE (add_lang lang langs) \<and>
    has_strings h' tag RPM_I18NSTRING_TYPE (put_at (lang_pos lang langs) str strs) \<and>
    (\<forall>t. t \<noteq> tag \<longrightarrow> t \<noteq> RPMTAG_HEADERI18NTABLE \<longrightarrow> lookups h' t = lookups h t)"
proof -
  obtain l h1 where 1: "data_mem (h_blob h) (h_index h ! t) = Inr l"
      "find_lang (unat (ie_count (h_index h ! t))) l lang 0 = Inr (lang_pos lang langs)"
      "(if lang_pos lang langs \<ge> unat (ie_count (h_index h ! t)) then entry_append h t (cbytes lang @ [0]) (ie_count (h_index h ! t) + 1)
        else Inr h) = Inr h1"
      "updated h t RPMTAG_HEADERI18NTABLE RPM_STRING_ARRAY_TYPE (add_lang lang langs) h1"
    using table_step [OF assms(1) table assms(5) fits(1)] by blast
  from 1(4) obtain e where h1: "header_wf h1" "h_blob h1 = h_blob h" "h_index h1 = (h_index h)[t := e]"
      "lookups h1 RPMTAG_HEADERI18NTABLE = [e]" "str_entry h1 e RPM_STRING_ARRAY_TYPE (add_lang lang langs)"
      "\<And>t. t \<noteq> RPMTAG_HEADERI18NTABLE \<Longrightarrow> lookups h1 t = lookups h t"
    by (auto simp: updated_def)
  have same: "h_index h1 ! i = h_index h ! i" if "ie_tag (h_index h ! i) = tag" for i
    using that table(3) assms(3) h1(3) by (cases "i = t") auto
  have entry1: "case entry of None \<Rightarrow> strs = [] \<and> lookups h1 tag = []
      | Some i \<Rightarrow> i < length (h_index h1) \<and> lookups h1 tag = [h_index h1 ! i] \<and> ie_tag (h_index h1 ! i) = tag \<and>
          str_entry h1 (h_index h1 ! i) RPM_I18NSTRING_TYPE strs"
    using entry h1(3,6) assms(3) same by (auto simp: str_entry_blob [OF h1(2)] split: option.splits)
  have "unat (ie_count (h_index h1 ! t)) = length (add_lang lang langs)"
    using h1(3,5) table(1) by (simp add: str_entry_def)
  from add_string_step [OF h1(1) assms(2,4) this fits(2-4) entry1]
  obtain h' ok where h': "add_string h1 t entry tag str (lang_pos lang langs) = Inr (h', ok)" "header_wf h'" "h_blob h' = h_blob h1"
      "has_strings h' tag RPM_I18NSTRING_TYPE (put_at (lang_pos lang langs) str strs)" "\<And>t. t \<noteq> tag \<Longrightarrow> lookups h' t = lookups h1 t"
    by blast
  have "has_strings h1 RPMTAG_HEADERI18NTABLE RPM_STRING_ARRAY_TYPE (add_lang lang langs)" using h1(4,5) by (auto simp: has_strings_def)
  then have "has_strings h' RPMTAG_HEADERI18NTABLE RPM_STRING_ARRAY_TYPE (add_lang lang langs)"
    using has_strings_frame h'(3,5) assms(3) by metis
  moreover have "lookups h' t = lookups h t" if "t \<noteq> tag" "t \<noteq> RPMTAG_HEADERI18NTABLE" for t
    using h'(5) h1(6) that by simp
  ultimately show ?thesis using 1(1-3) h' by (simp only: rbind_simps) blast
qed

lemma findEntry_strings:
  assumes "header_wf h" "small_tag tag" "has_strings h tag type ss"
  shows "\<exists>i. findEntry h tag type = (headerSort h, Some i) \<and> i < length (h_index (headerSort h)) \<and>
    lookups (headerSort h) tag = [h_index (headerSort h) ! i] \<and> ie_tag (h_index (headerSort h) ! i) = tag \<and>
    str_entry (headerSort h) (h_index (headerSort h) ! i) type ss"
proof -
  obtain e where e: "lookups h tag = [e]" "str_entry h e type ss" using assms(3) by (auto simp: has_strings_def)
  have "type = ie_type e" using e(2) by (simp add: str_entry_def)
  then obtain i where "findEntry h tag type = (headerSort h, Some i)" "i < length (h_index (headerSort h))"
      "h_index (headerSort h) ! i = e" "ie_tag e = tag"
    using findEntry_single [OF assms(1,2) e(1)] by blast
  moreover have "str_entry (headerSort h) e type ss" using e(2) str_entry_blob [of "headerSort h" h] by simp
  moreover have "lookups (headerSort h) tag = [e]" using e(1) headerSort_lookups assms(1) by (simp add: header_wf_def)
  ultimately show ?thesis by blast
qed

lemma small_table: "small_tag RPMTAG_HEADERI18NTABLE"
  by (simp add: small_tag_def)

lemma find_string_entry:
  assumes "header_wf h" "small_tag tag" "if strs = [] then lookups h tag = [] else has_strings h tag RPM_I18NSTRING_TYPE strs"
  shows "\<exists>entry. findEntry h tag RPM_I18NSTRING_TYPE = (headerSort h, entry) \<and>
    (case entry of None \<Rightarrow> strs = [] \<and> lookups (headerSort h) tag = []
      | Some i \<Rightarrow> i < length (h_index (headerSort h)) \<and> lookups (headerSort h) tag = [h_index (headerSort h) ! i] \<and>
          ie_tag (h_index (headerSort h) ! i) = tag \<and> str_entry (headerSort h) (h_index (headerSort h) ! i) RPM_I18NSTRING_TYPE strs)"
proof (cases "strs = []")
  case True
  then show ?thesis using findEntry_absent [OF assms(1,2)] assms(1,3) headerSort_lookups by (auto simp: header_wf_def)
next
  case False
  then show ?thesis using findEntry_strings [OF assms(1,2)] assms(3) by fastforce
qed

text \<open>What has to hold of the strings: they have no NUL, the sizes stay below the limits, and a replaced string is
  in an entry with as many strings as the table has languages.\<close>

definition translation_fits :: "u32 \<Rightarrow> cstr \<Rightarrow> cstr \<Rightarrow> cstr list \<Rightarrow> cstr list \<Rightarrow> bool" where
  "translation_fits tag str l langs strs \<longleftrightarrow>
     small_tag tag \<and> tag \<noteq> RPMTAG_HEADERI18NTABLE \<and> nul_free str \<and> nul_free l \<and> (langs = [] \<longrightarrow> strs = []) \<and>
     (let langs' = add_lang l langs; k = lang_pos l langs'; strs' = put_at k str strs in
      strings_size langs' < 2 ^ 32 \<and> strings_size strs' < 2 ^ 32 \<and> length strs' \<le> 0xfffff \<and>
      (k < length strs \<longrightarrow> length langs' = length strs))"

lemma translation_fitsD:
  assumes "translation_fits tag str l langs strs"
  shows "small_tag tag" "tag \<noteq> RPMTAG_HEADERI18NTABLE" "nul_free str" "nul_free l" "langs = [] \<longrightarrow> strs = []"
    "strings_size (add_lang l langs) < 2 ^ 32" "strings_size (put_at (lang_pos l (add_lang l langs)) str strs) < 2 ^ 32"
    "length (put_at (lang_pos l (add_lang l langs)) str strs) \<le> 0xfffff"
    "lang_pos l (add_lang l langs) < length strs \<longrightarrow> length (add_lang l langs) = length strs"
  using assms by (simp_all add: translation_fits_def Let_def)

lemma translation_nonempty: "add_lang l langs \<noteq> []" "put_at k str strs \<noteq> []"
  by (auto simp: add_lang_def put_at_def Let_def)

definition lang_name :: "cstr option \<Rightarrow> cstr" where
  "lang_name lang = (case lang of None \<Rightarrow> ''C'' | Some l \<Rightarrow> l)"

lemma add_to_table:
  assumes "header_wf h" "translated h tag langs strs" "translation_fits tag str (lang_name lang) langs strs" "langs \<noteq> []"
  defines "langs' \<equiv> add_lang (lang_name lang) langs"
  shows "\<exists>h' ok. headerAddI18NString h tag str lang = Inr (h', ok) \<and> header_wf h' \<and>
    translated h' tag langs' (put_at (lang_pos (lang_name lang) langs') str strs) \<and>
    (\<forall>t. t \<noteq> tag \<longrightarrow> t \<noteq> RPMTAG_HEADERI18NTABLE \<longrightarrow> lookups h' t = lookups h t)"
proof -
  let ?h = "headerSort h" and ?l = "lang_name lang"
  note f = translation_fitsD [OF assms(3)]
  have look: "lookups ?h t = lookups h t" for t using assms(1) headerSort_lookups by (simp add: header_wf_def)
  note sortwf = headerSort_wf [OF assms(1)]
  have pos: "lang_pos ?l langs' = lang_pos ?l langs"
    using assms(4) lang_pos_append by (auto simp: add_lang_def langs'_def)
  obtain t where t: "findEntry h RPMTAG_HEADERI18NTABLE RPM_STRING_ARRAY_TYPE = (?h, Some t)" and
      table: "t < length (h_index ?h)" "lookups ?h RPMTAG_HEADERI18NTABLE = [h_index ?h ! t]"
      "ie_tag (h_index ?h ! t) = RPMTAG_HEADERI18NTABLE" "str_entry ?h (h_index ?h ! t) RPM_STRING_ARRAY_TYPE langs"
    using findEntry_strings [OF assms(1) small_table, of RPM_STRING_ARRAY_TYPE langs] assms(2,4) by (auto simp: translated_def)
  have "if strs = [] then lookups ?h tag = [] else has_strings ?h tag RPM_I18NSTRING_TYPE strs"
    using assms(2) look has_strings_frame [OF _ look] by (auto simp: translated_def split: if_splits)
  from find_string_entry [OF sortwf f(1) this]
  obtain entry where e: "findEntry ?h tag RPM_I18NSTRING_TYPE = (?h, entry)" and
      entry: "case entry of None \<Rightarrow> strs = [] \<and> lookups ?h tag = []
        | Some i \<Rightarrow> i < length (h_index ?h) \<and> lookups ?h tag = [h_index ?h ! i] \<and>
            ie_tag (h_index ?h ! i) = tag \<and> str_entry ?h (h_index ?h ! i) RPM_I18NSTRING_TYPE strs"
    unfolding headerSort_idem by blast
  have "headerAddI18NString h tag str lang = (rbind (data_mem (h_blob ?h) (h_index ?h ! t)) (\<lambda>b.
      rbind (find_lang (unat (ie_count (h_index ?h ! t))) b ?l 0) (\<lambda>langNum.
      rbind (if langNum \<ge> unat (ie_count (h_index ?h ! t)) then entry_append ?h t (cbytes ?l @ [0]) (ie_count (h_index ?h ! t) + 1)
             else Inr ?h) (\<lambda>h. add_string h t entry tag str langNum))))"
    using t e unfolding headerAddI18NString_def lang_name_def
    by (simp only: Let_def prod.case option.distinct simp_thms if_False rbind_simps option.case)
  with table_and_string [OF sortwf f(1-4) table _ _ _ _ entry] f(6-9) pos look translation_nonempty show ?thesis
    unfolding langs'_def by (auto simp: translated_def)
qed

lemma add_new_table:
  assumes "header_wf h" "translated h tag [] []" "translation_fits tag str (lang_name lang) [] []"
  defines "langs' \<equiv> add_lang (lang_name lang) []"
  shows "\<exists>h' ok. headerAddI18NString h tag str lang = Inr (h', ok) \<and> header_wf h' \<and>
    translated h' tag langs' (put_at (lang_pos (lang_name lang) langs') str []) \<and>
    (\<forall>t. t \<noteq> tag \<longrightarrow> t \<noteq> RPMTAG_HEADERI18NTABLE \<longrightarrow> lookups h' t = lookups h t)"
proof -
  let ?l = "lang_name lang"
  note f = translation_fitsD [OF assms(3), folded langs'_def]
  have look: "lookups (headerSort h) t = lookups h t" for t using assms(1) headerSort_lookups by (simp add: header_wf_def)
  note sortwf = headerSort_wf [OF assms(1)]
  have none: "lookups h RPMTAG_HEADERI18NTABLE = []" "lookups h tag = []" using assms(2) by (auto simp: translated_def)
  have langs': "langs' = (if ?l = ''C'' then [''C''] else [''C'', ?l])" by (simp add: add_lang_def langs'_def)
  have "langs' = (case lang of None \<Rightarrow> [''C''] | Some l \<Rightarrow> if l = ''C'' then [''C''] else [''C'', l])"
    unfolding langs' lang_name_def by (simp split: option.split)
  then have nt: "new_table h' lang = headerPut h' (i18n_td RPMTAG_HEADERI18NTABLE RPM_STRING_ARRAY_TYPE langs') 0" for h'
    by (simp add: new_table_def)
  have "\<forall>s \<in> set langs'. nul_free s" "length langs' \<le> 0xfffff" "langs' \<noteq> []" using f(4) by (auto simp: langs' nul_free_def)
  then obtain h1 where h1: "headerPut (headerSort h) (i18n_td RPMTAG_HEADERI18NTABLE RPM_STRING_ARRAY_TYPE langs') 0 = Inr (h1, True)"
      "header_wf h1" "has_strings h1 RPMTAG_HEADERI18NTABLE RPM_STRING_ARRAY_TYPE langs'"
      "\<And>t. t \<noteq> RPMTAG_HEADERI18NTABLE \<Longrightarrow> lookups h1 t = lookups (headerSort h) t"
    using put_strings [OF sortwf small_table, of RPM_STRING_ARRAY_TYPE langs'] none(1) look f(6) by (auto simp: is_array_def)
  let ?h = "headerSort h1"
  obtain t where t: "findEntry h1 RPMTAG_HEADERI18NTABLE RPM_STRING_ARRAY_TYPE = (?h, Some t)" and
      table: "t < length (h_index ?h)" "lookups ?h RPMTAG_HEADERI18NTABLE = [h_index ?h ! t]"
      "ie_tag (h_index ?h ! t) = RPMTAG_HEADERI18NTABLE" "str_entry ?h (h_index ?h ! t) RPM_STRING_ARRAY_TYPE langs'"
    using findEntry_strings [OF h1(2) small_table h1(3)] by blast
  have look1: "lookups ?h t = lookups h1 t" for t using h1(2) headerSort_lookups by (simp add: header_wf_def)
  have entry: "case None of None \<Rightarrow> [] = [] \<and> lookups ?h tag = []
        | Some i \<Rightarrow> i < length (h_index ?h) \<and> lookups ?h tag = [h_index ?h ! i] \<and>
            ie_tag (h_index ?h ! i) = tag \<and> str_entry ?h (h_index ?h ! i) RPM_I18NSTRING_TYPE []"
    using none(2) look1 h1(4) [OF f(2)] look by simp
  have add: "add_lang ?l langs' = langs'" by (auto simp: add_lang_def langs')
  have found: "findEntry h RPMTAG_HEADERI18NTABLE RPM_STRING_ARRAY_TYPE = (headerSort h, None)"
      "findEntry (headerSort h) tag RPM_I18NSTRING_TYPE = (headerSort h, None)"
    using findEntry_absent [OF assms(1) small_table none(1)] findEntry_absent [OF sortwf f(1)] none(2) look
    by (simp_all add: headerSort_idem)
  have "headerAddI18NString h tag str lang = (rbind (data_mem (h_blob ?h) (h_index ?h ! t)) (\<lambda>b.
      rbind (find_lang (unat (ie_count (h_index ?h ! t))) b ?l 0) (\<lambda>langNum.
      rbind (if langNum \<ge> unat (ie_count (h_index ?h ! t)) then entry_append ?h t (cbytes ?l @ [0]) (ie_count (h_index ?h ! t) + 1)
             else Inr ?h) (\<lambda>h. add_string h t None tag str langNum))))"
    using found t h1(1) unfolding headerAddI18NString_def lang_name_def nt
    by (simp only: Let_def prod.case simp_thms if_True if_False rbind_simps option.case)
  with table_and_string [OF headerSort_wf [OF h1(2)] f(1-4) table _ _ _ _ entry] f(6-9) look look1 h1(4) translation_nonempty add
  show ?thesis by (auto simp: translated_def)
qed

text \<open> C10: adding a translation does what its abstract description says: the language is added to the table if it
  is not there, the string is put at the position of its language, behind empty strings where strings of
  other languages are missing, and no other tag is touched. A replaced string is in an entry with as many
  strings as the table has languages.\<close>

theorem headerAddI18NString_refines:
  assumes "header_wf h" "translated h tag langs strs" "translation_fits tag str (lang_name lang) langs strs"
    "langs' = add_lang (lang_name lang) langs"
  shows "\<exists>h' ok. headerAddI18NString h tag str lang = Inr (h', ok) \<and> header_wf h' \<and>
    translated h' tag langs' (put_at (lang_pos (lang_name lang) langs') str strs) \<and>
    (\<forall>t. t \<noteq> tag \<longrightarrow> t \<noteq> RPMTAG_HEADERI18NTABLE \<longrightarrow> lookups h' t = lookups h t)"
proof (cases "langs = []")
  case True
  then have "strs = []" using translation_fitsD(5) [OF assms(3)] by simp
  then show ?thesis using add_new_table [of h tag str lang] assms True by simp
next
  case False
  then show ?thesis using add_to_table [OF assms(1-3)] assms(4) by simp
qed

text \<open>The loop over the strings of an entry that has fewer strings than the table has languages.\<close>

lemma walk_strings_overread:
  assumes "\<forall>s \<in> set ss. nul_free s" "length ss < i + n" "i \<le> length ss"
  shows "walk_strings n i k (string_block ss) (be, e, strings_size (take i ss)) = Inl Overread"
  using assms(2,3)
proof (induction n arbitrary: i be e)
  case (Suc n)
  show ?case
  proof (cases "i < length ss")
    case True
    note rd = read_nth(1) [OF assms(1) True, of "[]", unfolded append_Nil2] read_nth(2) [OF assms(1) True]
    have "Suc i \<le> length ss" "length ss < Suc i + n" using True Suc.prems(1) by simp_all
    then show ?thesis by (simp only: walk_strings.simps rd rbind_simps Let_def Suc.IH)
  next
    case False
    then have "drop (strings_size (take i ss)) (string_block ss) = []" by simp
    then show ?thesis by (simp add: read_string_def)
  qed
qed auto

text \<open> replacing the string of a language reads past the end of the entry: when the entry has fewer strings
  than the table has languages, which is how an entry is as long as no string was added for the later
  languages, the loop that looks for the end of the data counts the languages of the table.\<close>

theorem headerAddI18NString_overread:
  assumes "header_wf h" "small_tag tag" "tag \<noteq> RPMTAG_HEADERI18NTABLE" "nul_free lang"
    "has_strings h RPMTAG_HEADERI18NTABLE RPM_STRING_ARRAY_TYPE langs" "has_strings h tag RPM_I18NSTRING_TYPE strs"
    "\<forall>e \<in> set (lookups h tag). ie_data e = Alloc (string_block strs)"
    "lang \<in> set langs" "lang_pos lang langs < length strs" "length strs < length langs"
  shows "headerAddI18NString h tag str (Some lang) = Inl Overread"
proof -
  note sortwf = headerSort_wf [OF assms(1)]
  have look: "lookups (headerSort h) t = lookups h t" for t using assms(1) headerSort_lookups by (simp add: header_wf_def)
  obtain t where t: "findEntry h RPMTAG_HEADERI18NTABLE RPM_STRING_ARRAY_TYPE = (headerSort h, Some t)" and
      table: "str_entry (headerSort h) (h_index (headerSort h) ! t) RPM_STRING_ARRAY_TYPE langs"
    using findEntry_strings [OF assms(1) small_table assms(5)] by blast
  have "has_strings (headerSort h) tag RPM_I18NSTRING_TYPE strs" using has_strings_frame [OF assms(6) look] by simp
  then obtain i where i: "findEntry (headerSort h) tag RPM_I18NSTRING_TYPE = (headerSort h, Some i)"
      "lookups (headerSort h) tag = [h_index (headerSort h) ! i]" "str_entry (headerSort h) (h_index (headerSort h) ! i) RPM_I18NSTRING_TYPE strs"
    using findEntry_strings [OF sortwf assms(2)] unfolding headerSort_idem by blast
  let ?T = "h_index (headerSort h) ! t" and ?E = "h_index (headerSort h) ! i"
  obtain rest where rest: "data_mem (h_blob (headerSort h)) ?T = Inr (string_block langs @ rest)" using str_entry_mem [OF table] by blast
  have T: "unat (ie_count ?T) = length langs" "\<forall>s \<in> set langs. nul_free s" using table by (simp_all add: str_entry_def)
  have E: "unat (ie_count ?E) = length strs" "\<forall>s \<in> set strs. nul_free s" "data_mem (h_blob (headerSort h)) ?E = Inr (string_block strs)"
    using i(2,3) assms(7) look by (simp_all add: str_entry_def data_mem_def)
  have "find_lang (unat (ie_count ?T)) (string_block langs @ rest) lang 0 = Inr (lang_pos lang langs)"
    unfolding T(1) lang_pos_def using find_lang_spec [OF T(2), of rest lang 0] by simp
  moreover have "\<not> lang_pos lang langs \<ge> unat (ie_count ?T)" using T(1) assms(9,10) by simp
  moreover have "replace_string (headerSort h) i (length langs) (lang_pos lang langs) str = Inl Overread"
    using walk_strings_overread [OF E(2), of 0 "length langs" "lang_pos lang langs" 0 0] assms(10) E(3) by (simp add: replace_string_def)
  then have "add_string (headerSort h) t (Some i) tag str (lang_pos lang langs) = Inl Overread"
    using E(1) T(1) assms(9) by (simp add: add_string_def)
  ultimately show ?thesis
    using t i(1) rest by (simp add: headerAddI18NString_def)
qed

text \<open>The translation for a locale: the first good match, else the last weak one. The locales of the environment
  are tried in their order.\<close>

definition pick :: "cstr \<Rightarrow> (cstr \<times> cstr) list \<Rightarrow> cstr option" where
  "pick loc ps =
     (case filter (\<lambda>p. headerMatchLocale (fst p) loc = 1) ps of
        p # _ \<Rightarrow> Some (snd p)
      | [] \<Rightarrow>
          let ws = filter (\<lambda>p. headerMatchLocale (fst p) loc = 2) ps in if ws = [] then None else Some (snd (last ws)))"

definition locales :: "cstr \<Rightarrow> cstr list" where
  "locales lang = filter (\<lambda>w. w \<noteq> []) (split_fields '':'' lang)"

fun chosen :: "cstr list \<Rightarrow> (cstr \<times> cstr) list \<Rightarrow> cstr option" where
  "chosen [] ps = None"
| "chosen (loc # locs) ps = (case pick loc ps of Some s \<Rightarrow> Some s | None \<Rightarrow> chosen locs ps)"

lemma match_langs_spec:
  assumes "\<forall>s \<in> set langs. nul_free s" "\<forall>s \<in> set strs. nul_free s"
  shows "\<exists>r. match_langs loc (min (length langs) (length strs)) (string_block langs @ r1) (string_block strs @ r2) weak = Inr r \<and>
    (case filter (\<lambda>p. headerMatchLocale (fst p) loc = 1) (zip langs strs) of
       p # _ \<Rightarrow> \<exists>d. r = Match d \<and> read_string d = Inr (snd p)
     | [] \<Rightarrow>
         let ws = filter (\<lambda>p. headerMatchLocale (fst p) loc = 2) (zip langs strs) in
         if ws = [] then r = NoMatch weak else \<exists>d. r = NoMatch (Some d) \<and> read_string d = Inr (snd (last ws)))"
  using assms
proof (induction langs arbitrary: strs weak)
  case (Cons l langs)
  show ?case
  proof (cases strs)
    case s: (Cons s strs')
    have nf: "nul_free l" "nul_free s" "\<forall>s \<in> set langs. nul_free s" "\<forall>s \<in> set strs'. nul_free s"
      using Cons.prems s by simp_all
    note rd = nul_terminated [OF nf(1), of "string_block langs @ r1"] nul_terminated [OF nf(2), of "string_block strs' @ r2"]
    show ?thesis
    proof (cases "headerMatchLocale l loc = 1")
      case True
      then show ?thesis using rd s by simp
    next
      case False
      let ?w = "if headerMatchLocale l loc = 2 then Some (string_block strs @ r2) else weak"
      have "match_langs loc (min (length (l # langs)) (length strs)) (string_block (l # langs) @ r1) (string_block strs @ r2) weak =
          match_langs loc (min (length langs) (length strs')) (string_block langs @ r1) (string_block strs' @ r2) ?w"
        using rd False s by simp
      with Cons.IH [OF nf(3,4), of ?w] False s rd(3) show ?thesis
        by (fastforce simp: Let_def split: list.splits if_splits)
    qed
  qed simp
qed simp

lemma locales_word:
  assumes "set w \<inter> set '':'' = {}" "w \<noteq> []" "r = [] \<or> (\<exists>r'. r = CHR '':'' # r')"
  shows "locales (w @ r) = w # locales r"
proof (cases r)
  case Nil
  then show ?thesis using split_fields_plain [OF assms(1)] assms(2) by (simp add: locales_def)
next
  case (Cons c r')
  then show ?thesis using split_fields_append [OF assms(1), of c r'] assms(2,3) by (simp add: locales_def)
qed

lemma locales_unfold:
  "locales l =
     (let l = dropWhile (\<lambda>c. c = CHR '':'') l in
      if l = [] then [] else takeWhile (\<lambda>c. c \<noteq> CHR '':'') l # locales (dropWhile (\<lambda>c. c \<noteq> CHR '':'') l))"
proof (induction l)
  case (Cons a l)
  show ?case
  proof (cases "a = CHR '':''")
    case True
    then show ?thesis using Cons by (simp add: locales_def)
  next
    case False
    let ?w = "takeWhile (\<lambda>c. c \<noteq> CHR '':'') (a # l)" and ?r = "dropWhile (\<lambda>c. c \<noteq> CHR '':'') (a # l)"
    have "?r = [] \<or> (\<exists>r'. ?r = CHR '':'' # r')" using hd_dropWhile [of "\<lambda>c. c \<noteq> CHR '':''" "a # l"] by (cases ?r) auto
    moreover have "set ?w \<inter> set '':'' = {}" "?w \<noteq> []" using False by (auto dest: set_takeWhileD)
    ultimately have "locales (?w @ ?r) = ?w # locales ?r" by (intro locales_word)
    then show ?thesis using False by (simp only: takeWhile_dropWhile_id) (simp add: Let_def)
  qed
qed (simp add: locales_def)

lemma match_locales_spec:
  assumes "\<forall>s \<in> set langs. nul_free s" "\<forall>s \<in> set strs. nul_free s" "n = min (length langs) (length strs)"
    "t = string_block langs @ r1" "ed = string_block strs @ r2"
  shows "\<exists>r. match_locales l n t ed = Inr r \<and>
    (case chosen (locales l) (zip langs strs) of Some s \<Rightarrow> \<exists>d. r = Some d \<and> read_string d = Inr s | None \<Rightarrow> r = None)"
proof (induction l rule: length_induct)
  case (1 l)
  let ?l = "dropWhile (\<lambda>c. c = CHR '':'') l"
  let ?loc = "takeWhile (\<lambda>c. c \<noteq> CHR '':'') ?l" and ?rest = "dropWhile (\<lambda>c. c \<noteq> CHR '':'') ?l"
  show ?case
  proof (cases "?l = []")
    case True
    then show ?thesis by (subst match_locales.simps, subst locales_unfold) simp
  next
    case False
    obtain r where r: "match_langs ?loc n t ed None = Inr r"
        "case filter (\<lambda>p. headerMatchLocale (fst p) ?loc = 1) (zip langs strs) of
           p # _ \<Rightarrow> \<exists>d. r = Match d \<and> read_string d = Inr (snd p)
         | [] \<Rightarrow>
             let ws = filter (\<lambda>p. headerMatchLocale (fst p) ?loc = 2) (zip langs strs) in
             if ws = [] then r = NoMatch None else \<exists>d. r = NoMatch (Some d) \<and> read_string d = Inr (snd (last ws))"
      using match_langs_spec [OF assms(1,2), of ?loc r1 r2 None] assms(3-5) by auto
    have m: "match_locales l n t ed = (case r of Match d \<Rightarrow> Inr (Some d) | NoMatch (Some d) \<Rightarrow> Inr (Some d)
        | NoMatch None \<Rightarrow> match_locales ?rest n t ed)"
      using False r(1) by (subst match_locales.simps) (simp only: Let_def if_False rbind_simps)
    have c: "chosen (locales l) (zip langs strs) = (case pick ?loc (zip langs strs) of Some s \<Rightarrow> Some s
        | None \<Rightarrow> chosen (locales ?rest) (zip langs strs))"
      using False by (subst locales_unfold) (simp only: Let_def if_False chosen.simps)
    show ?thesis
    proof (cases "pick ?loc (zip langs strs)")
      case None
      then have "r = NoMatch None" using r(2) by (auto simp: pick_def Let_def split: list.splits if_splits)
      then have "match_locales l n t ed = match_locales ?rest n t ed" using m by simp
      moreover have "chosen (locales l) (zip langs strs) = chosen (locales ?rest) (zip langs strs)" using c None by simp
      moreover have "length ?rest < length l"
      proof -
        have "hd ?l \<noteq> CHR '':''" using hd_dropWhile [OF False] by simp
        then have "length ?rest < length ?l" using False by (cases ?l) (auto simp: le_imp_less_Suc length_dropWhile_le)
        then show ?thesis using length_dropWhile_le [of "\<lambda>c. c = CHR '':''" l] by (rule less_le_trans)
      qed
      ultimately show ?thesis using 1 by simp
    next
      case (Some s)
      then have "\<exists>d. (r = Match d \<or> r = NoMatch (Some d)) \<and> read_string d = Inr s"
        using r(2) by (auto simp: pick_def Let_def split: list.splits if_splits)
      then show ?thesis using m c Some by auto
    qed
  qed
qed

text \<open> C33: a translated string is the one of the locale: the languages of the environment are tried in order, the
  first one with a good match wins, else the last weak match of the first one that has any, and the first
  string of the tag is returned where nothing matches. Languages without a string are not considered.\<close>

theorem headerGet_translation:
  assumes "header_wf h" "small_tag tag" "has_strings h RPMTAG_HEADERI18NTABLE RPM_STRING_ARRAY_TYPE langs"
    "has_strings h tag RPM_I18NSTRING_TYPE strs" "locale_env env = Some lang" "\<not> has flags HEADERGET_EXT" "\<not> has flags HEADERGET_RAW"
  shows "\<exists>h' td. headerGet env ext h tag (Some t) flags = Inr (h', Some td, True) \<and>
    td_tag td = tag \<and> td_type td = RPM_STRING_TYPE \<and> td_count td = 1 \<and>
    td_data td = TdString (case chosen (locales lang) (zip langs strs) of Some s \<Rightarrow> s | None \<Rightarrow> hd strs)"
proof -
  note sortwf = headerSort_wf [OF assms(1)]
  have look: "lookups (headerSort h) t = lookups h t" for t using assms(1) headerSort_lookups by (simp add: header_wf_def)
  obtain e where e: "lookups h tag = [e]" "str_entry h e RPM_I18NSTRING_TYPE strs" using assms(4) by (auto simp: has_strings_def)
  obtain i where i: "findEntry h tag RPM_NULL_TYPE = (headerSort h, Some i)" "h_index (headerSort h) ! i = e"
    using findEntry_single [OF assms(1,2) e(1), of RPM_NULL_TYPE] by blast
  have "has_strings (headerSort h) RPMTAG_HEADERI18NTABLE RPM_STRING_ARRAY_TYPE langs" using has_strings_frame [OF assms(3) look] by simp
  then obtain j where j: "findEntry (headerSort h) RPMTAG_HEADERI18NTABLE RPM_STRING_ARRAY_TYPE = (headerSort h, Some j)"
      "str_entry (headerSort h) (h_index (headerSort h) ! j) RPM_STRING_ARRAY_TYPE langs"
    using findEntry_strings [OF sortwf small_table] unfolding headerSort_idem by blast
  have e': "str_entry (headerSort h) e RPM_I18NSTRING_TYPE strs" using e(2) str_entry_blob [of "headerSort h" h] by simp
  obtain r1 where r1: "data_mem (h_blob (headerSort h)) (h_index (headerSort h) ! j) = Inr (string_block langs @ r1)"
    using str_entry_mem [OF j(2)] by blast
  obtain r2 where r2: "data_mem (h_blob (headerSort h)) e = Inr (string_block strs @ r2)" using str_entry_mem [OF e'] by blast
  have nf: "\<forall>s \<in> set langs. nul_free s" "\<forall>s \<in> set strs. nul_free s" "strs \<noteq> []"
      and cnt: "unat (ie_count e) = length strs" "unat (ie_count (h_index (headerSort h) ! j)) = length langs" "ie_type e = RPM_I18NSTRING_TYPE"
    using j(2) e' by (simp_all add: str_entry_def)
  obtain r where r: "match_locales lang (min (length strs) (length langs)) (string_block langs @ r1) (string_block strs @ r2) = Inr r"
      "case chosen (locales lang) (zip langs strs) of Some s \<Rightarrow> \<exists>d. r = Some d \<and> read_string d = Inr s | None \<Rightarrow> r = None"
    using match_locales_spec [OF nf(1,2) refl refl refl, of lang r1 r2] by (auto simp: min.commute)
  let ?s = "case chosen (locales lang) (zip langs strs) of Some s \<Rightarrow> s | None \<Rightarrow> hd strs"
  have "read_string (string_block strs @ r2) = Inr (hd strs)"
    using nf(2,3) nul_terminated(1) by (cases strs) auto
  then have rd: "read_string (case r of None \<Rightarrow> string_block strs @ r2 | Some d \<Rightarrow> d) = Inr ?s"
    using r(2) by (auto split: option.splits)
  have nd: "ie_data e \<noteq> NoData" using r2 nf(3) by (cases strs) (auto simp: data_mem_def)
  show ?thesis
    using assms(5-7) i j(1) r1 r2 cnt r(1) rd nd
    by (simp add: headerGet_def rpmtdReset_def intGetTdEntry_def copyI18NEntry_def Let_def)
qed

text \<open>A translation that was added is found in its locale, unless the table has an earlier match.\<close>

lemma translation_found:
  assumes "lang \<in> set langs" "lang_pos lang langs < length strs" "strs ! lang_pos lang langs = str"
    "\<forall>l \<in> set (take (lang_pos lang langs) langs). headerMatchLocale l lang \<noteq> 1" "lang \<noteq> []" "CHR '':'' \<notin> set lang"
  shows "chosen (locales lang) (zip langs strs) = Some str"
proof -
  let ?k = "lang_pos lang langs"
  have k: "?k < length langs" using lang_pos_present [OF assms(1)] .
  have at: "langs ! ?k = lang" using nth_length_takeWhile [of "\<lambda>l. l \<noteq> lang" langs] k by (simp add: lang_pos_def)
  have "zip langs strs = zip (take ?k langs) (take ?k strs) @ (lang, str) # drop (Suc ?k) (zip langs strs)"
    using id_take_nth_drop [of ?k "zip langs strs"] k assms(2,3) at by (simp add: take_zip)
  then have "filter (\<lambda>p. headerMatchLocale (fst p) lang = 1) (zip langs strs) =
      filter (\<lambda>p. headerMatchLocale (fst p) lang = 1) (zip (take ?k langs) (take ?k strs) @ (lang, str) # drop (Suc ?k) (zip langs strs))"
    by (rule arg_cong)
  moreover have "filter (\<lambda>p. headerMatchLocale (fst p) lang = 1) (zip (take ?k langs) (take ?k strs)) = []"
    using assms(4) by (auto simp: filter_empty_conv dest: set_zip_leftD)
  moreover have "headerMatchLocale lang lang = 1" by (simp add: headerMatchLocale_def rstreqn_iff)
  moreover have "locales lang = [lang]" using locales_word [of lang "[]"] assms(5,6) by (simp add: locales_def)
  ultimately show ?thesis by (simp add: pick_def)
qed

text \<open>A dialect is stripped from the locale but not from the table, and only a prefix is compared: the locale
  \<open>sr@latin\<close> takes the strings of any earlier language that begins with the letters \<open>sr\<close>.\<close>

lemma headerMatchLocale_prefix: "headerMatchLocale ''srn'' ''sr@latin'' = 1" "headerMatchLocale ''sr_RS'' ''sr@latin'' = 1"
  by code_simp+

subsection \<open>Examples of translations\<close>

theorem headerAddI18NString_refines_witness:
  "\<exists>h' ok. headerAddI18NString headerNew 1004 ''hallo'' (Some ''de'') = Inr (h', ok) \<and>
     translated h' 1004 [''C'', ''de''] [[], ''hallo'']"
proof -
  have none: "lookups headerNew t = []" for t by (simp add: lookups_def headerNew_def headerCreate_def)
  have "translated headerNew 1004 [] []" by (simp add: translated_def none)
  moreover have "translation_fits 1004 ''hallo'' (lang_name (Some ''de'')) [] []"
    by (simp add: translation_fits_def lang_name_def small_tag_def nul_free_def add_lang_def put_at_def lang_pos_def)
  moreover have "[''C'', ''de''] = add_lang (lang_name (Some ''de'')) []" "put_at (lang_pos (lang_name (Some ''de'')) [''C'', ''de'']) ''hallo'' [] = [[], ''hallo'']"
    by (simp_all add: add_lang_def lang_name_def put_at_def lang_pos_def)
  ultimately show ?thesis using headerAddI18NString_refines [OF headerNew_wf] by (metis (no_types, lifting))
qed

definition demo_i18n :: "cstr list \<Rightarrow> cstr list \<Rightarrow> header" where
  "demo_i18n langs strs = headerNew\<lparr>h_index :=
     [new_entry (i18n_td RPMTAG_HEADERI18NTABLE RPM_STRING_ARRAY_TYPE langs) (string_block langs),
      new_entry (i18n_td 1004 RPM_I18NSTRING_TYPE strs) (string_block strs)]\<rparr>"

lemma demo_i18n_ok:
  assumes "langs \<noteq> []" "strs \<noteq> []" "\<forall>s \<in> set (langs @ strs). nul_free s" "strings_size (langs @ strs) < 2 ^ 32"
  shows "header_wf (demo_i18n langs strs)" "has_strings (demo_i18n langs strs) RPMTAG_HEADERI18NTABLE RPM_STRING_ARRAY_TYPE langs"
    "has_strings (demo_i18n langs strs) 1004 RPM_I18NSTRING_TYPE strs"
    "\<forall>e \<in> set (lookups (demo_i18n langs strs) 1004). ie_data e = Alloc (string_block strs)"
proof -
  have new: "data_ok type (string_block ss) (of_nat (length ss))" "str_entry h (new_entry (i18n_td tag type ss) (string_block ss)) type ss"
    if "ss = langs \<or> ss = strs" "is_array type" for ss type h tag
  proof -
    have ss: "ss \<noteq> []" "\<forall>s \<in> set ss. nul_free s" "strings_size ss < 2 ^ 32" using that(1) assms by auto
    then have "length ss < 2 ^ 32" using length_le_strings_size [of ss] by simp
    then have u: "unat (of_nat (length ss) :: u32) = length ss" "unat (of_nat (strings_size ss) :: u32) = strings_size ss"
      using ss(3) by (intro unat_of_nat_u32; simp)+
    show "data_ok type (string_block ss) (of_nat (length ss))" using data_ok_strings [OF that(2) ss u(1)] .
    show "str_entry h (new_entry (i18n_td tag type ss) (string_block ss)) type ss"
      using ss u by (simp add: str_entry_def new_entry_def i18n_td_def entry_data_def)
  qed
  have td: "td_tag (i18n_td tag type ss) = tag" "td_type (i18n_td tag type ss) = type" "td_count (i18n_td tag type ss) = of_nat (length ss)"
    for tag type ss by (simp_all add: i18n_td_def)
  have "entry_wf h (new_entry (i18n_td tag type ss) (string_block ss))" if "ss = langs \<or> ss = strs" "is_array type" for h tag type ss
    using new(1) [OF that] by (intro new_entry_wf) (simp add: td)
  then show "header_wf (demo_i18n langs strs)"
    by (simp add: header_wf_def header_inv_def demo_i18n_def headerNew_def headerCreate_def td small_tag_def is_array_def)
  show "has_strings (demo_i18n langs strs) RPMTAG_HEADERI18NTABLE RPM_STRING_ARRAY_TYPE langs"
    "has_strings (demo_i18n langs strs) 1004 RPM_I18NSTRING_TYPE strs"
    "\<forall>e \<in> set (lookups (demo_i18n langs strs) 1004). ie_data e = Alloc (string_block strs)"
    using new(2) by (auto simp: has_strings_def demo_i18n_def lookups_def td is_array_def new_entry_def)
qed

theorem headerAddI18NString_overread_witness:
  "headerAddI18NString (demo_i18n [''C'', ''de'', ''fr''] [''hello'', ''hallo'']) 1004 ''hi'' (Some ''C'') = Inl Overread"
proof -
  let ?langs = "[''C'', ''de'', ''fr'']" and ?strs = "[''hello'', ''hallo'']"
  have ok: "\<forall>s \<in> set (?langs @ ?strs). nul_free s" "strings_size (?langs @ ?strs) < 2 ^ 32" by (simp_all add: nul_free_def)
  note d = demo_i18n_ok [OF _ _ ok, simplified list.distinct simp_thms]
  show ?thesis
    by (rule headerAddI18NString_overread [OF d(1) _ _ _ d(2,3,4)]) (simp_all add: small_tag_def nul_free_def lang_pos_def)
qed

theorem headerGet_translation_witness:
  "\<exists>h' td. headerGet (\<lambda>v. if v = ''LANG'' then Some ''de_AT.UTF-8'' else None) (\<lambda>_. None)
      (demo_i18n [''C'', ''de'', ''fr''] [''hello'', ''hallo'']) 1004 (Some td_zero) 0 = Inr (h', Some td, True) \<and>
     td_data td = TdString ''hallo''"
proof -
  let ?langs = "[''C'', ''de'', ''fr'']" and ?strs = "[''hello'', ''hallo'']"
  have ok: "\<forall>s \<in> set (?langs @ ?strs). nul_free s" "strings_size (?langs @ ?strs) < 2 ^ 32" by (simp_all add: nul_free_def)
  note d = demo_i18n_ok [OF _ _ ok, simplified list.distinct simp_thms]
  have "chosen (locales ''de_AT.UTF-8'') (zip ?langs ?strs) = Some ''hallo''" by code_simp
  moreover have "small_tag 1004" by (simp add: small_tag_def)
  moreover have "locale_env (\<lambda>v. if v = ''LANG'' then Some ''de_AT.UTF-8'' else None) = Some ''de_AT.UTF-8''" by (simp add: locale_env_def)
  ultimately show ?thesis
    using headerGet_translation [OF d(1) _ d(2,3), of "\<lambda>v. if v = ''LANG'' then Some ''de_AT.UTF-8'' else None" "''de_AT.UTF-8''" 0 "\<lambda>_. None" td_zero]
    by (auto simp: has_def)
qed

end
