(* ===== verification/Cpio.thy ===== *)
theory Cpio
  imports Rpmstring
begin

text \<open>
  The cpio payload of lib/cpio.cc: headers with their hexadecimal fields, padding, file contents and the
  trailer. A file is the characters left to read and the characters written so far; reads are short at the
  end of the input, where they may also fail with -1, and writes are short when there is no room left. The
  offsets of type \<open>off_t\<close> are 64-bit words. A read of more bytes than its buffer has is the value
  \<open>BufferOverflow\<close>. The error codes are those of include/rpm/rpmarchive.h.
\<close>

record FD =
  fd_in :: string
  fd_fail :: bool
  fd_out :: string
  fd_room :: nat

definition Fread :: "nat \<Rightarrow> FD \<Rightarrow> FD \<times> string \<times> int" where
  "Fread sz fd =
     (if sz \<le> length (fd_in fd) then (fd\<lparr>fd_in := drop sz (fd_in fd)\<rparr>, take sz (fd_in fd), int sz)
      else if fd_fail fd then (fd\<lparr>fd_in := []\<rparr>, [], -1)
      else (fd\<lparr>fd_in := []\<rparr>, fd_in fd, int (length (fd_in fd))))"

definition Fwrite :: "string \<Rightarrow> FD \<Rightarrow> FD \<times> int" where
  "Fwrite buf fd =
     (let n = min (length buf) (fd_room fd) in
      (fd\<lparr>fd_out := fd_out fd @ take n buf, fd_room := fd_room fd - n\<rparr>, int n))"

record rpmcpio =
  c_fd :: FD
  c_mode :: "8 word"
  c_offset :: u64
  c_fileend :: u64

abbreviation O_RDONLY :: "8 word" where "O_RDONLY \<equiv> 0"
abbreviation O_WRONLY :: "8 word" where "O_WRONLY \<equiv> 1"
abbreviation O_ACCMODE :: "8 word" where "O_ACCMODE \<equiv> 3"

abbreviation RPMERR_ITER_END :: int where "RPMERR_ITER_END \<equiv> -1"
abbreviation RPMERR_BAD_MAGIC :: int where "RPMERR_BAD_MAGIC \<equiv> -2"
abbreviation RPMERR_BAD_HEADER :: int where "RPMERR_BAD_HEADER \<equiv> -3"
abbreviation RPMERR_FILE_SIZE :: int where "RPMERR_FILE_SIZE \<equiv> -12"
abbreviation RPMERR_WRITE_FAILED :: int where "RPMERR_WRITE_FAILED \<equiv> -32771"
abbreviation RPMERR_READ_FAILED :: int where "RPMERR_READ_FAILED \<equiv> -32784"

definition CPIO_NEWC_MAGIC :: string where "CPIO_NEWC_MAGIC = ''070701''"
definition CPIO_CRC_MAGIC :: string where "CPIO_CRC_MAGIC = ''070702''"
definition CPIO_STRIPPED_MAGIC :: string where "CPIO_STRIPPED_MAGIC = ''07070X''"
definition CPIO_TRAILER :: string where "CPIO_TRAILER = ''TRAILER!!!''"

abbreviation CPIO_FILESIZE_MAX :: int where "CPIO_FILESIZE_MAX \<equiv> 0xffffffff"
abbreviation CPIO_NAMESIZE_MAX :: int where "CPIO_NAMESIZE_MAX \<equiv> 4096"
abbreviation SKIP_BUFFER :: nat where "SKIP_BUFFER \<equiv> 65536"

definition rpmcpioOpen :: "FD \<Rightarrow> 8 word \<Rightarrow> rpmcpio option" where
  "rpmcpioOpen fd mode =
     (if mode AND O_ACCMODE \<noteq> O_RDONLY \<and> mode AND O_ACCMODE \<noteq> O_WRONLY then None
      else Some \<lparr>c_fd = fd, c_mode = mode, c_offset = 0, c_fileend = 0\<rparr>)"

definition rpmcpioTell :: "rpmcpio \<Rightarrow> u64" where
  "rpmcpioTell cpio = c_offset cpio"

subsection \<open>Number fields\<close>

text \<open>\<open>strtoul(3)\<close> to the base 16 in the C locale: white space, a sign, an optional prefix and digits; the value
  saturates and a minus negates it as an \<open>unsigned long\<close>. The result is the value and the number of
  characters that were read, none if there are no digits.\<close>

definition c_isspace :: "char \<Rightarrow> bool" where
  "c_isspace c \<longleftrightarrow> c \<in> set [CHR '' '', CHR 0x09, CHR 0x0A, CHR 0x0B, CHR 0x0C, CHR 0x0D]"

definition hex_value :: "char \<Rightarrow> nat option" where
  "hex_value c =
     (let n = of_char c in
      if 48 \<le> n \<and> n \<le> 57 then Some (n - 48)
      else if 97 \<le> n \<and> n \<le> 102 then Some (n - 87)
      else if 65 \<le> n \<and> n \<le> 70 then Some (n - 55)
      else None)"

definition is_hex :: "char \<Rightarrow> bool" where
  "is_hex c \<longleftrightarrow> hex_value c \<noteq> None"

definition hex_number :: "string \<Rightarrow> nat" where
  "hex_number s = foldl (\<lambda>n c. 16 * n + the (hex_value c)) 0 s"

definition strtoul16 :: "string \<Rightarrow> u64 \<times> nat" where
  "strtoul16 s =
     (let ws = length (takeWhile c_isspace s); t = drop ws s;
          sg = (if t \<noteq> [] \<and> (hd t = CHR ''-'' \<or> hd t = CHR ''+'') then 1 else 0);
          neg = (t \<noteq> [] \<and> hd t = CHR ''-'');
          u = drop sg t;
          pre = (if take 2 u = ''0x'' \<or> take 2 u = ''0X''
                 then (if length u > 2 \<and> is_hex (u ! 2) then 2 else 0) else 0);
          ds = takeWhile is_hex (drop pre u) in
      if ds = [] then (0, 0)
      else
        let n = hex_number ds;
            v = (if n \<ge> 2 ^ 64 then - 1 else if neg then - of_nat n else of_nat n)
        in (v, ws + sg + pre + length ds))"

text \<open>The field is copied to a string, which may have NULs in it: the number ends at the first one.\<close>

definition strntoul :: "string \<Rightarrow> u64 \<times> nat" where
  "strntoul str =
     (let s = takeWhile (\<lambda>c. c \<noteq> NUL) str; (v, e) = strtoul16 s in (v, if e < length s then e else length str))"

text \<open>A field of a header as a number, \<open>None\<close> where the macro returns \<open>RPMERR_BAD_HEADER\<close>.\<close>

definition GET_NUM_FIELD :: "string \<Rightarrow> u64 option" where
  "GET_NUM_FIELD phys = (let (v, e) = strntoul phys in if e \<noteq> length phys then None else Some v)"

fun hex_str :: "nat \<Rightarrow> string" where
  "hex_str n = (if n < 16 then [hex_digits ! n] else hex_str (n div 16) @ [hex_digits ! (n mod 16)])"

declare hex_str.simps [simp del]

text \<open>At least 8 digits are printed, the first 8 of them are copied.\<close>

definition SET_NUM_FIELD :: "u64 \<Rightarrow> string" where
  "SET_NUM_FIELD val = (let s = hex_str (unat val) in take 8 (replicate (8 - length s) CHR ''0'' @ s))"

subsection \<open>Writing\<close>

definition pad_len :: "u64 \<Rightarrow> nat" where
  "pad_len offset = (4 - unat offset mod 4) mod 4"

definition rpmcpioWritePad :: "rpmcpio \<Rightarrow> rpmcpio \<times> int" where
  "rpmcpioWritePad cpio =
     (let left = pad_len (c_offset cpio) in
      if left = 0 then (cpio, 0)
      else
        let (fd, written) = Fwrite (replicate left NUL) (c_fd cpio) in
        if written \<noteq> int left then (cpio\<lparr>c_fd := fd\<rparr>, RPMERR_WRITE_FAILED)
        else (cpio\<lparr>c_fd := fd, c_offset := c_offset cpio + of_int written\<rparr>, 0))"

text \<open>A write that advances the offset and has to be complete.\<close>

definition write_all :: "string \<Rightarrow> rpmcpio \<Rightarrow> rpmcpio \<times> int" where
  "write_all buf cpio =
     (let (fd, written) = Fwrite buf (c_fd cpio) in
      (cpio\<lparr>c_fd := fd, c_offset := c_offset cpio + of_int written\<rparr>,
       if written \<noteq> int (length buf) then RPMERR_WRITE_FAILED else 0))"

text \<open>One step after another, up to the first that fails.\<close>

definition and_then :: "rpmcpio \<times> int \<Rightarrow> (rpmcpio \<Rightarrow> rpmcpio \<times> int) \<Rightarrow> rpmcpio \<times> int" where
  "and_then r f = (let (cpio, rc) = r in if rc \<noteq> 0 then (cpio, rc) else f cpio)"

record stat =
  st_dev :: u64
  st_ino :: u64
  st_mode :: u64
  st_nlink :: u64
  st_uid :: u64
  st_gid :: u64
  st_rdev :: u64
  st_size :: u64
  st_mtime :: u64

text \<open>The macros of sys/sysmacros.h.\<close>

definition dev_major :: "u64 \<Rightarrow> u64" where
  "dev_major dev = (drop_bit 8 dev AND 0xfff) OR (drop_bit 32 dev AND NOT 0xfff)"

definition dev_minor :: "u64 \<Rightarrow> u64" where
  "dev_minor dev = (dev AND 0xff) OR (drop_bit 12 dev AND 0xffffff00)"

definition phys_header :: "stat \<Rightarrow> nat \<Rightarrow> string" where
  "phys_header st len =
     SET_NUM_FIELD (st_ino st) @ SET_NUM_FIELD (st_mode st) @ SET_NUM_FIELD (st_uid st) @ SET_NUM_FIELD (st_gid st) @
     SET_NUM_FIELD (st_nlink st) @ SET_NUM_FIELD (st_mtime st) @ SET_NUM_FIELD (st_size st) @
     SET_NUM_FIELD (dev_major (st_dev st)) @ SET_NUM_FIELD (dev_minor (st_dev st)) @
     SET_NUM_FIELD (dev_major (st_rdev st)) @ SET_NUM_FIELD (dev_minor (st_rdev st)) @
     SET_NUM_FIELD (of_nat len) @ ''00000000''"

definition rpmcpioHeaderWrite :: "rpmcpio \<Rightarrow> cstr \<Rightarrow> stat \<Rightarrow> rpmcpio \<times> int" where
  "rpmcpioHeaderWrite cpio path st =
     (if c_mode cpio AND O_ACCMODE \<noteq> O_WRONLY then (cpio, RPMERR_WRITE_FAILED)
      else if c_fileend cpio \<noteq> c_offset cpio then (cpio, RPMERR_WRITE_FAILED)
      else if sint (st_size st) \<ge> CPIO_FILESIZE_MAX then (cpio, RPMERR_FILE_SIZE)
      else
        and_then (rpmcpioWritePad cpio) (\<lambda>cpio.
        and_then (write_all CPIO_NEWC_MAGIC cpio) (\<lambda>cpio.
        and_then (write_all (phys_header st (length path + 1)) cpio) (\<lambda>cpio.
        and_then (write_all (path @ [NUL]) cpio) (\<lambda>cpio.
        let (cpio, rc) = rpmcpioWritePad cpio in (cpio\<lparr>c_fileend := c_offset cpio + st_size st\<rparr>, rc))))))"

definition rpmcpioStrippedHeaderWrite :: "rpmcpio \<Rightarrow> int \<Rightarrow> u64 \<Rightarrow> rpmcpio \<times> int" where
  "rpmcpioStrippedHeaderWrite cpio fx fsize =
     (if c_mode cpio AND O_ACCMODE \<noteq> O_WRONLY then (cpio, RPMERR_WRITE_FAILED)
      else if c_fileend cpio \<noteq> c_offset cpio then (cpio, RPMERR_WRITE_FAILED)
      else
        and_then (rpmcpioWritePad cpio) (\<lambda>cpio.
        and_then (write_all CPIO_STRIPPED_MAGIC cpio) (\<lambda>cpio.
        and_then (write_all (SET_NUM_FIELD (of_int fx)) cpio) (\<lambda>cpio.
        let (cpio, rc) = rpmcpioWritePad cpio in (cpio\<lparr>c_fileend := c_offset cpio + fsize\<rparr>, rc)))))"

definition rpmcpioWrite :: "rpmcpio \<Rightarrow> string \<Rightarrow> rpmcpio \<times> int" where
  "rpmcpioWrite cpio buf =
     (if c_mode cpio AND O_ACCMODE \<noteq> O_WRONLY then (cpio, RPMERR_WRITE_FAILED)
      else
        let left = unat (c_fileend cpio - c_offset cpio);
            (fd, written) = Fwrite (take left buf) (c_fd cpio)
        in (cpio\<lparr>c_fd := fd, c_offset := c_offset cpio + of_int written\<rparr>, written))"

definition trailer_header :: string where
  "trailer_header = replicate 32 CHR ''0'' @ ''00000001'' @ replicate 48 CHR ''0'' @ ''0000000b'' @ replicate 8 CHR ''0''"

definition rpmcpioTrailerWrite :: "rpmcpio \<Rightarrow> rpmcpio \<times> int" where
  "rpmcpioTrailerWrite cpio =
     (if c_fileend cpio \<noteq> c_offset cpio then (cpio, RPMERR_WRITE_FAILED)
      else
        and_then (rpmcpioWritePad cpio) (\<lambda>cpio.
        and_then (write_all CPIO_NEWC_MAGIC cpio) (\<lambda>cpio.
        and_then (write_all trailer_header cpio) (\<lambda>cpio.
        and_then (write_all (CPIO_TRAILER @ [NUL]) cpio) rpmcpioWritePad))))"

definition rpmcpioClose :: "rpmcpio \<Rightarrow> rpmcpio \<times> int" where
  "rpmcpioClose cpio =
     (if c_mode cpio AND O_ACCMODE = O_WRONLY then rpmcpioTrailerWrite cpio else (cpio, 0))"

subsection \<open>Reading\<close>

datatype cpio_ub = BufferOverflow

text \<open>A read of \<open>n\<close> bytes, the size of which the code knows before, into a buffer of \<open>cap\<close> bytes: the data, and
  whether all of it has been read.\<close>

definition read_fixed :: "nat \<Rightarrow> nat \<Rightarrow> rpmcpio \<Rightarrow> cpio_ub + (rpmcpio \<times> string \<times> bool)" where
  "read_fixed cap n cpio =
     (let (fd, buf, r) = Fread n (c_fd cpio) in
      if length buf > cap then Inl BufferOverflow
      else Inr (cpio\<lparr>c_fd := fd, c_offset := c_offset cpio + of_int r\<rparr>, buf, r = int n))"

definition rpmcpioReadPad :: "rpmcpio \<Rightarrow> cpio_ub + (rpmcpio \<times> int)" where
  "rpmcpioReadPad cpio =
     (let left = pad_len (c_offset cpio) in
      if left = 0 then Inr (cpio, 0)
      else
        case read_fixed 4 left cpio of Inl ub \<Rightarrow> Inl ub
        | Inr (cpio, _, ok) \<Rightarrow> Inr (cpio, if ok then 0 else RPMERR_READ_FAILED))"

text \<open>Reads into a buffer of \<open>cap\<close> bytes, once the mode has been checked; the result is the data and the number
  of bytes read.\<close>

definition read_file :: "nat \<Rightarrow> rpmcpio \<Rightarrow> u64 \<Rightarrow> cpio_ub + (rpmcpio \<times> string \<times> int)" where
  "read_file cap cpio sz =
     (let left = c_fileend cpio - c_offset cpio;
          (fd, buf, n) = Fread (unat (min sz left)) (c_fd cpio)
      in if length buf > cap then Inl BufferOverflow
         else Inr (cpio\<lparr>c_fd := fd, c_offset := c_offset cpio + of_int n\<rparr>, buf, n))"

definition rpmcpioRead :: "nat \<Rightarrow> rpmcpio \<Rightarrow> u64 \<Rightarrow> cpio_ub + (rpmcpio \<times> string \<times> int)" where
  "rpmcpioRead cap cpio sz =
     (if c_mode cpio AND O_ACCMODE \<noteq> O_RDONLY then Inr (cpio, [], RPMERR_READ_FAILED) else read_file cap cpio sz)"

text \<open>The rest of the current file is skipped in steps of the size of a buffer. The difference of the offsets
  is signed. The mode was checked before.\<close>

function skip_file :: "rpmcpio \<Rightarrow> cpio_ub + (rpmcpio \<times> bool)" where
  "skip_file cpio =
     (if c_fileend cpio = c_offset cpio then Inr (cpio, True)
      else
        let d = sint (c_fileend cpio - c_offset cpio); rd = (if d > int SKIP_BUFFER then int SKIP_BUFFER else d) in
        case read_file SKIP_BUFFER cpio (of_int rd) of
          Inl ub \<Rightarrow> Inl ub
        | Inr (cpio', _, n) \<Rightarrow> if n \<noteq> rd then Inr (cpio', False) else skip_file cpio')"
  by pat_completeness auto

text \<open>A successful step consumes input; after a failed read of one byte less than none the loop is over.\<close>

lemma sint_pos_unat:
  assumes "0 \<le> sint (w :: u64)"
  shows "int (unat w) = sint w"
proof -
  have "sint w < 2 ^ 63" using sint_lt [of w] by simp
  then have "uint w = sint w" using assms by (simp add: uint_sint take_bit_eq_mod)
  then show ?thesis by simp
qed

lemma sint_of_int_small: "- (2 ^ 63) \<le> x \<Longrightarrow> x < 2 ^ 63 \<Longrightarrow> sint (of_int x :: u64) = x"
  by (simp add: sint_sbintrunc' signed_take_bit_int_eq_self)

lemma Fread_cases:
  assumes "Fread n fd = (fd', buf, r)"
  obtains "n \<le> length (fd_in fd)" "fd_in fd' = drop n (fd_in fd)" "buf = take n (fd_in fd)" "r = int n"
  | "length (fd_in fd) < n" "fd_in fd' = []" "buf = []" "r = -1"
  | "length (fd_in fd) < n" "fd_in fd' = []" "buf = fd_in fd" "r = int (length (fd_in fd))"
  using assms by (auto simp: Fread_def split: if_splits)

lemma skip_step:
  assumes "c_fileend cpio \<noteq> c_offset cpio" "rd = min (sint (c_fileend cpio - c_offset cpio)) (int SKIP_BUFFER)"
    "read_file SKIP_BUFFER cpio (of_int rd) = Inr (cpio', buf, rd)"
  shows "2 * length (fd_in (c_fd cpio')) + (if sint (c_fileend cpio' - c_offset cpio') < 0 then 1 else 0)
    < 2 * length (fd_in (c_fd cpio)) + (if sint (c_fileend cpio - c_offset cpio) < 0 then 1 else 0)"
proof -
  let ?w = "c_fileend cpio - c_offset cpio"
  obtain fd where fd: "Fread (unat (min (of_int rd) ?w)) (c_fd cpio) = (fd, buf, rd)"
      and c: "cpio' = cpio\<lparr>c_fd := fd, c_offset := c_offset cpio + of_int rd\<rparr>"
    using assms(3) by (auto simp: read_file_def Let_def split: prod.splits if_splits)
  have diff: "c_fileend cpio' - c_offset cpio' = ?w - of_int rd" by (simp add: c)
  show ?thesis
  proof (cases "sint ?w < 0")
    case True
    then have rd: "rd = sint ?w" "rd < 0" using assms(2) by simp_all
    then have "fd_in fd = []" using fd by (auto elim: Fread_cases)
    moreover have "of_int rd = ?w" unfolding rd(1) by simp
    ultimately show ?thesis using True diff by (simp add: c)
  next
    case False
    then have w: "int (unat ?w) = sint ?w" by (intro sint_pos_unat) simp
    have "unat ?w \<noteq> 0" using assms(1) by (simp add: unat_eq_0)
    then have rd: "0 < rd" "rd \<le> int (unat ?w)" "rd \<le> int SKIP_BUFFER" using assms(2) w by linarith+
    have u: "unat (of_int rd :: u64) = nat rd"
      using rd(1,3) by (simp add: unat_eq_nat_uint uint_word_of_int)
    have "nat rd \<le> unat ?w" using rd(2) by linarith
    then have n: "unat (min (of_int rd) ?w) = nat rd" using u by (simp add: min_def word_le_nat_alt)
    have "nat rd \<le> length (fd_in (c_fd cpio))" "fd_in fd = drop (nat rd) (fd_in (c_fd cpio))"
      using fd rd(1) unfolding n by (auto elim!: Fread_cases)
    moreover have "\<not> sint (?w - of_int rd) < 0"
    proof -
      have "?w - of_int rd = of_int (sint ?w - rd)" by simp
      moreover have "sint ?w < 2 ^ 63" using sint_lt [of ?w] by simp
      ultimately show ?thesis using sint_of_int_small [of "sint ?w - rd"] rd w by simp
    qed
    ultimately show ?thesis using rd(1) diff False by (simp add: c) linarith
  qed
qed

termination skip_file
proof (relation "measure (\<lambda>c. 2 * length (fd_in (c_fd c)) + (if sint (c_fileend c - c_offset c) < 0 then 1 else 0))", goal_cases)
  case (2 cpio d rd r cpio' x buf n)
  then have "read_file SKIP_BUFFER cpio (of_int rd) = Inr (cpio', buf, rd)" by simp
  moreover have "rd = min (sint (c_fileend cpio - c_offset cpio)) (int SKIP_BUFFER)" using 2 by auto
  ultimately show ?case using skip_step 2(1) by simp
qed simp

declare skip_file.simps [simp del]

text \<open>The result: the code, and what \<open>path\<close> and \<open>fx\<close> are set to.\<close>

type_synonym header_result = "rpmcpio \<times> int \<times> cstr option \<times> int option"

definition read_stripped :: "rpmcpio \<Rightarrow> cpio_ub + header_result" where
  "read_stripped cpio =
     (case read_fixed 8 8 cpio of Inl ub \<Rightarrow> Inl ub
      | Inr (cpio, shdr, ok) \<Rightarrow>
          if \<not> ok then Inr (cpio, RPMERR_BAD_HEADER, None, None)
          else
            let (v, e) = strntoul shdr; fx = sint (ucast v :: 32 word) in
            if e \<noteq> length shdr then Inr (cpio, RPMERR_BAD_HEADER, None, Some fx)
            else
              case rpmcpioReadPad cpio of Inl ub \<Rightarrow> Inl ub
              | Inr (cpio, rc) \<Rightarrow> Inr (cpio, if rc = 0 \<and> fx = -1 then RPMERR_ITER_END else rc, None, Some fx))"

text \<open>The name, into the buffer \<open>name[CPIO_NAMESIZE_MAX + 1]\<close>: the int \<open>nameSize\<close> is converted to the size of
  the read, and the byte at \<open>nameSize\<close> is set to NUL, before the number of bytes read is looked at.\<close>

definition read_name :: "int \<Rightarrow> rpmcpio \<Rightarrow> cpio_ub + (rpmcpio \<times> cstr \<times> bool)" where
  "read_name nameSize cpio =
     (case read_fixed (nat CPIO_NAMESIZE_MAX + 1) (unat (word_of_int nameSize :: u64)) cpio of Inl ub \<Rightarrow> Inl ub
      | Inr (cpio, buf, ok) \<Rightarrow>
          if nameSize < 0 \<or> nameSize \<ge> CPIO_NAMESIZE_MAX + 1 then Inl BufferOverflow
          else Inr (cpio, takeWhile (\<lambda>c. c \<noteq> NUL) buf, ok))"

definition read_newc :: "rpmcpio \<Rightarrow> cpio_ub + header_result" where
  "read_newc cpio =
     (case read_fixed 104 104 cpio of Inl ub \<Rightarrow> Inl ub
      | Inr (cpio, hdr, ok) \<Rightarrow>
          if \<not> ok then Inr (cpio, RPMERR_BAD_HEADER, None, None)
          else
            case GET_NUM_FIELD (take 8 (drop 48 hdr)) of None \<Rightarrow> Inr (cpio, RPMERR_BAD_HEADER, None, None)
            | Some fsize \<Rightarrow>
              (case GET_NUM_FIELD (take 8 (drop 88 hdr)) of None \<Rightarrow> Inr (cpio, RPMERR_BAD_HEADER, None, None)
               | Some v \<Rightarrow>
                   let nameSize = sint (ucast v :: 32 word) in
                   if nameSize \<le> 0 \<or> nameSize > CPIO_NAMESIZE_MAX then Inr (cpio, RPMERR_BAD_HEADER, None, None)
                   else
                     case read_name nameSize cpio of Inl ub \<Rightarrow> Inl ub
                     | Inr (cpio, name, ok) \<Rightarrow>
                         if \<not> ok then Inr (cpio, RPMERR_BAD_HEADER, None, None)
                         else
                           case rpmcpioReadPad cpio of Inl ub \<Rightarrow> Inl ub
                           | Inr (cpio, rc) \<Rightarrow>
                               let cpio = cpio\<lparr>c_fileend := c_offset cpio + fsize\<rparr>;
                                   rc = (if rc = 0 \<and> rstreq name CPIO_TRAILER then RPMERR_ITER_END else rc)
                               in Inr (cpio, rc, if rc = 0 then Some name else None, None)))"

definition rpmcpioHeaderRead :: "rpmcpio \<Rightarrow> cpio_ub + header_result" where
  "rpmcpioHeaderRead cpio =
     (if c_mode cpio AND O_ACCMODE \<noteq> O_RDONLY then Inr (cpio, RPMERR_READ_FAILED, None, None)
      else
        case skip_file cpio of Inl ub \<Rightarrow> Inl ub
        | Inr (cpio, False) \<Rightarrow> Inr (cpio, RPMERR_READ_FAILED, None, None)
        | Inr (cpio, True) \<Rightarrow>
            (case rpmcpioReadPad cpio of Inl ub \<Rightarrow> Inl ub
             | Inr (cpio, rc) \<Rightarrow>
                 if rc \<noteq> 0 then Inr (cpio, rc, None, None)
                 else
                   case read_fixed 6 6 cpio of Inl ub \<Rightarrow> Inl ub
                   | Inr (cpio, magic, ok) \<Rightarrow>
                       if \<not> ok then Inr (cpio, RPMERR_BAD_MAGIC, None, None)
                       else if rstreqn CPIO_STRIPPED_MAGIC magic 6 then read_stripped cpio
                       else if \<not> rstreqn CPIO_CRC_MAGIC magic 6 \<and> \<not> rstreqn CPIO_NEWC_MAGIC magic 6
                       then Inr (cpio, RPMERR_BAD_MAGIC, None, None)
                       else read_newc cpio))"

definition rpmcpioSetExpectedFileSize :: "rpmcpio \<Rightarrow> u64 \<Rightarrow> rpmcpio" where
  "rpmcpioSetExpectedFileSize cpio fsize = cpio\<lparr>c_fileend := c_offset cpio + fsize\<rparr>"

subsection \<open>Reading numbers back\<close>

lemma hex_digit_props:
  assumes "n < 16"
  shows "hex_value (hex_digits ! n) = Some n" "\<not> c_isspace (hex_digits ! n)" "hex_digits ! n \<noteq> CHR ''-''" "hex_digits ! n \<noteq> CHR ''+''"
    "hex_digits ! n \<noteq> NUL"
proof -
  have "\<forall>n \<in> set [0..<16]. hex_value (hex_digits ! n) = Some n \<and> \<not> c_isspace (hex_digits ! n) \<and> hex_digits ! n \<noteq> CHR ''-'' \<and>
      hex_digits ! n \<noteq> CHR ''+'' \<and> hex_digits ! n \<noteq> NUL"
    by code_simp
  then show "hex_value (hex_digits ! n) = Some n" "\<not> c_isspace (hex_digits ! n)" "hex_digits ! n \<noteq> CHR ''-''" "hex_digits ! n \<noteq> CHR ''+''"
    "hex_digits ! n \<noteq> NUL"
    using assms by auto
qed

definition plain_hex :: "string \<Rightarrow> bool" where
  "plain_hex s \<longleftrightarrow> (\<forall>c \<in> set s. \<exists>n < 16. c = hex_digits ! n)"

lemma plain_hex_append [simp]: "plain_hex (s @ t) \<longleftrightarrow> plain_hex s \<and> plain_hex t"
  by (auto simp: plain_hex_def)

lemma plain_hex_digit: "n < 16 \<Longrightarrow> plain_hex [hex_digits ! n]"
  by (auto simp: plain_hex_def)

lemma plain_hexD:
  assumes "plain_hex s" "c \<in> set s"
  shows "is_hex c" "\<not> c_isspace c" "c \<noteq> CHR ''-''" "c \<noteq> CHR ''+''" "c \<noteq> NUL"
proof -
  obtain n where n: "n < 16" and c: "c = hex_digits ! n" using assms by (auto simp: plain_hex_def)
  show "is_hex c" "\<not> c_isspace c" "c \<noteq> CHR ''-''" "c \<noteq> CHR ''+''" "c \<noteq> NUL"
    unfolding c using hex_digit_props [OF n] by (simp_all add: is_hex_def)
qed

lemma hex_number_snoc: "hex_number (s @ [c]) = 16 * hex_number s + the (hex_value c)"
  by (simp add: hex_number_def)

lemma hex_str_props: "plain_hex (hex_str n)" "hex_number (hex_str n) = n" "n < 16 ^ k \<Longrightarrow> 0 < k \<Longrightarrow> length (hex_str n) \<le> k"
proof (induction n arbitrary: k rule: hex_str.induct)
  case (1 n)
  { case 1 then show ?case using "1.IH"(1) by (subst hex_str.simps) (auto intro!: plain_hex_digit)
  next
    case 2 then show ?case using "1.IH"(2) hex_digit_props(1) hex_number_snoc [of "[]"]
      by (subst hex_str.simps) (auto simp: hex_number_snoc hex_number_def)
  next
    case (3 k)
    show ?case
    proof (cases "n < 16")
      case True
      then show ?thesis using 3 by (subst hex_str.simps) simp
    next
      case False
      then obtain j where k: "k = Suc j" "0 < j" using 3 by (cases k; cases "k - 1") auto
      then have "n div 16 < 16 ^ j" using 3 by (simp add: less_mult_imp_div_less mult.commute)
      then show ?thesis using "1.IH"(3) [OF False] False k by (subst hex_str.simps) simp
    qed }
qed

lemma plain_hex_zeros: "hex_number (replicate k CHR ''0'' @ s) = hex_number s" "plain_hex (replicate k CHR ''0'')"
proof -
  have "foldl (\<lambda>n c. 16 * n + the (hex_value c)) 0 (replicate k CHR ''0'') = 0"
    by (induction k) (simp_all add: hex_value_def)
  then show "hex_number (replicate k CHR ''0'' @ s) = hex_number s" by (simp add: hex_number_def)
  have "CHR ''0'' = hex_digits ! 0" by (simp add: hex_digits_def)
  then show "plain_hex (replicate k CHR ''0'')" by (auto simp: plain_hex_def intro!: exI [of _ 0])
qed

lemma strtoul16_plain:
  assumes "plain_hex s" "s \<noteq> []" "hex_number s < 2 ^ 64"
  shows "strtoul16 s = (of_nat (hex_number s), length s)"
proof -
  note all = plain_hexD [OF assms(1)]
  obtain c t where s: "s = c # t" using assms(2) by (cases s) auto
  have ws: "takeWhile c_isspace s = []" using all(2) [of c] by (simp add: s)
  have "\<not> is_hex CHR ''x''" "\<not> is_hex CHR ''X''" by (simp_all add: is_hex_def hex_value_def)
  then have pre: "take 2 s \<noteq> ''0x''" "take 2 s \<noteq> ''0X''" using all(1) by (metis in_set_takeD list.set_intros)+
  have tw: "takeWhile is_hex s = s" using all(1) by (simp add: takeWhile_eq_all_conv)
  show ?thesis
    using assms(2,3) all(3,4) [of "hd s"] pre by (simp add: strtoul16_def Let_def ws tw)
qed

lemma GET_NUM_FIELD_plain:
  assumes "plain_hex s" "s \<noteq> []" "hex_number s < 2 ^ 64"
  shows "GET_NUM_FIELD s = Some (of_nat (hex_number s))"
proof -
  have tw: "takeWhile (\<lambda>c. c \<noteq> NUL) s = s"
    using plain_hexD(5) [OF assms(1)] by (simp add: takeWhile_eq_all_conv)
  show ?thesis using strtoul16_plain [OF assms] by (simp add: GET_NUM_FIELD_def strntoul_def Let_def tw)
qed

lemma length_SET_NUM_FIELD [simp]: "length (SET_NUM_FIELD v) = 8"
  by (simp add: SET_NUM_FIELD_def Let_def)

lemma GET_SET_NUM_FIELD:
  assumes "unat v < 2 ^ 32"
  shows "GET_NUM_FIELD (SET_NUM_FIELD v) = Some v"
proof -
  let ?s = "hex_str (unat v)"
  have len: "length ?s \<le> 8" using hex_str_props(3) [of "unat v" 8] assms by simp
  then have f: "SET_NUM_FIELD v = replicate (8 - length ?s) CHR ''0'' @ ?s" by (simp add: SET_NUM_FIELD_def Let_def)
  have "plain_hex (SET_NUM_FIELD v)" using hex_str_props(1) plain_hex_zeros(2) unfolding f by simp
  moreover have n: "hex_number (SET_NUM_FIELD v) = unat v" unfolding f by (simp add: plain_hex_zeros(1) hex_str_props(2))
  moreover have "SET_NUM_FIELD v \<noteq> []" using length_SET_NUM_FIELD [of v] by fastforce
  ultimately show ?thesis using GET_NUM_FIELD_plain [of "SET_NUM_FIELD v"] assms by simp
qed

subsection \<open>The archive format\<close>

text \<open>What an archive looks like from offset \<open>off\<close> on.\<close>

definition pad :: "u64 \<Rightarrow> string" where
  "pad off = replicate (pad_len off) NUL"

definition framed :: "u64 \<Rightarrow> string \<Rightarrow> cstr \<Rightarrow> string" where
  "framed off hdr name =
     (let s = pad off @ CPIO_NEWC_MAGIC @ hdr @ name @ [NUL] in s @ pad (off + of_nat (length s)))"

type_synonym cpio_file = "cstr \<times> stat \<times> string"

fun archive :: "u64 \<Rightarrow> cpio_file list \<Rightarrow> string" where
  "archive off [] = framed off trailer_header CPIO_TRAILER"
| "archive off ((path, st, d) # fs) =
     (let h = framed off (phys_header st (length path + 1)) path in
      h @ d @ archive (off + of_nat (length h + length d)) fs)"

definition file_ok :: "cpio_file \<Rightarrow> bool" where
  "file_ok f = (case f of (path, st, d) \<Rightarrow>
     NUL \<notin> set path \<and> path \<noteq> CPIO_TRAILER \<and> length path < 4096 \<and> st_size st = of_nat (length d) \<and> length d < 0xffffffff)"

subsection \<open>The writer\<close>

definition wrote :: "rpmcpio \<Rightarrow> string \<Rightarrow> rpmcpio" where
  "wrote c s = c\<lparr>c_fd := (c_fd c)\<lparr>fd_out := fd_out (c_fd c) @ s, fd_room := fd_room (c_fd c) - length s\<rparr>,
     c_offset := c_offset c + of_nat (length s)\<rparr>"

lemma wrote_fields [simp]:
  "fd_out (c_fd (wrote c s)) = fd_out (c_fd c) @ s" "fd_room (c_fd (wrote c s)) = fd_room (c_fd c) - length s"
  "c_offset (wrote c s) = c_offset c + of_nat (length s)" "c_mode (wrote c s) = c_mode c" "c_fileend (wrote c s) = c_fileend c"
  by (simp_all add: wrote_def)

lemma wrote_wrote [simp]: "wrote (wrote c s) t = wrote c (s @ t)"
  by (simp add: wrote_def add.assoc)

lemma wrote_Nil [simp]: "wrote c [] = c"
  by (simp add: wrote_def)

lemma write_all_ok: "length s \<le> fd_room (c_fd c) \<Longrightarrow> write_all s c = (wrote c s, 0)"
  by (simp add: write_all_def Fwrite_def wrote_def Let_def)

lemma WritePad_ok: "length (pad (c_offset c)) \<le> fd_room (c_fd c) \<Longrightarrow> rpmcpioWritePad c = (wrote c (pad (c_offset c)), 0)"
  by (simp add: rpmcpioWritePad_def Fwrite_def wrote_def pad_def Let_def)

lemma and_then_ok [simp]: "and_then (c, 0) f = f c"
  by (simp add: and_then_def)

lemma length_phys_header [simp]: "length (phys_header st n) = 104"
  by (simp add: phys_header_def)

lemma HeaderWrite_ok:
  assumes "c_mode c AND O_ACCMODE = O_WRONLY" "c_fileend c = c_offset c" "sint (st_size st) < CPIO_FILESIZE_MAX"
    "length (framed (c_offset c) (phys_header st (length path + 1)) path) \<le> fd_room (c_fd c)"
  defines "c' \<equiv> wrote c (framed (c_offset c) (phys_header st (length path + 1)) path)"
  shows "rpmcpioHeaderWrite c path st = (c'\<lparr>c_fileend := c_offset c' + st_size st\<rparr>, 0)"
  using assms(1-4)
  by (simp add: rpmcpioHeaderWrite_def WritePad_ok write_all_ok framed_def c'_def Let_def add.assoc)

lemma TrailerWrite_ok:
  assumes "c_fileend c = c_offset c" "length (framed (c_offset c) trailer_header CPIO_TRAILER) \<le> fd_room (c_fd c)"
  shows "rpmcpioTrailerWrite c = (wrote c (framed (c_offset c) trailer_header CPIO_TRAILER), 0)"
  using assms by (simp add: rpmcpioTrailerWrite_def WritePad_ok write_all_ok framed_def Let_def add.assoc)

text \<open>A client that writes files one after another and closes the archive.\<close>

fun write_files :: "rpmcpio \<Rightarrow> cpio_file list \<Rightarrow> rpmcpio \<times> int" where
  "write_files c [] = rpmcpioClose c"
| "write_files c ((path, st, d) # fs) =
     and_then (rpmcpioHeaderWrite c path st) (\<lambda>c.
       let (c, n) = rpmcpioWrite c d in if n \<noteq> int (length d) then (c, RPMERR_WRITE_FAILED) else write_files c fs)"

lemma small_size:
  assumes "n < 0xffffffff"
  shows "unat (of_nat n :: u64) = n" "sint (of_nat n :: u64) = int n"
proof -
  show "unat (of_nat n :: u64) = n" using assms by (simp add: unat_of_nat)
  show "sint (of_nat n :: u64) = int n" using sint_of_int_small [of "int n"] assms by simp
qed

lemma write_files_archive:
  assumes "c_mode c AND O_ACCMODE = O_WRONLY" "c_fileend c = c_offset c" "\<forall>f \<in> set fs. file_ok f"
    "length (archive (c_offset c) fs) \<le> fd_room (c_fd c)"
  shows "\<exists>c'. write_files c fs = (c', 0) \<and> fd_out (c_fd c') = fd_out (c_fd c) @ archive (c_offset c) fs"
  using assms
proof (induction fs arbitrary: c)
  case Nil
  then show ?case using TrailerWrite_ok [of c] by (simp add: rpmcpioClose_def)
next
  case (Cons f fs)
  obtain path st d where f: "f = (path, st, d)" by (cases f)
  let ?h = "framed (c_offset c) (phys_header st (length path + 1)) path"
  have ok: "st_size st = of_nat (length d)" "length d < 0xffffffff" using Cons.prems(3) by (simp_all add: file_ok_def f)
  note sm = small_size [OF ok(2)]
  have room: "length ?h + length d + length (archive (c_offset c + of_nat (length ?h + length d)) fs) \<le> fd_room (c_fd c)"
    using Cons.prems(4) by (simp add: f Let_def)
  have "sint (st_size st) < CPIO_FILESIZE_MAX" using ok sm by simp
  then have hdr: "rpmcpioHeaderWrite c path st = ((wrote c ?h)\<lparr>c_fileend := c_offset c + of_nat (length ?h) + st_size st\<rparr>, 0)"
    using HeaderWrite_ok [OF Cons.prems(1,2), of st path] room by simp
  let ?c = "wrote c (?h @ d)\<lparr>c_fileend := c_offset c + of_nat (length ?h + length d)\<rparr>"
  have wr: "rpmcpioWrite ((wrote c ?h)\<lparr>c_fileend := c_offset c + of_nat (length ?h) + st_size st\<rparr>) d = (?c, int (length d))"
    using Cons.prems(1) room ok sm by (simp add: rpmcpioWrite_def Fwrite_def wrote_def Let_def add.assoc)
  have "\<exists>c'. write_files ?c fs = (c', 0) \<and> fd_out (c_fd c') = fd_out (c_fd ?c) @ archive (c_offset ?c) fs"
    using Cons.prems(1,3) room by (intro Cons.IH) simp_all
  then show ?case using hdr wr by (simp add: f Let_def)
qed

subsection \<open>The reader\<close>

definition moved :: "rpmcpio \<Rightarrow> string \<Rightarrow> nat \<Rightarrow> rpmcpio" where
  "moved c rest n = c\<lparr>c_fd := (c_fd c)\<lparr>fd_in := rest\<rparr>, c_offset := c_offset c + of_nat n\<rparr>"

lemma moved_fields [simp]:
  "fd_in (c_fd (moved c rest n)) = rest" "c_offset (moved c rest n) = c_offset c + of_nat n"
  "c_mode (moved c rest n) = c_mode c" "c_fileend (moved c rest n) = c_fileend c"
  by (simp_all add: moved_def)

lemma moved_moved [simp]: "moved (moved c r m) s n = moved c s (m + n)"
  by (simp add: moved_def add.assoc)

lemma read_fixed_ok:
  "fd_in (c_fd c) = s @ rest \<Longrightarrow> n = length s \<Longrightarrow> n \<le> cap \<Longrightarrow> read_fixed cap n c = Inr (moved c rest n, s, True)"
  by (simp add: read_fixed_def Fread_def moved_def)

lemma pad_len_le: "pad_len off \<le> 4"
  by (simp add: pad_len_def)

lemma ReadPad_ok:
  "fd_in (c_fd c) = pad (c_offset c) @ rest \<Longrightarrow> rpmcpioReadPad c = Inr (moved c rest (length (pad (c_offset c))), 0)"
  using pad_len_le [of "c_offset c"] by (auto simp: rpmcpioReadPad_def read_fixed_def Fread_def moved_def pad_def Let_def)

lemma name_size:
  assumes "n \<le> 4096"
  shows "sint (ucast (of_nat n :: u64) :: 32 word) = int n"
proof -
  have "uint (ucast (of_nat n :: u64) :: 32 word) = int n"
    using assms by (simp add: unsigned_ucast_eq unsigned_of_nat take_bit_nat_eq_self_iff take_bit_eq_mod)
  then show ?thesis using assms by (simp add: sint_uint signed_take_bit_int_eq_self)
qed

lemma unat_name_size: "0 \<le> n \<Longrightarrow> n \<le> CPIO_NAMESIZE_MAX \<Longrightarrow> unat (word_of_int n :: u64) = nat n"
  by (simp add: unat_eq_nat_uint uint_word_of_int)

lemma read_newc_ok:
  assumes "fd_in (c_fd c) = hdr @ name @ NUL # pad (c_offset c + of_nat (104 + length name + 1)) @ rest"
    "length hdr = 104" "GET_NUM_FIELD (take 8 (drop 48 hdr)) = Some fsize"
    "GET_NUM_FIELD (take 8 (drop 88 hdr)) = Some (of_nat (length name + 1))" "NUL \<notin> set name" "length name < 4096"
  defines "c' \<equiv> moved c rest (104 + length name + 1 + length (pad (c_offset c + of_nat (104 + length name + 1))))"
  shows "read_newc c = Inr (c'\<lparr>c_fileend := c_offset c' + fsize\<rparr>, if name = CPIO_TRAILER then RPMERR_ITER_END else 0,
    if name = CPIO_TRAILER then None else Some name, None)"
proof -
  let ?c1 = "moved c (name @ NUL # pad (c_offset c + of_nat (104 + length name + 1)) @ rest) 104"
  let ?p = "pad (c_offset c + of_nat (104 + length name + 1))"
  let ?c2 = "moved c (?p @ rest) (104 + (length name + 1))"
  have r1: "read_fixed 104 104 c = Inr (?c1, hdr, True)" using assms(1,2) by (intro read_fixed_ok) simp_all
  have u: "unat (word_of_int (int (length name + 1)) :: u64) = length name + 1"
    using unat_name_size [of "int (length name + 1)"] assms(6) by (simp only: nat_int)
  have "read_fixed (nat CPIO_NAMESIZE_MAX + 1) (length name + 1) ?c1 = Inr (?c2, name @ [NUL], True)"
    using read_fixed_ok [of ?c1 "name @ [NUL]" "?p @ rest" "length name + 1"] assms(6) by simp
  moreover have "takeWhile (\<lambda>c. c \<noteq> NUL) (name @ [NUL]) = name" using assms(5) by (rule takeWhile_not_NUL)
  ultimately have r2: "read_name (int (length name + 1)) ?c1 = Inr (?c2, name, True)"
    unfolding read_name_def u using assms(6) by simp
  have r3: "rpmcpioReadPad ?c2 = Inr (c', 0)"
    using ReadPad_ok [of ?c2 rest] by (simp add: c'_def add.assoc)
  have "sint (ucast (of_nat (length name + 1) :: u64) :: 32 word) = int (length name + 1)"
    using assms(6) by (intro name_size) simp
  moreover have "\<not> (int (length name + 1) \<le> 0 \<or> int (length name + 1) > CPIO_NAMESIZE_MAX)" using assms(6) by simp
  ultimately show ?thesis
    unfolding read_newc_def Let_def r1 sum.case prod.case assms(3,4) option.case using r2 r3 by simp
qed

lemma HeaderRead_ok:
  assumes "c_mode c AND O_ACCMODE = O_RDONLY" "c_fileend c = c_offset c" "fd_in (c_fd c) = framed (c_offset c) hdr name @ rest"
    "length hdr = 104" "GET_NUM_FIELD (take 8 (drop 48 hdr)) = Some fsize"
    "GET_NUM_FIELD (take 8 (drop 88 hdr)) = Some (of_nat (length name + 1))" "NUL \<notin> set name" "length name < 4096"
  defines "c' \<equiv> moved c rest (length (framed (c_offset c) hdr name))"
  shows "rpmcpioHeaderRead c = Inr (c'\<lparr>c_fileend := c_offset c' + fsize\<rparr>, if name = CPIO_TRAILER then RPMERR_ITER_END else 0,
    if name = CPIO_TRAILER then None else Some name, None)"
proof -
  let ?q = "length (pad (c_offset c))"
  let ?c2 = "moved c (hdr @ name @ NUL # pad (c_offset c + of_nat (?q + 6 + (104 + length name + 1))) @ rest) (?q + 6)"
  have len: "length CPIO_NEWC_MAGIC = 6" by (simp add: CPIO_NEWC_MAGIC_def)
  then have inp: "fd_in (c_fd c) = pad (c_offset c) @ CPIO_NEWC_MAGIC @ hdr @ name @ NUL #
      pad (c_offset c + of_nat (?q + 6 + (104 + length name + 1))) @ rest"
    using assms(3,4) by (simp add: framed_def Let_def add.assoc)
  have skip: "skip_file c = Inr (c, True)" using assms(2) by (subst skip_file.simps) simp
  note r1 = ReadPad_ok [OF inp]
  have r2: "read_fixed 6 6 (moved c (CPIO_NEWC_MAGIC @ hdr @ name @ NUL # pad (c_offset c + of_nat (?q + 6 + (104 + length name + 1))) @ rest) ?q)
      = Inr (?c2, CPIO_NEWC_MAGIC, True)"
    using len by (subst read_fixed_ok) (simp_all)
  have magic: "\<not> rstreqn CPIO_STRIPPED_MAGIC CPIO_NEWC_MAGIC 6" "rstreqn CPIO_NEWC_MAGIC CPIO_NEWC_MAGIC 6"
    by (simp_all add: rstreqn_iff CPIO_STRIPPED_MAGIC_def CPIO_NEWC_MAGIC_def)
  have "fd_in (c_fd ?c2) = hdr @ name @ NUL # pad (c_offset ?c2 + of_nat (104 + length name + 1)) @ rest" by (simp add: add.assoc)
  note r3 = read_newc_ok [OF this assms(4-8)]
  have "moved ?c2 rest (104 + length name + 1 + length (pad (c_offset ?c2 + of_nat (104 + length name + 1)))) = c'"
    using assms(4) len by (simp add: c'_def framed_def Let_def add.assoc add.commute add.left_commute)
  then show ?thesis
    using assms(1) skip r1 r2 magic r3 by (simp add: rpmcpioHeaderRead_def)
qed

text \<open>A client that reads every file into a buffer of its size, up to the end of the archive or \<open>n\<close> headers.\<close>

fun read_files :: "nat \<Rightarrow> rpmcpio \<Rightarrow> (cstr \<times> string) list option" where
  "read_files 0 c = None"
| "read_files (Suc n) c =
     (case rpmcpioHeaderRead c of
        Inl _ \<Rightarrow> None
      | Inr (c, rc, path, _) \<Rightarrow>
          if rc = RPMERR_ITER_END then Some []
          else if rc \<noteq> 0 then None
          else
            let sz = c_fileend c - c_offset c in
            case rpmcpioRead (unat sz) c sz of
              Inl _ \<Rightarrow> None
            | Inr (c, d, r) \<Rightarrow> if r \<noteq> int (unat sz) then None else map_option ((#) (the path, d)) (read_files n c))"

lemma phys_header_fields:
  "take 8 (drop 48 (phys_header st n)) = SET_NUM_FIELD (st_size st)" "take 8 (drop 88 (phys_header st n)) = SET_NUM_FIELD (of_nat n)"
  by (simp_all add: phys_header_def)

lemma trailer_fields:
  "length trailer_header = 104" "GET_NUM_FIELD (take 8 (drop 48 trailer_header)) = Some 0"
  "GET_NUM_FIELD (take 8 (drop 88 trailer_header)) = Some (of_nat (length CPIO_TRAILER + 1))"
proof -
  show "length trailer_header = 104" by (simp add: trailer_header_def)
  have "take 8 (drop 48 trailer_header) = ''00000000''" "take 8 (drop 88 trailer_header) = ''0000000b''" by code_simp+
  moreover have "SET_NUM_FIELD 0 = ''00000000''" "SET_NUM_FIELD 11 = ''0000000b''"
    by code_simp+
  ultimately have "take 8 (drop 48 trailer_header) = SET_NUM_FIELD 0" "take 8 (drop 88 trailer_header) = SET_NUM_FIELD 11"
    by simp_all
  then show "GET_NUM_FIELD (take 8 (drop 48 trailer_header)) = Some 0"
    "GET_NUM_FIELD (take 8 (drop 88 trailer_header)) = Some (of_nat (length CPIO_TRAILER + 1))"
    by (simp_all add: GET_SET_NUM_FIELD CPIO_TRAILER_def)
qed

lemma length_framed: "length (framed off hdr name) \<le> length hdr + length name + 13"
proof -
  have "pad_len o' < 4" for o' by (simp add: pad_len_def)
  then have "length (pad o') \<le> 3" for o' by (simp add: pad_def less_Suc_eq_le [symmetric])
  from add_mono [OF this [of off] this [of "off + of_nat (length (pad off @ CPIO_NEWC_MAGIC @ hdr @ name @ [NUL]))"]]
  show ?thesis by (simp add: framed_def Let_def CPIO_NEWC_MAGIC_def)
qed

lemma length_archive:
  "length (archive off fs) \<le> 127 + sum_list (map (\<lambda>(path, st, d). 117 + length path + length d) fs)"
proof (induction off fs rule: archive.induct)
  case (1 off)
  then show ?case using length_framed [of off trailer_header CPIO_TRAILER] by (simp add: trailer_fields(1)) (simp add: CPIO_TRAILER_def)
next
  case (2 off path st d fs)
  from 2 [OF refl] show ?case using length_framed [of off "phys_header st (length path + 1)" path] by (simp add: Let_def)
qed

lemma read_files_archive:
  assumes "c_mode c AND O_ACCMODE = O_RDONLY" "c_fileend c = c_offset c" "\<forall>f \<in> set fs. file_ok f"
    "fd_in (c_fd c) = archive (c_offset c) fs @ rest"
  shows "read_files (Suc (length fs)) c = Some (map (\<lambda>(path, st, d). (path, d)) fs)"
  using assms
proof (induction fs arbitrary: c)
  case Nil
  have name: "NUL \<notin> set CPIO_TRAILER" "length CPIO_TRAILER < 4096" by (simp_all add: CPIO_TRAILER_def)
  have inp: "fd_in (c_fd c) = framed (c_offset c) trailer_header CPIO_TRAILER @ rest" using Nil.prems(4) by simp
  from HeaderRead_ok [OF Nil.prems(1,2) inp trailer_fields name] show ?case by simp
next
  case (Cons f fs)
  obtain path st d where f: "f = (path, st, d)" by (cases f)
  let ?h = "framed (c_offset c) (phys_header st (length path + 1)) path"
  let ?rest = "d @ archive (c_offset c + of_nat (length ?h + length d)) fs @ rest"
  have ok: "NUL \<notin> set path" "path \<noteq> CPIO_TRAILER" "length path < 4096" "st_size st = of_nat (length d)" "length d < 0xffffffff"
    using Cons.prems(3) by (simp_all add: file_ok_def f)
  note sm = small_size [OF ok(5)] small_size(1) [of "length path + 1"]
  have inp: "fd_in (c_fd c) = ?h @ ?rest" using Cons.prems(4) by (simp add: f Let_def)
  have fields: "GET_NUM_FIELD (take 8 (drop 48 (phys_header st (length path + 1)))) = Some (of_nat (length d))"
      "GET_NUM_FIELD (take 8 (drop 88 (phys_header st (length path + 1)))) = Some (of_nat (length path + 1))"
    unfolding phys_header_fields using ok sm by (auto intro!: GET_SET_NUM_FIELD simp del: of_nat_Suc of_nat_add)
  let ?c = "(moved c ?rest (length ?h))\<lparr>c_fileend := c_offset c + of_nat (length ?h) + of_nat (length d)\<rparr>"
  have hdr: "rpmcpioHeaderRead c = Inr (?c, 0, Some path, None)"
    using HeaderRead_ok [OF Cons.prems(1,2) inp length_phys_header fields ok(1,3)] ok(2) by simp
  let ?c' = "(moved c (archive (c_offset c + of_nat (length ?h + length d)) fs @ rest) (length ?h + length d))
      \<lparr>c_fileend := c_offset c + of_nat (length ?h + length d)\<rparr>"
  have rd: "rpmcpioRead (length d) ?c (of_nat (length d)) = Inr (?c', d, int (length d))"
    using Cons.prems(1) sm(1) by (simp add: rpmcpioRead_def read_file_def Fread_def moved_def Let_def add.assoc)
  have "read_files (Suc (length fs)) ?c' = Some (map (\<lambda>(path, st, d). (path, d)) fs)"
    using Cons.prems(1,3) by (intro Cons.IH) simp_all
  moreover have "c_fileend ?c - c_offset ?c = of_nat (length d)" by simp
  ultimately show ?case
    using hdr rd sm(1) by (simp only: read_files.simps(2) [of "Suc (length fs)"] list.size Let_def sum.case prod.case) (simp add: f)
qed

text \<open> C11: a payload is read back as it was written: the files that were written to an archive, each with its
  header and its contents, padding between them and the trailer at the end, are read with their names and
  contents in the same order, and then the end of the archive is found.\<close>

theorem cpio_roundtrip:
  assumes "\<forall>f \<in> set fs. file_ok f" "length (archive 0 fs) \<le> fd_room out"
    "rpmcpioOpen out O_WRONLY = Some w" "rpmcpioOpen (inp\<lparr>fd_in := drop (length (fd_out out)) (fd_out (c_fd w')) @ rest\<rparr>) O_RDONLY = Some r"
    "write_files w fs = (w', rc)"
  shows "rc = 0 \<and> read_files (Suc (length fs)) r = Some (map (\<lambda>(path, st, d). (path, d)) fs)"
proof -
  have w: "w = \<lparr>c_fd = out, c_mode = O_WRONLY, c_offset = 0, c_fileend = 0\<rparr>" using assms(3) by (simp add: rpmcpioOpen_def)
  then have "rc = 0" "fd_out (c_fd w') = fd_out out @ archive 0 fs"
    using write_files_archive [of w fs] assms(1,2,5) by auto
  moreover from this have "r = \<lparr>c_fd = inp\<lparr>fd_in := archive 0 fs @ rest\<rparr>, c_mode = O_RDONLY, c_offset = 0, c_fileend = 0\<rparr>"
    using assms(4) by (simp add: rpmcpioOpen_def)
  ultimately show ?thesis using read_files_archive [of r fs rest] assms(1) by simp
qed

theorem cpio_roundtrip_witness:
  "\<exists>w' r. write_files \<lparr>c_fd = \<lparr>fd_in = [], fd_fail = False, fd_out = [], fd_room = 4096\<rparr>, c_mode = O_WRONLY, c_offset = 0, c_fileend = 0\<rparr>
      [(''etc/motd'', \<lparr>st_dev = 0, st_ino = 7, st_mode = 0x81a4, st_nlink = 1, st_uid = 0, st_gid = 0, st_rdev = 0, st_size = 5, st_mtime = 0\<rparr>, ''hello'')] = (w', 0) \<and>
     rpmcpioOpen \<lparr>fd_in = fd_out (c_fd w'), fd_fail = False, fd_out = [], fd_room = 0\<rparr> O_RDONLY = Some r \<and>
     read_files 2 r = Some [(''etc/motd'', ''hello'')]"
proof -
  let ?fs = "[(''etc/motd'', \<lparr>st_dev = 0, st_ino = 7, st_mode = 0x81a4, st_nlink = 1, st_uid = 0, st_gid = 0, st_rdev = 0, st_size = 5, st_mtime = 0\<rparr>, ''hello'')]"
  let ?out = "\<lparr>fd_in = [], fd_fail = False, fd_out = [], fd_room = 4096\<rparr>"
  obtain w' rc where w': "write_files \<lparr>c_fd = ?out, c_mode = O_WRONLY, c_offset = 0, c_fileend = 0\<rparr> ?fs = (w', rc)" by fastforce
  have "\<forall>f \<in> set ?fs. file_ok f" by (simp add: file_ok_def CPIO_TRAILER_def)
  moreover have "length (archive 0 ?fs) \<le> fd_room ?out"
    using length_archive [of 0 ?fs] by simp
  moreover have "rpmcpioOpen ?out O_WRONLY = Some \<lparr>c_fd = ?out, c_mode = O_WRONLY, c_offset = 0, c_fileend = 0\<rparr>" by (simp add: rpmcpioOpen_def)
  moreover obtain r where "rpmcpioOpen (?out\<lparr>fd_in := drop (length (fd_out ?out)) (fd_out (c_fd w')) @ [], fd_room := 0\<rparr>) O_RDONLY = Some r"
    by (simp add: rpmcpioOpen_def)
  ultimately show ?thesis
    using cpio_roundtrip [where fs = ?fs and out = ?out and inp = "?out\<lparr>fd_room := 0\<rparr>" and w' = w' and rest = "[]" and r = r and rc = rc] w' by (simp add: numeral_2_eq_2)
qed

subsection \<open>Skipping a file\<close>

lemma skip_file_unfold:
  assumes "c_fileend c \<noteq> c_offset c" "rd = min (sint (c_fileend c - c_offset c)) (int SKIP_BUFFER)"
  shows "skip_file c = (case read_file SKIP_BUFFER c (of_int rd) of Inl ub \<Rightarrow> Inl ub
    | Inr (c', _, n) \<Rightarrow> if n \<noteq> rd then Inr (c', False) else skip_file c')"
proof -
  have "(if sint (c_fileend c - c_offset c) > int SKIP_BUFFER then int SKIP_BUFFER else sint (c_fileend c - c_offset c)) = rd"
    using assms(2) by simp
  then show ?thesis using assms(1) by (subst skip_file.simps) (simp only: Let_def if_False)
qed

lemma skip_file_safe: "0 \<le> sint (c_fileend c - c_offset c) \<Longrightarrow> skip_file c \<noteq> Inl ub"
proof (induction c rule: measure_induct_rule [where
      f = "\<lambda>c. 2 * length (fd_in (c_fd c)) + (if sint (c_fileend c - c_offset c) < 0 then 1 else 0)"])
  case (less c)
  let ?d = "sint (c_fileend c - c_offset c)"
  define rd where "rd = min ?d (int SKIP_BUFFER)"
  have rd: "0 \<le> rd" "rd \<le> int SKIP_BUFFER" using less.prems by (simp_all add: rd_def)
  have u: "unat (of_int rd :: u64) = nat rd" using rd by (simp add: unat_eq_nat_uint uint_word_of_int)
  obtain fd buf n where f: "Fread (unat (min (of_int rd) (c_fileend c - c_offset c))) (c_fd c) = (fd, buf, n)" by (metis prod_cases3)
  have "unat (min (of_int rd) (c_fileend c - c_offset c)) \<le> nat rd" using u by (simp add: min_def word_le_nat_alt)
  then have buf: "length buf \<le> SKIP_BUFFER" using f rd by (auto elim!: Fread_cases)
  let ?c = "c\<lparr>c_fd := fd, c_offset := c_offset c + of_int n\<rparr>"
  have read: "read_file SKIP_BUFFER c (of_int rd) = Inr (?c, buf, n)"
    unfolding read_file_def Let_def f prod.case using buf by simp
  show ?case
  proof (cases "c_fileend c = c_offset c")
    case True
    then show ?thesis by (subst skip_file.simps) simp
  next
    case False
    note unfold = skip_file_unfold [OF False rd_def, unfolded read sum.case prod.case]
    show ?thesis
    proof (cases "n = rd")
      case True
      have "c_fileend ?c - c_offset ?c = of_int (?d - rd)" using True by (simp add: diff_diff_add)
      moreover have "?d < 2 ^ 63" using sint_lt [of "c_fileend c - c_offset c"] by simp
      moreover have "0 \<le> ?d - rd" by (simp add: rd_def)
      ultimately have "0 \<le> sint (c_fileend ?c - c_offset ?c)" using sint_of_int_small [of "?d - rd"] rd(1) by (simp only:)
      then have "skip_file ?c \<noteq> Inl ub" using less.IH skip_step [OF False rd_def] read True by blast
      then show ?thesis using unfold True by simp
    qed (simp add: unfold)
  qed
qed

lemma Fread_length: "Fread n fd = (fd', buf, r) \<Longrightarrow> length buf \<le> n"
  by (auto simp: Fread_def split: if_splits)

lemma read_fixed_safe: "n \<le> cap \<Longrightarrow> read_fixed cap n c \<noteq> Inl ub"
  by (auto simp: read_fixed_def dest!: Fread_length split: prod.splits)

lemma ReadPad_safe: "rpmcpioReadPad c \<noteq> Inl ub"
  by (auto simp: rpmcpioReadPad_def Let_def read_fixed_safe pad_len_le split: sum.splits prod.splits)

lemma read_stripped_safe: "read_stripped c \<noteq> Inl ub"
  by (auto simp: read_stripped_def Let_def read_fixed_safe ReadPad_safe split: sum.splits prod.splits)

lemma read_name_safe:
  assumes "0 < n" "n \<le> CPIO_NAMESIZE_MAX"
  shows "read_name n c \<noteq> Inl ub"
  using assms by (auto simp: read_name_def unat_name_size read_fixed_safe split: sum.splits prod.splits)

lemma read_newc_safe: "read_newc c \<noteq> Inl ub"
  by (auto simp: read_newc_def Let_def read_fixed_safe ReadPad_safe read_name_safe split: sum.splits prod.splits option.splits)

text \<open> C34: reading a header stays within its buffers as long as the end of the current file is not before the
  offset: whatever the archive says, the skipped contents are read in pieces that fit into the buffer of
  \<open>8 * BUFSIZ\<close> bytes, and the padding, the magic, the header and the name, with the NUL that is put after it, fit into
  theirs.\<close>

theorem rpmcpioHeaderRead_safe:
  assumes "0 \<le> sint (c_fileend c - c_offset c)"
  shows "rpmcpioHeaderRead c \<noteq> Inl BufferOverflow"
  using skip_file_safe [OF assms, of BufferOverflow]
  by (auto simp: rpmcpioHeaderRead_def read_fixed_safe ReadPad_safe read_stripped_safe read_newc_safe
    split: sum.splits prod.splits bool.splits if_splits)

theorem rpmcpioHeaderRead_safe_witness:
  "rpmcpioHeaderRead \<lparr>c_fd = \<lparr>fd_in = ''070701'', fd_fail = False, fd_out = [], fd_room = 0\<rparr>, c_mode = O_RDONLY, c_offset = 0, c_fileend = 4\<rparr>
    \<noteq> Inl BufferOverflow"
  by (rule rpmcpioHeaderRead_safe) simp

lemma negative_field: "GET_NUM_FIELD ''      -1'' = Some (- 1)"
  by (simp add: GET_NUM_FIELD_def strntoul_def strtoul16_def c_isspace_def is_hex_def hex_value_def hex_number_def)

text \<open> C35: the sign of a number field is accepted: an archive whose header gives the size of a file as -1 puts the
  end of the file before the offset, and the next header that is read asks for the rest of the archive in
  one piece, which does not fit into the buffer.\<close>

theorem cpio_negative_size:
  assumes "c_mode c AND O_ACCMODE = O_RDONLY" "c_fileend c = c_offset c" "fd_in (c_fd c) = framed (c_offset c) hdr name @ rest"
    "length hdr = 104" "take 8 (drop 48 hdr) = ''      -1''"
    "GET_NUM_FIELD (take 8 (drop 88 hdr)) = Some (of_nat (length name + 1))" "NUL \<notin> set name" "length name < 4096" "name \<noteq> CPIO_TRAILER"
    "\<not> fd_fail (c_fd c)" "SKIP_BUFFER < length rest" "length rest < 2 ^ 63"
  shows "\<exists>c'. rpmcpioHeaderRead c = Inr (c', 0, Some name, None) \<and> rpmcpioHeaderRead c' = Inl BufferOverflow"
proof -
  have "GET_NUM_FIELD (take 8 (drop 48 hdr)) = Some (- 1)" using assms(5) negative_field by simp
  note rd = HeaderRead_ok [OF assms(1-4) this assms(6-8)]
  let ?c = "moved c rest (length (framed (c_offset c) hdr name))"
  let ?c' = "?c\<lparr>c_fileend := c_offset ?c - 1\<rparr>"
  have "rpmcpioHeaderRead c = Inr (?c', 0, Some name, None)" using rd assms(9) by simp
  moreover have "skip_file ?c' = Inl BufferOverflow"
  proof -
    have d: "c_fileend ?c' - c_offset ?c' = - 1" by simp
    have "length rest < unat (- 1 :: u64)" using assms(12) by (simp add: unsigned_minus_1_eq_mask mask_eq_exp_minus_1)
    then have "Fread (unat (min (of_int (- 1)) (- 1 :: u64))) (c_fd ?c') = ((c_fd ?c')\<lparr>fd_in := []\<rparr>, rest, int (length rest))"
      using assms(10) by (simp add: Fread_def moved_def)
    then have "read_file SKIP_BUFFER ?c' (of_int (- 1)) = Inl BufferOverflow"
      unfolding read_file_def d Let_def using assms(11) by simp
    moreover have "c_fileend ?c' \<noteq> c_offset ?c'" by simp
    moreover have "sint (- 1 :: u64) = - 1" by simp
    ultimately show ?thesis using skip_file_unfold [of ?c' "- 1"] by (simp only: d) simp
  qed
  then have "rpmcpioHeaderRead ?c' = Inl BufferOverflow" using assms(1) by (simp add: rpmcpioHeaderRead_def)
  ultimately show ?thesis by blast
qed

theorem cpio_negative_size_witness:
  "\<exists>c c'. rpmcpioHeaderRead c = Inr (c', 0, Some ''x'', None) \<and> rpmcpioHeaderRead c' = Inl BufferOverflow"
proof -
  let ?hdr = "replicate 48 CHR ''0'' @ ''      -1'' @ replicate 32 CHR ''0'' @ SET_NUM_FIELD 2 @ ''00000000''"
  let ?rest = "replicate 70000 CHR ''A''"
  let ?c = "\<lparr>c_fd = \<lparr>fd_in = framed 0 ?hdr ''x'' @ ?rest, fd_fail = False, fd_out = [], fd_room = 0\<rparr>,
      c_mode = O_RDONLY, c_offset = 0, c_fileend = 0\<rparr>"
  have "GET_NUM_FIELD (SET_NUM_FIELD 2) = Some 2" by (rule GET_SET_NUM_FIELD) simp
  then have "GET_NUM_FIELD (take 8 (drop 88 ?hdr)) = Some (of_nat (length ''x'' + 1))" by simp
  moreover have "take 8 (drop 48 ?hdr) = ''      -1''" "length ?hdr = 104" "''x'' \<noteq> CPIO_TRAILER" by (simp_all add: CPIO_TRAILER_def)
  ultimately show ?thesis
    using cpio_negative_size [of ?c ?hdr "''x''" ?rest] by (simp only: length_replicate rpmcpio.simps FD.simps) fastforce
qed

text \<open>A number with more than 8 digits loses its last digits when it is written.\<close>

lemma SET_NUM_FIELD_cut: "SET_NUM_FIELD 0x123456789 = ''12345678''"
  by (simp add: SET_NUM_FIELD_def Let_def hex_str.simps hex_digits_def nth_Cons')

end
