(* ===== verification/Order.thy ===== *)
theory Order
  imports Richdep
begin

text \<open>
  The order of a transaction, lib/order.cc: relations between the elements, strongly connected components by
  Tarjan's algorithm, and the topological sort with its queues. The sorting information of element \<open>i\<close> is
  entry \<open>i\<close> of a list, a pointer to it is \<open>i\<close>. A queue, which the source links through \<open>tsi_suc\<close>, is the
  list of its elements; a forward list is a list with its front first, the stack of nodes a list with its top
  first. A failed assertion is an error value. The search for a provider (lib/rpmal.cc) is a parameter, and
  log messages are left out. Loops that need an argument to end are partial functions: \<open>None\<close> is a loop
  that does not end.
\<close>

datatype order_error = AssertFail

record relation =
  rel_suc :: nat
  rel_flags :: rpmsenseFlags

record tsortInfo =
  tsi_count :: int
  tsi_qcnt :: int
  tsi_reqx :: int
  tsi_relations :: "relation list"
  tsi_forward_relations :: "relation list"
  tsi_SccIdx :: int
  tsi_SccLowlink :: int
  tsi_parent :: "nat option"

record rpmte =
  te_type :: u32
  te_color :: u32
  te_deps :: "rpmTagVal \<Rightarrow> rpmds option"

abbreviation TR_ADDED :: u32 where "TR_ADDED \<equiv> 1"
abbreviation TR_REMOVED :: u32 where "TR_REMOVED \<equiv> 2"
abbreviation TR_RESTORED :: u32 where "TR_RESTORED \<equiv> 8"

definition new_tsi :: tsortInfo where
  "new_tsi = \<lparr>tsi_count = 0, tsi_qcnt = 0, tsi_reqx = 0, tsi_relations = [], tsi_forward_relations = [],
     tsi_SccIdx = 0, tsi_SccLowlink = 0, tsi_parent = None\<rparr>"

definition upd :: "nat \<Rightarrow> (tsortInfo \<Rightarrow> tsortInfo) \<Rightarrow> tsortInfo list \<Rightarrow> tsortInfo list" where
  "upd i f ns = ns[i := f (ns ! i)]"

subsection \<open>Relations\<close>

text \<open>The flags of the first relation to a node; \<open>None\<close> if there is none.\<close>

fun or_flags :: "nat \<Rightarrow> rpmsenseFlags \<Rightarrow> relation list \<Rightarrow> relation list option" where
  "or_flags n flags [] = None"
| "or_flags n flags (r # rs) =
     (if rel_suc r = n then Some (r\<lparr>rel_flags := rel_flags r OR flags\<rparr> # rs) else map_option ((#) r) (or_flags n flags rs))"

definition at_front :: "nat \<Rightarrow> relation list \<Rightarrow> bool" where
  "at_front n rs \<longleftrightarrow> rs \<noteq> [] \<and> rel_suc (hd rs) = n"

text \<open>The flags of a relation; \<open>None\<close> where a weak dependency is ignored.\<close>

definition relation_flags :: "u32 \<Rightarrow> rpmds \<Rightarrow> rpmsenseFlags option" where
  "relation_flags teType dep =
     (let dsflags = rpmdsFlags (Some dep);
          flags = (if teType = TR_REMOVED then isErasePreReq dsflags else isInstallPreReq dsflags);
          flags = (if isLegacyPreReq dsflags
                   then flags OR (if teType = TR_ADDED then RPMSENSE_SCRIPT_PRE else RPMSENSE_SCRIPT_PREUN) else flags) in
      if rpmdsIsWeak (Some dep) \<and> rpmdsTagN (Some dep) \<noteq> RPMTAG_ORDERNAME
      then if flags \<noteq> 0 then Some 0 else None
      else Some flags)"

definition addSingleRelation ::
    "rpmte list \<Rightarrow> nat \<Rightarrow> nat option \<Rightarrow> rpmds \<Rightarrow> tsortInfo list \<Rightarrow> order_error + tsortInfo list" where
  "addSingleRelation tes p q dep ns =
     (case q of None \<Rightarrow> Inr ns
      | Some q \<Rightarrow>
          if q = p then Inr ns
          else
            let teType = te_type (tes ! p); reversed = (rpmdsIsReverse (Some dep) \<noteq> (teType = TR_REMOVED)) in
            case relation_flags teType dep of None \<Rightarrow> Inr ns
            | Some flags \<Rightarrow>
                let (p, q) = (if reversed then (q, p) else (p, q)) in
                if \<not> reversed \<and> at_front p (tsi_relations (ns ! q)) then
                  (case or_flags q flags (tsi_forward_relations (ns ! p)) of
                     None \<Rightarrow> Inl AssertFail
                   | Some fwd \<Rightarrow>
                       Inr (upd p (\<lambda>n. n\<lparr>tsi_forward_relations := fwd\<rparr>)
                         (upd q (\<lambda>n. n\<lparr>tsi_relations := the (or_flags p flags (tsi_relations n))\<rparr>) ns)))
                else if reversed \<and> at_front p (tsi_forward_relations (ns ! q)) then
                  (case or_flags q flags (tsi_relations (ns ! p)) of
                     None \<Rightarrow> Inl AssertFail
                   | Some rels \<Rightarrow>
                       Inr (upd p (\<lambda>n. n\<lparr>tsi_relations := rels\<rparr>)
                         (upd q (\<lambda>n. n\<lparr>tsi_forward_relations := the (or_flags p flags (tsi_forward_relations n))\<rparr>) ns)))
                else
                  Inr (upd p (\<lambda>n. n\<lparr>tsi_count := tsi_count n + 1,
                          tsi_forward_relations := \<lparr>rel_suc = q, rel_flags = flags\<rparr> # tsi_forward_relations n\<rparr>)
                    (upd q (\<lambda>n. n\<lparr>tsi_qcnt := tsi_qcnt n + 1,
                          tsi_relations := \<lparr>rel_suc = p, rel_flags = flags\<rparr> # tsi_relations n\<rparr>) ns)))"

text \<open>A provider in the packages that are added or in those that are erased, by the type of the element.\<close>

type_synonym provider = "pools \<Rightarrow> nat \<Rightarrow> rpmds \<Rightarrow> nat option"

type_synonym rel_state = "pools \<times> tsortInfo list"

definition rel_bind :: "(order_error + 'a) option \<Rightarrow> ('a \<Rightarrow> (order_error + 'b) option) \<Rightarrow> (order_error + 'b) option" where
  "rel_bind r f = Option.bind r (\<lambda>x. case x of Inl e \<Rightarrow> Some (Inl e) | Inr a \<Rightarrow> f a)"

lemma rel_bind_mono [partial_function_mono]:
  assumes "mono_option B" "\<And>y. mono_option (\<lambda>f. C y f)"
  shows "mono_option (\<lambda>f. rel_bind (B f) (\<lambda>y. C y f))"
  unfolding rel_bind_def
proof (rule bind_mono [OF assms(1)])
  show "mono_option (\<lambda>f. case y of Inl e \<Rightarrow> Some (Inl e) | Inr a \<Rightarrow> C a f)" for y
    by (cases y) (simp_all add: assms(2) option.const_mono)
qed

text \<open>The branch for an alternative parses the dependency itself a second time.\<close>

partial_function (option) addRelation ::
    "rpmte list \<Rightarrow> provider \<Rightarrow> nat \<Rightarrow> rpmds \<Rightarrow> rel_state \<Rightarrow> (order_error + rel_state) option" where
  "addRelation tes satisfies p dep st =
     (let (pools, ns) = st in
      if isUnorderedReq (rpmdsFlags (Some dep)) then Some (Inr st)
      else if rpmdsIsRich pools (Some dep) then
        (case rpmdsParseRichDep pools dep of
           Inl _ \<Rightarrow> Some (Inr st)
         | Inr (pools, ds1, ds2, op) \<Rightarrow>
             rel_bind (if op \<noteq> RPMRICHOP_ELSE \<and> ds1 \<noteq> None then addRelation tes satisfies p (the ds1) (pools, ns)
                       else Some (Inr (pools, ns))) (\<lambda>(pools, ns).
             rel_bind (if op = RPMRICHOP_IF \<or> op = RPMRICHOP_UNLESS then
                 (case rpmdsParseRichDep pools dep of
                    Inr (pools, ds21, ds22, op2) \<Rightarrow>
                      if op2 = RPMRICHOP_ELSE \<and> ds22 \<noteq> None then addRelation tes satisfies p (the ds22) (pools, ns)
                      else Some (Inr (pools, ns))
                  | Inl _ \<Rightarrow> Some (Inr (pools, ns)))
               else Some (Inr (pools, ns))) (\<lambda>(pools, ns).
             if (op = RPMRICHOP_AND \<or> op = RPMRICHOP_OR) \<and> ds2 \<noteq> None
             then addRelation tes satisfies p (the ds2) (pools, ns)
             else Some (Inr (pools, ns)))))
      else
        (case addSingleRelation tes p (satisfies pools p dep) dep ns of
           Inl e \<Rightarrow> Some (Inl e)
         | Inr ns \<Rightarrow> Some (Inr (pools, ns))))"

text \<open>The dependencies of one element for the tags that matter for the order: \<open>rpmdsNext\<close> walks over the entries
  of each set.\<close>

definition order_tags :: "rpmTagVal list" where
  "order_tags = [RPMTAG_REQUIRENAME, RPMTAG_RECOMMENDNAME, RPMTAG_SUGGESTNAME, RPMTAG_SUPPLEMENTNAME,
     RPMTAG_ENHANCENAME, RPMTAG_ORDERNAME]"

definition ds_entries :: "rpmds option \<Rightarrow> rpmds list" where
  "ds_entries dsp =
     (case rpmdsInit dsp of None \<Rightarrow> []
      | Some ds \<Rightarrow> map (\<lambda>i. ds\<lparr>ds_i := int i\<rparr>) [0..<nat (ds_Count ds)])"

fun add_all :: "rpmte list \<Rightarrow> provider \<Rightarrow> (nat \<times> rpmds) list \<Rightarrow> rel_state \<Rightarrow> (order_error + rel_state) option" where
  "add_all tes satisfies [] st = Some (Inr st)"
| "add_all tes satisfies ((p, dep) # ds) st = rel_bind (addRelation tes satisfies p dep st) (add_all tes satisfies ds)"

definition element_deps :: "rpmte list \<Rightarrow> (nat \<times> rpmds) list" where
  "element_deps tes =
     concat (map (\<lambda>p. concat (map (\<lambda>tag. map (Pair p) (ds_entries (te_deps (tes ! p) tag))) order_tags)) [0..<length tes])"

subsection \<open>Strongly connected components\<close>

record scc =
  scc_count :: int
  scc_members :: "nat list"

record scc_state =
  ss_nodes :: "tsortInfo list"
  ss_index :: int
  ss_stack :: "nat list"
  ss_cnt :: nat
  ss_sccs :: "scc list"

abbreviation set_scc :: "int \<Rightarrow> tsortInfo \<Rightarrow> tsortInfo" where
  "set_scc i \<equiv> \<lambda>n. n\<lparr>tsi_SccIdx := i\<rparr>"

abbreviation set_low :: "int \<Rightarrow> tsortInfo \<Rightarrow> tsortInfo" where
  "set_low i \<equiv> \<lambda>n. n\<lparr>tsi_SccLowlink := i\<rparr>"

abbreviation "scc_of ns v \<equiv> tsi_SccIdx (ns ! v)"
abbreviation "low_of ns v \<equiv> tsi_SccLowlink (ns ! v)"

text \<open>The number of external requirements of a component, once its members are marked.\<close>

definition member_count :: "tsortInfo list \<Rightarrow> int \<Rightarrow> nat \<Rightarrow> int" where
  "member_count ns k v =
     tsi_count (ns ! v) - int (length (filter (\<lambda>r. rel_suc r \<noteq> v \<and> scc_of ns (rel_suc r) = k) (tsi_relations (ns ! v))))"

definition pop_scc :: "nat \<Rightarrow> scc_state \<Rightarrow> scc_state" where
  "pop_scc v st =
     (if hd (ss_stack st) = v then
        st\<lparr>ss_nodes := upd v (set_scc 1) (ss_nodes st), ss_stack := tl (ss_stack st)\<rparr>
      else
        let members = takeWhile (\<lambda>w. w \<noteq> v) (ss_stack st) @ [v]; k = ss_cnt st;
            ns = foldl (\<lambda>ns w. upd w (set_scc (int k)) ns) (ss_nodes st) members;
            c = ss_sccs st ! k;
            c = \<lparr>scc_count = scc_count c + sum_list (map (member_count ns (int k)) members),
                 scc_members = scc_members c @ members\<rparr>
        in st\<lparr>ss_nodes := ns, ss_stack := tl (dropWhile (\<lambda>w. w \<noteq> v) (ss_stack st)),
              ss_cnt := k + 1, ss_sccs := (ss_sccs st)[k := c]\<rparr>)"

text \<open>The depth of the recursion is bounded by \<open>fuel\<close>; the number of nodes is always enough.\<close>

fun tarjan :: "nat \<Rightarrow> nat \<Rightarrow> scc_state \<Rightarrow> scc_state option"
  and tarjan_rels :: "nat \<Rightarrow> nat \<Rightarrow> relation list \<Rightarrow> scc_state \<Rightarrow> scc_state option" where
  "tarjan 0 v st = None"
| "tarjan (Suc fuel) v st =
     (let i = ss_index st - 1;
          st = st\<lparr>ss_index := i, ss_nodes := upd v (\<lambda>n. n\<lparr>tsi_SccIdx := i, tsi_SccLowlink := i\<rparr>) (ss_nodes st),
                  ss_stack := v # ss_stack st\<rparr> in
      map_option (\<lambda>st. if low_of (ss_nodes st) v = scc_of (ss_nodes st) v then pop_scc v st else st)
        (tarjan_rels fuel v (tsi_relations (ss_nodes st ! v)) st))"
| "tarjan_rels fuel v [] st = Some st"
| "tarjan_rels fuel v (r # rs) st =
     (let q = rel_suc r in
      if scc_of (ss_nodes st) q > 0 then tarjan_rels fuel v rs st
      else if scc_of (ss_nodes st) q = 0 then
        Option.bind (tarjan fuel q st) (\<lambda>st.
          tarjan_rels fuel v rs
            (st\<lparr>ss_nodes := upd v (set_low (max (low_of (ss_nodes st) v) (low_of (ss_nodes st) q))) (ss_nodes st)\<rparr>))
      else
        tarjan_rels fuel v rs
          (st\<lparr>ss_nodes := upd v (set_low (max (low_of (ss_nodes st) v) (scc_of (ss_nodes st) q))) (ss_nodes st)\<rparr>))"

fun detect_loop :: "nat list \<Rightarrow> scc_state \<Rightarrow> scc_state option" where
  "detect_loop [] st = Some st"
| "detect_loop (v # vs) st =
     (if scc_of (ss_nodes st) v = 0
      then Option.bind (tarjan (length (ss_nodes st)) v st) (detect_loop vs) else detect_loop vs st)"

definition detectSCCs :: "tsortInfo list \<Rightarrow> scc_state option" where
  "detectSCCs ns =
     detect_loop [0..<length ns]
       \<lparr>ss_nodes = ns, ss_index = 0, ss_stack = [], ss_cnt = 2,
        ss_sccs = replicate (length ns + 3) \<lparr>scc_count = 0, scc_members = []\<rparr>\<rparr>"

subsection \<open>Collecting\<close>

fun q_insert :: "(nat \<Rightarrow> bool) \<Rightarrow> nat \<Rightarrow> nat list \<Rightarrow> nat list" where
  "q_insert stop p [] = [p]"
| "q_insert stop p (q # qs) = (if stop q then p # q # qs else q # q_insert stop p qs)"

definition addQ :: "rpmte list \<Rightarrow> u32 \<Rightarrow> tsortInfo list \<Rightarrow> nat \<Rightarrow> nat list \<Rightarrow> nat list" where
  "addQ tes prefcolor ns p queue =
     (let pcolor = te_color (tes ! p);
          tailcond = (if te_type (tes ! p) = TR_ADDED then pcolor \<noteq> 0 \<and> pcolor \<noteq> prefcolor
                      else pcolor \<noteq> 0 \<and> pcolor = prefcolor)
      in q_insert (\<lambda>q. \<not> (tailcond \<and> pcolor \<noteq> te_color (tes ! q)) \<and> tsi_qcnt (ns ! q) \<le> tsi_qcnt (ns ! p)) p queue)"

text \<open>The state of the sort. \<open>cs_outer\<close> is the outer queue while a component is collected.\<close>

record collect_state =
  cs_nodes :: "tsortInfo list"
  cs_sccs :: "scc list"
  cs_order :: "nat list"
  cs_queue :: "nat list"
  cs_outer :: "nat list option"

definition enqueue :: "rpmte list \<Rightarrow> u32 \<Rightarrow> nat \<Rightarrow> collect_state \<Rightarrow> collect_state" where
  "enqueue tes prefcolor p st =
     st\<lparr>cs_nodes := upd p (\<lambda>n. n\<lparr>tsi_reqx := 1\<rparr>) (cs_nodes st), cs_queue := addQ tes prefcolor (cs_nodes st) p (cs_queue st)\<rparr>"

definition enqueue_outer :: "rpmte list \<Rightarrow> u32 \<Rightarrow> nat \<Rightarrow> collect_state \<Rightarrow> collect_state" where
  "enqueue_outer tes prefcolor p st =
     st\<lparr>cs_nodes := upd p (\<lambda>n. n\<lparr>tsi_reqx := 1\<rparr>) (cs_nodes st),
        cs_outer := map_option (addQ tes prefcolor (cs_nodes st) p) (cs_outer st)\<rparr>"

text \<open>One relation of a collected element: \<open>p\<close> has one requirement less, and so has its component.\<close>

definition release_node :: "rpmte list \<Rightarrow> u32 \<Rightarrow> nat \<Rightarrow> nat \<Rightarrow> collect_state \<Rightarrow> order_error + collect_state" where
  "release_node tes prefcolor q p st =
     (let ns = upd p (\<lambda>n. n\<lparr>tsi_count := tsi_count n - 1\<rparr>) (cs_nodes st); st = st\<lparr>cs_nodes := ns\<rparr> in
      if tsi_count (ns ! p) = 0 then
        let st = st\<lparr>cs_nodes := upd p (\<lambda>n. n\<lparr>tsi_parent := Some q\<rparr>) ns\<rparr> in
        if scc_of ns q > 1 \<and> scc_of ns q \<noteq> scc_of ns p
        then if cs_outer st = None then Inl AssertFail else Inr (enqueue_outer tes prefcolor p st)
        else Inr (enqueue tes prefcolor p st)
      else Inr st)"

definition release_scc :: "rpmte list \<Rightarrow> u32 \<Rightarrow> nat \<Rightarrow> nat \<Rightarrow> collect_state \<Rightarrow> collect_state" where
  "release_scc tes prefcolor q p st =
     (let k = scc_of (cs_nodes st) p in
      if k > 1 \<and> k \<noteq> scc_of (cs_nodes st) q then
        let c = cs_sccs st ! nat k; c = c\<lparr>scc_count := scc_count c - 1\<rparr>; st = st\<lparr>cs_sccs := (cs_sccs st)[nat k := c]\<rparr> in
        if scc_count c = 0 then
          let st = st\<lparr>cs_nodes := upd p (\<lambda>n. n\<lparr>tsi_parent := Some q\<rparr>) (cs_nodes st)\<rparr> in
          if cs_outer st \<noteq> None then enqueue_outer tes prefcolor p st else enqueue tes prefcolor p st
        else st
      else st)"

fun erase_relations :: "rpmte list \<Rightarrow> u32 \<Rightarrow> nat \<Rightarrow> relation list \<Rightarrow> collect_state \<Rightarrow> order_error + collect_state" where
  "erase_relations tes prefcolor q [] st = Inr st"
| "erase_relations tes prefcolor q (r # rs) st =
     (let p = rel_suc r in
      if scc_of (cs_nodes st) p = 0 \<or> p = q then erase_relations tes prefcolor q rs st
      else rbind (release_node tes prefcolor q p st) (\<lambda>st.
        erase_relations tes prefcolor q rs (release_scc tes prefcolor q p st)))"

text \<open>The queue of the state is the one behind \<open>q\<close>.\<close>

definition collectTE :: "rpmte list \<Rightarrow> u32 \<Rightarrow> nat \<Rightarrow> collect_state \<Rightarrow> order_error + collect_state" where
  "collectTE tes prefcolor q st =
     rbind (erase_relations tes prefcolor q (tsi_relations (cs_nodes st ! q)) (st\<lparr>cs_order := cs_order st @ [q]\<rparr>)) (\<lambda>st.
       Inr (st\<lparr>cs_nodes := upd q (set_scc 0) (cs_nodes st)\<rparr>))"

abbreviation INT_MAX :: int where "INT_MAX \<equiv> 0x7fffffff"

text \<open>The starting points: the members that are required by a script of another member.\<close>

fun dijkstra_start :: "int \<Rightarrow> nat list \<Rightarrow> tsortInfo list \<Rightarrow> nat list \<Rightarrow> tsortInfo list \<times> nat list" where
  "dijkstra_start k [] ns queue = (ns, queue)"
| "dijkstra_start k (v # vs) ns queue =
     (case filter (\<lambda>r. rel_flags r \<noteq> 0 \<and> scc_of ns (rel_suc r) = k) (tsi_forward_relations (ns ! v)) of
        [] \<Rightarrow> dijkstra_start k vs (upd v (set_low INT_MAX) ns) queue
      | r # _ \<Rightarrow>
          if rel_suc r \<noteq> v then dijkstra_start k vs (upd v (set_low 0) ns) (queue @ [v])
          else dijkstra_start k vs (upd v (set_low (INT_MAX div 2)) ns) queue)"

fun relax :: "int \<Rightarrow> nat \<Rightarrow> relation list \<Rightarrow> tsortInfo list \<Rightarrow> nat list \<Rightarrow> tsortInfo list \<times> nat list" where
  "relax k v [] ns queue = (ns, queue)"
| "relax k v (r # rs) ns queue =
     (let w = rel_suc r in
      if scc_of ns w \<noteq> k then relax k v rs ns queue
      else if low_of ns w > low_of ns v + 1
      then relax k v rs (upd w (set_low (low_of ns v + 1)) ns) (queue @ [w])
      else relax k v rs ns queue)"

partial_function (option) dijkstra_loop :: "int \<Rightarrow> tsortInfo list \<Rightarrow> nat list \<Rightarrow> tsortInfo list option" where
  "dijkstra_loop k ns queue =
     (case queue of [] \<Rightarrow> Some ns
      | v # queue \<Rightarrow>
          let (ns, queue) = relax k v (tsi_forward_relations (ns ! v)) ns queue in dijkstra_loop k ns queue)"

definition dijkstra :: "int \<Rightarrow> nat list \<Rightarrow> tsortInfo list \<Rightarrow> tsortInfo list option" where
  "dijkstra k members ns =
     (let (ns, queue) = dijkstra_start k members ns [];
          queue = (if queue = [] then filter (\<lambda>v. low_of ns v \<noteq> INT_MAX) members else queue)
      in dijkstra_loop k ns queue)"

fun best_candidate :: "tsortInfo list \<Rightarrow> nat list \<Rightarrow> nat option \<Rightarrow> int \<Rightarrow> nat option" where
  "best_candidate ns [] best score = best"
| "best_candidate ns (v # vs) best score =
     (if scc_of ns v \<noteq> 0 \<and> low_of ns v \<ge> score then best_candidate ns vs (Some v) (low_of ns v)
      else best_candidate ns vs best score)"

text \<open>The inner queue, up to its end.\<close>

partial_function (option) inner_loop :: "rpmte list \<Rightarrow> u32 \<Rightarrow> collect_state \<Rightarrow> (order_error + collect_state) option" where
  "inner_loop tes prefcolor st =
     (case cs_queue st of [] \<Rightarrow> Some (Inr st)
      | v # queue \<Rightarrow>
          (case collectTE tes prefcolor v (st\<lparr>cs_nodes := upd v (\<lambda>n. n\<lparr>tsi_reqx := 0\<rparr>) (cs_nodes st), cs_queue := queue\<rparr>) of
             Inl e \<Rightarrow> Some (Inl e)
           | Inr st \<Rightarrow> inner_loop tes prefcolor st))"

partial_function (option) scc_loop ::
    "rpmte list \<Rightarrow> u32 \<Rightarrow> nat list \<Rightarrow> collect_state \<Rightarrow> (order_error + collect_state) option" where
  "scc_loop tes prefcolor members st =
     (case best_candidate (cs_nodes st) members None 0 of None \<Rightarrow> Some (Inr st)
      | Some best \<Rightarrow>
          rel_bind (inner_loop tes prefcolor (enqueue tes prefcolor best (st\<lparr>cs_queue := []\<rparr>)))
            (scc_loop tes prefcolor members))"

text \<open>The queue of the state is the outer queue behind \<open>p\<close>.\<close>

definition collectSCC :: "rpmte list \<Rightarrow> u32 \<Rightarrow> nat \<Rightarrow> collect_state \<Rightarrow> (order_error + collect_state) option" where
  "collectSCC tes prefcolor p st =
     (let k = scc_of (cs_nodes st) p; members = scc_members (cs_sccs st ! nat k) in
      Option.bind (dijkstra k members (cs_nodes st)) (\<lambda>ns.
        rel_bind (scc_loop tes prefcolor members (st\<lparr>cs_nodes := ns, cs_queue := [], cs_outer := Some (cs_queue st)\<rparr>)) (\<lambda>st.
          Some (Inr (st\<lparr>cs_queue := the (cs_outer st), cs_outer := None\<rparr>)))))"

partial_function (option) main_loop :: "rpmte list \<Rightarrow> u32 \<Rightarrow> collect_state \<Rightarrow> (order_error + collect_state) option" where
  "main_loop tes prefcolor st =
     (case cs_queue st of [] \<Rightarrow> Some (Inr st)
      | q # queue \<Rightarrow>
          let st = st\<lparr>cs_nodes := upd q (\<lambda>n. n\<lparr>tsi_reqx := 0\<rparr>) (cs_nodes st), cs_queue := queue\<rparr> in
          if scc_of (cs_nodes st) q > 1
          then rel_bind (collectSCC tes prefcolor q st) (main_loop tes prefcolor)
          else
            (case collectTE tes prefcolor q st of
               Inl e \<Rightarrow> Some (Inl e)
             | Inr st \<Rightarrow> main_loop tes prefcolor st))"

subsection \<open>The order of a transaction\<close>

definition zero_elements :: "rpmte list \<Rightarrow> u32 \<Rightarrow> tsortInfo list \<Rightarrow> nat list" where
  "zero_elements tes oType ns = filter (\<lambda>e. te_type (tes ! e) = oType \<and> tsi_count (ns ! e) = 0) [0..<length tes]"

definition leaf_sccs :: "rpmte list \<Rightarrow> u32 \<Rightarrow> scc list \<Rightarrow> nat list" where
  "leaf_sccs tes oType sccs =
     map (\<lambda>c. hd (scc_members c))
       (filter (\<lambda>c. scc_count c = 0 \<and> te_type (tes ! hd (scc_members c)) = oType)
         (takeWhile (\<lambda>c. scc_members c \<noteq> []) (drop 2 sccs)))"

definition one_run :: "rpmte list \<Rightarrow> u32 \<Rightarrow> u32 \<Rightarrow> collect_state \<Rightarrow> (order_error + collect_state) option" where
  "one_run tes prefcolor oType st =
     (let st = foldl (\<lambda>st e. enqueue tes prefcolor e st) (st\<lparr>cs_queue := []\<rparr>)
          (zero_elements tes oType (cs_nodes st) @ leaf_sccs tes oType (cs_sccs st))
      in main_loop tes prefcolor st)"

text \<open>Restored elements come first, then the installs and then the erasures. The last check is the assertion that
  no element is lost or doubled.\<close>

definition sort_elements :: "rpmte list \<Rightarrow> u32 \<Rightarrow> tsortInfo list \<Rightarrow> (order_error + nat list) option" where
  "sort_elements tes prefcolor ns =
     Option.bind (detectSCCs ns) (\<lambda>ss.
       let st = \<lparr>cs_nodes = ss_nodes ss, cs_sccs = ss_sccs ss,
                 cs_order = filter (\<lambda>e. te_type (tes ! e) = TR_RESTORED) [0..<length tes], cs_queue = [], cs_outer = None\<rparr> in
       rel_bind (one_run tes prefcolor TR_ADDED st) (\<lambda>st.
       rel_bind (one_run tes prefcolor TR_REMOVED st) (\<lambda>st.
       Some (if length (cs_order st) \<noteq> length tes then Inl AssertFail else Inr (cs_order st)))))"

definition rpmtsOrder :: "rpmte list \<Rightarrow> provider \<Rightarrow> u32 \<Rightarrow> pools \<Rightarrow> (order_error + nat list) option" where
  "rpmtsOrder tes satisfies prefcolor pools =
     rel_bind (add_all tes satisfies (element_deps tes) (pools, replicate (length tes) new_tsi)) (\<lambda>(pools, ns).
       sort_elements tes prefcolor ns)"

declare addRelation.simps [code] dijkstra_loop.simps [code] inner_loop.simps [code] scc_loop.simps [code] main_loop.simps [code]

end
