(* ===== verification/Order_Relations.thy ===== *)
theory Order_Relations
  imports Order
begin

text \<open>
  The graph that lib/order.cc records. The two lists of every pair of elements agree, entry by entry and flag by
  flag, the two counters are the lengths of the lists, no element has a relation to itself: recording keeps this, so
  that its assertions never fail. The search for a relation that is there already looks in the wrong direction when
  the relation is reversed, as it is for every requirement of an erased package: a mutual requirement is recorded in
  one direction only.
\<close>

lemma length_upd [simp]: "length (upd i f ns) = length ns"
  by (simp add: upd_def)

lemma nth_upd: "j < length ns \<Longrightarrow> upd i f ns ! j = (if i = j then f (ns ! j) else ns ! j)"
  by (auto simp: upd_def nth_list_update)

lemma upd_id: "f (ns ! i) = ns ! i \<Longrightarrow> upd i f ns = ns"
  by (simp add: upd_def)

lemma rel_bind_simps [simp]:
  "rel_bind None f = None" "rel_bind (Some (Inl e)) f = Some (Inl e)" "rel_bind (Some (Inr a)) f = f a"
  by (simp_all add: rel_bind_def)

lemma rel_bind_inv:
  assumes "\<And>y. r = Some y \<Longrightarrow> \<exists>x. y = Inr x \<and> P x" "\<And>x z. P x \<Longrightarrow> f x = Some z \<Longrightarrow> \<exists>u. z = Inr u \<and> Q u"
    and "rel_bind r f = Some z"
  shows "\<exists>u. z = Inr u \<and> Q u"
proof (cases r)
  case None
  with assms(3) show ?thesis by simp
next
  case (Some y)
  with assms(1) obtain x where "y = Inr x" "P x" by blast
  with assms(2, 3) Some show ?thesis by simp
qed

subsection \<open>The invariant of the graph\<close>

text \<open>The flags of the relations to one element, in the order of the list.\<close>

definition flags_to :: "nat \<Rightarrow> relation list \<Rightarrow> rpmsenseFlags list" where
  "flags_to n rs = map rel_flags (filter (\<lambda>r. rel_suc r = n) rs)"

definition links_ok :: "nat \<Rightarrow> nat \<Rightarrow> relation list \<Rightarrow> bool" where
  "links_ok n p rs \<longleftrightarrow> (\<forall>r \<in> set rs. rel_suc r < n \<and> rel_suc r \<noteq> p)"

definition node_ok :: "nat \<Rightarrow> nat \<Rightarrow> tsortInfo \<Rightarrow> bool" where
  "node_ok n p t \<longleftrightarrow>
     tsi_count t = int (length (tsi_forward_relations t)) \<and> tsi_qcnt t = int (length (tsi_relations t)) \<and>
     links_ok n p (tsi_forward_relations t) \<and> links_ok n p (tsi_relations t) \<and> tsi_SccIdx t = 0"

definition mirrored :: "tsortInfo list \<Rightarrow> bool" where
  "mirrored ns \<longleftrightarrow>
     (\<forall>p < length ns. \<forall>q < length ns. flags_to q (tsi_forward_relations (ns ! p)) = flags_to p (tsi_relations (ns ! q)))"

definition graph_ok :: "tsortInfo list \<Rightarrow> bool" where
  "graph_ok ns \<longleftrightarrow> (\<forall>p < length ns. node_ok (length ns) p (ns ! p)) \<and> mirrored ns"

text \<open>\<open>p\<close> has a recorded requirement on \<open>q\<close>.\<close>

definition requires :: "tsortInfo list \<Rightarrow> nat \<Rightarrow> nat \<Rightarrow> bool" where
  "requires ns p q \<longleftrightarrow> p < length ns \<and> q \<in> rel_suc ` set (tsi_forward_relations (ns ! p))"

lemma flags_to_simps [simp]:
  "flags_to n [] = []"
  "flags_to n (r # rs) = (if rel_suc r = n then rel_flags r # flags_to n rs else flags_to n rs)"
  by (simp_all add: flags_to_def)

lemma flags_to_Nil: "flags_to n rs = [] \<longleftrightarrow> n \<notin> rel_suc ` set rs"
  by (auto simp: flags_to_def filter_empty_conv)

lemma requires_relations:
  "graph_ok ns \<Longrightarrow> p < length ns \<Longrightarrow> q < length ns \<Longrightarrow> requires ns p q \<longleftrightarrow> p \<in> rel_suc ` set (tsi_relations (ns ! q))"
  unfolding requires_def graph_ok_def mirrored_def by (metis flags_to_Nil)

lemma requires_less: "graph_ok ns \<Longrightarrow> requires ns p q \<Longrightarrow> p < length ns \<and> q < length ns \<and> p \<noteq> q"
  by (auto simp: requires_def graph_ok_def node_ok_def links_ok_def)

lemma graph_ok_new: "graph_ok (replicate n new_tsi)"
  by (simp add: graph_ok_def node_ok_def mirrored_def links_ok_def new_tsi_def)

lemma or_flags_Some:
  "flags_to n rs \<noteq> [] \<Longrightarrow> \<exists>rs'. or_flags n flags rs = Some rs'"
  by (induction rs) auto

lemma or_flags_flags:
  assumes "or_flags n flags rs = Some rs'"
  shows "length rs' = length rs" "map rel_suc rs' = map rel_suc rs"
    "flags_to m rs' = (if m = n then (hd (flags_to n rs) OR flags) # tl (flags_to n rs) else flags_to m rs)"
    "links_ok k p rs' = links_ok k p rs"
proof -
  show s: "map rel_suc rs' = map rel_suc rs" using assms by (induction rs arbitrary: rs') (auto split: if_splits)
  then show "length rs' = length rs" by (rule map_eq_imp_length_eq)
  show "flags_to m rs' = (if m = n then (hd (flags_to n rs) OR flags) # tl (flags_to n rs) else flags_to m rs)"
    using assms by (induction rs arbitrary: rs') (auto split: if_splits)
  have l: "links_ok k p xs \<longleftrightarrow> (\<forall>x \<in> set (map rel_suc xs). x < k \<and> x \<noteq> p)" for xs by (auto simp: links_ok_def)
  show "links_ok k p rs' = links_ok k p rs" unfolding l s ..
qed

text \<open>Two updates that change the lists of \<open>p\<close> and of \<open>q\<close> alike.\<close>

lemma graph_ok_upd2:
  assumes g: "graph_ok ns" and pq: "p < length ns" "q < length ns" "p \<noteq> q"
    and ok: "node_ok (length ns) p (f (ns ! p))" "node_ok (length ns) q (h (ns ! q))"
    and rel: "tsi_relations (f (ns ! p)) = tsi_relations (ns ! p)"
      "tsi_forward_relations (h (ns ! q)) = tsi_forward_relations (ns ! q)"
    and other: "\<And>m. m \<noteq> q \<Longrightarrow> flags_to m (tsi_forward_relations (f (ns ! p))) = flags_to m (tsi_forward_relations (ns ! p))"
      "\<And>m. m \<noteq> p \<Longrightarrow> flags_to m (tsi_relations (h (ns ! q))) = flags_to m (tsi_relations (ns ! q))"
    and same: "flags_to q (tsi_forward_relations (f (ns ! p))) = flags_to p (tsi_relations (h (ns ! q)))"
  shows "graph_ok (upd p f (upd q h ns))" "graph_ok (upd q h (upd p f ns))"
proof -
  have c: "upd q h (upd p f ns) = upd p f (upd q h ns)"
    using pq by (auto intro!: nth_equalityI simp: nth_upd)
  show "graph_ok (upd p f (upd q h ns))"
    using g pq ok rel other same by (auto simp: graph_ok_def mirrored_def nth_upd)
  with c show "graph_ok (upd q h (upd p f ns))" by simp
qed

definition or_edge :: "rpmsenseFlags \<Rightarrow> nat \<Rightarrow> nat \<Rightarrow> tsortInfo list \<Rightarrow> tsortInfo list" where
  "or_edge flags p q ns =
     upd p (\<lambda>n. n\<lparr>tsi_forward_relations := the (or_flags q flags (tsi_forward_relations n))\<rparr>)
       (upd q (\<lambda>n. n\<lparr>tsi_relations := the (or_flags p flags (tsi_relations n))\<rparr>) ns)"

definition new_edge :: "rpmsenseFlags \<Rightarrow> nat \<Rightarrow> nat \<Rightarrow> tsortInfo list \<Rightarrow> tsortInfo list" where
  "new_edge flags p q ns =
     upd p (\<lambda>n. n\<lparr>tsi_count := tsi_count n + 1,
             tsi_forward_relations := \<lparr>rel_suc = q, rel_flags = flags\<rparr> # tsi_forward_relations n\<rparr>)
       (upd q (\<lambda>n. n\<lparr>tsi_qcnt := tsi_qcnt n + 1,
             tsi_relations := \<lparr>rel_suc = p, rel_flags = flags\<rparr> # tsi_relations n\<rparr>) ns)"

lemma new_edge_graph_ok:
  assumes "graph_ok ns" "p < length ns" "q < length ns" "p \<noteq> q"
  shows "graph_ok (new_edge flags p q ns)"
  unfolding new_edge_def
proof (rule graph_ok_upd2(1) [OF assms])
  show "node_ok (length ns) p ((ns ! p)\<lparr>tsi_count := tsi_count (ns ! p) + 1, tsi_forward_relations :=
      \<lparr>rel_suc = q, rel_flags = flags\<rparr> # tsi_forward_relations (ns ! p)\<rparr>)"
    using assms by (simp add: graph_ok_def node_ok_def links_ok_def)
  show "node_ok (length ns) q ((ns ! q)\<lparr>tsi_qcnt := tsi_qcnt (ns ! q) + 1, tsi_relations :=
      \<lparr>rel_suc = p, rel_flags = flags\<rparr> # tsi_relations (ns ! q)\<rparr>)"
    using assms by (simp add: graph_ok_def node_ok_def links_ok_def)
qed (use assms in \<open>simp_all add: graph_ok_def mirrored_def\<close>)

lemma or_edge_graph_ok:
  assumes g: "graph_ok ns" and pq: "p < length ns" "q < length ns" "p \<noteq> q" and r: "requires ns p q"
  shows "graph_ok (or_edge flags p q ns)"
proof -
  from r have "flags_to q (tsi_forward_relations (ns ! p)) \<noteq> []" by (simp add: requires_def flags_to_Nil)
  moreover have m: "flags_to q (tsi_forward_relations (ns ! p)) = flags_to p (tsi_relations (ns ! q))"
    using g pq by (simp add: graph_ok_def mirrored_def)
  ultimately obtain fwd rels where f: "or_flags q flags (tsi_forward_relations (ns ! p)) = Some fwd"
    and h: "or_flags p flags (tsi_relations (ns ! q)) = Some rels" using or_flags_Some by metis
  show ?thesis unfolding or_edge_def
  proof (rule graph_ok_upd2(1) [OF g pq])
    show "node_ok (length ns) p ((ns ! p)\<lparr>tsi_forward_relations :=
        the (or_flags q flags (tsi_forward_relations (ns ! p)))\<rparr>)"
      "node_ok (length ns) q ((ns ! q)\<lparr>tsi_relations := the (or_flags p flags (tsi_relations (ns ! q)))\<rparr>)"
      using g pq f h by (simp_all add: graph_ok_def node_ok_def or_flags_flags [OF f] or_flags_flags [OF h])
  qed (use f h m in \<open>simp_all add: or_flags_flags [OF f] or_flags_flags [OF h]\<close>)
qed

subsection \<open>Recording\<close>

text \<open>What one call does, given the invariant: the test for a relation that is there already asks for the front of
  the list of relations of the required element, or, for a reversed relation, whether the required element has itself
  just been recorded as requiring the other one.\<close>

lemma addSingleRelation_cases:
  assumes g: "graph_ok ns" and pq: "p < length ns" "q < length ns" "p \<noteq> q"
    and fl: "relation_flags (te_type (tes ! p)) dep = Some flags"
    and rev: "reversed = (rpmdsIsReverse (Some dep) \<noteq> (te_type (tes ! p) = TR_REMOVED))"
  shows "addSingleRelation tes p (Some q) dep ns =
     Inr (if reversed
          then if at_front q (tsi_forward_relations (ns ! p)) then or_edge flags p q ns else new_edge flags q p ns
          else if at_front p (tsi_relations (ns ! q)) then or_edge flags p q ns else new_edge flags p q ns)"
proof -
  have m: "flags_to q (tsi_forward_relations (ns ! p)) = flags_to p (tsi_relations (ns ! q))"
    using g pq by (simp add: graph_ok_def mirrored_def)
  have swap: "upd q h (upd p f ns) = upd p f (upd q h ns)" for f h
    using pq by (auto intro!: nth_equalityI simp: nth_upd)
  have front: "at_front n rs \<Longrightarrow> flags_to n rs \<noteq> []" for n rs by (cases rs) (auto simp: at_front_def)
  consider (rf) "reversed" "at_front q (tsi_forward_relations (ns ! p))" | (rn) "reversed" "\<not> at_front q (tsi_forward_relations (ns ! p))"
    | (ff) "\<not> reversed" "at_front p (tsi_relations (ns ! q))" | (fn) "\<not> reversed" "\<not> at_front p (tsi_relations (ns ! q))"
    by blast
  then show ?thesis
  proof cases
    case rf
    with m front obtain rels where "or_flags p flags (tsi_relations (ns ! q)) = Some rels" using or_flags_Some by metis
    then show ?thesis using rf pq fl rev [symmetric] swap
      by (auto simp: addSingleRelation_def Let_def or_edge_def nth_upd upd_def)
  next
    case rn
    then show ?thesis using pq fl rev [symmetric] by (auto simp: addSingleRelation_def Let_def new_edge_def)
  next
    case ff
    with m front obtain fwd where "or_flags q flags (tsi_forward_relations (ns ! p)) = Some fwd" using or_flags_Some by metis
    then show ?thesis using ff pq fl rev [symmetric] by (auto simp: addSingleRelation_def Let_def or_edge_def nth_upd upd_def)
  next
    case fn
    then show ?thesis using pq fl rev [symmetric] by (auto simp: addSingleRelation_def Let_def new_edge_def)
  qed
qed

lemma length_or_edge [simp]: "length (or_edge flags p q ns) = length ns" "length (new_edge flags p q ns) = length ns"
  by (simp_all add: or_edge_def new_edge_def)

lemma requires_new_edge:
  "p < length ns \<Longrightarrow> q < length ns \<Longrightarrow> p \<noteq> q \<Longrightarrow> requires (new_edge flags p q ns) a b \<longleftrightarrow> requires ns a b \<or> (a = p \<and> b = q)"
  by (cases "a < length ns") (auto simp: requires_def new_edge_def nth_upd)

lemma requires_or_edge:
  assumes "graph_ok ns" "p < length ns" "q < length ns" "p \<noteq> q" "requires ns p q"
  shows "requires (or_edge flags p q ns) a b \<longleftrightarrow> requires ns a b"
proof -
  from assms(5) have "flags_to q (tsi_forward_relations (ns ! p)) \<noteq> []" by (simp add: requires_def flags_to_Nil)
  then obtain fwd where f: "or_flags q flags (tsi_forward_relations (ns ! p)) = Some fwd" using or_flags_Some by metis
  have "rel_suc ` set fwd = rel_suc ` set (tsi_forward_relations (ns ! p))"
    using or_flags_flags(2) [OF f] by (metis list.set_map)
  then show ?thesis using assms f by (cases "a < length ns") (auto simp: requires_def or_edge_def nth_upd)
qed

text \<open>Every relation is between two elements of which one is an answer of the search for a dependency, on behalf of the
  other.\<close>

definition from_deps :: "provider \<Rightarrow> tsortInfo list \<Rightarrow> bool" where
  "from_deps satisfies ns \<longleftrightarrow>
     (\<forall>a b. requires ns a b \<longrightarrow> (\<exists>pools dep. satisfies pools a dep = Some b \<or> satisfies pools b dep = Some a))"

definition recorded :: "nat \<Rightarrow> provider \<Rightarrow> tsortInfo list \<Rightarrow> bool" where
  "recorded n satisfies ns \<longleftrightarrow> length ns = n \<and> graph_ok ns \<and> from_deps satisfies ns"

definition provider_ok :: "nat \<Rightarrow> provider \<Rightarrow> bool" where
  "provider_ok n satisfies \<longleftrightarrow> (\<forall>pools p dep q. satisfies pools p dep = Some q \<longrightarrow> p < n \<and> q < n)"

lemma addSingleRelation_recorded:
  assumes rec: "recorded n satisfies ns" and ok: "provider_ok n satisfies"
  shows "\<exists>ns'. addSingleRelation tes p (satisfies pools p dep) dep ns = Inr ns' \<and> recorded n satisfies ns'"
proof (cases "satisfies pools p dep")
  case None
  then show ?thesis using rec by (simp add: addSingleRelation_def)
next
  case q: (Some q)
  show ?thesis
  proof (cases "q = p \<or> relation_flags (te_type (tes ! p)) dep = None")
    case True
    then show ?thesis using q rec by (auto simp: addSingleRelation_def Let_def)
  next
    case False
    then obtain flags where pq: "p \<noteq> q" and fl: "relation_flags (te_type (tes ! p)) dep = Some flags" by auto
    from rec have g: "graph_ok ns" and l: "length ns = n" and d: "from_deps satisfies ns" by (auto simp: recorded_def)
    from ok q l have in_range: "p < length ns" "q < length ns" unfolding provider_ok_def by blast+
    have front: "at_front p (tsi_relations (ns ! q)) \<Longrightarrow> requires ns p q"
      "at_front q (tsi_forward_relations (ns ! p)) \<Longrightarrow> requires ns p q"
      using requires_relations [OF g in_range] in_range unfolding requires_def at_front_def
      by (metis image_eqI list.set_sel(1))+
    have new: "recorded n satisfies (new_edge flags p q ns)" "recorded n satisfies (new_edge flags q p ns)"
      using d q l pq in_range new_edge_graph_ok [OF g in_range pq] new_edge_graph_ok [OF g in_range(2,1) pq [symmetric]]
      by (auto simp: recorded_def from_deps_def requires_new_edge)
    have old: "requires ns p q \<Longrightarrow> recorded n satisfies (or_edge flags p q ns)"
      using d l pq g in_range or_edge_graph_ok [OF g in_range pq]
      by (auto simp: recorded_def from_deps_def requires_or_edge)
    show ?thesis
      unfolding q addSingleRelation_cases [OF g in_range pq fl refl] using new old front by auto
  qed
qed

lemma addRelation_recorded:
  assumes "addRelation tes satisfies p dep st = Some r" "provider_ok n satisfies" "recorded n satisfies (snd st)"
  shows "\<exists>st'. r = Inr st' \<and> recorded n satisfies (snd st')"
  using assms
proof (induction rule: addRelation.raw_induct [rotated, consumes 1, case_names step])
  case (step addRel tes satisfies p dep st r)
  let ?Q = "\<lambda>st'. recorded n satisfies (snd st')"
  have IH: "\<exists>a b. z = Inr (a, b) \<and> recorded n satisfies b"
    if "addRel tes satisfies p d (pools, ns) = Some z" "recorded n satisfies ns" for d pools ns z
    using step.IH [OF that(1) step.prems(1)] that(2) by auto
  obtain pools ns where st: "st = (pools, ns)" by (cases st)
  with step.prems have ns: "recorded n satisfies ns" by simp
  show ?case
  proof (cases "\<not> isUnorderedReq (rpmdsFlags (Some dep)) \<and> rpmdsIsRich pools (Some dep) \<and> \<not> isl (rpmdsParseRichDep pools dep)")
    case True
    then obtain pools1 ds1 ds2 op where "rpmdsParseRichDep pools dep = Inr (pools1, ds1, ds2, op)"
      by (metis prod_cases4 sum.collapse(2))
    note h = step.hyps [unfolded st prod.case Let_def this, simplified True if_False if_True sum.case prod.case simp_thms]
    show ?thesis
    proof (rule rel_bind_inv [OF _ _ h, where P = ?Q])
      fix x z
      assume x: "?Q x" and z: "(case x of (pools, ns) \<Rightarrow> rel_bind (if op = RPMRICHOP_IF \<or> op = RPMRICHOP_UNLESS then
                 (case rpmdsParseRichDep pools dep of
                    Inr (pools, ds21, ds22, op2) \<Rightarrow>
                      if op2 = RPMRICHOP_ELSE \<and> ds22 \<noteq> None then addRel tes satisfies p (the ds22) (pools, ns)
                      else Some (Inr (pools, ns))
                  | Inl _ \<Rightarrow> Some (Inr (pools, ns)))
               else Some (Inr (pools, ns))) (\<lambda>(pools, ns).
             if (op = RPMRICHOP_AND \<or> op = RPMRICHOP_OR) \<and> ds2 \<noteq> None
             then addRel tes satisfies p (the ds2) (pools, ns)
             else Some (Inr (pools, ns)))) = Some z"
      obtain pools2 ns2 where x2: "x = (pools2, ns2)" by (cases x)
      show "\<exists>u. z = Inr u \<and> ?Q u"
        by (rule rel_bind_inv [OF _ _ z [unfolded x2 prod.case], where P = ?Q])
          (use x x2 in \<open>auto dest: IH split: if_splits sum.splits prod.splits\<close>)
    qed (use ns in \<open>auto dest: IH split: if_splits\<close>)
  next
    case False
    then show ?thesis using step.hyps st ns addSingleRelation_recorded [OF ns step.prems(1), of tes p pools dep]
      by (cases "rpmdsIsRich pools (Some dep)"; cases "rpmdsParseRichDep pools dep")
        (auto split: sum.splits if_splits)
  qed
qed

lemma addRelation_plain:
  assumes "\<not> rpmdsIsRich pools (Some dep)" "provider_ok n satisfies" "recorded n satisfies ns"
  shows "\<exists>ns'. addRelation tes satisfies p dep (pools, ns) = Some (Inr (pools, ns')) \<and> recorded n satisfies ns'"
  using assms addSingleRelation_recorded [OF assms(3,2), of tes p pools dep]
  by (subst addRelation.simps) auto

lemma add_all_recorded:
  "provider_ok n satisfies \<Longrightarrow> recorded n satisfies (snd st) \<Longrightarrow> add_all tes satisfies deps st = Some r \<Longrightarrow>
    \<exists>st'. r = Inr st' \<and> recorded n satisfies (snd st')"
proof (induction deps arbitrary: st r)
  case (Cons d deps)
  obtain p dep where d: "d = (p, dep)" by (cases d)
  show ?case
    by (rule rel_bind_inv [OF _ _ Cons.prems(3) [unfolded d add_all.simps], where P = "\<lambda>st'. recorded n satisfies (snd st')"])
      (use Cons addRelation_recorded in blast)+
qed auto

lemma add_all_plain:
  "provider_ok n satisfies \<Longrightarrow> recorded n satisfies ns \<Longrightarrow> \<forall>(p, dep) \<in> set deps. \<not> rpmdsIsRich pools (Some dep) \<Longrightarrow>
    \<exists>ns'. add_all tes satisfies deps (pools, ns) = Some (Inr (pools, ns')) \<and> recorded n satisfies ns'"
proof (induction deps arbitrary: ns)
  case (Cons d deps)
  obtain p dep where d: "d = (p, dep)" by (cases d)
  from Cons.prems d obtain ns1 where
    "addRelation tes satisfies p dep (pools, ns) = Some (Inr (pools, ns1))" "recorded n satisfies ns1"
    using addRelation_plain [of pools dep n satisfies ns tes p] by auto
  then show ?case using Cons d by simp
qed auto

lemma recorded_new: "recorded n satisfies (replicate n new_tsi)"
  using graph_ok_new [of n] by (auto simp: recorded_def from_deps_def requires_def new_tsi_def)

text \<open> C12: Recording the relations of a transaction never fails one of its assertions, and leaves a consistent graph:
  one node per element, whose counters are the lengths of its lists, whose forward relations and relations mirror
  each other pair by pair with equal flags, without relations of an element to itself, and each relation is
  between an element and an answer of the search on its behalf. If no dependency is rich, recording returns. The provider search may answer anything that
  is an element of the transaction.\<close>

theorem recording_graph_ok:
  assumes "provider_ok (length tes) satisfies"
  shows "add_all tes satisfies (element_deps tes) (pools, replicate (length tes) new_tsi) \<noteq> Some (Inl AssertFail)
    \<and> (\<forall>pools' ns. add_all tes satisfies (element_deps tes) (pools, replicate (length tes) new_tsi) = Some (Inr (pools', ns))
        \<longrightarrow> length ns = length tes \<and> graph_ok ns \<and> from_deps satisfies ns)
    \<and> ((\<forall>(p, dep) \<in> set (element_deps tes). \<not> rpmdsIsRich pools (Some dep))
        \<longrightarrow> (\<exists>ns. add_all tes satisfies (element_deps tes) (pools, replicate (length tes) new_tsi) = Some (Inr (pools, ns))))"
proof -
  let ?r = "add_all tes satisfies (element_deps tes) (pools, replicate (length tes) new_tsi)"
  have "\<exists>st'. r = Inr st' \<and> recorded (length tes) satisfies (snd st')" if "?r = Some r" for r
    using add_all_recorded [OF assms _ that] recorded_new by simp
  moreover have "\<exists>ns. ?r = Some (Inr (pools, ns))" if "\<forall>(p, dep) \<in> set (element_deps tes). \<not> rpmdsIsRich pools (Some dep)"
    using add_all_plain [OF assms recorded_new that] by blast
  ultimately show ?thesis unfolding recorded_def by fastforce
qed

text \<open>Example elements: \<open>demo_te\<close> has one set of requirements, the search answers from a table.\<close>

definition demo_te :: "u32 \<Rightarrow> rpmds option \<Rightarrow> rpmte" where
  "demo_te ty req = \<lparr>te_type = ty, te_color = 0, te_deps = (\<lambda>t. if t = RPMTAG_REQUIRENAME then req else None)\<rparr>"

definition demo_satisfies :: "(nat \<times> nat) list \<Rightarrow> provider" where
  "demo_satisfies rs pools p dep = map_of rs p"

abbreviation demo_req :: "rpmsenseFlags \<Rightarrow> rpmds option" where
  "demo_req flags \<equiv> Some (demo_ds [2] [3] [flags])"

lemma demo_provider_ok: "\<forall>(p, q) \<in> set rs. p < n \<and> q < n \<Longrightarrow> provider_ok n (demo_satisfies rs)"
  by (auto simp: provider_ok_def demo_satisfies_def dest!: map_of_SomeD)

theorem recording_graph_ok_witness:
  "\<exists>ns. add_all [demo_te TR_ADDED (demo_req 0), demo_te TR_ADDED None] (demo_satisfies [(0, 1)])
       [(0, (demo_ds [2] [3] [0])\<lparr>ds_i := 0\<rparr>)] ([demo_pool], replicate 2 new_tsi) = Some (Inr ([demo_pool], ns))
     \<and> graph_ok ns \<and> requires ns 0 1"
proof -
  let ?tes = "[demo_te TR_ADDED (demo_req 0), demo_te TR_ADDED None]" and ?sat = "demo_satisfies [(0, 1)]"
  have d: "element_deps ?tes = [(0, (demo_ds [2] [3] [0])\<lparr>ds_i := 0\<rparr>)]" by code_simp
  have a: "map_option (map_sum id (\<lambda>(st, ns). requires ns 0 1)) (add_all ?tes ?sat [(0, (demo_ds [2] [3] [0])\<lparr>ds_i := 0\<rparr>)]
      ([demo_pool], replicate 2 new_tsi)) = Some (Inr True)" by code_simp
  have "provider_ok (length ?tes) ?sat" by (rule demo_provider_ok) simp
  from recording_graph_ok [OF this, of "[demo_pool]", unfolded d] a show ?thesis
    by (auto simp: numeral_2_eq_2 demo_ds_def demo_pool_def rpmdsIsRich_def rpmdsN_def rpmdsNIndex_def rpmstrPoolStr_def id2str_def)
qed

text \<open> C36: The requirements of an erased package are reversed relations, and for them the search for a relation that is
  there already looks at the opposite direction. Where \<open>q\<close> is the element that \<open>p\<close> was last recorded to follow, a
  requirement of \<open>p\<close> on \<open>q\<close>, which has to put \<open>q\<close> behind \<open>p\<close>, records nothing: only flags change. In the example
  package 0 requires package 1, whose erase scriptlet requires package 0: 0 is erased first, and the
  scriptlet of 1 runs without it.\<close>

theorem erase_mutual_requirement_lost:
  assumes "graph_ok ns" "p < length ns" "q < length ns" "p \<noteq> q"
    and "te_type (tes ! p) = TR_REMOVED" "\<not> rpmdsIsReverse (Some dep)"
    and "at_front q (tsi_forward_relations (ns ! p))"
  shows "\<exists>ns'. addSingleRelation tes p (Some q) dep ns = Inr ns' \<and> (\<forall>a b. requires ns' a b \<longleftrightarrow> requires ns a b)"
proof (cases "relation_flags (te_type (tes ! p)) dep")
  case None
  then show ?thesis using assms(4) by (auto simp: addSingleRelation_def Let_def)
next
  case (Some flags)
  have "requires ns p q" using assms(2, 7) unfolding requires_def at_front_def by (metis image_eqI list.set_sel(1))
  with assms show ?thesis
    by (simp add: addSingleRelation_cases [OF assms(1-4) Some refl] requires_or_edge)
qed

theorem erase_mutual_requirement_lost_witness:
  "(\<exists>ns'. addSingleRelation (replicate 2 (demo_te TR_REMOVED None)) 1 (Some 0)
       ((demo_ds [2] [3] [RPMSENSE_SCRIPT_PREUN])\<lparr>ds_i := 0\<rparr>) (new_edge 0 1 0 (replicate 2 new_tsi)) = Inr ns'
     \<and> \<not> requires ns' 0 1)
   \<and> rpmtsOrder [demo_te TR_REMOVED (demo_req 0), demo_te TR_REMOVED (demo_req RPMSENSE_SCRIPT_PREUN)]
       (demo_satisfies [(0, 1), (1, 0)]) 0 [demo_pool] = Some (Inr [0, 1])"
proof
  let ?ns = "new_edge 0 1 0 (replicate 2 new_tsi)"
  let ?dep = "(demo_ds [2] [3] [RPMSENSE_SCRIPT_PREUN])\<lparr>ds_i := 0\<rparr>"
  have "graph_ok ?ns" by (simp add: new_edge_graph_ok graph_ok_new)
  moreover have "at_front 0 (tsi_forward_relations (?ns ! 1))" "\<not> rpmdsIsReverse (Some ?dep)" "\<not> requires ?ns 0 1"
    "te_type (replicate 2 (demo_te TR_REMOVED None) ! 1) = TR_REMOVED"
    by code_simp+
  ultimately show "\<exists>ns'. addSingleRelation (replicate 2 (demo_te TR_REMOVED None)) 1 (Some 0) ?dep ?ns = Inr ns' \<and> \<not> requires ns' 0 1"
    using erase_mutual_requirement_lost [of ?ns 1 0 "replicate 2 (demo_te TR_REMOVED None)" ?dep] by auto
qed code_simp

end
