(* ===== verification/Order_Topological.thy ===== *)
theory Order_Topological
  imports Order_Relations
begin

text \<open>
  Transactions without dependency loops. Tarjan's algorithm then finds trivial components only, the bound on its
  recursion is never reached, and the queues of lib/order.cc collect every element exactly once, each behind the
  elements that it requires.
\<close>

subsection \<open>Components of a graph without loops\<close>

definition core :: "tsortInfo \<Rightarrow> tsortInfo" where
  "core t = t\<lparr>tsi_SccIdx := 0, tsi_SccLowlink := 0\<rparr>"

text \<open>\<open>(v, w)\<close> where \<open>w\<close> requires \<open>v\<close>: the direction in which the search goes.\<close>

definition edges :: "tsortInfo list \<Rightarrow> (nat \<times> nat) set" where
  "edges g = {(v, w). v < length g \<and> w \<in> rel_suc ` set (tsi_relations (g ! v))}"

definition tinv :: "tsortInfo list \<Rightarrow> scc_state \<Rightarrow> bool" where
  "tinv g st \<longleftrightarrow> map core (ss_nodes st) = map core g \<and> ss_index st \<le> 0 \<and>
     (\<forall>v < length g. scc_of (ss_nodes st) v \<le> 1 \<and> (scc_of (ss_nodes st) v < 0 \<longleftrightarrow> v \<in> set (ss_stack st)))"

definition tstep :: "tsortInfo list \<Rightarrow> scc_state \<Rightarrow> scc_state \<Rightarrow> bool" where
  "tstep g st st' \<longleftrightarrow> ss_stack st' = ss_stack st \<and> ss_cnt st' = ss_cnt st \<and> ss_sccs st' = ss_sccs st \<and>
     ss_index st' \<le> ss_index st \<and>
     (\<forall>w < length g. ss_nodes st' ! w = ss_nodes st ! w \<or> (scc_of (ss_nodes st) w = 0 \<and> scc_of (ss_nodes st') w = 1))"

definition unvisited :: "tsortInfo list \<Rightarrow> scc_state \<Rightarrow> nat set" where
  "unvisited g st = {w. w < length g \<and> scc_of (ss_nodes st) w = 0}"

lemma finite_unvisited [simp]: "finite (unvisited g st)"
  by (simp add: unvisited_def)

lemma core_fields [simp]:
  "core (t\<lparr>tsi_SccIdx := i\<rparr>) = core t" "core (t\<lparr>tsi_SccLowlink := i\<rparr>) = core t"
  by (simp_all add: core_def)

lemma map_core_upd: "(\<And>t. core (f t) = core t) \<Longrightarrow> map core (upd v f ns) = map core ns"
  by (simp add: upd_def map_update) (metis list_update_id map_update)

lemma core_same: "core t = core u \<Longrightarrow> tsi_relations t = tsi_relations u \<and> tsi_count t = tsi_count u"
  by (cases t; cases u) (simp add: core_def)

lemma tinv_length: "tinv g st \<Longrightarrow> length (ss_nodes st) = length g"
  unfolding tinv_def by (metis length_map)

lemma tinv_relations: "tinv g st \<Longrightarrow> v < length g \<Longrightarrow> tsi_relations (ss_nodes st ! v) = tsi_relations (g ! v)"
  unfolding tinv_def by (metis core_same length_map nth_map)

lemma tstep_refl: "tstep g st st"
  by (simp add: tstep_def)

lemma tstep_trans: "tstep g a b \<Longrightarrow> tstep g b c \<Longrightarrow> tstep g a c"
  unfolding tstep_def by (smt (verit) zero_neq_one)

lemma tstep_unvisited: "tstep g st st' \<Longrightarrow> card (unvisited g st') \<le> card (unvisited g st)"
  by (rule card_mono) (auto simp: unvisited_def tstep_def)

text \<open>Entering an element.\<close>

definition push_node :: "nat \<Rightarrow> scc_state \<Rightarrow> scc_state" where
  "push_node v st = st\<lparr>ss_index := ss_index st - 1,
     ss_nodes := upd v (\<lambda>n. n\<lparr>tsi_SccIdx := ss_index st - 1, tsi_SccLowlink := ss_index st - 1\<rparr>) (ss_nodes st),
     ss_stack := v # ss_stack st\<rparr>"

lemma push_node:
  assumes "tinv g st" "v < length g" "scc_of (ss_nodes st) v = 0"
  shows "tinv g (push_node v st)" "card (unvisited g (push_node v st)) < card (unvisited g st)"
    "low_of (ss_nodes (push_node v st)) v = scc_of (ss_nodes (push_node v st)) v"
    "scc_of (ss_nodes (push_node v st)) v = ss_index st - 1"
proof -
  note l = tinv_length [OF assms(1)]
  show "low_of (ss_nodes (push_node v st)) v = scc_of (ss_nodes (push_node v st)) v"
    "scc_of (ss_nodes (push_node v st)) v = ss_index st - 1"
    using assms l by (simp_all add: push_node_def nth_upd)
  show "tinv g (push_node v st)"
    using assms l by (auto simp: tinv_def push_node_def nth_upd map_core_upd)
  have "unvisited g (push_node v st) = unvisited g st - {v}"
    using assms l by (auto simp: unvisited_def push_node_def nth_upd tinv_def split: if_splits)
  moreover have "v \<in> unvisited g st" using assms by (simp add: unvisited_def)
  ultimately show "card (unvisited g (push_node v st)) < card (unvisited g st)" by (metis card_Diff1_less finite_unvisited)
qed

text \<open>Leaving it: without loops its low link is its own index, and it is on top of the stack.\<close>

lemma pop_node:
  assumes st: "tinv g st" "v < length g" "scc_of (ss_nodes st) v = 0" "v \<notin> set (ss_stack st)"
    and st2: "tinv g st2" "tstep g (push_node v st) st2"
  shows "low_of (ss_nodes st2) v = scc_of (ss_nodes st2) v" "tinv g (pop_scc v st2)" "tstep g st (pop_scc v st2)"
    "scc_of (ss_nodes (pop_scc v st2)) v = 1" "low_of (ss_nodes (pop_scc v st2)) v < ss_index st"
proof -
  note l = tinv_length [OF st(1)] tinv_length [OF st2(1)]
  note p = push_node [OF st(1-3)]
  have neg: "scc_of (ss_nodes (push_node v st)) v < 0" using p(4) st(1) by (simp add: tinv_def)
  then have v2: "ss_nodes st2 ! v = ss_nodes (push_node v st) ! v" using st2 st(2) unfolding tstep_def by force
  show "low_of (ss_nodes st2) v = scc_of (ss_nodes st2) v" using v2 p(3) by simp
  have stack: "ss_stack st2 = v # ss_stack st" using st2(2) by (simp add: tstep_def push_node_def)
  then have pop: "pop_scc v st2 = st2\<lparr>ss_nodes := upd v (set_scc 1) (ss_nodes st2), ss_stack := ss_stack st\<rparr>"
    by (simp add: pop_scc_def)
  show "scc_of (ss_nodes (pop_scc v st2)) v = 1" using l st(2) by (simp add: pop nth_upd)
  show "low_of (ss_nodes (pop_scc v st2)) v < ss_index st" using l st(2) v2 p(3,4) by (simp add: pop nth_upd)
  show "tinv g (pop_scc v st2)" using st2(1) st stack l by (auto simp: tinv_def pop nth_upd map_core_upd)
  have "ss_nodes (push_node v st) ! w = ss_nodes st ! w" if "w < length g" "w \<noteq> v" for w
    using that l by (simp add: push_node_def nth_upd)
  then show "tstep g st (pop_scc v st2)" using st2(2) st(2,3) l
    by (auto simp: tstep_def pop nth_upd push_node_def)
qed

text \<open>The search: every element on the stack leads to the one that is entered, so that without loops the search never
  meets an element of the stack.\<close>

lemma tarjan_acyclic:
  fixes g :: "tsortInfo list"
  assumes ac: "acyclic (edges g)" and range: "\<And>v w. (v, w) \<in> edges g \<Longrightarrow> w < length g"
  shows "tinv g st \<Longrightarrow> v < length g \<Longrightarrow> scc_of (ss_nodes st) v = 0 \<Longrightarrow> \<forall>s \<in> set (ss_stack st). (s, v) \<in> (edges g)\<^sup>+ \<Longrightarrow>
      card (unvisited g st) \<le> fuel \<Longrightarrow>
      \<exists>st'. tarjan fuel v st = Some st' \<and> tinv g st' \<and> tstep g st st' \<and> scc_of (ss_nodes st') v = 1 \<and>
        low_of (ss_nodes st') v < ss_index st"
    and "tinv g st \<Longrightarrow> v < length g \<Longrightarrow> \<forall>r \<in> set rs. (v, rel_suc r) \<in> edges g \<Longrightarrow> v \<in> set (ss_stack st) \<Longrightarrow>
      \<forall>s \<in> set (ss_stack st). (s, v) \<in> (edges g)\<^sup>* \<Longrightarrow> card (unvisited g st) \<le> fuel \<Longrightarrow> low_of (ss_nodes st) v = scc_of (ss_nodes st) v \<Longrightarrow>
      ss_index st \<le> scc_of (ss_nodes st) v \<Longrightarrow>
      \<exists>st'. tarjan_rels fuel v rs st = Some st' \<and> tinv g st' \<and> tstep g st st'"
proof (induction fuel v st and fuel v rs st rule: tarjan_tarjan_rels.induct)
  case (1 v st)
  then have "v \<in> unvisited g st" by (simp add: unvisited_def)
  then show ?case using "1.prems"(5) by (auto simp: card_gt_0_iff)
next
  case (2 fuel v st)
  let ?st = "push_node v st"
  note p = push_node [OF "2.prems"(1-3)]
  have nodes: "tsi_relations (ss_nodes ?st ! v) = tsi_relations (g ! v)" using tinv_relations [OF p(1) "2.prems"(2)] .
  have stack: "ss_stack ?st = v # ss_stack st" "ss_index ?st = ss_index st - 1" by (simp_all add: push_node_def)
  have out: "v \<notin> set (ss_stack st)" using "2.prems"(4) ac by (auto simp: acyclic_def)
  have "\<exists>st'. tarjan_rels fuel v (tsi_relations (ss_nodes ?st ! v)) ?st = Some st' \<and> tinv g st' \<and> tstep g ?st st'"
  proof (rule "2.IH" [unfolded push_node_def [symmetric]])
    show "\<forall>r \<in> set (tsi_relations (ss_nodes ?st ! v)). (v, rel_suc r) \<in> edges g"
      using "2.prems"(2) by (auto simp: nodes edges_def)
  qed (use "2.prems" p stack in \<open>auto simp: push_node_def\<close>)
  then obtain st2 where "tarjan_rels fuel v (tsi_relations (ss_nodes ?st ! v)) ?st = Some st2" and st2: "tinv g st2" "tstep g ?st st2"
    by blast
  then show ?case using pop_node [OF "2.prems"(1-3) out st2]
    by (simp add: Let_def push_node_def)
next
  case (4 fuel v r rs st)
  let ?q = "rel_suc r"
  have q: "?q < length g" "(v, ?q) \<in> edges g" using "4.prems"(3) range by auto
  have "?q \<notin> set (ss_stack st)"
    using "4.prems"(5) q(2) ac by (auto simp: acyclic_def dest: rtrancl_into_trancl1)
  with "4.prems"(1) q have nneg: "scc_of (ss_nodes st) ?q \<ge> 0" by (fastforce simp: tinv_def)
  show ?case
  proof (cases "scc_of (ss_nodes st) ?q = 0")
    case False
    then show ?thesis using "4.IH"(1) [OF refl] "4.prems" nneg by simp
  next
    case True
    have "\<forall>s \<in> set (ss_stack st). (s, ?q) \<in> (edges g)\<^sup>+"
      using "4.prems"(5) q(2) by (meson rtrancl_into_trancl1)
    from "4.IH"(2) [OF refl _ True "4.prems"(1) q(1) True this "4.prems"(6)] obtain st1 where
      st1: "tarjan fuel ?q st = Some st1" "tinv g st1" "tstep g st st1" "low_of (ss_nodes st1) ?q < ss_index st"
      using True by auto
    have "scc_of (ss_nodes st) v \<noteq> 0" using "4.prems"(1,2,4) by (fastforce simp: tinv_def)
    then have v: "ss_nodes st1 ! v = ss_nodes st ! v" using st1(3) "4.prems"(2) by (auto simp: tstep_def)
    have upd_same: "upd v (set_low (max (low_of (ss_nodes st1) v) (low_of (ss_nodes st1) ?q))) (ss_nodes st1) = ss_nodes st1"
      by (rule upd_id) (use v st1(4) "4.prems"(7,8) in simp)
    with st1(1) have eq: "tarjan_rels fuel v (r # rs) st = tarjan_rels fuel v rs st1"
      using True st1(1) by simp
    have "\<exists>st'. tarjan_rels fuel v rs st1 = Some st' \<and> tinv g st' \<and> tstep g st1 st'"
    proof (rule "4.IH"(3) [OF refl _ True st1(1), unfolded upd_same, simplified])
      show "card (unvisited g st1) \<le> fuel" using tstep_unvisited [OF st1(3)] "4.prems"(6) by simp
    qed (use True v st1 "4.prems" in \<open>auto simp: tstep_def\<close>)
    then show ?thesis unfolding eq using st1(3) by (meson tstep_trans)
  qed
qed (auto simp: tstep_refl)

text \<open>After the search every element is a component of its own.\<close>

definition sorted_out :: "tsortInfo list \<Rightarrow> tsortInfo list \<Rightarrow> bool" where
  "sorted_out g ns \<longleftrightarrow> map core ns = map core g \<and> (\<forall>v < length g. scc_of ns v = 1)"

lemma detect_loop_acyclic:
  assumes ac: "acyclic (edges g)" and range: "\<And>v w. (v, w) \<in> edges g \<Longrightarrow> w < length g"
  shows "tinv g st \<Longrightarrow> ss_stack st = [] \<Longrightarrow> set vs \<subseteq> {..<length g} \<Longrightarrow>
    \<exists>st'. detect_loop vs st = Some st' \<and> tinv g st' \<and> tstep g st st' \<and> (\<forall>v \<in> set vs. scc_of (ss_nodes st') v \<noteq> 0)"
proof (induction vs arbitrary: st)
  case Nil
  then show ?case by (simp add: tstep_refl)
next
  case (Cons v vs)
  have v: "v < length g" using Cons.prems by simp
  have "\<exists>st1. (if scc_of (ss_nodes st) v = 0 then tarjan (length (ss_nodes st)) v st else Some st) = Some st1 \<and>
      tinv g st1 \<and> tstep g st st1 \<and> scc_of (ss_nodes st1) v \<noteq> 0"
  proof (cases "scc_of (ss_nodes st) v = 0")
    case True
    have "card (unvisited g st) \<le> card {..<length g}" by (rule card_mono) (auto simp: unvisited_def)
    then show ?thesis using tarjan_acyclic(1) [OF ac range Cons.prems(1) v True, where fuel = "length (ss_nodes st)"]
        Cons.prems True tinv_length [OF Cons.prems(1)] by fastforce
  qed (use Cons.prems in \<open>simp add: tstep_refl\<close>)
  then obtain st1 where st1: "detect_loop (v # vs) st = detect_loop vs st1" "tinv g st1" "tstep g st st1" "scc_of (ss_nodes st1) v \<noteq> 0"
    by (auto split: if_splits)
  from st1(3) have "ss_stack st1 = []" using Cons.prems(2) by (simp add: tstep_def)
  with Cons.IH [OF st1(2)] Cons.prems(3) obtain st' where
    st': "detect_loop vs st1 = Some st'" "tinv g st'" "tstep g st1 st'" "\<forall>v \<in> set vs. scc_of (ss_nodes st') v \<noteq> 0" by auto
  from st'(3) st1(4) v have "scc_of (ss_nodes st') v \<noteq> 0" by (auto simp: tstep_def)
  with st' st1 show ?case by (auto intro: tstep_trans)
qed

lemma detectSCCs_acyclic:
  assumes ac: "acyclic (edges g)" and g: "graph_ok g"
  shows "\<exists>ss. detectSCCs g = Some ss \<and> sorted_out g (ss_nodes ss) \<and>
    ss_sccs ss = replicate (length g + 3) \<lparr>scc_count = 0, scc_members = []\<rparr>"
proof -
  let ?st = "\<lparr>ss_nodes = g, ss_index = 0, ss_stack = [], ss_cnt = 2,
        ss_sccs = replicate (length g + 3) \<lparr>scc_count = 0, scc_members = []\<rparr>\<rparr>"
  have "tinv g ?st" using g by (auto simp: tinv_def graph_ok_def node_ok_def)
  moreover have "w < length g" if "(v, w) \<in> edges g" for v w
    using that g by (auto simp: edges_def graph_ok_def node_ok_def links_ok_def)
  ultimately obtain ss where ss: "detect_loop [0..<length g] ?st = Some ss" "tinv g ss" "tstep g ?st ss"
    "\<forall>v \<in> set [0..<length g]. scc_of (ss_nodes ss) v \<noteq> 0"
    using detect_loop_acyclic [OF ac, of ?st "[0..<length g]"] by force
  have stack: "ss_stack ss = []" using ss(3) by (simp add: tstep_def)
  have "scc_of (ss_nodes ss) v = 1" if "v < length g" for v
  proof -
    have "scc_of (ss_nodes ss) v \<noteq> 0" "scc_of (ss_nodes ss) v \<le> 1" "\<not> scc_of (ss_nodes ss) v < 0"
      using ss(2,4) stack that by (auto simp: tinv_def)
    then show ?thesis by linarith
  qed
  with ss show ?thesis by (auto simp: detectSCCs_def sorted_out_def tinv_def tstep_def)
qed

subsection \<open>Collecting without components\<close>

text \<open>The requirements of \<open>p\<close> that are not yet collected, \<open>D\<close> being the collected elements.\<close>

definition pending :: "tsortInfo list \<Rightarrow> nat set \<Rightarrow> nat \<Rightarrow> nat" where
  "pending g D p = length (filter (\<lambda>r. rel_suc r \<notin> D) (tsi_forward_relations (g ! p)))"

definition nodes_ok :: "tsortInfo list \<Rightarrow> nat set \<Rightarrow> collect_state \<Rightarrow> bool" where
  "nodes_ok g D st \<longleftrightarrow> length (cs_nodes st) = length g \<and> cs_outer st = None \<and>
     (\<forall>p < length g. tsi_relations (cs_nodes st ! p) = tsi_relations (g ! p) \<and>
        scc_of (cs_nodes st) p = (if p \<in> D then 0 else 1))"

abbreviation count_of :: "collect_state \<Rightarrow> nat \<Rightarrow> int" where
  "count_of st p \<equiv> tsi_count (cs_nodes st ! p)"

text \<open>While \<open>q\<close> is collected, \<open>rs\<close> are its relations that are not erased yet.\<close>

definition erasing :: "tsortInfo list \<Rightarrow> rpmte list \<Rightarrow> u32 \<Rightarrow> nat set \<Rightarrow> nat \<Rightarrow> relation list \<Rightarrow> collect_state \<Rightarrow> bool" where
  "erasing g tes T D q rs st \<longleftrightarrow> nodes_ok g D st \<and>
     (\<forall>p < length g. p \<notin> D \<longrightarrow> count_of st p = int (pending g (insert q D) p + length (flags_to p rs))) \<and>
     distinct (cs_queue st) \<and>
     set (cs_queue st) = {p. p < length g \<and> p \<notin> D \<and> p \<noteq> q \<and> count_of st p = 0 \<and> te_type (tes ! p) = T}"

text \<open>Between two elements.\<close>

definition collecting :: "tsortInfo list \<Rightarrow> rpmte list \<Rightarrow> u32 \<Rightarrow> nat set \<Rightarrow> collect_state \<Rightarrow> bool" where
  "collecting g tes T D st \<longleftrightarrow> nodes_ok g D st \<and>
     (\<forall>p < length g. p \<notin> D \<longrightarrow> count_of st p = int (pending g D p)) \<and>
     distinct (cs_queue st) \<and>
     set (cs_queue st) = {p. p < length g \<and> p \<notin> D \<and> count_of st p = 0 \<and> te_type (tes ! p) = T}"

lemma set_q_insert [simp]: "set (q_insert s p qs) = insert p (set qs)"
  by (induction qs) auto

lemma distinct_q_insert [simp]: "distinct (q_insert s p qs) \<longleftrightarrow> p \<notin> set qs \<and> distinct qs"
  by (induction qs) auto

lemma addQ_set [simp]:
  "set (addQ tes c ns p qs) = insert p (set qs)" "distinct (addQ tes c ns p qs) \<longleftrightarrow> p \<notin> set qs \<and> distinct qs"
  by (simp_all add: addQ_def Let_def)

lemma pending_insert:
  assumes "q \<notin> D"
  shows "pending g D p = pending g (insert q D) p + length (flags_to q (tsi_forward_relations (g ! p)))"
proof -
  have "length (filter (\<lambda>r. rel_suc r \<notin> D) rs) = length (filter (\<lambda>r. rel_suc r \<notin> insert q D) rs) + length (flags_to q rs)" for rs
    using assms by (induction rs) auto
  then show ?thesis by (simp add: pending_def)
qed

lemma pending_0: "pending g D p = 0 \<longleftrightarrow> rel_suc ` set (tsi_forward_relations (g ! p)) \<subseteq> D"
  by (auto simp: pending_def filter_empty_conv)

text \<open>One relation: its element has one requirement less and enters the queue with the last one.\<close>

lemma erase_one:
  assumes e: "erasing g tes T D q (r # rs) st"
    and r: "rel_suc r < length g" "rel_suc r \<noteq> q" "te_type (tes ! rel_suc r) = T" "rel_suc r \<notin> D"
    and q: "q < length g" "q \<notin> D"
  shows "\<exists>st'. release_node tes c q (rel_suc r) st = Inr st' \<and> release_scc tes c q (rel_suc r) st' = st' \<and>
    erasing g tes T D q rs st' \<and> cs_order st' = cs_order st \<and> cs_sccs st' = cs_sccs st"
proof -
  let ?p = "rel_suc r"
  have n: "length (cs_nodes st) = length g" "cs_outer st = None" and idx: "scc_of (cs_nodes st) q = 1" "scc_of (cs_nodes st) ?p = 1"
    using e r q by (auto simp: erasing_def nodes_ok_def)
  have cnt: "count_of st ?p = 1 + int (pending g (insert q D) ?p + length (flags_to ?p rs))"
    using e r by (auto simp: erasing_def)
  then have notin: "?p \<notin> set (cs_queue st)" using e r by (auto simp: erasing_def)
  show ?thesis
  proof (cases "count_of st ?p = 1")
    case True
    then show ?thesis using e r q n idx notin cnt
      by (auto simp: release_node_def release_scc_def erasing_def nodes_ok_def enqueue_def nth_upd Let_def split: if_splits)
  next
    case False
    then show ?thesis using e r q n idx notin cnt
      by (auto simp: release_node_def release_scc_def erasing_def nodes_ok_def nth_upd Let_def split: if_splits)
  qed
qed

lemma erase_relations_acyclic:
  assumes q: "q < length g" "q \<notin> D"
  shows "erasing g tes T D q rs st \<Longrightarrow>
    \<forall>r \<in> set rs. rel_suc r < length g \<and> rel_suc r \<noteq> q \<and> te_type (tes ! rel_suc r) = T \<Longrightarrow>
    \<exists>st'. erase_relations tes c q rs st = Inr st' \<and> erasing g tes T D q [] st' \<and> cs_order st' = cs_order st \<and>
      cs_sccs st' = cs_sccs st"
proof (induction rs arbitrary: st)
  case (Cons r rs)
  have idx: "scc_of (cs_nodes st) (rel_suc r) = (if rel_suc r \<in> D then 0 else 1)"
    using Cons.prems by (auto simp: erasing_def nodes_ok_def)
  show ?case
  proof (cases "rel_suc r \<in> D")
    case True
    then have "erasing g tes T D q rs st" using Cons.prems(1) by (auto simp: erasing_def)
    then show ?thesis using Cons.IH Cons.prems(2) True idx by simp
  next
    case False
    then obtain st1 where st1: "release_node tes c q (rel_suc r) st = Inr st1" "release_scc tes c q (rel_suc r) st1 = st1"
      "erasing g tes T D q rs st1" "cs_order st1 = cs_order st" "cs_sccs st1 = cs_sccs st"
      using erase_one [OF Cons.prems(1) _ _ _ False q, of c] Cons.prems(2) by auto
    then show ?thesis using Cons.IH [OF st1(3)] Cons.prems(2) False idx by simp
  qed
qed simp

text \<open>Relations between elements of one type only, the type of the run.\<close>

definition typed :: "rpmte list \<Rightarrow> tsortInfo list \<Rightarrow> bool" where
  "typed tes g \<longleftrightarrow> (\<forall>p q. requires g p q \<longrightarrow> te_type (tes ! p) = te_type (tes ! q))"

lemma edges_requires: "graph_ok g \<Longrightarrow> (v, w) \<in> edges g \<longleftrightarrow> requires g w v"
proof
  assume g: "graph_ok g" and "(v, w) \<in> edges g"
  then have "v < length g" "w < length g" "w \<in> rel_suc ` set (tsi_relations (g ! v))"
    by (auto simp: edges_def graph_ok_def node_ok_def links_ok_def)
  then show "requires g w v" using requires_relations [OF g] by simp
next
  assume g: "graph_ok g" and "requires g w v"
  then have "v < length g" "w \<in> rel_suc ` set (tsi_relations (g ! v))"
    using requires_relations [OF g] requires_less [OF g] by blast+
  then show "(v, w) \<in> edges g" by (simp add: edges_def)
qed

abbreviation popped :: "nat \<Rightarrow> nat list \<Rightarrow> collect_state \<Rightarrow> collect_state" where
  "popped q qs st \<equiv> st\<lparr>cs_nodes := upd q (\<lambda>n. n\<lparr>tsi_reqx := 0\<rparr>) (cs_nodes st), cs_queue := qs\<rparr>"

lemma collecting_queue:
  assumes "collecting g tes T D st" "cs_queue st = q # qs"
  shows "q < length g" "q \<notin> D" "te_type (tes ! q) = T" "count_of st q = 0" "scc_of (cs_nodes st) q = 1"
    "length (cs_nodes st) = length g" "distinct qs"
    "set qs = {p. p < length g \<and> p \<notin> D \<and> p \<noteq> q \<and> count_of st p = 0 \<and> te_type (tes ! p) = T}"
proof -
  have *: "q \<in> set (cs_queue st)" "set qs = set (cs_queue st) - {q}" "distinct (cs_queue st)"
    "set (cs_queue st) = {p. p < length g \<and> p \<notin> D \<and> count_of st p = 0 \<and> te_type (tes ! p) = T}"
    using assms by (auto simp: collecting_def)
  then show q: "q < length g" "q \<notin> D" "te_type (tes ! q) = T" "count_of st q = 0" by auto
  show "scc_of (cs_nodes st) q = 1" "length (cs_nodes st) = length g"
    using assms(1) q by (auto simp: collecting_def nodes_ok_def)
  show "distinct qs" using *(3) assms(2) by simp
  show "set qs = {p. p < length g \<and> p \<notin> D \<and> p \<noteq> q \<and> count_of st p = 0 \<and> te_type (tes ! p) = T}"
    unfolding *(2) *(4) by auto
qed

lemma collectTE_acyclic:
  assumes g: "graph_ok g" "typed tes g" and c: "collecting g tes T D st" and queue: "cs_queue st = q # qs"
  shows "\<exists>st'. collectTE tes col q (popped q qs st) = Inr st' \<and> collecting g tes T (insert q D) st' \<and>
    cs_order st' = cs_order st @ [q] \<and> cs_sccs st' = cs_sccs st"
proof -
  note cq = collecting_queue [OF c queue]
  note q = cq(1-3) and n = cq(6)
  let ?st = "popped q qs st\<lparr>cs_order := cs_order st @ [q]\<rparr>"
  have rels: "tsi_relations (cs_nodes (popped q qs st) ! q) = tsi_relations (g ! q)"
    using c q n by (auto simp: collecting_def nodes_ok_def nth_upd)
  have mirror: "flags_to p (tsi_relations (g ! q)) = flags_to q (tsi_forward_relations (g ! p))" if "p < length g" for p
    using g(1) q(1) that by (simp add: graph_ok_def mirrored_def)
  have cnt: "count_of ?st p = count_of st p" if "p < length g" for p using that n by (simp add: nth_upd)
  have "nodes_ok g D ?st" using c q n by (auto simp: collecting_def nodes_ok_def nth_upd)
  moreover have "\<forall>p < length g. p \<notin> D \<longrightarrow> count_of ?st p = int (pending g (insert q D) p + length (flags_to p (tsi_relations (g ! q))))"
    using c cnt mirror pending_insert [OF q(2), of g] by (auto simp: collecting_def)
  ultimately have "erasing g tes T D q (tsi_relations (g ! q)) ?st"
    using cq(7,8) cnt unfolding erasing_def by (auto simp del: of_nat_add)
  moreover have "\<forall>r \<in> set (tsi_relations (g ! q)). rel_suc r < length g \<and> rel_suc r \<noteq> q \<and> te_type (tes ! rel_suc r) = T"
  proof
    fix r assume r: "r \<in> set (tsi_relations (g ! q))"
    then have "(q, rel_suc r) \<in> edges g" using q by (auto simp: edges_def)
    then have "requires g (rel_suc r) q" using edges_requires [OF g(1)] by simp
    then show "rel_suc r < length g \<and> rel_suc r \<noteq> q \<and> te_type (tes ! rel_suc r) = T"
      using requires_less [OF g(1)] g(2) q(3) by (auto simp: typed_def)
  qed
  ultimately obtain st' where st': "erase_relations tes col q (tsi_relations (g ! q)) ?st = Inr st'"
    "erasing g tes T D q [] st'" "cs_order st' = cs_order st @ [q]" "cs_sccs st' = cs_sccs st"
    using erase_relations_acyclic [OF q(1,2)] by fastforce
  have "collecting g tes T (insert q D) (st'\<lparr>cs_nodes := upd q (set_scc 0) (cs_nodes st')\<rparr>)"
    using st'(2) q by (auto simp: erasing_def collecting_def nodes_ok_def nth_upd)
  then show ?thesis using st' rels by (simp add: collectTE_def)
qed

text \<open>Each element of \<open>xs\<close> comes behind the elements it requires, those of \<open>D\<close> being there already.\<close>

fun behind :: "tsortInfo list \<Rightarrow> nat set \<Rightarrow> nat list \<Rightarrow> bool" where
  "behind g D [] \<longleftrightarrow> True"
| "behind g D (p # ps) \<longleftrightarrow> (\<forall>q. requires g p q \<longrightarrow> q \<in> D) \<and> behind g (insert p D) ps"

lemma main_loop_acyclic:
  assumes g: "graph_ok g" "typed tes g"
  shows "collecting g tes T D st \<Longrightarrow>
    \<exists>st' D' L. main_loop tes col st = Some (Inr st') \<and> collecting g tes T D' st' \<and> cs_queue st' = [] \<and>
      cs_order st' = cs_order st @ L \<and> cs_sccs st' = cs_sccs st \<and> distinct L \<and> set L \<inter> D = {} \<and> D' = D \<union> set L \<and>
      set L \<subseteq> {p. p < length g \<and> te_type (tes ! p) = T} \<and> behind g D L"
proof (induction "card ({..<length g} - D)" arbitrary: D st rule: less_induct)
  case less
  show ?case
  proof (cases "cs_queue st")
    case Nil
    then show ?thesis using less.prems by (intro exI [of _ st] exI [of _ D] exI [of _ "[]"]) (simp add: main_loop.simps)
  next
    case (Cons q qs)
    note q = collecting_queue(1-5) [OF less.prems Cons] and n = collecting_queue(6) [OF less.prems Cons]
    from less.prems q have "pending g D q = 0" by (auto simp: collecting_def)
    then have req: "\<forall>p. requires g q p \<longrightarrow> p \<in> D" by (auto simp: pending_0 requires_def)
    obtain st1 where st1: "collectTE tes col q (popped q qs st) = Inr st1" "collecting g tes T (insert q D) st1"
      "cs_order st1 = cs_order st @ [q]" "cs_sccs st1 = cs_sccs st"
      using collectTE_acyclic [OF g less.prems Cons] by blast
    have "{..<length g} - insert q D \<subset> {..<length g} - D" using q by auto
    then have "card ({..<length g} - insert q D) < card ({..<length g} - D)" by (intro psubset_card_mono) auto
    from less.hyps [OF this st1(2)] obtain st' L where
      IH: "main_loop tes col st1 = Some (Inr st')" "collecting g tes T (insert q D \<union> set L) st'" "cs_queue st' = []"
      "cs_order st' = cs_order st1 @ L" "cs_sccs st' = cs_sccs st1" "distinct L" "set L \<inter> insert q D = {}"
      "set L \<subseteq> {p. p < length g \<and> te_type (tes ! p) = T}" "behind g (insert q D) L"
      by blast
    have "main_loop tes col st = Some (Inr st')"
      using Cons st1(1) IH(1) q(5) n q(1) by (subst main_loop.simps) (simp add: Let_def nth_upd)
    then show ?thesis using IH st1 q req by (intro exI [of _ st'] exI [of _ "insert q D \<union> set L"] exI [of _ "q # L"]) auto
  qed
qed

subsection \<open>The two runs\<close>

lemma enqueue_all:
  fixes tes :: "rpmte list" and col :: u32
  assumes "distinct es" "set es \<inter> set (cs_queue st) = {}" "distinct (cs_queue st)" "set es \<subseteq> {..<length (cs_nodes st)}"
  defines "st' \<equiv> foldl (\<lambda>st e. enqueue tes col e st) st es"
  shows "set (cs_queue st') = set es \<union> set (cs_queue st)" "distinct (cs_queue st')" "cs_order st' = cs_order st"
    "cs_sccs st' = cs_sccs st" "cs_outer st' = cs_outer st" "length (cs_nodes st') = length (cs_nodes st)"
    "\<And>p. p < length (cs_nodes st) \<Longrightarrow> tsi_relations (cs_nodes st' ! p) = tsi_relations (cs_nodes st ! p) \<and>
       scc_of (cs_nodes st') p = scc_of (cs_nodes st) p \<and> count_of st' p = count_of st p"
  using assms(1-4) unfolding st'_def
  by (induction es arbitrary: st) (auto simp: enqueue_def nth_upd)

lemma leaf_sccs_none:
  "leaf_sccs tes T (replicate (n + 3) \<lparr>scc_count = 0, scc_members = []\<rparr>) = []"
  by (simp add: leaf_sccs_def eval_nat_numeral)

text \<open>The state between two runs: \<open>D\<close> is collected.\<close>

definition ready :: "tsortInfo list \<Rightarrow> nat set \<Rightarrow> collect_state \<Rightarrow> bool" where
  "ready g D st \<longleftrightarrow> nodes_ok g D st \<and> (\<forall>p < length g. p \<notin> D \<longrightarrow> count_of st p = int (pending g D p)) \<and>
     cs_sccs st = replicate (length g + 3) \<lparr>scc_count = 0, scc_members = []\<rparr>"

definition of_type :: "rpmte list \<Rightarrow> u32 \<Rightarrow> nat set" where
  "of_type tes T = {p. p < length tes \<and> te_type (tes ! p) = T}"

lemma one_run_start:
  fixes tes :: "rpmte list" and col :: u32
  assumes r: "ready g D st" and l: "length g = length tes" and D: "D \<inter> of_type tes T = {}"
  defines "st' \<equiv> foldl (\<lambda>st e. enqueue tes col e st) (st\<lparr>cs_queue := []\<rparr>)
    (zero_elements tes T (cs_nodes st) @ leaf_sccs tes T (cs_sccs st))"
  shows "collecting g tes T D st'" "cs_order st' = cs_order st" "cs_sccs st' = cs_sccs st"
proof -
  let ?es = "zero_elements tes T (cs_nodes st)"
  have st': "st' = foldl (\<lambda>st e. enqueue tes col e st) (st\<lparr>cs_queue := []\<rparr>) ?es"
    using r leaf_sccs_none by (simp add: st'_def ready_def)
  have n: "length (cs_nodes st) = length g" using r by (simp add: ready_def nodes_ok_def)
  have es: "distinct ?es" "set ?es = {p. p < length g \<and> p \<notin> D \<and> count_of st p = 0 \<and> te_type (tes ! p) = T}"
    using l D by (auto simp: zero_elements_def of_type_def)
  have "set ?es \<subseteq> {..<length (cs_nodes st)}" using es(2) n by auto
  note e = enqueue_all [where es = ?es and st = "st\<lparr>cs_queue := []\<rparr>" and tes = tes and col = col, folded st', simplified, OF es(1) this]
  show "cs_order st' = cs_order st" "cs_sccs st' = cs_sccs st" using e by simp_all
  show "collecting g tes T D st'" unfolding collecting_def e(1) es(2)
    using r e n by (auto simp: ready_def nodes_ok_def)
qed

text \<open>Nothing of the type of the run is left when the queue is empty: a smallest element that is left would have
  no pending requirement.\<close>

lemma run_complete:
  assumes g: "graph_ok g" "typed tes g" "acyclic (edges g)" "length g = length tes"
    and c: "collecting g tes T D st" "cs_queue st = []"
  shows "of_type tes T \<subseteq> D"
proof
  have "edges g \<subseteq> {..<length g} \<times> {..<length g}"
    using edges_requires [OF g(1)] requires_less [OF g(1)] by auto
  then have "finite (edges g)" by (rule finite_subset) simp
  then have wf: "wf (edges g)" using g(3) by (rule finite_acyclic_wf)
  fix p
  assume "p \<in> of_type tes T"
  then show "p \<in> D"
  proof (induction p rule: wf_induct_rule [OF wf])
    case (1 p)
    have "q \<in> D" if "requires g p q" for q
      using that 1 g edges_requires [OF g(1)] requires_less [OF g(1)] by (auto simp: typed_def of_type_def)
    then have "pending g D p = 0" using "1.prems" g(4) by (auto simp: pending_0 requires_def of_type_def)
    then have "p \<in> set (cs_queue st)" if "p \<notin> D"
      using that c(1) "1.prems" g(4) unfolding collecting_def of_type_def by simp
    then show ?case using c(2) by auto
  qed
qed

lemma one_run_acyclic:
  assumes g: "graph_ok g" "typed tes g" "acyclic (edges g)" "length g = length tes"
    and r: "ready g D st" and D: "D \<inter> of_type tes T = {}"
  shows "\<exists>st' L. one_run tes col T st = Some (Inr st') \<and> ready g (D \<union> set L) st' \<and> cs_order st' = cs_order st @ L \<and>
    distinct L \<and> set L = of_type tes T \<and> behind g D L"
proof -
  note s = one_run_start [OF r g(4) D, of col]
  from main_loop_acyclic [OF g(1,2) s(1), of col] s obtain st' L where
    st': "one_run tes col T st = Some (Inr st')" "collecting g tes T (D \<union> set L) st'" "cs_queue st' = []"
      "cs_order st' = cs_order st @ L" "cs_sccs st' = cs_sccs st" "distinct L" "set L \<inter> D = {}"
      "set L \<subseteq> {p. p < length g \<and> te_type (tes ! p) = T}" "behind g D L"
    unfolding one_run_def Let_def by auto
  have "set L = of_type tes T"
    using run_complete [OF g st'(2,3)] st'(8) g(4) D by (auto simp: of_type_def)
  moreover have "ready g (D \<union> set L) st'" using st'(2,5) r by (simp add: ready_def collecting_def)
  ultimately show ?thesis using st' by blast
qed

lemma behind_append: "behind g D (xs @ ys) \<longleftrightarrow> behind g D xs \<and> behind g (D \<union> set xs) ys"
  by (induction xs arbitrary: D) auto

text \<open>\<open>q\<close> comes before \<open>p\<close>.\<close>

definition precedes :: "nat \<Rightarrow> nat \<Rightarrow> nat list \<Rightarrow> bool" where
  "precedes q p xs \<longleftrightarrow> (\<exists>as bs. xs = as @ p # bs \<and> q \<in> set as)"

lemma behind_precedes:
  assumes "behind g {} xs" "p \<in> set xs" "requires g p q"
  shows "precedes q p (rs @ xs)"
proof -
  from assms(2) obtain as bs where xs: "xs = as @ p # bs" by (meson split_list)
  with assms(1,3) have "q \<in> set as" by (auto simp: behind_append)
  with xs show ?thesis unfolding precedes_def by (metis Un_iff append_assoc set_append)
qed

lemma sort_elements_topological:
  assumes g: "graph_ok g" "typed tes g" "acyclic (edges g)" "length g = length tes"
    and types: "\<forall>te \<in> set tes. te_type te \<in> {TR_ADDED, TR_REMOVED, TR_RESTORED}"
  shows "\<exists>L1 L2. sort_elements tes col g = Some (Inr (filter (\<lambda>e. te_type (tes ! e) = TR_RESTORED) [0..<length tes] @ L1 @ L2)) \<and>
    distinct L1 \<and> distinct L2 \<and> set L1 = of_type tes TR_ADDED \<and> set L2 = of_type tes TR_REMOVED \<and> behind g {} (L1 @ L2)"
proof -
  let ?R = "filter (\<lambda>e. te_type (tes ! e) = TR_RESTORED) [0..<length tes]"
  from detectSCCs_acyclic [OF g(3,1)] obtain ss where ss: "detectSCCs g = Some ss" "sorted_out g (ss_nodes ss)"
    "ss_sccs ss = replicate (length g + 3) \<lparr>scc_count = 0, scc_members = []\<rparr>" by blast
  let ?st = "\<lparr>cs_nodes = ss_nodes ss, cs_sccs = ss_sccs ss, cs_order = ?R, cs_queue = [], cs_outer = None\<rparr>"
  have c: "map core (ss_nodes ss) = map core g" using ss(2) by (simp add: sorted_out_def)
  then have n: "length (ss_nodes ss) = length g" by (rule map_eq_imp_length_eq)
  have same: "tsi_relations (ss_nodes ss ! p) = tsi_relations (g ! p) \<and> tsi_count (ss_nodes ss ! p) = tsi_count (g ! p)"
    if "p < length g" for p
  proof -
    have "core (ss_nodes ss ! p) = core (g ! p)" using c that n by (metis nth_map)
    then show ?thesis by (rule core_same)
  qed
  have "nodes_ok g {} ?st" using ss(2) n same by (simp add: nodes_ok_def sorted_out_def)
  moreover have "\<forall>p < length g. p \<notin> {} \<longrightarrow> count_of ?st p = int (pending g {} p)"
    using same g(1) by (simp add: graph_ok_def node_ok_def pending_def)
  ultimately have "ready g {} ?st" using ss(3) by (simp add: ready_def)
  from one_run_acyclic [OF g this Int_empty_left, where T = TR_ADDED and col = col] obtain st1 L1 where
    run1: "one_run tes col TR_ADDED ?st = Some (Inr st1)" "ready g (set L1) st1" "cs_order st1 = ?R @ L1"
      "distinct L1" "set L1 = of_type tes TR_ADDED" "behind g {} L1" by (auto simp only: Un_empty_left collect_state.simps)
  have "set L1 \<inter> of_type tes TR_REMOVED = {}" unfolding run1(5) of_type_def by auto
  from one_run_acyclic [OF g run1(2) this, where col = col] obtain st2 L2 where
    run2: "one_run tes col TR_REMOVED st1 = Some (Inr st2)" "cs_order st2 = ?R @ L1 @ L2"
      "distinct L2" "set L2 = of_type tes TR_REMOVED" "behind g (set L1) L2" unfolding run1(3) append_assoc by blast
  have t: "te_type (tes ! e) = TR_ADDED \<or> te_type (tes ! e) = TR_REMOVED \<or> te_type (tes ! e) = TR_RESTORED" if "e < length tes" for e
    using types nth_mem [OF that] by blast
  have all: "set (?R @ L1 @ L2) = {..<length tes}" unfolding set_append run1(5) run2(4) of_type_def using t by auto
  have "distinct (?R @ L1 @ L2)" using run1(4) run2(3) unfolding distinct_append set_append run1(5) run2(4) of_type_def by auto
  from distinct_card [OF this] have "length (?R @ L1 @ L2) = length tes" unfolding all by simp
  then have "sort_elements tes col g = Some (Inr (?R @ L1 @ L2))"
    unfolding sort_elements_def using ss(1) run1(1) run2(1,2) by (simp add: Let_def)
  then show ?thesis using run1(4-6) run2(3-5)
    by (intro exI [of _ L1] exI [of _ L2] conjI) (simp_all add: behind_append)
qed

subsection \<open>The order of a transaction\<close>

text \<open>The search for providers looks in the erased packages for an erased element, in the installed ones for all others,
  the restored ones included.\<close>

definition provider_typed :: "rpmte list \<Rightarrow> provider \<Rightarrow> bool" where
  "provider_typed tes satisfies \<longleftrightarrow>
     (\<forall>pools p dep q. satisfies pools p dep = Some q \<longrightarrow>
        te_type (tes ! q) = (if te_type (tes ! p) = TR_REMOVED then TR_REMOVED else TR_ADDED))"

text \<open> C5: A transaction in which no dependency is rich, the recorded relations have no loop and none of them is from or to
  a restored element gets an order: the call returns and no assertion fails, the new order is a permutation of the
  elements, with the restored elements first, then the installed and then the erased ones, and every element comes behind
  all the elements that it has a recorded requirement on. The search for providers answers with erased elements for an
  erased one and with installed elements for the others, as the two indexes that it searches do. The condition on restored
  elements is needed: \<open>restored_collected_twice\<close> below is a transaction in which one requires an installed element.\<close>

theorem rpmtsOrder_topological:
  assumes sat: "provider_ok (length tes) satisfies" "provider_typed tes satisfies"
    and types: "\<forall>te \<in> set tes. te_type te \<in> {TR_ADDED, TR_REMOVED, TR_RESTORED}"
    and plain: "\<forall>(p, dep) \<in> set (element_deps tes). \<not> rpmdsIsRich pools (Some dep)"
    and loops: "\<And>ns. add_all tes satisfies (element_deps tes) (pools, replicate (length tes) new_tsi) = Some (Inr (pools, ns)) \<Longrightarrow>
      acyclic {(q, p). requires ns p q}"
    and restored: "\<And>ns. add_all tes satisfies (element_deps tes) (pools, replicate (length tes) new_tsi) = Some (Inr (pools, ns)) \<Longrightarrow>
      \<forall>p q. requires ns p q \<longrightarrow> te_type (tes ! p) \<noteq> TR_RESTORED \<and> te_type (tes ! q) \<noteq> TR_RESTORED"
  shows "\<exists>ns L1 L2. add_all tes satisfies (element_deps tes) (pools, replicate (length tes) new_tsi) = Some (Inr (pools, ns)) \<and>
    rpmtsOrder tes satisfies prefcolor pools =
      Some (Inr (filter (\<lambda>e. te_type (tes ! e) = TR_RESTORED) [0..<length tes] @ L1 @ L2)) \<and>
    distinct L1 \<and> distinct L2 \<and> set L1 = of_type tes TR_ADDED \<and> set L2 = of_type tes TR_REMOVED \<and>
    (\<forall>p q. requires ns p q \<longrightarrow> precedes q p (L1 @ L2))"
proof -
  obtain ns where ns: "add_all tes satisfies (element_deps tes) (pools, replicate (length tes) new_tsi) = Some (Inr (pools, ns))"
    "recorded (length tes) satisfies ns" using add_all_plain [OF sat(1) recorded_new plain] by blast
  then have g: "graph_ok ns" "length ns = length tes" and from_deps: "from_deps satisfies ns" by (simp_all add: recorded_def)
  have "typed tes ns" unfolding typed_def
  proof (intro allI impI)
    fix p q assume r: "requires ns p q"
    have "p < length tes" "q < length tes" using requires_less [OF g(1) r] g(2) by simp_all
    then have t: "te_type (tes ! p) \<in> {TR_ADDED, TR_REMOVED}" "te_type (tes ! q) \<in> {TR_ADDED, TR_REMOVED}"
      using restored [OF ns(1)] r types nth_mem [of p tes] nth_mem [of q tes] by blast+
    from r from_deps obtain pools' dep where "satisfies pools' p dep = Some q \<or> satisfies pools' q dep = Some p"
      unfolding from_deps_def by blast
    with t show "te_type (tes ! p) = te_type (tes ! q)" using sat(2) unfolding provider_typed_def by (metis insertE singletonD)
  qed
  moreover have "edges ns = {(q, p). requires ns p q}" using edges_requires [OF g(1)] by auto
  ultimately obtain L1 L2 where L: "sort_elements tes prefcolor ns =
      Some (Inr (filter (\<lambda>e. te_type (tes ! e) = TR_RESTORED) [0..<length tes] @ L1 @ L2))"
    "distinct L1" "distinct L2" "set L1 = of_type tes TR_ADDED" "set L2 = of_type tes TR_REMOVED" "behind ns {} (L1 @ L2)"
    using sort_elements_topological [OF g(1) _ _ g(2) types] loops [OF ns(1)] by metis
  have "precedes q p (L1 @ L2)" if r: "requires ns p q" for p q
  proof -
    have p: "p < length tes" using requires_less [OF g(1) r] g(2) by simp
    then have "te_type (tes ! p) \<in> {TR_ADDED, TR_REMOVED}" using types restored [OF ns(1)] r nth_mem [OF p] by blast
    with p have "p \<in> set (L1 @ L2)" unfolding set_append L(4,5) of_type_def by blast
    then show ?thesis using behind_precedes [OF L(6) _ r, of "[]"] by simp
  qed
  moreover have "rpmtsOrder tes satisfies prefcolor pools = sort_elements tes prefcolor ns"
    by (simp add: rpmtsOrder_def ns(1))
  ultimately show ?thesis using ns(1) L by (intro exI [of _ ns] exI [of _ L1] exI [of _ L2]) simp
qed

theorem rpmtsOrder_topological_witness:
  "\<exists>L1. rpmtsOrder [demo_te TR_ADDED (demo_req 0), demo_te TR_ADDED None] (demo_satisfies [(0, 1)]) 0 [demo_pool] = Some (Inr L1) \<and>
     precedes 1 0 L1"
proof -
  let ?tes = "[demo_te TR_ADDED (demo_req 0), demo_te TR_ADDED None]" and ?sat = "demo_satisfies [(0, 1)]"
  let ?r = "add_all ?tes ?sat (element_deps ?tes) ([demo_pool], replicate (length ?tes) new_tsi)"
  have d: "element_deps ?tes = [(0, (demo_ds [2] [3] [0])\<lparr>ds_i := 0\<rparr>)]" by code_simp
  have ok: "provider_ok (length ?tes) ?sat" "provider_typed ?tes ?sat"
    "\<forall>te \<in> set ?tes. te_type te \<in> {TR_ADDED, TR_REMOVED, TR_RESTORED}"
    by (rule demo_provider_ok) (auto simp: provider_typed_def demo_satisfies_def demo_te_def split: if_splits)
  have plain: "\<forall>(p, dep) \<in> set (element_deps ?tes). \<not> rpmdsIsRich [demo_pool] (Some dep)"
    unfolding d by (simp add: demo_ds_def demo_pool_def rpmdsIsRich_def rpmdsN_def rpmdsNIndex_def rpmstrPoolStr_def id2str_def)
  have r: "map_option (map_sum id (map (\<lambda>n. map rel_suc (tsi_forward_relations n)) \<circ> snd)) ?r = Some (Inr [[1], []])" by code_simp
  have req: "requires ns p q \<longleftrightarrow> p = 0 \<and> q = 1" if "?r = Some (Inr (st, ns))" for ns st p q
  proof -
    from r that have m: "map (\<lambda>n. map rel_suc (tsi_forward_relations n)) ns = [[1], []]" by simp
    then obtain a b where "ns = [a, b]" "map rel_suc (tsi_forward_relations a) = [1]" "tsi_forward_relations b = []"
      by (auto simp: map_eq_Cons_conv)
    then show ?thesis by (auto simp: requires_def less_Suc_eq map_eq_Cons_conv)
  qed
  have ac: "acyclic {(q, p). requires ns p q}" if "?r = Some (Inr ([demo_pool], ns))" for ns
    by (rule acyclicI_order [where f = "\<lambda>x. x"]) (simp add: req [OF that])
  have none: "filter (\<lambda>e. te_type (?tes ! e) = TR_RESTORED) [0..<length ?tes] = []" by code_simp
  have rs: "\<forall>p q. requires ns p q \<longrightarrow> te_type (?tes ! p) \<noteq> TR_RESTORED \<and> te_type (?tes ! q) \<noteq> TR_RESTORED"
    if "?r = Some (Inr ([demo_pool], ns))" for ns
    unfolding req [OF that] by (auto simp: demo_te_def)
  obtain ns L1 L2 where "?r = Some (Inr ([demo_pool], ns))" "rpmtsOrder ?tes ?sat 0 [demo_pool] = Some (Inr (L1 @ L2))"
    "\<forall>p q. requires ns p q \<longrightarrow> precedes q p (L1 @ L2)"
    using rpmtsOrder_topological [OF ok plain ac rs, where prefcolor = 0] unfolding none by auto
  moreover from this(1) have "requires ns 0 1" by (simp add: req)
  ultimately show ?thesis by (auto simp: demo_te_def)
qed

text \<open> A restored element that requires an installed one is collected twice, once with the restored elements and
  once when its last requirement is erased: the assertion that no element is lost or doubled stops the program.\<close>

theorem restored_collected_twice:
  "rpmtsOrder [demo_te TR_RESTORED (demo_req 0), demo_te TR_ADDED None] (demo_satisfies [(0, 1)]) 0 [demo_pool]
    = Some (Inl AssertFail)"
  by code_simp

end
