(* ===== verification/Rpmfi.thy ===== *)
theory Rpmfi
  imports Rpmds
begin

text \<open>
  File information, lib/rpmfi.cc: the names, attributes and hard links of the files of a package, the search for a
  path or a prefix, the iterators, and the construction from a header. An array that may be NULL is an option. The
  strings are ids of a pool of the store of pools, as in the theory Rpmds; a string that has to be there is \<open>the\<close>.
\<close>

record rpmfn =
  fn_dc :: nat
  fn_fc :: nat
  fn_bnid :: "nat list option"
  fn_dnid :: "nat list option"
  fn_dil :: "u32 list option"

record rpmfiles =
  fi_pool :: nat
  fi_fndata :: rpmfn
  fi_ofndata :: "rpmfn option"
  fi_flinks :: "nat list option"
  fi_fflags :: "u32 list option"
  fi_fsizes :: "nat list option"
  fi_lfsizes :: "nat list option"
  fi_fmtimes :: "nat list option"
  fi_fmodes :: "nat list option"
  fi_frdevs :: "nat list option"
  fi_finodes :: "nat list option"
  fi_fuser :: "nat list option"
  fi_fgroup :: "nat list option"
  fi_flangs :: "nat list option"
  fi_fstates :: "int list option"
  fi_fcolors :: "u32 list option"
  fi_fcaps :: "cstr list option"
  fi_cdict :: "cstr list option"
  fi_ncdict :: nat
  fi_fcdictx :: "u32 list option"
  fi_mdict :: "cstr list option"
  fi_nmdict :: nat
  fi_fmdictx :: "u32 list option"
  fi_ddict :: "u32 list option"
  fi_nddict :: nat
  fi_fddictx :: "u32 list option"
  fi_fddictn :: "u32 list option"
  fi_vflags :: "u32 list option"
  fi_digestalgo :: nat
  fi_signatureoffs :: "nat list option"
  fi_veritysiglength :: nat
  fi_verityalgo :: nat
  fi_digests :: "8 word list option"
  fi_signatures :: "8 word list option"
  fi_veritysigs :: "8 word list option"
  fi_nlinks :: "(nat \<Rightarrow> nat list option) option"
  fi_replacedSizes :: "nat list option"

subsection \<open>File names\<close>

definition rpmfnFC :: "rpmfn option \<Rightarrow> nat" where
  "rpmfnFC fndata = (case fndata of None \<Rightarrow> 0 | Some fn \<Rightarrow> fn_fc fn)"

definition rpmfnDC :: "rpmfn option \<Rightarrow> nat" where
  "rpmfnDC fndata = (case fndata of None \<Rightarrow> 0 | Some fn \<Rightarrow> fn_dc fn)"

text \<open>Element \<open>ix\<close> of an array with \<open>n\<close> elements that may be NULL, with the value for an index out of range.\<close>

definition arr_nth :: "nat \<Rightarrow> 'a list option \<Rightarrow> 'a \<Rightarrow> int \<Rightarrow> 'a" where
  "arr_nth n arr d ix = (if 0 \<le> ix \<and> ix < int n then case arr of None \<Rightarrow> d | Some xs \<Rightarrow> xs ! nat ix else d)"

definition rpmfnDI :: "rpmfn option \<Rightarrow> int \<Rightarrow> int" where
  "rpmfnDI fndata ix = arr_nth (rpmfnFC fndata) (map_option (map sint) (Option.bind fndata fn_dil)) (-1) ix"

definition rpmfnBNId :: "rpmfn option \<Rightarrow> int \<Rightarrow> nat" where
  "rpmfnBNId fndata ix = arr_nth (rpmfnFC fndata) (Option.bind fndata fn_bnid) 0 ix"

definition rpmfnDNId :: "rpmfn option \<Rightarrow> int \<Rightarrow> nat" where
  "rpmfnDNId fndata ix = arr_nth (rpmfnDC fndata) (Option.bind fndata fn_dnid) 0 ix"

definition rpmfnBN :: "pools \<Rightarrow> nat \<Rightarrow> rpmfn option \<Rightarrow> int \<Rightarrow> cstr option" where
  "rpmfnBN st pool fndata ix = pool_str st pool (rpmfnBNId fndata ix)"

definition rpmfnDN :: "pools \<Rightarrow> nat \<Rightarrow> rpmfn option \<Rightarrow> int \<Rightarrow> cstr option" where
  "rpmfnDN st pool fndata ix = pool_str st pool (rpmfnDNId fndata ix)"

text \<open>\<open>rstrscat\<close> stops at the first NULL.\<close>

definition rpmfnFN :: "pools \<Rightarrow> nat \<Rightarrow> rpmfn option \<Rightarrow> int \<Rightarrow> cstr option" where
  "rpmfnFN st pool fndata ix =
     (if 0 \<le> ix \<and> ix < int (rpmfnFC fndata) then
        (case rpmfnDN st pool fndata (rpmfnDI fndata ix) of None \<Rightarrow> None
         | Some dn \<Rightarrow> Some (dn @ (case rpmfnBN st pool fndata ix of None \<Rightarrow> [] | Some bn \<Rightarrow> bn)))
      else None)"

definition rpmfilesFC :: "rpmfiles option \<Rightarrow> nat" where
  "rpmfilesFC fi = rpmfnFC (map_option fi_fndata fi)"

definition rpmfilesDC :: "rpmfiles option \<Rightarrow> nat" where
  "rpmfilesDC fi = rpmfnDC (map_option fi_fndata fi)"

definition rpmfilesDigestAlgo :: "rpmfiles option \<Rightarrow> nat" where
  "rpmfilesDigestAlgo fi = (case fi of None \<Rightarrow> 0 | Some fi \<Rightarrow> fi_digestalgo fi)"

definition rpmfilesDI :: "rpmfiles option \<Rightarrow> int \<Rightarrow> int" where
  "rpmfilesDI fi ix = (case fi of None \<Rightarrow> -1 | Some fi \<Rightarrow> rpmfnDI (Some (fi_fndata fi)) ix)"

definition rpmfilesODI :: "rpmfiles option \<Rightarrow> int \<Rightarrow> int" where
  "rpmfilesODI fi ix = (case fi of None \<Rightarrow> -1 | Some fi \<Rightarrow> rpmfnDI (fi_ofndata fi) ix)"

definition rpmfilesBNId :: "rpmfiles option \<Rightarrow> int \<Rightarrow> nat" where
  "rpmfilesBNId fi ix = (case fi of None \<Rightarrow> 0 | Some fi \<Rightarrow> rpmfnBNId (Some (fi_fndata fi)) ix)"

definition rpmfilesOBNId :: "rpmfiles option \<Rightarrow> int \<Rightarrow> nat" where
  "rpmfilesOBNId fi ix = (case fi of None \<Rightarrow> 0 | Some fi \<Rightarrow> rpmfnBNId (fi_ofndata fi) ix)"

definition rpmfilesDNId :: "rpmfiles option \<Rightarrow> int \<Rightarrow> nat" where
  "rpmfilesDNId fi jx = (case fi of None \<Rightarrow> 0 | Some fi \<Rightarrow> rpmfnDNId (Some (fi_fndata fi)) jx)"

definition rpmfilesODNId :: "rpmfiles option \<Rightarrow> int \<Rightarrow> nat" where
  "rpmfilesODNId fi jx = (case fi of None \<Rightarrow> 0 | Some fi \<Rightarrow> rpmfnDNId (fi_ofndata fi) jx)"

definition rpmfilesBN :: "pools \<Rightarrow> rpmfiles option \<Rightarrow> int \<Rightarrow> cstr option" where
  "rpmfilesBN st fi ix = (case fi of None \<Rightarrow> None | Some fi \<Rightarrow> rpmfnBN st (fi_pool fi) (Some (fi_fndata fi)) ix)"

definition rpmfilesOBN :: "pools \<Rightarrow> rpmfiles option \<Rightarrow> int \<Rightarrow> cstr option" where
  "rpmfilesOBN st fi ix = (case fi of None \<Rightarrow> None | Some f \<Rightarrow> pool_str st (fi_pool f) (rpmfilesOBNId fi ix))"

definition rpmfilesDN :: "pools \<Rightarrow> rpmfiles option \<Rightarrow> int \<Rightarrow> cstr option" where
  "rpmfilesDN st fi jx = (case fi of None \<Rightarrow> None | Some fi \<Rightarrow> rpmfnDN st (fi_pool fi) (Some (fi_fndata fi)) jx)"

definition rpmfilesODN :: "pools \<Rightarrow> rpmfiles option \<Rightarrow> int \<Rightarrow> cstr option" where
  "rpmfilesODN st fi jx = (case fi of None \<Rightarrow> None | Some f \<Rightarrow> pool_str st (fi_pool f) (rpmfilesODNId fi jx))"

definition rpmfilesFN :: "pools \<Rightarrow> rpmfiles option \<Rightarrow> int \<Rightarrow> cstr option" where
  "rpmfilesFN st fi ix = (case fi of None \<Rightarrow> None | Some fi \<Rightarrow> rpmfnFN st (fi_pool fi) (Some (fi_fndata fi)) ix)"

definition rpmfilesOFN :: "pools \<Rightarrow> rpmfiles option \<Rightarrow> int \<Rightarrow> cstr option" where
  "rpmfilesOFN st fi ix = (case fi of None \<Rightarrow> None | Some fi \<Rightarrow> rpmfnFN st (fi_pool fi) (fi_ofndata fi) ix)"

subsection \<open>Searching for a path\<close>

definition strncmp :: "cstr \<Rightarrow> cstr \<Rightarrow> nat \<Rightarrow> int" where
  "strncmp s t n = strcmp (take n s) (take n t)"

definition cmpPoolFn :: "pools \<Rightarrow> nat \<Rightarrow> rpmfn option \<Rightarrow> int \<Rightarrow> cstr \<Rightarrow> int" where
  "cmpPoolFn st pool files ix fn =
     (let dn = the (pool_str st pool (rpmfnDNId files (rpmfnDI files ix)));
          reldn = (if starts_with (CHR ''/'') dn then tl dn else dn);
          cmp = strncmp reldn fn (length reldn)
      in if cmp = 0 then strcmp (the (rpmfnBN st pool files ix)) (drop (length reldn) fn) else cmp)"

text \<open>The path without \<open>./\<close> and without a leading slash.\<close>

definition skip_prefix :: "cstr \<Rightarrow> cstr" where
  "skip_prefix fn =
     (let fn = (if take 2 fn = ''./'' then drop 2 fn else fn) in if starts_with (CHR ''/'') fn then tl fn else fn)"

text \<open>The bisection of the prelude takes the comparison of the key with the element, here it is the other way round.\<close>

definition rpmfnFindFN :: "pools \<Rightarrow> nat \<Rightarrow> rpmfn option \<Rightarrow> cstr \<Rightarrow> int" where
  "rpmfnFindFN st pool files fn =
     (let fc = rpmfnFC files; fn = skip_prefix fn in
      case bisect (\<lambda>i. - cmpPoolFn st pool files (int i) fn) 0 fc of
        (Some mid, _) \<Rightarrow> int mid
      | (None, _) \<Rightarrow> (case find (\<lambda>i. cmpPoolFn st pool files (int i) fn = 0) [0..<fc] of None \<Rightarrow> -1 | Some i \<Rightarrow> int i))"

definition rpmfilesFindFN :: "pools \<Rightarrow> rpmfiles option \<Rightarrow> cstr option \<Rightarrow> int" where
  "rpmfilesFindFN st files fn =
     (case (files, fn) of (Some fi, Some fn) \<Rightarrow> rpmfnFindFN st (fi_pool fi) (Some (fi_fndata fi)) fn | _ \<Rightarrow> -1)"

definition rpmfilesFindOFN :: "pools \<Rightarrow> rpmfiles option \<Rightarrow> cstr option \<Rightarrow> int" where
  "rpmfilesFindOFN st files fn =
     (case (files, fn) of (Some fi, Some fn) \<Rightarrow> rpmfnFindFN st (fi_pool fi) (fi_ofndata fi) fn | _ \<Rightarrow> -1)"

definition cmpPfx :: "pools \<Rightarrow> rpmfiles option \<Rightarrow> nat \<Rightarrow> cstr \<Rightarrow> int" where
  "cmpPfx st files ix pfx = strncmp pfx (the (rpmfilesFN st files (int ix))) (length pfx)"

subsection \<open>Attributes\<close>

definition attr :: "(rpmfiles \<Rightarrow> 'a list option) \<Rightarrow> 'a \<Rightarrow> rpmfiles option \<Rightarrow> int \<Rightarrow> 'a" where
  "attr sel d fi ix = (case fi of None \<Rightarrow> d | Some f \<Rightarrow> arr_nth (rpmfilesFC fi) (sel f) d ix)"

definition rpmfilesFFlags :: "rpmfiles option \<Rightarrow> int \<Rightarrow> u32" where
  "rpmfilesFFlags = attr fi_fflags 0"

definition rpmfilesVFlags :: "rpmfiles option \<Rightarrow> int \<Rightarrow> u32" where
  "rpmfilesVFlags = attr fi_vflags 0"

definition rpmfilesFMode :: "rpmfiles option \<Rightarrow> int \<Rightarrow> nat" where
  "rpmfilesFMode = attr fi_fmodes 0"

definition rpmfilesFState :: "rpmfiles option \<Rightarrow> int \<Rightarrow> int" where
  "rpmfilesFState = attr fi_fstates (-1)"

text \<open>The length of a digest is computed by the digest library: \<open>dl\<close>. The result is the digest, the algorithm and the
  length; the last two are only set for an index in range.\<close>

definition rpmfilesFDigest :: "(nat \<Rightarrow> nat) \<Rightarrow> rpmfiles option \<Rightarrow> int \<Rightarrow> 8 word list option \<times> (nat \<times> nat) option" where
  "rpmfilesFDigest dl fi ix =
     (case fi of None \<Rightarrow> (None, None)
      | Some f \<Rightarrow>
          if 0 \<le> ix \<and> ix < int (rpmfilesFC fi) then
            let diglen = dl (fi_digestalgo f) in
            (map_option (\<lambda>d. take diglen (drop (diglen * nat ix) d)) (fi_digests f), Some (fi_digestalgo f, diglen))
          else (None, None))"

definition rpmfilesFSignature :: "rpmfiles option \<Rightarrow> int \<Rightarrow> 8 word list option \<times> nat option" where
  "rpmfilesFSignature fi ix =
     (case fi of None \<Rightarrow> (None, None)
      | Some f \<Rightarrow>
          if 0 \<le> ix \<and> ix < int (rpmfilesFC fi) then
            (case (fi_signatures f, fi_signatureoffs f) of
               (Some sigs, Some so) \<Rightarrow>
                 let off = so ! nat ix; slen = so ! (nat ix + 1) - off in
                 (if slen > 0 then Some (take slen (drop off sigs)) else None, Some slen)
             | _ \<Rightarrow> (None, Some 0))
          else (None, None))"

definition rpmfilesVSignature :: "rpmfiles option \<Rightarrow> int \<Rightarrow> 8 word list option \<times> (nat \<times> nat) option" where
  "rpmfilesVSignature fi ix =
     (case fi of None \<Rightarrow> (None, None)
      | Some f \<Rightarrow>
          if 0 \<le> ix \<and> ix < int (rpmfilesFC fi) then
            (map_option (\<lambda>d. take (fi_veritysiglength f) (drop (fi_veritysiglength f * nat ix) d)) (fi_veritysigs f),
             Some (fi_veritysiglength f, fi_verityalgo f))
          else (None, None))"

text \<open>An attribute that is a string of the pool.\<close>

definition str_attr :: "(rpmfiles \<Rightarrow> nat list option) \<Rightarrow> pools \<Rightarrow> rpmfiles option \<Rightarrow> int \<Rightarrow> cstr option" where
  "str_attr sel st fi ix =
     (case fi of None \<Rightarrow> None
      | Some f \<Rightarrow> arr_nth (rpmfilesFC fi) (map_option (map (pool_str st (fi_pool f))) (sel f)) None ix)"

definition rpmfilesFLink :: "pools \<Rightarrow> rpmfiles option \<Rightarrow> int \<Rightarrow> cstr option" where
  "rpmfilesFLink = str_attr fi_flinks"

definition rpmfilesFSize :: "rpmfiles option \<Rightarrow> int \<Rightarrow> nat" where
  "rpmfilesFSize fi ix =
     (case fi of None \<Rightarrow> 0
      | Some f \<Rightarrow> if fi_fsizes f \<noteq> None then attr fi_fsizes 0 fi ix else attr fi_lfsizes 0 fi ix)"

definition rpmfilesFRdev :: "rpmfiles option \<Rightarrow> int \<Rightarrow> nat" where
  "rpmfilesFRdev = attr fi_frdevs 0"

definition rpmfilesFInode :: "rpmfiles option \<Rightarrow> int \<Rightarrow> nat" where
  "rpmfilesFInode = attr fi_finodes 0"

definition rpmfilesColor :: "rpmfiles option \<Rightarrow> u32" where
  "rpmfilesColor files =
     (case files of None \<Rightarrow> 0
      | Some f \<Rightarrow> (case fi_fcolors f of None \<Rightarrow> 0
          | Some cs \<Rightarrow> foldl (\<lambda>color i. color OR cs ! i) 0 [0..<rpmfilesFC files] AND 0xf))"

definition rpmfilesFColor :: "rpmfiles option \<Rightarrow> int \<Rightarrow> u32" where
  "rpmfilesFColor fi ix = attr fi_fcolors 0 fi ix AND 0xf"

text \<open>An entry of a dictionary; the index is converted to \<open>int\<close>.\<close>

definition dict_attr ::
    "(rpmfiles \<Rightarrow> u32 list option) \<Rightarrow> (rpmfiles \<Rightarrow> cstr list option) \<Rightarrow> (rpmfiles \<Rightarrow> nat) \<Rightarrow> rpmfiles option \<Rightarrow> int \<Rightarrow> cstr option" where
  "dict_attr ixs dict n fi ix =
     (case fi of None \<Rightarrow> None
      | Some f \<Rightarrow>
          if ixs f \<noteq> None \<and> 0 \<le> ix \<and> ix < int (rpmfilesFC fi) then
            let x = sint (the (ixs f) ! nat ix) in
            case dict f of None \<Rightarrow> None | Some d \<Rightarrow> if 0 \<le> x \<and> x < int (n f) then Some (d ! nat x) else None
          else None)"

definition rpmfilesFClass :: "rpmfiles option \<Rightarrow> int \<Rightarrow> cstr option" where
  "rpmfilesFClass = dict_attr fi_fcdictx fi_cdict fi_ncdict"

definition rpmfilesFMime :: "rpmfiles option \<Rightarrow> int \<Rightarrow> cstr option" where
  "rpmfilesFMime = dict_attr fi_fmdictx fi_mdict fi_nmdict"

text \<open>The number of dependencies of a file and, if they are inside of the dictionary, the dependencies. The two arrays
  need not have an entry per file, so reads are checked; the sum of two \<open>int\<close>s is compared as \<open>unsigned\<close>.\<close>

datatype fi_error = FiBadData | FiPoolLoop | FiOverread | FiNull | FiUninit

definition read_u32 :: "u32 list \<Rightarrow> int \<Rightarrow> fi_error + int" where
  "read_u32 xs ix = (if nat ix < length xs then Inr (sint (xs ! nat ix)) else Inl FiOverread)"

definition rpmfilesFDepends :: "rpmfiles option \<Rightarrow> int \<Rightarrow> fi_error + (int \<times> u32 list option)" where
  "rpmfilesFDepends fi ix =
     (case fi of None \<Rightarrow> Inr (0, None)
      | Some f \<Rightarrow>
          if 0 \<le> ix \<and> ix < int (rpmfilesFC fi) then
            rbind (case fi_fddictn f of None \<Rightarrow> Inr 0 | Some ns \<Rightarrow> read_u32 ns ix) (\<lambda>n.
            rbind (if n > 0 then case fi_fddictx f of None \<Rightarrow> Inr (-1) | Some xs \<Rightarrow> read_u32 xs ix else Inr (-1)) (\<lambda>x.
            Inr (n, case fi_ddict f of None \<Rightarrow> None
                 | Some d \<Rightarrow>
                     if 0 \<le> x \<and> unat (word_of_int (x + n) :: u32) \<le> fi_nddict f then Some (drop (nat x) d) else None)))
          else Inr (0, None))"

text \<open>\<open>files\<close> is what the pointer of the caller points to; it is left as it is if no file has links.\<close>

definition rpmfilesFLinks :: "rpmfiles option \<Rightarrow> int \<Rightarrow> nat list option \<Rightarrow> nat \<times> nat list option" where
  "rpmfilesFLinks fi ix files =
     (case fi of None \<Rightarrow> (0, files)
      | Some f \<Rightarrow>
          if 0 \<le> ix \<and> ix < int (rpmfilesFC fi) then
            (case fi_nlinks f of None \<Rightarrow> (1, files)
             | Some m \<Rightarrow> (case m (nat ix) of None \<Rightarrow> (1, None) | Some ls \<Rightarrow> (length ls, Some ls)))
          else (0, files))"

definition rpmfilesFNlink :: "rpmfiles option \<Rightarrow> int \<Rightarrow> nat" where
  "rpmfilesFNlink fi ix = fst (rpmfilesFLinks fi ix None)"

definition rpmfilesFMtime :: "rpmfiles option \<Rightarrow> int \<Rightarrow> nat" where
  "rpmfilesFMtime = attr fi_fmtimes 0"

definition rpmfilesFUser :: "pools \<Rightarrow> rpmfiles option \<Rightarrow> int \<Rightarrow> cstr option" where
  "rpmfilesFUser = str_attr fi_fuser"

definition rpmfilesFGroup :: "pools \<Rightarrow> rpmfiles option \<Rightarrow> int \<Rightarrow> cstr option" where
  "rpmfilesFGroup = str_attr fi_fgroup"

definition rpmfilesFCaps :: "rpmfiles option \<Rightarrow> int \<Rightarrow> cstr option" where
  "rpmfilesFCaps fi ix =
     (case fi of None \<Rightarrow> None
      | Some f \<Rightarrow>
          if 0 \<le> ix \<and> ix < int (rpmfilesFC fi)
          then Some (case fi_fcaps f of None \<Rightarrow> [] | Some cs \<Rightarrow> cs ! nat ix) else None)"

definition rpmfilesFLangs :: "pools \<Rightarrow> rpmfiles option \<Rightarrow> int \<Rightarrow> cstr option" where
  "rpmfilesFLangs = str_attr fi_flangs"

definition rpmfilesSetFReplacedSize :: "rpmfiles option \<Rightarrow> int \<Rightarrow> nat \<Rightarrow> rpmfiles option" where
  "rpmfilesSetFReplacedSize fi ix newsize =
     map_option (\<lambda>f.
       if 0 \<le> ix \<and> ix < int (rpmfilesFC fi) then
         let sizes = (case fi_replacedSizes f of None \<Rightarrow> replicate (rpmfilesFC fi) 0 | Some s \<Rightarrow> s) in
         f\<lparr>fi_replacedSizes := Some (sizes[nat ix := newsize])\<rparr>
       else f) fi"

definition rpmfilesFReplacedSize :: "rpmfiles option \<Rightarrow> int \<Rightarrow> nat" where
  "rpmfilesFReplacedSize = attr fi_replacedSizes 0"

subsection \<open>Construction from a header\<close>

text \<open>What is read of a header: string arrays, numbers at the width of the array that they are read into, the size of
  the data of a tag in bytes, and the database instance.\<close>

record file_hdr =
  fh_strs :: "rpmTagVal \<Rightarrow> cstr list option"
  fh_nums :: "rpmTagVal \<Rightarrow> nat list option"
  fh_size :: "rpmTagVal \<Rightarrow> nat"
  fh_instance :: nat

definition indexSane :: "cstr list option \<Rightarrow> cstr list option \<Rightarrow> nat list option \<Rightarrow> bool" where
  "indexSane xd yd zd =
     (let xc = length (tag_data xd); yc = length (tag_data yd); zc = length (tag_data zd) in
      xc > 0 \<and> yc > 0 \<and> zc = xc \<and> length (takeWhile (\<lambda>i. i < yc) (tag_data zd)) = zc)"

abbreviation RPMTAG_BASENAMES :: rpmTagVal where "RPMTAG_BASENAMES \<equiv> 1117"
abbreviation RPMTAG_ORIGBASENAMES :: rpmTagVal where "RPMTAG_ORIGBASENAMES \<equiv> 1120"

definition pool_td :: "pools \<Rightarrow> nat \<Rightarrow> cstr list \<Rightarrow> fi_error + (pools \<times> nat list)" where
  "pool_td st pool strs = (case td2pool st pool strs of None \<Rightarrow> Inl FiPoolLoop | Some r \<Rightarrow> Inr r)"

abbreviation no_fn :: rpmfn where
  "no_fn \<equiv> \<lparr>fn_dc = 0, fn_fc = 0, fn_bnid = None, fn_dnid = None, fn_dil = None\<rparr>"

definition rpmfnInit :: "pools \<Rightarrow> rpmTagVal \<Rightarrow> file_hdr \<Rightarrow> nat \<Rightarrow> fi_error + (pools \<times> rpmfn \<times> int)" where
  "rpmfnInit st bntag h pool =
     (if bntag \<noteq> RPMTAG_BASENAMES \<and> bntag \<noteq> RPMTAG_ORIGBASENAMES then Inr (st, no_fn, -1)
      else
        let dntag = (if bntag = RPMTAG_BASENAMES then 1118 else 1121);
            ditag = (if bntag = RPMTAG_BASENAMES then 1116 else 1119) in
        case fh_strs h bntag of None \<Rightarrow> Inr (st, no_fn, 0)
        | Some bn \<Rightarrow>
            if indexSane (Some bn) (fh_strs h dntag) (fh_nums h ditag) then
              let dn = tag_data (fh_strs h dntag) in
              rbind (pool_td st pool bn) (\<lambda>(st, bnid).
              rbind (pool_td st pool dn) (\<lambda>(st, dnid).
              Inr (st, \<lparr>fn_dc = length dn, fn_fc = length bn, fn_bnid = Some bnid, fn_dnid = Some dnid,
                        fn_dil = Some (map of_nat (tag_data (fh_nums h ditag)))\<rparr>, int (length bn))))
            else Inr (st, no_fn, -1))"

definition tag2pool :: "pools \<Rightarrow> nat \<Rightarrow> file_hdr \<Rightarrow> rpmTagVal \<Rightarrow> nat \<Rightarrow> fi_error + (pools \<times> nat list option)" where
  "tag2pool st pool h tag n =
     (case fh_strs h tag of None \<Rightarrow> Inr (st, None)
      | Some strs \<Rightarrow>
          if length strs = n then rbind (pool_td st pool strs) (\<lambda>(st, ids). Inr (st, Some ids)) else Inr (st, None))"

text \<open>The macros that get file data: \<open>w\<close> is the size of an element, \<open>skip\<close> says that the flags exclude the tag. Every tag
  has the type of its table; the checks of headers that are read see to that.\<close>

definition hgfi :: "file_hdr \<Rightarrow> nat \<Rightarrow> bool \<Rightarrow> rpmTagVal \<Rightarrow> nat \<Rightarrow> fi_error + nat list option" where
  "hgfi h totalfc skip tag w =
     (if skip then Inr None
      else case fh_nums h tag of None \<Rightarrow> Inr None
        | Some xs \<Rightarrow>
            if length xs \<noteq> totalfc then Inl FiBadData
            else if fh_size h tag < totalfc * w then Inl FiBadData else Inr (Some xs))"

definition hgfi_strs :: "file_hdr \<Rightarrow> nat \<Rightarrow> bool \<Rightarrow> rpmTagVal \<Rightarrow> fi_error + cstr list option" where
  "hgfi_strs h totalfc skip tag =
     (if skip then Inr None
      else case fh_strs h tag of None \<Rightarrow> Inr None
        | Some xs \<Rightarrow> if length xs \<noteq> totalfc then Inl FiBadData else Inr (Some xs))"

definition rpmIsValidHex :: "cstr \<Rightarrow> nat \<Rightarrow> bool" where
  "rpmIsValidHex str slen \<longleftrightarrow> even slen \<and> list_all (\<lambda>c. c \<in> set ''0123456789abcdefABCDEF'') str"

fun hex_bytes :: "nat \<Rightarrow> cstr \<Rightarrow> 8 word list" where
  "hex_bytes (Suc n) (a # b # s) = (push_bit 4 (of_nat (rnibble a)) OR of_nat (rnibble b)) # hex_bytes n s"
| "hex_bytes _ _ = []"

text \<open>The binary data of all strings and the offset of each, with the end as the last offset.\<close>

fun binv_loop :: "cstr list \<Rightarrow> nat list \<Rightarrow> 8 word list \<Rightarrow> (nat list \<times> 8 word list) option" where
  "binv_loop [] so bin = Some (so @ [length bin], bin)"
| "binv_loop (s # ss) so bin =
     (if \<not> rpmIsValidHex s (length s) then None
      else binv_loop ss (so @ [length bin]) (bin @ hex_bytes (length s div 2) s))"

definition hex2binv ::
    "file_hdr \<Rightarrow> rpmTagVal \<Rightarrow> nat \<Rightarrow> fi_error + (nat list option \<times> 8 word list option)" where
  "hex2binv h tag n =
     (case fh_strs h tag of None \<Rightarrow> Inr (None, None)
      | Some ss \<Rightarrow>
          if fh_size h tag \<noteq> 0 \<and> length ss = n then
            (case binv_loop ss [] [] of None \<Rightarrow> Inl FiBadData | Some (so, bin) \<Rightarrow> Inr (Some so, Some bin))
          else Inl FiBadData)"

fun hex_loop :: "nat \<Rightarrow> cstr list \<Rightarrow> 8 word list \<Rightarrow> 8 word list option" where
  "hex_loop len [] bin = Some bin"
| "hex_loop len (s # ss) bin =
     (if s = [] then hex_loop len ss (bin @ replicate len 0)
      else if length s \<noteq> len * 2 then None
      else hex_loop len ss (bin @ hex_bytes len s))"

definition hex2bin :: "file_hdr \<Rightarrow> rpmTagVal \<Rightarrow> nat \<Rightarrow> nat \<Rightarrow> 8 word list option" where
  "hex2bin h tag n len =
     (case fh_strs h tag of None \<Rightarrow> None | Some ss \<Rightarrow> if length ss = n then hex_loop len ss [] else None)"

text \<open>The decoded strings, \<open>None\<close> for an empty one; the failure of one decoding fails all.\<close>

fun base_loop :: "cstr list \<Rightarrow> 8 word list option list option" where
  "base_loop [] = Some []"
| "base_loop (s # ss) =
     (if s = [] then map_option ((#) None) (base_loop ss)
      else case rpmBase64Decode (Some s) of Inl _ \<Rightarrow> None | Inr d \<Rightarrow> map_option ((#) (Some d)) (base_loop ss))"

definition base2bin :: "file_hdr \<Rightarrow> rpmTagVal \<Rightarrow> nat \<Rightarrow> nat \<times> 8 word list option" where
  "base2bin h tag n =
     (case fh_strs h tag of None \<Rightarrow> (0, None)
      | Some ss \<Rightarrow>
          if length ss \<noteq> n then (0, None)
          else case base_loop ss of None \<Rightarrow> (0, None)
            | Some ds \<Rightarrow>
                let maxlen = foldr max (map (\<lambda>d. length (tag_data d)) ds) 0 in
                if maxlen = 0 then (0, None)
                else (maxlen, Some (concat (map (\<lambda>d. tag_data d @ replicate (maxlen - length (tag_data d)) 0) ds))))"

subsection \<open>Hard links\<close>

definition S_ISREG :: "nat \<Rightarrow> bool" where "S_ISREG m \<longleftrightarrow> (m AND 0xF000) = 0x8000"
definition S_ISLNK :: "nat \<Rightarrow> bool" where "S_ISLNK m \<longleftrightarrow> (m AND 0xF000) = 0xA000"
definition S_ISDIR :: "nat \<Rightarrow> bool" where "S_ISDIR m \<longleftrightarrow> (m AND 0xF000) = 0x4000"
definition S_ISCHR :: "nat \<Rightarrow> bool" where "S_ISCHR m \<longleftrightarrow> (m AND 0xF000) = 0x2000"
definition S_ISBLK :: "nat \<Rightarrow> bool" where "S_ISBLK m \<longleftrightarrow> (m AND 0xF000) = 0x6000"
definition S_ISFIFO :: "nat \<Rightarrow> bool" where "S_ISFIFO m \<longleftrightarrow> (m AND 0xF000) = 0x1000"
definition S_ISSOCK :: "nat \<Rightarrow> bool" where "S_ISSOCK m \<longleftrightarrow> (m AND 0xF000) = 0xC000"

abbreviation RPMFILE_CONFIG :: u32 where "RPMFILE_CONFIG \<equiv> 1"
abbreviation RPMFILE_DOC :: u32 where "RPMFILE_DOC \<equiv> 2"
abbreviation RPMFILE_MISSINGOK :: u32 where "RPMFILE_MISSINGOK \<equiv> 8"
abbreviation RPMFILE_NOREPLACE :: u32 where "RPMFILE_NOREPLACE \<equiv> 16"
abbreviation RPMFILE_GHOST :: u32 where "RPMFILE_GHOST \<equiv> 64"

abbreviation flag_set :: "u32 \<Rightarrow> u32 \<Rightarrow> bool" where
  "flag_set f m \<equiv> f AND m \<noteq> 0"

text \<open>A file that may be a hard link, and its key.\<close>

definition real_file :: "rpmfiles option \<Rightarrow> nat \<Rightarrow> bool" where
  "real_file fi i \<longleftrightarrow> S_ISREG (rpmfilesFMode fi (int i)) \<and> \<not> flag_set (rpmfilesFFlags fi (int i)) RPMFILE_GHOST"

fun collect_ids ::
    "rpmfiles option \<Rightarrow> (nat \<Rightarrow> nat \<times> nat) \<Rightarrow> nat list \<Rightarrow> (nat \<times> nat \<Rightarrow> nat list) \<Rightarrow> bool \<Rightarrow> (nat \<times> nat \<Rightarrow> nat list) \<times> bool" where
  "collect_ids fi fid [] files havelinks = (files, havelinks)"
| "collect_ids fi fid (i # is) files havelinks =
     (if \<not> real_file fi i \<or> snd (fid i) = 0 then collect_ids fi fid is files havelinks
      else
        let ls = files (fid i) @ [i] in
        collect_ids fi fid is (files(fid i := ls)) (havelinks \<or> length ls > 1))"

fun insert_links :: "nat list \<Rightarrow> nat list \<Rightarrow> (nat \<Rightarrow> nat list option) \<Rightarrow> nat \<Rightarrow> nat list option" where
  "insert_links [] ls m = m"
| "insert_links (j # js) ls m = insert_links js ls (if m j = None then m(j := Some ls) else m)"

fun transfer_links ::
    "rpmfiles option \<Rightarrow> (nat \<Rightarrow> nat \<times> nat) \<Rightarrow> (nat \<times> nat \<Rightarrow> nat list) \<Rightarrow> nat list \<Rightarrow> (nat \<Rightarrow> nat list option) \<Rightarrow> nat \<Rightarrow> nat list option" where
  "transfer_links fi fid files [] m = m"
| "transfer_links fi fid files (i # is) m =
     transfer_links fi fid files is
       (if real_file fi i \<and> length (files (fid i)) > 1 then insert_links (files (fid i)) (files (fid i)) m else m)"

definition rpmfilesBuildNLink :: "rpmfiles \<Rightarrow> file_hdr \<Rightarrow> rpmfiles" where
  "rpmfilesBuildNLink f h =
     (let totalfc = rpmfilesFC (Some f) in
      case fi_finodes f of None \<Rightarrow> f
      | Some inodes \<Rightarrow>
          (case hgfi h totalfc False 1095 4 of
             Inr (Some fdevs) \<Rightarrow>
               let fid = (\<lambda>i. (fdevs ! i, inodes ! i));
                   (files, havelinks) = collect_ids (Some f) fid [0..<totalfc] (\<lambda>_. []) False in
               if havelinks then f\<lparr>fi_nlinks := Some (transfer_links (Some f) fid files [0..<totalfc] (\<lambda>_. None))\<rparr> else f
           | _ \<Rightarrow> f))"

subsection \<open>The whole set\<close>

abbreviation fi_skip :: "u32 \<Rightarrow> nat \<Rightarrow> bool" where
  "fi_skip flags b \<equiv> bit flags b"

abbreviation words :: "nat list option \<Rightarrow> u32 list option" where
  "words \<equiv> map_option (map of_nat)"

definition char_value :: "nat \<Rightarrow> int" where
  "char_value n = (if n < 128 then int n else int n - 256)"

definition populate_attrs :: "file_hdr \<Rightarrow> u32 \<Rightarrow> rpmfiles \<Rightarrow> fi_error + rpmfiles" where
  "populate_attrs h flags f =
     (let fc = rpmfilesFC (Some f) in
      rbind (hgfi h fc (fi_skip flags 6) 1030 2) (\<lambda>modes.
      rbind (hgfi h fc (fi_skip flags 17) 1037 4) (\<lambda>fflags.
      rbind (hgfi h fc (fi_skip flags 16) 1045 4) (\<lambda>vflags.
      rbind (hgfi h fc (fi_skip flags 7) 1028 4) (\<lambda>sizes.
      rbind (hgfi h fc (fi_skip flags 7) 5008 8) (\<lambda>lsizes.
      rbind (hgfi h fc (fi_skip flags 15) 1140 4) (\<lambda>colors.
      Inr (f\<lparr>fi_fmodes := modes, fi_fflags := words fflags, fi_vflags := words vflags, fi_fsizes := sizes,
             fi_lfsizes := lsizes, fi_fcolors := words colors\<rparr>))))))))"

text \<open>The dictionaries and the ranges in the dictionary of dependencies are taken without a check of their number.\<close>

definition populate_dicts :: "file_hdr \<Rightarrow> u32 \<Rightarrow> rpmfiles \<Rightarrow> fi_error + rpmfiles" where
  "populate_dicts h flags f =
     (let fc = rpmfilesFC (Some f);
          f = (if fi_skip flags 1 then f else f\<lparr>fi_cdict := fh_strs h 1142, fi_ncdict := length (tag_data (fh_strs h 1142))\<rparr>) in
      rbind (hgfi h fc (fi_skip flags 1) 1141 4) (\<lambda>cx.
      let f = f\<lparr>fi_fcdictx := words cx\<rparr>;
          f = (if fi_skip flags 20 then f else f\<lparr>fi_mdict := fh_strs h 5116, fi_nmdict := length (tag_data (fh_strs h 5116))\<rparr>) in
      rbind (hgfi h fc (fi_skip flags 20) 5115 4) (\<lambda>mx.
      let f = f\<lparr>fi_fmdictx := words mx\<rparr> in
      Inr (if fi_skip flags 2 then f
           else f\<lparr>fi_ddict := words (fh_nums h 1145), fi_nddict := length (tag_data (fh_nums h 1145)),
                  fi_fddictx := words (fh_nums h 1143), fi_fddictn := words (fh_nums h 1144)\<rparr>))))"

definition populate_strings :: "file_hdr \<Rightarrow> u32 \<Rightarrow> pools \<Rightarrow> rpmfiles \<Rightarrow> fi_error + (pools \<times> rpmfiles)" where
  "populate_strings h flags st f =
     (let fc = rpmfilesFC (Some f) in
      rbind (hgfi h fc (fi_skip flags 14) 1029 1) (\<lambda>states.
      rbind (hgfi_strs h fc (fi_skip flags 8) 5010) (\<lambda>caps.
      rbind (if fi_skip flags 9 then Inr (st, None) else tag2pool st (fi_pool f) h 1036 fc) (\<lambda>(st, links).
      rbind (if fh_instance h = 0 \<and> \<not> fi_skip flags 3 then tag2pool st (fi_pool f) h 1097 fc else Inr (st, None)) (\<lambda>(st, langs).
      Inr (st, f\<lparr>fi_fstates := map_option (map char_value) states, fi_fcaps := caps, fi_flinks := links, fi_flangs := langs\<rparr>))))))"

abbreviation RPM_HASH_MD5 :: nat where "RPM_HASH_MD5 \<equiv> 1"

definition populate_digests :: "(nat \<Rightarrow> nat) \<Rightarrow> file_hdr \<Rightarrow> u32 \<Rightarrow> rpmfiles \<Rightarrow> fi_error + rpmfiles" where
  "populate_digests dl h flags f =
     (let fc = rpmfilesFC (Some f);
          algo = (case fh_nums h 5011 of Some (a # _) \<Rightarrow> if dl a \<noteq> 0 then a else RPM_HASH_MD5 | _ \<Rightarrow> RPM_HASH_MD5);
          digests = (if fi_skip flags 10 then None else hex2bin h 1035 fc (dl algo)) in
      rbind (if fi_skip flags 18 then Inr (None, None) else hex2binv h 5090 fc) (\<lambda>(so, sigs).
      let (vlen, vsigs) = (if fi_skip flags 19 then (0, None) else base2bin h 276 fc);
          valgo = (if fi_skip flags 19 then 0 else case fh_nums h 277 of Some (a # _) \<Rightarrow> a mod 2 ^ 16 | _ \<Rightarrow> 0) in
      Inr (f\<lparr>fi_digestalgo := algo, fi_digests := digests, fi_signatureoffs := so, fi_signatures := sigs,
             fi_verityalgo := valgo, fi_veritysiglength := vlen, fi_veritysigs := vsigs\<rparr>)))"

definition populate_inodes :: "file_hdr \<Rightarrow> u32 \<Rightarrow> rpmfiles \<Rightarrow> fi_error + rpmfiles" where
  "populate_inodes h flags f =
     (let fc = rpmfilesFC (Some f) in
      rbind (hgfi h fc (fi_skip flags 11) 1034 4) (\<lambda>mtimes.
      rbind (hgfi h fc (fi_skip flags 12) 1033 2) (\<lambda>rdevs.
      rbind (hgfi h fc (fi_skip flags 13) 1096 4) (\<lambda>inodes.
      let f = f\<lparr>fi_fmtimes := mtimes, fi_frdevs := rdevs, fi_finodes := inodes\<rparr> in
      Inr (if fi_skip flags 13 then f else rpmfilesBuildNLink f h)))))"

definition populate_owner :: "file_hdr \<Rightarrow> bool \<Rightarrow> rpmTagVal \<Rightarrow> pools \<Rightarrow> rpmfiles \<Rightarrow> fi_error + (pools \<times> nat list option)" where
  "populate_owner h skip tag st f =
     (if skip then Inr (st, None)
      else rbind (tag2pool st (fi_pool f) h tag (rpmfilesFC (Some f))) (\<lambda>(st, ids).
        if ids = None then Inl FiBadData else Inr (st, ids)))"

definition rpmfilesPopulate ::
    "(nat \<Rightarrow> nat) \<Rightarrow> file_hdr \<Rightarrow> u32 \<Rightarrow> pools \<Rightarrow> rpmfiles \<Rightarrow> fi_error + (pools \<times> rpmfiles)" where
  "rpmfilesPopulate dl h flags st f =
     rbind (populate_attrs h flags f) (\<lambda>f.
     rbind (populate_dicts h flags f) (\<lambda>f.
     rbind (populate_strings h flags st f) (\<lambda>(st, f).
     rbind (populate_digests dl h flags f) (\<lambda>f.
     rbind (populate_inodes h flags f) (\<lambda>f.
     rbind (populate_owner h (fi_skip flags 4) 1039 st f) (\<lambda>(st, users).
     rbind (populate_owner h (fi_skip flags 5) 1040 st f) (\<lambda>(st, groups).
     Inr (st, f\<lparr>fi_fuser := users, fi_fgroup := groups\<rparr>))))))))"

definition empty_files :: "nat \<Rightarrow> rpmfn \<Rightarrow> rpmfn option \<Rightarrow> rpmfiles" where
  "empty_files pool fn ofn =
     \<lparr>fi_pool = pool, fi_fndata = fn, fi_ofndata = ofn, fi_flinks = None, fi_fflags = None, fi_fsizes = None,
      fi_lfsizes = None, fi_fmtimes = None, fi_fmodes = None, fi_frdevs = None, fi_finodes = None, fi_fuser = None,
      fi_fgroup = None, fi_flangs = None, fi_fstates = None, fi_fcolors = None, fi_fcaps = None, fi_cdict = None,
      fi_ncdict = 0, fi_fcdictx = None, fi_mdict = None, fi_nmdict = 0, fi_fmdictx = None, fi_ddict = None,
      fi_nddict = 0, fi_fddictx = None, fi_fddictn = None, fi_vflags = None, fi_digestalgo = 0,
      fi_signatureoffs = None, fi_veritysiglength = 0, fi_verityalgo = 0, fi_digests = None, fi_signatures = None,
      fi_veritysigs = None, fi_nlinks = None, fi_replacedSizes = None\<rparr>"

text \<open>A set in a pool of its own, which is frozen at the end, or in a shared pool. \<open>FiBadData\<close> is the result NULL.\<close>

definition rpmfilesNew :: "(nat \<Rightarrow> nat) \<Rightarrow> pools \<Rightarrow> nat option \<Rightarrow> file_hdr \<Rightarrow> u32 \<Rightarrow> fi_error + (pools \<times> rpmfiles)" where
  "rpmfilesNew dl st pool h flags =
     rbind (case pool of Some p \<Rightarrow> Inr (st, p)
            | None \<Rightarrow> (case rpmstrPoolCreate of None \<Rightarrow> Inl FiPoolLoop | Some new \<Rightarrow> Inr (st @ [new], length st))) (\<lambda>(st, p).
      rbind (rpmfnInit st RPMTAG_BASENAMES h p) (\<lambda>(st, fn, fc).
      if fc < 0 then Inl FiBadData
      else
        rbind (if fc > 0 then
            rbind (if fh_strs h RPMTAG_ORIGBASENAMES \<noteq> None then
                rbind (rpmfnInit st RPMTAG_ORIGBASENAMES h p) (\<lambda>(st, ofn, ofc).
                  if ofc \<noteq> 0 \<and> ofc \<noteq> fc then Inl FiBadData else Inr (st, ofn))
              else Inr (st, fn)) (\<lambda>(st, ofn). rpmfilesPopulate dl h flags st (empty_files p fn (Some ofn)))
          else Inr (st, empty_files p fn None)) (\<lambda>(st, f).
        Inr (if pool = None then st[p := rpmstrPoolFreeze (st ! p) False] else st, f))))"

subsection \<open>Iterators\<close>

text \<open>The iterators that need no archive. The callback for a change of the directory sees the indices of the file and of
  the directory; a negative result is passed on.\<close>

datatype iterfunc = IterFwd | IterBack | IterInterval

record rpmfi =
  it_i :: int
  it_j :: int
  it_next :: iterfunc
  it_intervalStart :: int
  it_intervalEnd :: int
  it_onChdir :: "(int \<Rightarrow> int \<Rightarrow> int) option"
  it_files :: "rpmfiles option"

abbreviation RPMERR_ITER_END :: int where "RPMERR_ITER_END \<equiv> -1"

definition rpmfiFC :: "rpmfi option \<Rightarrow> nat" where
  "rpmfiFC fi = (case fi of None \<Rightarrow> 0 | Some it \<Rightarrow> rpmfilesFC (it_files it))"

definition rpmfiFX :: "rpmfi option \<Rightarrow> int" where
  "rpmfiFX fi = (case fi of None \<Rightarrow> -1 | Some it \<Rightarrow> it_i it)"

definition rpmfiDX :: "rpmfi option \<Rightarrow> int" where
  "rpmfiDX fi = (case fi of None \<Rightarrow> -1 | Some it \<Rightarrow> it_j it)"

definition rpmfiSetOnChdir :: "rpmfi option \<Rightarrow> (int \<Rightarrow> int \<Rightarrow> int) option \<Rightarrow> rpmfi option \<times> int" where
  "rpmfiSetOnChdir fi cb = (case fi of None \<Rightarrow> (None, -1) | Some it \<Rightarrow> (Some (it\<lparr>it_onChdir := cb\<rparr>), 0))"

definition rpmfiSetFX :: "rpmfi option \<Rightarrow> int \<Rightarrow> rpmfi option \<times> int" where
  "rpmfiSetFX fi fx =
     (case fi of None \<Rightarrow> (None, -1)
      | Some it \<Rightarrow>
          if 0 \<le> fx \<and> fx < int (rpmfilesFC (it_files it)) then
            let dx = it_j it; it = it\<lparr>it_i := fx, it_j := rpmfilesDI (it_files it) fx\<rparr>;
                i = (case it_onChdir it of
                       Some cb \<Rightarrow> if it_j it \<noteq> dx \<and> cb (it_i it) (it_j it) < 0 then cb (it_i it) (it_j it) else fx
                     | None \<Rightarrow> fx)
            in (Some it, i)
          else (Some it, -1))"

definition iter_next :: "rpmfi \<Rightarrow> int" where
  "iter_next it =
     (case it_next it of
        IterFwd \<Rightarrow> it_i it + 1
      | IterBack \<Rightarrow> it_i it - 1
      | IterInterval \<Rightarrow>
          if it_i it = -1 then it_intervalStart it
          else if it_i it + 1 < it_intervalEnd it then it_i it + 1 else RPMERR_ITER_END)"

definition rpmfiNext :: "rpmfi option \<Rightarrow> rpmfi option \<times> int" where
  "rpmfiNext fi =
     (case fi of None \<Rightarrow> (None, -1)
      | Some it \<Rightarrow> let n = iter_next it in if n \<ge> 0 then rpmfiSetFX fi n else (fi, n))"

definition rpmfiInit :: "rpmfi option \<Rightarrow> int \<Rightarrow> rpmfi option" where
  "rpmfiInit fi fx =
     map_option (\<lambda>it. if 0 \<le> fx \<and> fx < int (rpmfilesFC (it_files it)) then it\<lparr>it_i := fx - 1, it_j := -1\<rparr> else it) fi"

definition initIter :: "rpmfiles option \<Rightarrow> iterfunc \<Rightarrow> rpmfi option" where
  "initIter files itype =
     map_option (\<lambda>f. \<lparr>it_i = (if itype = IterBack then int (rpmfilesFC files) else -1), it_j = -1, it_next = itype,
       it_intervalStart = 0, it_intervalEnd = 0, it_onChdir = None, it_files = files\<rparr>) files"

definition rpmfilesIter :: "rpmfiles option \<Rightarrow> iterfunc \<Rightarrow> rpmfi option" where
  "rpmfilesIter files itype = initIter files itype"

definition rpmfilesFindPrefix :: "pools \<Rightarrow> rpmfiles option \<Rightarrow> cstr option \<Rightarrow> rpmfi option" where
  "rpmfilesFindPrefix st fi pfx =
     (case (fi, pfx) of
        (Some f, Some pfx) \<Rightarrow>
          let (l, u) = search_range (\<lambda>i. cmpPfx st fi i pfx) (rpmfilesFC fi) 0 (rpmfilesFC fi) in
          if l < u then map_option (\<lambda>it. it\<lparr>it_intervalStart := int l, it_intervalEnd := int u\<rparr>) (initIter fi IterInterval)
          else None
      | _ \<Rightarrow> None)"

subsection \<open>Comparing files\<close>

datatype rpmFileTypes = PIPE | CDEV | XDIR | BDEV | REG | LINK | SOCK

definition rpmfiWhatis :: "nat \<Rightarrow> rpmFileTypes" where
  "rpmfiWhatis mode =
     (if S_ISDIR mode then XDIR else if S_ISCHR mode then CDEV else if S_ISBLK mode then BDEV
      else if S_ISLNK mode then LINK else if S_ISSOCK mode then SOCK else if S_ISFIFO mode then PIPE else REG)"

fun bytes_cmp :: "8 word list \<Rightarrow> 8 word list \<Rightarrow> int" where
  "bytes_cmp (x # xs) (y # ys) = (if x = y then bytes_cmp xs ys else if x < y then -1 else 1)"
| "bytes_cmp [] [] = 0"
| "bytes_cmp [] (_ # _) = -1"
| "bytes_cmp (_ # _) [] = 1"

definition memcmp :: "8 word list \<Rightarrow> 8 word list \<Rightarrow> nat \<Rightarrow> int" where
  "memcmp a b n = bytes_cmp (take n a) (take n b)"

text \<open>Comparing a NULL string is undefined.\<close>

definition rstreq_null :: "cstr option \<Rightarrow> cstr option \<Rightarrow> fi_error + bool" where
  "rstreq_null a b = (case (a, b) of (Some a, Some b) \<Rightarrow> Inr (rstreq a b) | _ \<Rightarrow> Inl FiNull)"

text \<open>The comparison of two strings or digests by their addresses is subsumed by that of their contents.\<close>

definition compare_content :: "(nat \<Rightarrow> nat) \<Rightarrow> pools \<Rightarrow> rpmFileTypes \<Rightarrow> rpmfiles option \<Rightarrow> int \<Rightarrow> rpmfiles option \<Rightarrow> int \<Rightarrow> int" where
  "compare_content dl st awhat afi aix bfi bix =
     (if awhat = LINK then
        (case (rpmfilesFLink st afi aix, rpmfilesFLink st bfi bix) of
           (None, None) \<Rightarrow> 0 | (None, _) \<Rightarrow> 1 | (_, None) \<Rightarrow> -1 | (Some alink, Some blink) \<Rightarrow> strcmp alink blink)
      else if awhat = REG then
        (case (rpmfilesFDigest dl afi aix, rpmfilesFDigest dl bfi bix) of
           ((None, _), (None, _)) \<Rightarrow> 0 | ((None, _), _) \<Rightarrow> 1 | (_, (None, _)) \<Rightarrow> -1
         | ((Some a, al), (Some b, bl)) \<Rightarrow> if al \<noteq> bl then -1 else memcmp a b (snd (the al)))
      else if (awhat = CDEV \<or> awhat = BDEV) \<and> rpmfilesFRdev afi aix \<noteq> rpmfilesFRdev bfi bix then 1
      else 0)"

definition rpmfilesCompare ::
    "(nat \<Rightarrow> nat) \<Rightarrow> pools \<Rightarrow> rpmfiles option \<Rightarrow> int \<Rightarrow> rpmfiles option \<Rightarrow> int \<Rightarrow> fi_error + int" where
  "rpmfilesCompare dl st afi aix bfi bix =
     (let amode = rpmfilesFMode afi aix; bmode = rpmfilesFMode bfi bix; awhat = rpmfiWhatis amode in
      if flag_set (rpmfilesFFlags afi aix) RPMFILE_GHOST \<or> flag_set (rpmfilesFFlags bfi bix) RPMFILE_GHOST then Inr 0
      else if \<not> (awhat = LINK \<and> rpmfiWhatis bmode = LINK) \<and> amode \<noteq> bmode then Inr 1
      else if (awhat = LINK \<or> awhat = REG) \<and> rpmfilesFSize afi aix \<noteq> rpmfilesFSize bfi bix then Inr 1
      else
        rbind (rstreq_null (rpmfilesFUser st afi aix) (rpmfilesFUser st bfi bix)) (\<lambda>same.
        if \<not> same then Inr 1
        else rbind (rstreq_null (rpmfilesFGroup st afi aix) (rpmfilesFGroup st bfi bix)) (\<lambda>same.
          if \<not> same then Inr 1 else Inr (compare_content dl st awhat afi aix bfi bix))))"

section \<open>Properties\<close>

subsection \<open>The search for a path\<close>

text \<open>The name of file \<open>i\<close> without a leading slash.\<close>

definition rel_name :: "pools \<Rightarrow> nat \<Rightarrow> rpmfn \<Rightarrow> nat \<Rightarrow> cstr" where
  "rel_name st pool fn i =
     (let dn = the (rpmfnDN st pool (Some fn) (rpmfnDI (Some fn) (int i))) in
      (if starts_with (CHR ''/'') dn then tl dn else dn) @ the (rpmfnBN st pool (Some fn) (int i)))"

lemma strncmp_length: "strncmp s t (length s) = 0 \<longleftrightarrow> take (length s) t = s"
  by (auto simp: strncmp_def)

lemma cmpPoolFn_0: "cmpPoolFn st pool (Some fn) (int i) s = 0 \<longleftrightarrow> rel_name st pool fn i = s"
proof -
  have "r @ b = s \<longleftrightarrow> take (length r) s = r \<and> b = drop (length r) s" for r b :: cstr
    by (metis append_take_drop_id append_eq_conv_conj)
  then show ?thesis
    by (simp add: cmpPoolFn_def rel_name_def Let_def rpmfnDN_def strncmp_length)
qed

text \<open> C16: The search for a path is complete whether the names are sorted or not: it returns the index of a file that
  has the path, without the prefix of payloads and without a leading slash, or -1 if there is none.\<close>

theorem rpmfilesFindFN_complete:
  "(rpmfilesFindFN st (Some fi) (Some path) = -1 \<longleftrightarrow>
      (\<forall>i < rpmfilesFC (Some fi). rel_name st (fi_pool fi) (fi_fndata fi) i \<noteq> skip_prefix path)) \<and>
   (rpmfilesFindFN st (Some fi) (Some path) \<noteq> -1 \<longrightarrow>
      (\<exists>i < rpmfilesFC (Some fi). rpmfilesFindFN st (Some fi) (Some path) = int i \<and>
         rel_name st (fi_pool fi) (fi_fndata fi) i = skip_prefix path))"
proof -
  let ?c = "\<lambda>i. - cmpPoolFn st (fi_pool fi) (Some (fi_fndata fi)) (int i) (skip_prefix path)"
  have fc: "rpmfnFC (Some (fi_fndata fi)) = rpmfilesFC (Some fi)" by (simp add: rpmfilesFC_def)
  have f: "rpmfilesFindFN st (Some fi) (Some path) = (case bisect ?c 0 (rpmfilesFC (Some fi)) of
      (Some mid, _) \<Rightarrow> int mid
    | (None, _) \<Rightarrow> (case find (\<lambda>i. cmpPoolFn st (fi_pool fi) (Some (fi_fndata fi)) (int i) (skip_prefix path) = 0)
          [0..<rpmfilesFC (Some fi)] of None \<Rightarrow> -1 | Some i \<Rightarrow> int i))"
    by (simp add: rpmfilesFindFN_def rpmfnFindFN_def fc Let_def)
  show ?thesis
  proof (cases "bisect ?c 0 (rpmfilesFC (Some fi))")
    case (Pair m u)
    show ?thesis
    proof (cases m)
      case None
      then show ?thesis unfolding f Pair by (auto simp: find_Some_iff find_None_iff cmpPoolFn_0 split: option.splits)
    next
      case (Some mid)
      from bisect_Some [OF Pair [unfolded Some]] show ?thesis unfolding f Pair Some
        by (auto simp: cmpPoolFn_0)
    qed
  qed
qed

text \<open>An example: \<open>/etc/a\<close>, \<open>/usr/a\<close> and \<open>/usr/b\<close>.\<close>

definition demo_names :: rpmstrPool where
  "demo_names = \<lparr>offs = [''/usr/'', ''a'', ''b'', ''/etc/''], offs_alloced = 7, chunks_size = 1,
     chunks_allocated = 2, chunk_allocated = 32, chunk_used = 16, pool_hash = None, frozen = True\<rparr>"

definition demo_files :: rpmfiles where
  "demo_files = empty_files 0 \<lparr>fn_dc = 2, fn_fc = 3, fn_bnid = Some [2, 2, 3], fn_dnid = Some [1, 4], fn_dil = Some [1, 0, 0]\<rparr> None"

theorem rpmfilesFindFN_complete_witness:
  "\<exists>i < 3. rpmfilesFindFN [demo_names] (Some demo_files) (Some ''./usr/b'') = int i \<and>
     rel_name [demo_names] 0 (fi_fndata demo_files) i = ''usr/b''"
proof -
  have "rpmfilesFindFN [demo_names] (Some demo_files) (Some ''./usr/b'') = 2" "skip_prefix ''./usr/b'' = ''usr/b''"
    "rpmfilesFC (Some demo_files) = 3" "fi_pool demo_files = 0" by code_simp+
  then show ?thesis using rpmfilesFindFN_complete [of "[demo_names]" demo_files "''./usr/b''"] by simp
qed

subsection \<open>Iteration and prefixes\<close>

text \<open>The indices that repeated calls of \<open>rpmfiNext\<close> return, at most \<open>n\<close> of them.\<close>

fun visits :: "nat \<Rightarrow> rpmfi option \<Rightarrow> int list" where
  "visits 0 fi = []"
| "visits (Suc n) fi = (let (fi, i) = rpmfiNext fi in if i < 0 then [] else i # visits n fi)"

lemma strcmp_take: "strcmp s t \<le> 0 \<Longrightarrow> strcmp (take n s) (take n t) \<le> 0"
proof (induction s t arbitrary: n rule: strcmp.induct)
  case (2 y ys)
  then show ?case by (cases n) auto
next
  case (4 x xs y ys)
  then show ?case by (cases n) (auto split: if_splits)
qed auto

lemma rpmfiNext_step:
  assumes "iter_next it = int k" "k < rpmfilesFC (it_files it)" "it_onChdir it = None"
  shows "rpmfiNext (Some it) = (Some (it\<lparr>it_i := int k, it_j := rpmfilesDI (it_files it) (int k)\<rparr>), int k)"
  using assms by (simp add: rpmfiNext_def rpmfiSetFX_def Let_def)

lemma visits_interval:
  assumes "it_next it = IterInterval" "it_onChdir it = None" "it_intervalEnd it = int u" "u \<le> rpmfilesFC (it_files it)"
    "it_i it = int k" "k < u" "u - k \<le> n"
  shows "visits n (Some it) = map int [Suc k..<u]"
  using assms
proof (induction n arbitrary: it k)
  case (Suc n)
  show ?case
  proof (cases "Suc k < u")
    case True
    let ?it = "it\<lparr>it_i := int (Suc k), it_j := rpmfilesDI (it_files it) (int (Suc k))\<rparr>"
    have "rpmfiNext (Some it) = (Some ?it, int (Suc k))"
      using Suc.prems True by (intro rpmfiNext_step) (auto simp: iter_next_def)
    moreover have "visits n (Some ?it) = map int [Suc (Suc k)..<u]"
      using Suc.prems True by (intro Suc.IH) auto
    ultimately show ?thesis using True by (simp add: upt_conv_Cons)
  next
    case False
    then have "rpmfiNext (Some it) = (Some it, -1)"
      using Suc.prems by (simp add: rpmfiNext_def iter_next_def Let_def)
    then show ?thesis using False by simp
  qed
qed simp

lemma visits_fwd:
  assumes "it_next it = IterFwd" "it_onChdir it = None" "it_i it = int k - 1" "k \<le> rpmfilesFC (it_files it)"
    "rpmfilesFC (it_files it) - k < n"
  shows "visits n (Some it) = map int [k..<rpmfilesFC (it_files it)]"
  using assms
proof (induction n arbitrary: it k)
  case (Suc n)
  show ?case
  proof (cases "k < rpmfilesFC (it_files it)")
    case True
    let ?it = "it\<lparr>it_i := int k, it_j := rpmfilesDI (it_files it) (int k)\<rparr>"
    have "rpmfiNext (Some it) = (Some ?it, int k)"
      using Suc.prems True by (intro rpmfiNext_step) (auto simp: iter_next_def)
    moreover have "visits n (Some ?it) = map int [Suc k..<rpmfilesFC (it_files ?it)]"
      using Suc.prems True by (intro Suc.IH) auto
    ultimately show ?thesis using True by (simp add: upt_conv_Cons)
  next
    case False
    then have "rpmfiNext (Some it) = (Some it, -1)"
      using Suc.prems by (simp add: rpmfiNext_def rpmfiSetFX_def iter_next_def Let_def)
    then show ?thesis using False by simp
  qed
qed simp

lemma visits_back:
  assumes "it_next it = IterBack" "it_onChdir it = None" "it_i it = int k" "k \<le> rpmfilesFC (it_files it)" "k < n"
  shows "visits n (Some it) = map int (rev [0..<k])"
  using assms
proof (induction n arbitrary: it k)
  case (Suc n)
  show ?case
  proof (cases k)
    case 0
    then have "rpmfiNext (Some it) = (Some it, -1)"
      using Suc.prems by (simp add: rpmfiNext_def iter_next_def Let_def)
    then show ?thesis using 0 by simp
  next
    case (Suc j)
    let ?it = "it\<lparr>it_i := int j, it_j := rpmfilesDI (it_files it) (int j)\<rparr>"
    have "rpmfiNext (Some it) = (Some ?it, int j)"
      using Suc.prems Suc by (intro rpmfiNext_step) (auto simp: iter_next_def)
    moreover have "visits n (Some ?it) = map int (rev [0..<j])"
      using Suc.prems Suc by (intro Suc.IH) auto
    ultimately show ?thesis using Suc by simp
  qed
qed simp

text \<open>The two plain iterators visit every file once, in order or in reverse order, and then report the end.\<close>

lemma rpmfilesIter_visits:
  assumes "rpmfilesFC (Some f) < n"
  shows "visits n (rpmfilesIter (Some f) IterFwd) = map int [0..<rpmfilesFC (Some f)]"
    "visits n (rpmfilesIter (Some f) IterBack) = map int (rev [0..<rpmfilesFC (Some f)])"
  using assms visits_fwd [where k = 0 and n = n] visits_back [where k = "rpmfilesFC (Some f)" and n = n]
  by (simp_all add: rpmfilesIter_def initIter_def)

definition path_of :: "pools \<Rightarrow> rpmfiles \<Rightarrow> nat \<Rightarrow> cstr" where
  "path_of st f i = the (rpmfilesFN st (Some f) (int i))"

lemma cmpPfx_mono:
  assumes "strcmp (path_of st f i) (path_of st f j) \<le> 0"
  shows "cmpPfx st (Some f) i pfx < 0 \<Longrightarrow> cmpPfx st (Some f) j pfx < 0"
    "0 < cmpPfx st (Some f) j pfx \<Longrightarrow> 0 < cmpPfx st (Some f) i pfx"
proof -
  let ?p = "\<lambda>i. take (length pfx) (path_of st f i)"
  have c: "cmpPfx st (Some f) i pfx = strcmp pfx (?p i)" for i by (simp add: cmpPfx_def strncmp_def path_of_def)
  have le: "strcmp (?p i) (?p j) \<le> 0" using assms by (rule strcmp_take)
  show "cmpPfx st (Some f) i pfx < 0 \<Longrightarrow> cmpPfx st (Some f) j pfx < 0"
    unfolding c by (rule strcmp.cmp_less_le_trans [OF _ le])
  show "0 < cmpPfx st (Some f) j pfx \<Longrightarrow> 0 < cmpPfx st (Some f) i pfx"
    unfolding c using strcmp.cmp_le_less_trans [OF le, of pfx] strcmp.cmp_flip [of "?p j" pfx] strcmp.cmp_flip [of "?p i" pfx]
    by simp
qed

lemma filter_interval:
  assumes "\<And>k. l \<le> k \<and> k < u \<longleftrightarrow> k < n \<and> P k"
  shows "filter P [0..<n] = [l..<u]"
proof (rule sorted_distinct_set_unique)
  have "k \<in> set (filter P [0..<n]) \<longleftrightarrow> k \<in> set [l..<u]" for k using assms [of k] by auto
  then show "set (filter P [0..<n]) = set [l..<u]" by blast
qed (simp_all add: sorted_wrt_filter)

text \<open> C40: on a file set whose paths are in ascending order, iterating over the result of a search for a prefix visits
  exactly the files whose path begins with it, in order; there is no iterator if there are none.\<close>

theorem rpmfilesFindPrefix_visits:
  assumes "strcmp.ascending (map (path_of st f) [0..<rpmfilesFC (Some f)])" "rpmfilesFC (Some f) < n"
  shows "visits n (rpmfilesFindPrefix st (Some f) (Some pfx)) =
      map int (filter (\<lambda>i. take (length pfx) (path_of st f i) = pfx) [0..<rpmfilesFC (Some f)])
    \<and> (rpmfilesFindPrefix st (Some f) (Some pfx) = None \<longleftrightarrow>
        (\<forall>i < rpmfilesFC (Some f). take (length pfx) (path_of st f i) \<noteq> pfx))"
proof -
  let ?fc = "rpmfilesFC (Some f)" and ?c = "\<lambda>i. cmpPfx st (Some f) i pfx"
  let ?P = "\<lambda>i. take (length pfx) (path_of st f i) = pfx"
  obtain l u where lu: "search_range ?c ?fc 0 ?fc = (l, u)" by force
  have asc: "strcmp (path_of st f i) (path_of st f j) \<le> 0" if "i \<le> j" "j < ?fc" for i j
    using assms(1) that by (cases "i = j") (auto simp: strcmp.ascending_def strcmp.cmp_refl)
  have zero: "?c i = 0 \<longleftrightarrow> ?P i" for i by (auto simp: cmpPfx_def strncmp_def path_of_def)
  have range: "l \<le> k \<and> k < u \<longleftrightarrow> k < ?fc \<and> ?P k" for k
    unfolding zero [symmetric]
  proof (rule search_range_spec [OF lu])
    show "?c i < 0 \<Longrightarrow> ?c j < 0" "0 < ?c j \<Longrightarrow> 0 < ?c i" if "i \<le> j" "j < ?fc" for i j
      using cmpPfx_mono [OF asc [OF that]] by blast+
  qed simp_all
  have ufc: "u \<le> ?fc" if "l < u" using range [of "u - 1"] that by linarith
  have fil: "filter ?P [0..<?fc] = [l..<u]" by (rule filter_interval [OF range])
  show ?thesis
  proof (cases "l < u")
    case False
    then have "rpmfilesFindPrefix st (Some f) (Some pfx) = None" by (simp add: rpmfilesFindPrefix_def lu)
    moreover have "visits n None = []" by (cases n) (simp_all add: rpmfiNext_def)
    ultimately show ?thesis using False fil by (auto simp: filter_empty_conv)
  next
    case True
    let ?it = "\<lparr>it_i = -1, it_j = -1, it_next = IterInterval, it_intervalStart = int l, it_intervalEnd = int u,
      it_onChdir = None, it_files = Some f\<rparr>"
    have it: "rpmfilesFindPrefix st (Some f) (Some pfx) = Some ?it"
      using True by (simp add: rpmfilesFindPrefix_def lu initIter_def)
    have nxt: "rpmfiNext (Some ?it) = (Some (?it\<lparr>it_i := int l, it_j := rpmfilesDI (it_files ?it) (int l)\<rparr>), int l)"
      using True ufc by (intro rpmfiNext_step) (auto simp: iter_next_def)
    obtain m where m: "n = Suc m" using assms(2) by (cases n) auto
    have "visits m (Some (?it\<lparr>it_i := int l, it_j := rpmfilesDI (it_files ?it) (int l)\<rparr>)) = map int [Suc l..<u]"
      using True ufc assms(2) m by (intro visits_interval) auto
    then have "visits n (Some ?it) = map int [l..<u]" using nxt True m by (simp add: upt_conv_Cons)
    moreover have "l < ?fc \<and> ?P l" using range [of l] True by simp
    ultimately show ?thesis using it fil by auto
  qed
qed

theorem rpmfilesFindPrefix_visits_witness:
  "visits 4 (rpmfilesFindPrefix [demo_names] (Some demo_files) (Some ''/usr'')) = [1, 2]"
proof -
  have p: "map (path_of [demo_names] demo_files) [0..<rpmfilesFC (Some demo_files)] = [''/etc/a'', ''/usr/a'', ''/usr/b'']"
    "rpmfilesFC (Some demo_files) = 3" by code_simp+
  have "strcmp ''/etc/a'' ''/usr/a'' \<le> 0" "strcmp ''/etc/a'' ''/usr/b'' \<le> 0" "strcmp ''/usr/a'' ''/usr/b'' \<le> 0"
    by code_simp+
  then have "strcmp.ascending (map (path_of [demo_names] demo_files) [0..<rpmfilesFC (Some demo_files)])"
    unfolding p(1) strcmp.ascending_def by (auto simp: less_Suc_eq numeral_3_eq_3)
  then have "visits 4 (rpmfilesFindPrefix [demo_names] (Some demo_files) (Some ''/usr'')) =
      map int (filter (\<lambda>i. take (length ''/usr'') (path_of [demo_names] demo_files i) = ''/usr'') [0..<3])"
    using rpmfilesFindPrefix_visits [of "[demo_names]" demo_files 4 "''/usr''"] p(2) by simp
  also have "\<dots> = [1, 2]" by code_simp
  finally show ?thesis .
qed

end
