(* ===== verification/Rpmfi_Header.thy ===== *)
theory Rpmfi_Header
  imports Rpmfi
begin

text \<open>
  File information built from a header (lib/rpmfi.cc): which arrays are sure to have an entry per file, so that every
  access by index stays inside of them, where this fails, and the sets of hard links.
\<close>

subsection \<open>The invariant of a file set\<close>

definition opt_len :: "nat \<Rightarrow> 'a list option \<Rightarrow> bool" where
  "opt_len n arr \<longleftrightarrow> (case arr of None \<Rightarrow> True | Some xs \<Rightarrow> length xs = n)"

definition fn_wf :: "rpmfn \<Rightarrow> bool" where
  "fn_wf fn \<longleftrightarrow> opt_len (fn_fc fn) (fn_bnid fn) \<and> opt_len (fn_dc fn) (fn_dnid fn) \<and> opt_len (fn_fc fn) (fn_dil fn) \<and>
     (\<forall>ds. fn_dil fn = Some ds \<longrightarrow> (\<forall>d \<in> set ds. unat d < fn_dc fn))"

definition attrs_wf :: "rpmfiles \<Rightarrow> bool" where
  "attrs_wf f \<longleftrightarrow>
     (let n = fn_fc (fi_fndata f) in
      opt_len n (fi_flinks f) \<and> opt_len n (fi_fflags f) \<and> opt_len n (fi_fsizes f) \<and> opt_len n (fi_lfsizes f) \<and>
      opt_len n (fi_fmtimes f) \<and> opt_len n (fi_fmodes f) \<and> opt_len n (fi_frdevs f) \<and> opt_len n (fi_finodes f) \<and>
      opt_len n (fi_fuser f) \<and> opt_len n (fi_fgroup f) \<and> opt_len n (fi_flangs f) \<and> opt_len n (fi_fstates f) \<and>
      opt_len n (fi_fcolors f) \<and> opt_len n (fi_fcaps f) \<and> opt_len n (fi_vflags f) \<and> opt_len n (fi_replacedSizes f))"

definition dicts_wf :: "rpmfiles \<Rightarrow> bool" where
  "dicts_wf f \<longleftrightarrow>
     (let n = fn_fc (fi_fndata f) in
      opt_len n (fi_fcdictx f) \<and> opt_len n (fi_fmdictx f) \<and> opt_len (fi_ncdict f) (fi_cdict f) \<and>
      opt_len (fi_nmdict f) (fi_mdict f) \<and> opt_len (fi_nddict f) (fi_ddict f))"

definition digests_wf :: "(nat \<Rightarrow> nat) \<Rightarrow> rpmfiles \<Rightarrow> bool" where
  "digests_wf dl f \<longleftrightarrow>
     (let n = fn_fc (fi_fndata f) in
      opt_len (n * dl (fi_digestalgo f)) (fi_digests f) \<and> opt_len (n * fi_veritysiglength f) (fi_veritysigs f) \<and>
      opt_len (Suc n) (fi_signatureoffs f) \<and>
      (\<forall>so sigs. fi_signatureoffs f = Some so \<and> fi_signatures f = Some sigs \<longrightarrow> sorted so \<and> last so = length sigs))"

text \<open>The indexes and counts of the dependencies of files are not part of it: they are taken from the header without a
  check of their number.\<close>

definition files_wf :: "(nat \<Rightarrow> nat) \<Rightarrow> rpmfiles \<Rightarrow> bool" where
  "files_wf dl f \<longleftrightarrow> fn_wf (fi_fndata f) \<and> (\<forall>ofn. fi_ofndata f = Some ofn \<longrightarrow> fn_wf ofn) \<and>
     attrs_wf f \<and> dicts_wf f \<and> digests_wf dl f"

lemma opt_len_simps [simp]: "opt_len n None" "opt_len n (Some xs) \<longleftrightarrow> length xs = n" "opt_len n (map_option (map g) arr) \<longleftrightarrow> opt_len n arr"
  by (auto simp: opt_len_def split: option.splits)

lemma opt_len_tag_data [simp]: "opt_len (length (tag_data d)) d"
  by (cases d) auto

lemma hgfi_len: "hgfi h n skip tag w = Inr r \<Longrightarrow> opt_len n r"
  "hgfi_strs h n skip tag = Inr s \<Longrightarrow> opt_len n s"
  by (cases "fh_nums h tag"; cases "fh_strs h tag"; auto simp: hgfi_def hgfi_strs_def split: if_splits)+

lemma takeWhile_all: "length (takeWhile P xs) = n \<Longrightarrow> length xs = n \<Longrightarrow> x \<in> set xs \<Longrightarrow> P x"
  by (metis append_eq_conv_conj order_refl set_takeWhileD takeWhile_dropWhile_id take_all)

lemma takeWhile_less:
  "length (takeWhile (\<lambda>i. i < m) xs) = n \<Longrightarrow> length xs = n \<Longrightarrow> x \<in> set xs \<Longrightarrow> unat (of_nat x :: u32) < m"
  using takeWhile_all [of "\<lambda>i. i < m" xs n x] le_less_trans [OF mod_less_eq_dividend] by (simp add: unat_of_nat)

lemma td2pool_length: "td2pool st p ss = Some (st', ids) \<Longrightarrow> length ids = length ss"
  by (induction ss arbitrary: st st' ids) (auto simp: bind_eq_Some_conv)

lemma tag2pool_len: "tag2pool st p h tag n = Inr (st', r) \<Longrightarrow> opt_len n r"
  by (auto simp: tag2pool_def pool_td_def rbind_eq_Inr dest: td2pool_length split: option.splits if_splits)

lemma rpmfnInit_wf: "rpmfnInit st bntag h pool = Inr (st', fn, fc) \<Longrightarrow> fn_wf fn"
  by (auto simp: rpmfnInit_def Let_def pool_td_def rbind_eq_Inr fn_wf_def indexSane_def takeWhile_less
      dest!: td2pool_length split: if_splits option.splits)

lemma hex_bytes_length: "2 * n \<le> length s \<Longrightarrow> length (hex_bytes n s) = n"
  by (induction n s rule: hex_bytes.induct) auto

lemma hex_loop_length: "hex_loop len ss bin = Some r \<Longrightarrow> length r = length bin + length ss * len"
  by (induction len ss bin rule: hex_loop.induct) (auto simp: hex_bytes_length split: if_splits)

lemma hex2bin_len: "opt_len (n * len) (hex2bin h tag n len)"
  using hex_loop_length [of len _ "[]"]
  by (cases "fh_strs h tag"; cases "hex_loop len (the (fh_strs h tag)) []") (auto simp: hex2bin_def)

lemma binv_loop_sorted:
  "binv_loop ss so bin = Some (so', bin') \<Longrightarrow> sorted so \<Longrightarrow> \<forall>x \<in> set so. x \<le> length bin \<Longrightarrow>
    length so' = length so + length ss + 1 \<and> sorted so' \<and> last so' = length bin'"
proof (induction ss so bin rule: binv_loop.induct)
  case (2 s ss so bin)
  have "\<forall>x \<in> set (so @ [length bin]). x \<le> length (bin @ hex_bytes (length s div 2) s)"
    using "2.prems"(3) by (auto intro: trans_le_add1)
  moreover have "sorted (so @ [length bin])" using "2.prems" by (simp add: sorted_append)
  ultimately show ?case using 2 by (simp split: if_splits)
qed (auto simp: sorted_append)

lemma foldr_max_le: "x \<in> set xs \<Longrightarrow> x \<le> foldr max xs (0 :: nat)"
  by (induction xs) auto

lemma base_loop_length: "base_loop ss = Some ds \<Longrightarrow> length ds = length ss"
  by (induction ss arbitrary: ds) (auto split: if_splits sum.splits)

lemma base2bin_len: "base2bin h tag n = (l, r) \<Longrightarrow> opt_len (n * l) r"
proof (cases "fh_strs h tag")
  case None
  then show "base2bin h tag n = (l, r) \<Longrightarrow> opt_len (n * l) r" by (auto simp: base2bin_def)
next
  case (Some ss)
  show "opt_len (n * l) r" if r: "base2bin h tag n = (l, r)"
  proof (cases "length ss \<noteq> n \<or> base_loop ss = None")
    case True
    then show ?thesis using r Some by (auto simp: base2bin_def split: if_splits)
  next
    case False
    then obtain ds where ds: "base_loop ss = Some ds" and n: "length ds = n" using base_loop_length by auto
    let ?m = "foldr max (map (\<lambda>d. length (tag_data d)) ds) 0"
    have "length (tag_data d @ replicate (?m - length (tag_data d)) 0) = ?m" if "d \<in> set ds" for d
      using foldr_max_le [of "length (tag_data d)" "map (\<lambda>d. length (tag_data d)) ds"] that by auto
    then have "length (concat (map (\<lambda>d. tag_data d @ replicate (?m - length (tag_data d)) 0) ds)) = n * ?m"
      by (simp add: length_concat n [symmetric] comp_def sum_list_triv cong: map_cong)
    then show ?thesis using r Some False ds by (auto simp: base2bin_def Let_def split: if_splits)
  qed
qed

subsection \<open>Construction keeps the invariant\<close>

lemmas wf_parts = attrs_wf_def dicts_wf_def digests_wf_def

text \<open>What every stage leaves alone.\<close>

definition same_names :: "rpmfiles \<Rightarrow> rpmfiles \<Rightarrow> bool" where
  "same_names f f' \<longleftrightarrow> fi_fndata f' = fi_fndata f \<and> fi_ofndata f' = fi_ofndata f \<and> fi_pool f' = fi_pool f"

lemma FC_Some [simp]: "rpmfilesFC (Some f) = fn_fc (fi_fndata f)"
  by (simp add: rpmfilesFC_def rpmfnFC_def)

lemma populate_attrs_wf:
  assumes "populate_attrs h flags f = Inr f'" "attrs_wf f" "dicts_wf f" "digests_wf dl f"
  shows "attrs_wf f'" "dicts_wf f'" "digests_wf dl f'" "same_names f f'"
  using assms by (auto simp: populate_attrs_def Let_def rbind_eq_Inr wf_parts same_names_def dest!: hgfi_len)

lemma populate_dicts_steps:
  assumes "populate_dicts h flags f = Inr f'"
  obtains cx mx where "hgfi h (fn_fc (fi_fndata f)) (fi_skip flags 1) 1141 4 = Inr cx"
    "hgfi h (fn_fc (fi_fndata f)) (fi_skip flags 20) 5115 4 = Inr mx"
    "f' = (let f = (if fi_skip flags 1 then f else f\<lparr>fi_cdict := fh_strs h 1142, fi_ncdict := length (tag_data (fh_strs h 1142))\<rparr>);
        f = f\<lparr>fi_fcdictx := words cx\<rparr>;
        f = (if fi_skip flags 20 then f else f\<lparr>fi_mdict := fh_strs h 5116, fi_nmdict := length (tag_data (fh_strs h 5116))\<rparr>);
        f = f\<lparr>fi_fmdictx := words mx\<rparr>
      in if fi_skip flags 2 then f
         else f\<lparr>fi_ddict := words (fh_nums h 1145), fi_nddict := length (tag_data (fh_nums h 1145)),
                fi_fddictx := words (fh_nums h 1143), fi_fddictn := words (fh_nums h 1144)\<rparr>)"
  using assms unfolding populate_dicts_def Let_def rbind_eq_Inr FC_Some by blast

lemma populate_dicts_wf:
  assumes "populate_dicts h flags f = Inr f'" "attrs_wf f" "dicts_wf f" "digests_wf dl f"
  shows "attrs_wf f'" "dicts_wf f'" "digests_wf dl f'" "same_names f f'"
proof -
  obtain cx mx where x: "hgfi h (fn_fc (fi_fndata f)) (fi_skip flags 1) 1141 4 = Inr cx"
      "hgfi h (fn_fc (fi_fndata f)) (fi_skip flags 20) 5115 4 = Inr mx"
    and f': "f' = (let f = (if fi_skip flags 1 then f else f\<lparr>fi_cdict := fh_strs h 1142, fi_ncdict := length (tag_data (fh_strs h 1142))\<rparr>);
        f = f\<lparr>fi_fcdictx := words cx\<rparr>;
        f = (if fi_skip flags 20 then f else f\<lparr>fi_mdict := fh_strs h 5116, fi_nmdict := length (tag_data (fh_strs h 5116))\<rparr>);
        f = f\<lparr>fi_fmdictx := words mx\<rparr>
      in if fi_skip flags 2 then f
         else f\<lparr>fi_ddict := words (fh_nums h 1145), fi_nddict := length (tag_data (fh_nums h 1145)),
                fi_fddictx := words (fh_nums h 1143), fi_fddictn := words (fh_nums h 1144)\<rparr>)" by (rule populate_dicts_steps [OF assms(1)])
  note len = hgfi_len(1) [OF x(1)] hgfi_len(1) [OF x(2)]
  show "attrs_wf f'" "digests_wf dl f'" "same_names f f'"
    using assms(2,4) unfolding f' by (simp_all add: Let_def attrs_wf_def digests_wf_def same_names_def)
  show "dicts_wf f'" using assms(3) len unfolding f' by (simp add: Let_def dicts_wf_def)
qed

lemma populate_strings_wf:
  assumes "populate_strings h flags st f = Inr (st', f')" "attrs_wf f" "dicts_wf f" "digests_wf dl f"
  shows "attrs_wf f'" "dicts_wf f'" "digests_wf dl f'" "same_names f f'"
  using assms
  by (auto simp: populate_strings_def Let_def rbind_eq_Inr wf_parts same_names_def dest!: hgfi_len tag2pool_len split: if_splits)

lemma populate_digests_wf:
  assumes "populate_digests dl h flags f = Inr f'" "attrs_wf f" "dicts_wf f"
  shows "attrs_wf f'" "dicts_wf f'" "digests_wf dl f'" "same_names f f'"
proof -
  let ?n = "fn_fc (fi_fndata f)"
  obtain vlen vsigs where v: "(if fi_skip flags 19 then (0, None) else base2bin h 276 ?n) = (vlen, vsigs)" by fastforce
  obtain so sigs algo valgo where s: "(if fi_skip flags 18 then Inr (None, None) else hex2binv h 5090 ?n) = Inr (so, sigs)"
    and f': "f' = f\<lparr>fi_digestalgo := algo, fi_digests := (if fi_skip flags 10 then None else hex2bin h 1035 ?n (dl algo)),
        fi_signatureoffs := so, fi_signatures := sigs,
        fi_verityalgo := valgo, fi_veritysiglength := vlen, fi_veritysigs := vsigs\<rparr>"
    using assms(1) unfolding populate_digests_def Let_def rbind_eq_Inr FC_Some v by auto
  show "attrs_wf f'" "dicts_wf f'" "same_names f f'"
    using assms(2,3) by (simp_all add: f' attrs_wf_def dicts_wf_def same_names_def)
  have "opt_len (?n * vlen) vsigs" using v base2bin_len [of h 276 ?n vlen vsigs] by (auto split: if_splits)
  moreover have "opt_len (Suc ?n) so \<and> (\<forall>so' sigs'. so = Some so' \<and> sigs = Some sigs' \<longrightarrow> sorted so' \<and> last so' = length sigs')"
    using s by (auto simp: hex2binv_def dest!: binv_loop_sorted split: if_splits option.splits)
  ultimately show "digests_wf dl f'" using hex2bin_len [of ?n] by (simp add: f' digests_wf_def Let_def)
qed

lemma rpmfilesBuildNLink_cases:
  "rpmfilesBuildNLink f h = f \<or> (\<exists>m. rpmfilesBuildNLink f h = f\<lparr>fi_nlinks := m\<rparr>)"
proof (cases "\<exists>inodes fdevs. fi_finodes f = Some inodes \<and> hgfi h (rpmfilesFC (Some f)) False 1095 4 = Inr (Some fdevs)")
  case True
  then obtain inodes fdevs where
    d: "fi_finodes f = Some inodes" "hgfi h (rpmfilesFC (Some f)) False 1095 4 = Inr (Some fdevs)" by blast
  obtain files havelinks where
    "collect_ids (Some f) (\<lambda>i. (fdevs ! i, inodes ! i)) [0..<rpmfilesFC (Some f)] (\<lambda>_. []) False = (files, havelinks)"
    by fastforce
  then show ?thesis unfolding rpmfilesBuildNLink_def Let_def d option.case sum.case by (cases havelinks) auto
next
  case False
  then have "rpmfilesBuildNLink f h = f"
    unfolding rpmfilesBuildNLink_def Let_def
    by (cases "fi_finodes f"; cases "hgfi h (rpmfilesFC (Some f)) False 1095 4";
        cases "projr (hgfi h (rpmfilesFC (Some f)) False 1095 4)") simp_all
  then show ?thesis ..
qed

lemma populate_inodes_wf:
  assumes "populate_inodes h flags f = Inr f'" "attrs_wf f" "dicts_wf f" "digests_wf dl f"
  shows "attrs_wf f'" "dicts_wf f'" "digests_wf dl f'" "same_names f f'"
proof -
  let ?n = "fn_fc (fi_fndata f)"
  obtain mt rd ino where x: "hgfi h ?n (fi_skip flags 11) 1034 4 = Inr mt" "hgfi h ?n (fi_skip flags 12) 1033 2 = Inr rd"
      "hgfi h ?n (fi_skip flags 13) 1096 4 = Inr ino"
    and f': "f' = (let f = f\<lparr>fi_fmtimes := mt, fi_frdevs := rd, fi_finodes := ino\<rparr> in
      if fi_skip flags 13 then f else rpmfilesBuildNLink f h)"
    using assms(1) unfolding populate_inodes_def Let_def rbind_eq_Inr FC_Some by blast
  let ?g = "f\<lparr>fi_fmtimes := mt, fi_frdevs := rd, fi_finodes := ino\<rparr>"
  note len = hgfi_len(1) [OF x(1)] hgfi_len(1) [OF x(2)] hgfi_len(1) [OF x(3)]
  have g: "attrs_wf ?g" "dicts_wf ?g" "digests_wf dl ?g" "same_names f ?g"
    using assms(2-) len by (simp_all add: Let_def attrs_wf_def dicts_wf_def digests_wf_def same_names_def)
  have "attrs_wf (?g\<lparr>fi_nlinks := m\<rparr>) = attrs_wf ?g" "dicts_wf (?g\<lparr>fi_nlinks := m\<rparr>) = dicts_wf ?g"
    "digests_wf dl (?g\<lparr>fi_nlinks := m\<rparr>) = digests_wf dl ?g" "same_names f (?g\<lparr>fi_nlinks := m\<rparr>) = same_names f ?g" for m
    by (simp_all add: attrs_wf_def dicts_wf_def digests_wf_def same_names_def)
  with g have m: "attrs_wf (?g\<lparr>fi_nlinks := m\<rparr>) \<and> dicts_wf (?g\<lparr>fi_nlinks := m\<rparr>) \<and> digests_wf dl (?g\<lparr>fi_nlinks := m\<rparr>) \<and>
    same_names f (?g\<lparr>fi_nlinks := m\<rparr>)" for m by blast
  consider "f' = ?g" | k where "f' = ?g\<lparr>fi_nlinks := k\<rparr>"
    using rpmfilesBuildNLink_cases [of ?g h] unfolding f' Let_def by (cases "fi_skip flags 13") auto
  then have "attrs_wf f' \<and> dicts_wf f' \<and> digests_wf dl f' \<and> same_names f f'"
  proof cases
    case 1
    show ?thesis unfolding 1 using g by blast
  next
    case (2 k)
    show ?thesis unfolding 2 by (rule m)
  qed
  then show "attrs_wf f'" "dicts_wf f'" "digests_wf dl f'" "same_names f f'" by blast+
qed

lemma populate_owner_len: "populate_owner h skip tag st f = Inr (st', ids) \<Longrightarrow> opt_len (fn_fc (fi_fndata f)) ids"
  by (auto simp: populate_owner_def rbind_eq_Inr dest!: tag2pool_len split: if_splits)

lemma rpmfilesPopulate_wf:
  assumes "rpmfilesPopulate dl h flags st f = Inr (st', f')" "attrs_wf f" "dicts_wf f" "digests_wf dl f"
  shows "attrs_wf f' \<and> dicts_wf f' \<and> digests_wf dl f' \<and> same_names f f'"
proof -
  from assms(1) obtain f1 f2 st3 f3 f4 f5 st6 us st7 gs where
    s: "populate_attrs h flags f = Inr f1" "populate_dicts h flags f1 = Inr f2" "populate_strings h flags st f2 = Inr (st3, f3)"
      "populate_digests dl h flags f3 = Inr f4" "populate_inodes h flags f4 = Inr f5"
      "populate_owner h (fi_skip flags 4) 1039 st3 f5 = Inr (st6, us)"
      "populate_owner h (fi_skip flags 5) 1040 st6 f5 = Inr (st7, gs)"
    and f': "f' = f5\<lparr>fi_fuser := us, fi_fgroup := gs\<rparr>"
    unfolding rpmfilesPopulate_def rbind_eq_Inr by (auto simp: rbind_eq_Inr)
  note 1 = populate_attrs_wf [OF s(1) assms(2-)]
  note 2 = populate_dicts_wf [OF s(2) 1(1-3)]
  note 3 = populate_strings_wf [OF s(3) 2(1-3)]
  note 4 = populate_digests_wf [OF s(4) 3(1,2)]
  note 5 = populate_inodes_wf [OF s(5) 4(1-3)]
  have "same_names f f5" using 1(4) 2(4) 3(4) 4(4) 5(4) unfolding same_names_def by metis
  with 5 populate_owner_len [OF s(6)] populate_owner_len [OF s(7)] show ?thesis
    unfolding f' by (simp add: attrs_wf_def dicts_wf_def digests_wf_def same_names_def Let_def)
qed

lemma empty_files_wf: "attrs_wf (empty_files p fn ofn)" "dicts_wf (empty_files p fn ofn)" "digests_wf dl (empty_files p fn ofn)"
  by (simp_all add: attrs_wf_def dicts_wf_def digests_wf_def empty_files_def Let_def)

lemma populated_wf:
  assumes "rpmfilesPopulate dl h flags st (empty_files p fn (Some ofn)) = Inr (st', f)" "fn_wf fn" "fn_wf ofn"
  shows "files_wf dl f"
  using rpmfilesPopulate_wf [OF assms(1) empty_files_wf] assms(2,3)
  by (simp add: files_wf_def same_names_def empty_files_def)

text \<open>The indexes and counts of dependencies, tags 1143 and 1144, are those of the header.\<close>

definition depends_wf :: "rpmfiles \<Rightarrow> bool" where
  "depends_wf f \<longleftrightarrow> opt_len (fn_fc (fi_fndata f)) (fi_fddictx f) \<and> opt_len (fn_fc (fi_fndata f)) (fi_fddictn f)"

definition depends_from :: "file_hdr \<Rightarrow> rpmfiles \<Rightarrow> bool" where
  "depends_from h f \<longleftrightarrow> fi_fddictx f \<in> {None, words (fh_nums h 1143)} \<and> fi_fddictn f \<in> {None, words (fh_nums h 1144)}"

lemma populate_attrs_depends: "populate_attrs h flags f = Inr f' \<Longrightarrow> depends_from h f' = depends_from h f"
  by (auto simp: populate_attrs_def rbind_eq_Inr Let_def depends_from_def)

lemma populate_dicts_depends: "populate_dicts h flags f = Inr f' \<Longrightarrow> depends_from h f \<Longrightarrow> depends_from h f'"
  by (erule populate_dicts_steps) (simp add: Let_def depends_from_def)

lemma populate_strings_depends: "populate_strings h flags st f = Inr (st', f') \<Longrightarrow> depends_from h f' = depends_from h f"
  by (auto simp: populate_strings_def rbind_eq_Inr Let_def depends_from_def)

lemma populate_digests_depends: "populate_digests dl h flags f = Inr f' \<Longrightarrow> depends_from h f' = depends_from h f"
  by (auto simp: populate_digests_def rbind_eq_Inr Let_def depends_from_def case_prod_unfold)

lemma populate_inodes_depends:
  assumes "populate_inodes h flags f = Inr f'"
  shows "depends_from h f' = depends_from h f"
proof -
  have links: "depends_from h (rpmfilesBuildNLink g h) = depends_from h g" for g
    using rpmfilesBuildNLink_cases [of g h] by (elim disjE exE) (simp_all add: depends_from_def)
  have set: "depends_from h (f\<lparr>fi_fmtimes := mt, fi_frdevs := rd, fi_finodes := ino\<rparr>) = depends_from h f" for mt rd ino
    by (simp add: depends_from_def)
  from assms show ?thesis by (auto simp: populate_inodes_def rbind_eq_Inr Let_def links set split: if_splits)
qed

lemma rpmfilesPopulate_depends:
  assumes "rpmfilesPopulate dl h flags st f = Inr (st', f')" "depends_from h f"
  shows "depends_from h f'"
proof -
  from assms(1) obtain f1 f2 st3 f3 f4 f5 us gs where
    s: "populate_attrs h flags f = Inr f1" "populate_dicts h flags f1 = Inr f2" "populate_strings h flags st f2 = Inr (st3, f3)"
      "populate_digests dl h flags f3 = Inr f4" "populate_inodes h flags f4 = Inr f5" and f': "f' = f5\<lparr>fi_fuser := us, fi_fgroup := gs\<rparr>"
    unfolding rpmfilesPopulate_def rbind_eq_Inr by (auto simp: rbind_eq_Inr)
  have "depends_from h f5"
    using populate_dicts_depends [OF s(2)] assms(2) populate_attrs_depends [OF s(1)] populate_strings_depends [OF s(3)]
      populate_digests_depends [OF s(4)] populate_inodes_depends [OF s(5)] by simp
  then show ?thesis by (simp add: f' depends_from_def)
qed

lemma depends_from_wf:
  assumes "depends_from h f" "\<forall>t \<in> {1143, 1144}. opt_len (fn_fc (fi_fndata f)) (fh_nums h t)"
  shows "depends_wf f"
  using assms by (auto simp: depends_from_def depends_wf_def)

lemma rpmfilesNew_files_wf:
  assumes "rpmfilesNew dl st pool h flags = Inr (st', f)"
  shows "files_wf dl f" "depends_from h f"
proof -
  have e: "depends_from h (empty_files p fn ofn)" for p fn ofn by (simp add: depends_from_def empty_files_def)
  from assms obtain st1 p st2 fn fc where i: "rpmfnInit st1 RPMTAG_BASENAMES h p = Inr (st2, fn, fc)"
    and b: "rbind (if fc > 0 then
            rbind (if fh_strs h RPMTAG_ORIGBASENAMES \<noteq> None then
                rbind (rpmfnInit st2 RPMTAG_ORIGBASENAMES h p) (\<lambda>(st, ofn, ofc).
                  if ofc \<noteq> 0 \<and> ofc \<noteq> fc then Inl FiBadData else Inr (st, ofn))
              else Inr (st2, fn)) (\<lambda>(st, ofn). rpmfilesPopulate dl h flags st (empty_files p fn (Some ofn)))
          else Inr (st2, empty_files p fn None)) (\<lambda>(st, f).
        Inr (if pool = None then st[p := rpmstrPoolFreeze (st ! p) False] else st, f)) = Inr (st', f)"
    unfolding rpmfilesNew_def by (auto simp only: rbind_eq_Inr prod.case split: if_splits)
  note fn = rpmfnInit_wf [OF i]
  have "files_wf dl f \<and> depends_from h f"
  proof (cases "fc > 0")
    case False
    then have f: "f = empty_files p fn None" using b by auto
    then have "files_wf dl f" using fn empty_files_wf [where p = p and fn = fn and ofn = None] by (simp add: files_wf_def) (simp add: empty_files_def)
    then show ?thesis using e f by blast
  next
    case True
    then obtain st3 ofn st4 where o: "(if fh_strs h RPMTAG_ORIGBASENAMES \<noteq> None then
                rbind (rpmfnInit st2 RPMTAG_ORIGBASENAMES h p) (\<lambda>(st, ofn, ofc).
                  if ofc \<noteq> 0 \<and> ofc \<noteq> fc then Inl FiBadData else Inr (st, ofn))
              else Inr (st2, fn)) = Inr (st3, ofn)" "rpmfilesPopulate dl h flags st3 (empty_files p fn (Some ofn)) = Inr (st4, f)"
      using b by (auto simp only: rbind_eq_Inr prod.case if_True)
    have "fn_wf ofn" using o(1) fn
      by (auto simp only: rbind_eq_Inr prod.case Inr_inject prod.inject dest!: rpmfnInit_wf split: if_splits)
    with o(2) fn have "files_wf dl f" by (rule populated_wf)
    then show ?thesis using rpmfilesPopulate_depends [OF o(2) e] by blast
  qed
  then show "files_wf dl f" "depends_from h f" by blast+
qed

lemma FDigest_length:
  assumes "files_wf dl f" "rpmfilesFDigest dl (Some f) (int i) = (Some d, Some (algo, len))"
  shows "length d = len"
proof -
  obtain ds where ds: "fi_digests f = Some ds" "i < fn_fc (fi_fndata f)" "len = dl (fi_digestalgo f)"
      "d = take len (drop (len * i) ds)"
    using assms(2) by (cases "fi_digests f") (auto simp: rpmfilesFDigest_def Let_def split: if_splits)
  then have "length ds = fn_fc (fi_fndata f) * len"
    using assms(1) by (auto simp: files_wf_def digests_wf_def Let_def)
  moreover have "Suc i * len \<le> fn_fc (fi_fndata f) * len" using ds(2) by (intro mult_le_mono1) simp
  ultimately show ?thesis using ds(4) by (simp add: mult.commute)
qed

lemma FSignature_length:
  assumes "files_wf dl f" "rpmfilesFSignature (Some f) (int i) = (Some d, Some len)"
  shows "length d = len"
proof -
  obtain sigs so where s: "fi_signatures f = Some sigs" "fi_signatureoffs f = Some so" "i < fn_fc (fi_fndata f)"
      "len = so ! Suc i - so ! i" "d = take len (drop (so ! i) sigs)"
    using assms(2) by (auto simp: rpmfilesFSignature_def Let_def split: if_splits option.splits)
  then have so: "length so = Suc (fn_fc (fi_fndata f))" "sorted so" "last so = length sigs"
    using assms(1) by (auto simp: files_wf_def digests_wf_def Let_def)
  then have "so ! Suc i \<le> length sigs" using s(3) sorted_nth_mono [of so "Suc i" "length so - 1"] last_conv_nth [of so] by fastforce
  then show ?thesis using s(4,5) by simp
qed

text \<open> C15: A file set that is built from a header, whatever its contents, is well formed: every array except two has an
  entry for each file, the directory of each file exists, and what the accessors return as the digest or the signature of
  a file has the length that they report. The two are the indexes and counts of the dependencies of files, which the code
  takes as they are: they have an entry for each file if they have one in the header (and \<open>rpmfilesFDepends_overread\<close>
  below shows what happens if they have not).\<close>

theorem rpmfilesNew_wf:
  assumes "rpmfilesNew dl st pool h flags = Inr (st', f)"
  shows "files_wf dl f \<and>
    (rpmfilesFDigest dl (Some f) (int i) = (Some d, Some (algo, len)) \<longrightarrow> length d = len) \<and>
    (rpmfilesFSignature (Some f) (int i) = (Some s, Some slen) \<longrightarrow> length s = slen) \<and>
    ((\<forall>t \<in> {1143, 1144}. opt_len (rpmfilesFC (Some f)) (fh_nums h t)) \<longrightarrow> depends_wf f)"
  using rpmfilesNew_files_wf(1) [OF assms] FDigest_length FSignature_length depends_from_wf [OF rpmfilesNew_files_wf(2) [OF assms]]
  by (simp only: FC_Some) blast

text \<open>An example: a package with the file \<open>/a\<close>, its MD5 digest and its owner.\<close>

definition demo_hdr :: file_hdr where
  "demo_hdr = \<lparr>fh_strs = [1117 \<mapsto> [''a''], 1118 \<mapsto> [''/''], 1035 \<mapsto> [''00112233445566778899aabbccddeeff''],
       1039 \<mapsto> [''r''], 1040 \<mapsto> [''r'']],
     fh_nums = [1116 \<mapsto> [0]], fh_size = (\<lambda>_. 4), fh_instance = 0\<rparr>"

definition demo_diglen :: "nat \<Rightarrow> nat" where
  "demo_diglen algo = (if algo = RPM_HASH_MD5 then 16 else 0)"

theorem rpmfilesNew_wf_witness:
  "\<exists>st' f. rpmfilesNew demo_diglen [demo_names] (Some 0) demo_hdr 0 = Inr (st', f) \<and> rpmfilesFC (Some f) = 1 \<and>
     files_wf demo_diglen f \<and> (\<exists>d algo. rpmfilesFDigest demo_diglen (Some f) 0 = (Some d, Some (algo, 16)) \<and> length d = 16)"
proof -
  let ?r = "rpmfilesNew demo_diglen [demo_names] (Some 0) demo_hdr 0"
  have r: "\<not> isl ?r" by code_simp
  then obtain st' f where f: "?r = Inr (st', f)" by (cases ?r) auto
  have "rpmfilesFC (Some (snd (projr ?r))) = 1" by code_simp
  then have fc: "rpmfilesFC (Some f) = 1" by (simp add: f)
  have "fst (rpmfilesFDigest demo_diglen (Some (snd (projr ?r))) 0) \<noteq> None \<and>
      snd (rpmfilesFDigest demo_diglen (Some (snd (projr ?r))) 0) = Some (1, 16)" by code_simp
  then obtain d where "rpmfilesFDigest demo_diglen (Some f) (int 0) = (Some d, Some (1, 16))"
    by (cases "rpmfilesFDigest demo_diglen (Some f) 0") (auto simp: f)
  with f fc rpmfilesNew_wf [OF f, of 0 d 1 16] show ?thesis by auto
qed

subsection \<open>Hard links\<close>

definition links_of :: "rpmfiles option \<Rightarrow> (nat \<Rightarrow> nat \<times> nat) \<Rightarrow> nat list \<Rightarrow> nat \<times> nat \<Rightarrow> nat list" where
  "links_of fi fid is k = filter (\<lambda>j. real_file fi j \<and> snd (fid j) \<noteq> 0 \<and> fid j = k) is"

lemma links_of_Cons:
  "links_of fi fid (i # is) k = (if real_file fi i \<and> snd (fid i) \<noteq> 0 \<and> fid i = k then [i] else []) @ links_of fi fid is k"
  by (auto simp: links_of_def)

lemma collect_ids_links:
  "b = (\<exists>k. 1 < length (files k)) \<Longrightarrow> collect_ids fi fid is files b =
    (\<lambda>k. files k @ links_of fi fid is k, \<exists>k. 1 < length (files k @ links_of fi fid is k))"
proof (induction "is" arbitrary: files b)
  case (Cons i "is")
  let ?f = "files(fid i := files (fid i) @ [i])"
  show ?case
  proof (cases "real_file fi i \<and> snd (fid i) \<noteq> 0")
    case True
    have f: "?f k @ links_of fi fid is k = files k @ links_of fi fid (i # is) k" for k using True by (simp add: links_of_Cons)
    have "(b \<or> 1 < length (files (fid i) @ [i])) = (\<exists>k. 1 < length (?f k))"
      unfolding Cons.prems by (metis fun_upd_apply less_SucI length_append_singleton)
    from Cons.IH [OF this] show ?thesis using True by (simp only: collect_ids.simps Let_def f) simp
  next
    case False
    then have "links_of fi fid (i # is) k = links_of fi fid is k" for k by (auto simp: links_of_Cons)
    with Cons.IH [OF Cons.prems] False show ?thesis by auto
  qed
qed (simp add: links_of_def)

lemma insert_links_eq: "insert_links js ls m j = (if m j = None \<and> j \<in> set js then Some ls else m j)"
  by (induction js ls m rule: insert_links.induct) auto

lemma transfer_links_eq:
  assumes "\<And>k j. j \<in> set (files k) \<Longrightarrow> fid j = k"
  shows "transfer_links fi fid files is m j =
    (if m j = None \<and> (\<exists>i \<in> set is. real_file fi i \<and> 1 < length (files (fid i)) \<and> j \<in> set (files (fid i)))
     then Some (files (fid j)) else m j)"
  using assms by (induction "is" arbitrary: m) (auto simp: insert_links_eq)

text \<open> C37: After the hard links of a file set are collected, the links of a file are, in order, the regular files that
  are not ghosts and have its device and its inode, which is not 0, if there is another such file; else it has one link
  and the list of the caller stays empty.\<close>

theorem rpmfilesBuildNLink_links:
  assumes "fi_finodes f = Some inodes" "hgfi h (rpmfilesFC (Some f)) False 1095 4 = Inr (Some fdevs)"
    "fi_nlinks f = None" "i < rpmfilesFC (Some f)"
  shows "let links = filter (\<lambda>j. real_file (Some f) j \<and> inodes ! j \<noteq> 0 \<and> fdevs ! j = fdevs ! i \<and> inodes ! j = inodes ! i)
      [0..<rpmfilesFC (Some f)] in
    rpmfilesFLinks (Some (rpmfilesBuildNLink f h)) (int i) None =
      (if i \<in> set links \<and> 1 < length links then (length links, Some links) else (1, None))"
proof -
  define fid where "fid = (\<lambda>j. (fdevs ! j, inodes ! j))"
  define links where "links = filter (\<lambda>j. real_file (Some f) j \<and> inodes ! j \<noteq> 0 \<and> fdevs ! j = fdevs ! i \<and> inodes ! j = inodes ! i) [0..<rpmfilesFC (Some f)]"
  let ?n = "rpmfilesFC (Some f)"
  let ?files = "links_of (Some f) fid [0..<?n]"
  have c: "collect_ids (Some f) fid [0..<?n] (\<lambda>_. []) False = (?files, \<exists>k. 1 < length (?files k))"
    using collect_ids_links [of False "\<lambda>_. []" "Some f" fid "[0..<?n]"] by simp
  have links: "links = ?files (fid i)" by (simp add: links_def links_of_def fid_def)
  have fid: "fid j = k" if "j \<in> set (?files k)" for j k using that by (simp add: links_of_def)
  let ?m = "transfer_links (Some f) fid ?files [0..<?n] (\<lambda>_. None)"
  have m: "?m i = (if i \<in> set links \<and> 1 < length links then Some links else None)"
    using transfer_links_eq [of ?files fid "Some f" "[0..<?n]" "\<lambda>_. None" i, OF fid] assms(4)
    unfolding links by (auto simp: links_of_def)
  have n: "rpmfilesBuildNLink f h = (if \<exists>k. 1 < length (?files k) then f\<lparr>fi_nlinks := Some ?m\<rparr> else f)"
    unfolding rpmfilesBuildNLink_def Let_def assms(1,2) option.case sum.case fid_def [symmetric] c prod.case ..
  have "rpmfilesFLinks (Some (rpmfilesBuildNLink f h)) (int i) None =
      (if i \<in> set links \<and> 1 < length links then (length links, Some links) else (1, None))"
  proof (cases "\<exists>k. 1 < length (?files k)")
    case True
    then show ?thesis using assms(4) m by (simp add: n rpmfilesFLinks_def rpmfilesFC_def)
  next
    case False
    then have "\<not> 1 < length links" unfolding links by blast
    with False show ?thesis using assms(3,4) by (simp add: n rpmfilesFLinks_def)
  qed
  then show ?thesis unfolding Let_def links_def .
qed

text \<open>An example: the second and the third file are links.\<close>

definition demo_links :: rpmfiles where
  "demo_links = demo_files\<lparr>fi_fmodes := Some [33188, 33188, 33188], fi_finodes := Some [5, 7, 7]\<rparr>"

theorem rpmfilesBuildNLink_links_witness:
  "rpmfilesFLinks (Some (rpmfilesBuildNLink demo_links (demo_hdr\<lparr>fh_nums := [1095 \<mapsto> [1, 1, 1]], fh_size := (\<lambda>_. 12)\<rparr>))) (int 2) None =
    (2, Some [1, 2])"
proof -
  let ?h = "demo_hdr\<lparr>fh_nums := [1095 \<mapsto> [1, 1, 1]], fh_size := (\<lambda>_. 12)\<rparr>"
  have n: "rpmfilesFC (Some demo_links) = 3" by (simp add: demo_links_def demo_files_def empty_files_def)
  have p: "fi_finodes demo_links = Some [5, 7, 7]" "hgfi ?h (rpmfilesFC (Some demo_links)) False 1095 4 = Inr (Some [1, 1, 1])"
    "fi_nlinks demo_links = None" "2 < rpmfilesFC (Some demo_links)"
    unfolding n by (simp_all add: demo_links_def demo_files_def empty_files_def hgfi_def)
  have r: "real_file (Some demo_links) j" if "j \<in> set [0, 1, 2]" for j
    using that n by (auto simp: real_file_def S_ISREG_def rpmfilesFMode_def rpmfilesFFlags_def attr_def arr_nth_def)
      (auto simp: demo_links_def demo_files_def empty_files_def)
  have "[0..<rpmfilesFC (Some demo_links)] = [0, 1, 2]" unfolding n by (simp add: upt_rec)
  then have "filter (\<lambda>j. real_file (Some demo_links) j \<and> [5, 7, 7] ! j \<noteq> (0 :: nat) \<and> [1, 1, 1] ! j = ([1, 1, 1] ! 2 :: nat) \<and>
      [5, 7, 7] ! j = ([5, 7, 7] ! 2 :: nat)) [0..<rpmfilesFC (Some demo_links)] = [1, 2]" using r by simp
  with rpmfilesBuildNLink_links [OF p] show ?thesis by (simp only: Let_def) simp
qed

subsection \<open>Where the construction does not check\<close>

text \<open> The counts of the dependencies of files need not have an entry per file: a header with two files and one count is
  accepted, and the accessor then reads behind the end of the array.\<close>

theorem rpmfilesFDepends_overread:
  "\<exists>h st' f. rpmfilesNew demo_diglen [demo_names] (Some 0) h 0 = Inr (st', f) \<and> rpmfilesFC (Some f) = 2 \<and>
     fi_fddictn f = Some [1] \<and> rpmfilesFDepends (Some f) 1 = Inl FiOverread"
proof -
  let ?h = "\<lparr>fh_strs = [1117 \<mapsto> [''a'', ''b''], 1118 \<mapsto> [''/''], 1039 \<mapsto> [''r'', ''r''], 1040 \<mapsto> [''r'', ''r'']],
     fh_nums = [1116 \<mapsto> [0, 0], 1144 \<mapsto> [1]], fh_size = (\<lambda>_. 8), fh_instance = 0\<rparr>"
  let ?r = "rpmfilesNew demo_diglen [demo_names] (Some 0) ?h 0"
  have "\<not> isl ?r" by code_simp
  then obtain st' f where f: "?r = Inr (st', f)" by (cases ?r) auto
  have "rpmfilesFC (Some (snd (projr ?r))) = 2" "fi_fddictn (snd (projr ?r)) = Some [1]"
    "rpmfilesFDepends (Some (snd (projr ?r))) 1 = Inl FiOverread" by code_simp+
  then have "rpmfilesFC (Some f) = 2 \<and> fi_fddictn f = Some [1] \<and> rpmfilesFDepends (Some f) 1 = Inl FiOverread" unfolding f by simp
  with f show ?thesis by blast
qed

end
