(* ===== verification/Rpmfi_Fate.thy ===== *)
theory Rpmfi_Fate
  imports Rpmfi
begin

text \<open>
  What happens to a file on disk when a package is replaced (lib/rpmfi.cc): whether the contents are equal, the fate of
  a configuration file, and conflicts of configuration files. The file system is a parameter: the mode and the size that
  \<open>lstat\<close> reports, the digest of a file and the target of a link, each \<open>None\<close> if the call fails. Reading a variable that
  was not set is the error \<open>FiUninit\<close>, passing NULL to a function that does not allow it is \<open>FiNull\<close>.
\<close>

record disk =
  dk_lstat :: "cstr \<Rightarrow> (nat \<times> nat) option"
  dk_digest :: "nat \<Rightarrow> cstr \<Rightarrow> 8 word list option"
  dk_readlink :: "cstr \<Rightarrow> cstr option"

datatype rpmFileAction = FA_UNKNOWN | FA_CREATE | FA_BACKUP | FA_SAVE | FA_SKIP | FA_ALTNAME | FA_ERASE
  | FA_SKIPNSTATE | FA_SKIPNETSHARED | FA_SKIPCOLOR | FA_TOUCH

text \<open>A digest with its algorithm and length, which are not set for an index out of range.\<close>

definition get_digest :: "(nat \<Rightarrow> nat) \<Rightarrow> rpmfiles option \<Rightarrow> int \<Rightarrow> fi_error + (8 word list option \<times> nat \<times> nat)" where
  "get_digest dl fi ix = (case rpmfilesFDigest dl fi ix of (d, Some (algo, len)) \<Rightarrow> Inr (d, algo, len) | _ \<Rightarrow> Inl FiUninit)"

text \<open>The mode and the size of a file whose name is not NULL.\<close>

definition lstat_file :: "disk \<Rightarrow> cstr option \<Rightarrow> fi_error + (nat \<times> nat) option" where
  "lstat_file dk fn = (case fn of None \<Rightarrow> Inl FiNull | Some fn \<Rightarrow> Inr (dk_lstat dk fn))"

text \<open>The buffer that a link is read into holds 1023 characters.\<close>

definition read_link :: "disk \<Rightarrow> cstr \<Rightarrow> cstr option" where
  "read_link dk fn = map_option (take 1023) (dk_readlink dk fn)"

definition rpmfileContentsEqual ::
    "(nat \<Rightarrow> nat) \<Rightarrow> disk \<Rightarrow> pools \<Rightarrow> rpmfiles option \<Rightarrow> int \<Rightarrow> rpmfiles option \<Rightarrow> int \<Rightarrow> fi_error + bool" where
  "rpmfileContentsEqual dl dk st ofi oix nfi nix =
     (case rpmfilesFN st nfi nix of None \<Rightarrow> Inr False
      | Some fn \<Rightarrow>
       (case dk_lstat dk fn of None \<Rightarrow> Inr False
        | Some (mode, sz) \<Rightarrow>
            if rpmfilesFSize nfi nix \<noteq> sz then Inr False
            else
              let diskWhat = rpmfiWhatis mode; newWhat = rpmfiWhatis (rpmfilesFMode nfi nix);
                  oldWhat = rpmfiWhatis (rpmfilesFMode ofi oix) in
              if diskWhat \<noteq> newWhat \<or> diskWhat \<noteq> oldWhat then Inr False
              else if diskWhat = REG then
                rbind (get_digest dl ofi oix) (\<lambda>(odigest, oalgo, odiglen).
                rbind (get_digest dl nfi nix) (\<lambda>(ndigest, nalgo, ndiglen).
                if oalgo \<noteq> nalgo \<or> odiglen \<noteq> ndiglen then Inr False
                else case ndigest of None \<Rightarrow> Inr False
                  | Some nd \<Rightarrow>
                   (case odigest of None \<Rightarrow> Inl FiNull
                    | Some od \<Rightarrow>
                        if memcmp od nd ndiglen \<noteq> 0 then Inr False
                        else case dk_digest dk nalgo fn of None \<Rightarrow> Inr False
                          | Some buffer \<Rightarrow> Inr (memcmp nd buffer ndiglen = 0))))
              else if diskWhat = LINK then
                (case read_link dk fn of None \<Rightarrow> Inr False
                 | Some buffer \<Rightarrow> Inr (case rpmfilesFLink st nfi nix of None \<Rightarrow> False | Some nFLink \<Rightarrow> rstreq nFLink buffer))
              else Inr False))"

definition digest_is :: "8 word list option \<Rightarrow> 8 word list \<Rightarrow> nat \<Rightarrow> bool" where
  "digest_is d buffer len \<longleftrightarrow> (case d of None \<Rightarrow> False | Some d \<Rightarrow> memcmp d buffer len = 0)"

definition link_is :: "cstr option \<Rightarrow> cstr \<Rightarrow> bool" where
  "link_is l buffer \<longleftrightarrow> (case l of None \<Rightarrow> False | Some l \<Rightarrow> rstreq l buffer)"

text \<open>The end of both branches of the decision: a file that is neither that of the old nor of the new package.\<close>

definition backup_fate :: "u32 \<Rightarrow> bool \<Rightarrow> rpmFileAction" where
  "backup_fate newFlags same =
     (if \<not> flag_set newFlags RPMFILE_CONFIG then FA_SAVE
      else if same then FA_SKIP
      else if flag_set newFlags RPMFILE_NOREPLACE then FA_ALTNAME else FA_SAVE)"

text \<open>The branch for a file that was a regular file. The buffer is \<open>None\<close> as long as it holds no digest; \<open>Inr None\<close> of
  the inner steps stands for the jump to the end with the action as it is, \<open>FA_CREATE\<close>.\<close>

definition reg_fate ::
    "(nat \<Rightarrow> nat) \<Rightarrow> disk \<Rightarrow> cstr \<Rightarrow> u32 \<Rightarrow> rpmFileTypes \<Rightarrow> rpmFileTypes \<Rightarrow>
      rpmfiles option \<Rightarrow> int \<Rightarrow> rpmfiles option \<Rightarrow> int \<Rightarrow> fi_error + rpmFileAction" where
  "reg_fate dl dk fn newFlags diskWhat newWhat ofi oix nfi nix =
     rbind (get_digest dl nfi nix) (\<lambda>(ndigest, nalgo, ndiglen).
     let first = (if diskWhat = REG \<and> newWhat = REG then dk_digest dk nalgo fn else Some []) in
     case first of None \<Rightarrow> Inr FA_CREATE
     | Some buffer \<Rightarrow>
         if diskWhat = REG \<and> newWhat = REG \<and> digest_is ndigest buffer ndiglen then Inr FA_TOUCH
         else
           rbind (get_digest dl ofi oix) (\<lambda>(odigest, oalgo, odiglen).
           let second = (if diskWhat = REG \<and> (oalgo \<noteq> nalgo \<or> newWhat \<noteq> REG) then dk_digest dk oalgo fn else Some buffer) in
           case second of None \<Rightarrow> Inr FA_CREATE
           | Some buffer \<Rightarrow>
               if diskWhat = REG \<and> digest_is odigest buffer odiglen then Inr FA_CREATE
               else Inr (backup_fate newFlags
                 (newWhat = REG \<and> oalgo = nalgo \<and> odiglen = ndiglen \<and> odigest \<noteq> None \<and>
                  (case ndigest of None \<Rightarrow> False | Some nd \<Rightarrow> digest_is odigest nd odiglen)))))"

definition link_fate ::
    "disk \<Rightarrow> pools \<Rightarrow> cstr \<Rightarrow> u32 \<Rightarrow> rpmFileTypes \<Rightarrow> rpmFileTypes \<Rightarrow>
      rpmfiles option \<Rightarrow> int \<Rightarrow> rpmfiles option \<Rightarrow> int \<Rightarrow> rpmFileAction" where
  "link_fate dk st fn newFlags diskWhat newWhat ofi oix nfi nix =
     (case (if diskWhat = LINK then read_link dk fn else Some []) of None \<Rightarrow> FA_CREATE
      | Some buffer \<Rightarrow>
          let nFLink = rpmfilesFLink st nfi nix; oFLink = rpmfilesFLink st ofi oix in
          if diskWhat = LINK \<and> newWhat = LINK \<and> link_is nFLink buffer then FA_TOUCH
          else if diskWhat = LINK \<and> link_is oFLink buffer then FA_CREATE
          else backup_fate newFlags
            (newWhat = LINK \<and> (case (oFLink, nFLink) of (Some l, Some l') \<Rightarrow> rstreq l l' | _ \<Rightarrow> False)))"

definition rpmfilesDecideFate ::
    "(nat \<Rightarrow> nat) \<Rightarrow> disk \<Rightarrow> pools \<Rightarrow> rpmfiles option \<Rightarrow> int \<Rightarrow> rpmfiles option \<Rightarrow> int \<Rightarrow> bool \<Rightarrow> fi_error + rpmFileAction" where
  "rpmfilesDecideFate dl dk st ofi oix nfi nix skipMissing =
     (let newFlags = rpmfilesFFlags nfi nix in
      if flag_set newFlags RPMFILE_GHOST then Inr FA_SKIP
      else
        rbind (lstat_file dk (rpmfilesFN st nfi nix)) (\<lambda>sb.
        case sb of
          None \<Rightarrow> Inr (if skipMissing \<and> flag_set newFlags RPMFILE_MISSINGOK then FA_SKIP else FA_CREATE)
        | Some (mode, _) \<Rightarrow>
            let fn = the (rpmfilesFN st nfi nix); diskWhat = rpmfiWhatis mode;
                dbWhat = rpmfiWhatis (rpmfilesFMode ofi oix); newWhat = rpmfiWhatis (rpmfilesFMode nfi nix) in
            if dbWhat = REG then reg_fate dl dk fn newFlags diskWhat newWhat ofi oix nfi nix
            else if dbWhat = LINK then Inr (link_fate dk st fn newFlags diskWhat newWhat ofi oix nfi nix)
            else Inr FA_CREATE))"

definition rpmfilesConfigConflict :: "(nat \<Rightarrow> nat) \<Rightarrow> disk \<Rightarrow> pools \<Rightarrow> rpmfiles option \<Rightarrow> int \<Rightarrow> fi_error + bool" where
  "rpmfilesConfigConflict dl dk st fi ix =
     (let flags = rpmfilesFFlags fi ix; newWhat = rpmfiWhatis (rpmfilesFMode fi ix) in
      if \<not> flag_set flags RPMFILE_CONFIG then Inr False
      else if newWhat \<noteq> LINK \<and> newWhat \<noteq> REG then Inr False
      else
        rbind (lstat_file dk (rpmfilesFN st fi ix)) (\<lambda>sb.
        case sb of None \<Rightarrow> Inr False
        | Some (mode, sz) \<Rightarrow>
            if flag_set flags RPMFILE_GHOST then Inr True
            else if rpmfiWhatis mode \<noteq> newWhat then Inr True
            else if rpmfilesFSize fi ix \<noteq> sz then Inr True
            else
              let fn = the (rpmfilesFN st fi ix) in
              if newWhat = REG then
                rbind (get_digest dl fi ix) (\<lambda>(ndigest, algo, diglen).
                case dk_digest dk algo fn of None \<Rightarrow> Inr False
                | Some buffer \<Rightarrow> Inr (\<not> digest_is ndigest buffer diglen))
              else
                (case read_link dk fn of None \<Rightarrow> Inr False
                 | Some buffer \<Rightarrow> Inr (\<not> link_is (rpmfilesFLink st fi ix) buffer))))"

section \<open>Properties\<close>

text \<open>Whether the file on disk at \<open>fn\<close> is file \<open>ix\<close> of a package, as far as its type and its digest or target tell.\<close>

definition on_disk :: "(nat \<Rightarrow> nat) \<Rightarrow> disk \<Rightarrow> pools \<Rightarrow> cstr \<Rightarrow> rpmfiles \<Rightarrow> nat \<Rightarrow> bool" where
  "on_disk dl dk st fn f i \<longleftrightarrow>
     (case dk_lstat dk fn of None \<Rightarrow> False
      | Some (mode, _) \<Rightarrow>
          rpmfiWhatis mode = rpmfiWhatis (rpmfilesFMode (Some f) (int i)) \<and>
          (case rpmfiWhatis mode of
             REG \<Rightarrow> digest_is (fst (rpmfilesFDigest dl (Some f) (int i))) (the (dk_digest dk (fi_digestalgo f) fn)) (dl (fi_digestalgo f))
           | LINK \<Rightarrow> link_is (rpmfilesFLink st (Some f) (int i)) (the (read_link dk fn))
           | _ \<Rightarrow> False))"

text \<open>Whether two packages have the same file.\<close>

definition same_file :: "(nat \<Rightarrow> nat) \<Rightarrow> pools \<Rightarrow> rpmfiles \<Rightarrow> nat \<Rightarrow> rpmfiles \<Rightarrow> nat \<Rightarrow> bool" where
  "same_file dl st f i f' i' \<longleftrightarrow>
     rpmfiWhatis (rpmfilesFMode (Some f') (int i')) = rpmfiWhatis (rpmfilesFMode (Some f) (int i)) \<and>
     (case rpmfiWhatis (rpmfilesFMode (Some f) (int i)) of
        REG \<Rightarrow> fi_digestalgo f = fi_digestalgo f' \<and> (\<exists>d. fst (rpmfilesFDigest dl (Some f) (int i)) = Some d \<and>
          (\<exists>d'. fst (rpmfilesFDigest dl (Some f') (int i')) = Some d' \<and> memcmp d d' (dl (fi_digestalgo f)) = 0))
      | LINK \<Rightarrow> rpmfilesFLink st (Some f) (int i) \<noteq> None \<and> rpmfilesFLink st (Some f) (int i) = rpmfilesFLink st (Some f') (int i')
      | _ \<Rightarrow> False)"

text \<open>The policy: nothing is done to ghosts; a missing file is created, a file that is the new one is only touched, an
  unmodified one is replaced; a modified file is kept if the package did not change it, else one of the two gets
  another name.\<close>

definition fate_policy :: "u32 \<Rightarrow> bool \<Rightarrow> bool \<Rightarrow> bool \<Rightarrow> bool \<Rightarrow> bool \<Rightarrow> rpmFileAction" where
  "fate_policy newFlags exists skipMissing is_new is_old same =
     (if flag_set newFlags RPMFILE_GHOST then FA_SKIP
      else if \<not> exists then (if skipMissing \<and> flag_set newFlags RPMFILE_MISSINGOK then FA_SKIP else FA_CREATE)
      else if is_new then FA_TOUCH
      else if is_old then FA_CREATE
      else if \<not> flag_set newFlags RPMFILE_CONFIG then FA_SAVE
      else if same then FA_SKIP
      else if flag_set newFlags RPMFILE_NOREPLACE then FA_ALTNAME
      else FA_SAVE)"

text \<open>What is expected of the file system: digests and links of existing files can be read.\<close>

definition readable :: "disk \<Rightarrow> cstr \<Rightarrow> bool" where
  "readable dk fn \<longleftrightarrow>
     (\<forall>mode sz. dk_lstat dk fn = Some (mode, sz) \<longrightarrow>
        (rpmfiWhatis mode = REG \<longrightarrow> (\<forall>algo. dk_digest dk algo fn \<noteq> None)) \<and>
        (rpmfiWhatis mode = LINK \<longrightarrow> dk_readlink dk fn \<noteq> None))"

lemma FDigest_in_range:
  "i < rpmfilesFC (Some f) \<Longrightarrow> get_digest dl (Some f) (int i) =
    Inr (fst (rpmfilesFDigest dl (Some f) (int i)), fi_digestalgo f, dl (fi_digestalgo f))"
  by (simp add: get_digest_def rpmfilesFDigest_def Let_def)

lemma backup_policy:
  assumes "\<not> flag_set fl RPMFILE_GHOST"
  shows "fate_policy fl True skip is_new is_old same =
    (if is_new then FA_TOUCH else if is_old then FA_CREATE else backup_fate fl same)"
  using assms by (simp add: fate_policy_def backup_fate_def)

lemma reg_fate_policy:
  assumes "i < rpmfilesFC (Some f)" "j < rpmfilesFC (Some g)" "readable dk fn" "dk_lstat dk fn = Some (mode, sz)"
    "rpmfiWhatis (rpmfilesFMode (Some f) (int i)) = REG" "\<not> flag_set fl RPMFILE_GHOST"
  shows "reg_fate dl dk fn fl (rpmfiWhatis mode) (rpmfiWhatis (rpmfilesFMode (Some g) (int j))) (Some f) (int i) (Some g) (int j) =
    Inr (fate_policy fl True skip (rpmfiWhatis (rpmfilesFMode (Some g) (int j)) = REG \<and> on_disk dl dk st fn g j)
      (on_disk dl dk st fn f i) (same_file dl st f i g j))"
proof -
  obtain da db where d: "rpmfiWhatis mode = REG \<longrightarrow> dk_digest dk (fi_digestalgo g) fn = Some da \<and> dk_digest dk (fi_digestalgo f) fn = Some db"
    using assms(3,4) unfolding readable_def by blast
  show ?thesis
    unfolding reg_fate_def FDigest_in_range [OF assms(1)] FDigest_in_range [OF assms(2)] backup_policy [OF assms(6)]
    using d assms(4,5) by (cases "rpmfiWhatis mode = REG") (auto simp: on_disk_def same_file_def digest_is_def Let_def split: option.splits cong: conj_cong)
qed

lemma link_fate_policy:
  assumes "readable dk fn" "dk_lstat dk fn = Some (mode, sz)"
    "rpmfiWhatis (rpmfilesFMode (Some f) (int i)) = LINK" "\<not> flag_set fl RPMFILE_GHOST"
  shows "link_fate dk st fn fl (rpmfiWhatis mode) (rpmfiWhatis (rpmfilesFMode (Some g) (int j))) (Some f) (int i) (Some g) (int j) =
    fate_policy fl True skip (rpmfiWhatis (rpmfilesFMode (Some g) (int j)) = LINK \<and> on_disk dl dk st fn g j)
      (on_disk dl dk st fn f i) (same_file dl st f i g j)"
proof -
  obtain l where l: "rpmfiWhatis mode = LINK \<longrightarrow> read_link dk fn = Some l"
    using assms(1,2) unfolding readable_def read_link_def by blast
  show ?thesis
    unfolding link_fate_def backup_policy [OF assms(4)]
    using l assms(2,3) by (cases "rpmfiWhatis mode = LINK")
      (auto simp: on_disk_def same_file_def link_is_def Let_def rstreq_iff split: option.splits)
qed

lemma decideFate_eq:
  assumes "i < rpmfilesFC (Some f)" "j < rpmfilesFC (Some g)" "rpmfilesFN st (Some g) (int j) = Some fn" "readable dk fn"
    "rpmfiWhatis (rpmfilesFMode (Some f) (int i)) \<in> {REG, LINK}"
  shows "rpmfilesDecideFate dl dk st (Some f) (int i) (Some g) (int j) skipMissing =
    Inr (fate_policy (rpmfilesFFlags (Some g) (int j)) (dk_lstat dk fn \<noteq> None) skipMissing
      (rpmfiWhatis (rpmfilesFMode (Some g) (int j)) = rpmfiWhatis (rpmfilesFMode (Some f) (int i)) \<and> on_disk dl dk st fn g j)
      (on_disk dl dk st fn f i) (same_file dl st f i g j))"
proof (cases "flag_set (rpmfilesFFlags (Some g) (int j)) RPMFILE_GHOST")
  case True
  then show ?thesis by (simp add: rpmfilesDecideFate_def fate_policy_def)
next
  case ng: False
  show ?thesis
  proof (cases "dk_lstat dk fn")
    case None
    then show ?thesis using ng by (simp add: rpmfilesDecideFate_def lstat_file_def assms(3) fate_policy_def)
  next
    case (Some sb)
    obtain mode sz where sb: "dk_lstat dk fn = Some (mode, sz)" using Some by (cases sb) auto
    show ?thesis
    proof (cases "rpmfiWhatis (rpmfilesFMode (Some f) (int i)) = REG")
      case True
      from reg_fate_policy [OF assms(1,2,4) sb True ng, of dl skipMissing st] show ?thesis
        using ng True by (simp add: rpmfilesDecideFate_def lstat_file_def assms(3) sb Let_def)
    next
      case False
      then have l: "rpmfiWhatis (rpmfilesFMode (Some f) (int i)) = LINK" using assms(5) by blast
      from link_fate_policy [OF assms(4) sb l ng, of st g j skipMissing dl] show ?thesis
        using ng l by (simp add: rpmfilesDecideFate_def lstat_file_def assms(3) sb Let_def)
    qed
  qed
qed

text \<open> C6: The fate of a file that was a regular file or a link is decided by the policy, where a file on disk is compared
  with a package by its type and its digest or target, as long as what exists can be read. In particular a file that is
  in the way is only overwritten without a backup if it is the one of the old package.\<close>

theorem rpmfilesDecideFate_policy:
  assumes "i < rpmfilesFC (Some f)" "j < rpmfilesFC (Some g)" "rpmfilesFN st (Some g) (int j) = Some fn" "readable dk fn"
    "rpmfiWhatis (rpmfilesFMode (Some f) (int i)) \<in> {REG, LINK}"
  shows "rpmfilesDecideFate dl dk st (Some f) (int i) (Some g) (int j) skipMissing =
      Inr (fate_policy (rpmfilesFFlags (Some g) (int j)) (dk_lstat dk fn \<noteq> None) skipMissing
        (rpmfiWhatis (rpmfilesFMode (Some g) (int j)) = rpmfiWhatis (rpmfilesFMode (Some f) (int i)) \<and> on_disk dl dk st fn g j)
        (on_disk dl dk st fn f i) (same_file dl st f i g j)) \<and>
    (rpmfilesDecideFate dl dk st (Some f) (int i) (Some g) (int j) skipMissing = Inr FA_CREATE \<and> dk_lstat dk fn \<noteq> None \<longrightarrow>
      on_disk dl dk st fn f i)"
proof -
  have "b" if "fate_policy fl True skip a b c = FA_CREATE" for fl skip a b c
    using that by (auto simp: fate_policy_def split: if_splits)
  with decideFate_eq [OF assms, of dl skipMissing] show ?thesis by auto
qed

text \<open>An example: a configuration file that was modified.\<close>

definition demo_old :: rpmfiles where
  "demo_old = demo_files\<lparr>fi_fmodes := Some [33188, 33188, 33188], fi_fsizes := Some [5, 5, 5], fi_digestalgo := 1, fi_digests := Some [1, 1, 1]\<rparr>"

definition demo_new :: rpmfiles where
  "demo_new = demo_old\<lparr>fi_digests := Some [2, 2, 2], fi_fflags := Some [17, 17, 17]\<rparr>"

definition demo_disk :: "8 word \<Rightarrow> disk" where
  "demo_disk b = \<lparr>dk_lstat = (\<lambda>fn. if fn = ''/etc/a'' then Some (33188, 5) else None),
     dk_digest = (\<lambda>algo fn. Some [b]), dk_readlink = (\<lambda>_. None)\<rparr>"

lemma demo_files_simps:
  "rpmfilesFC (Some demo_old) = 3" "rpmfilesFC (Some demo_new) = 3"
  "rpmfilesFMode (Some demo_old) (int 0) = 33188" "rpmfilesFMode (Some demo_new) (int 0) = 33188"
  "rpmfilesFFlags (Some demo_new) (int 0) = 17" "rpmfilesFSize (Some demo_new) (int 0) = 5"
  "rpmfilesFDigest (\<lambda>_. 1) (Some demo_old) (int 0) = (Some [1], Some (1, 1))"
  "rpmfilesFDigest (\<lambda>_. 1) (Some demo_new) (int 0) = (Some [2], Some (1, 1))"
  "fi_digestalgo demo_old = 1" "fi_digestalgo demo_new = 1" "rpmfiWhatis 33188 = REG"
  by (simp_all add: demo_old_def demo_new_def demo_files_def empty_files_def rpmfilesFC_def rpmfnFC_def rpmfilesFMode_def
      rpmfilesFFlags_def rpmfilesFSize_def attr_def arr_nth_def rpmfilesFDigest_def rpmfiWhatis_def
      S_ISDIR_def S_ISCHR_def S_ISBLK_def S_ISLNK_def S_ISSOCK_def S_ISFIFO_def)

lemma demo_path: "rpmfilesFN [demo_names] (Some demo_new) (int 0) = Some ''/etc/a''"
proof -
  have "rpmfilesFN [demo_names] (Some demo_new) (int 0) = rpmfilesFN [demo_names] (Some demo_files) (int 0)"
    by (simp add: rpmfilesFN_def demo_new_def demo_old_def)
  also have "\<dots> = Some ''/etc/a''" by code_simp
  finally show ?thesis .
qed

theorem rpmfilesDecideFate_policy_witness:
  "rpmfilesDecideFate (\<lambda>_. 1) (demo_disk 3) [demo_names] (Some demo_old) (int 0) (Some demo_new) (int 0) False = Inr FA_ALTNAME"
proof -
  have r: "readable (demo_disk 3) ''/etc/a''" by (simp add: readable_def demo_disk_def demo_files_simps)
  have "\<not> on_disk (\<lambda>_. 1) (demo_disk 3) [demo_names] ''/etc/a'' demo_new 0" "\<not> on_disk (\<lambda>_. 1) (demo_disk 3) [demo_names] ''/etc/a'' demo_old 0"
    "\<not> same_file (\<lambda>_. 1) [demo_names] demo_old 0 demo_new 0"
    using demo_files_simps by (simp_all add: on_disk_def same_file_def demo_disk_def digest_is_def memcmp_def)
  then show ?thesis
    using rpmfilesDecideFate_policy [OF _ _ demo_path r, of 0 demo_old "\<lambda>_. 1" False] demo_files_simps
    by (simp add: fate_policy_def demo_disk_def)
qed

subsection \<open>Equal contents\<close>

lemma fi_digests_fst: "i < rpmfilesFC (Some f) \<Longrightarrow> fst (rpmfilesFDigest dl (Some f) (int i)) = None \<longleftrightarrow> fi_digests f = None"
  by (simp add: rpmfilesFDigest_def Let_def)

text \<open> The test whether a file is the same on disk, in the old and in the new package is exact for regular files if the
  old package has digests; for links only the new package and the disk are compared.\<close>

theorem rpmfileContentsEqual_spec:
  assumes "i < rpmfilesFC (Some f)" "j < rpmfilesFC (Some g)" "rpmfilesFN st (Some g) (int j) = Some fn" "readable dk fn"
    "fi_digests f \<noteq> None"
  shows "rpmfileContentsEqual dl dk st (Some f) (int i) (Some g) (int j) =
    Inr (map_option snd (dk_lstat dk fn) = Some (rpmfilesFSize (Some g) (int j)) \<and>
      rpmfiWhatis (rpmfilesFMode (Some f) (int i)) = rpmfiWhatis (rpmfilesFMode (Some g) (int j)) \<and>
      on_disk dl dk st fn g j \<and> (rpmfiWhatis (rpmfilesFMode (Some f) (int i)) = REG \<longrightarrow> same_file dl st f i g j))"
proof (cases "dk_lstat dk fn")
  case None
  then show ?thesis by (simp add: rpmfileContentsEqual_def assms(3))
next
  case (Some sb)
  obtain mode sz where sb: "dk_lstat dk fn = Some (mode, sz)" using Some by (cases sb) auto
  obtain od where od: "fst (rpmfilesFDigest dl (Some f) (int i)) = Some od"
    using fi_digests_fst [OF assms(1), of dl] assms(5) by (cases "fst (rpmfilesFDigest dl (Some f) (int i))") auto
  have d: "\<exists>da. dk_digest dk (fi_digestalgo g) fn = Some da" if "rpmfiWhatis mode = REG"
    using assms(4) sb that unfolding readable_def by blast
  have l: "\<exists>l. read_link dk fn = Some l" if "rpmfiWhatis mode = LINK"
    using assms(4) sb that unfolding readable_def read_link_def by blast
  show ?thesis
    using d l unfolding rpmfileContentsEqual_def assms(3) FDigest_in_range [OF assms(1)] FDigest_in_range [OF assms(2)]
    by (cases "rpmfiWhatis mode") (auto simp: sb od on_disk_def same_file_def digest_is_def link_is_def Let_def split: option.splits)
qed

theorem rpmfileContentsEqual_spec_witness:
  "rpmfileContentsEqual (\<lambda>_. 1) (demo_disk 2) [demo_names] (Some demo_new) (int 0) (Some demo_new) (int 0) = Inr True"
proof -
  have r: "readable (demo_disk 2) ''/etc/a''" by (simp add: readable_def demo_disk_def demo_files_simps)
  have "on_disk (\<lambda>_. 1) (demo_disk 2) [demo_names] ''/etc/a'' demo_new 0" "same_file (\<lambda>_. 1) [demo_names] demo_new 0 demo_new 0"
    using demo_files_simps by (simp_all add: on_disk_def same_file_def demo_disk_def digest_is_def memcmp_def)
  then show ?thesis
    using rpmfileContentsEqual_spec [OF _ _ demo_path r, of 0 demo_new "\<lambda>_. 1"] demo_files_simps
    by (simp add: demo_disk_def demo_new_def)
qed

text \<open> If the digests of the old package could not be decoded, the comparison of a file that exists dereferences NULL.\<close>

theorem rpmfileContentsEqual_null:
  assumes "i < rpmfilesFC (Some f)" "j < rpmfilesFC (Some g)" "rpmfilesFN st (Some g) (int j) = Some fn"
    "dk_lstat dk fn = Some (mode, rpmfilesFSize (Some g) (int j))" "rpmfiWhatis mode = REG"
    "rpmfiWhatis (rpmfilesFMode (Some f) (int i)) = REG" "rpmfiWhatis (rpmfilesFMode (Some g) (int j)) = REG"
    "fi_digestalgo f = fi_digestalgo g" "fi_digests f = None" "fi_digests g \<noteq> None"
  shows "rpmfileContentsEqual dl dk st (Some f) (int i) (Some g) (int j) = Inl FiNull"
  using fi_digests_fst [OF assms(1), of dl] fi_digests_fst [OF assms(2), of dl] assms(9,10)
  unfolding rpmfileContentsEqual_def assms(3) FDigest_in_range [OF assms(1)] FDigest_in_range [OF assms(2)]
  by (auto simp: assms(4-8) split: option.splits)

theorem rpmfileContentsEqual_null_witness:
  "rpmfileContentsEqual (\<lambda>_. 1) (demo_disk 2) [demo_names] (Some (demo_old\<lparr>fi_digests := None\<rparr>)) (int 0) (Some demo_new) (int 0) = Inl FiNull"
proof -
  have "rpmfilesFC (Some (demo_old\<lparr>fi_digests := None\<rparr>)) = 3" "rpmfilesFMode (Some (demo_old\<lparr>fi_digests := None\<rparr>)) (int 0) = 33188"
    using demo_files_simps(1,3) by (simp_all add: rpmfilesFC_def rpmfilesFMode_def attr_def)
  then show ?thesis
    using rpmfileContentsEqual_null [OF _ _ demo_path, of 0 "demo_old\<lparr>fi_digests := None\<rparr>" "demo_disk 2" 33188 "\<lambda>_. 1"] demo_files_simps
    by (simp add: demo_disk_def demo_new_def)
qed

text \<open>The link of the old package does not matter.\<close>

lemma contents_equal_links:
  assumes "rpmfilesFN st (Some g) (int j) = Some fn" "dk_lstat dk fn = Some (mode, rpmfilesFSize (Some g) (int j))"
    "rpmfiWhatis mode = LINK" "rpmfiWhatis (rpmfilesFMode (Some f) (int i)) = LINK"
    "rpmfiWhatis (rpmfilesFMode (Some g) (int j)) = LINK" "rpmfilesFLink st (Some g) (int j) = read_link dk fn" "dk_readlink dk fn \<noteq> None"
  shows "rpmfileContentsEqual dl dk st (Some f) (int i) (Some g) (int j) = Inr True"
  using assms(7) by (auto simp: rpmfileContentsEqual_def assms(1-6) rstreq_iff read_link_def)

subsection \<open>Conflicts of configuration files\<close>

text \<open> A configuration file of a new package conflicts exactly if there is something else in its place, or anything if
  it is a ghost.\<close>

theorem rpmfilesConfigConflict_spec:
  assumes "i < rpmfilesFC (Some f)" "rpmfilesFN st (Some f) (int i) = Some fn" "readable dk fn"
  shows "rpmfilesConfigConflict dl dk st (Some f) (int i) =
    Inr (flag_set (rpmfilesFFlags (Some f) (int i)) RPMFILE_CONFIG \<and> rpmfiWhatis (rpmfilesFMode (Some f) (int i)) \<in> {REG, LINK} \<and>
      dk_lstat dk fn \<noteq> None \<and>
      (flag_set (rpmfilesFFlags (Some f) (int i)) RPMFILE_GHOST \<or> snd (the (dk_lstat dk fn)) \<noteq> rpmfilesFSize (Some f) (int i) \<or>
       \<not> on_disk dl dk st fn f i))"
proof (cases "dk_lstat dk fn")
  case None
  then show ?thesis by (auto simp: rpmfilesConfigConflict_def assms(2) lstat_file_def Let_def)
next
  case (Some sb)
  obtain mode sz where sb: "dk_lstat dk fn = Some (mode, sz)" using Some by (cases sb) auto
  have d: "\<exists>da. dk_digest dk (fi_digestalgo f) fn = Some da" if "rpmfiWhatis mode = REG"
    using assms(3) sb that unfolding readable_def by blast
  have l: "\<exists>l. read_link dk fn = Some l" if "rpmfiWhatis mode = LINK"
    using assms(3) sb that unfolding readable_def read_link_def by blast
  show ?thesis
    using d l unfolding rpmfilesConfigConflict_def assms(2) FDigest_in_range [OF assms(1)]
    by (cases "rpmfiWhatis mode") (auto simp: sb lstat_file_def on_disk_def Let_def split: option.splits)
qed

theorem rpmfilesConfigConflict_spec_witness:
  "rpmfilesConfigConflict (\<lambda>_. 1) (demo_disk 3) [demo_names] (Some demo_new) (int 0) = Inr True"
proof -
  have r: "readable (demo_disk 3) ''/etc/a''" by (simp add: readable_def demo_disk_def demo_files_simps)
  have "\<not> on_disk (\<lambda>_. 1) (demo_disk 3) [demo_names] ''/etc/a'' demo_new 0"
    using demo_files_simps by (simp add: on_disk_def demo_disk_def digest_is_def memcmp_def)
  then show ?thesis
    using rpmfilesConfigConflict_spec [OF _ demo_path r, of "\<lambda>_. 1"] demo_files_simps by (simp add: demo_disk_def)
qed

end
