(* ===== verification/Rpmal.thy ===== *)
theory Rpmal
  imports Order Rpmfi
begin

text \<open>
  The packages that are available to dependencies in a transaction, lib/rpmal.cc: the list of packages, the indexes of
  provides, obsoletes and files, which are made when they are needed first, and the search for providers. A pointer to a
  transaction element is its index in the list of elements. A multimap is the list of its pairs; the order in which
  \<open>equal_range\<close> enumerates the pairs with a key is not specified by the language and is a parameter. The comparison of
  directories by their fingerprints (lib/fprint.cc) is a parameter, too. Log messages are left out.
\<close>

record avail_te = rpmte +
  te_N :: cstr
  te_isSource :: bool
  te_files :: "rpmfiles option"

definition rpmteDS :: "avail_te list \<Rightarrow> nat \<Rightarrow> rpmTagVal \<Rightarrow> rpmds option" where
  "rpmteDS tes te tag = te_deps (tes ! te) tag"

record availablePackage =
  ap_p :: "nat option"
  ap_provides :: "rpmds option"
  ap_obsoletes :: "rpmds option"
  ap_fi :: "rpmfiles option"

record availableIndexEntry =
  ie_pkgNum :: nat
  ie_entryIx :: nat

record availableIndexFileEntry =
  fe_dirName :: nat
  fe_pkgNum :: nat
  fe_entryIx :: nat

type_synonym rpmalDepHash = "(nat \<times> availableIndexEntry) list"
type_synonym rpmalFileHash = "(nat \<times> availableIndexFileEntry) list"

record rpmal =
  al_pool :: nat
  al_list :: "availablePackage list"
  al_providesHash :: "rpmalDepHash option"
  al_obsoletesHash :: "rpmalDepHash option"
  al_fileHash :: "rpmalFileHash option"
  al_tsflags :: u32
  al_tscolor :: u32
  al_prefcolor :: u32

abbreviation RPMTRANS_FLAG_NODOCS :: u32 where "RPMTRANS_FLAG_NODOCS \<equiv> 0x20"
abbreviation RPMTRANS_FLAG_NOCONFIGS :: u32 where "RPMTRANS_FLAG_NOCONFIGS \<equiv> 0x40000000"
abbreviation RPMTAG_NAME :: rpmTagVal where "RPMTAG_NAME \<equiv> 1000"

text \<open>The transaction is seen through its pool, its flags and its colors.\<close>

definition rpmalCreate :: "nat \<Rightarrow> u32 \<Rightarrow> u32 \<Rightarrow> u32 \<Rightarrow> rpmal" where
  "rpmalCreate pool flags color prefcolor =
     \<lparr>al_pool = pool, al_list = [], al_providesHash = None, al_obsoletesHash = None, al_fileHash = None,
      al_tsflags = flags, al_tscolor = color, al_prefcolor = prefcolor\<rparr>"

fun forget_first :: "nat \<Rightarrow> availablePackage list \<Rightarrow> availablePackage list" where
  "forget_first p [] = []"
| "forget_first p (alp # alps) = (if ap_p alp = Some p then alp\<lparr>ap_p := None\<rparr> # alps else alp # forget_first p alps)"

definition rpmalDel :: "rpmal \<Rightarrow> nat \<Rightarrow> rpmal" where
  "rpmalDel al p = al\<lparr>al_list := forget_first p (al_list al)\<rparr>"

definition wrong_color :: "u32 \<Rightarrow> u32 \<Rightarrow> bool" where
  "wrong_color tscolor color \<longleftrightarrow> tscolor \<noteq> 0 \<and> color \<noteq> 0 \<and> tscolor AND color = 0"

subsection \<open>The indexes\<close>

text \<open>The pairs that a package adds to an index.\<close>

definition file_skipped :: "rpmal \<Rightarrow> rpmfiles option \<Rightarrow> int \<Rightarrow> bool" where
  "file_skipped al fi i \<longleftrightarrow> wrong_color (al_tscolor al) (rpmfilesFColor fi i) \<or>
     al_tsflags al AND RPMTRANS_FLAG_NODOCS \<noteq> 0 \<and> flag_set (rpmfilesFFlags fi i) RPMFILE_DOC \<or>
     al_tsflags al AND RPMTRANS_FLAG_NOCONFIGS \<noteq> 0 \<and> flag_set (rpmfilesFFlags fi i) RPMFILE_CONFIG"

definition rpmalAddFiles :: "nat \<Rightarrow> rpmfiles option \<Rightarrow> rpmal \<Rightarrow> rpmal" where
  "rpmalAddFiles pkgNum fi al =
     al\<lparr>al_fileHash := map_option (\<lambda>h. h @ map (\<lambda>i. (rpmfilesBNId fi (int i),
         \<lparr>fe_dirName = rpmfilesDNId fi (rpmfilesDI fi (int i)), fe_pkgNum = pkgNum, fe_entryIx = i\<rparr>))
       (filter (\<lambda>i. \<not> file_skipped al fi (int i)) [0..<rpmfilesFC fi])) (al_fileHash al)\<rparr>"

text \<open>The source combines the two flags of \<open>config()\<close> provides with a bitwise and.\<close>

definition provide_skipped :: "rpmal \<Rightarrow> rpmds option \<Rightarrow> int \<Rightarrow> bool" where
  "provide_skipped al ds i \<longleftrightarrow> wrong_color (al_tscolor al) (rpmdsColorIndex ds i) \<or>
     (al_tsflags al AND RPMTRANS_FLAG_NOCONFIGS) AND (rpmdsFlagsIndex ds i AND RPMSENSE_CONFIG) \<noteq> 0"

definition rpmalAddProvides :: "nat \<Rightarrow> rpmds option \<Rightarrow> rpmal \<Rightarrow> rpmal" where
  "rpmalAddProvides pkgNum provides al =
     al\<lparr>al_providesHash := map_option (\<lambda>h. h @ map (\<lambda>i. (rpmdsNIdIndex provides (int i), \<lparr>ie_pkgNum = pkgNum, ie_entryIx = i\<rparr>))
       (filter (\<lambda>i. \<not> provide_skipped al provides (int i)) [0..<nat (rpmdsCount provides)])) (al_providesHash al)\<rparr>"

definition rpmalAddObsoletes :: "nat \<Rightarrow> rpmds option \<Rightarrow> rpmal \<Rightarrow> rpmal" where
  "rpmalAddObsoletes pkgNum obsoletes al =
     al\<lparr>al_obsoletesHash := map_option (\<lambda>h. h @ map (\<lambda>i. (rpmdsNIdIndex obsoletes (int i), \<lparr>ie_pkgNum = pkgNum, ie_entryIx = i\<rparr>))
       (filter (\<lambda>i. \<not> wrong_color (al_tscolor al) (rpmdsColorIndex obsoletes (int i))) [0..<nat (rpmdsCount obsoletes)]))
       (al_obsoletesHash al)\<rparr>"

definition rpmalAdd :: "avail_te list \<Rightarrow> rpmal \<Rightarrow> nat \<Rightarrow> rpmal" where
  "rpmalAdd tes al p =
     (if te_isSource (tes ! p) then al
      else
        let pkgNum = length (al_list al);
            alp = \<lparr>ap_p = Some p, ap_provides = rpmteDS tes p RPMTAG_PROVIDENAME,
                   ap_obsoletes = rpmteDS tes p RPMTAG_OBSOLETENAME, ap_fi = te_files (tes ! p)\<rparr>;
            al = al\<lparr>al_list := al_list al @ [alp]\<rparr>;
            al = (if al_providesHash al \<noteq> None then rpmalAddProvides pkgNum (ap_provides alp) al else al);
            al = (if al_obsoletesHash al \<noteq> None then rpmalAddObsoletes pkgNum (ap_obsoletes alp) al else al)
        in if al_fileHash al \<noteq> None then rpmalAddFiles pkgNum (ap_fi alp) al else al)"

definition rpmalMakeFileIndex :: "rpmal \<Rightarrow> rpmal" where
  "rpmalMakeFileIndex al =
     fold (\<lambda>(i, alp). rpmalAddFiles i (ap_fi alp)) (enumerate 0 (al_list al)) (al\<lparr>al_fileHash := Some []\<rparr>)"

definition rpmalMakeProvidesIndex :: "rpmal \<Rightarrow> rpmal" where
  "rpmalMakeProvidesIndex al =
     fold (\<lambda>(i, alp). rpmalAddProvides i (ap_provides alp)) (enumerate 0 (al_list al)) (al\<lparr>al_providesHash := Some []\<rparr>)"

definition rpmalMakeObsoletesIndex :: "rpmal \<Rightarrow> rpmal" where
  "rpmalMakeObsoletesIndex al =
     fold (\<lambda>(i, alp). rpmalAddObsoletes i (ap_obsoletes alp)) (enumerate 0 (al_list al)) (al\<lparr>al_obsoletesHash := Some []\<rparr>)"

subsection \<open>Searching\<close>

text \<open>The values of a key, in the order \<open>ord\<close> of the hash table.\<close>

definition equal_range :: "('e list \<Rightarrow> 'e list) \<Rightarrow> (nat \<times> 'e) list \<Rightarrow> nat \<Rightarrow> 'e list" where
  "equal_range ord h key = ord (map snd (filter (\<lambda>e. fst e = key) h))"

text \<open>The element of an entry; \<open>None\<close> if it was deleted, or if the dependency is its own (the element \<open>self\<close>).\<close>

definition provider_at :: "rpmal \<Rightarrow> nat option \<Rightarrow> nat \<Rightarrow> nat option" where
  "provider_at al self pkgNum =
     (case ap_p (al_list al ! pkgNum) of None \<Rightarrow> None | Some p \<Rightarrow> if self = Some p then None else Some p)"

definition rpmalAllObsoletes ::
    "(availableIndexEntry list \<Rightarrow> availableIndexEntry list) \<Rightarrow> pools \<Rightarrow> rpmal \<Rightarrow> rpmds \<Rightarrow> rpmal \<times> nat list" where
  "rpmalAllObsoletes ord st al ds =
     (let nameId = rpmdsNId (Some ds) in
      if nameId = 0 then (al, [])
      else
        let al = (if al_obsoletesHash al = None then rpmalMakeObsoletesIndex al else al) in
        (al, List.map_filter (\<lambda>e. case provider_at al None (ie_pkgNum e) of None \<Rightarrow> None
          | Some p \<Rightarrow> if rpmdsCompareIndex st (the (ap_obsoletes (al_list al ! ie_pkgNum e))) (int (ie_entryIx e)) ds (rpmdsIx (Some ds))
                      then Some p else None)
          (equal_range ord (the (al_obsoletesHash al)) nameId)))"

text \<open>\<open>fp_eq\<close> says whether a file in two directories with different names is the same one, by its fingerprint.\<close>

definition rpmalAllFileSatisfiesDepend ::
    "(availableIndexFileEntry list \<Rightarrow> availableIndexFileEntry list) \<Rightarrow> (cstr \<Rightarrow> cstr \<Rightarrow> cstr \<Rightarrow> bool) \<Rightarrow>
      pools \<Rightarrow> rpmal \<Rightarrow> cstr \<Rightarrow> nat option \<Rightarrow> fi_error + (pools \<times> rpmal \<times> nat list)" where
  "rpmalAllFileSatisfiesDepend ord fp_eq st al fileName self =
     (if \<not> starts_with (CHR ''/'') fileName then Inr (st, al, [])
      else case strrchr fileName (CHR ''/'') of None \<Rightarrow> Inr (st, al, [])
      | Some slash \<Rightarrow>
          let bnStart = slash + 1; al = (if al_fileHash al = None then rpmalMakeFileIndex al else al) in
          (case rpmstrPoolId (st ! al_pool al) (Some (drop bnStart fileName)) False of None \<Rightarrow> Inl FiPoolLoop
           | Some (pool, baseName) \<Rightarrow>
               let st = st[al_pool al := pool] in
               if baseName = 0 then Inr (st, al, [])
               else
                 let es = equal_range ord (the (al_fileHash al)) baseName in
                 if es = [] then Inr (st, al, [])
                 else (case rpmstrPoolIdn (st ! al_pool al) (Some fileName) bnStart True of None \<Rightarrow> Inl FiPoolLoop
                   | Some (pool, dirName) \<Rightarrow>
                       let st = st[al_pool al := pool] in
                       Inr (st, al, List.map_filter (\<lambda>e. case provider_at al self (fe_pkgNum e) of None \<Rightarrow> None
                         | Some p \<Rightarrow>
                             if fe_dirName e = dirName \<or>
                               fp_eq (take bnStart fileName) (drop bnStart fileName) (the (pool_str st (al_pool al) (fe_dirName e)))
                             then Some p else None) es))))"

text \<open>Whether a provide satisfies a dependency; an obsolete is on the name, version and release of a package only.\<close>

definition provide_satisfies :: "avail_te list \<Rightarrow> pools \<Rightarrow> availablePackage \<Rightarrow> nat \<Rightarrow> int \<Rightarrow> rpmds \<Rightarrow> bool" where
  "provide_satisfies tes st alp p ix ds =
     (if rpmdsTagN (Some ds) = RPMTAG_OBSOLETENAME then
        rpmdsNIndex st (ap_provides alp) ix = Some (te_N (tes ! p)) \<and>
        (let thisds = the (rpmteDS tes p RPMTAG_NAME) in rpmdsCompareIndex st thisds (rpmdsIx (Some thisds)) ds (rpmdsIx (Some ds)))
      else rpmdsCompareIndex st (the (ap_provides alp)) ix ds (rpmdsIx (Some ds)))"

text \<open>\<open>owner\<close> is the element that the dependency set belongs to: obsoletes and conflicts do not match their own package.\<close>

definition rpmalAllSatisfiesDepend ::
    "(availableIndexEntry list \<Rightarrow> availableIndexEntry list) \<Rightarrow> (availableIndexFileEntry list \<Rightarrow> availableIndexFileEntry list) \<Rightarrow>
      (cstr \<Rightarrow> cstr \<Rightarrow> cstr \<Rightarrow> bool) \<Rightarrow> avail_te list \<Rightarrow> pools \<Rightarrow> rpmal \<Rightarrow> rpmds \<Rightarrow> nat option \<Rightarrow> fi_error + (pools \<times> rpmal \<times> nat list)" where
  "rpmalAllSatisfiesDepend ord ford fp_eq tes st al ds owner =
     (let nameId = rpmdsNId (Some ds); dtag = rpmdsTagN (Some ds); obsolete = (dtag = RPMTAG_OBSOLETENAME);
          self = (if obsolete \<or> dtag = RPMTAG_CONFLICTNAME then owner else None) in
      if nameId = 0 then Inr (st, al, [])
      else case pool_str st (al_pool al) nameId of None \<Rightarrow> Inl FiNull
      | Some name \<Rightarrow>
          rbind (if \<not> obsolete \<and> starts_with (CHR ''/'') name then rpmalAllFileSatisfiesDepend ford fp_eq st al name self
                 else Inr (st, al, [])) (\<lambda>(st, al, ret).
          if ret \<noteq> [] then Inr (st, al, ret)
          else
            let al = (if al_providesHash al = None then rpmalMakeProvidesIndex al else al) in
            Inr (st, al, List.map_filter (\<lambda>e. case provider_at al self (ie_pkgNum e) of None \<Rightarrow> None
              | Some p \<Rightarrow> if provide_satisfies tes st (al_list al ! ie_pkgNum e) p (int (ie_entryIx e)) ds then Some p else None)
              (equal_range ord (the (al_providesHash al)) nameId))))"

definition provider_score :: "avail_te list \<Rightarrow> rpmal \<Rightarrow> nat option \<Rightarrow> u32 \<Rightarrow> nat \<Rightarrow> nat" where
  "provider_score tes al te dscolor p =
     (let tecolor = te_color (tes ! p) in
      (if al_tscolor al \<noteq> 0 \<and>
          (if dscolor \<noteq> 0 then dscolor = tecolor else al_prefcolor al \<noteq> 0 \<and> al_prefcolor al = tecolor) then 2 else 0) +
      (if te = Some p then 1 else 0))"

fun best_loop :: "(nat \<Rightarrow> nat) \<Rightarrow> nat list \<Rightarrow> nat option \<Rightarrow> nat \<Rightarrow> nat option" where
  "best_loop score [] best bestscore = best"
| "best_loop score (p # ps) best bestscore =
     (if score p > bestscore then best_loop score ps (Some p) (score p) else best_loop score ps best bestscore)"

definition rpmalSatisfiesDepend ::
    "(availableIndexEntry list \<Rightarrow> availableIndexEntry list) \<Rightarrow> (availableIndexFileEntry list \<Rightarrow> availableIndexFileEntry list) \<Rightarrow>
      (cstr \<Rightarrow> cstr \<Rightarrow> cstr \<Rightarrow> bool) \<Rightarrow> avail_te list \<Rightarrow> pools \<Rightarrow> rpmal \<Rightarrow> nat option \<Rightarrow> rpmds \<Rightarrow> nat option \<Rightarrow>
      fi_error + (pools \<times> rpmal \<times> nat option)" where
  "rpmalSatisfiesDepend ord ford fp_eq tes st al te ds owner =
     rbind (rpmalAllSatisfiesDepend ord ford fp_eq tes st al ds owner) (\<lambda>(st, al, providers).
     Inr (st, al,
       if providers = [] then None
       else case best_loop (provider_score tes al te (rpmdsColor (Some ds))) providers None 0 of
         None \<Rightarrow> Some (hd providers) | Some best \<Rightarrow> Some best))"

text \<open>The position of an element; the largest unsigned number if there is none.\<close>

definition rpmalLookupTE :: "rpmal \<Rightarrow> nat \<Rightarrow> u32" where
  "rpmalLookupTE al te =
     (case find (\<lambda>i. ap_p (al_list al ! i) = Some te) [0..<length (al_list al)] of None \<Rightarrow> -1 | Some i \<Rightarrow> of_nat i)"

section \<open>Properties\<close>

subsection \<open>The indexes are those of the list\<close>

text \<open>What an index is made of: a package adds pairs, and nothing but the index changes.\<close>

locale lazy_index =
  fixes hash :: "rpmal \<Rightarrow> 'e list option" and rest :: "rpmal \<Rightarrow> rpmal"
    and add :: "nat \<Rightarrow> availablePackage \<Rightarrow> rpmal \<Rightarrow> rpmal" and pairs :: "rpmal \<Rightarrow> nat \<Rightarrow> availablePackage \<Rightarrow> 'e list"
  assumes add_hash: "hash (add i alp al) = map_option (\<lambda>h. h @ pairs al i alp) (hash al)"
    and add_rest: "rest (add i alp al) = rest al"
    and pairs_rest: "rest al = rest al' \<Longrightarrow> pairs al = pairs al'"
begin

lemma fold_rest: "rest (fold (\<lambda>(i, alp). add i alp) xs al) = rest al"
  by (induction xs arbitrary: al) (auto simp: add_rest)

lemma fold_hash: "hash (fold (\<lambda>(i, alp). add i alp) xs al) = map_option (\<lambda>h. h @ concat (map (\<lambda>(i, alp). pairs al i alp) xs)) (hash al)"
proof (induction xs arbitrary: al)
  case (Cons x xs)
  then show ?case using pairs_rest [OF add_rest] by (cases x) (simp add: add_hash option.map_comp comp_def)
qed (simp add: option.map_ident)

text \<open>An index that is made late is the one that would have been kept.\<close>

lemma made_hash:
  assumes "hash al = Some []"
  shows "hash (fold (\<lambda>(i, alp). add i alp) (enumerate 0 l) al) = Some (concat (map (\<lambda>(i, alp). pairs al i alp) (enumerate 0 l)))"
  by (simp add: fold_hash assms)

end

definition provide_pairs :: "rpmal \<Rightarrow> nat \<Rightarrow> availablePackage \<Rightarrow> rpmalDepHash" where
  "provide_pairs al k alp = map (\<lambda>i. (rpmdsNIdIndex (ap_provides alp) (int i), \<lparr>ie_pkgNum = k, ie_entryIx = i\<rparr>))
     (filter (\<lambda>i. \<not> provide_skipped al (ap_provides alp) (int i)) [0..<nat (rpmdsCount (ap_provides alp))])"

definition obsolete_pairs :: "rpmal \<Rightarrow> nat \<Rightarrow> availablePackage \<Rightarrow> rpmalDepHash" where
  "obsolete_pairs al k alp = map (\<lambda>i. (rpmdsNIdIndex (ap_obsoletes alp) (int i), \<lparr>ie_pkgNum = k, ie_entryIx = i\<rparr>))
     (filter (\<lambda>i. \<not> wrong_color (al_tscolor al) (rpmdsColorIndex (ap_obsoletes alp) (int i))) [0..<nat (rpmdsCount (ap_obsoletes alp))])"

definition file_pairs :: "rpmal \<Rightarrow> nat \<Rightarrow> availablePackage \<Rightarrow> rpmalFileHash" where
  "file_pairs al k alp = map (\<lambda>i. (rpmfilesBNId (ap_fi alp) (int i),
       \<lparr>fe_dirName = rpmfilesDNId (ap_fi alp) (rpmfilesDI (ap_fi alp) (int i)), fe_pkgNum = k, fe_entryIx = i\<rparr>))
     (filter (\<lambda>i. \<not> file_skipped al (ap_fi alp) (int i)) [0..<rpmfilesFC (ap_fi alp)])"

text \<open>Two lists that agree in everything but one index agree in what the pairs depend on.\<close>

lemma rest_sel:
  "al\<lparr>al_providesHash := h\<rparr> = al'\<lparr>al_providesHash := h\<rparr> \<Longrightarrow> al_tscolor al = al_tscolor al' \<and> al_tsflags al = al_tsflags al'"
  "al\<lparr>al_obsoletesHash := h\<rparr> = al'\<lparr>al_obsoletesHash := h\<rparr> \<Longrightarrow> al_tscolor al = al_tscolor al' \<and> al_tsflags al = al_tsflags al'"
  "al\<lparr>al_fileHash := f\<rparr> = al'\<lparr>al_fileHash := f\<rparr> \<Longrightarrow> al_tscolor al = al_tscolor al' \<and> al_tsflags al = al_tsflags al'"
  by (cases al; cases al'; simp)+

lemma pairs_cong:
  assumes "al_tscolor al = al_tscolor al'" "al_tsflags al = al_tsflags al'"
  shows "provide_pairs al = provide_pairs al'" "obsolete_pairs al = obsolete_pairs al'" "file_pairs al = file_pairs al'"
  using assms by (simp_all add: fun_eq_iff provide_pairs_def obsolete_pairs_def file_pairs_def provide_skipped_def file_skipped_def)

interpretation provides_ix: lazy_index al_providesHash "\<lambda>al. al\<lparr>al_providesHash := None\<rparr>" "\<lambda>i alp. rpmalAddProvides i (ap_provides alp)" provide_pairs
  by unfold_locales (auto simp: rpmalAddProvides_def provide_pairs_def [symmetric] dest!: rest_sel intro: pairs_cong)

interpretation obsoletes_ix: lazy_index al_obsoletesHash "\<lambda>al. al\<lparr>al_obsoletesHash := None\<rparr>" "\<lambda>i alp. rpmalAddObsoletes i (ap_obsoletes alp)" obsolete_pairs
  by unfold_locales (auto simp: rpmalAddObsoletes_def obsolete_pairs_def [symmetric] dest!: rest_sel intro: pairs_cong)

interpretation files_ix: lazy_index al_fileHash "\<lambda>al. al\<lparr>al_fileHash := None\<rparr>" "\<lambda>i alp. rpmalAddFiles i (ap_fi alp)" file_pairs
  by unfold_locales (auto simp: rpmalAddFiles_def file_pairs_def [symmetric] dest!: rest_sel intro: pairs_cong)

definition index_of :: "(nat \<Rightarrow> availablePackage \<Rightarrow> 'e list) \<Rightarrow> availablePackage list \<Rightarrow> 'e list" where
  "index_of f l = concat (map (\<lambda>(i, alp). f i alp) (enumerate 0 l))"

definition al_ok :: "rpmal \<Rightarrow> bool" where
  "al_ok al \<longleftrightarrow> al_providesHash al \<in> {None, Some (index_of (provide_pairs al) (al_list al))} \<and>
     al_obsoletesHash al \<in> {None, Some (index_of (obsolete_pairs al) (al_list al))} \<and>
     al_fileHash al \<in> {None, Some (index_of (file_pairs al) (al_list al))}"

lemma make_index:
  "rpmalMakeProvidesIndex al = al\<lparr>al_providesHash := Some (index_of (provide_pairs al) (al_list al))\<rparr>"
  "rpmalMakeObsoletesIndex al = al\<lparr>al_obsoletesHash := Some (index_of (obsolete_pairs al) (al_list al))\<rparr>"
  "rpmalMakeFileIndex al = al\<lparr>al_fileHash := Some (index_of (file_pairs al) (al_list al))\<rparr>"
proof -
  have eq: "r\<lparr>al_providesHash := None\<rparr> = a\<lparr>al_providesHash := None\<rparr> \<Longrightarrow> al_providesHash r = x \<Longrightarrow> r = a\<lparr>al_providesHash := x\<rparr>"
    "r\<lparr>al_obsoletesHash := None\<rparr> = a\<lparr>al_obsoletesHash := None\<rparr> \<Longrightarrow> al_obsoletesHash r = x \<Longrightarrow> r = a\<lparr>al_obsoletesHash := x\<rparr>"
    "r\<lparr>al_fileHash := None\<rparr> = a\<lparr>al_fileHash := None\<rparr> \<Longrightarrow> al_fileHash r = y \<Longrightarrow> r = a\<lparr>al_fileHash := y\<rparr>" for r a :: rpmal and x y
    by (cases r; cases a; simp)+
  show "rpmalMakeProvidesIndex al = al\<lparr>al_providesHash := Some (index_of (provide_pairs al) (al_list al))\<rparr>"
    unfolding rpmalMakeProvidesIndex_def
    by (rule eq) (simp_all add: provides_ix.fold_rest provides_ix.made_hash index_of_def pairs_cong(1) [of "al\<lparr>al_providesHash := Some []\<rparr>" al])
  show "rpmalMakeObsoletesIndex al = al\<lparr>al_obsoletesHash := Some (index_of (obsolete_pairs al) (al_list al))\<rparr>"
    unfolding rpmalMakeObsoletesIndex_def
    by (rule eq) (simp_all add: obsoletes_ix.fold_rest obsoletes_ix.made_hash index_of_def pairs_cong(2) [of "al\<lparr>al_obsoletesHash := Some []\<rparr>" al])
  show "rpmalMakeFileIndex al = al\<lparr>al_fileHash := Some (index_of (file_pairs al) (al_list al))\<rparr>"
    unfolding rpmalMakeFileIndex_def
    by (rule eq) (simp_all add: files_ix.fold_rest files_ix.made_hash index_of_def pairs_cong(3) [of "al\<lparr>al_fileHash := Some []\<rparr>" al])
qed

lemma index_of_snoc: "index_of f (l @ [alp]) = index_of f l @ f (length l) alp"
  by (simp add: index_of_def enumerate_append_eq)

lemma index_of_forget:
  assumes "\<And>k alp. f k (alp\<lparr>ap_p := None\<rparr>) = f k alp"
  shows "index_of f (forget_first p l) = index_of f l"
proof -
  have "concat (map (\<lambda>(i, alp). f i alp) (enumerate n (forget_first p l))) = concat (map (\<lambda>(i, alp). f i alp) (enumerate n l))" for n
    by (induction l arbitrary: n) (auto simp: assms)
  then show ?thesis by (simp add: index_of_def)
qed

text \<open>What is reached by creating a list, adding and deleting packages and searching.\<close>

inductive al_reachable :: "avail_te list \<Rightarrow> rpmal \<Rightarrow> bool" for tes where
  create: "al_reachable tes (rpmalCreate pool flags color prefcolor)"
| add: "al_reachable tes al \<Longrightarrow> p < length tes \<Longrightarrow> al_reachable tes (rpmalAdd tes al p)"
| del: "al_reachable tes al \<Longrightarrow> al_reachable tes (rpmalDel al p)"
| obsoletes: "al_reachable tes al \<Longrightarrow> rpmalAllObsoletes ord st al ds = (al', ps) \<Longrightarrow> al_reachable tes al'"
| satisfies: "al_reachable tes al \<Longrightarrow> rpmalAllSatisfiesDepend ord ford fp_eq tes st al ds owner = Inr (st', al', ps) \<Longrightarrow> al_reachable tes al'"

text \<open>What a search may change: it makes indexes that are missing.\<close>

definition searched :: "rpmal \<Rightarrow> rpmal \<Rightarrow> bool" where
  "searched al al' \<longleftrightarrow> al_list al' = al_list al \<and> al_pool al' = al_pool al \<and> al_tscolor al' = al_tscolor al \<and>
     al_tsflags al' = al_tsflags al \<and> al_prefcolor al' = al_prefcolor al \<and>
     al_providesHash al' \<in> {al_providesHash al, Some (index_of (provide_pairs al) (al_list al))} \<and>
     al_obsoletesHash al' \<in> {al_obsoletesHash al, Some (index_of (obsolete_pairs al) (al_list al))} \<and>
     al_fileHash al' \<in> {al_fileHash al, Some (index_of (file_pairs al) (al_list al))}"

lemma searched_refl [simp]: "searched al al"
  by (simp add: searched_def)

lemma searched_trans:
  assumes "searched a b" "searched b c"
  shows "searched a c"
  using assms pairs_cong [of b a] unfolding searched_def by auto

lemma searched_make [simp]:
  "searched al (rpmalMakeProvidesIndex al)" "searched al (rpmalMakeObsoletesIndex al)" "searched al (rpmalMakeFileIndex al)"
  by (simp_all add: make_index searched_def)

lemma searched_ok:
  assumes "searched al al'" "al_ok al"
  shows "al_ok al'"
  using assms pairs_cong [of al' al] unfolding searched_def al_ok_def by auto

lemma file_search:
  "rpmalAllFileSatisfiesDepend ord fp_eq st al fileName self = Inr (st', al', ps) \<Longrightarrow> searched al al'"
  by (auto simp: rpmalAllFileSatisfiesDepend_def Let_def split: if_splits option.splits prod.splits)

lemma satisfies_search:
  assumes "rpmalAllSatisfiesDepend ord ford fp_eq tes st al ds owner = Inr (st', al', ps)"
  shows "searched al al'"
  using assms searched_trans [OF file_search searched_make(1)]
  by (auto simp: rpmalAllSatisfiesDepend_def Let_def rbind_eq_Inr split: if_splits option.splits intro: file_search)

lemma obsoletes_search: "rpmalAllObsoletes ord st al ds = (al', ps) \<Longrightarrow> searched al al'"
  by (auto simp: rpmalAllObsoletes_def Let_def split: if_splits)

lemma rpmalAdd_fields:
  assumes "\<not> te_isSource (tes ! p)"
  defines "alp \<equiv> \<lparr>ap_p = Some p, ap_provides = rpmteDS tes p RPMTAG_PROVIDENAME,
    ap_obsoletes = rpmteDS tes p RPMTAG_OBSOLETENAME, ap_fi = te_files (tes ! p)\<rparr>"
  shows "al_list (rpmalAdd tes al p) = al_list al @ [alp]"
    "al_providesHash (rpmalAdd tes al p) = map_option (\<lambda>h. h @ provide_pairs al (length (al_list al)) alp) (al_providesHash al)"
    "al_obsoletesHash (rpmalAdd tes al p) = map_option (\<lambda>h. h @ obsolete_pairs al (length (al_list al)) alp) (al_obsoletesHash al)"
    "al_fileHash (rpmalAdd tes al p) = map_option (\<lambda>h. h @ file_pairs al (length (al_list al)) alp) (al_fileHash al)"
    "al_tscolor (rpmalAdd tes al p) = al_tscolor al" "al_tsflags (rpmalAdd tes al p) = al_tsflags al" "al_pool (rpmalAdd tes al p) = al_pool al"
  using assms(1)
  by (auto simp: alp_def rpmalAdd_def Let_def rpmalAddProvides_def rpmalAddObsoletes_def rpmalAddFiles_def
      provide_pairs_def obsolete_pairs_def file_pairs_def provide_skipped_def file_skipped_def)

lemma rpmalAdd_ok:
  assumes "al_ok al"
  shows "al_ok (rpmalAdd tes al p)"
proof (cases "te_isSource (tes ! p)")
  case True
  then show ?thesis using assms by (simp add: rpmalAdd_def)
next
  case False
  note f = rpmalAdd_fields [OF False, of al]
  show ?thesis
    using assms pairs_cong [of "rpmalAdd tes al p" al, OF f(5,6)] unfolding al_ok_def f index_of_snoc by auto
qed

lemma rpmalDel_ok:
  assumes "al_ok al"
  shows "al_ok (rpmalDel al p)"
proof -
  have "index_of (provide_pairs al) (forget_first p (al_list al)) = index_of (provide_pairs al) (al_list al)"
    "index_of (obsolete_pairs al) (forget_first p (al_list al)) = index_of (obsolete_pairs al) (al_list al)"
    "index_of (file_pairs al) (forget_first p (al_list al)) = index_of (file_pairs al) (al_list al)"
    by (rule index_of_forget; simp add: provide_pairs_def obsolete_pairs_def file_pairs_def)+
  with assms pairs_cong [of "rpmalDel al p" al] show ?thesis by (simp add: rpmalDel_def al_ok_def)
qed

text \<open>Only elements of the transaction are in the list.\<close>

definition elements_ok :: "avail_te list \<Rightarrow> rpmal \<Rightarrow> bool" where
  "elements_ok tes al \<longleftrightarrow> (\<forall>alp \<in> set (al_list al). \<forall>p. ap_p alp = Some p \<longrightarrow> p < length tes \<and>
     ap_provides alp = rpmteDS tes p RPMTAG_PROVIDENAME \<and> ap_obsoletes alp = rpmteDS tes p RPMTAG_OBSOLETENAME \<and>
     ap_fi alp = te_files (tes ! p))"

lemma forget_first_set: "alp \<in> set (forget_first p l) \<Longrightarrow> alp \<in> set l \<or> ap_p alp = None"
  by (induction l) (auto split: if_splits)

lemma rpmalAdd_elements: "elements_ok tes al \<Longrightarrow> p < length tes \<Longrightarrow> elements_ok tes (rpmalAdd tes al p)"
  using rpmalAdd_fields(1) [of tes p al] by (cases "te_isSource (tes ! p)") (auto simp: elements_ok_def, simp_all add: rpmalAdd_def)

lemma searched_elements: "searched al al' \<Longrightarrow> elements_ok tes al \<Longrightarrow> elements_ok tes al'"
  by (simp add: searched_def elements_ok_def)

lemma al_reachable_ok:
  assumes "al_reachable tes al"
  shows "al_ok al \<and> elements_ok tes al"
  using assms
proof (induction rule: al_reachable.induct)
  case (create pool flags color prefcolor)
  show ?case by (simp add: rpmalCreate_def al_ok_def elements_ok_def)
next
  case (add al p)
  then show ?case by (simp add: rpmalAdd_ok rpmalAdd_elements)
next
  case (del al p)
  then show ?case using rpmalDel_ok [of al p] by (auto simp: elements_ok_def rpmalDel_def dest: forget_first_set)
next
  case (obsoletes al ord st ds al' ps)
  then show ?case using searched_ok [OF obsoletes_search] searched_elements [OF obsoletes_search] by blast
next
  case (satisfies al ord ford fp_eq st ds owner st' al' ps)
  then show ?case using searched_ok [OF satisfies_search [OF satisfies.hyps(2)]] searched_elements [OF satisfies_search [OF satisfies.hyps(2)]] by blast
qed

subsection \<open>Who provides what\<close>

lemma set_index_of: "x \<in> set (index_of f l) \<longleftrightarrow> (\<exists>k < length l. x \<in> set (f k (l ! k)))"
proof -
  have "x \<in> set (index_of f l) \<longleftrightarrow> (\<exists>e \<in> set (enumerate 0 l). x \<in> set (f (fst e) (snd e)))"
    by (auto simp: index_of_def split_beta)
  also have "\<dots> \<longleftrightarrow> (\<exists>k < length l. x \<in> set (f k (l ! k)))"
    by (auto simp: in_set_enumerate_eq intro!: bexI [of _ "(k, l ! k)" for k])
  finally show ?thesis .
qed

definition provides :: "avail_te list \<Rightarrow> pools \<Rightarrow> rpmal \<Rightarrow> rpmds \<Rightarrow> nat option \<Rightarrow> nat \<Rightarrow> bool" where
  "provides tes st al ds self p \<longleftrightarrow> self \<noteq> Some p \<and>
     (\<exists>alp \<in> set (al_list al). ap_p alp = Some p \<and> (\<exists>i < nat (rpmdsCount (ap_provides alp)).
        \<not> provide_skipped al (ap_provides alp) (int i) \<and> rpmdsNIdIndex (ap_provides alp) (int i) = rpmdsNId (Some ds) \<and>
        provide_satisfies tes st alp p (int i) ds))"

text \<open>File \<open>base\<close> in directory \<open>dir\<close> or in a directory that is the same one.\<close>

definition has_file :: "(cstr \<Rightarrow> cstr \<Rightarrow> cstr \<Rightarrow> bool) \<Rightarrow> pools \<Rightarrow> rpmal \<Rightarrow> cstr \<Rightarrow> cstr \<Rightarrow> nat option \<Rightarrow> nat \<Rightarrow> bool" where
  "has_file fp_eq st al dir base self p \<longleftrightarrow> self \<noteq> Some p \<and>
     (\<exists>alp \<in> set (al_list al). ap_p alp = Some p \<and> (\<exists>i < rpmfilesFC (ap_fi alp). \<exists>d.
        \<not> file_skipped al (ap_fi alp) (int i) \<and> rpmfilesBN st (ap_fi alp) (int i) = Some base \<and>
        rpmfilesDN st (ap_fi alp) (rpmfilesDI (ap_fi alp) (int i)) = Some d \<and> (d = dir \<or> fp_eq dir base d)))"

text \<open>A string is looked up in a pool by comparing ids, for ids that name something.\<close>

lemma pool_lookup:
  assumes "strn2id pool s n (rstrhash (take n s)) create = Some (pool', sid)" "pool_wf pool" "pool_open pool" "n \<le> length s"
  shows "pool_wf pool'" "pool_open pool'" "id2str (offs pool) i = Some t \<Longrightarrow> id2str (offs pool') i = Some t"
    "id2str (offs pool) i = Some t \<Longrightarrow> sid = i \<longleftrightarrow> t = take n s"
    "sid = 0 \<Longrightarrow> pool' = pool \<and> take n s \<notin> set (offs pool)" "create \<Longrightarrow> sid \<noteq> 0"
proof -
  note w = strn2id_wf [OF assms(1,2,4)]
  then obtain added where a: "offs pool' = offs pool @ added" by blast
  show wf: "pool_wf pool'" using w by blast
  show "pool_open pool'" using strn2id_stays_open [OF assms(1,2,4)] assms(3) by blast
  show keep: "id2str (offs pool) i = Some t \<Longrightarrow> id2str (offs pool') i = Some t"
    unfolding a by (auto simp: id2str_def nth_append split: if_splits)
  show "sid = 0 \<Longrightarrow> pool' = pool \<and> take n s \<notin> set (offs pool)" "create \<Longrightarrow> sid \<noteq> 0" using w assms(3) by auto
  show "sid = i \<longleftrightarrow> t = take n s" if "id2str (offs pool) i = Some t"
  proof (cases "sid = 0")
    case True
    then show ?thesis using that w assms(3) id2str_in_set [OF that] by (auto simp: id2str_def)
  next
    case False
    then have "id2str (offs pool') sid = Some (take n s)" using w by blast
    then show ?thesis using keep [OF that] strpool.name_inj [OF wf, of i _ sid] by auto
  qed
qed

lemma set_map_filter: "y \<in> set (List.map_filter f xs) \<longleftrightarrow> (\<exists>x \<in> set xs. f x = Some y)"
  by (force simp: map_filter_def image_iff)

lemma set_equal_range:
  assumes "\<And>xs. set (ord xs) = set xs"
  shows "e \<in> set (equal_range ord h key) \<longleftrightarrow> (key, e) \<in> set h"
  by (force simp: equal_range_def assms)

definition files_valid :: "pools \<Rightarrow> rpmal \<Rightarrow> bool" where
  "files_valid st al \<longleftrightarrow> (\<forall>alp \<in> set (al_list al). \<forall>f. ap_fi alp = Some f \<longrightarrow> fi_pool f = al_pool al \<and>
     (\<forall>i < rpmfilesFC (Some f). \<exists>b d. pool_str st (al_pool al) (rpmfilesBNId (Some f) (int i)) = Some b \<and>
        pool_str st (al_pool al) (rpmfilesDNId (Some f) (rpmfilesDI (Some f) (int i))) = Some d))"

lemma files_validD:
  assumes "files_valid st al" "alp \<in> set (al_list al)" "i < rpmfilesFC (ap_fi alp)"
  obtains f b d where "ap_fi alp = Some f" "fi_pool f = al_pool al" "pool_str st (al_pool al) (rpmfilesBNId (Some f) (int i)) = Some b"
    "pool_str st (al_pool al) (rpmfilesDNId (Some f) (rpmfilesDI (Some f) (int i))) = Some d"
proof (cases "ap_fi alp")
  case None
  then show thesis using assms(3) by (simp add: rpmfilesFC_def rpmfnFC_def)
next
  case (Some f)
  then show thesis using that assms unfolding files_valid_def by (metis (full_types))
qed

text \<open>The search in terms of ids.\<close>

definition has_file_ids :: "(nat \<Rightarrow> bool) \<Rightarrow> rpmal \<Rightarrow> nat \<Rightarrow> nat option \<Rightarrow> nat \<Rightarrow> bool" where
  "has_file_ids same al b self p \<longleftrightarrow> self \<noteq> Some p \<and>
     (\<exists>alp \<in> set (al_list al). ap_p alp = Some p \<and> (\<exists>i < rpmfilesFC (ap_fi alp). \<not> file_skipped al (ap_fi alp) (int i) \<and>
        rpmfilesBNId (ap_fi alp) (int i) = b \<and> same (rpmfilesDNId (ap_fi alp) (rpmfilesDI (ap_fi alp) (int i)))))"

lemma file_entries:
  "(b, e) \<in> set (index_of (file_pairs al) l) \<longleftrightarrow> fe_pkgNum e < length l \<and>
     (let fi = ap_fi (l ! fe_pkgNum e); i = fe_entryIx e in i < rpmfilesFC fi \<and> \<not> file_skipped al fi (int i) \<and>
        b = rpmfilesBNId fi (int i) \<and> fe_dirName e = rpmfilesDNId fi (rpmfilesDI fi (int i)))"
  unfolding set_index_of by (cases e) (auto simp: file_pairs_def Let_def)

lemma provide_entries:
  "(b, e) \<in> set (index_of (provide_pairs al) l) \<longleftrightarrow> ie_pkgNum e < length l \<and>
     (let ds = ap_provides (l ! ie_pkgNum e); i = ie_entryIx e in i < nat (rpmdsCount ds) \<and> \<not> provide_skipped al ds (int i) \<and>
        b = rpmdsNIdIndex ds (int i))"
  unfolding set_index_of by (cases e) (auto simp: provide_pairs_def Let_def)

lemma provider_at_Some: "provider_at al self k = Some p \<longleftrightarrow> ap_p (al_list al ! k) = Some p \<and> self \<noteq> Some p"
  by (auto simp: provider_at_def split: option.splits)

lemma file_hits:
  assumes "al_fileHash al = Some (index_of (file_pairs al) (al_list al))" "\<And>xs. set (ford xs) = set xs"
  shows "p \<in> set (List.map_filter (\<lambda>e. case provider_at al self (fe_pkgNum e) of None \<Rightarrow> None
      | Some p \<Rightarrow> if same (fe_dirName e) then Some p else None)
      (equal_range ford (the (al_fileHash al)) b)) \<longleftrightarrow> has_file_ids same al b self p" (is "?l \<longleftrightarrow> ?r")
proof
  assume ?l
  then obtain e where e: "(b, e) \<in> set (index_of (file_pairs al) (al_list al))" "provider_at al self (fe_pkgNum e) = Some p"
      "same (fe_dirName e)"
    unfolding set_map_filter assms(1) by (auto simp: set_equal_range [OF assms(2)] split: option.split_asm if_split_asm)
  then show ?r unfolding file_entries provider_at_Some has_file_ids_def Let_def by (metis nth_mem)
next
  assume ?r
  then obtain k i where k: "k < length (al_list al)" "ap_p (al_list al ! k) = Some p" "self \<noteq> Some p"
      "i < rpmfilesFC (ap_fi (al_list al ! k))" "\<not> file_skipped al (ap_fi (al_list al ! k)) (int i)"
      "rpmfilesBNId (ap_fi (al_list al ! k)) (int i) = b"
    and d: "same (rpmfilesDNId (ap_fi (al_list al ! k)) (rpmfilesDI (ap_fi (al_list al ! k)) (int i)))"
    unfolding has_file_ids_def by (metis in_set_conv_nth)
  let ?e = "\<lparr>fe_dirName = rpmfilesDNId (ap_fi (al_list al ! k)) (rpmfilesDI (ap_fi (al_list al ! k)) (int i)), fe_pkgNum = k, fe_entryIx = i\<rparr>"
  have "(b, ?e) \<in> set (index_of (file_pairs al) (al_list al))" using k by (simp add: file_entries)
  moreover have "provider_at al self (fe_pkgNum ?e) = Some p" using k by (simp add: provider_at_Some)
  ultimately show ?l unfolding set_map_filter assms(1) using d
    by (intro bexI [of _ ?e]) (auto simp: set_equal_range [OF assms(2)] Let_def)
qed

lemma provide_hits:
  assumes "al_providesHash al = Some (index_of (provide_pairs al) (al_list al))" "\<And>xs. set (ord xs) = set xs"
  shows "p \<in> set (List.map_filter (\<lambda>e. case provider_at al self (ie_pkgNum e) of None \<Rightarrow> None
      | Some p \<Rightarrow> if provide_satisfies tes st (al_list al ! ie_pkgNum e) p (int (ie_entryIx e)) ds then Some p else None)
      (equal_range ord (the (al_providesHash al)) (rpmdsNId (Some ds)))) \<longleftrightarrow> provides tes st al ds self p" (is "?l \<longleftrightarrow> ?r")
proof
  assume ?l
  then obtain e where e: "(rpmdsNId (Some ds), e) \<in> set (index_of (provide_pairs al) (al_list al))" "provider_at al self (ie_pkgNum e) = Some p"
      "provide_satisfies tes st (al_list al ! ie_pkgNum e) p (int (ie_entryIx e)) ds"
    unfolding set_map_filter assms(1) by (auto simp: set_equal_range [OF assms(2)] split: option.split_asm if_split_asm)
  then show ?r unfolding provide_entries provider_at_Some provides_def Let_def by (metis nth_mem)
next
  assume ?r
  then obtain k i where k: "k < length (al_list al)" "ap_p (al_list al ! k) = Some p" "self \<noteq> Some p"
      "i < nat (rpmdsCount (ap_provides (al_list al ! k)))" "\<not> provide_skipped al (ap_provides (al_list al ! k)) (int i)"
      "rpmdsNIdIndex (ap_provides (al_list al ! k)) (int i) = rpmdsNId (Some ds)"
      "provide_satisfies tes st (al_list al ! k) p (int i) ds"
    unfolding provides_def by (metis in_set_conv_nth)
  let ?e = "\<lparr>ie_pkgNum = k, ie_entryIx = i\<rparr>"
  have "(rpmdsNId (Some ds), ?e) \<in> set (index_of (provide_pairs al) (al_list al))" using k by (simp add: provide_entries)
  moreover have "provider_at al self (ie_pkgNum ?e) = Some p" using k by (simp add: provider_at_Some)
  ultimately show ?l unfolding set_map_filter assms(1) using k
    by (intro bexI [of _ ?e]) (auto simp: set_equal_range [OF assms(2)])
qed

lemma has_file_names:
  assumes "files_valid st al"
    and keep: "\<And>i t. pool_str st (al_pool al) i = Some t \<Longrightarrow> pool_str st' (al_pool al) i = Some t"
    and b: "\<And>i t. pool_str st (al_pool al) i = Some t \<Longrightarrow> b = i \<longleftrightarrow> t = base"
    and d: "\<And>i t. pool_str st (al_pool al) i = Some t \<Longrightarrow> same i \<longleftrightarrow> t = dir \<or> fp_eq dir base t"
  shows "has_file_ids same al b self p \<longleftrightarrow> has_file fp_eq st' al dir base self p"
proof -
  have "(\<not> file_skipped al (ap_fi alp) (int i) \<and> rpmfilesBNId (ap_fi alp) (int i) = b \<and>
      same (rpmfilesDNId (ap_fi alp) (rpmfilesDI (ap_fi alp) (int i))))
    \<longleftrightarrow> (\<exists>d. \<not> file_skipped al (ap_fi alp) (int i) \<and> rpmfilesBN st' (ap_fi alp) (int i) = Some base \<and>
        rpmfilesDN st' (ap_fi alp) (rpmfilesDI (ap_fi alp) (int i)) = Some d \<and> (d = dir \<or> fp_eq dir base d))"
    if "alp \<in> set (al_list al)" "i < rpmfilesFC (ap_fi alp)" for alp i
  proof (rule files_validD [OF assms(1) that])
    fix f n m
    assume f: "ap_fi alp = Some f" "fi_pool f = al_pool al" and n: "pool_str st (al_pool al) (rpmfilesBNId (Some f) (int i)) = Some n"
      and m: "pool_str st (al_pool al) (rpmfilesDNId (Some f) (rpmfilesDI (Some f) (int i))) = Some m"
    have "rpmfilesBN st' (Some f) (int i) = Some n" "rpmfilesDN st' (Some f) (rpmfilesDI (Some f) (int i)) = Some m"
      using keep [OF n] keep [OF m] f(2) by (simp_all add: rpmfilesBN_def rpmfnBN_def rpmfilesBNId_def rpmfilesDN_def rpmfnDN_def rpmfilesDNId_def)
    then show ?thesis using b [OF n] d [OF m] unfolding f(1) by auto
  qed
  then show ?thesis unfolding has_file_ids_def has_file_def by (metis (no_types, lifting))
qed
lemma searched_file:
  assumes "searched al al'"
  shows "has_file fp_eq st al' dir base self p \<longleftrightarrow> has_file fp_eq st al dir base self p"
    "provides tes st al' ds self p \<longleftrightarrow> provides tes st al ds self p"
  using assms by (simp_all add: searched_def has_file_def provides_def file_skipped_def provide_skipped_def)

lemma has_file_in_pool: "has_file fp_eq st al dir base self p \<Longrightarrow> files_valid st al \<Longrightarrow> base \<in> set (offs (st ! al_pool al))"
  unfolding has_file_def
  by (auto elim!: files_validD simp: rpmfilesBN_def rpmfnBN_def rpmfilesBNId_def rpmstrPoolStr_def dest: id2str_in_set)

lemma file_search_spec:
  assumes "rpmalAllFileSatisfiesDepend ford fp_eq st al fileName self = Inr (st', al', ps)"
    and al: "al_ok al" "files_valid st al" "al_pool al < length st" "pool_wf (st ! al_pool al)" "pool_open (st ! al_pool al)"
    and ford: "\<And>xs. set (ford xs) = set xs" and name: "starts_with (CHR ''/'') fileName" "strrchr fileName (CHR ''/'') = Some slash"
  shows "set ps = {p. has_file fp_eq st' al (take (Suc slash) fileName) (drop (Suc slash) fileName) self p}"
proof -
  let ?p = "al_pool al" and ?dir = "take (Suc slash) fileName" and ?base = "drop (Suc slash) fileName"
  define al1 where "al1 = (if al_fileHash al = None then rpmalMakeFileIndex al else al)"
  have s: "searched al al1" by (simp add: al1_def)
  then have pool: "al_pool al1 = ?p" and valid: "files_valid st al1" using al(2) by (simp_all add: searched_def files_valid_def)
  have hash: "al_fileHash al1 = Some (index_of (file_pairs al1) (al_list al1))"
    using searched_ok [OF s al(1)] by (auto simp: al_ok_def al1_def make_index)
  note r = assms(1) [unfolded rpmalAllFileSatisfiesDepend_def, folded al1_def, simplified name Let_def, simplified, folded al1_def, unfolded pool Suc_eq_plus1 [symmetric] list_update_overwrite]
  show ?thesis
  proof (cases "rpmstrPoolId (st ! ?p) (Some ?base) False")
    case None
    then show ?thesis using r by simp
  next
    case (Some pb)
    obtain pool1 b where pb: "rpmstrPoolId (st ! ?p) (Some ?base) False = Some (pool1, b)" using Some by (cases pb) auto
    note L = pool_lookup [OF pb [unfolded rpmstrPoolId_strn2id] al(4,5) le_refl, unfolded take_all [OF le_refl]]
    let ?st1 = "st[?p := pool1]" and ?es = "equal_range ford (the (al_fileHash al1)) b"
    have keep1: "pool_str st ?p i = Some t \<Longrightarrow> pool_str ?st1 ?p i = Some t" for i t using L(3) al(3) by (simp add: rpmstrPoolStr_def)
    have b: "pool_str st ?p i = Some t \<Longrightarrow> b = i \<longleftrightarrow> t = ?base" for i t using L(4) by (simp add: rpmstrPoolStr_def)
    consider (none) "b = 0" | (no_entry) "b \<noteq> 0" "?es = []" | (found) "b \<noteq> 0" "?es \<noteq> []" by blast
    then show ?thesis
    proof cases
      case none
      then have "st' = st" "ps = []" using r pb L(5) by auto
      then show ?thesis using has_file_in_pool [OF _ al(2)] L(5) none by auto
    next
      case no_entry
      then have res: "st' = ?st1" "ps = []" using r pb by auto
      have "\<not> has_file fp_eq ?st1 al ?dir ?base self p" for p
      proof
        assume "has_file fp_eq ?st1 al ?dir ?base self p"
        then have "has_file (\<lambda>_ _ _. True) ?st1 al ?dir ?base self p" unfolding has_file_def by blast
        then have "has_file (\<lambda>_ _ _. True) ?st1 al1 ?dir ?base self p" unfolding searched_file(1) [OF s] .
        then have "has_file_ids (\<lambda>_. True) al1 b self p"
          using has_file_names [OF valid, where st' = ?st1 and same = "\<lambda>_. True" and base = ?base and b = b and
            fp_eq = "\<lambda>_ _ _. True" and dir = ?dir and self = self and p = p] keep1 b pool by simp
        then show False using file_hits [OF hash ford, where same = "\<lambda>_. True" and b = b and self = self and p = p] no_entry(2)
          by (simp add: map_filter_def)
      qed
      then show ?thesis using res by simp
    next
      case found
      obtain pool2 d where d: "rpmstrPoolIdn pool1 (Some fileName) (Suc slash) True = Some (pool2, d)"
        using r pb found al(3) by (auto split: option.splits)
      have "Suc slash \<le> length fileName" using name(2) by (simp add: strrchr_Some Suc_leI)
      note M = pool_lookup [OF d [unfolded rpmstrPoolIdn_strn2id] L(1,2) this]
      let ?same = "\<lambda>i. i = d \<or> fp_eq ?dir ?base (the (pool_str st' ?p i))"
      have res: "st' = ?st1[?p := pool2]" "ps = List.map_filter (\<lambda>e. case provider_at al1 self (fe_pkgNum e) of None \<Rightarrow> None
          | Some p \<Rightarrow> if ?same (fe_dirName e) then Some p else None) ?es" using r pb found d al(3) by auto
      have keep: "pool_str st ?p i = Some t \<Longrightarrow> pool_str st' ?p i = Some t" for i t
        using L(3) M(3) al(3) by (simp add: rpmstrPoolStr_def res(1))
      have "?same i \<longleftrightarrow> t = ?dir \<or> fp_eq ?dir ?base t" if "pool_str st ?p i = Some t" for i t
        using keep [OF that] M(4) [of i t] keep1 [OF that] al(3) by (auto simp: rpmstrPoolStr_def)
      then have "has_file_ids ?same al1 b self p \<longleftrightarrow> has_file fp_eq st' al1 ?dir ?base self p" for p
        using has_file_names [OF valid, where st' = st' and same = ?same and base = ?base and b = b] keep b pool by simp
      then show ?thesis using file_hits [OF hash ford, where same = ?same and b = b and self = self] searched_file(1) [OF s] unfolding res(2) by auto
    qed
  qed
qed


definition self_of :: "rpmds \<Rightarrow> nat option \<Rightarrow> nat option" where
  "self_of ds owner = (if rpmdsTagN (Some ds) \<in> {RPMTAG_OBSOLETENAME, RPMTAG_CONFLICTNAME} then owner else None)"

definition dir_part :: "cstr \<Rightarrow> cstr" where
  "dir_part name = take (Suc (the (strrchr name (CHR ''/'')))) name"

definition base_part :: "cstr \<Rightarrow> cstr" where
  "base_part name = drop (Suc (the (strrchr name (CHR ''/'')))) name"

text \<open>The packages that satisfy a dependency.\<close>

definition satisfiers :: "(cstr \<Rightarrow> cstr \<Rightarrow> cstr \<Rightarrow> bool) \<Rightarrow> avail_te list \<Rightarrow> pools \<Rightarrow> rpmal \<Rightarrow> rpmds \<Rightarrow> nat option \<Rightarrow> cstr \<Rightarrow> nat set" where
  "satisfiers fp_eq tes st al ds owner name =
     (let files = {p. has_file fp_eq st al (dir_part name) (base_part name) (self_of ds owner) p} in
      if rpmdsTagN (Some ds) \<noteq> RPMTAG_OBSOLETENAME \<and> starts_with (CHR ''/'') name \<and> files \<noteq> {} then files
      else {p. provides tes st al ds (self_of ds owner) p})"

lemma all_steps:
  assumes "rpmalAllSatisfiesDepend ord ford fp_eq tes st al ds owner = Inr (st', al', ps)"
    "pool_str st (al_pool al) (rpmdsNId (Some ds)) = Some name"
  obtains al1 ret where "(if rpmdsTagN (Some ds) \<noteq> RPMTAG_OBSOLETENAME \<and> starts_with (CHR ''/'') name
      then rpmalAllFileSatisfiesDepend ford fp_eq st al name (self_of ds owner) else Inr (st, al, [])) = Inr (st', al1, ret)"
    "ret \<noteq> [] \<Longrightarrow> al' = al1 \<and> ps = ret"
    "ret = [] \<Longrightarrow> al' = (if al_providesHash al1 = None then rpmalMakeProvidesIndex al1 else al1) \<and>
      ps = List.map_filter (\<lambda>e. case provider_at al' (self_of ds owner) (ie_pkgNum e) of None \<Rightarrow> None
          | Some p \<Rightarrow> if provide_satisfies tes st' (al_list al' ! ie_pkgNum e) p (int (ie_entryIx e)) ds then Some p else None)
        (equal_range ord (the (al_providesHash al')) (rpmdsNId (Some ds)))"
proof -
  have id: "rpmdsNId (Some ds) \<noteq> 0" using assms(2) by (auto simp: rpmstrPoolStr_def id2str_def split: if_splits)
  have self: "(if rpmdsTagN (Some ds) = RPMTAG_OBSOLETENAME \<or> rpmdsTagN (Some ds) = RPMTAG_CONFLICTNAME then owner else None) = self_of ds owner"
    by (simp add: self_of_def)
  obtain st1 al1 ret where f: "(if rpmdsTagN (Some ds) \<noteq> RPMTAG_OBSOLETENAME \<and> starts_with (CHR ''/'') name
      then rpmalAllFileSatisfiesDepend ford fp_eq st al name (self_of ds owner) else Inr (st, al, [])) = Inr (st1, al1, ret)"
    and r: "(if ret \<noteq> [] then Inr (st1, al1, ret)
          else let al = (if al_providesHash al1 = None then rpmalMakeProvidesIndex al1 else al1) in
            Inr (st1, al, List.map_filter (\<lambda>e. case provider_at al (self_of ds owner) (ie_pkgNum e) of None \<Rightarrow> None
              | Some p \<Rightarrow> if provide_satisfies tes st1 (al_list al ! ie_pkgNum e) p (int (ie_entryIx e)) ds then Some p else None)
              (equal_range ord (the (al_providesHash al)) (rpmdsNId (Some ds))))) = (Inr (st', al', ps) :: fi_error + _)"
    using assms(1) unfolding rpmalAllSatisfiesDepend_def Let_def assms(2) option.case self if_not_P [OF id] rbind_eq_Inr
      split_paired_Ex prod.case by blast
  define al2 where "al2 = (if al_providesHash al1 = None then rpmalMakeProvidesIndex al1 else al1)"
  have res: "st1 = st'" "ret \<noteq> [] \<Longrightarrow> al' = al1 \<and> ps = ret" "ret = [] \<Longrightarrow> al' = al2 \<and> ps = List.map_filter (\<lambda>e.
      case provider_at al2 (self_of ds owner) (ie_pkgNum e) of None \<Rightarrow> None
      | Some p \<Rightarrow> if provide_satisfies tes st1 (al_list al2 ! ie_pkgNum e) p (int (ie_entryIx e)) ds then Some p else None)
      (equal_range ord (the (al_providesHash al2)) (rpmdsNId (Some ds)))"
    using r [unfolded Let_def, folded al2_def] by (auto split: if_split_asm)
  show thesis
  proof (rule that [of al1 ret, folded al2_def])
    assume "ret = []"
    from res(3) [OF this] show "al' = al2 \<and> ps = List.map_filter (\<lambda>e. case provider_at al' (self_of ds owner) (ie_pkgNum e) of None \<Rightarrow> None
          | Some p \<Rightarrow> if provide_satisfies tes st' (al_list al' ! ie_pkgNum e) p (int (ie_entryIx e)) ds then Some p else None)
        (equal_range ord (the (al_providesHash al')) (rpmdsNId (Some ds)))"
      unfolding res(1) by (elim conjE) (simp only: simp_thms)
  qed (use f res(1) in \<open>simp only:\<close>, rule res(2))
qed

lemma all_satisfiers:
  assumes "rpmalAllSatisfiesDepend ord ford fp_eq tes st al ds owner = Inr (st', al', ps)" "al_ok al"
    "files_valid st al" "al_pool al < length st" "pool_wf (st ! al_pool al)" "pool_open (st ! al_pool al)"
    "\<And>xs. set (ord xs) = set xs" "\<And>xs. set (ford xs) = set xs" "pool_str st (al_pool al) (rpmdsNId (Some ds)) = Some name"
  shows "set ps = satisfiers fp_eq tes st' al ds owner name"
proof (rule all_steps [OF assms(1,9)])
  let ?self = "self_of ds owner"
  let ?file = "rpmdsTagN (Some ds) \<noteq> RPMTAG_OBSOLETENAME \<and> starts_with (CHR ''/'') name"
  fix al1 ret
  assume f: "(if ?file then rpmalAllFileSatisfiesDepend ford fp_eq st al name ?self else Inr (st, al, [])) = Inr (st', al1, ret)"
    and found: "ret \<noteq> [] \<Longrightarrow> al' = al1 \<and> ps = ret"
    and none: "ret = [] \<Longrightarrow> al' = (if al_providesHash al1 = None then rpmalMakeProvidesIndex al1 else al1) \<and>
      ps = List.map_filter (\<lambda>e. case provider_at al' ?self (ie_pkgNum e) of None \<Rightarrow> None
          | Some p \<Rightarrow> if provide_satisfies tes st' (al_list al' ! ie_pkgNum e) p (int (ie_entryIx e)) ds then Some p else None)
        (equal_range ord (the (al_providesHash al')) (rpmdsNId (Some ds)))"
  have files: "set ret = {p. has_file fp_eq st' al (dir_part name) (base_part name) ?self p}" if path: ?file
  proof -
    obtain slash where "strrchr name (CHR ''/'') = Some slash"
      using path strrchr_None [of name "CHR ''/''"] by (cases name; cases "strrchr name (CHR ''/'')") auto
    then show ?thesis using file_search_spec [OF _ assms(2-6,8), of fp_eq name ?self st' al1 ret] f path by (simp add: dir_part_def base_part_def)
  qed
  show ?thesis
  proof (cases "ret = []")
    case False
    then have path: ?file using f by (auto split: if_splits)
    then show ?thesis using False found by (simp add: satisfiers_def Let_def files [OF path, symmetric])
  next
    case True
    have s: "searched al al'" by (rule satisfies_search [OF assms(1)])
    have hash: "al_providesHash al' = Some (index_of (provide_pairs al') (al_list al'))"
      using searched_ok [OF s assms(2)] none [OF True] by (auto simp: al_ok_def make_index split: if_splits)
    have "set ps = {p. provides tes st' al ds ?self p}"
      using none [OF True] provide_hits [OF hash assms(7), where ds = ds] searched_file(2) [OF s] by auto
    then show ?thesis using files True by (auto simp: satisfiers_def Let_def)
  qed
qed

text \<open> C13: However packages were added, deleted and searched for, every index that exists is the one that the list of
  packages determines, whenever it was made, and the packages that are left are elements of the transaction with
  their own dependencies and files.\<close>

theorem rpmal_reachable_ok:
  assumes "al_reachable tes al"
  shows "al_ok al \<and> elements_ok tes al"
  by (rule al_reachable_ok [OF assms])

text \<open> C7: The search for the providers of a dependency is exact. A dependency on a path, unless it is an obsolete, is
  satisfied by the packages that have the file, in a directory of that name or one with the same fingerprint; if
  there are none, and for any other dependency, by those with a provide of that name and a range that overlaps.
  Obsoletes and conflicts do not match the package that they belong to, and deleted packages match nothing.\<close>

theorem rpmalAllSatisfiesDepend_exact:
  assumes "rpmalAllSatisfiesDepend ord ford fp_eq tes st al ds owner = Inr (st', al', ps)" "al_reachable tes al"
    "files_valid st al" "al_pool al < length st" "pool_wf (st ! al_pool al)" "pool_open (st ! al_pool al)"
    "\<And>xs. set (ord xs) = set xs" "\<And>xs. set (ford xs) = set xs" "pool_str st (al_pool al) (rpmdsNId (Some ds)) = Some name"
  shows "set ps = satisfiers fp_eq tes st' al ds owner name"
  using all_satisfiers [OF assms(1) _ assms(3-9)] al_reachable_ok [OF assms(2)] by blast

subsection \<open>Only listed elements are found\<close>

definition listed :: "rpmal \<Rightarrow> nat \<Rightarrow> bool" where
  "listed al p \<longleftrightarrow> (\<exists>alp \<in> set (al_list al). ap_p alp = Some p)"

lemma listed_element: "listed al p \<Longrightarrow> elements_ok tes al \<Longrightarrow> p < length tes"
  by (auto simp: listed_def elements_ok_def)

lemma searched_listed: "searched al al' \<Longrightarrow> listed al' = listed al"
  by (simp add: searched_def listed_def fun_eq_iff)

lemma provider_at_listed: "provider_at al self k = Some p \<Longrightarrow> k < length (al_list al) \<Longrightarrow> listed al p"
  by (auto simp: provider_at_Some listed_def)

lemma set_map_filter_provider:
  "p \<in> set (List.map_filter (\<lambda>e. case g e of None \<Rightarrow> None | Some p \<Rightarrow> if c e p then Some p else None) xs) \<longleftrightarrow>
    (\<exists>e \<in> set xs. g e = Some p \<and> c e p)"
  unfolding set_map_filter by (auto split: option.split_asm if_split_asm) (fastforce split: option.splits)+

lemma file_hits_listed:
  assumes "rpmalAllFileSatisfiesDepend ford fp_eq st al fileName self = Inr (st', al', ps)" "al_ok al"
    "\<And>xs. set (ford xs) = set xs" "p \<in> set ps"
  shows "listed al p"
proof -
  define al1 where "al1 = (if al_fileHash al = None then rpmalMakeFileIndex al else al)"
  have s: "searched al al1" by (simp add: al1_def)
  have hash: "al_fileHash al1 = Some (index_of (file_pairs al1) (al_list al1))"
    using searched_ok [OF s assms(2)] by (auto simp: al_ok_def al1_def make_index)
  obtain e b where "provider_at al1 self (fe_pkgNum e) = Some p" "e \<in> set (equal_range ford (the (al_fileHash al1)) b)"
    using assms(1,4) unfolding rpmalAllFileSatisfiesDepend_def Let_def al1_def [symmetric]
    by (auto simp: set_map_filter_provider split: if_split_asm option.split_asm prod.split_asm)
  then show ?thesis
    using provider_at_listed [of al1 self "fe_pkgNum e" p] searched_listed [OF s] by (auto simp: set_equal_range [OF assms(3)] hash file_entries)
qed

lemma hits_listed:
  assumes "rpmalAllSatisfiesDepend ord ford fp_eq tes st al ds owner = Inr (st', al', ps)" "al_ok al"
    "\<And>xs. set (ord xs) = set xs" "\<And>xs. set (ford xs) = set xs" "p \<in> set ps"
  shows "listed al p"
proof -
  obtain name where name: "pool_str st (al_pool al) (rpmdsNId (Some ds)) = Some name"
    using assms(1,5) by (auto simp: rpmalAllSatisfiesDepend_def Let_def split: if_split_asm option.split_asm)
  show ?thesis
  proof (rule all_steps [OF assms(1) name])
    fix al1 ret
    assume f: "(if rpmdsTagN (Some ds) \<noteq> RPMTAG_OBSOLETENAME \<and> starts_with (CHR ''/'') name
        then rpmalAllFileSatisfiesDepend ford fp_eq st al name (self_of ds owner) else Inr (st, al, [])) = Inr (st', al1, ret)"
      and found: "ret \<noteq> [] \<Longrightarrow> al' = al1 \<and> ps = ret"
      and none: "ret = [] \<Longrightarrow> al' = (if al_providesHash al1 = None then rpmalMakeProvidesIndex al1 else al1) \<and>
        ps = List.map_filter (\<lambda>e. case provider_at al' (self_of ds owner) (ie_pkgNum e) of None \<Rightarrow> None
            | Some p \<Rightarrow> if provide_satisfies tes st' (al_list al' ! ie_pkgNum e) p (int (ie_entryIx e)) ds then Some p else None)
          (equal_range ord (the (al_providesHash al')) (rpmdsNId (Some ds)))"
    show ?thesis
    proof (cases "ret = []")
      case False
      then show ?thesis using f found file_hits_listed [OF _ assms(2,4,5)] by (auto split: if_splits)
    next
      case True
      have s: "searched al al'" by (rule satisfies_search [OF assms(1)])
      have hash: "al_providesHash al' = Some (index_of (provide_pairs al') (al_list al'))"
        using searched_ok [OF s assms(2)] none [OF True] by (auto simp: al_ok_def make_index split: if_splits)
      then show ?thesis
        using none [OF True] assms(5) provider_at_listed [of al'] unfolding searched_listed [OF s, symmetric]
        by (auto simp: set_map_filter_provider set_equal_range [OF assms(3)] provide_entries)
    qed
  qed
qed

subsection \<open>Obsoletes\<close>

definition obsoletes :: "pools \<Rightarrow> rpmal \<Rightarrow> rpmds \<Rightarrow> nat \<Rightarrow> bool" where
  "obsoletes st al ds p \<longleftrightarrow>
     (\<exists>alp \<in> set (al_list al). ap_p alp = Some p \<and> (\<exists>i < nat (rpmdsCount (ap_obsoletes alp)).
        \<not> wrong_color (al_tscolor al) (rpmdsColorIndex (ap_obsoletes alp) (int i)) \<and>
        rpmdsNIdIndex (ap_obsoletes alp) (int i) = rpmdsNId (Some ds) \<and>
        rpmdsCompareIndex st (the (ap_obsoletes alp)) (int i) ds (rpmdsIx (Some ds))))"

lemma obsolete_entries:
  "(b, e) \<in> set (index_of (obsolete_pairs al) l) \<longleftrightarrow> ie_pkgNum e < length l \<and>
     (let ds = ap_obsoletes (l ! ie_pkgNum e); i = ie_entryIx e in i < nat (rpmdsCount ds) \<and>
        \<not> wrong_color (al_tscolor al) (rpmdsColorIndex ds (int i)) \<and> b = rpmdsNIdIndex ds (int i))"
  unfolding set_index_of by (cases e) (auto simp: obsolete_pairs_def Let_def)

text \<open>The search for the packages that obsolete a dependency is exact, too.\<close>

lemma rpmalAllObsoletes_exact:
  assumes "rpmalAllObsoletes ord st al ds = (al', ps)" "al_ok al" "\<And>xs. set (ord xs) = set xs" "rpmdsNId (Some ds) \<noteq> 0"
  shows "set ps = {p. obsoletes st al ds p}"
proof -
  define al1 where "al1 = (if al_obsoletesHash al = None then rpmalMakeObsoletesIndex al else al)"
  have s: "searched al al1" by (simp add: al1_def)
  have hash: "al_obsoletesHash al1 = Some (index_of (obsolete_pairs al1) (al_list al1))"
    using searched_ok [OF s assms(2)] by (auto simp: al_ok_def al1_def make_index)
  let ?c = "\<lambda>e p. rpmdsCompareIndex st (the (ap_obsoletes (al_list al1 ! ie_pkgNum e))) (int (ie_entryIx e)) ds (rpmdsIx (Some ds))"
  have "ps = List.map_filter (\<lambda>e. case provider_at al1 None (ie_pkgNum e) of None \<Rightarrow> None | Some p \<Rightarrow> if ?c e p then Some p else None)
      (equal_range ord (the (al_obsoletesHash al1)) (rpmdsNId (Some ds)))"
    using assms(1) unfolding rpmalAllObsoletes_def Let_def al1_def [symmetric] if_not_P [OF assms(4)] prod.inject by (elim conjE) (rule sym)
  then have ps: "p \<in> set ps \<longleftrightarrow> (\<exists>e. (rpmdsNId (Some ds), e) \<in> set (index_of (obsolete_pairs al1) (al_list al1)) \<and>
      provider_at al1 None (ie_pkgNum e) = Some p \<and> ?c e p)" for p
    unfolding hash option.sel by (simp only: set_map_filter_provider Bex_def set_equal_range [OF assms(3)])
  have same: "al_list al1 = al_list al" "al_tscolor al1 = al_tscolor al" using s by (simp_all add: searched_def)
  have "p \<in> set ps \<longleftrightarrow> obsoletes st al ds p" for p
  proof
    assume "p \<in> set ps"
    then show "obsoletes st al ds p"
      unfolding ps obsolete_entries provider_at_Some obsoletes_def Let_def same by (metis nth_mem)
  next
    assume "obsoletes st al ds p"
    then obtain k i where k: "k < length (al_list al)" "ap_p (al_list al ! k) = Some p"
        "i < nat (rpmdsCount (ap_obsoletes (al_list al ! k)))"
        "\<not> wrong_color (al_tscolor al) (rpmdsColorIndex (ap_obsoletes (al_list al ! k)) (int i))"
        "rpmdsNIdIndex (ap_obsoletes (al_list al ! k)) (int i) = rpmdsNId (Some ds)"
        "rpmdsCompareIndex st (the (ap_obsoletes (al_list al ! k))) (int i) ds (rpmdsIx (Some ds))"
      unfolding obsoletes_def by (metis in_set_conv_nth)
    then show "p \<in> set ps"
      unfolding ps obsolete_entries provider_at_Some same by (intro exI [of _ "\<lparr>ie_pkgNum = k, ie_entryIx = i\<rparr>"]) (simp add: Let_def)
  qed
  then show ?thesis by blast
qed

subsection \<open>The best provider\<close>

definition best_ok :: "(nat \<Rightarrow> nat) \<Rightarrow> nat set \<Rightarrow> nat option \<Rightarrow> nat \<Rightarrow> bool" where
  "best_ok score S best bs \<longleftrightarrow> (\<forall>p \<in> S. score p \<le> bs) \<and>
     (case best of None \<Rightarrow> bs = 0 | Some b \<Rightarrow> b \<in> S \<and> score b = bs)"

lemma best_loop_spec:
  "best_ok score S best bs \<Longrightarrow> \<exists>bs'. best_ok score (S \<union> set ps) (best_loop score ps best bs) bs'"
proof (induction score ps best bs arbitrary: S rule: best_loop.induct)
  case (2 score p ps best bs)
  show ?case
  proof (cases "score p > bs")
    case True
    then have "best_ok score (insert p S) (Some p) (score p)" using "2.prems" by (fastforce simp: best_ok_def)
    from "2.IH"(1) [OF True this] show ?thesis using True by simp
  next
    case False
    then have "best_ok score (insert p S) best bs" using "2.prems" by (auto simp: best_ok_def split: option.splits)
    from "2.IH"(2) [OF False this] show ?thesis using False by simp
  qed
qed auto

lemma satisfiers_elements: "elements_ok tes al \<Longrightarrow> p \<in> satisfiers fp_eq tes st al ds owner name \<Longrightarrow> p < length tes"
  by (auto simp: satisfiers_def has_file_def provides_def elements_ok_def Let_def split: if_splits)

text \<open> C14: The provider that is chosen for a dependency is an element of the transaction that satisfies it, and none
  that satisfies it has a better score; no provider is found only if there is none.\<close>

theorem rpmalSatisfiesDepend_best:
  assumes "rpmalSatisfiesDepend ord ford fp_eq tes st al te ds owner = Inr (st', al', r)" "al_reachable tes al"
    "files_valid st al" "al_pool al < length st" "pool_wf (st ! al_pool al)" "pool_open (st ! al_pool al)"
    "\<And>xs. set (ord xs) = set xs" "\<And>xs. set (ford xs) = set xs" "pool_str st (al_pool al) (rpmdsNId (Some ds)) = Some name"
  shows "case r of None \<Rightarrow> satisfiers fp_eq tes st' al ds owner name = {}
    | Some best \<Rightarrow> best < length tes \<and> best \<in> satisfiers fp_eq tes st' al ds owner name \<and>
        (\<forall>p \<in> satisfiers fp_eq tes st' al ds owner name.
           provider_score tes al te (rpmdsColor (Some ds)) p \<le> provider_score tes al te (rpmdsColor (Some ds)) best)"
proof -
  note ok = al_reachable_ok [OF assms(2)]
  obtain ps where ps: "rpmalAllSatisfiesDepend ord ford fp_eq tes st al ds owner = Inr (st', al', ps)"
    and r: "r = (if ps = [] then None else case best_loop (provider_score tes al' te (rpmdsColor (Some ds))) ps None 0 of
         None \<Rightarrow> Some (hd ps) | Some best \<Rightarrow> Some best)"
    using assms(1) by (auto simp: rpmalSatisfiesDepend_def rbind_eq_Inr)
  have all: "set ps = satisfiers fp_eq tes st' al ds owner name"
    using all_satisfiers [OF ps _ assms(3-9)] ok by blast
  have sc: "provider_score tes al' te = provider_score tes al te"
    using satisfies_search [OF ps] by (simp add: searched_def provider_score_def fun_eq_iff Let_def)
  have elem: "p < length tes" if "p \<in> set ps" for p using satisfiers_elements ok that unfolding all by blast
  obtain bs where "best_ok (provider_score tes al te (rpmdsColor (Some ds))) (set ps)
      (best_loop (provider_score tes al te (rpmdsColor (Some ds))) ps None 0) bs"
    using best_loop_spec [of "provider_score tes al te (rpmdsColor (Some ds))" "{}" None 0 ps] by (auto simp: best_ok_def)
  then show ?thesis using elem unfolding r sc all [symmetric] best_ok_def by (auto split: option.splits)
qed

subsection \<open>Skipping configuration files\<close>

text \<open> With \<open>--noconfigs\<close> the configuration files of a package are not available, but the \<open>config()\<close> provides that
  stand for them are: the flag of the transaction never has an influence on which provides are indexed.\<close>

theorem config_provides_kept:
  "provide_skipped (al\<lparr>al_tsflags := flags\<rparr>) ds i \<longleftrightarrow> wrong_color (al_tscolor al) (rpmdsColorIndex ds i)"
proof -
  have "(flags AND RPMTRANS_FLAG_NOCONFIGS) AND (f AND RPMSENSE_CONFIG) = (flags AND f) AND (RPMTRANS_FLAG_NOCONFIGS AND RPMSENSE_CONFIG)" for f
    by (simp only: and.assoc and.left_commute)
  then have "(flags AND RPMTRANS_FLAG_NOCONFIGS) AND (f AND RPMSENSE_CONFIG) = 0" for f by simp
  then show ?thesis by (simp add: provide_skipped_def)
qed

subsection \<open>An example\<close>

text \<open>A package \<open>bash\<close> that provides itself.\<close>

definition demo_dep :: "rpmTagVal \<Rightarrow> nat \<Rightarrow> rpmds" where
  "demo_dep tag sid = \<lparr>ds_pool = 0, ds_Type = [], ds_DNEVR = [], ds_N = [sid], ds_EVR = [sid], ds_Flags = [0], ds_Color = [0],
     ds_tagN = tag, ds_Count = 1, ds_instance = 0, ds_i = 0, ds_ti = []\<rparr>"

definition demo_elements :: "nat \<Rightarrow> avail_te list" where
  "demo_elements sid = [\<lparr>te_type = TR_ADDED, te_color = 0, te_deps = [RPMTAG_PROVIDENAME \<mapsto> demo_dep RPMTAG_PROVIDENAME sid],
     te_N = ''bash'', te_isSource = False, te_files = None\<rparr>]"

definition demo_al :: "nat \<Rightarrow> rpmal" where
  "demo_al sid = rpmalAdd (demo_elements sid) (rpmalCreate 0 0 0 0) 0"

lemma demo_al_reachable: "al_reachable (demo_elements sid) (demo_al sid)"
  unfolding demo_al_def by (intro al_reachable.intros) (simp add: demo_elements_def)

lemma demo_dep_simps:
  "rpmdsNIdIndex (Some (demo_dep t s)) 0 = s" "rpmdsFlagsIndex (Some (demo_dep t s)) 0 = 0" "rpmdsColorIndex (Some (demo_dep t s)) 0 = 0"
  "rpmdsIx (Some (demo_dep t s)) = 0" "rpmdsTagN (Some (demo_dep t s)) = t" "rpmdsCount (Some (demo_dep t s)) = 1"
  "rpmdsNId (Some (demo_dep t s)) = s" "ds_pool (demo_dep t s) = 0"
  by (simp_all add: demo_dep_def rpmdsNIdIndex_def rpmdsFlagsIndex_def rpmdsColorIndex_def rpmdsIx_def rpmdsTagN_def rpmdsCount_def rpmdsNId_def)

lemma demo_al_fields: "al_pool (demo_al sid) = 0" "al_providesHash (demo_al sid) = None" "al_tscolor (demo_al sid) = 0" "al_tsflags (demo_al sid) = 0" 
  "files_valid st (demo_al sid)" "al_list (demo_al sid) = [\<lparr>ap_p = Some 0,
    ap_provides = Some (demo_dep RPMTAG_PROVIDENAME sid), ap_obsoletes = None, ap_fi = None\<rparr>]"
  by (auto simp: files_valid_def demo_al_def rpmalAdd_def rpmalCreate_def demo_elements_def rpmteDS_def)

lemma bash_pool: "\<exists>pool sid. pool_wf pool \<and> pool_open pool \<and> id2str (offs pool) sid = Some ''bash''"
proof -
  have wf: "pool_wf (the rpmstrPoolCreate)" "pool_open (the rpmstrPoolCreate)"
    using rpmstrPoolCreate_wf by (simp_all add: rpmstrPoolCreate_eq)
  obtain pool sid where r: "rpmstrPoolId (the rpmstrPoolCreate) (Some ''bash'') True = Some (pool, sid)"
    using rpmstrPoolId_returns_if [OF rpmstrPoolCreate_wf, of "poolHashCreate 1024" "''bash''" True]
    by (auto simp: rpmstrPoolCreate_eq poolHashCreate_def probe_slot_def)
  show ?thesis using strpool.intern_open [OF wf r] strpool.intern_names [OF wf r] by blast
qed

lemma demo_search:
  assumes "id2str (offs pool) sid = Some ''bash''"
  shows "\<exists>al'. rpmalAllSatisfiesDepend id id fp_eq (demo_elements sid) [pool] (demo_al sid) (demo_dep RPMTAG_REQUIRENAME sid) None =
    Inr ([pool], al', [0])"
proof -
  have "sid \<noteq> 0" using assms by (auto simp: id2str_def split: if_splits)
  then show ?thesis
    using assms by (simp add: rpmalAllSatisfiesDepend_def demo_dep_simps demo_al_fields rpmstrPoolStr_def make_index index_of_def
        provide_pairs_def provide_skipped_def wrong_color_def equal_range_def provider_at_def provide_satisfies_def
        rpmdsCompareIndex_def rpmstrPoolStreq_def has_def map_filter_def Let_def)
qed

lemma demo_name: "id2str (offs pool) sid = Some ''bash'' \<Longrightarrow> pool_str [pool] (al_pool (demo_al sid)) (rpmdsNId (Some (demo_dep tag sid))) = Some ''bash''"
  by (simp add: demo_al_fields rpmstrPoolStr_def demo_dep_simps)

theorem rpmal_reachable_ok_witness: "al_ok (demo_al 1) \<and> elements_ok (demo_elements 1) (demo_al 1)"
  using rpmal_reachable_ok [OF demo_al_reachable [of 1]] .

theorem rpmalAllSatisfiesDepend_exact_witness:
  "\<exists>pool sid al'. rpmalAllSatisfiesDepend id id (\<lambda>_ _ _. False) (demo_elements sid) [pool] (demo_al sid) (demo_dep RPMTAG_REQUIRENAME sid) None =
      Inr ([pool], al', [0]) \<and>
    satisfiers (\<lambda>_ _ _. False) (demo_elements sid) [pool] (demo_al sid) (demo_dep RPMTAG_REQUIRENAME sid) None ''bash'' = {0}"
proof -
  obtain pool sid where pool: "pool_wf pool" "pool_open pool" "id2str (offs pool) sid = Some ''bash''" using bash_pool by blast
  from demo_search [OF pool(3)] obtain al' where
    r: "rpmalAllSatisfiesDepend id id (\<lambda>_ _ _. False) (demo_elements sid) [pool] (demo_al sid) (demo_dep RPMTAG_REQUIRENAME sid) None = Inr ([pool], al', [0])"
    by blast
  from rpmalAllSatisfiesDepend_exact [OF r demo_al_reachable demo_al_fields(5) _ _ _ _ _ demo_name [OF pool(3)]] pool r show ?thesis
    by (fastforce simp: demo_al_fields)
qed

theorem rpmalSatisfiesDepend_best_witness:
  "\<exists>pool sid. 0 \<in> satisfiers (\<lambda>_ _ _. False) (demo_elements sid) [pool] (demo_al sid) (demo_dep RPMTAG_REQUIRENAME sid) None ''bash''"
proof -
  obtain pool sid where pool: "pool_wf pool" "pool_open pool" "id2str (offs pool) sid = Some ''bash''" using bash_pool by blast
  from demo_search [OF pool(3)] obtain al' where
    r: "rpmalAllSatisfiesDepend id id (\<lambda>_ _ _. False) (demo_elements sid) [pool] (demo_al sid) (demo_dep RPMTAG_REQUIRENAME sid) None = Inr ([pool], al', [0])"
    by blast
  let ?al = "demo_al sid" and ?ds = "demo_dep RPMTAG_REQUIRENAME sid"
  have "\<exists>b. rpmalSatisfiesDepend id id (\<lambda>_ _ _. False) (demo_elements sid) [pool] ?al None ?ds None = Inr ([pool], al', b) \<and> b = Some 0"
    unfolding rpmalSatisfiesDepend_def r by (auto split: option.splits)
  then have b: "rpmalSatisfiesDepend id id (\<lambda>_ _ _. False) (demo_elements sid) [pool] ?al None ?ds None = Inr ([pool], al', Some 0)" by blast
  from rpmalSatisfiesDepend_best [OF b demo_al_reachable demo_al_fields(5) _ _ _ _ _ demo_name [OF pool(3)]] pool show ?thesis
    by (fastforce simp: demo_al_fields)
qed

end
