(* ===== verification/Rpmfileutil.thy ===== *)
theory Rpmfileutil
  imports Rpmstring
begin

text \<open>
  Paths and escapes, rpmio/rpmfileutil.cc. \<open>rpmCleanPath\<close> works in place: what is still to be read is a string, what was
  written the string \<open>out\<close>, which is never longer than what was read, and the pointer to the parent directory is an
  index into it.
\<close>

definition is_slash :: "char \<Rightarrow> bool" where
  "is_slash c \<longleftrightarrow> c = CHR ''/''"

text \<open>The first slash behind \<open>te\<close>, if there is one.\<close>

definition parent_forward :: "cstr \<Rightarrow> nat \<Rightarrow> nat" where
  "parent_forward out te =
     (let se = te + 1 + length (takeWhile (\<lambda>c. \<not> is_slash c) (drop (te + 1) out)) in if se < length out then se else te)"

fun back_slash :: "cstr \<Rightarrow> nat \<Rightarrow> nat" where
  "back_slash out 0 = 0"
| "back_slash out (Suc n) = (if is_slash (out ! Suc n) then Suc n else back_slash out n)"

definition parent_back :: "cstr \<Rightarrow> nat \<Rightarrow> nat" where
  "parent_back out te = (if te > 0 then back_slash out (te - 1) else te)"

definition strip_slashes :: "cstr \<Rightarrow> cstr" where
  "strip_slashes out = rev (dropWhile is_slash (rev out))"

definition after_slash :: "cstr \<Rightarrow> bool" where
  "after_slash out \<longleftrightarrow> out \<noteq> [] \<and> is_slash (last out)"

text \<open>What follows a dot: a second one and then a slash or the end.\<close>

definition dot_dot :: "cstr \<Rightarrow> bool" where
  "dot_dot s \<longleftrightarrow> starts_with (CHR ''.'') s \<and> (tl s = [] \<or> is_slash (hd (tl s)))"

function clean_path :: "bool \<Rightarrow> cstr \<Rightarrow> cstr \<Rightarrow> nat \<Rightarrow> cstr" where
  "clean_path begin [] out te = out"
| "clean_path begin (c # s) out te =
     (if c = CHR '':'' then
        (if take 2 s = ''//'' then clean_path begin (drop 2 s) (out @ ''://'') te else clean_path True s (out @ [c]) te)
      else if is_slash c then
        clean_path begin (dropWhile is_slash s) (strip_slashes out @ [c]) (parent_forward out te)
      else if c = CHR ''.'' then
        (if begin \<and> dot_dot s then clean_path begin (tl s) (out @ ''..'') te
         else if begin \<and> s = [] then clean_path begin s (out @ [c]) te
         else if after_slash out \<and> starts_with (CHR ''/'') s then clean_path begin (tl s) out te
         else if after_slash out \<and> s = [] then clean_path begin s out te
         else if \<not> begin \<and> after_slash out \<and> dot_dot s then clean_path begin (tl s) (take te out) (parent_back out te)
         else clean_path begin s (out @ [c]) te)
      else clean_path False s (out @ [c]) te)"
  by pat_completeness auto
termination
  by (relation "measure (\<lambda>(_, s, _). length s)") (auto simp: less_Suc_eq_le length_dropWhile_le)

definition rpmCleanPath :: "cstr option \<Rightarrow> cstr option" where
  "rpmCleanPath path =
     map_option (\<lambda>p. let out = clean_path True p [] 0 in if length out > 1 \<and> is_slash (last out) then butlast out else out) path"

subsection \<open>Escapes\<close>

definition strchr :: "cstr \<Rightarrow> char \<Rightarrow> bool" where
  "strchr accept c \<longleftrightarrow> c \<in> set accept \<or> c = NUL"

text \<open>\<open>fn\<close> is the character class, \<open>accept\<close> the set of characters; the first loop of the source computes the size.\<close>

fun escape_size :: "(char \<Rightarrow> bool) \<Rightarrow> cstr \<Rightarrow> nat" where
  "escape_size special [] = 1"
| "escape_size special (c # s) = (if special c then 2 else 1) + escape_size special s"

fun escape_loop :: "(char \<Rightarrow> bool) \<Rightarrow> cstr \<Rightarrow> cstr" where
  "escape_loop special [] = []"
| "escape_loop special (c # s) = (if special c then [CHR 0x5C, c] else [c]) @ escape_loop special s"

definition special_char :: "cstr option \<Rightarrow> (char \<Rightarrow> bool) option \<Rightarrow> char \<Rightarrow> bool" where
  "special_char accept fn c \<longleftrightarrow>
     (case accept of None \<Rightarrow> False | Some a \<Rightarrow> strchr a c) \<or> (case fn of None \<Rightarrow> False | Some f \<Rightarrow> f c)"

definition rpmEscapeChars :: "cstr \<Rightarrow> cstr option \<Rightarrow> (char \<Rightarrow> bool) option \<Rightarrow> cstr" where
  "rpmEscapeChars s accept fn = escape_loop (special_char accept fn) s"

text \<open>\<open>isspace\<close> is the function of the C library, which depends on the locale.\<close>

definition rpmEscapeSpaces :: "(char \<Rightarrow> bool) \<Rightarrow> cstr \<Rightarrow> cstr" where
  "rpmEscapeSpaces isspace s = rpmEscapeChars s None (Some isspace)"

definition rpmEscape :: "cstr \<Rightarrow> cstr option \<Rightarrow> cstr" where
  "rpmEscape s accept = rpmEscapeChars s accept None"

fun unescape_loop :: "cstr option \<Rightarrow> bool \<Rightarrow> cstr \<Rightarrow> cstr" where
  "unescape_loop accept skip [] = []"
| "unescape_loop accept skip (c # s) =
     (if c = CHR 0x5C \<and> (case accept of None \<Rightarrow> True | Some a \<Rightarrow> strchr a (if s = [] then NUL else hd s)) \<and> \<not> skip
      then unescape_loop accept True s
      else c # unescape_loop accept False s)"

definition rpmUnescape :: "cstr \<Rightarrow> cstr option \<Rightarrow> cstr" where
  "rpmUnescape s accept = unescape_loop accept False s"

definition rpmFileHasSuffix :: "cstr \<Rightarrow> cstr \<Rightarrow> bool" where
  "rpmFileHasSuffix path suffx \<longleftrightarrow> length suffx \<le> length path \<and> rstreq (drop (length path - length suffx) path) suffx"

section \<open>Properties\<close>

subsection \<open>Escapes\<close>

lemma escape_size_fits: "escape_size special s = length (escape_loop special s) + 1"
  by (induction s) auto

lemma hd_escape: "s \<noteq> [] \<Longrightarrow> escape_loop special s \<noteq> [] \<and> hd (escape_loop special s) = (if special (hd s) then CHR 0x5C else hd s)"
  by (cases s) auto

lemma unescape_escape:
  assumes "NUL \<notin> set s" "NUL \<notin> set a" "CHR 0x5C \<in> set a \<or> s = [] \<or> last s \<noteq> CHR 0x5C"
  shows "unescape_loop (Some a) False (escape_loop (strchr a) s) = s"
  using assms
proof (induction s)
  case (Cons c s)
  then have IH: "unescape_loop (Some a) False (escape_loop (strchr a) s) = s" by (cases s) auto
  show ?case
  proof (cases "strchr a c \<or> c \<noteq> CHR 0x5C")
    case True
    then show ?thesis using IH by auto
  next
    case False
    then have "s \<noteq> []" using Cons.prems by (auto simp: strchr_def)
    then have "\<not> strchr a (hd (escape_loop (strchr a) s))" using hd_escape [of s "strchr a"] False Cons.prems by auto
    then show ?thesis using False IH hd_escape [OF \<open>s \<noteq> []\<close>, of "strchr a"] by auto
  qed
qed simp

text \<open> C39: Unescaping gives back what was escaped for a set of characters, if the backslash is one of them or the string
  does not end with one, and the escaped string fills the memory allocated for it.\<close>

theorem rpmUnescape_rpmEscape:
  assumes "NUL \<notin> set s" "NUL \<notin> set a" "CHR 0x5C \<in> set a \<or> s = [] \<or> last s \<noteq> CHR 0x5C"
  shows "rpmUnescape (rpmEscape s (Some a)) (Some a) = s \<and>
    length (rpmEscape s (Some a)) + 1 = escape_size (special_char (Some a) None) s"
proof -
  have "special_char (Some a) None = strchr a" by (simp add: special_char_def fun_eq_iff)
  then show ?thesis using unescape_escape [OF assms] escape_size_fits [of "strchr a" s]
    by (simp add: rpmUnescape_def rpmEscape_def rpmEscapeChars_def)
qed

theorem rpmUnescape_rpmEscape_witness:
  "rpmUnescape (rpmEscape ''a b'' (Some '' '')) (Some '' '') = ''a b''"
  using rpmUnescape_rpmEscape [of "''a b''" "'' ''"] by simp

text \<open>A backslash at the end is lost otherwise: the search finds the end of the string in any set.\<close>

lemma rpmUnescape_trailing: "rpmUnescape (rpmEscape [CHR ''a'', CHR 0x5C] (Some '' '')) (Some '' '') = ''a''"
  by code_simp

subsection \<open>Clean paths\<close>

text \<open>The path that consists of some components.\<close>

definition render :: "cstr list \<Rightarrow> cstr" where
  "render cs = concat (map (\<lambda>c. CHR ''/'' # c) cs)"

fun resolve :: "cstr list \<Rightarrow> cstr list \<Rightarrow> cstr list" where
  "resolve r [] = r"
| "resolve r (c # cs) = resolve (if c = [] \<or> c = ''.'' then r else if c = ''..'' then butlast r else r @ [c]) cs"

text \<open>The canonical path of some components: the root if they resolve to nothing.\<close>

definition canonical :: "cstr list \<Rightarrow> cstr" where
  "canonical cs = (let q = resolve [] cs in if q = [] then ''/'' else render q)"

definition name_ok :: "cstr \<Rightarrow> bool" where
  "name_ok c \<longleftrightarrow> CHR ''/'' \<notin> set c \<and> CHR '':'' \<notin> set c"

lemma render_simps [simp]: "render [] = []" "render (c # cs) = CHR ''/'' # c @ render cs" "render (cs @ ds) = render cs @ render ds"
  by (simp_all add: render_def)

lemma is_slash_simps [simp]: "is_slash (CHR ''/'')" "\<not> is_slash (CHR ''.'')" "is_slash c \<Longrightarrow> c = CHR ''/''"
  by (simp_all add: is_slash_def)

lemma takeWhile_name: "name_ok c \<Longrightarrow> takeWhile (\<lambda>c. \<not> is_slash c) (c @ s) = c @ takeWhile (\<lambda>c. \<not> is_slash c) s"
  by (rule takeWhile_append2) (auto simp: name_ok_def is_slash_def)

lemma takeWhile_name_all: "name_ok c \<Longrightarrow> length (takeWhile (\<lambda>c. \<not> is_slash c) c) = length c"
  using takeWhile_name [of c "[]"] by (simp only: append_Nil2 takeWhile.simps)

text \<open>A name is copied.\<close>

lemma copy_chars:
  assumes "name_ok c" "out \<noteq> []" "\<not> is_slash (last out)" "s = [] \<or> is_slash (hd s)"
  shows "clean_path False (c @ s) out te = clean_path False s (out @ c) te"
  using assms
proof (induction c arbitrary: out)
  case (Cons x c)
  have x: "x \<noteq> CHR ''/''" "x \<noteq> CHR '':''" "name_ok c" using Cons.prems(1) by (auto simp: name_ok_def)
  have "clean_path False ((x # c) @ s) out te = clean_path False (c @ s) (out @ [x]) te"
    using x Cons.prems(2,3) by (simp add: is_slash_def after_slash_def)
  also have "\<dots> = clean_path False s ((out @ [x]) @ c) te"
    using x Cons.prems by (intro Cons.IH) (auto simp: is_slash_def)
  finally show ?case by simp
qed simp

lemma copy_name:
  assumes "name_ok c" "c \<noteq> []" "c \<noteq> ''.''" "c \<noteq> ''..''" "s = [] \<or> is_slash (hd s)"
  shows "clean_path False (c @ s) (out @ ''/'') te = clean_path False s (out @ ''/'' @ c) te"
proof -
  obtain x c' where c: "c = x # c'" using assms(2) by (cases c) auto
  have x: "x \<noteq> CHR ''/''" "x \<noteq> CHR '':''" "name_ok c'" using assms(1) by (auto simp: c name_ok_def)
  have d: "\<not> dot_dot (c' @ s)" "\<not> starts_with (CHR ''/'') (c' @ s)" "c' @ s \<noteq> []" if dot: "x = CHR ''.''"
  proof -
    obtain y c'' where c': "c' = y # c''" using dot assms(3) c by (cases c') auto
    then have "y \<noteq> CHR ''.'' \<or> c'' \<noteq> []" using dot assms(4) c by auto
    moreover have "\<not> is_slash y" "c'' \<noteq> [] \<longrightarrow> \<not> is_slash (hd c'')" using x(3) c' by (auto simp: name_ok_def is_slash_def dest: hd_in_set)
    ultimately show "\<not> dot_dot (c' @ s)" "\<not> starts_with (CHR ''/'') (c' @ s)" "c' @ s \<noteq> []"
      using c' by (auto simp: dot_dot_def is_slash_def)
  qed
  have "clean_path False (c @ s) (out @ ''/'') te = clean_path False (c' @ s) ((out @ ''/'') @ [x]) te"
    using x d by (cases "x = CHR ''.''") (auto simp: c is_slash_def)
  also have "\<dots> = clean_path False s (((out @ ''/'') @ [x]) @ c') te"
    using x assms(5) by (intro copy_chars) (auto simp: is_slash_def)
  finally show ?thesis by (simp add: c)
qed

text \<open>The slash in front of the last component.\<close>

definition te_of :: "cstr list \<Rightarrow> nat" where
  "te_of r = length (render (butlast r))"

definition names_ok :: "cstr list \<Rightarrow> bool" where
  "names_ok r \<longleftrightarrow> (\<forall>c \<in> set r. name_ok c \<and> c \<noteq> [])"

lemma names_ok_snoc: "names_ok (r @ [c]) \<longleftrightarrow> names_ok r \<and> name_ok c \<and> c \<noteq> []"
  by (auto simp: names_ok_def)

lemma names_ok_butlast: "names_ok r \<Longrightarrow> names_ok (butlast r)"
  by (auto simp: names_ok_def dest: in_set_butlastD)

lemma forward_new:
  assumes "names_ok (r @ [c])"
  shows "parent_forward (render (r @ [c])) (te_of r) = te_of (r @ [c])"
proof (cases r rule: rev_cases)
  case Nil
  then show ?thesis using assms takeWhile_name_all [of c] by (simp add: te_of_def parent_forward_def names_ok_def)
next
  case (snoc q x)
  have "takeWhile (\<lambda>c. \<not> is_slash c) (x @ CHR ''/'' # c) = x"
    using assms snoc takeWhile_name [of x "CHR ''/'' # c"] by (simp add: names_ok_def)
  then show ?thesis using snoc by (simp add: te_of_def parent_forward_def Let_def butlast_append)
qed

lemma forward_same:
  assumes "names_ok r"
  shows "parent_forward (render r) (te_of r) = te_of r"
proof (cases r rule: rev_cases)
  case (snoc q x)
  then show ?thesis using assms takeWhile_name_all [of x] by (simp add: te_of_def parent_forward_def Let_def names_ok_def)
qed (simp add: te_of_def parent_forward_def)

lemma back_slash_at:
  assumes "k = 0 \<or> is_slash (out ! k)" "\<And>i. k < i \<Longrightarrow> i \<le> k + n \<Longrightarrow> \<not> is_slash (out ! i)"
  shows "back_slash out (k + n) = k"
  using assms(2)
proof (induction n)
  case 0
  then show ?case using assms(1) by (cases k) auto
next
  case (Suc n)
  then show ?case by simp
qed

lemma parent_back_pop:
  assumes "names_ok r"
  shows "parent_back (render r @ ''/'') (te_of r) = te_of (butlast r)"
proof (cases "length r < 2")
  case True
  then show ?thesis by (cases r) (auto simp: te_of_def parent_back_def)
next
  case False
  then obtain q y x where r: "r = q @ [y, x]"
    by (cases r rule: rev_cases; cases "butlast r" rule: rev_cases) auto
  let ?out = "render r @ ''/''" and ?k = "length (render q)"
  have y: "name_ok y" using assms by (simp add: r names_ok_def)
  have "back_slash ?out (?k + length y) = ?k"
  proof (rule back_slash_at)
    show "?k = 0 \<or> is_slash (?out ! ?k)" by (simp add: r nth_append)
    fix i assume "?k < i" "i \<le> ?k + length y"
    then obtain j where j: "i = ?k + Suc j" "j < length y" by (metis Suc_le_eq add_Suc_right add_le_cancel_left less_imp_Suc_add)
    then have "?out ! i = y ! j" by (simp add: r nth_append)
    then show "\<not> is_slash (?out ! i)" using y nth_mem [OF j(2)] by (auto simp: name_ok_def is_slash_def)
  qed
  then show ?thesis by (simp add: r te_of_def parent_back_def butlast_append)
qed

lemma last_render:
  assumes "names_ok r" "r \<noteq> []"
  shows "render r \<noteq> [] \<and> \<not> is_slash (last (render r))"
proof -
  obtain q x where r: "r = q @ [x]" using assms(2) by (cases r rule: rev_cases) auto
  then have "last (render r) \<in> set x" using assms(1) by (auto simp: names_ok_def)
  moreover have "\<forall>y \<in> set x. \<not> is_slash y" using assms(1) r by (auto simp: names_ok_def name_ok_def is_slash_def)
  ultimately show ?thesis using r by auto
qed

lemma strip_render: "names_ok r \<Longrightarrow> strip_slashes (render r) = render r"
  using last_render [of r] by (cases "render r" rule: rev_cases; cases "r = []") (auto simp: strip_slashes_def)

definition trim :: "cstr \<Rightarrow> cstr" where
  "trim out = (if length out > 1 \<and> is_slash (last out) then butlast out else out)"

text \<open>What the loop leaves of the components behind \<open>r\<close>, an auxiliary notion of the proof. It differs from the
  canonical path if the last component leads back to the root: then nothing is left (lemma \<open>rpmCleanPath_wrong\<close>).\<close>

definition left_over :: "cstr list \<Rightarrow> cstr list \<Rightarrow> cstr" where
  "left_over r cs = (let q = resolve r cs in if q \<noteq> [] then render q else if last cs = ''..'' then [] else ''/'')"

text \<open>The components that are handled: no slashes and colons, and no empty one behind a single dot.\<close>

fun components_ok :: "cstr list \<Rightarrow> bool" where
  "components_ok [] = True"
| "components_ok (c # cs) \<longleftrightarrow> name_ok c \<and> (c = ''.'' \<longrightarrow> cs = [] \<or> hd cs \<noteq> []) \<and> components_ok cs"

lemma trim_render: "names_ok r \<Longrightarrow> trim (render r) = render r" "names_ok r \<Longrightarrow> trim (render r @ ''/'') = (if r = [] then ''/'' else render r)"
  using last_render [of r] by (cases "r = []"; auto simp: trim_def)+

lemma boundary:
  assumes "names_ok q" "parent_forward (render q) te = te_of q"
    and rest: "\<And>d ds. cs = d # ds \<Longrightarrow>
      trim (clean_path False (dropWhile is_slash (d @ render ds)) (render q @ ''/'') (te_of q)) = left_over q cs"
  shows "trim (clean_path False (render cs) (render q) te) = (if cs = [] then render q else left_over q cs)"
proof (cases cs)
  case Nil
  then show ?thesis using assms(1) by (simp add: trim_render)
next
  case (Cons d ds)
  then show ?thesis using rest [OF Cons] assms(1,2) by (simp add: strip_render)
qed

lemma dropWhile_name: "name_ok c \<Longrightarrow> c \<noteq> [] \<Longrightarrow> dropWhile is_slash (c @ s) = c @ s"
  by (cases c) (auto simp: name_ok_def is_slash_def)

lemma take_te: "take (te_of r) (render r @ s) = render (butlast r)"
  by (cases r rule: rev_cases) (auto simp: te_of_def)

lemma render_head: "render cs = [] \<or> is_slash (hd (render cs))"
  by (cases cs) auto

lemma left_over_Cons:
  "left_over r (c # cs) = (let q = (if c = [] \<or> c = ''.'' then r else if c = ''..'' then butlast r else r @ [c]) in
     if cs \<noteq> [] then left_over q cs else if q \<noteq> [] then render q else if c = ''..'' then [] else ''/'')"
  by (simp add: left_over_def Let_def)

lemma clean_component:
  assumes r: "names_ok r" and c: "components_ok (c # cs)"
    and rest: "\<And>d ds q. cs = d # ds \<Longrightarrow> names_ok q \<Longrightarrow>
      trim (clean_path False (dropWhile is_slash (d @ render ds)) (render q @ ''/'') (te_of q)) = left_over q cs"
  shows "trim (clean_path False (dropWhile is_slash (c @ render cs)) (render r @ ''/'') (te_of r)) = left_over r (c # cs)"
proof -
  note boundary = boundary [OF _ _ rest]
  consider "c = []" | "c = ''.''" | "c = ''..''" | "c \<noteq> []" "c \<noteq> ''.''" "c \<noteq> ''..''" by blast
  then show ?thesis
  proof cases
    case 1
    then show ?thesis using rest [OF _ r] r by (cases cs) (auto simp: left_over_Cons trim_render)
  next
    case 2
    have "dropWhile is_slash (d @ render ds) = d @ render ds" if "cs = d # ds" for d ds using c 2 that by (simp add: dropWhile_name)
    then show ?thesis using 2 rest [OF _ r] r
      by (cases cs) (auto simp: left_over_Cons trim_render after_slash_def dot_dot_def)
  next
    case 3
    have "clean_path False (dropWhile is_slash (c @ render cs)) (render r @ ''/'') (te_of r) =
        clean_path False (render cs) (render (butlast r)) (te_of (butlast r))"
      using 3 render_head [of cs] parent_back_pop [OF r] by (simp add: after_slash_def dot_dot_def take_te del: take_append)
    moreover have "trim (clean_path False (render cs) (render (butlast r)) (te_of (butlast r))) =
        (if cs = [] then render (butlast r) else left_over (butlast r) cs)"
      using r by (intro boundary) (simp_all add: names_ok_butlast forward_same)
    ultimately show ?thesis using 3 by (simp only: left_over_Cons) (simp add: Let_def)
  next
    case 4
    have ok: "names_ok (r @ [c])" using r c 4 by (simp add: names_ok_snoc)
    have "clean_path False (dropWhile is_slash (c @ render cs)) (render r @ ''/'') (te_of r) =
        clean_path False (render cs) (render (r @ [c])) (te_of r)"
      using 4 c render_head [of cs] copy_name [of c "render cs" "render r"] by (simp add: dropWhile_name)
    moreover have "trim (clean_path False (render cs) (render (r @ [c])) (te_of r)) =
        (if cs = [] then render (r @ [c]) else left_over (r @ [c]) cs)"
      using ok by (intro boundary) (simp_all only: forward_new)
    ultimately show ?thesis using 4 by (simp only: left_over_Cons) (simp add: Let_def)
  qed
qed

lemma clean_components:
  assumes "names_ok r" "components_ok (c # cs)"
  shows "trim (clean_path False (dropWhile is_slash (c @ render cs)) (render r @ ''/'') (te_of r)) = left_over r (c # cs)"
  using assms
proof (induction cs arbitrary: c r)
  case (Cons d ds)
  then show ?case by (intro clean_component) auto
qed (rule clean_component, auto)

text \<open> C38: Cleaning an absolute path gives its canonical path: the components are resolved from left to right, empty ones
  and single dots are dropped, double dots remove the component before them, and a slash is left if nothing
  remains. This holds of the paths that have no colon, that begin with a name that does not start with a dot, in
  which no single dot is followed by an empty component, and in which a double dot at the end does not lead
  back to the root. The last two conditions are needed: \<open>/a/.//../c\<close> and \<open>/a/..\<close> are not cleaned to
  their canonical paths (lemma \<open>rpmCleanPath_wrong\<close>).\<close>

theorem rpmCleanPath_resolves:
  assumes "n \<noteq> []" "hd n \<noteq> CHR ''.''" "components_ok (n # cs)" "resolve [] (n # cs) \<noteq> [] \<or> last (n # cs) \<noteq> ''..''"
  shows "rpmCleanPath (Some (render (n # cs))) = Some (canonical (n # cs))"
proof -
  obtain x m where n: "n = x # m" using assms(1) by (cases n) auto
  have x: "name_ok m" "x \<noteq> CHR ''/''" "x \<noteq> CHR '':''" "x \<noteq> CHR ''.''" using assms n by (auto simp: name_ok_def)
  have ok: "names_ok [n]" using assms by (simp add: names_ok_def)
  have "clean_path True (render (n # cs)) [] 0 = clean_path False (m @ render cs) [CHR ''/'', x] 0"
    using x by (simp add: n strip_slashes_def parent_forward_def is_slash_def)
  also have "\<dots> = clean_path False (render cs) (render [n]) (te_of [])"
    using x render_head [of cs] copy_chars [of m "[CHR ''/'', x]" "render cs" 0] by (simp add: n is_slash_def te_of_def)
  finally have start: "clean_path True (render (n # cs)) [] 0 = clean_path False (render cs) (render [n]) (te_of [])" .
  have "trim (clean_path False (render cs) (render [n]) (te_of [])) = (if cs = [] then render [n] else left_over [n] cs)"
  proof (rule boundary [OF ok])
    show "parent_forward (render [n]) (te_of []) = te_of [n]" using forward_new [of "[]" n] ok by simp
    fix d ds assume "cs = d # ds"
    then show "trim (clean_path False (dropWhile is_slash (d @ render ds)) (render [n] @ ''/'') (te_of [n])) = left_over [n] cs"
      using clean_components [OF ok, of d ds] assms(3) by simp
  qed
  moreover have "(if cs = [] then render [n] else left_over [n] cs) = canonical (n # cs)"
    using assms(2,4) x by (auto simp: n left_over_def canonical_def Let_def)
  ultimately have "trim (clean_path True (render (n # cs)) [] 0) = canonical (n # cs)" by (simp only: start)
  then show ?thesis unfolding rpmCleanPath_def option.map trim_def Let_def by (rule arg_cong [where f = Some])
qed

theorem rpmCleanPath_resolves_witness:
  "rpmCleanPath (Some ''/usr//lib/../bin/./sh'') = Some ''/usr/bin/sh''"
proof -
  let ?cs = "[[], ''lib'', ''..'', ''bin'', ''.'', ''sh'']"
  have "rpmCleanPath (Some (render (''usr'' # ?cs))) = Some (canonical (''usr'' # ?cs))"
    by (rule rpmCleanPath_resolves) (simp_all add: name_ok_def)
  moreover have "canonical (''usr'' # ?cs) = ''/usr/bin/sh''" by code_simp
  ultimately show ?thesis by simp
qed

text \<open>The memory of the path is enough for the result.\<close>

lemma clean_path_length: "length (clean_path begin s out te) \<le> length out + length s"
proof (induction "begin" s out te rule: clean_path.induct)
  case (2 b c s out te)
  have strip: "length (strip_slashes out) \<le> length out" using length_dropWhile_le [of is_slash "rev out"] by (simp add: strip_slashes_def)
  have skip: "length (dropWhile is_slash s) \<le> length s" by (rule length_dropWhile_le)
  have tl: "length (tl s) + 1 \<le> length s" if "dot_dot s \<or> starts_with (CHR ''/'') s" using that by (cases s) (auto simp: dot_dot_def)
  consider "c = CHR '':''" "take 2 s = ''//''" | "c = CHR '':''" "take 2 s \<noteq> ''//''" | "c \<noteq> CHR '':''" "is_slash c"
    | "c \<noteq> CHR '':''" "\<not> is_slash c" "c \<noteq> CHR ''.''" | (dot) "c \<noteq> CHR '':''" "\<not> is_slash c" "c = CHR ''.''" by blast
  then show ?case
  proof cases
    case 1
    have "length (drop 2 s) + 2 \<le> length s" using arg_cong [OF 1(2), of length] by (simp add: min_def split: if_splits)
    then show ?thesis using 1 2(1) by simp
  next
    case dot
    consider "b \<and> dot_dot s" | "\<not> (b \<and> dot_dot s)" "b \<and> s = []" | "\<not> (b \<and> dot_dot s)" "\<not> (b \<and> s = [])" "after_slash out \<and> starts_with (CHR ''/'') s"
      | "\<not> (b \<and> dot_dot s)" "\<not> (b \<and> s = [])" "\<not> (after_slash out \<and> starts_with (CHR ''/'') s)" by blast
    then show ?thesis
    proof cases
      case 4
      have "length (take te out) \<le> length out" by simp
      with 4 dot 2(7-9) tl show ?thesis by (simp only: clean_path.simps if_False if_True simp_thms split: if_split) force
    qed (use dot 2(4-6) tl in \<open>force+\<close>)
  qed (use 2(2,3,10) strip skip in \<open>force+\<close>)
qed simp

text \<open>Where it goes wrong: the pointer to the parent is moved for a slash behind a dot, and the root is lost.\<close>

lemma rpmCleanPath_wrong: "rpmCleanPath (Some ''/a/.//../c'') = Some ''/a/c''" "rpmCleanPath (Some ''/a/..'') = Some []"
  by code_simp+

end
