(* ===== verification/Spec2Isabelle.thy ===== *)
theory Spec2Isabelle
  imports Rpmver Base64 Dbiset Argv Strpool Rpmds Richdep Expression_Semantics Header_I18n Cpio Order_Topological Rpmfi_Header Rpmfi_Fate Rpmal Rpmfileutil
begin

text \<open>
  \<^bold>\<open>RPM, its version and dependency logic and its headers\<close>

  RPM installs packages that carry a header, a table of typed tags. The library reads and verifies
  headers (lib/header.cc), hands their data out in containers (lib/rpmtd.cc), builds dependency sets from
  them (lib/rpmds.cc) whose strings are kept in a pool (rpmio/rpmstrpool.cc), and decides which version
  ranges overlap (rpmio/rpmver.cc, rpmio/rpmvercmp.cc). Spec files and macros use expressions
  (rpmio/expression.cc). The files of a package are a cpio archive (lib/cpio.cc), and the packages of a transaction
  are put into an order that respects their dependencies (lib/order.cc). What a header says of the files is kept in
  sets of arrays (lib/rpmfi.cc), and dependencies are looked up in the packages of the transaction (lib/rpmal.cc). This development models these parts; everything below names files under src/.

  \<^bold>\<open>Theories\<close>
  \<^item> \<open>Prelude\<close>: C strings as \<open>string\<close>, results as sums with \<open>rbind\<close>, the contract \<open>c_order\<close> of a C comparison
    function with the facts about \<open>qsort\<close> and \<open>bsearch\<close> that follow from it, and bisection.
  \<^item> \<open>Rpmstring\<close> (rpmio/rpmstring.cc): character classes, hex digits, bounded copies.
  \<^item> \<open>Rpmfileutil\<close> (rpmio/rpmfileutil.cc): cleaning a path gives its canonical path, for the paths
    that the code handles; escapes can be undone.
  \<^item> \<open>Rpmvercmp\<close> (rpmio/rpmvercmp.cc): version comparison; it is the comparison of the token lists of the
    two versions and a total preorder.
  \<^item> \<open>Sense\<close>, \<open>Rpmver\<close> (rpmio/rpmver.cc): dependency flags; parsing, printing and comparing epoch, version and
    release; the overlap of two ranges is a common point of a dense order.
  \<^item> \<open>Base64\<close> (rpmio/base64.cc): encoding and decoding with their buffer sizes; round trip for data whose length fits
    into an \<open>int\<close> or is encoded in lines, and what happens to longer data.
  \<^item> \<open>Dbiset\<close> (lib/backend/dbiset.cc): sets of database records; pruning and filtering are multiset difference
    and intersection.
  \<^item> \<open>Argv\<close> (rpmio/argv.cc): string arrays; splitting and joining, sorting and searching.
  \<^item> \<open>Strpool\<close> (rpmio/rpmstrpool.cc): interning of strings in a hash table; \<open>intern_pool\<close> is the interface its
    users rely on, interpreted by the pool.
  \<^item> \<open>Rpmds\<close>, \<open>Richdep\<close> (lib/rpmds.cc): dependency sets over an explicit store of pools, with construction,
    merge, search and comparison; the parser of rich dependencies.
  \<^item> \<open>Expression\<close>, \<open>Expression_Semantics\<close> (rpmio/expression.cc): lexer and evaluator, and the proof that on the
    text of an expression tree they compute the meaning of the tree.
  \<^item> \<open>Hdrblob\<close> (lib/header.cc): reading and verifying an on-disk header; reads stay inside of the memory and an
    accepted header is well formed.
  \<^item> \<open>Rpmtd\<close> (lib/rpmtd.cc): tag data containers.
  \<^item> \<open>Header\<close> (lib/header.cc): the header in memory as a store of tags; \<open>tag_store\<close> is the interface of
    deletion, interpreted by the header.
  \<^item> \<open>Header_Region\<close>, \<open>Header_Roundtrip\<close> (lib/header.cc): byte order, size, export and import of headers; a
    reference encoding that the export of a header without regions equals and that import reads back.
  \<^item> \<open>Header_Get\<close>, \<open>Header_I18n\<close> (lib/header.cc): retrieval of tags and iteration, and translated strings; adding
    a translation refines an operation on the lists of languages and strings.
  \<^item> \<open>Cpio\<close> (lib/cpio.cc): the payload archive; what was written is read back, reads stay in their buffers unless a
    file size is negative.
  \<^item> \<open>Order\<close>, \<open>Order_Relations\<close>, \<open>Order_Topological\<close> (lib/order.cc): relations between the elements of a transaction,
    strongly connected components and the queues of the topological sort. Recording keeps a consistent graph; without
    loops, and without relations from or to restored elements, the order is a permutation that puts required elements
    first.
  \<^item> \<open>Rpmfi\<close>, \<open>Rpmfi_Header\<close> (lib/rpmfi.cc): the set of files of a package, the search for paths and prefixes and
    the iterators; construction from a header, after which every array whose count the code checks has an
    entry per file, and hard links.
  \<^item> \<open>Rpmfi_Fate\<close> (lib/rpmfi.cc): what happens to a file on disk when its package is replaced; the decision follows a
    policy by which a modified configuration file is never lost.
  \<^item> \<open>Rpmal\<close> (lib/rpmal.cc): the packages that are available to dependencies. \<open>lazy_index\<close> is what an index that is made
    late has in common with one that is kept, interpreted by the three indexes; the search for providers is exact.
  \<^item> This theory, at its end: what the search in the available packages answers meets the conditions that the
    theories of the order have for the search of providers.

  \<^bold>\<open>Conventions\<close>
  A struct is a record, an operation a function that returns the changed record. A pointer that may be NULL is
  an option, a failing call an option or a sum. \<open>uint32_t\<close> is a 32-bit word where its wrap-around can be
  seen, a natural number where it counts allocated things. Where memory safety is a question (expressions,
  headers, containers) memory is explicit and a read outside of it, an overflow of a C \<open>int\<close> or a read
  through an indeterminate pointer is an error value, so that a theorem that gives a result also says
  that the code does none of this. The platform is x86-64: little endian, signed \<open>char\<close>, 64-bit
  \<open>size_t\<close>. Conversions between \<open>size_t\<close> and \<open>int\<close> truncate where the values can be large. Signed overflow wraps around
  where it is not an error value, as \<open>-fno-strict-overflow\<close> in CMakeLists.txt asks for. \<open>qsort\<close> is a stable sort, as in
  the GNU C library; this matters for entries of a header with the same tag only. Allocation does not fail; lifetimes and reference counts are not modelled.

  \<^bold>\<open>Loops and fuel\<close>
  Loops are structural recursions or functions with a termination proof. The parser of rich dependencies takes
  fuel \<open>2 * length + 2\<close>, the expression evaluator \<open>length + 2\<close>; both are proved to be enough for every text. The
  probing loop of the string pool may run forever and is a partial function; when it returns is a theorem,
  and so is that it can loop. The loops of the transaction order are partial functions, the depth of Tarjan's
  algorithm is bounded by the number of elements; that they return is proved for graphs without loops.

  \<^bold>\<open>Parameters\<close>
  Macro expansion and Lua calls of the expression evaluator, the environment variables that name the locale, the
  functions that compute tag extensions, the search for the provider of a dependency in the theories of the order, the lengths of digests, the file system that the
  fate of a file depends on, the order in which a hash table enumerates its entries, the comparison of directories by fingerprints, the function
  \<open>isspace\<close> of the C library, and the tables of tag types, return types and script program tags,
  which the build generates.

  \<^bold>\<open>Not modelled\<close>
  Input and output, compression, cryptography, the database files, transactions, scripts, plugins, package
  building, the tools and the language bindings: they drive the operating system or other libraries. Of the macro
  language only the matching of brackets is modelled.
\<close>

section \<open>The order and the available packages\<close>

text \<open>The order of a transaction searches providers in the erased packages for an erased element and in the added packages
  for the others. What such a search answers, whatever the indexes were at that time, meets the two conditions on the
  search of the theories of the order.\<close>

lemma answer_listed:
  assumes "rpmalSatisfiesDepend ord ford fp_eq tes st al te ds owner = Inr (st', al', Some q)" "al_reachable tes al"
    and "\<And>xs. set (ord xs) = set xs" "\<And>xs. set (ford xs) = set xs"
  shows "listed al q \<and> q < length tes"
proof -
  obtain ps where ps: "rpmalAllSatisfiesDepend ord ford fp_eq tes st al ds owner = Inr (st', al', ps)"
    and r: "Some q = (if ps = [] then None else case best_loop (provider_score tes al' te (rpmdsColor (Some ds))) ps None 0 of
       None \<Rightarrow> Some (hd ps) | Some best \<Rightarrow> Some best)"
    using assms(1) by (auto simp: rpmalSatisfiesDepend_def rbind_eq_Inr)
  have "q \<in> set ps"
    using r best_loop_spec [of "provider_score tes al' te (rpmdsColor (Some ds))" "{}" None 0 ps]
    by (auto simp: best_ok_def split: if_splits option.splits)
  then have "listed al q" using hits_listed [OF ps _ assms(3,4)] al_reachable_ok [OF assms(2)] by blast
  then show ?thesis using listed_element al_reachable_ok [OF assms(2)] by blast
qed

lemma available_providers:
  assumes "\<And>pools p dep q. satisfies pools p dep = Some q \<Longrightarrow> p < length tes \<and>
      (\<exists>ord ford fp_eq st al te st' al'. al_reachable tes al \<and> (\<forall>xs. set (ord xs) = set xs) \<and> (\<forall>xs. set (ford xs) = set xs) \<and>
         (\<forall>r. listed al r \<longrightarrow> te_type (tes ! r) = (if te_type (tes ! p) = TR_REMOVED then TR_REMOVED else TR_ADDED)) \<and>
         rpmalSatisfiesDepend ord ford fp_eq tes st al te dep (Some p) = Inr (st', al', Some q))"
  shows "provider_ok (length tes) satisfies \<and> provider_typed (map rpmte.truncate tes) satisfies"
proof -
  have p: "p < length tes" if "satisfies pools p dep = Some q" for pools p dep q using assms [OF that] by (rule conjunct1)
  have q: "q < length tes \<and> te_type (tes ! q) = (if te_type (tes ! p) = TR_REMOVED then TR_REMOVED else TR_ADDED)"
    if s: "satisfies pools p dep = Some q" for pools p dep q
  proof -
    from assms [OF s] obtain ord ford fp_eq st al te st' al' where al: "al_reachable tes al" "\<And>xs. set (ord xs) = set xs" "\<And>xs. set (ford xs) = set xs"
      and types: "\<forall>r. listed al r \<longrightarrow> te_type (tes ! r) = (if te_type (tes ! p) = TR_REMOVED then TR_REMOVED else TR_ADDED)"
      and r: "rpmalSatisfiesDepend ord ford fp_eq tes st al te dep (Some p) = Inr (st', al', Some q)" by (elim conjE exE) blast
    from answer_listed [OF r al] types show ?thesis by blast
  qed
  have t: "te_type (map rpmte.truncate tes ! r) = te_type (tes ! r)" if "r < length tes" for r
    using that by (simp add: rpmte.truncate_def)
  show ?thesis unfolding provider_ok_def provider_typed_def
  proof (intro conjI allI impI)
    fix pools p' dep q' assume s: "satisfies pools p' dep = Some q'"
    show "p' < length tes" by (rule p [OF s])
    show "q' < length tes" using q [OF s] by blast
    show "te_type (map rpmte.truncate tes ! q') = (if te_type (map rpmte.truncate tes ! p') = TR_REMOVED then TR_REMOVED else TR_ADDED)"
      using q [OF s] unfolding t [OF p [OF s]] t [OF conjunct1 [OF q [OF s]]] by blast
  qed
qed

end
